(* ===== verification/Prelude.thy ===== *)
theory Prelude
  imports Main "HOL-Library.Word" "HOL-Library.Monad_Syntax" "HOL-Library.AList"
    "HOL-Library.Char_ord" "HOL-Library.List_Lexorder" "HOL-Library.Product_Lexorder"
    "HOL-Library.Multiset"
begin

text \<open>
  Shared vocabulary of the development: the machine integers of Go, the three ways a Go
  call can end (a value, an error, a panic) plus exhaustion of the fuel a loop is given,
  the state monad over them, byte-array slices and in-place writes, and the big-endian
  codec of \<open>encoding/binary\<close>. A Go function that can only panic is modelled with
  \<open>option\<close> (\<open>None\<close> is the panic); one that can also return an \<open>error\<close> with \<open>res\<close>.
\<close>

unbundle bit_operations_syntax

named_theorems go_simps \<open>unfolding of the result and state monads\<close>
named_theorems bytes_simps \<open>reading and writing byte arrays\<close>

section \<open>Machine integers\<close>

type_synonym byte = "8 word"
type_synonym u8 = "8 word"
type_synonym u16 = "16 word"
type_synonym u32 = "32 word"
type_synonym u64 = "64 word"
type_synonym i64 = "64 word"

text \<open>Lengths and offsets are compared as \<open>nat\<close> and \<open>int (unat w)\<close>, so the rewriting of the latter
  to \<open>uint w\<close> is switched off.\<close>

declare of_nat_unat [simp del]

section \<open>Results of Go calls\<close>

datatype err =
    EIO                     \<comment> \<open>an operating-system error of a file operation\<close>
  | EReadPage u32
  | EWritePage u32
  | EBadMagic
  | ENoEvictable
  | EPinned u32
  | EKeyNotFound
  | EWalRead
  | ETxnNotActive u64
  | ELockTimeout u64 string
  | ELockUpgrade u64 string
  | ECancelled
  | ETableExists string
  | ETableNotFound string
  | ETableNotOpen string
  | EUnknownType string
  | EPlanNoTable string
  | EPlanColumns int int
  | EColumnNotFound string
  | EUnsupported string
  | ESyntax "(nat \<times> nat) list"  \<comment> \<open>line and column of each error of the parser\<close>
  | EPageLimit u32

datatype 'a res = Ok 'a | Err err | Panic | Stuck

text \<open>\<open>Stuck\<close> is the value of a loop or a recursion whose fuel ran out.\<close>

fun bindR :: "'a res \<Rightarrow> ('a \<Rightarrow> 'b res) \<Rightarrow> 'b res" where
  "bindR (Ok a) f = f a"
| "bindR (Err e) f = Err e"
| "bindR Panic f = Panic"
| "bindR Stuck f = Stuck"

lemma bindR_eq_Ok: "bindR m f = Ok b \<longleftrightarrow> (\<exists>a. m = Ok a \<and> f a = Ok b)"
  by (cases m) auto

text \<open>A computation without effects inside one with effects.\<close>

definition pureG :: "'a res \<Rightarrow> 's \<Rightarrow> 'a res \<times> 's" where
  "pureG r s = (r, s)"

type_synonym ('s, 'a) go = "'s \<Rightarrow> 'a res \<times> 's"

definition ret :: "'a \<Rightarrow> ('s, 'a) go" where
  "ret a s = (Ok a, s)"

definition fail :: "err \<Rightarrow> ('s, 'a) go" where
  "fail e s = (Err e, s)"

definition bindG :: "('s, 'a) go \<Rightarrow> ('a \<Rightarrow> ('s, 'b) go) \<Rightarrow> ('s, 'b) go" where
  "bindG m f s =
     (case m s of
        (Ok a, s') \<Rightarrow> f a s'
      | (Err e, s') \<Rightarrow> (Err e, s')
      | (Panic, s') \<Rightarrow> (Panic, s')
      | (Stuck, s') \<Rightarrow> (Stuck, s'))"

text \<open>\<open>on_err m h\<close> runs \<open>h\<close> before it passes on the error of \<open>m\<close>, as the Go code does in
  \<open>if err != nil { cleanup; return err }\<close>.\<close>

definition on_err :: "('s, 'a) go \<Rightarrow> ('s \<Rightarrow> 's) \<Rightarrow> ('s, 'a) go" where
  "on_err m h s = (case m s of (Err e, s') \<Rightarrow> (Err e, h s') | r \<Rightarrow> r)"

definition of_option :: "'a option \<Rightarrow> ('s, 'a) go" where
  "of_option x s = (case x of Some a \<Rightarrow> (Ok a, s) | None \<Rightarrow> (Panic, s))"

definition modifyG :: "('s \<Rightarrow> 's) \<Rightarrow> ('s, unit) go" where
  "modifyG h s = (Ok (), h s)"

definition getsG :: "('s \<Rightarrow> 'a) \<Rightarrow> ('s, 'a) go" where
  "getsG h s = (Ok (h s), s)"

definition stuck :: "('s, 'a) go" where
  "stuck s = (Stuck, s)"

lemma modifyG_app [go_simps, simp]: "modifyG h s = (Ok (), h s)"
  by (simp add: modifyG_def)

lemma getsG_app [go_simps, simp]: "getsG h s = (Ok (h s), s)"
  by (simp add: getsG_def)

lemma bindG_Ok [go_simps]: "m s = (Ok a, s') \<Longrightarrow> bindG m f s = f a s'"
  by (simp add: bindG_def)

lemma bindG_Err [go_simps]: "m s = (Err e, s') \<Longrightarrow> bindG m f s = (Err e, s')"
  by (simp add: bindG_def)

lemma bindG_Panic [go_simps]: "m s = (Panic, s') \<Longrightarrow> bindG m f s = (Panic, s')"
  by (simp add: bindG_def)

lemma bindG_Stuck [go_simps]: "m s = (Stuck, s') \<Longrightarrow> bindG m f s = (Stuck, s')"
  by (simp add: bindG_def)

lemma ret_app [go_simps, simp]: "ret a s = (Ok a, s)"
  by (simp add: ret_def)

lemma fail_app [go_simps, simp]: "fail e s = (Err e, s)"
  by (simp add: fail_def)

lemma of_option_Some [go_simps, simp]: "of_option (Some a) s = (Ok a, s)"
  by (simp add: of_option_def)

lemma of_option_None [go_simps, simp]: "of_option None s = (Panic, s)"
  by (simp add: of_option_def)

lemma bindG_eq_Ok:
  "bindG m f s = (Ok b, t) \<longleftrightarrow> (\<exists>a s'. m s = (Ok a, s') \<and> f a s' = (Ok b, t))"
  by (auto simp: bindG_def split: prod.splits res.splits)

lemma bindG_OkE [elim]:
  assumes "bindG m f s = (Ok b, t)"
  obtains a s' where "m s = (Ok a, s')" and "f a s' = (Ok b, t)"
  using assms by (auto simp: bindG_eq_Ok)

lemma on_err_eq_Ok [simp]: "on_err m h s = (Ok b, t) \<longleftrightarrow> m s = (Ok b, t)"
  by (auto simp: on_err_def split: prod.splits res.splits)

lemma of_option_eq_Ok [simp]: "of_option x s = (Ok a, t) \<longleftrightarrow> x = Some a \<and> t = s"
  by (auto simp: of_option_def split: option.splits)

section \<open>Byte arrays\<close>

text \<open>\<open>sub off k xs\<close> is the run of \<open>k\<close> bytes at \<open>off\<close>, \<open>upd off bs xs\<close> overwrites the bytes
  at \<open>off\<close>; both are used inside the array only. \<open>go_slice lo hi xs\<close> is Go's \<open>xs[lo:hi]\<close> with its
  bounds check.\<close>

definition sub :: "nat \<Rightarrow> nat \<Rightarrow> 'a list \<Rightarrow> 'a list" where
  "sub off k xs = take k (drop off xs)"

definition upd :: "nat \<Rightarrow> 'a list \<Rightarrow> 'a list \<Rightarrow> 'a list" where
  "upd off bs xs = take off xs @ bs @ drop (off + length bs) xs"

definition go_slice :: "nat \<Rightarrow> nat \<Rightarrow> 'a list \<Rightarrow> 'a list option" where
  "go_slice lo hi xs = (if lo \<le> hi \<and> hi \<le> length xs then Some (sub lo (hi - lo) xs) else None)"

text \<open>Go's \<open>copy(dst[off:], src)\<close>: the slice panics when \<open>off\<close> is past the end, and the copy
  stops at the end of the shorter side.\<close>

definition copy_at :: "nat \<Rightarrow> 'a list \<Rightarrow> 'a list \<Rightarrow> 'a list option" where
  "copy_at off src dst =
     (if off \<le> length dst then Some (upd off (take (length dst - off) src) dst) else None)"

text \<open>Writing a field of fixed width through a slice: \<open>PutUint16(xs[off:off+2], v)\<close> and its kin.\<close>

definition put_at :: "nat \<Rightarrow> 'a list \<Rightarrow> 'a list \<Rightarrow> 'a list option" where
  "put_at off bs xs = (if off + length bs \<le> length xs then Some (upd off bs xs) else None)"

lemma length_sub [simp, bytes_simps]: "off + k \<le> length xs \<Longrightarrow> length (sub off k xs) = k"
  by (simp add: sub_def)

lemma length_upd [simp, bytes_simps]: "off + length bs \<le> length xs \<Longrightarrow> length (upd off bs xs) = length xs"
  by (simp add: upd_def)

lemma sub_upd_same [bytes_simps]:
  "off + length bs \<le> length xs \<Longrightarrow> k = length bs \<Longrightarrow> sub off k (upd off bs xs) = bs"
  by (simp add: sub_def upd_def)

lemma sub_upd_before [bytes_simps]:
  assumes "off + length bs \<le> length xs" "o1 + k \<le> off"
  shows "sub o1 k (upd off bs xs) = sub o1 k xs"
  using assms by (intro nth_equalityI) (auto simp: sub_def upd_def nth_append)

lemma sub_upd_after [bytes_simps]:
  assumes "off + length bs \<le> length xs" "off + length bs \<le> o1"
  shows "sub o1 k (upd off bs xs) = sub o1 k xs"
proof -
  have "drop o1 (take off xs @ bs @ drop (off + length bs) xs) =
        drop (o1 - off - length bs) (drop (off + length bs) xs)"
    using assms by simp
  also have "\<dots> = drop o1 xs"
    using assms(2) by (simp add: algebra_simps)
  finally show ?thesis
    by (simp add: sub_def upd_def)
qed

lemma sub_upd_other:
  "off + length bs \<le> length xs \<Longrightarrow> o1 + k \<le> off \<or> off + length bs \<le> o1 \<Longrightarrow>
   sub o1 k (upd off bs xs) = sub o1 k xs"
  using sub_upd_before sub_upd_after by blast

lemma go_slice_Some [simp]:
  "lo \<le> hi \<Longrightarrow> hi \<le> length xs \<Longrightarrow> go_slice lo hi xs = Some (sub lo (hi - lo) xs)"
  by (simp add: go_slice_def)

lemma go_slice_eq_Some:
  "go_slice lo hi xs = Some ys \<longleftrightarrow> lo \<le> hi \<and> hi \<le> length xs \<and> ys = sub lo (hi - lo) xs"
  by (auto simp: go_slice_def)

lemma go_slice_None [simp]: "length xs < hi \<Longrightarrow> go_slice lo hi xs = None"
  by (simp add: go_slice_def)

lemma copy_at_inside [simp]:
  "off + length src \<le> length dst \<Longrightarrow> copy_at off src dst = Some (upd off src dst)"
  by (simp add: copy_at_def)

lemma put_at_inside [simp]:
  "off + length bs \<le> length xs \<Longrightarrow> put_at off bs xs = Some (upd off bs xs)"
  by (simp add: put_at_def)

lemma sub_append_left [simp]: "off + k \<le> length xs \<Longrightarrow> sub off k (xs @ ys) = sub off k xs"
  by (simp add: sub_def)

lemma sub_append_right [simp]:
  "length xs \<le> off \<Longrightarrow> sub off k (xs @ ys) = sub (off - length xs) k ys"
  by (simp add: sub_def)

lemma sub_all [simp]: "k = length xs \<Longrightarrow> sub 0 k xs = xs"
  by (simp add: sub_def)

lemma sub_Cons_Suc [simp]: "sub (Suc n) k (x # xs) = sub n k xs"
  by (simp add: sub_def)

lemma sub_Cons_numeral [simp]: "sub (numeral n) k (x # xs) = sub (pred_numeral n) k xs"
  by (simp add: sub_def)

lemma sub_0_append [simp]: "k = length xs \<Longrightarrow> sub 0 k (xs @ ys) = xs"
  by (simp add: sub_def)

lemma sub_sub: "o2 + k2 \<le> k1 \<Longrightarrow> sub o2 k2 (sub o1 k1 xs) = sub (o1 + o2) k2 xs"
  by (intro nth_equalityI) (auto simp: sub_def add.assoc)

section \<open>Big-endian integers (\<open>encoding/binary\<close>)\<close>

definition be_put :: "nat \<Rightarrow> 'a::len word \<Rightarrow> byte list" where
  "be_put n w = map (\<lambda>i. ucast (drop_bit (8 * i) w)) (rev [0..<n])"

definition be_get :: "byte list \<Rightarrow> 'a::len word" where
  "be_get bs = fold (\<lambda>b acc. push_bit 8 acc OR ucast b) bs 0"

lemma length_be_put [simp, bytes_simps]: "length (be_put n w) = n"
  by (simp add: be_put_def)

lemma be_put_Suc: "be_put (Suc n) w = ucast (drop_bit (8 * n) w) # be_put n w"
  by (simp add: be_put_def)

lemma bit_fold_be:
  "bit (fold (\<lambda>b acc. push_bit 8 acc OR ucast b) (be_put n w) (a :: 'a::len word)) m \<longleftrightarrow>
     m < LENGTH('a) \<and> (if m < 8 * n then bit (w :: 'a word) m else bit a (m - 8 * n))"
proof (induction n arbitrary: a)
  case 0
  then show ?case
    by (auto simp: be_put_def dest: bit_imp_le_length)
next
  case (Suc n)
  show ?case
    by (auto simp: be_put_Suc Suc bit_simps algebra_simps not_less dest: bit_imp_le_length)
qed

lemma be_get_Cons_nil: "be_get [b] = (ucast b :: 'a::len word)"
  by (simp add: be_get_def)

lemma be_get_put [simp, bytes_simps]:
  "LENGTH('a) \<le> 8 * n \<Longrightarrow> be_get (be_put n w) = (w :: 'a::len word)"
  by (rule bit_word_eqI) (auto simp: be_get_def bit_fold_be)

end
