(* ===== verification/Page.thy ===== *)
theory Page
  imports Prelude
begin

text \<open>
  \<open>storage/page/page.go\<close>: the slotted page, a block of 4096 bytes. The header fields are
  read and written at their byte offsets, the slot array grows upwards from byte 24, the
  cell contents grow downwards from byte 4096. Every operation is the byte manipulation of
  the source; \<open>page_cells\<close> reads a page as the list of its cells, and the lemmas say what each
  operation does to that list.
\<close>

section \<open>The page and its header\<close>

type_synonym page = "byte list"

abbreviation (input) page_size :: nat where "page_size \<equiv> 4096"
abbreviation (input) header_size :: nat where "header_size \<equiv> 24"
abbreviation (input) file_header_size :: nat where "file_header_size \<equiv> 4096"
abbreviation (input) slot_size :: nat where "slot_size \<equiv> 4"

definition type_internal :: u8 where "type_internal = 1"
definition type_leaf :: u8 where "type_leaf = 2"

definition page_type :: "page \<Rightarrow> u8" where
  "page_type p = p ! 0"

definition set_type :: "u8 \<Rightarrow> page \<Rightarrow> page" where
  "set_type t p = upd 0 [t] p"

definition page_id :: "page \<Rightarrow> u32" where
  "page_id p = be_get (sub 1 4 p)"

definition set_page_id :: "u32 \<Rightarrow> page \<Rightarrow> page" where
  "set_page_id i p = upd 1 (be_put 4 i) p"

definition lsn :: "page \<Rightarrow> u64" where
  "lsn p = be_get (sub 5 8 p)"

definition set_lsn :: "u64 \<Rightarrow> page \<Rightarrow> page" where
  "set_lsn l p = upd 5 (be_put 8 l) p"

definition cell_count :: "page \<Rightarrow> u16" where
  "cell_count p = be_get (sub 13 2 p)"

definition set_cell_count :: "u16 \<Rightarrow> page \<Rightarrow> page" where
  "set_cell_count n p = upd 13 (be_put 2 n) p"

definition cell_content_offset :: "page \<Rightarrow> u16" where
  "cell_content_offset p = be_get (sub 15 2 p)"

definition set_cell_content_offset :: "u16 \<Rightarrow> page \<Rightarrow> page" where
  "set_cell_content_offset off p = upd 15 (be_put 2 off) p"

definition freelist_head :: "page \<Rightarrow> u16" where
  "freelist_head p = be_get (sub 17 2 p)"

definition fragmented_bytes :: "page \<Rightarrow> u8" where
  "fragmented_bytes p = p ! 19"

definition rightmost_child :: "page \<Rightarrow> u32" where
  "rightmost_child p = be_get (sub 20 4 p)"

definition set_rightmost_child :: "u32 \<Rightarrow> page \<Rightarrow> page" where
  "set_rightmost_child i p = upd 20 (be_put 4 i) p"

definition new_page :: "u8 \<Rightarrow> u32 \<Rightarrow> page" where
  "new_page t i =
     set_cell_content_offset (of_nat page_size) (set_page_id i (set_type t (replicate page_size 0)))"

text \<open>\<open>FromBytes\<close> panics on a slice of another length.\<close>

definition from_bytes :: "byte list \<Rightarrow> page option" where
  "from_bytes b = (if length b = page_size then Some b else None)"

section \<open>Slots and cells\<close>

definition slot_offset :: "nat \<Rightarrow> nat" where
  "slot_offset i = header_size + i * slot_size"

definition get_slot :: "nat \<Rightarrow> page \<Rightarrow> (u16 \<times> u16) option" where
  "get_slot i p =
     (let off = slot_offset i in
      do { a \<leftarrow> go_slice off (off + 2) p;
           b \<leftarrow> go_slice (off + 2) (off + 4) p;
           Some (be_get a, be_get b) })"

definition set_slot :: "nat \<Rightarrow> u16 \<Rightarrow> u16 \<Rightarrow> page \<Rightarrow> page option" where
  "set_slot i cell_off cell_len p =
     (let off = slot_offset i in
      do { p1 \<leftarrow> put_at off (be_put 2 cell_off) p;
           put_at (off + 2) (be_put 2 cell_len) p1 })"

definition free_space :: "page \<Rightarrow> int" where
  "free_space p =
     (let slot_end = int header_size + int (unat (cell_count p)) * int slot_size
      in int (unat (cell_content_offset p)) - slot_end)"

text \<open>The loop of \<open>InsertCellAt\<close>: \<open>for j := n - 1; j >= i; j--\<close>, called with \<open>n\<close>.\<close>

fun shift_up :: "nat \<Rightarrow> nat \<Rightarrow> page \<Rightarrow> page option" where
  "shift_up i 0 p = Some p"
| "shift_up i (Suc j) p =
     (if j < i then Some p
      else do { (off, len) \<leftarrow> get_slot j p;
                p' \<leftarrow> set_slot (j + 1) off len p;
                shift_up i j p' })"

text \<open>The result says whether the cell was placed; \<open>None\<close> is the panic on a bad index.\<close>

definition insert_cell_at :: "int \<Rightarrow> byte list \<Rightarrow> page \<Rightarrow> (bool \<times> page) option" where
  "insert_cell_at i cell p =
     (let n = int (unat (cell_count p)) in
      if i < 0 \<or> i > n then None
      else if length cell = 0 \<or> free_space p < int (length cell) + int slot_size then Some (False, p)
      else
        let new_off = cell_content_offset p - of_nat (length cell) in
        do { p1 \<leftarrow> copy_at (unat new_off) cell p;
             p2 \<leftarrow> shift_up (nat i) (nat n) (set_cell_content_offset new_off p1);
             p3 \<leftarrow> set_slot (nat i) new_off (of_nat (length cell)) p2;
             Some (True, set_cell_count (of_nat (nat n + 1)) p3) })"

definition add_cell :: "byte list \<Rightarrow> page \<Rightarrow> (bool \<times> page) option" where
  "add_cell cell p = insert_cell_at (int (unat (cell_count p))) cell p"

text \<open>The slice bound \<open>off + length\<close> of \<open>CellAt\<close> is a 16-bit sum.\<close>

definition cell_at :: "nat \<Rightarrow> page \<Rightarrow> byte list option" where
  "cell_at i p =
     do { (off, len) \<leftarrow> get_slot i p;
          go_slice (unat off) (unat (off + len)) p }"

text \<open>The loop of \<open>DeleteCell\<close>: \<open>for j := i; j < n - 1; j++\<close>.\<close>

function shift_down :: "nat \<Rightarrow> nat \<Rightarrow> page \<Rightarrow> page option" where
  "shift_down j n p =
     (if j < n - 1
      then do { (off, len) \<leftarrow> get_slot (j + 1) p;
                p' \<leftarrow> set_slot j off len p;
                shift_down (j + 1) n p' }
      else Some p)"
  by pat_completeness auto
termination
  by (relation "measure (\<lambda>(j, n, p). n - 1 - j)") auto

declare shift_down.simps [simp del]

definition delete_cell :: "int \<Rightarrow> page \<Rightarrow> page option" where
  "delete_cell i p =
     (let n = int (unat (cell_count p)) in
      if n = 0 \<or> i < 0 \<or> i \<ge> n then None
      else do { p' \<leftarrow> shift_down (nat i) (nat n) p;
                Some (set_cell_count (of_nat (nat n - 1)) p') })"

section \<open>Reading a page as its list of cells\<close>

definition slot_at :: "page \<Rightarrow> nat \<Rightarrow> nat \<times> nat" where
  "slot_at p i = (unat (be_get (sub (slot_offset i) 2 p) :: u16),
                  unat (be_get (sub (slot_offset i + 2) 2 p) :: u16))"

definition slots :: "page \<Rightarrow> (nat \<times> nat) list" where
  "slots p = map (slot_at p) [0..<unat (cell_count p)]"

definition page_cells :: "page \<Rightarrow> byte list list" where
  "page_cells p = map (\<lambda>(off, len). sub off len p) (slots p)"

fun disjoint_slots :: "nat \<times> nat \<Rightarrow> nat \<times> nat \<Rightarrow> bool" where
  "disjoint_slots (o1, l1) (o2, l2) \<longleftrightarrow> o1 + l1 \<le> o2 \<or> o2 + l2 \<le> o1"

definition page_wf :: "page \<Rightarrow> bool" where
  "page_wf p \<longleftrightarrow>
     length p = page_size \<and>
     slot_offset (unat (cell_count p)) \<le> unat (cell_content_offset p) \<and>
     unat (cell_content_offset p) \<le> page_size \<and>
     (\<forall>(off, len) \<in> set (slots p).
        unat (cell_content_offset p) \<le> off \<and> 0 < len \<and> off + len \<le> page_size) \<and>
     sorted_wrt disjoint_slots (slots p)"

text \<open>The header fields that the cell operations leave alone.\<close>

definition same_header :: "page \<Rightarrow> page \<Rightarrow> bool" where
  "same_header p q \<longleftrightarrow>
     page_type q = page_type p \<and> page_id q = page_id p \<and> lsn q = lsn p \<and>
     freelist_head q = freelist_head p \<and> fragmented_bytes q = fragmented_bytes p \<and>
     rightmost_child q = rightmost_child p"

section \<open>Header fields and raw slots\<close>

lemmas header_defs = page_type_def set_type_def page_id_def set_page_id_def lsn_def set_lsn_def
  cell_count_def set_cell_count_def cell_content_offset_def set_cell_content_offset_def
  freelist_head_def fragmented_bytes_def rightmost_child_def set_rightmost_child_def

lemma nth_upd: "off + length bs \<le> length xs \<Longrightarrow> i < length xs \<Longrightarrow>
  upd off bs xs ! i = (if off \<le> i \<and> i < off + length bs then bs ! (i - off) else xs ! i)"
  by (auto simp: upd_def nth_append min_def)

lemma length_setters [simp]:
  assumes "length p = 4096"
  shows "length (set_type t p) = 4096" "length (set_page_id i p) = 4096" "length (set_lsn l p) = 4096"
    "length (set_cell_count n p) = 4096" "length (set_cell_content_offset off p) = 4096"
    "length (set_rightmost_child c p) = 4096"
  using assms by (simp_all add: header_defs)

lemma getters_set_lsn [simp]:
  assumes "length p = 4096"
  shows "page_type (set_lsn l p) = page_type p" "page_id (set_lsn l p) = page_id p" "lsn (set_lsn l p) = l"
    "cell_count (set_lsn l p) = cell_count p"
    "cell_content_offset (set_lsn l p) = cell_content_offset p"
    "freelist_head (set_lsn l p) = freelist_head p"
    "fragmented_bytes (set_lsn l p) = fragmented_bytes p"
    "rightmost_child (set_lsn l p) = rightmost_child p"
  using assms by (simp_all add: header_defs nth_upd sub_upd_same sub_upd_before sub_upd_after)

lemma getters_set_rightmost_child [simp]:
  assumes "length p = 4096"
  shows "page_type (set_rightmost_child c p) = page_type p" "page_id (set_rightmost_child c p) = page_id p"
    "lsn (set_rightmost_child c p) = lsn p"
    "cell_count (set_rightmost_child c p) = cell_count p"
    "cell_content_offset (set_rightmost_child c p) = cell_content_offset p"
    "freelist_head (set_rightmost_child c p) = freelist_head p"
    "fragmented_bytes (set_rightmost_child c p) = fragmented_bytes p"
    "rightmost_child (set_rightmost_child c p) = c"
  using assms by (simp_all add: header_defs nth_upd sub_upd_same sub_upd_before sub_upd_after)

lemma same_headerI:
  assumes "length p = 4096" "length q = 4096" "sub 0 13 q = sub 0 13 p" "sub 17 7 q = sub 17 7 p"
  shows "same_header p q"
proof -
  have a: "sub a b q = sub a b p" if "a + b \<le> 13" for a b
    using that sub_sub [of a b 13 0 q] sub_sub [of a b 13 0 p] assms(3) by simp
  have b: "sub (17 + a) b q = sub (17 + a) b p" if "a + b \<le> 7" for a b
    using that sub_sub [of a b 7 17 q] sub_sub [of a b 7 17 p] assms(4) by simp
  have n: "xs ! i = sub i 1 xs ! 0" if "length xs = 4096" "i < 4096" for i and xs :: page
    using that by (simp add: sub_def)
  show ?thesis
    using a [of 0 1] a [of 1 4] a [of 5 8] b [of 0 2] b [of 2 1] b [of 3 4]
    by (simp add: same_header_def header_defs n assms(1,2))
qed

lemma same_header_refl [simp]: "same_header p p"
  by (simp add: same_header_def)

lemma same_header_trans [trans]: "same_header p q \<Longrightarrow> same_header q r \<Longrightarrow> same_header p r"
  by (simp add: same_header_def)

lemma get_slot_slot_at:
  "slot_offset i + 4 \<le> length p \<Longrightarrow>
   get_slot i p = Some (be_get (sub (slot_offset i) 2 p), be_get (sub (slot_offset i + 2) 2 p))"
  by (simp add: get_slot_def Let_def)

lemma set_slot_inside:
  "slot_offset i + 4 \<le> length p \<Longrightarrow>
   set_slot i o1 l1 p = Some (upd (slot_offset i) (be_put 2 o1 @ be_put 2 l1) p)"
  by (simp add: set_slot_def Let_def upd_def min_def drop_take numeral_eq_Suc)

lemma slot_at_upd_same:
  "slot_offset i + 4 \<le> length p \<Longrightarrow>
   slot_at (upd (slot_offset i) (be_put 2 o1 @ be_put 2 l1) p) i = (unat (o1 :: u16), unat (l1 :: u16))"
proof -
  assume a: "slot_offset i + 4 \<le> length p"
  let ?q = "upd (slot_offset i) (be_put 2 o1 @ be_put 2 l1) p"
  have q: "sub (slot_offset i) 4 ?q = be_put 2 o1 @ be_put 2 l1"
    using a by (intro sub_upd_same) auto
  have "sub (slot_offset i) 2 ?q = be_put 2 o1" "sub (slot_offset i + 2) 2 ?q = be_put 2 l1"
    using sub_sub [of 0 2 4 "slot_offset i" ?q] sub_sub [of 2 2 4 "slot_offset i" ?q]
    by (simp_all add: q)
  then show ?thesis
    by (simp add: slot_at_def)
qed

lemma slot_at_cong:
  "sub (slot_offset i) 4 q = sub (slot_offset i) 4 p \<Longrightarrow> slot_at q i = slot_at p i"
  using sub_sub [of 0 2 4 "slot_offset i" q] sub_sub [of 2 2 4 "slot_offset i" q]
    sub_sub [of 0 2 4 "slot_offset i" p] sub_sub [of 2 2 4 "slot_offset i" p]
  by (simp add: slot_at_def)

lemma slot_offset_mono: "i < j \<Longrightarrow> slot_offset i + 4 \<le> slot_offset j"
  by (simp add: slot_offset_def)

lemma slot_offset_Suc: "slot_offset (Suc i) = slot_offset i + 4"
  by (simp add: slot_offset_def)

text \<open>One step of either shifting loop: slot \<open>a\<close> is copied over slot \<open>b\<close>.\<close>

lemma move_slot:
  assumes "length p = 4096" "slot_offset a + 4 \<le> 4096" "slot_offset b + 4 \<le> 4096"
  obtains o1 l1 q where "get_slot a p = Some (o1, l1)" "set_slot b o1 l1 p = Some q"
    "length q = 4096" "slot_at q b = slot_at p a"
    "\<And>x k. x + k \<le> slot_offset b \<or> slot_offset b + 4 \<le> x \<Longrightarrow> sub x k q = sub x k p"
    "\<And>k. k \<noteq> b \<Longrightarrow> slot_at q k = slot_at p k"
proof -
  define o1 l1 where "o1 = (be_get (sub (slot_offset a) 2 p) :: u16)"
    and "l1 = (be_get (sub (slot_offset a + 2) 2 p) :: u16)"
  define q where "q = upd (slot_offset b) (be_put 2 o1 @ be_put 2 l1) p"
  have sub: "sub x k q = sub x k p" if "x + k \<le> slot_offset b \<or> slot_offset b + 4 \<le> x" for x k
    using that assms unfolding q_def by (intro sub_upd_other) auto
  show thesis
  proof (rule that [of o1 l1 q])
    show "get_slot a p = Some (o1, l1)"
      using assms by (simp add: get_slot_slot_at o1_def l1_def)
    show "set_slot b o1 l1 p = Some q"
      using assms by (simp add: set_slot_inside q_def)
    show "length q = 4096"
      using assms by (simp add: q_def)
    show "slot_at q b = slot_at p a"
      using assms by (simp add: q_def slot_at_upd_same) (simp add: slot_at_def o1_def l1_def)
    show "slot_at q k = slot_at p k" if "k \<noteq> b" for k
      using that sub slot_offset_mono [of k b] slot_offset_mono [of b k]
      by (intro slot_at_cong sub) linarith
  qed (rule sub)
qed

lemma shift_up_spec:
  assumes "length p = 4096" "slot_offset n + 4 \<le> 4096" "i \<le> n"
  obtains q where "shift_up i n p = Some q" "length q = 4096"
    "\<And>k. slot_at q k = (if i < k \<and> k \<le> n then slot_at p (k - 1) else slot_at p k)"
    "\<And>x k. x + k \<le> slot_offset (Suc i) \<or> slot_offset (Suc n) \<le> x \<Longrightarrow> sub x k q = sub x k p"
  using assms
proof (induction n arbitrary: p thesis)
  case 0
  then show ?case by (auto simp: slot_offset_def)
next
  case (Suc n)
  show ?case
  proof (cases "n < i")
    case True
    then have "i = Suc n" using Suc.prems(4) by simp
    then show ?thesis
      by (intro Suc.prems(1) [of p]) (auto simp: Suc.prems(2))
  next
    case False
    then have "i \<le> n" by simp
    have off: "slot_offset n + 4 \<le> 4096"
      using Suc.prems(3) by (simp add: slot_offset_def)
    obtain o1 l1 r where r: "get_slot n p = Some (o1, l1)" "set_slot (Suc n) o1 l1 p = Some r"
      "length r = 4096" "slot_at r (Suc n) = slot_at p n"
      "\<And>x k. x + k \<le> slot_offset (Suc n) \<or> slot_offset (Suc n) + 4 \<le> x \<Longrightarrow> sub x k r = sub x k p"
      "\<And>k. k \<noteq> Suc n \<Longrightarrow> slot_at r k = slot_at p k"
      using move_slot [of p n "Suc n"] Suc.prems off by metis
    obtain q where q: "shift_up i n r = Some q" "length q = 4096"
      "\<And>k. slot_at q k = (if i < k \<and> k \<le> n then slot_at r (k - 1) else slot_at r k)"
      "\<And>x k. x + k \<le> slot_offset (Suc i) \<or> slot_offset (Suc n) \<le> x \<Longrightarrow> sub x k q = sub x k r"
      using Suc.IH [of r] r(3) off \<open>i \<le> n\<close> by metis
    show ?thesis
    proof (rule Suc.prems(1) [of q])
      show "shift_up i (Suc n) p = Some q"
        using False r(1,2) q(1) by simp
      show "slot_at q k = (if i < k \<and> k \<le> Suc n then slot_at p (k - 1) else slot_at p k)" for k
        using q(3) [of k] r(4,6) \<open>i \<le> n\<close> by (cases "k = Suc n") auto
      show "sub x k q = sub x k p"
        if "x + k \<le> slot_offset (Suc i) \<or> slot_offset (Suc (Suc n)) \<le> x" for x k
        using that q(4) [of x k] r(5) [of x k] \<open>i \<le> n\<close> by (auto simp: slot_offset_def)
    qed (rule q(2))
  qed
qed

lemma shift_down_spec:
  assumes "length p = 4096" "slot_offset n \<le> 4096" "j < n"
  obtains q where "shift_down j n p = Some q" "length q = 4096"
    "\<And>k. slot_at q k = (if j \<le> k \<and> k < n - 1 then slot_at p (Suc k) else slot_at p k)"
    "\<And>x k. x + k \<le> slot_offset j \<or> slot_offset n \<le> x \<Longrightarrow> sub x k q = sub x k p"
  using assms
proof (induction j n p arbitrary: thesis rule: shift_down.induct)
  case (1 j n p)
  show ?case
  proof (cases "j < n - 1")
    case False
    then show ?thesis
      by (intro "1.prems"(1) [of p]) (auto simp: "1.prems"(2) shift_down.simps [of j])
  next
    case True
    then have "Suc j < n" by simp
    have off: "slot_offset (j + 1) + 4 \<le> 4096" "slot_offset j + 4 \<le> 4096"
      using True "1.prems"(3) by (auto simp: slot_offset_def)
    obtain o1 l1 r where r: "get_slot (j + 1) p = Some (o1, l1)" "set_slot j o1 l1 p = Some r"
      "length r = 4096" "slot_at r j = slot_at p (j + 1)"
      "\<And>x k. x + k \<le> slot_offset j \<or> slot_offset j + 4 \<le> x \<Longrightarrow> sub x k r = sub x k p"
      "\<And>k. k \<noteq> j \<Longrightarrow> slot_at r k = slot_at p k"
      using move_slot [of p "j + 1" j] "1.prems"(2) off by metis
    obtain q where q: "shift_down (j + 1) n r = Some q" "length q = 4096"
      "\<And>k. slot_at q k = (if j + 1 \<le> k \<and> k < n - 1 then slot_at r (Suc k) else slot_at r k)"
      "\<And>x k. x + k \<le> slot_offset (j + 1) \<or> slot_offset n \<le> x \<Longrightarrow> sub x k q = sub x k r"
      using "1.IH" [OF True r(1) _ r(2)] r(3) "1.prems"(3) True by (metis less_diff_conv)
    show ?thesis
    proof (rule "1.prems"(1) [of q])
      show "shift_down j n p = Some q"
        using True r(1,2) q(1) by (simp add: shift_down.simps [of j])
      show "slot_at q k = (if j \<le> k \<and> k < n - 1 then slot_at p (Suc k) else slot_at p k)" for k
        using q(3) [of k] r(4,6) True by (cases "k = j") auto
      show "sub x k q = sub x k p" if "x + k \<le> slot_offset j \<or> slot_offset n \<le> x" for x k
        using that q(4) [of x k] r(5) [of x k] \<open>Suc j < n\<close>
        by (auto simp: slot_offset_def)
    qed (rule q(2))
  qed
qed


section \<open>Well-formed pages\<close>

lemma page_wfD:
  assumes "page_wf p"
  shows page_wf_length: "length p = 4096"
    and page_wf_offset: "slot_offset (unat (cell_count p)) \<le> unat (cell_content_offset p)"
    and page_wf_content: "unat (cell_content_offset p) \<le> 4096"
    and page_wf_slot: "(off, len) \<in> set (slots p) \<Longrightarrow>
      unat (cell_content_offset p) \<le> off \<and> 0 < len \<and> off + len \<le> 4096"
    and page_wf_disjoint: "sorted_wrt disjoint_slots (slots p)"
  using assms by (auto simp: page_wf_def)

lemma length_slots [simp]: "length (slots p) = unat (cell_count p)"
  by (simp add: slots_def)

lemma length_page_cells [simp]: "length (page_cells p) = unat (cell_count p)"
  by (simp add: page_cells_def)

lemma disjoint_slots_sym: "disjoint_slots a b \<Longrightarrow> disjoint_slots b a"
  by (cases a; cases b) auto

lemma free_space_nat:
  "free_space p = int (unat (cell_content_offset p)) - int (slot_offset (unat (cell_count p)))"
  by (simp add: free_space_def slot_offset_def Let_def)

lemma insert_cell_at_full:
  assumes "i \<le> length (page_cells p)" "cell = [] \<or> free_space p < int (length cell) + 4"
  shows "insert_cell_at (int i) cell p = Some (False, p)"
  using assms by (auto simp: insert_cell_at_def Let_def)

lemma insert_slots:
  assumes "\<And>k. k \<le> n \<Longrightarrow> slot_at q k = (if k = i then s else if i < k then slot_at p (k - 1) else slot_at p k)"
    "unat (cell_count p) = n" "unat (cell_count q) = Suc n" "i \<le> n"
  shows "slots q = take i (slots p) @ s # drop i (slots p)"
  using assms(2,3,4)
  by (intro nth_equalityI) (auto simp: slots_def assms(1) nth_append nth_Cons' min_def less_Suc_eq)

lemma insert_cell_at_bytes:
  assumes wf: "page_wf p" and i: "i \<le> unat (cell_count p)" and ne: "cell \<noteq> []"
    and fits: "int (length cell) + 4 \<le> free_space p"
  obtains q where "insert_cell_at (int i) cell p = Some (True, q)" "length q = 4096"
    "unat (cell_count q) = Suc (unat (cell_count p))"
    "unat (cell_content_offset q) = unat (cell_content_offset p) - length cell"
    "same_header p q"
    "slots q = take i (slots p) @ (unat (cell_content_offset p) - length cell, length cell) # drop i (slots p)"
    "\<And>x k. unat (cell_content_offset p) \<le> x \<Longrightarrow> sub x k q = sub x k p"
    "sub (unat (cell_content_offset p) - length cell) (length cell) q = cell"
proof -
  define n where "n = unat (cell_count p)"
  define c where "c = unat (cell_content_offset p)"
  define L where "L = length cell"
  define w where "w = cell_content_offset p - of_nat L"
  note len = page_wf_length [OF wf]
  have room: "slot_offset (Suc n) + L \<le> c" and c: "c \<le> 4096"
    using fits page_wf_content [OF wf] by (simp_all add: free_space_nat n_def c_def L_def slot_offset_def)
  have uL: "unat (of_nat L :: u16) = L"
    using room c by (simp add: unat_of_nat)
  have uw: "unat w = c - L"
    using room unfolding w_def by (subst unat_sub) (auto simp: word_le_nat_alt uL c_def)
  have un: "unat (of_nat (Suc n) :: u16) = Suc n"
    using room c by (simp add: unat_of_nat slot_offset_def del: of_nat_Suc)
  define p1 where "p1 = set_cell_content_offset w (upd (c - L) cell p)"
  have l1: "length p1 = 4096"
    using len room c by (simp add: p1_def L_def set_cell_content_offset_def)
  have p1: "sub x k p1 = sub x k p"
    if "x + k \<le> 15 \<or> 17 \<le> x" "x + k \<le> c - L \<or> c \<le> x" for x k
    using that len room c unfolding p1_def set_cell_content_offset_def L_def
    by (auto simp: sub_upd_other)
  have n4: "slot_offset n + 4 \<le> 4096"
    using room c by (simp add: slot_offset_def)
  obtain p2 where p2: "shift_up i n p1 = Some p2" "length p2 = 4096"
    "\<And>k. slot_at p2 k = (if i < k \<and> k \<le> n then slot_at p1 (k - 1) else slot_at p1 k)"
    "\<And>x k. x + k \<le> slot_offset (Suc i) \<or> slot_offset (Suc n) \<le> x \<Longrightarrow> sub x k p2 = sub x k p1"
    using shift_up_spec [OF l1 n4] i n_def by metis
  have i4: "slot_offset i + 4 \<le> slot_offset (Suc n)" "24 \<le> slot_offset i" "slot_offset (Suc n) \<le> 4096"
    using i n4 by (simp_all add: slot_offset_def n_def)
  define p3 where "p3 = upd (slot_offset i) (be_put 2 w @ be_put 2 (of_nat L :: u16)) p2"
  have p3: "set_slot i w (of_nat L) p2 = Some p3"
    using i4 p2(2) by (simp add: set_slot_inside p3_def)
  have l3: "length p3 = 4096"
    using i4 p2(2) by (simp add: p3_def)
  have s3: "sub x k p3 = sub x k p2" if "x + k \<le> slot_offset i \<or> slot_offset i + 4 \<le> x" for x k
    using that i4 p2(2) unfolding p3_def by (intro sub_upd_other) auto
  define q where "q = set_cell_count (of_nat (n + 1)) p3"
  have lq: "length q = 4096"
    using l3 by (simp add: q_def)
  have sq: "sub x k q = sub x k p3" if "x + k \<le> 13 \<or> 15 \<le> x" for x k
    using that l3 unfolding q_def set_cell_count_def by (auto simp: sub_upd_other)
  have far: "sub x k q = sub x k p1" if "slot_offset (Suc n) \<le> x" for x k
    using that sq s3 p2(4) i4 by simp
  have near: "sub x k q = sub x k p1" if "x + k \<le> 13 \<or> 15 \<le> x" "x + k \<le> 24" for x k
    using that sq s3 p2(4) i4 by (simp add: slot_offset_def)
  have slot: "slot_at q k = (if k = i then (c - L, L) else if i < k \<and> k \<le> n then slot_at p (k - 1) else slot_at p k)"
    if "k \<le> n" for k
  proof -
    have q3: "slot_at q k = slot_at p3 k" for k
      by (intro slot_at_cong sq) (simp add: slot_offset_def)
    have p3p2: "slot_at p3 k = (if k = i then (c - L, L) else slot_at p2 k)"
    proof (cases "k = i")
      case True
      then show ?thesis
        using i4 p2(2) by (simp add: p3_def slot_at_upd_same uw uL)
    next
      case False
      then have "slot_at p3 k = slot_at p2 k"
        using slot_offset_mono [of k i] slot_offset_mono [of i k]
        by (intro slot_at_cong s3) linarith
      with False show ?thesis by simp
    qed
    have "slot_at p1 m = slot_at p m" if "m \<le> n" for m
      using that room by (intro slot_at_cong p1) (auto simp: slot_offset_def)
    then show ?thesis
      using that by (simp add: q3 p3p2 p2(3))
  qed
  have cc: "unat (cell_count q) = Suc n"
    using l3 un by (simp add: q_def cell_count_def set_cell_count_def sub_upd_same del: of_nat_Suc)
  have cco: "cell_content_offset q = w"
  proof -
    have "sub 15 2 q = sub 15 2 p1" by (rule near) simp_all
    also have "\<dots> = be_put 2 w"
      using len room c by (simp add: p1_def set_cell_content_offset_def L_def sub_upd_same)
    finally show ?thesis by (simp add: cell_content_offset_def)
  qed
  show thesis
  proof (rule that [of q])
    have "copy_at (unat w) cell p = Some (upd (c - L) cell p)"
      using len room c uw by (simp add: L_def)
    moreover have "0 < L" using ne by (simp add: L_def)
    ultimately show "insert_cell_at (int i) cell p = Some (True, q)"
      using ne fits i p2(1) p3
      by (simp add: insert_cell_at_def Let_def n_def [symmetric] L_def [symmetric] w_def [symmetric]
          p1_def [symmetric] q_def)
    show "length q = 4096" by (rule lq)
    show "unat (cell_count q) = Suc (unat (cell_count p))"
      using cc by (simp add: n_def)
    show "unat (cell_content_offset q) = unat (cell_content_offset p) - length cell"
      using cco uw by (simp add: c_def L_def)
    show "same_header p q"
      using room by (intro same_headerI len lq) (simp_all add: near p1 slot_offset_def)
    have "slots q = take i (slots p) @ (c - L, L) # drop i (slots p)"
      using slot i cc by (intro insert_slots [where n = n]) (auto simp: n_def)
    then show "slots q = take i (slots p) @
        (unat (cell_content_offset p) - length cell, length cell) # drop i (slots p)"
      by (simp add: c_def L_def)
    show "sub x k q = sub x k p" if "unat (cell_content_offset p) \<le> x" for x k
      using that room far [of x k] p1 [of x k] by (simp add: c_def slot_offset_def)
    have "sub (c - L) L q = sub (c - L) L p1"
      using room by (intro far) simp
    also have "\<dots> = sub (c - L) L (upd (c - L) cell p)"
      using room c len unfolding p1_def set_cell_content_offset_def
      by (intro sub_upd_other) (auto simp: L_def slot_offset_def)
    also have "\<dots> = cell"
      using room c len by (intro sub_upd_same) (simp_all add: L_def)
    finally show "sub (unat (cell_content_offset p) - length cell) (length cell) q = cell"
      by (simp add: c_def L_def)
  qed
qed


lemma insert_cell_at_ok:
  assumes wf: "page_wf p" and i: "i \<le> length (page_cells p)" and ne: "cell \<noteq> []"
    and fits: "int (length cell) + 4 \<le> free_space p"
  obtains q where "insert_cell_at (int i) cell p = Some (True, q)" "page_wf q" "same_header p q"
    "page_cells q = take i (page_cells p) @ cell # drop i (page_cells p)"
    "free_space q = free_space p - int (length cell) - 4"
proof -
  let ?c = "unat (cell_content_offset p)" and ?L = "length cell"
  obtain q where q: "insert_cell_at (int i) cell p = Some (True, q)" "length q = 4096"
    "unat (cell_count q) = Suc (unat (cell_count p))"
    "unat (cell_content_offset q) = ?c - ?L" "same_header p q"
    "slots q = take i (slots p) @ (?c - ?L, ?L) # drop i (slots p)"
    "\<And>x k. ?c \<le> x \<Longrightarrow> sub x k q = sub x k p" "sub (?c - ?L) ?L q = cell"
    using insert_cell_at_bytes [OF wf _ ne fits, of i] i by (metis length_page_cells)
  have room: "slot_offset (Suc (unat (cell_count p))) + ?L \<le> ?c" and c: "?c \<le> 4096"
    using fits page_wf_content [OF wf] by (simp_all add: free_space_nat slot_offset_def)
  have old: "?c \<le> off \<and> 0 < len \<and> off + len \<le> 4096" if "(off, len) \<in> set (slots p)" for off len
    using page_wf_slot [OF wf that] .
  have olds: "set (take i (slots p)) \<subseteq> set (slots p)" "set (drop i (slots p)) \<subseteq> set (slots p)"
    by (rule set_take_subset, rule set_drop_subset)
  have new_disj: "disjoint_slots (?c - ?L, ?L) s" if "s \<in> set (slots p)" for s
    using old [of "fst s" "snd s"] that room by (cases s) auto
  have "page_wf q"
    unfolding page_wf_def
  proof (intro conjI)
    show "\<forall>(off, len)\<in>set (slots q). unat (cell_content_offset q) \<le> off \<and> 0 < len \<and> off + len \<le> 4096"
      using old olds room c ne unfolding q(4,6) by fastforce
    have "sorted_wrt disjoint_slots (take i (slots p) @ drop i (slots p))"
      using page_wf_disjoint [OF wf] by simp
    then show "sorted_wrt disjoint_slots (slots q)"
      using new_disj olds disjoint_slots_sym
      unfolding q(6) sorted_wrt_append by fastforce
  qed (use q(2,3,4) room c in simp_all)
  moreover have "page_cells q = take i (page_cells p) @ cell # drop i (page_cells p)"
  proof -
    have same: "(case s of (off, len) \<Rightarrow> sub off len q) = (case s of (off, len) \<Rightarrow> sub off len p)"
      if "s \<in> set (slots p)" for s
      using that old q(7) by (auto split: prod.splits)
    then have "map (\<lambda>(off, len). sub off len q) (take i (slots p)) = map (\<lambda>(off, len). sub off len p) (take i (slots p))"
      "map (\<lambda>(off, len). sub off len q) (drop i (slots p)) = map (\<lambda>(off, len). sub off len p) (drop i (slots p))"
      using olds by (auto intro!: map_cong)
    then show ?thesis
      by (simp add: page_cells_def q(6,8) take_map drop_map)
  qed
  moreover have "free_space q = free_space p - int ?L - 4"
    using room by (simp add: free_space_nat q(3,4) slot_offset_def)
  ultimately show thesis
    using that q(1,5) by blast
qed

lemma delete_cell_ok:
  assumes wf: "page_wf p" and i: "i < length (page_cells p)"
  obtains q where "delete_cell (int i) p = Some q" "page_wf q" "same_header p q"
    "page_cells q = take i (page_cells p) @ drop (Suc i) (page_cells p)"
    "free_space q = free_space p + 4"
proof -
  define n where "n = unat (cell_count p)"
  note len = page_wf_length [OF wf]
  have i: "i < n" using i by (simp add: n_def)
  have n4: "slot_offset n \<le> 4096"
    using page_wf_offset [OF wf] page_wf_content [OF wf] by (simp add: n_def)
  obtain p1 where p1: "shift_down i n p = Some p1" "length p1 = 4096"
    "\<And>k. slot_at p1 k = (if i \<le> k \<and> k < n - 1 then slot_at p (Suc k) else slot_at p k)"
    "\<And>x k. x + k \<le> slot_offset i \<or> slot_offset n \<le> x \<Longrightarrow> sub x k p1 = sub x k p"
    using shift_down_spec [OF len n4 i] by metis
  define q where "q = set_cell_count (of_nat (n - 1)) p1"
  have lq: "length q = 4096"
    using p1(2) by (simp add: q_def)
  have sq: "sub x k q = sub x k p1" if "x + k \<le> 13 \<or> 15 \<le> x" for x k
    using that p1(2) unfolding q_def set_cell_count_def by (auto simp: sub_upd_other)
  have near: "sub x k q = sub x k p" if "x + k \<le> 13 \<or> 15 \<le> x" "x + k \<le> 24" for x k
    using that sq p1(4) [of x k] by (simp add: slot_offset_def)
  have far: "sub x k q = sub x k p" if "slot_offset n \<le> x" for x k
    using that sq [of x k] p1(4) [of x k] by (simp add: slot_offset_def)
  have un: "unat (of_nat (n - 1) :: u16) = n - 1"
    using n4 i by (simp add: unat_of_nat slot_offset_def del: of_nat_diff)
  have cc: "unat (cell_count q) = n - 1"
    using p1(2) un by (simp add: q_def cell_count_def set_cell_count_def sub_upd_same del: of_nat_diff)
  have cco: "cell_content_offset q = cell_content_offset p"
    by (simp add: cell_content_offset_def near)
  have slot: "slot_at q k = (if i \<le> k \<and> k < n - 1 then slot_at p (Suc k) else slot_at p k)" for k
    using slot_at_cong [OF sq] p1(3) by (simp add: slot_offset_def)
  have S: "slots q = take i (slots p) @ drop (Suc i) (slots p)"
    using i cc by (intro nth_equalityI) (auto simp: slots_def slot nth_append n_def min_def)
  have olds: "set (take i (slots p)) \<subseteq> set (slots p)" "set (drop (Suc i) (slots p)) \<subseteq> set (slots p)"
    by (rule set_take_subset, rule set_drop_subset)
  note old = page_wf_slot [OF wf]
  have "page_wf q"
    unfolding page_wf_def
  proof (intro conjI)
    show "\<forall>(off, len)\<in>set (slots q). unat (cell_content_offset q) \<le> off \<and> 0 < len \<and> off + len \<le> 4096"
      using old olds unfolding S cco by fastforce
    have "sorted_wrt disjoint_slots (take i (slots p) @ slots p ! i # drop (Suc i) (slots p))"
      using page_wf_disjoint [OF wf] i by (simp add: id_take_nth_drop [symmetric] n_def)
    then show "sorted_wrt disjoint_slots (slots q)"
      unfolding S sorted_wrt_append by auto
  qed (use lq cc cco i page_wf_offset [OF wf] page_wf_content [OF wf] in \<open>simp_all add: n_def slot_offset_def\<close>)
  moreover have "delete_cell (int i) p = Some q"
    using i p1(1) by (simp add: delete_cell_def Let_def n_def [symmetric] q_def)
  moreover have "same_header p q"
    by (intro same_headerI len lq) (simp_all add: near)
  moreover have "page_cells q = take i (page_cells p) @ drop (Suc i) (page_cells p)"
  proof -
    have same: "(case s of (off, len) \<Rightarrow> sub off len q) = (case s of (off, len) \<Rightarrow> sub off len p)"
      if "s \<in> set (slots p)" for s
      using that old far page_wf_offset [OF wf] by (fastforce simp: n_def split: prod.splits)
    then have "map (\<lambda>(off, len). sub off len q) (take i (slots p)) = map (\<lambda>(off, len). sub off len p) (take i (slots p))"
      "map (\<lambda>(off, len). sub off len q) (drop (Suc i) (slots p)) = map (\<lambda>(off, len). sub off len p) (drop (Suc i) (slots p))"
      using olds by (auto intro!: map_cong)
    then show ?thesis
      by (simp add: page_cells_def S take_map drop_map)
  qed
  moreover have "free_space q = free_space p + 4"
    using i by (simp add: free_space_nat cc cco n_def slot_offset_def)
  ultimately show thesis
    using that by blast
qed

lemma cell_at_ok:
  assumes wf: "page_wf p" and i: "i < length (page_cells p)"
  shows "cell_at i p = Some (page_cells p ! i)"
proof -
  let ?o = "be_get (sub (slot_offset i) 2 p) :: u16" and ?l = "be_get (sub (slot_offset i + 2) 2 p) :: u16"
  have len: "length p = 4096" using wf by (rule page_wf_length)
  have i: "i < unat (cell_count p)" using i by simp
  have "slot_at p i \<in> set (slots p)"
    using i by (auto simp: slots_def)
  then have b: "unat ?o + unat ?l \<le> 4096"
    using page_wf_slot [OF wf] by (simp add: slot_at_def)
  have "slot_offset i + 4 \<le> slot_offset (unat (cell_count p))"
    using i by (rule slot_offset_mono)
  then have "get_slot i p = Some (?o, ?l)"
    using page_wf_offset [OF wf] page_wf_content [OF wf] len by (intro get_slot_slot_at) simp
  moreover have "unat (?o + ?l) = unat ?o + unat ?l"
    using b by (simp add: unat_word_ariths)
  ultimately show ?thesis
    using b len i by (simp add: cell_at_def page_cells_def slots_def slot_at_def)
qed

lemma add_cell_ok:
  assumes wf: "page_wf p" and ne: "cell \<noteq> []" and fits: "int (length cell) + 4 \<le> free_space p"
  obtains q where "add_cell cell p = Some (True, q)" "page_wf q" "same_header p q"
    "page_cells q = page_cells p @ [cell]" "free_space q = free_space p - int (length cell) - 4"
  using insert_cell_at_ok [OF wf _ ne fits, of "length (page_cells p)"]
  by (auto simp: add_cell_def)


lemma be_get_zeros [simp]: "be_get (replicate n 0) = 0"
  by (induction n) (simp_all add: be_get_def)

lemma new_page_fields [simp]:
  "length (new_page t i) = 4096" "page_type (new_page t i) = t" "page_id (new_page t i) = i"
  "cell_count (new_page t i) = 0" "cell_content_offset (new_page t i) = 4096"
  "rightmost_child (new_page t i) = 0" "lsn (new_page t i) = 0"
  by (simp_all add: new_page_def header_defs nth_upd sub_upd_same sub_upd_before sub_upd_after)
    (simp_all add: sub_def)

lemma page_wf_new_page [simp]: "page_wf (new_page t i)"
  by (simp add: page_wf_def slots_def slot_offset_def)

lemma page_cells_new_page [simp]: "page_cells (new_page t i) = []"
  by (simp add: page_cells_def slots_def)

lemma free_space_new_page [simp]: "free_space (new_page t i) = 4072"
  by (simp add: free_space_nat slot_offset_def)

text \<open>Setting the LSN or the right-most pointer keeps the cells.\<close>

lemma cells_cong:
  assumes "length p = 4096" "length q = 4096" "page_wf p" "cell_count q = cell_count p"
    "cell_content_offset q = cell_content_offset p" "\<And>x k. 24 \<le> x \<Longrightarrow> sub x k q = sub x k p"
  shows "page_wf q" "page_cells q = page_cells p" "free_space q = free_space p"
proof -
  have S: "slots q = slots p"
    using assms(4,6) by (auto simp: slots_def slot_offset_def intro!: slot_at_cong)
  show "page_wf q"
    using assms by (simp add: page_wf_def S)
  show "page_cells q = page_cells p"
    using page_wf_slot [OF assms(3)] page_wf_offset [OF assms(3)] assms(6)
    unfolding page_cells_def S by (fastforce simp: slot_offset_def intro!: map_cong split: prod.splits)
  show "free_space q = free_space p"
    using assms by (simp add: free_space_nat)
qed

lemma sub_set_lsn: "length p = 4096 \<Longrightarrow> 13 \<le> x \<Longrightarrow> sub x k (set_lsn l p) = sub x k p"
  by (simp add: set_lsn_def sub_upd_after)

lemma sub_set_rightmost_child:
  "length p = 4096 \<Longrightarrow> 24 \<le> x \<Longrightarrow> sub x k (set_rightmost_child c p) = sub x k p"
  by (simp add: set_rightmost_child_def sub_upd_after)

lemma page_wf_set_lsn [simp]:
  assumes "page_wf p"
  shows "page_wf (set_lsn l p)" "page_cells (set_lsn l p) = page_cells p"
    "free_space (set_lsn l p) = free_space p"
  using cells_cong [of p "set_lsn l p"] assms page_wf_length [OF assms]
  by (simp_all add: sub_set_lsn)

lemma page_wf_set_rightmost_child [simp]:
  assumes "page_wf p"
  shows "page_wf (set_rightmost_child c p)" "page_cells (set_rightmost_child c p) = page_cells p"
    "free_space (set_rightmost_child c p) = free_space p"
  using cells_cong [of p "set_rightmost_child c p"] assms page_wf_length [OF assms]
  by (simp_all add: sub_set_rightmost_child)


section \<open>Properties\<close>

text \<open>C11. Inserting a cell at slot \<open>i\<close> of a well-formed page that has room for it inserts it at position \<open>i\<close>
  of the list of cells: the page stays well-formed, every other cell keeps its bytes and its order, the
  header fields are kept, and the free space shrinks by the cell and its slot.\<close>

theorem insert_cell_refines_list_insert:
  assumes "page_wf p" "i \<le> length (page_cells p)" "cell \<noteq> []" "int (length cell) + int slot_size \<le> free_space p"
  shows "\<exists>q. insert_cell_at (int i) cell p = Some (True, q) \<and> page_wf q \<and> same_header p q \<and>
    page_cells q = take i (page_cells p) @ cell # drop i (page_cells p) \<and>
    free_space q = free_space p - int (length cell) - int slot_size \<and>
    (\<forall>j < length (page_cells q). cell_at j q = Some (page_cells q ! j))"
proof -
  have "int (length cell) + 4 \<le> free_space p"
    using assms(4) by simp
  then obtain q where q: "insert_cell_at (int i) cell p = Some (True, q)" "page_wf q" "same_header p q"
    "page_cells q = take i (page_cells p) @ cell # drop i (page_cells p)"
    "free_space q = free_space p - int (length cell) - 4"
    by (rule insert_cell_at_ok [OF assms(1-3)])
  have "\<forall>j < length (page_cells q). cell_at j q = Some (page_cells q ! j)"
    using cell_at_ok [OF q(2)] by blast
  with q show ?thesis
    by (intro exI [of _ q] conjI) (assumption | simp)+
qed

theorem insert_cell_refines_list_insert_witness:
  "\<exists>q. insert_cell_at (int 0) [7, 8, 9] (new_page type_leaf 5) = Some (True, q) \<and> page_wf q \<and>
    same_header (new_page type_leaf 5) q \<and>
    page_cells q = take 0 (page_cells (new_page type_leaf 5)) @ [7, 8, 9] # drop 0 (page_cells (new_page type_leaf 5)) \<and>
    free_space q = free_space (new_page type_leaf 5) - int (length [7, 8, 9 :: byte]) - int slot_size \<and>
    (\<forall>j < length (page_cells q). cell_at j q = Some (page_cells q ! j))"
  by (rule insert_cell_refines_list_insert) simp_all

text \<open>An insertion is refused, and the page left as it is, exactly when the cell is empty or does not
  fit into the free space together with its slot.\<close>

theorem insert_cell_refused_iff:
  assumes "page_wf p" "i \<le> length (page_cells p)"
  shows "insert_cell_at (int i) cell p = Some (False, p) \<longleftrightarrow>
    cell = [] \<or> free_space p < int (length cell) + int slot_size"
proof (cases "cell = [] \<or> free_space p < int (length cell) + 4")
  case True
  then show ?thesis
    using assms(2) by (auto simp: insert_cell_at_def)
next
  case False
  then have fits: "int (length cell) + 4 \<le> free_space p" and ne: "cell \<noteq> []"
    by auto
  obtain q where "insert_cell_at (int i) cell p = Some (True, q)"
    by (rule insert_cell_at_ok [OF assms ne fits])
  then show ?thesis
    using fits ne by simp
qed

theorem insert_cell_refused_iff_witness:
  "insert_cell_at (int 0) (replicate 5000 1) (new_page type_leaf 5) = Some (False, new_page type_leaf 5) \<longleftrightarrow>
    replicate 5000 (1 :: byte) = [] \<or> free_space (new_page type_leaf 5) < int (length (replicate 5000 (1 :: byte))) + int slot_size"
  by (rule insert_cell_refused_iff) simp_all

text \<open>Deleting the cell of slot \<open>i\<close> removes it from the list of cells and keeps the others; the space of
  the cell itself is not reclaimed, only its slot is.\<close>

theorem delete_cell_refines_list_delete:
  assumes "page_wf p" "i < length (page_cells p)"
  shows "\<exists>q. delete_cell (int i) p = Some q \<and> page_wf q \<and> same_header p q \<and>
    page_cells q = take i (page_cells p) @ drop (Suc i) (page_cells p) \<and>
    free_space q = free_space p + int slot_size"
proof -
  obtain q where "delete_cell (int i) p = Some q" "page_wf q" "same_header p q"
    "page_cells q = take i (page_cells p) @ drop (Suc i) (page_cells p)" "free_space q = free_space p + 4"
    by (rule delete_cell_ok [OF assms])
  then show ?thesis
    by (intro exI [of _ q] conjI) simp_all
qed

definition sample_cells_page :: page where
  "sample_cells_page = snd (the (insert_cell_at 0 [7, 8, 9] (new_page type_leaf 5)))"

lemma sample_cells_page:
  "page_wf sample_cells_page" "page_cells sample_cells_page = [[7, 8, 9]]"
proof -
  obtain q where q: "insert_cell_at (int 0) [7, 8, 9] (new_page type_leaf 5) = Some (True, q)" "page_wf q"
    "page_cells q = take 0 (page_cells (new_page type_leaf 5)) @ [7, 8, 9] # drop 0 (page_cells (new_page type_leaf 5))"
    by (rule insert_cell_at_ok [of "new_page type_leaf 5" 0 "[7, 8, 9]"]) simp_all
  have s: "sample_cells_page = q"
    using q(1) by (simp add: sample_cells_page_def)
  show "page_wf sample_cells_page" "page_cells sample_cells_page = [[7, 8, 9]]"
    using q(2,3) by (simp_all add: s)
qed

theorem delete_cell_refines_list_delete_witness:
  "\<exists>q. delete_cell (int 0) sample_cells_page = Some q \<and> page_wf q \<and> same_header sample_cells_page q \<and>
    page_cells q = take 0 (page_cells sample_cells_page) @ drop (Suc 0) (page_cells sample_cells_page) \<and>
    free_space q = free_space sample_cells_page + int slot_size"
  by (rule delete_cell_refines_list_delete) (simp_all add: sample_cells_page)

end
