(* ===== verification/Db_Types.thy ===== *)
theory Db_Types
  imports Prelude
begin

text \<open>
  \<open>types/\<close>: values, columns and schemas. A Go \<open>string\<close> is a byte string, modelled as HOL's
  \<open>string\<close> whose characters are bytes; \<open>[]byte(s)\<close> is \<open>str_bytes s\<close>. An interface variable of
  type \<open>types.Value\<close> that may be \<open>nil\<close> is a \<open>value_t option\<close> (\<open>gvalue\<close>). Values are made an instance
  of \<open>linorder\<close>: integers by their signed value, then strings in byte order.
\<close>

section \<open>Data types, columns, schemas\<close>

datatype data_type_kind = KindIntType | KindVarcharType | KindBoolType

record data_type =
  dt_kind :: data_type_kind
  dt_length :: int

record column =
  col_name :: string
  col_type :: data_type
  primary_key :: bool
  not_null :: bool

record schema =
  table_name :: string
  table_id :: u32
  columns :: "column list"

fun pk_index_from :: "int \<Rightarrow> column list \<Rightarrow> int" where
  "pk_index_from i [] = -1"
| "pk_index_from i (c # cs) = (if primary_key c then i else pk_index_from (i + 1) cs)"

definition primary_key_index :: "schema \<Rightarrow> int" where
  "primary_key_index s = pk_index_from 0 (columns s)"

section \<open>Values and rows\<close>

datatype value_kind = KindInt | KindString | KindBool | KindNull

datatype value_t =
    IntValue i64
  | StringValue string
  | BoolValue bool
  | NullValue

fun kind_of :: "value_t \<Rightarrow> value_kind" where
  "kind_of (IntValue _) = KindInt"
| "kind_of (StringValue _) = KindString"
| "kind_of (BoolValue _) = KindBool"
| "kind_of NullValue = KindNull"

type_synonym gvalue = "value_t option"
type_synonym row = "value_t list"

definition str_bytes :: "string \<Rightarrow> byte list" where
  "str_bytes s = map (\<lambda>c. word_of_nat (of_char c)) s"

definition bytes_str :: "byte list \<Rightarrow> string" where
  "bytes_str bs = map (\<lambda>b. char_of (unat b)) bs"

lemma length_str_bytes [simp]: "length (str_bytes s) = length s"
  by (simp add: str_bytes_def)

lemma length_bytes_str [simp]: "length (bytes_str bs) = length bs"
  by (simp add: bytes_str_def)

lemma bytes_str_str_bytes [simp]: "bytes_str (str_bytes s) = s"
proof -
  have "(of_char c :: nat) < 2 ^ 8" for c
    using of_char_of [of "of_char c :: nat"] by (simp del: of_char_of)
  then have "unat (word_of_nat (of_char c) :: byte) = of_char c" for c
    by (simp add: unat_of_nat)
  then show ?thesis
    by (simp add: bytes_str_def str_bytes_def comp_def)
qed

section \<open>The order of values\<close>

fun value_rank :: "value_t \<Rightarrow> nat \<times> int \<times> string" where
  "value_rank (IntValue i) = (0, sint i, [])"
| "value_rank (StringValue s) = (1, 0, s)"
| "value_rank (BoolValue b) = (2, of_bool b, [])"
| "value_rank NullValue = (3, 0, [])"

lemma value_rank_inj [simp]: "value_rank v = value_rank w \<longleftrightarrow> v = w"
  by (cases v; cases w) (auto simp: of_bool_def split: if_splits dest: signed_word_eqI)

instantiation value_t :: linorder
begin

definition less_eq_value_t :: "value_t \<Rightarrow> value_t \<Rightarrow> bool" where
  "less_eq_value_t v w \<longleftrightarrow> value_rank v \<le> value_rank w"

definition less_value_t :: "value_t \<Rightarrow> value_t \<Rightarrow> bool" where
  "less_value_t v w \<longleftrightarrow> value_rank v < value_rank w"

instance
proof
  fix u v w :: value_t
  show "u < v \<longleftrightarrow> u \<le> v \<and> \<not> v \<le> u"
    by (simp only: less_eq_value_t_def less_value_t_def less_le_not_le)
  show "u \<le> u"
    by (simp only: less_eq_value_t_def order.refl)
  show "u \<le> v \<Longrightarrow> v \<le> w \<Longrightarrow> u \<le> w"
    unfolding less_eq_value_t_def by (rule order.trans)
  show "u \<le> v \<Longrightarrow> v \<le> u \<Longrightarrow> u = v"
    unfolding less_eq_value_t_def by (metis order.antisym value_rank_inj)
  show "u \<le> v \<or> v \<le> u"
    unfolding less_eq_value_t_def by (rule linear)
qed

end

lemma less_IntValue [simp]: "IntValue i < IntValue j \<longleftrightarrow> sint i < sint j"
  by (simp add: less_value_t_def)

lemma less_StringValue [simp]: "StringValue s < StringValue t \<longleftrightarrow> s < t"
  by (simp add: less_value_t_def)

section \<open>Lemmas\<close>

lemma pk_index_from_bounds:
  "pk_index_from i cs = -1 \<and> (\<forall>c \<in> set cs. \<not> primary_key c) \<or>
   i \<le> pk_index_from i cs \<and> pk_index_from i cs < i + int (length cs) \<and>
     primary_key (cs ! nat (pk_index_from i cs - i))"
proof (induction cs arbitrary: i)
  case (Cons c cs)
  have "nat (k - (i + 1)) = nat (k - i) - 1" for k :: int
    by simp
  then show ?case
    using Cons.IH [of "i + 1"] by (auto simp: nth_Cons')
qed simp

lemma primary_key_index_cases:
  "primary_key_index s = -1 \<and> (\<forall>c \<in> set (columns s). \<not> primary_key c) \<or>
   0 \<le> primary_key_index s \<and> primary_key_index s < int (length (columns s)) \<and>
     primary_key (columns s ! nat (primary_key_index s))"
  using pk_index_from_bounds [of 0 "columns s"] by (simp add: primary_key_index_def)

end
