(* ===== verification/Disk.thy ===== *)
theory Disk
  imports Page Db_Types
begin

text \<open>
  \<open>storage/page/disk.go\<close> over a model of \<open>os.File\<close>: the bytes of the file, and which offsets the
  device refuses to read or write, so that every I/O error of the source is a branch. A read is
  complete or an error; a write past the end grows the file, the gap filled with zeros.
\<close>

section \<open>Files\<close>

record os_file =
  fbytes :: "byte list"
  rd_ok :: "nat \<Rightarrow> bool"
  wr_ok :: "nat \<Rightarrow> bool"
  fsync_ok :: bool

datatype read_res = ReadFull "byte list" | ReadEOF | ReadShort | ReadFail

text \<open>\<open>io.ReadFull\<close> of \<open>n > 0\<close> bytes at offset \<open>off\<close>: \<open>io.EOF\<close> when there is no byte left,
  \<open>io.ErrUnexpectedEOF\<close> when there are some but fewer than \<open>n\<close>.\<close>

definition read_full :: "nat \<Rightarrow> nat \<Rightarrow> os_file \<Rightarrow> read_res" where
  "read_full off n f =
     (if \<not> rd_ok f off then ReadFail
      else if length (fbytes f) \<le> off then ReadEOF
      else if length (fbytes f) < off + n then ReadShort
      else ReadFull (sub off n (fbytes f)))"

text \<open>\<open>File.ReadAt\<close> returns an error unless it fills the buffer.\<close>

definition read_at :: "nat \<Rightarrow> nat \<Rightarrow> os_file \<Rightarrow> byte list option" where
  "read_at off n f = (case read_full off n f of ReadFull bs \<Rightarrow> Some bs | _ \<Rightarrow> None)"

definition write_bytes :: "nat \<Rightarrow> byte list \<Rightarrow> byte list \<Rightarrow> byte list" where
  "write_bytes off bs xs = upd off bs (xs @ replicate (off + length bs - length xs) 0)"

definition write_at :: "nat \<Rightarrow> byte list \<Rightarrow> os_file \<Rightarrow> os_file option" where
  "write_at off bs f = (if wr_ok f off then Some (f\<lparr>fbytes := write_bytes off bs (fbytes f)\<rparr>) else None)"

section \<open>The disk manager\<close>

definition no_page_id :: u32 where "no_page_id = 0xFFFFFFFF"
definition magic_number :: "byte list" where "magic_number = str_bytes ''MOKU''"
definition file_version :: u16 where "file_version = 1"

record disk_mgr =
  dfile :: os_file
  root_page_id :: u32
  next_page_id :: u32

definition page_offset :: "u32 \<Rightarrow> nat" where
  "page_offset i = file_header_size + unat i * page_size"

definition file_header :: "u32 \<Rightarrow> u32 \<Rightarrow> byte list" where
  "file_header root next =
     upd 12 (be_put 4 next) (upd 8 (be_put 4 root) (upd 6 (be_put 2 (of_nat page_size :: u16))
       (upd 4 (be_put 2 file_version) (upd 0 magic_number (replicate file_header_size 0)))))"

definition write_file_header :: "u32 \<Rightarrow> (disk_mgr, unit) go" where
  "write_file_header root dm =
     (case write_at 0 (file_header root (next_page_id dm)) (dfile dm) of
        None \<Rightarrow> (Err EIO, dm)
      | Some f \<Rightarrow> (Ok (), dm\<lparr>dfile := f, root_page_id := root\<rparr>))"

definition read_file_header :: "(disk_mgr, unit) go" where
  "read_file_header dm =
     (case read_at 0 file_header_size (dfile dm) of
        None \<Rightarrow> (Err EIO, dm)
      | Some buf \<Rightarrow>
          if sub 0 4 buf \<noteq> magic_number then (Err EBadMagic, dm)
          else (Ok (), dm\<lparr>root_page_id := be_get (sub 8 4 buf), next_page_id := be_get (sub 12 4 buf)\<rparr>))"

text \<open>\<open>NewDiskManager\<close>, the file being open: an empty file gets a header, another is read.\<close>

definition new_disk_manager :: "os_file \<Rightarrow> disk_mgr res" where
  "new_disk_manager f =
     (let dm = \<lparr>dfile = f, root_page_id = no_page_id, next_page_id = 0\<rparr> in
      case (if length (fbytes f) = 0 then write_file_header no_page_id dm else read_file_header dm) of
        (Ok _, dm') \<Rightarrow> Ok dm'
      | (Err e, _) \<Rightarrow> Err e
      | (Panic, _) \<Rightarrow> Panic
      | (Stuck, _) \<Rightarrow> Stuck)"

definition read_page :: "u32 \<Rightarrow> (disk_mgr, page) go" where
  "read_page i dm =
     (case read_at (page_offset i) page_size (dfile dm) of
        None \<Rightarrow> (Err (EReadPage i), dm)
      | Some buf \<Rightarrow> of_option (from_bytes buf) dm)"

definition write_page :: "page \<Rightarrow> (disk_mgr, unit) go" where
  "write_page p dm =
     (case write_at (page_offset (page_id p)) p (dfile dm) of
        None \<Rightarrow> (Err (EWritePage (page_id p)), dm)
      | Some f \<Rightarrow> (Ok (), dm\<lparr>dfile := f\<rparr>))"

definition allocate_page :: "u8 \<Rightarrow> (disk_mgr, page) go" where
  "allocate_page t dm =
     (let i = next_page_id dm; p = new_page t i in
      bindG (write_page p) (\<lambda>_.
      bindG (\<lambda>dm. write_file_header (root_page_id dm) dm) (\<lambda>_.
      ret p)) (dm\<lparr>next_page_id := i + 1\<rparr>))"

definition set_root_page_id :: "u32 \<Rightarrow> (disk_mgr, unit) go" where
  "set_root_page_id i = write_file_header i"

definition num_pages :: "disk_mgr \<Rightarrow> u32" where
  "num_pages dm = next_page_id dm"


section \<open>Page contents of the disk\<close>

text \<open>\<open>disk_view dm i\<close> is the page at position \<open>i\<close> of the file. \<open>disk_ok dm\<close>: the device works, every
  allocated page is inside the file, and the header on disk agrees with the manager's fields.\<close>

definition disk_view :: "disk_mgr \<Rightarrow> u32 \<Rightarrow> page option" where
  "disk_view dm i =
     (if page_offset i + page_size \<le> length (fbytes (dfile dm))
      then Some (sub (page_offset i) page_size (fbytes (dfile dm))) else None)"

definition disk_ok :: "disk_mgr \<Rightarrow> bool" where
  "disk_ok dm \<longleftrightarrow>
     (\<forall>off. rd_ok (dfile dm) off \<and> wr_ok (dfile dm) off) \<and>
     page_offset (next_page_id dm) \<le> length (fbytes (dfile dm)) \<and>
     sub 0 file_header_size (fbytes (dfile dm)) = file_header (root_page_id dm) (next_page_id dm)"

lemma length_file_header [simp]: "length (file_header r n) = 4096"
  by (simp add: file_header_def magic_number_def)

lemma file_header_fields:
  "sub 0 4 (file_header r n) = magic_number" "be_get (sub 8 4 (file_header r n)) = r"
  "be_get (sub 12 4 (file_header r n)) = n"
  by (simp_all add: file_header_def magic_number_def sub_upd_same sub_upd_before sub_upd_after)

lemma write_bytes_append [simp]: "write_bytes (length xs) bs xs = xs @ bs"
  by (simp add: write_bytes_def upd_def)

lemma length_write_bytes: "length (write_bytes off bs xs) = max (length xs) (off + length bs)"
  by (simp add: write_bytes_def upd_def)

lemma write_bytes_inside:
  "off + length bs \<le> length xs \<Longrightarrow> write_bytes off bs xs = upd off bs xs"
  by (simp add: write_bytes_def)

lemma sub_write_bytes_same:
  "k = length bs \<Longrightarrow> sub off k (write_bytes off bs xs) = bs"
  by (simp add: write_bytes_def sub_upd_same)

lemma sub_write_bytes_other:
  assumes "x + k \<le> off \<or> off + length bs \<le> x" "x + k \<le> length xs"
  shows "sub x k (write_bytes off bs xs) = sub x k xs"
proof -
  have "sub x k (write_bytes off bs xs) = sub x k (xs @ replicate (off + length bs - length xs) 0)"
    unfolding write_bytes_def using assms(1) by (intro sub_upd_other) auto
  also have "\<dots> = sub x k xs"
    using assms(2) by simp
  finally show ?thesis .
qed

lemma page_offset_disjoint:
  "i \<noteq> j \<Longrightarrow> page_offset i + 4096 \<le> page_offset j \<or> page_offset j + 4096 \<le> page_offset i"
  by (cases "i < j") (auto simp: page_offset_def word_less_nat_alt word_unat_eq_iff not_less)

lemma page_offset_mono: "i < j \<Longrightarrow> page_offset i + 4096 \<le> page_offset j"
  by (simp add: page_offset_def word_less_nat_alt)

lemma disk_view_allocated:
  "disk_ok dm \<Longrightarrow> i < next_page_id dm \<Longrightarrow> \<exists>p. disk_view dm i = Some p \<and> length p = 4096"
  using page_offset_mono [of i "next_page_id dm"] by (simp add: disk_view_def disk_ok_def)

lemma disk_view_length: "disk_view dm i = Some p \<Longrightarrow> length p = 4096"
  by (auto simp: disk_view_def split: if_splits)

lemma read_page_view:
  assumes "disk_ok dm"
  shows "read_page i dm = (case disk_view dm i of Some p \<Rightarrow> (Ok p, dm) | None \<Rightarrow> (Err (EReadPage i), dm))"
  using assms
  by (auto simp: read_page_def read_at_def read_full_def disk_view_def disk_ok_def from_bytes_def)

lemma write_page_ok:
  assumes ok: "disk_ok dm" and p: "length p = 4096" "page_id p < next_page_id dm"
  obtains dm' where "write_page p dm = (Ok (), dm')" "disk_ok dm'"
    "disk_view dm' = (disk_view dm)(page_id p \<mapsto> p)"
    "root_page_id dm' = root_page_id dm" "next_page_id dm' = next_page_id dm"
proof -
  let ?b = "fbytes (dfile dm)" and ?o = "page_offset (page_id p)"
  let ?dm = "dm\<lparr>dfile := (dfile dm)\<lparr>fbytes := write_bytes ?o p ?b\<rparr>\<rparr>"
  have ins: "?o + 4096 \<le> length ?b"
    using page_offset_mono [OF p(2)] ok by (simp add: disk_ok_def)
  have len: "length (write_bytes ?o p ?b) = length ?b"
    using ins p(1) by (simp add: length_write_bytes)
  show thesis
  proof (rule that [of ?dm])
    show "write_page p dm = (Ok (), ?dm)"
      using ok by (simp add: write_page_def write_at_def disk_ok_def)
    have "sub 0 4096 (write_bytes ?o p ?b) = sub 0 4096 ?b"
      using ins by (intro sub_write_bytes_other) (auto simp: page_offset_def)
    then show "disk_ok ?dm"
      using ok len by (simp add: disk_ok_def)
    show "disk_view ?dm = (disk_view dm)(page_id p \<mapsto> p)"
    proof
      fix i
      show "disk_view ?dm i = ((disk_view dm)(page_id p \<mapsto> p)) i"
      proof (cases "i = page_id p")
        case True
        then show ?thesis
          using ins p(1) len by (simp add: disk_view_def sub_write_bytes_same)
      next
        case False
        then show ?thesis
          using page_offset_disjoint [OF False] p(1) len
          by (auto simp: disk_view_def intro!: sub_write_bytes_other)
      qed
    qed
  qed simp_all
qed

lemma write_file_header_ok:
  assumes "\<forall>off. rd_ok (dfile dm) off \<and> wr_ok (dfile dm) off"
    and "page_offset (next_page_id dm) \<le> length (fbytes (dfile dm))"
  obtains dm' where "write_file_header r dm = (Ok (), dm')" "disk_ok dm'" "disk_view dm' = disk_view dm"
    "root_page_id dm' = r" "next_page_id dm' = next_page_id dm"
proof -
  let ?b = "fbytes (dfile dm)" and ?h = "file_header r (next_page_id dm)"
  let ?dm = "dm\<lparr>dfile := (dfile dm)\<lparr>fbytes := write_bytes 0 ?h ?b\<rparr>, root_page_id := r\<rparr>"
  have len: "length (write_bytes 0 ?h ?b) = length ?b"
    using assms(2) by (simp add: length_write_bytes page_offset_def)
  show thesis
  proof (rule that [of ?dm])
    show "write_file_header r dm = (Ok (), ?dm)"
      using assms(1) by (simp add: write_file_header_def write_at_def)
    show "disk_ok ?dm"
      using assms len by (simp add: disk_ok_def sub_write_bytes_same)
    have "sub (page_offset i) 4096 (write_bytes 0 ?h ?b) = sub (page_offset i) 4096 ?b"
      if "page_offset i + 4096 \<le> length ?b" for i
      using that by (intro sub_write_bytes_other) (auto simp: page_offset_def)
    then show "disk_view ?dm = disk_view dm"
      using len by (auto simp: disk_view_def fun_eq_iff)
  qed simp_all
qed

lemma set_root_page_id_ok:
  assumes "disk_ok dm"
  obtains dm' where "set_root_page_id r dm = (Ok (), dm')" "disk_ok dm'" "disk_view dm' = disk_view dm"
    "root_page_id dm' = r" "next_page_id dm' = next_page_id dm"
  using write_file_header_ok [of dm r] assms by (auto simp: set_root_page_id_def disk_ok_def)

lemma allocate_page_ok:
  assumes ok: "disk_ok dm" and room: "next_page_id dm < no_page_id"
  obtains dm' where "allocate_page t dm = (Ok (new_page t (next_page_id dm)), dm')" "disk_ok dm'"
    "disk_view dm' (next_page_id dm) = Some (new_page t (next_page_id dm))"
    "\<And>i. i < next_page_id dm \<Longrightarrow> disk_view dm' i = disk_view dm i"
    "root_page_id dm' = root_page_id dm" "next_page_id dm' = next_page_id dm + 1"
proof -
  let ?n = "next_page_id dm" and ?b = "fbytes (dfile dm)"
  let ?p = "new_page t ?n"
  have n1: "unat (?n + 1) = Suc (unat ?n)"
    using room by (simp add: no_page_id_def word_less_nat_alt unat_word_ariths)
  let ?dm1 = "dm\<lparr>next_page_id := ?n + 1, dfile := (dfile dm)\<lparr>fbytes := write_bytes (page_offset ?n) ?p ?b\<rparr>\<rparr>"
  have w: "write_page ?p (dm\<lparr>next_page_id := ?n + 1\<rparr>) = (Ok (), ?dm1)"
    using ok by (simp add: write_page_def write_at_def disk_ok_def)
  have po: "page_offset (?n + 1) = page_offset ?n + 4096"
    by (simp add: page_offset_def n1)
  have inb: "page_offset ?n \<le> length ?b"
    using ok by (simp add: disk_ok_def)
  have "page_offset (next_page_id ?dm1) \<le> length (fbytes (dfile ?dm1))"
    by (simp add: length_write_bytes po)
  then obtain dm2 where dm2: "write_file_header (root_page_id ?dm1) ?dm1 = (Ok (), dm2)" "disk_ok dm2"
    "disk_view dm2 = disk_view ?dm1" "root_page_id dm2 = root_page_id ?dm1" "next_page_id dm2 = ?n + 1"
    using write_file_header_ok [of ?dm1 "root_page_id ?dm1"] ok by (auto simp: disk_ok_def)
  show thesis
  proof (rule that [of dm2])
    show "allocate_page t dm = (Ok ?p, dm2)"
      using dm2(1) by (simp add: allocate_page_def Let_def bindG_def w)
    show "disk_view dm2 ?n = Some ?p"
      unfolding dm2(3) by (simp add: disk_view_def length_write_bytes sub_write_bytes_same)
    show "disk_view dm2 i = disk_view dm i" if "i < ?n" for i
      using page_offset_mono [OF that] inb unfolding dm2(3)
      by (auto simp: disk_view_def length_write_bytes intro!: sub_write_bytes_other)
  qed (use dm2 in simp_all)
qed

text \<open>Opening the file again gives the manager back.\<close>

lemma new_disk_manager_reopen:
  assumes "disk_ok dm"
  shows "new_disk_manager (dfile dm) = Ok dm"
proof -
  let ?b = "fbytes (dfile dm)"
  have len: "4096 \<le> length ?b"
    using assms by (simp add: disk_ok_def page_offset_def)
  then have "read_at 0 4096 (dfile dm) = Some (file_header (root_page_id dm) (next_page_id dm))"
    using assms by (auto simp: read_at_def read_full_def disk_ok_def)
  then show ?thesis
    using len by (auto simp: new_disk_manager_def Let_def read_file_header_def file_header_fields)
qed

lemma new_disk_manager_empty:
  assumes "fbytes f = []" "\<forall>off. rd_ok f off \<and> wr_ok f off"
  obtains dm where "new_disk_manager f = Ok dm" "disk_ok dm" "root_page_id dm = no_page_id"
    "next_page_id dm = 0"
proof -
  let ?dm = "\<lparr>dfile = f\<lparr>fbytes := file_header no_page_id 0\<rparr>, root_page_id = no_page_id, next_page_id = 0\<rparr>"
  have "write_bytes 0 (file_header no_page_id 0) [] = file_header no_page_id 0"
    using write_bytes_append [of "[]"] by simp
  then show thesis
    using assms by (intro that [of ?dm])
      (simp_all add: new_disk_manager_def Let_def write_file_header_def write_at_def disk_ok_def page_offset_def)
qed


section \<open>Properties\<close>

text \<open>Allocating a page gives the next page number, writes the fresh page to the file, keeps the contents of
  every page allocated before, and keeps the header on disk in step with the manager.\<close>

theorem allocate_page_extends:
  assumes "disk_ok dm" "next_page_id dm < no_page_id"
  shows "\<exists>dm'. allocate_page t dm = (Ok (new_page t (next_page_id dm)), dm') \<and> disk_ok dm' \<and>
    disk_view dm' (next_page_id dm) = Some (new_page t (next_page_id dm)) \<and>
    (\<forall>i < next_page_id dm. disk_view dm' i = disk_view dm i) \<and>
    root_page_id dm' = root_page_id dm \<and> num_pages dm' = num_pages dm + 1"
  by (rule allocate_page_ok [OF assms]) (auto simp: num_pages_def)

definition sample_file :: os_file where
  "sample_file = \<lparr>fbytes = [], rd_ok = (\<lambda>_. True), wr_ok = (\<lambda>_. True), fsync_ok = True\<rparr>"

definition sample_leaf :: page where
  "sample_leaf = set_rightmost_child no_page_id (new_page type_leaf 0)"

definition sample_disk :: disk_mgr where
  "sample_disk = \<lparr>dfile = sample_file\<lparr>fbytes := file_header 0 1 @ sample_leaf\<rparr>, root_page_id = 0, next_page_id = 1\<rparr>"

lemma sample_leaf [simp]:
  "length sample_leaf = 4096" "page_id sample_leaf = 0" "page_type sample_leaf = type_leaf"
  "page_wf sample_leaf" "page_cells sample_leaf = []" "rightmost_child sample_leaf = no_page_id"
  "free_space sample_leaf = 4072" "cell_count sample_leaf = 0"
  by (simp_all add: sample_leaf_def)

lemma sample_disk [simp]:
  "disk_ok sample_disk" "next_page_id sample_disk = 1" "root_page_id sample_disk = 0"
  "disk_view sample_disk i = (if i = 0 then Some sample_leaf else None)"
proof -
  have "unat i = 0 \<longleftrightarrow> i = 0"
    by (simp add: unat_eq_0)
  then have "page_offset i + 4096 \<le> 8192 \<longleftrightarrow> i = 0"
    by (auto simp: page_offset_def)
  then show "disk_view sample_disk i = (if i = 0 then Some sample_leaf else None)"
    by (auto simp: disk_view_def sample_disk_def page_offset_def)
qed (simp_all add: sample_disk_def disk_ok_def page_offset_def sample_file_def)

theorem allocate_page_extends_witness:
  "\<exists>dm'. allocate_page type_leaf sample_disk = (Ok (new_page type_leaf (next_page_id sample_disk)), dm') \<and> disk_ok dm' \<and>
    disk_view dm' (next_page_id sample_disk) = Some (new_page type_leaf (next_page_id sample_disk)) \<and>
    (\<forall>i < next_page_id sample_disk. disk_view dm' i = disk_view sample_disk i) \<and>
    root_page_id dm' = root_page_id sample_disk \<and> num_pages dm' = num_pages sample_disk + 1"
  by (rule allocate_page_extends) (simp_all add: no_page_id_def)

text \<open>Closing and opening a database file gives back the same manager: the root page and the number of
  pages survive in the header, and so does every page.\<close>

theorem disk_reopen_roundtrip:
  assumes "disk_ok dm"
  shows "new_disk_manager (dfile dm) = Ok dm"
  using assms by (rule new_disk_manager_reopen)

theorem disk_reopen_roundtrip_witness: "new_disk_manager (dfile sample_disk) = Ok sample_disk"
  by (rule disk_reopen_roundtrip) simp

end
