(* ===== verification/Wal.thy ===== *)
theory Wal
  imports Disk
begin

text \<open>
  \<open>storage/wal/wal.go\<close>: the log. \<open>append_record\<close> encodes a record into the buffer, \<open>flush_wal\<close>
  writes the buffer at the end of the file, \<open>wal_read_all\<close> decodes the file from its start.
  A record is \<open>LSN(8) TxnID(8) PageID(4) Op(1) PrevLSN(8) RedoSize(2) RedoData\<close>.
\<close>

section \<open>Records and the manager\<close>

definition op_insert :: u8 where "op_insert = 1"
definition op_update :: u8 where "op_update = 2"
definition op_delete :: u8 where "op_delete = 3"
definition op_commit :: u8 where "op_commit = 4"
definition op_abort :: u8 where "op_abort = 5"

record log_record =
  r_lsn :: u64
  r_txn :: u64
  r_page :: u32
  r_op :: u8
  r_prev :: u64
  redo_data :: "byte list"

record wal_mgr =
  wfile :: os_file
  next_lsn :: u64
  wbuf :: "byte list"

section \<open>Encoding and decoding\<close>

definition encode_record :: "log_record \<Rightarrow> byte list" where
  "encode_record r =
     be_put 8 (r_lsn r) @ be_put 8 (r_txn r) @ be_put 4 (r_page r) @ [r_op r] @ be_put 8 (r_prev r)
       @ be_put 2 (of_nat (length (redo_data r)) :: u16) @ redo_data r"

datatype decode_res = Rec log_record nat | RecEOF | RecFail

text \<open>\<open>decodeOne\<close> at offset \<open>pos\<close> of the file. \<open>Rec r pos'\<close> also gives the offset after the record. A
  file that ends inside the fixed part is \<open>io.EOF\<close>; so is one that ends right before the redo
  data, since \<open>io.ReadFull\<close> reports \<open>io.EOF\<close> there; one that ends inside the redo data is an error.\<close>

definition decode_one :: "nat \<Rightarrow> os_file \<Rightarrow> decode_res" where
  "decode_one pos f =
     (case read_full pos 31 f of
        ReadEOF \<Rightarrow> RecEOF
      | ReadShort \<Rightarrow> RecEOF
      | ReadFail \<Rightarrow> RecFail
      | ReadFull fixed \<Rightarrow>
          let r = \<lparr>r_lsn = be_get (sub 0 8 fixed), r_txn = be_get (sub 8 8 fixed),
                   r_page = be_get (sub 16 4 fixed), r_op = fixed ! 20,
                   r_prev = be_get (sub 21 8 fixed), redo_data = []\<rparr>;
              redo_size = (be_get (sub 29 2 fixed) :: u16)
          in if redo_size > 0
             then (case read_full (pos + 31) (unat redo_size) f of
                     ReadFull d \<Rightarrow> Rec (r\<lparr>redo_data := d\<rparr>) (pos + 31 + unat redo_size)
                   | ReadEOF \<Rightarrow> RecEOF
                   | _ \<Rightarrow> RecFail)
             else Rec r (pos + 31))"

lemma decode_one_advances:
  "decode_one pos f = Rec r pos' \<Longrightarrow> pos < pos' \<and> pos' \<le> length (fbytes f)"
  by (auto simp: decode_one_def read_full_def Let_def split: read_res.splits if_splits)

text \<open>The loop of \<open>ReadAll\<close>.\<close>

function read_records :: "nat \<Rightarrow> os_file \<Rightarrow> log_record list option" where
  "read_records pos f =
     (case decode_one pos f of
        RecEOF \<Rightarrow> Some []
      | RecFail \<Rightarrow> None
      | Rec r pos' \<Rightarrow> map_option ((#) r) (read_records pos' f))"
  by pat_completeness auto
termination
  by (relation "measure (\<lambda>(pos, f). length (fbytes f) - pos)") (auto dest: decode_one_advances)

declare read_records.simps [simp del]

section \<open>Operations\<close>

definition wal_read_all :: "wal_mgr \<Rightarrow> log_record list res" where
  "wal_read_all wm = (case read_records 0 (wfile wm) of Some rs \<Rightarrow> Ok rs | None \<Rightarrow> Err EWalRead)"

definition scan_next_lsn :: "(wal_mgr, unit) go" where
  "scan_next_lsn wm =
     (case wal_read_all wm of
        Ok rs \<Rightarrow> (Ok (), if rs = [] then wm else wm\<lparr>next_lsn := r_lsn (last rs) + 1\<rparr>)
      | Err e \<Rightarrow> (Err e, wm)
      | Panic \<Rightarrow> (Panic, wm)
      | Stuck \<Rightarrow> (Stuck, wm))"

definition new_wal_manager :: "os_file \<Rightarrow> wal_mgr res" where
  "new_wal_manager f =
     (let wm = \<lparr>wfile = f, next_lsn = 0, wbuf = []\<rparr> in
      if length (fbytes f) > 0
      then (case scan_next_lsn wm of
              (Ok _, wm') \<Rightarrow> Ok wm'
            | (Err e, _) \<Rightarrow> Err e
            | (Panic, _) \<Rightarrow> Panic
            | (Stuck, _) \<Rightarrow> Stuck)
      else Ok wm)"

text \<open>\<open>Append\<close> sets the LSN of the record it is given and cannot fail.\<close>

definition append_record :: "log_record \<Rightarrow> (wal_mgr, u64) go" where
  "append_record r wm =
     (let n = next_lsn wm in
      (Ok n, wm\<lparr>next_lsn := n + 1, wbuf := wbuf wm @ encode_record (r\<lparr>r_lsn := n\<rparr>)\<rparr>))"

text \<open>The file is opened with \<open>O_APPEND\<close>. When the \<open>fsync\<close> fails the buffer is kept although its
  bytes are in the file.\<close>

definition flush_wal :: "(wal_mgr, unit) go" where
  "flush_wal wm =
     (if wbuf wm = [] then (Ok (), wm)
      else case write_at (length (fbytes (wfile wm))) (wbuf wm) (wfile wm) of
             None \<Rightarrow> (Err EIO, wm)
           | Some f \<Rightarrow>
               if \<not> fsync_ok f then (Err EIO, wm\<lparr>wfile := f\<rparr>)
               else (Ok (), wm\<lparr>wfile := f, wbuf := []\<rparr>))"


section \<open>Round trip of one record\<close>

lemma length_encode_record [simp]: "length (encode_record r) = 31 + length (redo_data r)"
  by (simp add: encode_record_def)

definition readable :: "os_file \<Rightarrow> bool" where
  "readable f \<longleftrightarrow> (\<forall>off. rd_ok f off)"

definition redo_fits :: "log_record \<Rightarrow> bool" where
  "redo_fits r \<longleftrightarrow> length (redo_data r) < 65536"

lemma read_full_inside:
  assumes "readable f" "fbytes f = pre @ bs @ post" "off = length pre" "n = length bs" "0 < n"
  shows "read_full off n f = ReadFull bs"
  using assms by (simp add: read_full_def readable_def)

lemma decode_one_fixed:
  assumes "readable f" "fbytes f = pre @ fixed @ post" "length fixed = 31" "pos = length pre"
  shows "decode_one pos f =
    (let r = \<lparr>r_lsn = be_get (sub 0 8 fixed), r_txn = be_get (sub 8 8 fixed),
              r_page = be_get (sub 16 4 fixed), r_op = fixed ! 20,
              r_prev = be_get (sub 21 8 fixed), redo_data = []\<rparr>;
         redo_size = (be_get (sub 29 2 fixed) :: u16)
     in if redo_size > 0
        then (case read_full (pos + 31) (unat redo_size) f of
                ReadFull d \<Rightarrow> Rec (r\<lparr>redo_data := d\<rparr>) (pos + 31 + unat redo_size)
              | ReadEOF \<Rightarrow> RecEOF
              | _ \<Rightarrow> RecFail)
        else Rec r (pos + 31))"
  using read_full_inside [OF assms(1,2,4), of 31] assms(3) by (simp add: decode_one_def)

definition fixed_part :: "log_record \<Rightarrow> byte list" where
  "fixed_part r = take 31 (encode_record r)"

lemma encode_fixed_redo: "encode_record r = fixed_part r @ redo_data r"
  by (simp add: encode_record_def fixed_part_def)

lemma length_fixed_part [simp]: "length (fixed_part r) = 31"
  by (simp add: fixed_part_def)

lemma fixed_part_fields:
  "be_get (sub 0 8 (fixed_part r)) = r_lsn r" "be_get (sub 8 8 (fixed_part r)) = r_txn r"
  "be_get (sub 16 4 (fixed_part r)) = r_page r" "fixed_part r ! 20 = r_op r"
  "be_get (sub 21 8 (fixed_part r)) = r_prev r"
  "be_get (sub 29 2 (fixed_part r)) = (of_nat (length (redo_data r)) :: u16)"
  by (simp_all add: fixed_part_def encode_record_def nth_append)

lemma decode_one_cases:
  assumes "readable f" "fbytes f = pre @ fixed_part r @ post" "pos = length pre" "redo_fits r"
  shows "decode_one pos f =
    (if redo_data r = [] then Rec r (pos + 31)
     else case read_full (pos + 31) (length (redo_data r)) f of
            ReadFull d \<Rightarrow> Rec (r\<lparr>redo_data := d\<rparr>) (pos + 31 + length (redo_data r))
          | ReadEOF \<Rightarrow> RecEOF
          | _ \<Rightarrow> RecFail)"
proof -
  have u: "unat (of_nat (length (redo_data r)) :: u16) = length (redo_data r)"
    using assms(4) by (simp add: redo_fits_def unat_of_nat)
  have z: "(0 < (of_nat (length (redo_data r)) :: u16)) = (redo_data r \<noteq> [])"
    using u by (metis gr0I length_0_conv less_numeral_extra(3) unat_gt_0 unat_0 word_gt_0)
  have e: "\<lparr>r_lsn = r_lsn r, r_txn = r_txn r, r_page = r_page r, r_op = r_op r, r_prev = r_prev r,
      redo_data = d\<rparr> = r\<lparr>redo_data := d\<rparr>" for d
    by (cases r) simp
  have "r\<lparr>redo_data := []\<rparr> = r" if "redo_data r = []"
    using that by (cases r) simp
  then show ?thesis
    using decode_one_fixed [OF assms(1,2) length_fixed_part assms(3)]
    by (simp add: fixed_part_fields u z Let_def e split: read_res.split)
qed

lemma decode_one_encode:
  assumes "readable f" "fbytes f = pre @ encode_record r @ post" "pos = length pre" "redo_fits r"
  shows "decode_one pos f = Rec r (pos + length (encode_record r))"
proof -
  have b: "fbytes f = pre @ fixed_part r @ (redo_data r @ post)"
    using assms(2) by (simp add: encode_fixed_redo)
  show ?thesis
  proof (cases "redo_data r = []")
    case False
    then have "read_full (pos + 31) (length (redo_data r)) f = ReadFull (redo_data r)"
      using read_full_inside [of f "pre @ fixed_part r" "redo_data r" post] assms b by simp
    with False show ?thesis
      using decode_one_cases [OF assms(1) b assms(3,4)] by simp
  qed (use decode_one_cases [OF assms(1) b assms(3,4)] in simp)
qed

lemma decode_one_torn:
  assumes f: "readable f" "fbytes f = pre @ take k (encode_record r)" "pos = length pre" "redo_fits r"
    and k: "k < length (encode_record r)"
  shows "decode_one pos f = (if k \<le> 31 then RecEOF else RecFail)"
proof (cases "k < 31")
  case True
  then have "length (fbytes f) < pos + 31"
    using f(2,3) by simp
  then show ?thesis
    using f(1) True by (auto simp: decode_one_def read_full_def readable_def)
next
  case False
  then have b: "fbytes f = pre @ fixed_part r @ take (k - 31) (redo_data r)"
    using f(2) by (simp add: encode_fixed_redo)
  have "redo_data r \<noteq> []"
    using k False by auto
  moreover have "read_full (pos + 31) (length (redo_data r)) f = (if k \<le> 31 then ReadEOF else ReadShort)"
    using f(1,3) b False k by (auto simp: read_full_def readable_def)
  ultimately show ?thesis
    using decode_one_cases [OF f(1) b f(3,4)] by simp
qed

section \<open>Round trip of the log\<close>

abbreviation encode_log :: "log_record list \<Rightarrow> byte list" where
  "encode_log rs \<equiv> concat (map encode_record rs)"

lemma read_records_prefix:
  assumes "readable f" "fbytes f = pre @ encode_log rs @ tail" "pos = length pre" "\<forall>r \<in> set rs. redo_fits r"
  shows "read_records pos f = map_option (append rs) (read_records (pos + length (encode_log rs)) f)"
  using assms
proof (induction rs arbitrary: pre pos)
  case Nil
  then show ?case by (simp add: option.map_id0 [unfolded id_def] option.map_ident)
next
  case (Cons r rs)
  have d: "decode_one pos f = Rec r (pos + length (encode_record r))"
    using Cons.prems by (intro decode_one_encode [where post = "encode_log rs @ tail"]) auto
  have "read_records pos f = map_option ((#) r) (read_records (pos + length (encode_record r)) f)"
    by (subst read_records.simps) (simp add: d)
  also have "read_records (pos + length (encode_record r)) f =
      map_option (append rs) (read_records (pos + length (encode_record r) + length (encode_log rs)) f)"
    using Cons.prems by (intro Cons.IH [of "pre @ encode_record r"]) auto
  finally show ?case
    by (simp add: option.map_comp comp_def add.assoc)
qed

lemma decode_one_at_end: "readable f \<Longrightarrow> length (fbytes f) \<le> pos \<Longrightarrow> decode_one pos f = RecEOF"
  by (simp add: decode_one_def read_full_def readable_def)

lemma read_records_end [simp]:
  "readable f \<Longrightarrow> length (fbytes f) \<le> pos \<Longrightarrow> read_records pos f = Some []"
  by (subst read_records.simps) (simp add: decode_one_at_end)

lemma read_records_log:
  assumes "readable f" "fbytes f = encode_log rs" "\<forall>r \<in> set rs. redo_fits r"
  shows "read_records 0 f = Some rs"
  using read_records_prefix [of f "[]" rs "[]" 0] assms by simp

lemma read_records_torn:
  assumes "readable f" "fbytes f = encode_log rs @ take k (encode_record r)"
    "\<forall>r \<in> set rs. redo_fits r" "redo_fits r" "k < length (encode_record r)"
  shows "read_records 0 f = (if k \<le> 31 then Some rs else None)"
proof -
  have "decode_one (length (encode_log rs)) f = (if k \<le> 31 then RecEOF else RecFail)"
    using assms by (intro decode_one_torn [where r = r]) auto
  then have "read_records (length (encode_log rs)) f = (if k \<le> 31 then Some [] else None)"
    by (subst read_records.simps) simp
  then show ?thesis
    using read_records_prefix [of f "[]" rs "take k (encode_record r)" 0] assms by simp
qed

section \<open>The log a manager holds\<close>

text \<open>\<open>wal_holds wm rs ps\<close>: the records \<open>rs\<close> are in the file, \<open>ps\<close> in the buffer, and the LSNs
  count all of them from zero.\<close>

definition wal_holds :: "wal_mgr \<Rightarrow> log_record list \<Rightarrow> log_record list \<Rightarrow> bool" where
  "wal_holds wm rs ps \<longleftrightarrow>
     readable (wfile wm) \<and> fbytes (wfile wm) = encode_log rs \<and> wbuf wm = encode_log ps \<and>
     (\<forall>r \<in> set (rs @ ps). redo_fits r) \<and>
     map r_lsn (rs @ ps) = map of_nat [0..<length (rs @ ps)] \<and>
     next_lsn wm = of_nat (length (rs @ ps))"

lemma encode_log_Nil_iff [simp]: "encode_log ps = [] \<longleftrightarrow> ps = []"
proof (cases ps)
  case (Cons r rs)
  have "length (encode_record r) \<noteq> 0"
    by (simp only: length_encode_record)
  then show ?thesis
    using Cons by (cases "encode_record r") simp_all
qed simp

lemma append_record_holds:
  assumes "wal_holds wm rs ps" "redo_fits r"
  obtains wm' where "append_record r wm = (Ok (next_lsn wm), wm')"
    "wal_holds wm' rs (ps @ [r\<lparr>r_lsn := next_lsn wm\<rparr>])" "wfile wm' = wfile wm"
proof (rule that)
  let ?wm = "wm\<lparr>next_lsn := next_lsn wm + 1,
    wbuf := wbuf wm @ encode_record (r\<lparr>r_lsn := next_lsn wm\<rparr>)\<rparr>"
  show "append_record r wm = (Ok (next_lsn wm), ?wm)"
    by (simp only: append_record_def Let_def)
  show "wal_holds ?wm rs (ps @ [r\<lparr>r_lsn := next_lsn wm\<rparr>])"
    using assms unfolding wal_holds_def redo_fits_def by simp
qed simp

lemma flush_wal_holds:
  assumes h: "wal_holds wm rs ps" and ok: "wr_ok (wfile wm) (length (fbytes (wfile wm)))" "fsync_ok (wfile wm)"
  obtains wm' where "flush_wal wm = (Ok (), wm')" "wal_holds wm' (rs @ ps) []"
    "wfile wm' = (wfile wm)\<lparr>fbytes := encode_log (rs @ ps)\<rparr>"
proof (cases "ps = []")
  case True
  then show thesis
    using h by (intro that [of wm]) (auto simp: flush_wal_def wal_holds_def)
next
  case False
  let ?f = "(wfile wm)\<lparr>fbytes := fbytes (wfile wm) @ wbuf wm\<rparr>"
  have "flush_wal wm = (Ok (), wm\<lparr>wfile := ?f, wbuf := []\<rparr>)"
    using False ok h by (simp add: flush_wal_def write_at_def wal_holds_def)
  moreover have "wal_holds (wm\<lparr>wfile := ?f, wbuf := []\<rparr>) (rs @ ps) []"
    using h by (simp add: wal_holds_def readable_def)
  ultimately show thesis
    using h by (intro that) (auto simp: wal_holds_def)
qed

lemma new_wal_manager_holds:
  assumes h: "wal_holds wm rs []"
  shows "new_wal_manager (wfile wm) = Ok wm"
proof -
  have rr: "read_records 0 (wfile wm) = Some rs"
    using h by (intro read_records_log) (auto simp: wal_holds_def)
  have l: "r_lsn (last rs) + 1 = next_lsn wm" if "rs \<noteq> []"
  proof -
    have "r_lsn (last rs) = last (map r_lsn rs)"
      using that by (simp add: last_map)
    also have "\<dots> = of_nat (length rs - 1)"
      using h that by (simp add: wal_holds_def last_map)
    finally show ?thesis
      using h that by (cases rs) (auto simp: wal_holds_def)
  qed
  show ?thesis
    using h rr l
    by (auto simp: new_wal_manager_def scan_next_lsn_def wal_read_all_def Let_def wal_holds_def)
qed

definition wal_writable :: "wal_mgr \<Rightarrow> bool" where
  "wal_writable wm \<longleftrightarrow> wr_ok (wfile wm) (length (fbytes (wfile wm))) \<and> fsync_ok (wfile wm)"

lemma wal_holds_read: "wal_holds wm rs ps \<Longrightarrow> wal_read_all wm = Ok rs"
  by (simp add: wal_holds_def wal_read_all_def read_records_log)


section \<open>Properties\<close>

definition sample_wal :: wal_mgr where
  "sample_wal = \<lparr>wfile = sample_file, next_lsn = 0, wbuf = []\<rparr>"

lemma sample_wal [simp]: "wal_holds sample_wal [] []" "wal_writable sample_wal"
  by (simp_all add: wal_holds_def sample_wal_def readable_def sample_file_def wal_writable_def)

definition sample_record :: log_record where
  "sample_record = \<lparr>r_lsn = 0, r_txn = 1, r_page = 7, r_op = op_insert, r_prev = 0, redo_data = [1, 2, 3]\<rparr>"

lemma sample_record [simp]: "redo_fits sample_record"
  by (simp add: redo_fits_def sample_record_def)

text \<open>C13. What is appended to the log and flushed is read back: after a flush the file decodes to all records of
  before, those that were buffered, and the appended one under the LSN that \<open>Append\<close> returned. Opening the
  log again continues the numbering of LSNs.\<close>

theorem wal_append_flush_read:
  assumes "wal_holds wm rs ps" "redo_fits r" "wal_writable wm"
  shows "\<exists>wm1 wm2. append_record r wm = (Ok (next_lsn wm), wm1) \<and> flush_wal wm1 = (Ok (), wm2) \<and>
    wal_read_all wm2 = Ok (rs @ ps @ [r\<lparr>r_lsn := next_lsn wm\<rparr>]) \<and>
    new_wal_manager (wfile wm2) = Ok wm2 \<and> next_lsn wm2 = next_lsn wm + 1"
proof -
  let ?r = "r\<lparr>r_lsn := next_lsn wm\<rparr>"
  obtain wm1 where wm1: "append_record r wm = (Ok (next_lsn wm), wm1)" "wal_holds wm1 rs (ps @ [?r])"
    "wfile wm1 = wfile wm"
    by (rule append_record_holds [OF assms(1,2)])
  obtain wm2 where wm2: "flush_wal wm1 = (Ok (), wm2)" "wal_holds wm2 (rs @ ps @ [?r]) []"
    using flush_wal_holds [OF wm1(2)] assms(3) unfolding wal_writable_def wm1(3) by metis
  have "next_lsn wm2 = next_lsn wm + 1"
    using wm2(2) assms(1) by (simp add: wal_holds_def)
  then show ?thesis
    using wm1(1) wm2 wal_holds_read [OF wm2(2)] new_wal_manager_holds [OF wm2(2)] by simp
qed

theorem wal_append_flush_read_witness:
  "\<exists>wm1 wm2. append_record sample_record sample_wal = (Ok (next_lsn sample_wal), wm1) \<and> flush_wal wm1 = (Ok (), wm2) \<and>
    wal_read_all wm2 = Ok ([] @ [] @ [sample_record\<lparr>r_lsn := next_lsn sample_wal\<rparr>]) \<and>
    new_wal_manager (wfile wm2) = Ok wm2 \<and> next_lsn wm2 = next_lsn sample_wal + 1"
  by (rule wal_append_flush_read) simp_all

text \<open>A crash during a flush leaves a prefix of a record at the end of the file. If the prefix ends within
  the 31 bytes of the fixed part the log reads as if the record were absent; if it ends inside the redo data,
  \<open>ReadAll\<close> fails, and with it every later opening of the log.\<close>

theorem wal_torn_record:
  assumes "readable (wfile wm)" "fbytes (wfile wm) = encode_log rs @ take k (encode_record r)"
    "\<forall>x \<in> set (r # rs). redo_fits x" "k < length (encode_record r)"
  shows "wal_read_all wm = (if k \<le> 31 then Ok rs else Err EWalRead) \<and>
    (31 < k \<longrightarrow> new_wal_manager (wfile wm) = Err EWalRead)"
proof (intro conjI impI)
  have rd: "read_records 0 (wfile wm) = (if k \<le> 31 then Some rs else None)"
    using assms by (intro read_records_torn) auto
  then show "wal_read_all wm = (if k \<le> 31 then Ok rs else Err EWalRead)"
    by (simp add: wal_read_all_def)
  show "new_wal_manager (wfile wm) = Err EWalRead" if "31 < k"
    using rd that assms(2,4)
    by (auto simp: new_wal_manager_def scan_next_lsn_def wal_read_all_def Let_def)
qed

definition torn_wal :: wal_mgr where
  "torn_wal = sample_wal\<lparr>wfile := sample_file\<lparr>fbytes := encode_log [] @ take 33 (encode_record sample_record)\<rparr>\<rparr>"

theorem wal_torn_record_witness:
  "wal_read_all torn_wal = Err EWalRead \<and> new_wal_manager (wfile torn_wal) = Err EWalRead"
proof -
  have "readable (wfile torn_wal)" "fbytes (wfile torn_wal) = encode_log [] @ take 33 (encode_record sample_record)"
    by (simp_all add: torn_wal_def readable_def sample_file_def)
  from wal_torn_record [OF this] show ?thesis
    by (simp add: sample_record_def redo_fits_def)
qed

end
