(* ===== verification/Buffer_Pool.thy ===== *)
theory Buffer_Pool
  imports Wal
begin

text \<open>
  \<open>storage/buffer/buffer.go\<close>: the pool of page frames with LRU replacement. Disk, log and pool are
  shared by every component above them, so they form one \<open>storage\<close> state. A \<open>*page.Page\<close> the Go
  code holds is a pointer into a frame: here its handle is the id of the frame, \<open>get_page\<close> and
  \<open>put_page\<close> read and overwrite the page behind it. The order of \<open>frames\<close> is the order in which
  \<open>range bp.frames\<close> visits the map; nothing below depends on which order it is.
\<close>

section \<open>State\<close>

record frame =
  fpage :: page
  pin_count :: int
  is_dirty :: bool
  ftxn :: u64

record pool =
  frames :: "(u32 \<times> frame) list"
  lru :: "u32 list"
  max_size :: int

record storage =
  disk :: disk_mgr
  wal :: wal_mgr
  bpool :: pool

definition on_disk :: "(disk_mgr, 'a) go \<Rightarrow> (storage, 'a) go" where
  "on_disk m s = (case m (disk s) of (r, d) \<Rightarrow> (r, s\<lparr>disk := d\<rparr>))"

definition on_wal :: "(wal_mgr, 'a) go \<Rightarrow> (storage, 'a) go" where
  "on_wal m s = (case m (wal s) of (r, w) \<Rightarrow> (r, s\<lparr>wal := w\<rparr>))"

definition new_buffer_pool :: "int \<Rightarrow> pool" where
  "new_buffer_pool n = \<lparr>frames = [], lru = [], max_size = n\<rparr>"

definition frame_at :: "storage \<Rightarrow> u32 \<Rightarrow> frame option" where
  "frame_at s i = map_of (frames (bpool s)) i"

definition set_frame :: "u32 \<Rightarrow> frame \<Rightarrow> storage \<Rightarrow> storage" where
  "set_frame i f s = s\<lparr>bpool := (bpool s)\<lparr>frames := AList.update i f (frames (bpool s))\<rparr>\<rparr>"

definition set_lru :: "u32 list \<Rightarrow> storage \<Rightarrow> storage" where
  "set_lru l s = s\<lparr>bpool := (bpool s)\<lparr>lru := l\<rparr>\<rparr>"

text \<open>Reading and overwriting the page a handle points to.\<close>

definition get_page :: "u32 \<Rightarrow> (storage, page) go" where
  "get_page i s = of_option (map_option fpage (frame_at s i)) s"

definition put_page :: "u32 \<Rightarrow> page \<Rightarrow> (storage, unit) go" where
  "put_page i p s =
     (case frame_at s i of
        None \<Rightarrow> (Panic, s)
      | Some f \<Rightarrow> (Ok (), set_frame i (f\<lparr>fpage := p\<rparr>) s))"

section \<open>Eviction and fetching\<close>

text \<open>The loop of \<open>evict\<close> from the back of the LRU list: \<open>None\<close> is the dereference of a missing
  frame, \<open>Some None\<close> says that no frame may go.\<close>

fun evict_scan :: "u32 list \<Rightarrow> (u32 \<times> frame) list \<Rightarrow> u32 option option" where
  "evict_scan [] fs = Some None"
| "evict_scan (i # is) fs =
     (case map_of fs i of
        None \<Rightarrow> None
      | Some f \<Rightarrow> if pin_count f > 0 \<or> is_dirty f then evict_scan is fs else Some (Some i))"

definition evict :: "(storage, unit) go" where
  "evict s =
     (case evict_scan (rev (lru (bpool s))) (frames (bpool s)) of
        None \<Rightarrow> (Panic, s)
      | Some None \<Rightarrow> (Err ENoEvictable, s)
      | Some (Some i) \<Rightarrow>
          (Ok (), s\<lparr>bpool := (bpool s)\<lparr>lru := remove1 i (lru (bpool s)),
                                       frames := AList.delete i (frames (bpool s))\<rparr>\<rparr>))"

definition fetch_page :: "u32 \<Rightarrow> (storage, page) go" where
  "fetch_page i s =
     (case frame_at s i of
        Some f \<Rightarrow>
          (Ok (fpage f),
           set_lru (i # remove1 i (lru (bpool s))) (set_frame i (f\<lparr>pin_count := pin_count f + 1\<rparr>) s))
      | None \<Rightarrow>
          bindG (\<lambda>s. if int (length (frames (bpool s))) \<ge> max_size (bpool s) then evict s else (Ok (), s)) (\<lambda>_.
          bindG (on_disk (read_page i)) (\<lambda>p s.
            (Ok p, set_lru (i # lru (bpool s))
                     (set_frame i \<lparr>fpage = p, pin_count = 1, is_dirty = False, ftxn = 0\<rparr> s)))) s)"

definition unpin_page :: "u32 \<Rightarrow> bool \<Rightarrow> u64 \<Rightarrow> storage \<Rightarrow> storage" where
  "unpin_page i dirty txn s =
     (case frame_at s i of
        None \<Rightarrow> s
      | Some f \<Rightarrow>
          let f1 = (if pin_count f > 0 then f\<lparr>pin_count := pin_count f - 1\<rparr> else f);
              f2 = (if dirty then f1\<lparr>is_dirty := True, ftxn := txn\<rparr> else f1)
          in set_frame i f2 s)"

section \<open>Flushing and discarding\<close>

definition write_frame :: "u32 \<Rightarrow> frame \<Rightarrow> (storage, unit) go" where
  "write_frame i f =
     bindG (on_disk (write_page (fpage f))) (\<lambda>_ s. (Ok (), set_frame i (f\<lparr>is_dirty := False\<rparr>) s))"

definition flush_page :: "u32 \<Rightarrow> (storage, unit) go" where
  "flush_page i s =
     (case frame_at s i of
        None \<Rightarrow> (Ok (), s)
      | Some f \<Rightarrow>
          if \<not> is_dirty f then (Ok (), s)
          else bindG (on_wal flush_wal) (\<lambda>_. write_frame i f) s)"

text \<open>The loop of \<open>FlushAll\<close> over the ids of the frames.\<close>

fun flush_frames :: "(u64 \<Rightarrow> bool) \<Rightarrow> u32 list \<Rightarrow> (storage, unit) go" where
  "flush_frames committed [] s = (Ok (), s)"
| "flush_frames committed (i # is) s =
     (case frame_at s i of
        None \<Rightarrow> flush_frames committed is s
      | Some f \<Rightarrow>
          if \<not> is_dirty f \<or> \<not> committed (ftxn f) then flush_frames committed is s
          else bindG (write_frame i f) (\<lambda>_. flush_frames committed is) s)"

definition flush_all :: "(u64 \<Rightarrow> bool) \<Rightarrow> (storage, unit) go" where
  "flush_all committed =
     bindG (on_wal flush_wal) (\<lambda>_ s. flush_frames committed (map fst (frames (bpool s))) s)"

fun discard_frames :: "u64 \<Rightarrow> u32 list \<Rightarrow> (storage, unit) go" where
  "discard_frames txn [] s = (Ok (), s)"
| "discard_frames txn (i # is) s =
     (case frame_at s i of
        None \<Rightarrow> discard_frames txn is s
      | Some f \<Rightarrow>
          if \<not> is_dirty f \<or> ftxn f \<noteq> txn then discard_frames txn is s
          else if pin_count f > 0 then (Err (EPinned i), s)
          else bindG (on_disk (read_page i)) (\<lambda>p s.
                 discard_frames txn is (set_frame i (f\<lparr>fpage := p, is_dirty := False\<rparr>) s)) s)"

definition discard_txn :: "u64 \<Rightarrow> (storage, unit) go" where
  "discard_txn txn s = discard_frames txn (map fst (frames (bpool s))) s"


section \<open>What the pool shows to its callers\<close>

text \<open>\<open>view s i\<close> is the current content of page \<open>i\<close>, \<open>pins s i\<close> its pin count, \<open>owner s i\<close> the
  transaction that a dirty frame is recorded under.\<close>

definition view :: "storage \<Rightarrow> u32 \<Rightarrow> page option" where
  "view s i = (case frame_at s i of Some f \<Rightarrow> Some (fpage f) | None \<Rightarrow> disk_view (disk s) i)"

definition pins :: "storage \<Rightarrow> u32 \<Rightarrow> int" where
  "pins s i = (case frame_at s i of Some f \<Rightarrow> pin_count f | None \<Rightarrow> 0)"

definition owner :: "storage \<Rightarrow> u32 \<Rightarrow> u64 option" where
  "owner s i = (case frame_at s i of Some f \<Rightarrow> if is_dirty f then Some (ftxn f) else None | None \<Rightarrow> None)"

definition busy :: "storage \<Rightarrow> u32 set" where
  "busy s = {i. pins s i > 0 \<or> owner s i \<noteq> None}"

text \<open>The invariant. \<open>M\<close> holds the pages that were written through a handle and are not yet
  unpinned as dirty; any other clean frame agrees with the disk.\<close>

definition pool_ok :: "u32 set \<Rightarrow> storage \<Rightarrow> bool" where
  "pool_ok M s \<longleftrightarrow>
     disk_ok (disk s) \<and>
     distinct (map fst (frames (bpool s))) \<and> distinct (lru (bpool s)) \<and>
     set (lru (bpool s)) = dom (frame_at s) \<and>
     (\<forall>i f. frame_at s i = Some f \<longrightarrow>
        0 \<le> pin_count f \<and> length (fpage f) = page_size \<and> page_id (fpage f) = i \<and>
        i < next_page_id (disk s) \<and>
        (is_dirty f \<or> i \<in> M \<or> disk_view (disk s) i = Some (fpage f))) \<and>
     (\<forall>i p. i < next_page_id (disk s) \<longrightarrow> disk_view (disk s) i = Some p \<longrightarrow> page_id p = i) \<and>
     M \<subseteq> {i. pins s i > 0}"

lemma frame_at_set_frame [simp]: "frame_at (set_frame i f s) = (frame_at s)(i \<mapsto> f)"
  by (simp add: frame_at_def set_frame_def update_conv fun_eq_iff)

lemma frame_at_set_lru [simp]: "frame_at (set_lru l s) = frame_at s"
  by (simp add: frame_at_def set_lru_def fun_eq_iff)

lemma frame_at_other [simp]: "frame_at (s\<lparr>disk := d\<rparr>) = frame_at s" "frame_at (s\<lparr>wal := w\<rparr>) = frame_at s"
  by (simp_all add: frame_at_def fun_eq_iff)

lemma set_frame_fields [simp]:
  "disk (set_frame i f s) = disk s" "wal (set_frame i f s) = wal s"
  "lru (bpool (set_frame i f s)) = lru (bpool s)" "max_size (bpool (set_frame i f s)) = max_size (bpool s)"
  "frames (bpool (set_frame i f s)) = AList.update i f (frames (bpool s))"
  by (simp_all add: set_frame_def)

lemma set_lru_fields [simp]:
  "disk (set_lru l s) = disk s" "wal (set_lru l s) = wal s" "lru (bpool (set_lru l s)) = l"
  "max_size (bpool (set_lru l s)) = max_size (bpool s)" "frames (bpool (set_lru l s)) = frames (bpool s)"
  by (simp_all add: set_lru_def)

lemma pool_okD:
  assumes "pool_ok M s"
  shows "disk_ok (disk s)" "distinct (map fst (frames (bpool s)))" "distinct (lru (bpool s))"
    "set (lru (bpool s)) = dom (frame_at s)" "M \<subseteq> {i. pins s i > 0}"
    "i < next_page_id (disk s) \<Longrightarrow> disk_view (disk s) i = Some p \<Longrightarrow> page_id p = i"
  using assms by (auto simp: pool_ok_def)

lemma pool_ok_frameD:
  assumes "pool_ok M s" "frame_at s i = Some f"
  shows "0 \<le> pin_count f" "length (fpage f) = 4096" "page_id (fpage f) = i" "i < next_page_id (disk s)"
    "is_dirty f \<or> i \<in> M \<or> disk_view (disk s) i = Some (fpage f)"
  using assms by (auto simp: pool_ok_def)

lemma pins_nonneg: "pool_ok M s \<Longrightarrow> 0 \<le> pins s i"
  by (auto simp: pins_def dest: pool_ok_frameD split: option.split)

lemma view_allocated:
  assumes "pool_ok M s" "i < next_page_id (disk s)"
  obtains p where "view s i = Some p" "length p = 4096" "page_id p = i"
proof (cases "frame_at s i")
  case None
  then show thesis
    using disk_view_allocated [OF pool_okD(1) [OF assms(1)] assms(2)] pool_okD(6) [OF assms]
    by (auto simp: view_def intro!: that)
next
  case (Some f)
  then show thesis
    using pool_ok_frameD [OF assms(1) Some] by (intro that [of "fpage f"]) (auto simp: view_def)
qed

lemma view_fields:
  assumes "pool_ok M s" "i < next_page_id (disk s)" "view s i = Some p"
  shows "length p = 4096" "page_id p = i"
  using view_allocated [OF assms(1,2)] assms(3) by fastforce+

section \<open>Eviction\<close>

lemma evict_scan_finds:
  assumes "set is \<subseteq> dom (map_of fs)" "i \<in> set is" "map_of fs i = Some f" "\<not> (pin_count f > 0 \<or> is_dirty f)"
  shows "\<exists>j g. evict_scan is fs = Some (Some j) \<and> j \<in> set is \<and> map_of fs j = Some g \<and>
    \<not> (pin_count g > 0 \<or> is_dirty g)"
  using assms by (induction "is" fs rule: evict_scan.induct) (auto split: option.splits)

lemma busy_subset: "busy s \<subseteq> dom (frame_at s)"
  by (auto simp: busy_def pins_def owner_def split: option.splits)

lemma frame_at_eq: "frame_at s = map_of (frames (bpool s))"
  by (simp add: frame_at_def fun_eq_iff)

lemma card_frames: "distinct (map fst (frames (bpool s))) \<Longrightarrow> card (dom (frame_at s)) = length (frames (bpool s))"
  using distinct_card [of "map fst (frames (bpool s))"]
  by (simp add: frame_at_eq dom_map_of_conv_image_fst)

lemma finite_busy [simp]: "finite (busy s)"
  using finite_subset [OF busy_subset] by (auto simp: frame_at_def finite_dom_map_of)

lemma evict_ok:
  assumes ok: "pool_ok M s" and full: "max_size (bpool s) \<le> int (length (frames (bpool s)))"
    and free: "int (card (busy s)) < max_size (bpool s)"
  obtains j s' where "evict s = (Ok (), s')" "pool_ok M s'" "j \<notin> busy s"
    "frame_at s' = (frame_at s)(j := None)"
    "disk s' = disk s" "wal s' = wal s" "max_size (bpool s') = max_size (bpool s)"
    "view s' = view s" "pins s' = pins s" "owner s' = owner s"
proof -
  have "busy s \<noteq> dom (frame_at s)"
    using full free card_frames [OF pool_okD(2) [OF ok]] by auto
  then obtain i f where i: "frame_at s i = Some f" "i \<notin> busy s"
    using busy_subset by blast
  have nb: "\<not> (pin_count f > 0 \<or> is_dirty f) \<longleftrightarrow> i \<notin> busy s" if "frame_at s i = Some f" for i f
    using that by (auto simp: busy_def pins_def owner_def)
  have lru: "set (rev (lru (bpool s))) = dom (map_of (frames (bpool s)))"
    using pool_okD(4) [OF ok] by (simp add: frame_at_def dom_def)
  obtain j g where j: "evict_scan (rev (lru (bpool s))) (frames (bpool s)) = Some (Some j)"
    "frame_at s j = Some g" "\<not> (pin_count g > 0 \<or> is_dirty g)"
    using evict_scan_finds [of "rev (lru (bpool s))" "frames (bpool s)" i f] i nb [OF i(1)] lru
    by (auto simp: frame_at_def)
  have jb: "j \<notin> busy s"
    using nb [OF j(2)] j(3) by blast
  let ?s = "s\<lparr>bpool := (bpool s)\<lparr>lru := remove1 j (lru (bpool s)), frames := AList.delete j (frames (bpool s))\<rparr>\<rparr>"
  have fr: "frame_at ?s = (frame_at s)(j := None)"
    by (simp add: frame_at_def fun_eq_iff delete_conv)
  have jM: "j \<notin> M"
    using pool_okD(5) [OF ok] jb by (auto simp: busy_def)
  have dj: "disk_view (disk s) j = Some (fpage g)"
    using pool_ok_frameD(5) [OF ok j(2)] j(3) jM by blast
  have pj: "pins s j = 0" "owner s j = None"
    using j(2,3) pool_ok_frameD(1) [OF ok j(2)] by (auto simp: pins_def owner_def)
  show thesis
  proof (rule that [of ?s j])
    show "evict s = (Ok (), ?s)"
      by (simp add: evict_def j(1))
    show "view ?s = view s"
      using dj j(2) by (auto simp: view_def fr fun_eq_iff split: option.split)
    show p: "pins ?s = pins s"
      using pj by (auto simp: pins_def fr fun_eq_iff split: option.splits)
    show "owner ?s = owner s"
      using pj by (auto simp: owner_def fr fun_eq_iff split: option.splits)
    show "pool_ok M ?s"
      using ok unfolding pool_ok_def fr p
      by (auto simp: distinct_delete set_remove1_eq)
  qed (use jb fr in simp_all)
qed

section \<open>Fetching, writing, unpinning\<close>

lemma fetch_page_ok:
  assumes ok: "pool_ok M s" and i: "i < next_page_id (disk s)"
    and room: "i \<in> dom (frame_at s) \<or> int (card (busy s)) < max_size (bpool s)"
    and p: "view s i = Some p"
  obtains s' where "fetch_page i s = (Ok p, s')" "pool_ok M s'"
    "disk s' = disk s" "wal s' = wal s" "max_size (bpool s') = max_size (bpool s)"
    "view s' = view s" "pins s' = (pins s)(i := pins s i + 1)" "owner s' = owner s"
proof (cases "frame_at s i")
  case (Some f)
  let ?f = "f\<lparr>pin_count := pin_count f + 1\<rparr>"
  let ?s = "set_lru (i # remove1 i (lru (bpool s))) (set_frame i ?f s)"
  note fi = pool_ok_frameD [OF ok Some]
  show thesis
  proof (rule that [of ?s])
    show "fetch_page i s = (Ok p, ?s)"
      using p Some by (simp add: fetch_page_def view_def)
    have pins: "pins ?s = (pins s)(i := pins s i + 1)"
      using Some by (auto simp: pins_def fun_eq_iff)
    then show "pins ?s = (pins s)(i := pins s i + 1)" .
    show "view ?s = view s" "owner ?s = owner s"
      using Some by (auto simp: view_def owner_def fun_eq_iff split: option.split)
    have M: "M \<subseteq> {j. 0 < pins ?s j}"
      unfolding pins using pool_okD(5) [OF ok] pins_nonneg [OF ok, of i] by auto
    show "pool_ok M ?s"
      using ok fi Some M unfolding pool_ok_def
      by (auto simp: distinct_update set_remove1_eq)
  qed simp_all
next
  case None
  have frm: "frame_at s i = None" by (rule None)
  have "\<exists>s1. (if int (length (frames (bpool s))) \<ge> max_size (bpool s) then evict s else (Ok (), s)) = (Ok (), s1) \<and>
      pool_ok M s1 \<and> frame_at s1 i = None \<and> disk s1 = disk s \<and> wal s1 = wal s \<and>
      max_size (bpool s1) = max_size (bpool s) \<and> view s1 = view s \<and> pins s1 = pins s \<and> owner s1 = owner s"
  proof (cases "int (length (frames (bpool s))) \<ge> max_size (bpool s)")
    case True
    then show ?thesis
      using evict_ok [OF ok True] room None by (metis domIff fun_upd_apply)
  next
    case False
    then show ?thesis
      using ok None by simp
  qed
  then obtain s1 where s1: "(if int (length (frames (bpool s))) \<ge> max_size (bpool s) then evict s else (Ok (), s)) = (Ok (), s1)"
      "pool_ok M s1" "frame_at s1 i = None" "disk s1 = disk s" "wal s1 = wal s"
      "max_size (bpool s1) = max_size (bpool s)" "view s1 = view s" "pins s1 = pins s" "owner s1 = owner s"
    by blast
  have dv: "disk_view (disk s) i = Some p"
    using p None by (simp add: view_def)
  have rp: "on_disk (read_page i) s1 = (Ok p, s1)"
    using read_page_view [OF pool_okD(1) [OF ok], of i] dv s1(4) by (simp add: on_disk_def)
  let ?f = "\<lparr>fpage = p, pin_count = 1, is_dirty = False, ftxn = 0\<rparr>"
  let ?s = "set_lru (i # lru (bpool s1)) (set_frame i ?f s1)"
  have ids: "length p = 4096" "page_id p = i"
    using disk_view_length [OF dv] pool_okD(6) [OF ok i dv] by auto
  show thesis
  proof (rule that [of ?s])
    show "fetch_page i s = (Ok p, ?s)"
      using s1(1) rp by (simp add: fetch_page_def frm bindG_def)
    have pins: "pins ?s = (pins s)(i := pins s i + 1)"
      unfolding s1(8) [symmetric] using s1(3) by (auto simp: pins_def fun_eq_iff)
    then show "pins ?s = (pins s)(i := pins s i + 1)" .
    show "view ?s = view s"
      unfolding s1(7) [symmetric] using s1(3,4) dv by (auto simp: view_def fun_eq_iff split: option.split)
    show "owner ?s = owner s"
      unfolding s1(9) [symmetric] using s1(3) by (auto simp: owner_def fun_eq_iff)
    have M: "M \<subseteq> {j. 0 < pins ?s j}"
      unfolding pins using pool_okD(5) [OF ok] pins_nonneg [OF ok, of i] by auto
    have "i \<notin> set (lru (bpool s1))"
      using pool_okD(4) [OF s1(2)] s1(3) by auto
    then show "pool_ok M ?s"
      using s1(2,4) i ids dv M unfolding pool_ok_def
      by (auto simp: distinct_update)
  qed (use s1 in simp_all)
qed

lemma pins_frame: "0 < pins s i \<Longrightarrow> \<exists>f. frame_at s i = Some f"
  by (auto simp: pins_def split: option.splits)

lemma get_page_ok:
  assumes "0 < pins s i" "view s i = Some p"
  shows "get_page i s = (Ok p, s)"
  using assms by (auto simp: get_page_def view_def dest!: pins_frame)

lemma put_page_ok:
  assumes ok: "pool_ok M s" and pin: "0 < pins s i" and p: "length p = 4096" "page_id p = i"
  obtains s' where "put_page i p s = (Ok (), s')" "pool_ok (insert i M) s'"
    "disk s' = disk s" "wal s' = wal s" "max_size (bpool s') = max_size (bpool s)"
    "view s' = (view s)(i \<mapsto> p)" "pins s' = pins s" "owner s' = owner s"
proof -
  obtain f where f: "frame_at s i = Some f"
    using pins_frame [OF pin] by blast
  let ?s = "set_frame i (f\<lparr>fpage := p\<rparr>) s"
  show thesis
  proof (rule that [of ?s])
    show "put_page i p s = (Ok (), ?s)"
      by (simp add: put_page_def f)
    show pins: "pins ?s = pins s" and "owner ?s = owner s" "view ?s = (view s)(i \<mapsto> p)"
      using f by (auto simp: pins_def owner_def view_def fun_eq_iff split: option.split)
    have "insert i M \<subseteq> {j. 0 < pins ?s j}"
      unfolding pins using pool_okD(5) [OF ok] pin by auto
    then show "pool_ok (insert i M) ?s"
      using ok f p pool_ok_frameD [OF ok f] unfolding pool_ok_def
      by (auto simp: distinct_update)
  qed simp_all
qed

lemma unpin_page_ok:
  assumes ok: "pool_ok M s" and pin: "0 < pins s i" and d: "dirty \<or> i \<notin> M"
  shows "pool_ok (if dirty then M - {i} else M) (unpin_page i dirty txn s)"
    "disk (unpin_page i dirty txn s) = disk s" "wal (unpin_page i dirty txn s) = wal s"
    "max_size (bpool (unpin_page i dirty txn s)) = max_size (bpool s)"
    "view (unpin_page i dirty txn s) = view s"
    "pins (unpin_page i dirty txn s) = (pins s)(i := pins s i - 1)"
    "owner (unpin_page i dirty txn s) = (if dirty then (owner s)(i \<mapsto> txn) else owner s)"
proof -
  obtain f where f: "frame_at s i = Some f"
    using pins_frame [OF pin] by blast
  have pf: "0 < pin_count f"
    using pin f by (simp add: pins_def)
  let ?g = "if dirty then f\<lparr>pin_count := pin_count f - 1, is_dirty := True, ftxn := txn\<rparr>
            else f\<lparr>pin_count := pin_count f - 1\<rparr>"
  have u: "unpin_page i dirty txn s = set_frame i ?g s"
    using pf by (simp add: unpin_page_def f Let_def)
  show "disk (unpin_page i dirty txn s) = disk s" "wal (unpin_page i dirty txn s) = wal s"
    "max_size (bpool (unpin_page i dirty txn s)) = max_size (bpool s)"
    unfolding u by simp_all
  show "view (unpin_page i dirty txn s) = view s"
    "owner (unpin_page i dirty txn s) = (if dirty then (owner s)(i \<mapsto> txn) else owner s)"
    unfolding u using f by (auto simp: view_def owner_def fun_eq_iff split: option.split)
  show p: "pins (unpin_page i dirty txn s) = (pins s)(i := pins s i - 1)"
    unfolding u using f by (auto simp: pins_def fun_eq_iff)
  have M: "(if dirty then M - {i} else M) \<subseteq> {j. 0 < pins (unpin_page i dirty txn s) j}"
    unfolding p using pool_okD(5) [OF ok] d by auto
  then show "pool_ok (if dirty then M - {i} else M) (unpin_page i dirty txn s)"
    using ok f pf pool_ok_frameD [OF ok f] unfolding pool_ok_def u
    by (auto simp: distinct_update split: if_splits)
qed


section \<open>Allocating, changing the root\<close>

lemma allocate_ok:
  assumes ok: "pool_ok M s" and room: "next_page_id (disk s) < no_page_id"
  obtains s' where "on_disk (allocate_page t) s = (Ok (new_page t (next_page_id (disk s))), s')"
    "pool_ok M s'" "view s' (next_page_id (disk s)) = Some (new_page t (next_page_id (disk s)))"
    "\<forall>i < next_page_id (disk s). view s' i = view s i"
    "next_page_id (disk s') = next_page_id (disk s) + 1" "root_page_id (disk s') = root_page_id (disk s)"
    "\<forall>i < next_page_id (disk s). disk_view (disk s') i = disk_view (disk s) i"
    "wal s' = wal s" "max_size (bpool s') = max_size (bpool s)" "pins s' = pins s" "owner s' = owner s"
proof -
  let ?n = "next_page_id (disk s)"
  obtain d where d: "allocate_page t (disk s) = (Ok (new_page t ?n), d)" "disk_ok d"
    "disk_view d ?n = Some (new_page t ?n)" "\<And>i. i < ?n \<Longrightarrow> disk_view d i = disk_view (disk s) i"
    "root_page_id d = root_page_id (disk s)" "next_page_id d = ?n + 1"
    using allocate_page_ok [OF pool_okD(1) [OF ok] room] by blast
  have lt: "i < ?n + 1 \<longleftrightarrow> i < ?n \<or> i = ?n" for i
    using room by (auto simp: no_page_id_def word_less_nat_alt word_unat_eq_iff unat_word_ariths)
  let ?s = "s\<lparr>disk := d\<rparr>"
  have fr: "frame_at ?s = frame_at s"
    by (simp add: frame_at_eq)
  have keys: "frame_at s i = Some f \<Longrightarrow> i < ?n" for i f
    by (rule pool_ok_frameD(4) [OF ok])
  show thesis
  proof (rule that [of ?s])
    show "on_disk (allocate_page t) s = (Ok (new_page t ?n), ?s)"
      by (simp add: on_disk_def d(1))
    show p: "pins ?s = pins s" and "owner ?s = owner s"
      by (simp_all add: pins_def owner_def fr fun_eq_iff)
    show "\<forall>i < ?n. view ?s i = view s i"
      by (simp add: view_def fr d(4) split: option.split)
    have "frame_at s ?n = None"
      using keys [of ?n] by (cases "frame_at s ?n") auto
    then show "view ?s ?n = Some (new_page t ?n)"
      by (simp add: view_def fr d(3))
    show "pool_ok M ?s"
      using ok unfolding pool_ok_def fr p
      by (auto simp: d lt dest: keys)
  qed (use d in simp_all)
qed

lemma set_root_ok:
  assumes ok: "pool_ok M s"
  obtains s' where "on_disk (set_root_page_id r) s = (Ok (), s')" "pool_ok M s'"
    "root_page_id (disk s') = r" "next_page_id (disk s') = next_page_id (disk s)"
    "disk_view (disk s') = disk_view (disk s)" "wal s' = wal s"
    "max_size (bpool s') = max_size (bpool s)" "view s' = view s" "pins s' = pins s" "owner s' = owner s"
proof -
  obtain d where d: "set_root_page_id r (disk s) = (Ok (), d)" "disk_ok d"
    "disk_view d = disk_view (disk s)" "root_page_id d = r" "next_page_id d = next_page_id (disk s)"
    using set_root_page_id_ok [OF pool_okD(1) [OF ok]] by blast
  let ?s = "s\<lparr>disk := d\<rparr>"
  have fr: "frame_at ?s = frame_at s"
    by (simp add: frame_at_eq)
  have p: "pins ?s = pins s" "owner ?s = owner s" "view ?s = view s"
    by (auto simp: pins_def owner_def view_def fun_eq_iff d(3) split: option.split)
  show thesis
    using ok unfolding pool_ok_def
    by (intro that [of ?s]) (auto simp: on_disk_def d p fr pool_ok_def)
qed

section \<open>Flushing and discarding against an abstract store\<close>

text \<open>What the pool and the disk promise together: each page has a visible content and a durable
  one, and a page whose contents may differ has an owner. A commit makes the visible contents of
  the owner's pages durable, a rollback makes their durable contents visible again.\<close>

record page_store =
  vis :: "u32 \<Rightarrow> page option"
  dur :: "u32 \<Rightarrow> page option"
  own :: "u32 \<Rightarrow> u64 option"

definition abs_store :: "storage \<Rightarrow> page_store" where
  "abs_store s = \<lparr>vis = view s, dur = disk_view (disk s), own = owner s\<rparr>"

definition owned_by :: "(u64 \<Rightarrow> bool) \<Rightarrow> page_store \<Rightarrow> u32 \<Rightarrow> bool" where
  "owned_by c st i = (case own st i of Some t \<Rightarrow> c t | None \<Rightarrow> False)"

definition commit_pages :: "(u64 \<Rightarrow> bool) \<Rightarrow> page_store \<Rightarrow> page_store" where
  "commit_pages c st = st\<lparr>dur := \<lambda>i. if owned_by c st i then vis st i else dur st i,
                          own := \<lambda>i. if owned_by c st i then None else own st i\<rparr>"

definition rollback_pages :: "u64 \<Rightarrow> page_store \<Rightarrow> page_store" where
  "rollback_pages t st = st\<lparr>vis := \<lambda>i. if owned_by ((=) t) st i then dur st i else vis st i,
                            own := \<lambda>i. if owned_by ((=) t) st i then None else own st i\<rparr>"

lemma abs_store_fields [simp]:
  "vis (abs_store s) = view s" "dur (abs_store s) = disk_view (disk s)" "own (abs_store s) = owner s"
  by (simp_all add: abs_store_def)

lemma owned_by_abs: "owned_by c (abs_store s) i \<longleftrightarrow> (\<exists>t. owner s i = Some t \<and> c t)"
  by (simp add: owned_by_def split: option.split)

lemma owner_frame: "owner s i = Some t \<longleftrightarrow> (\<exists>f. frame_at s i = Some f \<and> is_dirty f \<and> ftxn f = t)"
  by (auto simp: owner_def split: option.splits)

lemma write_frame_ok:
  assumes ok: "pool_ok M s" and f: "frame_at s i = Some f"
  obtains s' where "write_frame i f s = (Ok (), s')" "pool_ok M s'"
    "root_page_id (disk s') = root_page_id (disk s)" "next_page_id (disk s') = next_page_id (disk s)"
    "disk_view (disk s') = (disk_view (disk s))(i \<mapsto> fpage f)" "wal s' = wal s"
    "max_size (bpool s') = max_size (bpool s)" "view s' = view s" "pins s' = pins s"
    "owner s' = (owner s)(i := None)" "map fst (frames (bpool s')) = map fst (frames (bpool s))"
proof -
  note ff = pool_ok_frameD [OF ok f]
  obtain d where d: "write_page (fpage f) (disk s) = (Ok (), d)" "disk_ok d"
    "disk_view d = (disk_view (disk s))(i \<mapsto> fpage f)"
    "root_page_id d = root_page_id (disk s)" "next_page_id d = next_page_id (disk s)"
    using write_page_ok [OF pool_okD(1) [OF ok] ff(2)] ff(3,4) by auto
  let ?g = "f\<lparr>is_dirty := False\<rparr>"
  let ?s = "set_frame i ?g (s\<lparr>disk := d\<rparr>)"
  have fr: "frame_at ?s = (frame_at s)(i \<mapsto> ?g)"
    by (simp add: frame_at_eq update_conv fun_eq_iff)
  show thesis
  proof (rule that [of ?s])
    show "write_frame i f s = (Ok (), ?s)"
      by (simp add: write_frame_def bindG_def on_disk_def d(1))
    show p: "pins ?s = pins s" and "owner ?s = (owner s)(i := None)"
      using f by (auto simp: pins_def owner_def fr fun_eq_iff)
    show "view ?s = view s"
      using f by (auto simp: view_def fr fun_eq_iff d(3) split: option.split)
    have "i \<in> set (map fst (frames (bpool s)))"
      using f by (simp add: frame_at_eq) (metis domI dom_map_of_conv_image_fst)
    then show "map fst (frames (bpool ?s)) = map fst (frames (bpool s))"
      by (simp add: update_keys)
    show "pool_ok M ?s"
      using ok f ff unfolding pool_ok_def p fr
      by (auto simp: d distinct_update)
  qed (use d in simp_all)
qed

lemma flush_frames_ok:
  assumes "pool_ok M s"
  shows "\<exists>s'. flush_frames c is s = (Ok (), s') \<and> pool_ok M s' \<and>
    root_page_id (disk s') = root_page_id (disk s) \<and> next_page_id (disk s') = next_page_id (disk s) \<and>
    wal s' = wal s \<and> max_size (bpool s') = max_size (bpool s) \<and> pins s' = pins s \<and> view s' = view s \<and>
    disk_view (disk s') = (\<lambda>i. if i \<in> set is \<and> owned_by c (abs_store s) i then view s i else disk_view (disk s) i) \<and>
    owner s' = (\<lambda>i. if i \<in> set is \<and> owned_by c (abs_store s) i then None else owner s i)"
  using assms
proof (induction "is" arbitrary: s)
  case Nil
  then show ?case by auto
next
  case (Cons i "is")
  show ?case
  proof (cases "owned_by c (abs_store s) i")
    case False
    then have "flush_frames c (i # is) s = flush_frames c is s"
      by (auto simp: owned_by_def abs_store_def owner_def split: option.splits)
    moreover have "j \<in> set (i # is) \<and> owned_by c (abs_store s) j \<longleftrightarrow> j \<in> set is \<and> owned_by c (abs_store s) j" for j
      using False by auto
    ultimately show ?thesis
      using Cons.IH [OF Cons.prems] by (simp only:)
  next
    case True
    then obtain f where f: "frame_at s i = Some f" "is_dirty f" "c (ftxn f)"
      by (auto simp: owned_by_def abs_store_def owner_def split: option.splits if_splits)
    obtain s1 where s1: "write_frame i f s = (Ok (), s1)" "pool_ok M s1"
      "root_page_id (disk s1) = root_page_id (disk s)" "next_page_id (disk s1) = next_page_id (disk s)"
      "disk_view (disk s1) = (disk_view (disk s))(i \<mapsto> fpage f)" "wal s1 = wal s"
      "max_size (bpool s1) = max_size (bpool s)" "view s1 = view s" "pins s1 = pins s"
      "owner s1 = (owner s)(i := None)"
      using write_frame_ok [OF Cons.prems f(1)] by metis
    have step: "flush_frames c (i # is) s = flush_frames c is s1"
      using f s1(1) by (simp add: bindG_def)
    have ob: "owned_by c (abs_store s1) j \<longleftrightarrow> j \<noteq> i \<and> owned_by c (abs_store s) j" for j
      by (simp add: owned_by_def abs_store_def s1(10))
    have vi: "view s i = Some (fpage f)"
      by (simp add: view_def f(1))
    show ?thesis
      using Cons.IH [OF s1(2)] True unfolding step
      by (elim exE conjE, intro exI conjI) (auto simp: s1 ob vi fun_eq_iff)
  qed
qed

lemma discard_frames_ok:
  assumes "pool_ok M s" "\<And>i. owner s i = Some t \<Longrightarrow> pins s i = 0"
  shows "\<exists>s'. discard_frames t is s = (Ok (), s') \<and> pool_ok M s' \<and>
    disk s' = disk s \<and> wal s' = wal s \<and> max_size (bpool s') = max_size (bpool s) \<and> pins s' = pins s \<and>
    view s' = (\<lambda>i. if i \<in> set is \<and> owner s i = Some t then disk_view (disk s) i else view s i) \<and>
    owner s' = (\<lambda>i. if i \<in> set is \<and> owner s i = Some t then None else owner s i)"
  using assms
proof (induction "is" arbitrary: s)
  case Nil
  then show ?case by auto
next
  case (Cons i "is")
  show ?case
  proof (cases "owner s i = Some t")
    case False
    then have "discard_frames t (i # is) s = discard_frames t is s"
      by (auto simp: owner_def split: option.splits)
    moreover have "j \<in> set (i # is) \<and> owner s j = Some t \<longleftrightarrow> j \<in> set is \<and> owner s j = Some t" for j
      using False by auto
    ultimately show ?thesis
      using Cons.IH [OF Cons.prems] by (simp only:)
  next
    case True
    then obtain f where f: "frame_at s i = Some f" "is_dirty f" "ftxn f = t"
      by (auto simp: owner_frame)
    note ff = pool_ok_frameD [OF Cons.prems(1) f(1)]
    have pin: "pin_count f = 0"
      using Cons.prems(2) [OF True] f(1) by (simp add: pins_def)
    obtain p where p: "disk_view (disk s) i = Some p" "length p = 4096" "page_id p = i"
      using disk_view_allocated [OF pool_okD(1) [OF Cons.prems(1)] ff(4)]
        pool_okD(6) [OF Cons.prems(1) ff(4)] by blast
    let ?g = "f\<lparr>fpage := p, is_dirty := False\<rparr>"
    let ?s = "set_frame i ?g s"
    have rp: "on_disk (read_page i) s = (Ok p, s)"
      using read_page_view [OF pool_okD(1) [OF Cons.prems(1)], of i] p by (simp add: on_disk_def)
    have step: "discard_frames t (i # is) s = discard_frames t is ?s"
      using f pin rp by (simp add: bindG_def)
    have pins: "pins ?s = pins s" and own: "owner ?s = (owner s)(i := None)"
      and view: "view ?s = (view s)(i \<mapsto> p)"
      using f(1) by (auto simp: pins_def owner_def view_def fun_eq_iff split: option.split)
    have ok: "pool_ok M ?s"
      using Cons.prems(1) ff p unfolding pool_ok_def pins
      by (auto simp: distinct_update f(1))
    have unpinned: "\<And>j. owner ?s j = Some t \<Longrightarrow> pins ?s j = 0"
      using Cons.prems(2) by (simp add: own pins split: if_splits)
    from Cons.IH [OF ok unpinned] obtain s' where s': "discard_frames t is ?s = (Ok (), s')" "pool_ok M s'"
      "disk s' = disk ?s" "wal s' = wal ?s" "max_size (bpool s') = max_size (bpool ?s)" "pins s' = pins ?s"
      "view s' = (\<lambda>i. if i \<in> set is \<and> owner ?s i = Some t then disk_view (disk ?s) i else view ?s i)"
      "owner s' = (\<lambda>i. if i \<in> set is \<and> owner ?s i = Some t then None else owner ?s i)"
      by blast
    show ?thesis
      unfolding step
      by (intro exI [of _ s'] conjI) (auto simp: s' pins own view p(1) True fun_eq_iff)
  qed
qed


lemma keys_frames: "set (map fst (frames (bpool s))) = dom (frame_at s)"
  by (simp add: frame_at_eq dom_map_of_conv_image_fst)

lemma owner_dom: "owner s i = Some t \<Longrightarrow> i \<in> dom (frame_at s)"
  by (auto simp: owner_def split: option.splits)

lemma on_wal_fields [simp]:
  "view (s\<lparr>wal := w\<rparr>) = view s" "pins (s\<lparr>wal := w\<rparr>) = pins s" "owner (s\<lparr>wal := w\<rparr>) = owner s"
  "abs_store (s\<lparr>wal := w\<rparr>) = abs_store s"
  by (auto simp: view_def pins_def owner_def abs_store_def fun_eq_iff split: option.split)

lemma pool_ok_wal [simp]: "pool_ok M (s\<lparr>wal := w\<rparr>) \<longleftrightarrow> pool_ok M s"
  by (simp add: pool_ok_def)

lemma flush_all_ok:
  assumes ok: "pool_ok M s" and wal: "wal_holds (wal s) rs ps" "wal_writable (wal s)"
  obtains s' where "flush_all c s = (Ok (), s')" "pool_ok M s'"
    "abs_store s' = commit_pages c (abs_store s)" "wal_holds (wal s') (rs @ ps) []"
    "pins s' = pins s" "root_page_id (disk s') = root_page_id (disk s)"
    "next_page_id (disk s') = next_page_id (disk s)" "max_size (bpool s') = max_size (bpool s)"
    "wfile (wal s') = (wfile (wal s))\<lparr>fbytes := encode_log (rs @ ps)\<rparr>"
proof -
  obtain w where w: "flush_wal (wal s) = (Ok (), w)" "wal_holds w (rs @ ps) []"
    "wfile w = (wfile (wal s))\<lparr>fbytes := encode_log (rs @ ps)\<rparr>"
    using flush_wal_holds [OF wal(1)] wal(2) unfolding wal_writable_def by metis
  let ?s = "s\<lparr>wal := w\<rparr>" and ?is = "map fst (frames (bpool s))"
  have fl: "on_wal flush_wal s = (Ok (), ?s)"
    by (simp add: on_wal_def w(1))
  have dom: "i \<in> set ?is \<and> owned_by c (abs_store s) i \<longleftrightarrow> owned_by c (abs_store s) i" for i
    unfolding keys_frames by (auto simp: owned_by_def abs_store_def dest: owner_dom split: option.splits)
  have okw: "pool_ok M ?s"
    using ok by simp
  obtain s' where s': "flush_frames c ?is ?s = (Ok (), s')" "pool_ok M s'"
    "root_page_id (disk s') = root_page_id (disk ?s)" "next_page_id (disk s') = next_page_id (disk ?s)"
    "wal s' = wal ?s" "pins s' = pins ?s" "view s' = view ?s"
    "disk_view (disk s') = (\<lambda>i. if i \<in> set ?is \<and> owned_by c (abs_store ?s) i then view ?s i else disk_view (disk ?s) i)"
    "owner s' = (\<lambda>i. if i \<in> set ?is \<and> owned_by c (abs_store ?s) i then None else owner ?s i)"
    "max_size (bpool s') = max_size (bpool ?s)"
    using flush_frames_ok [OF okw, of c ?is] by blast
  show thesis
  proof (rule that [of s'])
    show "flush_all c s = (Ok (), s')"
      using s'(1) by (simp add: flush_all_def bindG_def fl)
    show "abs_store s' = commit_pages c (abs_store s)"
      by (intro page_store.equality) (auto simp: commit_pages_def s'(7-9) fun_eq_iff dom [unfolded set_map owned_by_abs] owned_by_abs)
    show "wal_holds (wal s') (rs @ ps) []"
      using s'(5) w(2) by simp
    show "wfile (wal s') = (wfile (wal s))\<lparr>fbytes := encode_log (rs @ ps)\<rparr>"
      using s'(5) w(3) by simp
  qed (use s' in simp_all)
qed

lemma discard_txn_ok:
  assumes ok: "pool_ok M s" and unpinned: "\<And>i. owner s i = Some t \<Longrightarrow> pins s i = 0"
  obtains s' where "discard_txn t s = (Ok (), s')" "pool_ok M s'"
    "abs_store s' = rollback_pages t (abs_store s)" "disk s' = disk s" "wal s' = wal s" "pins s' = pins s"
proof -
  let ?is = "map fst (frames (bpool s))"
  have dom: "i \<in> set ?is \<and> owner s i = Some t \<longleftrightarrow> owned_by ((=) t) (abs_store s) i" for i
    unfolding keys_frames by (auto simp: owned_by_def abs_store_def dest: owner_dom split: option.splits)
  obtain s' where s': "discard_frames t ?is s = (Ok (), s')" "pool_ok M s'"
    "disk s' = disk s" "wal s' = wal s" "pins s' = pins s"
    "view s' = (\<lambda>i. if i \<in> set ?is \<and> owner s i = Some t then disk_view (disk s) i else view s i)"
    "owner s' = (\<lambda>i. if i \<in> set ?is \<and> owner s i = Some t then None else owner s i)"
    using discard_frames_ok [OF ok unpinned, of t ?is] by blast
  show thesis
  proof (rule that [of s'])
    show "discard_txn t s = (Ok (), s')"
      by (simp add: discard_txn_def s'(1))
    show "abs_store s' = rollback_pages t (abs_store s)"
      by (intro page_store.equality) (auto simp: rollback_pages_def s'(3,6,7) fun_eq_iff dom [unfolded set_map])
  qed (use s' in simp_all)
qed


section \<open>Properties\<close>

text \<open>C7. Fetching an allocated page succeeds whenever some frame is free or may be evicted, returns the current
  content of the page and pins it. Making room never loses a change: the visible content, the owner of
  every page and the disk stay as they are, so a dirty or pinned frame is never evicted.\<close>

theorem fetch_page_reads_current:
  assumes "pool_ok M s" "i < next_page_id (disk s)" "int (card (busy s)) < max_size (bpool s)"
  shows "\<exists>p s'. view s i = Some p \<and> page_id p = i \<and> fetch_page i s = (Ok p, s') \<and> pool_ok M s' \<and>
    pins s' = (pins s)(i := pins s i + 1) \<and> view s' = view s \<and> owner s' = owner s \<and> disk s' = disk s"
proof -
  obtain p where p: "view s i = Some p" "page_id p = i"
    by (rule view_allocated [OF assms(1,2)])
  have room: "i \<in> dom (frame_at s) \<or> int (card (busy s)) < max_size (bpool s)"
    using assms(3) by simp
  show ?thesis
    using p fetch_page_ok [OF assms(1,2) room p(1)] by metis
qed

text \<open>\<open>FlushAll\<close> implements the commit of the abstract page store: the visible contents of the pages owned by
  the given transactions become durable, those pages lose their owner, all other pages keep their durable
  content, and the buffered log records reach the file.\<close>

theorem flush_all_refines_commit:
  assumes "pool_ok M s" "wal_holds (wal s) rs ps" "wal_writable (wal s)"
  shows "\<exists>s'. flush_all c s = (Ok (), s') \<and> pool_ok M s' \<and>
    abs_store s' = commit_pages c (abs_store s) \<and> wal_holds (wal s') (rs @ ps) []"
  using flush_all_ok [OF assms] by metis

text \<open>\<open>DiscardTxn\<close> implements the rollback of the abstract page store: the pages owned by the transaction show
  their durable content again and lose their owner, every other page keeps its visible content, and the disk
  is not touched.\<close>

theorem discard_txn_refines_rollback:
  assumes "pool_ok M s" "\<And>i. owner s i = Some t \<Longrightarrow> pins s i = 0"
  shows "\<exists>s'. discard_txn t s = (Ok (), s') \<and> pool_ok M s' \<and>
    abs_store s' = rollback_pages t (abs_store s) \<and> disk s' = disk s"
  using discard_txn_ok [OF assms] by metis

text \<open>The transaction a dirty page is recorded under is the last one that unpinned it dirty: when transaction
  \<open>u\<close> changes a page that transaction \<open>t\<close> has dirtied, the rollback of \<open>u\<close> also takes back the change of \<open>t\<close>,
  and the commit of \<open>t\<close> leaves the page unwritten.\<close>

theorem unpin_takes_over_page:
  assumes "pool_ok M s" "0 < pins s i" "owner s i = Some t" "t \<noteq> u"
  shows "own (abs_store (unpin_page i True u s)) i = Some u \<and>
    vis (rollback_pages u (abs_store (unpin_page i True u s))) i = disk_view (disk s) i \<and>
    dur (commit_pages ((=) t) (abs_store (unpin_page i True u s))) i = disk_view (disk s) i"
  using unpin_page_ok [OF assms(1,2), of True u] assms(4)
  by (simp add: rollback_pages_def commit_pages_def owned_by_abs)

subsection \<open>Witnesses\<close>

text \<open>A database of one leaf page, on disk and in the pool, where transaction 1 has set its LSN.\<close>

definition sample_storage :: storage where
  "sample_storage = \<lparr>disk = sample_disk, wal = sample_wal,
     bpool = \<lparr>frames = [(0, \<lparr>fpage = set_lsn 9 sample_leaf, pin_count = 0, is_dirty = True, ftxn = 1\<rparr>)],
              lru = [0], max_size = 8\<rparr>\<rparr>"

lemma sample_storage_frame [simp]:
  "frame_at sample_storage i =
    (if i = 0 then Some \<lparr>fpage = set_lsn 9 sample_leaf, pin_count = 0, is_dirty = True, ftxn = 1\<rparr> else None)"
  by (simp add: frame_at_def sample_storage_def)

lemma sample_storage [simp]:
  "disk sample_storage = sample_disk" "wal sample_storage = sample_wal" "max_size (bpool sample_storage) = 8"
  "pins sample_storage i = 0" "owner sample_storage i = (if i = 0 then Some 1 else None)"
  "view sample_storage i = (if i = 0 then Some (set_lsn 9 sample_leaf) else None)"
  "busy sample_storage = {0}"
  by (auto simp: sample_storage_def pins_def owner_def view_def busy_def frame_at_def)

lemma sample_storage_ok [simp]: "pool_ok {} sample_storage"
proof -
  have "dom (frame_at sample_storage) = {0}"
    by (auto split: if_splits)
  moreover have "lru (bpool sample_storage) = [0]" "map fst (frames (bpool sample_storage)) = [0]"
    by (simp_all add: sample_storage_def)
  ultimately show ?thesis
    unfolding pool_ok_def by (auto split: if_splits)
qed

theorem fetch_page_reads_current_witness:
  "\<exists>p s'. view sample_storage 0 = Some p \<and> page_id p = 0 \<and> fetch_page 0 sample_storage = (Ok p, s') \<and> pool_ok {} s' \<and>
    pins s' = (pins sample_storage)(0 := pins sample_storage 0 + 1) \<and> view s' = view sample_storage \<and>
    owner s' = owner sample_storage \<and> disk s' = disk sample_storage"
  by (rule fetch_page_reads_current) simp_all

theorem flush_all_refines_commit_witness:
  "\<exists>s'. flush_all ((=) 1) sample_storage = (Ok (), s') \<and> pool_ok {} s' \<and>
    abs_store s' = commit_pages ((=) 1) (abs_store sample_storage) \<and> wal_holds (wal s') ([] @ []) []"
  by (rule flush_all_refines_commit) simp_all

theorem discard_txn_refines_rollback_witness:
  "\<exists>s'. discard_txn 1 sample_storage = (Ok (), s') \<and> pool_ok {} s' \<and>
    abs_store s' = rollback_pages 1 (abs_store sample_storage) \<and> disk s' = disk sample_storage"
  by (rule discard_txn_refines_rollback) simp_all

definition pinned_storage :: storage where
  "pinned_storage = set_frame 0 \<lparr>fpage = set_lsn 9 sample_leaf, pin_count = 1, is_dirty = True, ftxn = 1\<rparr> sample_storage"

lemma pinned_storage [simp]:
  "pool_ok {} pinned_storage" "pins pinned_storage 0 = 1" "owner pinned_storage 0 = Some 1"
  "disk pinned_storage = sample_disk"
proof -
  have fr: "frame_at pinned_storage i =
      (if i = 0 then Some \<lparr>fpage = set_lsn 9 sample_leaf, pin_count = 1, is_dirty = True, ftxn = 1\<rparr> else None)" for i
    by (simp add: pinned_storage_def)
  then have d: "dom (frame_at pinned_storage) = {0}"
    by (auto split: if_splits)
  show "pins pinned_storage 0 = 1" "owner pinned_storage 0 = Some 1"
    by (simp_all add: pins_def owner_def fr)
  show "disk pinned_storage = sample_disk"
    by (simp add: pinned_storage_def)
  have "lru (bpool pinned_storage) = [0]" "map fst (frames (bpool pinned_storage)) = [0]"
    by (simp_all add: pinned_storage_def sample_storage_def)
  then show "pool_ok {} pinned_storage"
    unfolding pool_ok_def d by (auto simp: fr pinned_storage_def split: if_splits)
qed

theorem unpin_takes_over_page_witness:
  "own (abs_store (unpin_page 0 True 2 pinned_storage)) 0 = Some 2 \<and>
    vis (rollback_pages 2 (abs_store (unpin_page 0 True 2 pinned_storage))) 0 = disk_view (disk pinned_storage) 0 \<and>
    dur (commit_pages ((=) 1) (abs_store (unpin_page 0 True 2 pinned_storage))) 0 = disk_view (disk pinned_storage) 0"
  by (rule unpin_takes_over_page [of "{}"]) simp_all

end
