(* ===== verification/Txn.thy ===== *)
theory Txn
  imports Buffer_Pool
begin

text \<open>
  \<open>txn/txn.go\<close>: transactions, commit and rollback, and the table locks. A table lock is a
  \<open>sync.RWMutex\<close>: any number of readers or one writer. \<open>RLock\<close> and \<open>Lock\<close> start a goroutine that
  acquires the mutex and wait for it, for a timeout or for a cancellation, so the lock manager is
  a step relation in which these events interleave.
\<close>

section \<open>State\<close>

datatype txn_state = StateActive | StateCommitted | StateAborted

datatype lock_mode = ReadLock | WriteLock

text \<open>An entry of \<open>txn.locks\<close>: \<open>"r:" + table\<close> or \<open>"w:" + table\<close>.\<close>

type_synonym lock_entry = string

definition lock_entry :: "lock_mode \<Rightarrow> string \<Rightarrow> lock_entry" where
  "lock_entry m table = (case m of ReadLock \<Rightarrow> ''r:'' | WriteLock \<Rightarrow> ''w:'') @ table"

record txn =
  txn_id :: u64
  tstate :: txn_state
  locks :: "lock_entry list"

record rwmutex =
  readers :: nat
  writer :: bool

record manager =
  store :: storage
  next_txn_id :: u64
  table_locks :: "string \<Rightarrow> rwmutex"

definition free_mutex :: rwmutex where
  "free_mutex = \<lparr>readers = 0, writer = False\<rparr>"

definition new_manager :: "storage \<Rightarrow> manager" where
  "new_manager s = \<lparr>store = s, next_txn_id = 0, table_locks = (\<lambda>_. free_mutex)\<rparr>"

section \<open>The mutex\<close>

text \<open>Unlocking a mutex that is not locked is a fatal error (\<open>None\<close>).\<close>

definition can_acquire :: "lock_mode \<Rightarrow> rwmutex \<Rightarrow> bool" where
  "can_acquire m mu \<longleftrightarrow> \<not> writer mu \<and> (m = WriteLock \<longrightarrow> readers mu = 0)"

definition acquire :: "lock_mode \<Rightarrow> rwmutex \<Rightarrow> rwmutex" where
  "acquire m mu = (case m of ReadLock \<Rightarrow> mu\<lparr>readers := readers mu + 1\<rparr> | WriteLock \<Rightarrow> mu\<lparr>writer := True\<rparr>)"

definition r_unlock :: "rwmutex \<Rightarrow> rwmutex option" where
  "r_unlock mu = (if readers mu = 0 then None else Some (mu\<lparr>readers := readers mu - 1\<rparr>))"

definition w_unlock :: "rwmutex \<Rightarrow> rwmutex option" where
  "w_unlock mu = (if writer mu then Some (mu\<lparr>writer := False\<rparr>) else None)"

section \<open>Transactions\<close>

definition begin_txn :: "(manager, txn) go" where
  "begin_txn m =
     (let i = next_txn_id m + 1 in
      (Ok \<lparr>txn_id = i, tstate = StateActive, locks = []\<rparr>, m\<lparr>next_txn_id := i\<rparr>))"

definition holds :: "txn \<Rightarrow> lock_entry \<Rightarrow> bool" where
  "holds t e \<longleftrightarrow> e \<in> set (locks t)"

text \<open>The loop of \<open>unlock\<close> over \<open>txn.locks\<close>, on the map of the mutexes.\<close>

fun unlock_all :: "lock_entry list \<Rightarrow> (string \<Rightarrow> rwmutex) \<Rightarrow> (string \<Rightarrow> rwmutex) option" where
  "unlock_all [] L = Some L"
| "unlock_all (e # es) L =
     (let table = drop 2 e in
      do { mu \<leftarrow> (if take 2 e = ''r:'' then r_unlock (L table) else w_unlock (L table));
           unlock_all es (L(table := mu)) })"

definition unlock :: "txn \<Rightarrow> (manager, txn) go" where
  "unlock t m =
     (case unlock_all (locks t) (table_locks m) of
        None \<Rightarrow> (Panic, m)
      | Some L \<Rightarrow> (Ok (t\<lparr>locks := []\<rparr>), m\<lparr>table_locks := L\<rparr>))"

definition on_store :: "(storage, 'a) go \<Rightarrow> (manager, 'a) go" where
  "on_store f m = (case f (store m) of (r, s) \<Rightarrow> (r, m\<lparr>store := s\<rparr>))"

definition txn_record :: "u64 \<Rightarrow> u8 \<Rightarrow> log_record" where
  "txn_record t op = \<lparr>r_lsn = 0, r_txn = t, r_page = 0, r_op = op, r_prev = 0, redo_data = []\<rparr>"

definition commit :: "txn \<Rightarrow> (manager, txn) go" where
  "commit t =
     (if tstate t \<noteq> StateActive then fail (ETxnNotActive (txn_id t))
      else
        bindG (on_store (on_wal (append_record (txn_record (txn_id t) op_commit)))) (\<lambda>_.
        bindG (on_store (on_wal flush_wal)) (\<lambda>_.
        bindG (on_store (flush_all ((=) (txn_id t)))) (\<lambda>_.
        unlock (t\<lparr>tstate := StateCommitted\<rparr>)))))"

definition rollback :: "txn \<Rightarrow> (manager, txn) go" where
  "rollback t =
     (if tstate t \<noteq> StateActive then fail (ETxnNotActive (txn_id t))
      else
        bindG (on_store (on_wal (append_record (txn_record (txn_id t) op_abort)))) (\<lambda>_.
        bindG (on_store (discard_txn (txn_id t))) (\<lambda>_.
        unlock (t\<lparr>tstate := StateAborted\<rparr>))))"

section \<open>Acquiring locks\<close>

text \<open>The part of \<open>RLock\<close> and \<open>Lock\<close> before the goroutine is started: \<open>Some (Ok ())\<close> and
  \<open>Some (Err e)\<close> return at once, \<open>None\<close> goes on to wait.\<close>

definition lock_entry_check :: "lock_mode \<Rightarrow> txn \<Rightarrow> string \<Rightarrow> unit res option" where
  "lock_entry_check m t table =
     (case m of
        ReadLock \<Rightarrow>
          if holds t (lock_entry ReadLock table) \<or> holds t (lock_entry WriteLock table) then Some (Ok ()) else None
      | WriteLock \<Rightarrow>
          if holds t (lock_entry WriteLock table) then Some (Ok ())
          else if holds t (lock_entry ReadLock table) then Some (Err (ELockUpgrade (txn_id t) table))
          else None)"

text \<open>The state of the lock manager while transactions run: the mutexes, the transactions by id, the
  call a transaction is waiting in (its \<open>select\<close>), and the goroutines by number, each with the
  mutex it wants and whether it has acquired it (\<open>done\<close> is closed then). A transaction is used by
  one goroutine of the server at a time, so it waits in at most one call.\<close>

record request =
  q_goroutine :: nat
  q_mode :: lock_mode
  q_table :: string

record goroutine =
  g_mode :: lock_mode
  g_table :: string
  acquired :: bool

record lock_system =
  mutexes :: "string \<Rightarrow> rwmutex"
  txns :: "u64 \<Rightarrow> txn option"
  waiting :: "u64 \<Rightarrow> request option"
  goroutines :: "nat \<Rightarrow> goroutine option"

datatype lock_event =
    EvBegin u64
  | EvRequest nat u64 lock_mode string    \<comment> \<open>a call; if it has to wait it starts goroutine \<open>n\<close>\<close>
  | EvAcquire nat                         \<comment> \<open>goroutine \<open>n\<close> gets the mutex and closes \<open>done\<close>\<close>
  | EvDone u64                            \<comment> \<open>the \<open>select\<close> takes \<open>done\<close>\<close>
  | EvGiveUp u64                          \<comment> \<open>the \<open>select\<close> takes the timeout or the cancellation\<close>
  | EvEnd u64 bool                        \<comment> \<open>commit or rollback, at the release of the locks\<close>

definition start_wait :: "nat \<Rightarrow> u64 \<Rightarrow> lock_mode \<Rightarrow> string \<Rightarrow> lock_system \<Rightarrow> lock_system" where
  "start_wait n i m table \<sigma> =
     \<sigma>\<lparr>waiting := (waiting \<sigma>)(i \<mapsto> \<lparr>q_goroutine = n, q_mode = m, q_table = table\<rparr>),
       goroutines := (goroutines \<sigma>)(n \<mapsto> \<lparr>g_mode = m, g_table = table, acquired = False\<rparr>)\<rparr>"

text \<open>One event, \<open>None\<close> when it is not possible in this state.\<close>

fun lock_step :: "lock_event \<Rightarrow> lock_system \<Rightarrow> lock_system option" where
  "lock_step (EvBegin i) \<sigma> =
     (case txns \<sigma> i of
        Some _ \<Rightarrow> None
      | None \<Rightarrow> Some (\<sigma>\<lparr>txns := (txns \<sigma>)(i \<mapsto> \<lparr>txn_id = i, tstate = StateActive, locks = []\<rparr>)\<rparr>))"
| "lock_step (EvRequest n i m table) \<sigma> =
     (case (txns \<sigma> i, waiting \<sigma> i, goroutines \<sigma> n) of
        (Some t, None, None) \<Rightarrow>
          (case lock_entry_check m t table of
             Some _ \<Rightarrow> Some \<sigma>
           | None \<Rightarrow> Some (start_wait n i m table \<sigma>))
      | _ \<Rightarrow> None)"
| "lock_step (EvAcquire n) \<sigma> =
     (case goroutines \<sigma> n of
        None \<Rightarrow> None
      | Some g \<Rightarrow>
          if acquired g \<or> \<not> can_acquire (g_mode g) (mutexes \<sigma> (g_table g)) then None
          else Some (\<sigma>\<lparr>mutexes := (mutexes \<sigma>)(g_table g := acquire (g_mode g) (mutexes \<sigma> (g_table g))),
                       goroutines := (goroutines \<sigma>)(n \<mapsto> g\<lparr>acquired := True\<rparr>)\<rparr>))"
| "lock_step (EvDone i) \<sigma> =
     (case (txns \<sigma> i, waiting \<sigma> i) of
        (Some t, Some q) \<Rightarrow>
          (case goroutines \<sigma> (q_goroutine q) of
             None \<Rightarrow> None
           | Some g \<Rightarrow>
               if \<not> acquired g then None
               else Some (\<sigma>\<lparr>txns := (txns \<sigma>)(i \<mapsto> t\<lparr>locks := locks t @ [lock_entry (q_mode q) (q_table q)]\<rparr>),
                            waiting := (waiting \<sigma>)(i := None),
                            goroutines := (goroutines \<sigma>)(q_goroutine q := None)\<rparr>))
      | _ \<Rightarrow> None)"
| "lock_step (EvGiveUp i) \<sigma> =
     (case waiting \<sigma> i of
        None \<Rightarrow> None
      | Some q \<Rightarrow> Some (\<sigma>\<lparr>waiting := (waiting \<sigma>)(i := None)\<rparr>))"
| "lock_step (EvEnd i committed) \<sigma> =
     (case (txns \<sigma> i, waiting \<sigma> i) of
        (Some t, None) \<Rightarrow>
          if tstate t \<noteq> StateActive then None
          else (case unlock_all (locks t) (mutexes \<sigma>) of
                  None \<Rightarrow> None
                | Some L \<Rightarrow>
                    Some (\<sigma>\<lparr>mutexes := L,
                            txns := (txns \<sigma>)(i \<mapsto> t\<lparr>tstate := if committed then StateCommitted else StateAborted,
                                                 locks := []\<rparr>)\<rparr>))
      | _ \<Rightarrow> None)"

definition lock_start :: lock_system where
  "lock_start = \<lparr>mutexes = (\<lambda>_. free_mutex), txns = (\<lambda>_. None), waiting = (\<lambda>_. None), goroutines = (\<lambda>_. None)\<rparr>"

inductive lock_reachable :: "lock_system \<Rightarrow> bool" where
  start: "lock_reachable lock_start"
| step: "lock_reachable \<sigma> \<Longrightarrow> lock_step e \<sigma> = Some \<tau> \<Longrightarrow> lock_reachable \<tau>"

text \<open>A run of several events.\<close>

fun lock_run :: "lock_event list \<Rightarrow> lock_system \<Rightarrow> lock_system option" where
  "lock_run [] \<sigma> = Some \<sigma>"
| "lock_run (e # es) \<sigma> = do { \<tau> \<leftarrow> lock_step e \<sigma>; lock_run es \<tau> }"


section \<open>Who holds a mutex\<close>

text \<open>A lock is held by a transaction that has it in \<open>locks\<close> or by a goroutine that acquired it and
  has not been received yet. \<open>holders\<close> is the set of both.\<close>

definition holders :: "lock_mode \<Rightarrow> string \<Rightarrow> lock_system \<Rightarrow> (u64 + nat) set" where
  "holders m table \<sigma> =
     {Inl i | i t. txns \<sigma> i = Some t \<and> lock_entry m table \<in> set (locks t)} \<union>
     {Inr n | n g. goroutines \<sigma> n = Some g \<and> acquired g \<and> g_mode g = m \<and> g_table g = table}"

definition mutex_ok :: "string \<Rightarrow> lock_system \<Rightarrow> bool" where
  "mutex_ok table \<sigma> \<longleftrightarrow>
     finite (holders ReadLock table \<sigma>) \<and> finite (holders WriteLock table \<sigma>) \<and>
     readers (mutexes \<sigma> table) = card (holders ReadLock table \<sigma>) \<and>
     card (holders WriteLock table \<sigma>) = (if writer (mutexes \<sigma> table) then 1 else 0) \<and>
     (writer (mutexes \<sigma> table) \<longrightarrow> holders ReadLock table \<sigma> = {})"

definition locks_ok :: "lock_entry list \<Rightarrow> bool" where
  "locks_ok es \<longleftrightarrow> distinct es \<and> (\<forall>e \<in> set es. \<exists>m table. e = lock_entry m table)"

definition waiting_ok :: "lock_system \<Rightarrow> bool" where
  "waiting_ok \<sigma> \<longleftrightarrow>
     (\<forall>i q. waiting \<sigma> i = Some q \<longrightarrow>
        (\<exists>t. txns \<sigma> i = Some t \<and> lock_entry (q_mode q) (q_table q) \<notin> set (locks t)) \<and>
        (\<exists>g. goroutines \<sigma> (q_goroutine q) = Some g \<and> g_mode g = q_mode q \<and> g_table g = q_table q)) \<and>
     (\<forall>i j q r. waiting \<sigma> i = Some q \<longrightarrow> waiting \<sigma> j = Some r \<longrightarrow> q_goroutine q = q_goroutine r \<longrightarrow> i = j)"

definition lock_inv :: "lock_system \<Rightarrow> bool" where
  "lock_inv \<sigma> \<longleftrightarrow> (\<forall>table. mutex_ok table \<sigma>) \<and> (\<forall>i t. txns \<sigma> i = Some t \<longrightarrow> locks_ok (locks t)) \<and> waiting_ok \<sigma>"

lemma lock_entry_inject [simp]: "lock_entry m s = lock_entry m' s' \<longleftrightarrow> m = m' \<and> s = s'"
  by (auto simp: lock_entry_def split: lock_mode.splits)

lemma take_drop_lock_entry [simp]:
  "drop 2 (lock_entry m s) = s" "take 2 (lock_entry m s) = ''r:'' \<longleftrightarrow> m = ReadLock"
  by (auto simp: lock_entry_def split: lock_mode.splits)

lemma Inl_holders [simp]:
  "Inl i \<in> holders m table \<sigma> \<longleftrightarrow> (\<exists>t. txns \<sigma> i = Some t \<and> lock_entry m table \<in> set (locks t))"
  by (auto simp: holders_def)

lemma Inr_holders [simp]:
  "Inr n \<in> holders m table \<sigma> \<longleftrightarrow>
     (\<exists>g. goroutines \<sigma> n = Some g \<and> acquired g \<and> g_mode g = m \<and> g_table g = table)"
  by (auto simp: holders_def)

lemma sum_set_eqI:
  "(\<And>i. Inl i \<in> A \<longleftrightarrow> Inl i \<in> B) \<Longrightarrow> (\<And>n. Inr n \<in> A \<longleftrightarrow> Inr n \<in> B) \<Longrightarrow> A = B"
  by (rule set_eqI) (metis sum.exhaust)

section \<open>The invariant holds in every reachable state\<close>

lemma lock_inv_start [simp]: "lock_inv lock_start"
  by (simp add: lock_inv_def mutex_ok_def holders_def waiting_ok_def lock_start_def free_mutex_def)

lemma mutex_ok_cong:
  assumes "mutex_ok table \<sigma>" "mutexes \<tau> table = mutexes \<sigma> table" "\<And>m. holders m table \<tau> = holders m table \<sigma>"
  shows "mutex_ok table \<tau>"
  using assms by (simp add: mutex_ok_def)

lemma lock_inv_mutex: "lock_inv \<sigma> \<Longrightarrow> mutex_ok table \<sigma>"
  by (simp add: lock_inv_def)

lemma lock_inv_begin:
  assumes "lock_inv \<sigma>" "lock_step (EvBegin i) \<sigma> = Some \<tau>"
  shows "lock_inv \<tau>"
proof -
  let ?t = "\<lparr>txn_id = i, tstate = StateActive, locks = []\<rparr>"
  have \<tau>: "txns \<sigma> i = None" "\<tau> = \<sigma>\<lparr>txns := (txns \<sigma>)(i \<mapsto> ?t)\<rparr>"
    using assms(2) by (auto split: option.splits)
  have h: "holders m table \<tau> = holders m table \<sigma>" for m table
    using \<tau>(1) by (intro sum_set_eqI) (auto simp: \<tau>(2))
  show ?thesis
    unfolding lock_inv_def
  proof (intro conjI allI impI)
    fix table
    show "mutex_ok table \<tau>"
      by (rule mutex_ok_cong [of table \<sigma>, OF lock_inv_mutex [OF assms(1)] _ h]) (simp add: \<tau>(2))
  next
    fix j t
    assume "txns \<tau> j = Some t"
    then show "locks_ok (locks t)"
      using assms(1) by (auto simp: \<tau>(2) lock_inv_def locks_ok_def split: if_splits)
  next
    show "waiting_ok \<tau>"
      using assms(1) \<tau>(1) unfolding lock_inv_def waiting_ok_def \<tau>(2) by fastforce
  qed
qed

lemma lock_inv_request:
  assumes "lock_inv \<sigma>" "lock_step (EvRequest n i m table) \<sigma> = Some \<tau>"
  shows "lock_inv \<tau>"
proof (cases "\<tau> = \<sigma>")
  case False
  then obtain t where t: "txns \<sigma> i = Some t" "waiting \<sigma> i = None" "goroutines \<sigma> n = None"
    "lock_entry_check m t table = None" "\<tau> = start_wait n i m table \<sigma>"
    using assms(2) by (auto split: option.splits if_splits)
  have new: "lock_entry m table \<notin> set (locks t)"
    using t(4) by (auto simp: lock_entry_check_def holds_def split: lock_mode.splits if_splits)
  have h: "holders m' table' \<tau> = holders m' table' \<sigma>" for m' table'
    using t(3) by (intro sum_set_eqI) (auto simp: t(5) start_wait_def)
  have fresh: "q_goroutine q \<noteq> n" if "waiting \<sigma> j = Some q" for j q
    using assms(1) that t(3) by (force simp: lock_inv_def waiting_ok_def)
  show ?thesis
    unfolding lock_inv_def
  proof (intro conjI allI impI)
    fix table'
    show "mutex_ok table' \<tau>"
      by (rule mutex_ok_cong [of table' \<sigma>, OF lock_inv_mutex [OF assms(1)] _ h]) (simp add: t(5) start_wait_def)
  next
    fix j u
    assume "txns \<tau> j = Some u"
    then show "locks_ok (locks u)"
      using assms(1) by (auto simp: t(5) start_wait_def lock_inv_def)
  next
    have w: "waiting_ok \<sigma>"
      using assms(1) by (simp add: lock_inv_def)
    show "waiting_ok \<tau>"
      unfolding waiting_ok_def
    proof (intro conjI allI impI)
      fix j q
      assume q: "waiting \<tau> j = Some q"
      show "\<exists>t. txns \<tau> j = Some t \<and> lock_entry (q_mode q) (q_table q) \<notin> set (locks t)"
        using q w t(1) new by (auto simp: t(5) start_wait_def waiting_ok_def split: if_splits)
      show "\<exists>g. goroutines \<tau> (q_goroutine q) = Some g \<and> g_mode g = q_mode q \<and> g_table g = q_table q"
        using q w fresh by (auto simp: t(5) start_wait_def waiting_ok_def split: if_splits)
    next
      fix j k q r
      assume "waiting \<tau> j = Some q" "waiting \<tau> k = Some r" "q_goroutine q = q_goroutine r"
      then show "j = k"
        using w fresh unfolding t(5) start_wait_def waiting_ok_def
        by (auto split: if_splits) (metis fresh)+
    qed
  qed
qed (use assms(1) in simp)

lemma lock_inv_give_up:
  assumes "lock_inv \<sigma>" "lock_step (EvGiveUp i) \<sigma> = Some \<tau>"
  shows "lock_inv \<tau>"
proof -
  have \<tau>: "\<tau> = \<sigma>\<lparr>waiting := (waiting \<sigma>)(i := None)\<rparr>"
    using assms(2) by (auto split: option.splits)
  have h: "holders m table \<tau> = holders m table \<sigma>" for m table
    by (intro sum_set_eqI) (auto simp: \<tau>)
  have "waiting_ok \<tau>"
    using assms(1) unfolding lock_inv_def waiting_ok_def \<tau> by auto
  moreover have "mutex_ok table \<tau>" for table
    by (rule mutex_ok_cong [of table \<sigma>, OF lock_inv_mutex [OF assms(1)] _ h]) (simp add: \<tau>)
  ultimately show ?thesis
    using assms(1) by (simp add: lock_inv_def \<tau>)
qed

lemma lock_inv_acquire:
  assumes "lock_inv \<sigma>" "lock_step (EvAcquire n) \<sigma> = Some \<tau>"
  shows "lock_inv \<tau>"
proof -
  obtain g where g: "goroutines \<sigma> n = Some g" "\<not> acquired g" "can_acquire (g_mode g) (mutexes \<sigma> (g_table g))"
    "\<tau> = \<sigma>\<lparr>mutexes := (mutexes \<sigma>)(g_table g := acquire (g_mode g) (mutexes \<sigma> (g_table g))),
           goroutines := (goroutines \<sigma>)(n \<mapsto> g\<lparr>acquired := True\<rparr>)\<rparr>"
    using assms(2) by (auto split: option.splits if_splits)
  have h: "holders m table \<tau> = (if m = g_mode g \<and> table = g_table g then insert (Inr n) (holders m table \<sigma>)
      else holders m table \<sigma>)" for m table
    using g(1,2) by (intro sum_set_eqI) (auto simp: g(4))
  have mm: "mutexes \<tau> table = (if table = g_table g then acquire (g_mode g) (mutexes \<sigma> table)
      else mutexes \<sigma> table)" for table
    by (simp add: g(4))
  have new: "Inr n \<notin> holders m table \<sigma>" for m table
    using g(1,2) by auto
  have mu: "mutex_ok table \<sigma>" for table
    using assms(1) by (simp add: lock_inv_def)
  show ?thesis
    unfolding lock_inv_def
  proof (intro conjI allI impI)
    fix table
    show "mutex_ok table \<tau>"
    proof (cases "table = g_table g")
      case True
      then show ?thesis
        using mu [of table] g(3) new
        by (cases "g_mode g") (auto simp: mutex_ok_def h mm can_acquire_def acquire_def)
    next
      case False
      then show ?thesis
        by (intro mutex_ok_cong [OF mu]) (simp_all add: h mm)
    qed
  next
    fix j u
    assume "txns \<tau> j = Some u"
    then show "locks_ok (locks u)"
      using assms(1) by (auto simp: g(4) lock_inv_def)
  next
    show "waiting_ok \<tau>"
      using assms(1) g(1) unfolding lock_inv_def waiting_ok_def g(4) by fastforce
  qed
qed

lemma lock_inv_done:
  assumes "lock_inv \<sigma>" "lock_step (EvDone i) \<sigma> = Some \<tau>"
  shows "lock_inv \<tau>"
proof -
  obtain t q g where t: "txns \<sigma> i = Some t" "waiting \<sigma> i = Some q" "goroutines \<sigma> (q_goroutine q) = Some g" "acquired g"
    "\<tau> = \<sigma>\<lparr>txns := (txns \<sigma>)(i \<mapsto> t\<lparr>locks := locks t @ [lock_entry (q_mode q) (q_table q)]\<rparr>),
           waiting := (waiting \<sigma>)(i := None), goroutines := (goroutines \<sigma>)(q_goroutine q := None)\<rparr>"
    using assms(2) by (auto split: option.splits if_splits)
  have w: "waiting_ok \<sigma>" and mu: "mutex_ok table \<sigma>" and lk: "txns \<sigma> j = Some u \<Longrightarrow> locks_ok (locks u)" for table j u
    using assms(1) by (auto simp: lock_inv_def)
  have g: "g_mode g = q_mode q" "g_table g = q_table q" "lock_entry (q_mode q) (q_table q) \<notin> set (locks t)"
    using w t(1-3) unfolding waiting_ok_def by fastforce+
  let ?n = "q_goroutine q"
  have h: "holders m table \<tau> = (if m = q_mode q \<and> table = q_table q
      then insert (Inl i) (holders m table \<sigma> - {Inr ?n}) else holders m table \<sigma>)" for m table
    using t(1,3,4) g by (intro sum_set_eqI) (auto simp: t(5))
  have mm: "mutexes \<tau> = mutexes \<sigma>"
    by (simp add: t(5))
  have old: "Inr ?n \<in> holders (q_mode q) (q_table q) \<sigma>" "Inl i \<notin> holders (q_mode q) (q_table q) \<sigma>"
    using t(1,3,4) g by auto
  show ?thesis
    unfolding lock_inv_def
  proof (intro conjI allI impI)
    fix table
    have c: "card (insert (Inl i) (H - {Inr ?n})) = card H"
      if "finite H" "Inr ?n \<in> H" "Inl i \<notin> H" for H :: "(u64 + nat) set"
      using that by (simp add: card.insert_remove) (metis Suc_pred card_gt_0_iff empty_iff)
    note m = mu [of table, unfolded mutex_ok_def]
    have cards: "card (holders m table \<tau>) = card (holders m table \<sigma>)"
      and fin: "finite (holders m table \<tau>)" for m
      using m old c by (cases m; auto simp: h)+
    have e: "holders ReadLock table \<tau> = {}" if "holders ReadLock table \<sigma> = {}"
    proof -
      have "\<not> (ReadLock = q_mode q \<and> table = q_table q)"
        using old(1) that by (metis empty_iff)
      then show ?thesis
        using that by (auto simp: h)
    qed
    show "mutex_ok table \<tau>"
      unfolding mutex_ok_def mm cards using m fin e by simp
  next
    fix j u
    assume "txns \<tau> j = Some u"
    then show "locks_ok (locks u)"
      using lk lk [OF t(1)] g(3) by (auto simp: t(5) locks_ok_def split: if_splits)
  next
    have ne: "q_goroutine r = ?n \<Longrightarrow> waiting \<sigma> j = Some r \<Longrightarrow> j = i" for j r
      using w t(2) unfolding waiting_ok_def by metis
    show "waiting_ok \<tau>"
      using w unfolding waiting_ok_def t(5) by (auto dest: ne)
  qed
qed

lemma unlock_all_ok:
  assumes "locks_ok es"
    and "\<And>table. lock_entry ReadLock table \<in> set es \<Longrightarrow> 0 < readers (L table)"
    and "\<And>table. lock_entry WriteLock table \<in> set es \<Longrightarrow> writer (L table)"
  shows "unlock_all es L = Some (\<lambda>table. L table
    \<lparr>readers := readers (L table) - of_bool (lock_entry ReadLock table \<in> set es),
     writer := writer (L table) \<and> lock_entry WriteLock table \<notin> set es\<rparr>)"
  using assms
proof (induction es arbitrary: L)
  case Nil
  then show ?case by simp
next
  case (Cons e es)
  obtain m s where e: "e = lock_entry m s"
    using Cons.prems(1) by (auto simp: locks_ok_def)
  have es: "locks_ok es" "lock_entry m s \<notin> set es"
    using Cons.prems(1) by (auto simp: locks_ok_def e)
  let ?mu = "case m of ReadLock \<Rightarrow> (L s)\<lparr>readers := readers (L s) - 1\<rparr> | WriteLock \<Rightarrow> (L s)\<lparr>writer := False\<rparr>"
  let ?L = "L(s := ?mu)"
  have "unlock_all (e # es) L = unlock_all es ?L"
    using Cons.prems(2) [of s] Cons.prems(3) [of s]
    by (cases m) (simp_all add: e r_unlock_def w_unlock_def Let_def)
  also have "unlock_all es ?L = Some (\<lambda>table. ?L table
    \<lparr>readers := readers (?L table) - of_bool (lock_entry ReadLock table \<in> set es),
     writer := writer (?L table) \<and> lock_entry WriteLock table \<notin> set es\<rparr>)"
  proof (rule Cons.IH [OF es(1)])
    fix table
    show "lock_entry ReadLock table \<in> set es \<Longrightarrow> 0 < readers (?L table)"
      using Cons.prems(2) [of table] es(2) by (cases m; cases "table = s") auto
    show "lock_entry WriteLock table \<in> set es \<Longrightarrow> writer (?L table)"
      using Cons.prems(3) [of table] es(2) by (cases m; cases "table = s") auto
  qed
  also have "\<dots> = Some (\<lambda>table. L table
    \<lparr>readers := readers (L table) - of_bool (lock_entry ReadLock table \<in> set (e # es)),
     writer := writer (L table) \<and> lock_entry WriteLock table \<notin> set (e # es)\<rparr>)"
    using es(2) by (cases m) (auto simp: e fun_eq_iff)
  finally show ?case .
qed

lemma mutex_ok_holds:
  assumes "mutex_ok table \<sigma>" "txns \<sigma> i = Some t"
  shows "lock_entry ReadLock table \<in> set (locks t) \<Longrightarrow> 0 < readers (mutexes \<sigma> table)"
    "lock_entry WriteLock table \<in> set (locks t) \<Longrightarrow> writer (mutexes \<sigma> table)"
proof -
  have h: "Inl i \<in> holders m table \<sigma>" if "lock_entry m table \<in> set (locks t)" for m
    using that assms(2) by simp
  show "0 < readers (mutexes \<sigma> table)" if "lock_entry ReadLock table \<in> set (locks t)"
    using h [OF that] assms(1) card_gt_0_iff unfolding mutex_ok_def by (metis empty_iff)
  show "writer (mutexes \<sigma> table)" if "lock_entry WriteLock table \<in> set (locks t)"
    using h [OF that] assms(1) unfolding mutex_ok_def by (metis card_0_eq empty_iff)
qed

lemma lock_inv_unlock:
  assumes inv: "lock_inv \<sigma>" and t: "txns \<sigma> i = Some t"
  obtains L where "unlock_all (locks t) (mutexes \<sigma>) = Some L"
    "\<And>table. readers (L table) = readers (mutexes \<sigma> table) - of_bool (lock_entry ReadLock table \<in> set (locks t))"
    "\<And>table. writer (L table) \<longleftrightarrow> writer (mutexes \<sigma> table) \<and> lock_entry WriteLock table \<notin> set (locks t)"
proof -
  have "locks_ok (locks t)"
    using inv t by (auto simp: lock_inv_def)
  then show thesis
    using unlock_all_ok [of "locks t" "mutexes \<sigma>"] mutex_ok_holds [OF lock_inv_mutex [OF inv] t]
    by (intro that) auto
qed

lemma lock_inv_end:
  assumes "lock_inv \<sigma>" "lock_step (EvEnd i c) \<sigma> = Some \<tau>"
  shows "lock_inv \<tau>"
proof -
  let ?st = "if c then StateCommitted else StateAborted"
  obtain t L where t: "txns \<sigma> i = Some t" "waiting \<sigma> i = None"
    "unlock_all (locks t) (mutexes \<sigma>) = Some L"
    "\<tau> = \<sigma>\<lparr>mutexes := L, txns := (txns \<sigma>)(i \<mapsto> t\<lparr>tstate := ?st, locks := []\<rparr>)\<rparr>"
    using assms(2) by (auto split: option.splits if_splits)
  have L: "readers (L table) = readers (mutexes \<sigma> table) - of_bool (lock_entry ReadLock table \<in> set (locks t))"
    "writer (L table) \<longleftrightarrow> writer (mutexes \<sigma> table) \<and> lock_entry WriteLock table \<notin> set (locks t)" for table
    using lock_inv_unlock [OF assms(1) t(1)] t(3) by (metis option.inject)+
  have mm: "mutexes \<tau> = L"
    by (simp add: t(4))
  have h: "holders m table \<tau> = holders m table \<sigma> - {Inl i}" for m table
    by (intro sum_set_eqI) (auto simp: t(4))
  have i: "Inl i \<in> holders m table \<sigma> \<longleftrightarrow> lock_entry m table \<in> set (locks t)" for m table
    using t(1) by simp
  show ?thesis
    unfolding lock_inv_def
  proof (intro conjI allI impI)
    fix table
    note m = lock_inv_mutex [OF assms(1), of table, unfolded mutex_ok_def]
    have "card (holders m table \<tau>) = card (holders m table \<sigma>) - of_bool (lock_entry m table \<in> set (locks t))" for m
      unfolding h i [symmetric] by simp
    then show "mutex_ok table \<tau>"
      unfolding mutex_ok_def mm L using m i [of WriteLock table] by (auto simp: h simp del: Inl_holders)
  next
    fix j u
    assume "txns \<tau> j = Some u"
    then show "locks_ok (locks u)"
      using assms(1) by (auto simp: t(4) lock_inv_def locks_ok_def split: if_splits)
  next
    show "waiting_ok \<tau>"
      using assms(1) t(1,2) unfolding lock_inv_def waiting_ok_def t(4) by fastforce
  qed
qed

lemma lock_inv_step: "lock_inv \<sigma> \<Longrightarrow> lock_step e \<sigma> = Some \<tau> \<Longrightarrow> lock_inv \<tau>"
  by (cases e) (blast intro: lock_inv_begin lock_inv_request lock_inv_acquire lock_inv_done
      lock_inv_give_up lock_inv_end)+

lemma lock_inv_reachable: "lock_reachable \<sigma> \<Longrightarrow> lock_inv \<sigma>"
  by (induction rule: lock_reachable.induct) (auto intro: lock_inv_step)

text \<open>Mutual exclusion.\<close>

lemma write_lock_excludes:
  assumes "lock_inv \<sigma>" "txns \<sigma> i = Some t" "txns \<sigma> j = Some u"
    "lock_entry WriteLock table \<in> set (locks t)" "lock_entry m table \<in> set (locks u)"
  shows "i = j \<and> m = WriteLock"
proof -
  note mu = lock_inv_mutex [OF assms(1), of table]
  have w: "writer (mutexes \<sigma> table)"
    using mutex_ok_holds(2) [OF mu assms(2,4)] .
  have hi: "Inl i \<in> holders WriteLock table \<sigma>" and hj: "Inl j \<in> holders m table \<sigma>"
    using assms by auto
  have m: "m = WriteLock"
    using hj mu w unfolding mutex_ok_def by (cases m) (auto simp del: Inl_holders)
  obtain x where "holders WriteLock table \<sigma> = {x}"
    using mu w unfolding mutex_ok_def by (metis card_1_singletonE)
  then show ?thesis
    using hi hj m by (metis Inl_inject singletonD)
qed


section \<open>An abandoned request\<close>

text \<open>A goroutine whose caller gave up still waits for the mutex, and nobody unlocks it once it has
  acquired it.\<close>

definition abandoned :: "nat \<Rightarrow> string \<Rightarrow> lock_system \<Rightarrow> bool" where
  "abandoned n table \<sigma> \<longleftrightarrow>
     (case goroutines \<sigma> n of
        None \<Rightarrow> False
      | Some g \<Rightarrow> acquired g \<and> g_mode g = WriteLock \<and> g_table g = table) \<and>
     (\<forall>i q. waiting \<sigma> i = Some q \<longrightarrow> q_goroutine q \<noteq> n)"

lemma abandoned_iff:
  "abandoned n table \<sigma> \<longleftrightarrow>
     (\<exists>g. goroutines \<sigma> n = Some g \<and> acquired g \<and> g_mode g = WriteLock \<and> g_table g = table) \<and>
     (\<forall>i q. waiting \<sigma> i = Some q \<longrightarrow> q_goroutine q \<noteq> n)"
  by (auto simp: abandoned_def split: option.split)

lemma abandoned_step:
  assumes "abandoned n table \<sigma>" "lock_step e \<sigma> = Some \<tau>"
  shows "abandoned n table \<tau>"
proof (cases e)
  case (EvRequest k i m s)
  then show ?thesis
    using assms unfolding abandoned_iff by (fastforce simp: start_wait_def split: option.splits if_splits)
next
  case (EvDone i)
  then show ?thesis
    using assms unfolding abandoned_iff by (fastforce split: option.splits if_splits)
next
  case (EvEnd i c)
  then show ?thesis
    using assms unfolding abandoned_iff by (fastforce split: option.splits if_splits)
qed (use assms in \<open>unfold abandoned_iff, fastforce split: option.splits if_splits\<close>)+

lemma abandoned_run:
  "abandoned n table \<sigma> \<Longrightarrow> lock_run es \<sigma> = Some \<tau> \<Longrightarrow> abandoned n table \<tau>"
  by (induction es arbitrary: \<sigma>) (auto simp: bind_eq_Some_conv dest: abandoned_step)

lemma reachable_run: "lock_reachable \<sigma> \<Longrightarrow> lock_run es \<sigma> = Some \<tau> \<Longrightarrow> lock_reachable \<tau>"
  by (induction es arbitrary: \<sigma>) (auto simp: bind_eq_Some_conv intro: lock_reachable.step)

lemma abandoned_blocks:
  assumes "lock_inv \<sigma>" "abandoned n table \<sigma>"
  shows "\<not> can_acquire m (mutexes \<sigma> table)"
proof -
  have "Inr n \<in> holders WriteLock table \<sigma>"
    using assms(2) by (auto simp: abandoned_iff)
  then have "writer (mutexes \<sigma> table)"
    using lock_inv_mutex [OF assms(1), of table] unfolding mutex_ok_def by (metis card_0_eq empty_iff)
  then show ?thesis
    by (simp add: can_acquire_def)
qed

section \<open>Commit and rollback\<close>

definition locks_held :: "txn \<Rightarrow> (string \<Rightarrow> rwmutex) \<Rightarrow> bool" where
  "locks_held t L \<longleftrightarrow> locks_ok (locks t) \<and>
     (\<forall>table. (lock_entry ReadLock table \<in> set (locks t) \<longrightarrow> 0 < readers (L table)) \<and>
              (lock_entry WriteLock table \<in> set (locks t) \<longrightarrow> writer (L table)))"

lemma lock_inv_locks_held:
  assumes "lock_inv \<sigma>" "txns \<sigma> i = Some t"
  shows "locks_held t (mutexes \<sigma>)"
  using mutex_ok_holds [OF lock_inv_mutex [OF assms(1)] assms(2)] assms
  by (auto simp: locks_held_def lock_inv_def)

lemma unlock_ok:
  assumes "locks_held t (table_locks m)"
  obtains L where "unlock t m = (Ok (t\<lparr>locks := []\<rparr>), m\<lparr>table_locks := L\<rparr>)"
    "\<And>table. readers (L table) = readers (table_locks m table) - of_bool (lock_entry ReadLock table \<in> set (locks t))"
    "\<And>table. writer (L table) \<longleftrightarrow> writer (table_locks m table) \<and> lock_entry WriteLock table \<notin> set (locks t)"
  using unlock_all_ok [of "locks t" "table_locks m"] assms
  by (intro that) (auto simp: locks_held_def unlock_def)

lemma on_wal_append:
  assumes "pool_ok M s" "wal_holds (wal s) rs ps" "redo_fits r"
  obtains w where "on_wal (append_record r) s = (Ok (next_lsn (wal s)), s\<lparr>wal := w\<rparr>)"
    "pool_ok M (s\<lparr>wal := w\<rparr>)" "wal_holds w rs (ps @ [r\<lparr>r_lsn := next_lsn (wal s)\<rparr>])" "wfile w = wfile (wal s)"
proof -
  obtain w where w: "append_record r (wal s) = (Ok (next_lsn (wal s)), w)"
    "wal_holds w rs (ps @ [r\<lparr>r_lsn := next_lsn (wal s)\<rparr>])" "wfile w = wfile (wal s)"
    using append_record_holds [OF assms(2,3)] .
  then show thesis
    using assms(1) by (intro that [of w]) (auto simp: on_wal_def)
qed

definition all_writable :: "os_file \<Rightarrow> bool" where
  "all_writable f \<longleftrightarrow> (\<forall>off. wr_ok f off) \<and> fsync_ok f"

lemma commit_ok:
  assumes st: "tstate t = StateActive" and ok: "pool_ok {} (store m)"
    and wal: "wal_holds (wal (store m)) rs ps" and dev: "all_writable (wfile (wal (store m)))"
    and held: "locks_held t (table_locks m)"
  obtains m' where "commit t m = (Ok (t\<lparr>tstate := StateCommitted, locks := []\<rparr>), m')"
    "pool_ok {} (store m')"
    "abs_store (store m') = commit_pages ((=) (txn_id t)) (abs_store (store m))"
    "wal_holds (wal (store m'))
       (rs @ ps @ [(txn_record (txn_id t) op_commit)\<lparr>r_lsn := next_lsn (wal (store m))\<rparr>]) []"
    "\<And>table. writer (table_locks m' table) \<longleftrightarrow>
       writer (table_locks m table) \<and> lock_entry WriteLock table \<notin> set (locks t)"
    "\<And>table. readers (table_locks m' table) =
       readers (table_locks m table) - of_bool (lock_entry ReadLock table \<in> set (locks t))"
    "pins (store m') = pins (store m)" "root_page_id (disk (store m')) = root_page_id (disk (store m))"
    "next_page_id (disk (store m')) = next_page_id (disk (store m))" "max_size (bpool (store m')) = max_size (bpool (store m))"
    "wfile (wal (store m')) = (wfile (wal (store m)))\<lparr>fbytes := encode_log
       (rs @ ps @ [(txn_record (txn_id t) op_commit)\<lparr>r_lsn := next_lsn (wal (store m))\<rparr>])\<rparr>"
    "next_txn_id m' = next_txn_id m"
proof -
  let ?r = "txn_record (txn_id t) op_commit" and ?s = "store m"
  let ?r' = "?r\<lparr>r_lsn := next_lsn (wal ?s)\<rparr>"
  have fits: "redo_fits ?r"
    by (simp add: redo_fits_def txn_record_def)
  obtain w where w: "on_wal (append_record ?r) ?s = (Ok (next_lsn (wal ?s)), ?s\<lparr>wal := w\<rparr>)"
    "pool_ok {} (?s\<lparr>wal := w\<rparr>)" "wal_holds w rs (ps @ [?r'])" "wfile w = wfile (wal ?s)"
    using on_wal_append [OF ok wal fits] .
  obtain w2 where w2: "flush_wal w = (Ok (), w2)" "wal_holds w2 (rs @ ps @ [?r']) []"
    "wfile w2 = (wfile w)\<lparr>fbytes := encode_log (rs @ ps @ [?r'])\<rparr>"
    using flush_wal_holds [OF w(3)] dev w(4) by (auto simp: all_writable_def)
  let ?s2 = "?s\<lparr>wal := w2\<rparr>"
  have o2: "pool_ok {} ?s2" "wal_holds (wal ?s2) (rs @ ps @ [?r']) []" "wal_writable (wal ?s2)"
    using ok w2(2) dev by (simp_all add: wal_writable_def w2(3) w(4) all_writable_def)
  obtain s3 where s3: "flush_all ((=) (txn_id t)) (?s\<lparr>wal := w2\<rparr>) = (Ok (), s3)" "pool_ok {} s3"
    "abs_store s3 = commit_pages ((=) (txn_id t)) (abs_store (?s\<lparr>wal := w2\<rparr>))"
    "wal_holds (wal s3) ((rs @ ps @ [?r']) @ []) []" "pins s3 = pins (?s\<lparr>wal := w2\<rparr>)"
    "root_page_id (disk s3) = root_page_id (disk (?s\<lparr>wal := w2\<rparr>))" "next_page_id (disk s3) = next_page_id (disk (?s\<lparr>wal := w2\<rparr>))"
    "max_size (bpool s3) = max_size (bpool (?s\<lparr>wal := w2\<rparr>))"
    "wfile (wal s3) = (wfile (wal (?s\<lparr>wal := w2\<rparr>)))\<lparr>fbytes := encode_log ((rs @ ps @ [?r']) @ [])\<rparr>"
    by (rule flush_all_ok [OF o2])
  let ?t = "t\<lparr>tstate := StateCommitted\<rparr>" and ?m = "m\<lparr>store := s3\<rparr>"
  have hl: "locks_held ?t (table_locks ?m)"
    using held by (simp add: locks_held_def)
  obtain L where L: "unlock ?t ?m = (Ok (?t\<lparr>locks := []\<rparr>), ?m\<lparr>table_locks := L\<rparr>)"
    "\<And>table. readers (L table) = readers (table_locks ?m table) - of_bool (lock_entry ReadLock table \<in> set (locks ?t))"
    "\<And>table. writer (L table) \<longleftrightarrow> writer (table_locks ?m table) \<and> lock_entry WriteLock table \<notin> set (locks ?t)"
    using unlock_ok [OF hl] by metis
  show thesis
  proof (rule that [of "?m\<lparr>table_locks := L\<rparr>"])
    show "commit t m = (Ok (t\<lparr>tstate := StateCommitted, locks := []\<rparr>), ?m\<lparr>table_locks := L\<rparr>)"
      using st w(1) w2(1) s3(1) L(1) by (simp add: commit_def bindG_def on_store_def on_wal_def)
  qed (use s3 L w2(3) w(4) in simp_all)
qed

lemma rollback_ok:
  assumes st: "tstate t = StateActive" and ok: "pool_ok {} (store m)"
    and wal: "wal_holds (wal (store m)) rs ps"
    and unpinned: "\<And>i. owner (store m) i = Some (txn_id t) \<Longrightarrow> pins (store m) i = 0"
    and held: "locks_held t (table_locks m)"
  obtains m' where "rollback t m = (Ok (t\<lparr>tstate := StateAborted, locks := []\<rparr>), m')"
    "pool_ok {} (store m')"
    "abs_store (store m') = rollback_pages (txn_id t) (abs_store (store m))"
    "disk (store m') = disk (store m)"
    "wal_holds (wal (store m')) rs
       (ps @ [(txn_record (txn_id t) op_abort)\<lparr>r_lsn := next_lsn (wal (store m))\<rparr>])"
    "\<And>table. writer (table_locks m' table) \<longleftrightarrow>
       writer (table_locks m table) \<and> lock_entry WriteLock table \<notin> set (locks t)"
    "\<And>table. readers (table_locks m' table) =
       readers (table_locks m table) - of_bool (lock_entry ReadLock table \<in> set (locks t))"
proof -
  let ?r = "txn_record (txn_id t) op_abort" and ?s = "store m"
  let ?r' = "?r\<lparr>r_lsn := next_lsn (wal ?s)\<rparr>"
  have fits: "redo_fits ?r"
    by (simp add: redo_fits_def txn_record_def)
  obtain w where w: "on_wal (append_record ?r) ?s = (Ok (next_lsn (wal ?s)), ?s\<lparr>wal := w\<rparr>)"
    "pool_ok {} (?s\<lparr>wal := w\<rparr>)" "wal_holds w rs (ps @ [?r'])" "wfile w = wfile (wal ?s)"
    using on_wal_append [OF ok wal fits] .
  have un: "\<And>i. owner (?s\<lparr>wal := w\<rparr>) i = Some (txn_id t) \<Longrightarrow> pins (?s\<lparr>wal := w\<rparr>) i = 0"
    using unpinned by simp
  obtain s3 where s3: "discard_txn (txn_id t) (?s\<lparr>wal := w\<rparr>) = (Ok (), s3)" "pool_ok {} s3"
    "abs_store s3 = rollback_pages (txn_id t) (abs_store (?s\<lparr>wal := w\<rparr>))"
    "disk s3 = disk (?s\<lparr>wal := w\<rparr>)" "wal s3 = wal (?s\<lparr>wal := w\<rparr>)"
    by (rule discard_txn_ok [OF w(2) un])
  let ?t = "t\<lparr>tstate := StateAborted\<rparr>" and ?m = "m\<lparr>store := s3\<rparr>"
  have hl: "locks_held ?t (table_locks ?m)"
    using held by (simp add: locks_held_def)
  obtain L where L: "unlock ?t ?m = (Ok (?t\<lparr>locks := []\<rparr>), ?m\<lparr>table_locks := L\<rparr>)"
    "\<And>table. readers (L table) = readers (table_locks ?m table) - of_bool (lock_entry ReadLock table \<in> set (locks ?t))"
    "\<And>table. writer (L table) \<longleftrightarrow> writer (table_locks ?m table) \<and> lock_entry WriteLock table \<notin> set (locks ?t)"
    using unlock_ok [OF hl] by metis
  show thesis
  proof (rule that [of "?m\<lparr>table_locks := L\<rparr>"])
    show "rollback t m = (Ok (t\<lparr>tstate := StateAborted, locks := []\<rparr>), ?m\<lparr>table_locks := L\<rparr>)"
      using st w(1) s3(1) L(1) by (simp add: rollback_def bindG_def on_store_def on_wal_def)
  qed (use s3 w(3) L in simp_all)
qed


section \<open>Properties\<close>

text \<open>C3. A commit of an active transaction appends and flushes its commit record after everything logged before,
  makes exactly the pages the transaction owns durable, and releases exactly its locks.\<close>

theorem commit_makes_durable:
  assumes "tstate t = StateActive" "pool_ok {} (store m)" "wal_holds (wal (store m)) rs ps"
    "all_writable (wfile (wal (store m)))" "locks_held t (table_locks m)"
  shows "\<exists>m'. commit t m = (Ok (t\<lparr>tstate := StateCommitted, locks := []\<rparr>), m') \<and> pool_ok {} (store m') \<and>
    abs_store (store m') = commit_pages ((=) (txn_id t)) (abs_store (store m)) \<and>
    wal_read_all (wal (store m')) =
      Ok (rs @ ps @ [(txn_record (txn_id t) op_commit)\<lparr>r_lsn := next_lsn (wal (store m))\<rparr>]) \<and>
    (\<forall>table. writer (table_locks m' table) \<longleftrightarrow>
       writer (table_locks m table) \<and> lock_entry WriteLock table \<notin> set (locks t)) \<and>
    (\<forall>table. readers (table_locks m' table) =
       readers (table_locks m table) - of_bool (lock_entry ReadLock table \<in> set (locks t)))"
  by (rule commit_ok [OF assms]) (intro exI conjI allI; (assumption | erule wal_holds_read)?; simp)

text \<open>C4. A rollback of an active transaction whose pages are unpinned restores the durable content of exactly the
  pages it owns, leaves the disk alone, buffers an abort record, and releases exactly its locks.\<close>

theorem rollback_restores_pages:
  assumes "tstate t = StateActive" "pool_ok {} (store m)" "wal_holds (wal (store m)) rs ps"
    "\<And>i. owner (store m) i = Some (txn_id t) \<Longrightarrow> pins (store m) i = 0" "locks_held t (table_locks m)"
  shows "\<exists>m'. rollback t m = (Ok (t\<lparr>tstate := StateAborted, locks := []\<rparr>), m') \<and> pool_ok {} (store m') \<and>
    abs_store (store m') = rollback_pages (txn_id t) (abs_store (store m)) \<and> disk (store m') = disk (store m) \<and>
    wal_holds (wal (store m')) rs (ps @ [(txn_record (txn_id t) op_abort)\<lparr>r_lsn := next_lsn (wal (store m))\<rparr>]) \<and>
    (\<forall>table. writer (table_locks m' table) \<longleftrightarrow>
       writer (table_locks m table) \<and> lock_entry WriteLock table \<notin> set (locks t)) \<and>
    (\<forall>table. readers (table_locks m' table) =
       readers (table_locks m table) - of_bool (lock_entry ReadLock table \<in> set (locks t)))"
  using rollback_ok [OF assms] by metis

text \<open>C6. In every reachable state of the lock manager, whatever the interleaving of requests, goroutines, timeouts
  and ends of transactions, a transaction with the write lock of a table excludes every other transaction from
  that table, for reading and for writing.\<close>

theorem write_lock_mutual_exclusion:
  assumes "lock_reachable \<sigma>" "txns \<sigma> i = Some t" "txns \<sigma> j = Some u" "i \<noteq> j"
    "lock_entry WriteLock table \<in> set (locks t)"
  shows "lock_entry ReadLock table \<notin> set (locks u) \<and> lock_entry WriteLock table \<notin> set (locks u)"
  using write_lock_excludes [OF lock_inv_reachable [OF assms(1)] assms(2,3,5)] assms(4) by blast

text \<open>In every reachable state an active transaction that is not waiting for a lock can end: releasing its locks
  never unlocks a mutex that is not locked, and afterwards it holds nothing.\<close>

theorem end_of_transaction_releases:
  assumes "lock_reachable \<sigma>" "txns \<sigma> i = Some t" "tstate t = StateActive" "waiting \<sigma> i = None"
  shows "\<exists>\<tau>. lock_step (EvEnd i c) \<sigma> = Some \<tau> \<and> (\<forall>m table. Inl i \<notin> holders m table \<tau>)"
proof -
  obtain L where "unlock_all (locks t) (mutexes \<sigma>) = Some L"
    by (rule lock_inv_unlock [OF lock_inv_reachable [OF assms(1)] assms(2)])
  then show ?thesis
    using assms(2-4) by auto
qed

text \<open>C15. A write request that is given up after a timeout or a cancellation can block its table for good: once its
  goroutine has acquired the mutex, no sequence of events ever makes the mutex available again.\<close>

theorem abandoned_write_lock_blocks_forever:
  assumes "lock_reachable \<sigma>" "abandoned n table \<sigma>" "lock_run es \<sigma> = Some \<tau>"
  shows "\<not> can_acquire m (mutexes \<tau> table)"
  by (rule abandoned_blocks [OF lock_inv_reachable [OF reachable_run [OF assms(1,3)]]
        abandoned_run [OF assms(2,3)]])

subsection \<open>Witnesses\<close>

definition sample_txn :: txn where
  "sample_txn = \<lparr>txn_id = 1, tstate = StateActive, locks = [lock_entry WriteLock ''users'']\<rparr>"

definition sample_manager :: manager where
  "sample_manager = \<lparr>store = sample_storage, next_txn_id = 1,
     table_locks = (\<lambda>_. free_mutex)(''users'' := \<lparr>readers = 0, writer = True\<rparr>)\<rparr>"

lemma all_writable_sample [simp]: "all_writable (wfile sample_wal)"
  by (simp add: all_writable_def sample_wal_def sample_file_def)

lemma sample_manager [simp]:
  "store sample_manager = sample_storage" "locks_held sample_txn (table_locks sample_manager)"
  "tstate sample_txn = StateActive" "txn_id sample_txn = 1"
  by (auto simp: sample_manager_def sample_txn_def locks_held_def locks_ok_def free_mutex_def)

theorem commit_makes_durable_witness:
  "\<exists>m'. commit sample_txn sample_manager = (Ok (sample_txn\<lparr>tstate := StateCommitted, locks := []\<rparr>), m') \<and>
    pool_ok {} (store m') \<and>
    abs_store (store m') = commit_pages ((=) (txn_id sample_txn)) (abs_store (store sample_manager)) \<and>
    wal_read_all (wal (store m')) =
      Ok ([] @ [] @ [(txn_record (txn_id sample_txn) op_commit)\<lparr>r_lsn := next_lsn (wal (store sample_manager))\<rparr>]) \<and>
    (\<forall>table. writer (table_locks m' table) \<longleftrightarrow>
       writer (table_locks sample_manager table) \<and> lock_entry WriteLock table \<notin> set (locks sample_txn)) \<and>
    (\<forall>table. readers (table_locks m' table) = readers (table_locks sample_manager table) -
       of_bool (lock_entry ReadLock table \<in> set (locks sample_txn)))"
  by (rule commit_makes_durable) simp_all

theorem rollback_restores_pages_witness:
  "\<exists>m'. rollback sample_txn sample_manager = (Ok (sample_txn\<lparr>tstate := StateAborted, locks := []\<rparr>), m') \<and>
    pool_ok {} (store m') \<and>
    abs_store (store m') = rollback_pages (txn_id sample_txn) (abs_store (store sample_manager)) \<and>
    disk (store m') = disk (store sample_manager) \<and>
    wal_holds (wal (store m')) []
      ([] @ [(txn_record (txn_id sample_txn) op_abort)\<lparr>r_lsn := next_lsn (wal (store sample_manager))\<rparr>]) \<and>
    (\<forall>table. writer (table_locks m' table) \<longleftrightarrow>
       writer (table_locks sample_manager table) \<and> lock_entry WriteLock table \<notin> set (locks sample_txn)) \<and>
    (\<forall>table. readers (table_locks m' table) = readers (table_locks sample_manager table) -
       of_bool (lock_entry ReadLock table \<in> set (locks sample_txn)))"
  by (rule rollback_restores_pages) simp_all

text \<open>Transaction 1 takes the write lock, transaction 2 waits for it and gives up, transaction 1 ends, and the
  goroutine of transaction 2 gets the mutex.\<close>

definition sample_events :: "lock_event list" where
  "sample_events = [EvBegin 1, EvBegin 2, EvRequest 0 1 WriteLock ''users'', EvAcquire 0, EvDone 1]"

definition give_up_events :: "lock_event list" where
  "give_up_events = [EvRequest 1 2 WriteLock ''users'', EvGiveUp 2, EvEnd 1 True, EvAcquire 1]"

definition sample_locks :: lock_system where
  "sample_locks = the (lock_run sample_events lock_start)"

definition blocked_locks :: lock_system where
  "blocked_locks = the (lock_run give_up_events sample_locks)"

lemma sample_locks:
  "lock_run sample_events lock_start = Some sample_locks"
  "txns sample_locks 1 = Some \<lparr>txn_id = 1, tstate = StateActive, locks = [lock_entry WriteLock ''users'']\<rparr>"
  "txns sample_locks 2 = Some \<lparr>txn_id = 2, tstate = StateActive, locks = []\<rparr>"
  "waiting sample_locks 1 = None" "waiting sample_locks 2 = None" "goroutines sample_locks 1 = None"
  "writer (mutexes sample_locks ''users'')" "readers (mutexes sample_locks ''users'') = 0"
  "goroutines sample_locks = (\<lambda>_. None)" "waiting sample_locks = (\<lambda>_. None)"
  by (auto simp: sample_locks_def sample_events_def lock_start_def free_mutex_def lock_entry_check_def holds_def
      start_wait_def can_acquire_def acquire_def)

lemma reachable_sample_locks: "lock_reachable sample_locks"
  using reachable_run [OF lock_reachable.start sample_locks(1)] .

lemma blocked_locks:
  "lock_run give_up_events sample_locks = Some blocked_locks" "abandoned 1 ''users'' blocked_locks"
  by (auto simp: blocked_locks_def give_up_events_def sample_locks(2-10) lock_entry_check_def holds_def
      start_wait_def can_acquire_def acquire_def w_unlock_def Let_def abandoned_def)

theorem write_lock_mutual_exclusion_witness:
  "lock_entry ReadLock ''users'' \<notin> set (locks (the (txns sample_locks 2))) \<and>
   lock_entry WriteLock ''users'' \<notin> set (locks (the (txns sample_locks 2)))"
  by (rule write_lock_mutual_exclusion [OF reachable_sample_locks, of 1 "the (txns sample_locks 1)" 2])
    (simp_all add: sample_locks(2,3))

theorem end_of_transaction_releases_witness:
  "\<exists>\<tau>. lock_step (EvEnd 1 True) sample_locks = Some \<tau> \<and> (\<forall>m table. Inl 1 \<notin> holders m table \<tau>)"
  by (rule end_of_transaction_releases [OF reachable_sample_locks sample_locks(2)]) (simp_all add: sample_locks(4))

theorem abandoned_write_lock_blocks_forever_witness:
  "\<not> can_acquire WriteLock (mutexes (the (lock_step (EvBegin 3) blocked_locks)) ''users'')"
proof -
  have "txns blocked_locks 3 = None"
    by (auto simp: blocked_locks_def give_up_events_def sample_locks_def sample_events_def lock_start_def free_mutex_def
      lock_entry_check_def holds_def start_wait_def can_acquire_def acquire_def w_unlock_def Let_def)
  then have "lock_run [EvBegin 3] blocked_locks = Some (the (lock_step (EvBegin 3) blocked_locks))"
    by simp
  from abandoned_write_lock_blocks_forever
    [OF reachable_run [OF reachable_sample_locks blocked_locks(1)] blocked_locks(2) this]
  show ?thesis .
qed

end
