(* ===== verification/Cell.thy ===== *)
theory Cell
  imports Db_Types
begin

text \<open>
  \<open>storage/btree/cell.go\<close>: the byte format of composite keys, of leaf cells and of internal
  cells, their comparison, and the bubble sort of a list of cells. A function that slices or
  indexes out of range, or asserts a value to a type it does not have, panics (\<open>None\<close>).
\<close>

section \<open>Composite keys\<close>

definition encode_composite_key :: "u32 \<Rightarrow> gvalue \<Rightarrow> byte list" where
  "encode_composite_key tid v =
     (let (tag, pk_bytes) =
        (case v of
           Some (IntValue i) \<Rightarrow> (1, be_put 8 i)
         | Some (StringValue s) \<Rightarrow> (2, be_put 2 (of_nat (length s) :: u16) @ str_bytes s)
         | _ \<Rightarrow> (0 :: byte, []))
      in be_put 4 tid @ [tag] @ pk_bytes)"

definition decode_composite_key :: "byte list \<Rightarrow> (u32 \<times> gvalue \<times> nat) option" where
  "decode_composite_key b =
     do { tb \<leftarrow> go_slice 0 4 b;
          tag \<leftarrow> (if 4 < length b then Some (b ! 4) else None);
          if tag = 1 then
            do { ib \<leftarrow> go_slice 5 13 b;
                 Some (be_get tb, Some (IntValue (be_get ib)), 13) }
          else if tag = 2 then
            do { lb \<leftarrow> go_slice 5 7 b;
                 let str_len = unat (be_get lb :: u16);
                 sb \<leftarrow> go_slice 7 (7 + str_len) b;
                 Some (be_get tb, Some (StringValue (bytes_str sb)), 7 + str_len) }
          else Some (be_get tb, None, 0) }"

definition cell_table_id :: "byte list \<Rightarrow> u32 option" where
  "cell_table_id cell = map_option be_get (go_slice 0 4 cell)"

fun compare_values :: "gvalue \<Rightarrow> gvalue \<Rightarrow> int option" where
  "compare_values (Some (IntValue a)) (Some (IntValue b)) =
     Some (if sint a < sint b then -1 else if sint a > sint b then 1 else 0)"
| "compare_values (Some (IntValue a)) _ = None"
| "compare_values (Some (StringValue a)) (Some (StringValue b)) =
     Some (if a < b then -1 else if a > b then 1 else 0)"
| "compare_values (Some (StringValue a)) _ = None"
| "compare_values _ _ = Some 0"

definition compare_composite_keys :: "u32 \<Rightarrow> gvalue \<Rightarrow> u32 \<Rightarrow> gvalue \<Rightarrow> int option" where
  "compare_composite_keys a_id a_pk b_id b_pk =
     (if a_id \<noteq> b_id then (if a_id < b_id then Some (-1) else Some 1)
      else compare_values a_pk b_pk)"

section \<open>Leaf cells\<close>

fun encode_value :: "value_t \<Rightarrow> byte list" where
  "encode_value (IntValue i) = be_put 8 i"
| "encode_value (StringValue s) = be_put 2 (of_nat (length s) :: u16) @ str_bytes s"
| "encode_value (BoolValue b) = (if b then [1] else [0])"
| "encode_value NullValue = []"

definition decode_value :: "byte list \<Rightarrow> data_type \<Rightarrow> (value_t \<times> nat) option" where
  "decode_value b dt =
     (case dt_kind dt of
        KindIntType \<Rightarrow> do { ib \<leftarrow> go_slice 0 8 b; Some (IntValue (be_get ib), 8) }
      | KindVarcharType \<Rightarrow>
          do { lb \<leftarrow> go_slice 0 2 b;
               let len = unat (be_get lb :: u16);
               sb \<leftarrow> go_slice 2 (2 + len) b;
               Some (StringValue (bytes_str sb), 2 + len) }
      | KindBoolType \<Rightarrow>
          (case b of [] \<Rightarrow> None | x # _ \<Rightarrow> Some (BoolValue (x = 1), 1)))"

fun set_null_bits :: "nat \<Rightarrow> row \<Rightarrow> byte list \<Rightarrow> byte list option" where
  "set_null_bits i [] bitmap = Some bitmap"
| "set_null_bits i (v # vs) bitmap =
     (if kind_of v = KindNull
      then if i div 8 < length bitmap
           then set_null_bits (i + 1) vs (bitmap[i div 8 := bitmap ! (i div 8) OR push_bit (i mod 8) 1])
           else None
      else set_null_bits (i + 1) vs bitmap)"

fun leaf_offsets :: "u16 \<Rightarrow> byte list list \<Rightarrow> byte list" where
  "leaf_offsets pos [] = []"
| "leaf_offsets pos (d # ds) = be_put 2 pos @ leaf_offsets (pos + of_nat (length d)) ds"

definition bitmap_size :: "nat \<Rightarrow> nat" where
  "bitmap_size n = (if n > 8 then 2 else 1)"

definition encode_leaf_cell :: "u32 \<Rightarrow> gvalue \<Rightarrow> row \<Rightarrow> schema \<Rightarrow> byte list option" where
  "encode_leaf_cell tid key row sch =
     (let key_bytes = encode_composite_key tid key;
          n = length (columns sch)
      in if length row < n then None
         else
           let col_data = map encode_value (take n row) in
           do { bitmap \<leftarrow> set_null_bits 0 row (replicate (bitmap_size n) 0);
                let offsets = leaf_offsets (of_nat (length key_bytes + bitmap_size n + n * 2)) col_data;
                Some (key_bytes @ bitmap @ offsets @ concat col_data) })"

text \<open>The loop of \<open>decodeLeafCell\<close> over the columns from the \<open>i\<close>th on.\<close>

fun decode_columns :: "byte list \<Rightarrow> byte list \<Rightarrow> nat \<Rightarrow> nat \<Rightarrow> int \<Rightarrow> nat \<Rightarrow> column list \<Rightarrow> row option" where
  "decode_columns cell bitmap offsets_start data_start hdr i [] = Some []"
| "decode_columns cell bitmap offsets_start data_start hdr i (col # cols) =
     do { byte \<leftarrow> (if i div 8 < length bitmap then Some (bitmap ! (i div 8)) else None);
          v \<leftarrow> (if byte AND push_bit (i mod 8) 1 \<noteq> 0 then Some NullValue
                else do { ob \<leftarrow> go_slice (offsets_start + i * 2) (offsets_start + i * 2 + 2) cell;
                          let off = int (unat (be_get ob :: u16)) - hdr + int data_start;
                          rest \<leftarrow> (if 0 \<le> off \<and> off \<le> int (length cell) then Some (drop (nat off) cell) else None);
                          (w, _) \<leftarrow> decode_value rest (col_type col);
                          Some w });
          vs \<leftarrow> decode_columns cell bitmap offsets_start data_start hdr (i + 1) cols;
          Some (v # vs) }"

definition decode_leaf_cell :: "byte list \<Rightarrow> schema \<Rightarrow> (u32 \<times> gvalue \<times> row) option" where
  "decode_leaf_cell cell sch =
     do { (tid, pk, key_len) \<leftarrow> decode_composite_key cell;
          let n = length (columns sch);
          bitmap \<leftarrow> go_slice key_len (key_len + bitmap_size n) cell;
          let offsets_start = key_len + bitmap_size n;
          let data_start = offsets_start + n * 2;
          row \<leftarrow> decode_columns cell bitmap offsets_start data_start
                    (int (key_len + bitmap_size n + n * 2)) 0 (columns sch);
          Some (tid, pk, row) }"

section \<open>Internal cells\<close>

definition encode_internal_cell :: "u32 \<Rightarrow> gvalue \<Rightarrow> u32 \<Rightarrow> byte list" where
  "encode_internal_cell tid key child = encode_composite_key tid key @ be_put 4 child"

definition decode_internal_cell :: "byte list \<Rightarrow> (u32 \<times> gvalue \<times> u32) option" where
  "decode_internal_cell cell =
     do { (tid, key, n) \<leftarrow> decode_composite_key cell;
          cb \<leftarrow> go_slice n (n + 4) cell;
          Some (tid, key, be_get cb) }"

section \<open>The bubble sort of cells\<close>

definition cell_greater :: "byte list \<Rightarrow> byte list \<Rightarrow> bool option" where
  "cell_greater c d =
     do { (tid_a, pk_a, _) \<leftarrow> decode_composite_key c;
          (tid_b, pk_b, _) \<leftarrow> decode_composite_key d;
          cmp \<leftarrow> compare_composite_keys tid_a pk_a tid_b pk_b;
          Some (cmp > 0) }"

text \<open>The inner loop: \<open>k\<close> comparisons of neighbours from the left. The loops are stated over the
  comparison they call, and \<open>sort_cells\<close> runs them with \<open>cell_greater\<close>.\<close>

fun bubble_pass :: "('a \<Rightarrow> 'a \<Rightarrow> bool option) \<Rightarrow> nat \<Rightarrow> 'a list \<Rightarrow> 'a list option" where
  "bubble_pass gt (Suc k) (c # d # cs) =
     do { g \<leftarrow> gt c d;
          if g then map_option ((#) d) (bubble_pass gt k (c # cs))
          else map_option ((#) c) (bubble_pass gt k (d # cs)) }"
| "bubble_pass gt _ cs = Some cs"

text \<open>The outer loop: \<open>for i := 0; i < len; i++\<close> runs a pass of \<open>len - 1 - i\<close> comparisons.\<close>

fun bubble_passes :: "('a \<Rightarrow> 'a \<Rightarrow> bool option) \<Rightarrow> nat \<Rightarrow> 'a list \<Rightarrow> 'a list option" where
  "bubble_passes gt 0 cs = Some cs"
| "bubble_passes gt (Suc k) cs = do { cs' \<leftarrow> bubble_pass gt k cs; bubble_passes gt k cs' }"

definition sort_cells :: "byte list list \<Rightarrow> byte list list option" where
  "sort_cells cells = bubble_passes cell_greater (length cells) cells"


section \<open>Keys that can be stored\<close>

fun key_ok :: "gvalue \<Rightarrow> bool" where
  "key_ok (Some (IntValue _)) = True"
| "key_ok (Some (StringValue s)) = (length s < 65536)"
| "key_ok _ = False"

lemma unat_of_nat_u16 [simp]: "n < 65536 \<Longrightarrow> unat (word_of_nat n :: u16) = n"
  by (simp add: unat_of_nat)

lemma decode_encode_key:
  assumes "key_ok k"
  shows "decode_composite_key (encode_composite_key tid k @ rest) =
         Some (tid, k, length (encode_composite_key tid k))"
  using assms
  by (cases k rule: key_ok.cases)
    (simp_all add: encode_composite_key_def decode_composite_key_def nth_append Let_def)

lemma length_encode_key: "5 \<le> length (encode_composite_key tid k)"
  by (simp add: encode_composite_key_def split: option.splits value_t.splits)

lemma decode_internal_encode:
  assumes "key_ok k"
  shows "decode_internal_cell (encode_internal_cell tid k child @ rest) = Some (tid, k, child)"
  using decode_encode_key [OF assms, of tid "be_put 4 child @ rest"]
  by (simp add: encode_internal_cell_def decode_internal_cell_def)

section \<open>Leaf cells\<close>

lemma decode_encode_value:
  assumes "\<And>s. v = StringValue s \<Longrightarrow> length s < 65536"
    "kind_of v = (case dt_kind dt of KindIntType \<Rightarrow> KindInt | KindVarcharType \<Rightarrow> KindString | KindBoolType \<Rightarrow> KindBool)"
  shows "decode_value (encode_value v @ rest) dt = Some (v, length (encode_value v))"
  using assms
  by (cases v; cases "dt_kind dt") (simp_all add: decode_value_def Let_def)

fun value_fits :: "column \<Rightarrow> value_t \<Rightarrow> bool" where
  "value_fits c NullValue = True"
| "value_fits c (IntValue _) = (dt_kind (col_type c) = KindIntType)"
| "value_fits c (StringValue s) = (dt_kind (col_type c) = KindVarcharType \<and> length s < 65536)"
| "value_fits c (BoolValue _) = (dt_kind (col_type c) = KindBoolType)"

definition row_conforms :: "schema \<Rightarrow> row \<Rightarrow> bool" where
  "row_conforms sch r \<longleftrightarrow> list_all2 value_fits (columns sch) r"

lemma set_null_bits_spec:
  assumes "i + length vs \<le> 8 * length bm"
  obtains bm' where "set_null_bits i vs bm = Some bm'" "length bm' = length bm"
    "\<And>j. j < 8 * length bm \<Longrightarrow> bit (bm' ! (j div 8)) (j mod 8) \<longleftrightarrow>
       bit (bm ! (j div 8)) (j mod 8) \<or> (i \<le> j \<and> j < i + length vs \<and> vs ! (j - i) = NullValue)"
  using assms
proof (induction i vs bm arbitrary: thesis rule: set_null_bits.induct)
  case (1 i bm)
  show ?case by (rule "1.prems"(1) [of bm]) auto
next
  case (2 i v vs bm)
  have i: "i div 8 < length bm" using "2.prems"(2) by auto
  let ?bm = "bm[i div 8 := bm ! (i div 8) OR push_bit (i mod 8) 1]"
  have b: "bit (?bm ! (j div 8)) (j mod 8) \<longleftrightarrow> bit (bm ! (j div 8)) (j mod 8) \<or> j = i" if "j < 8 * length bm" for j
  proof (cases "j div 8 = i div 8")
    case True
    have "j = i \<longleftrightarrow> j mod 8 = i mod 8"
      using True by (metis div_mult_mod_eq)
    then show ?thesis
      using True i by (auto simp: bit_simps)
  next
    case False
    then show ?thesis by auto
  qed
  have nk: "kind_of v = KindNull \<longleftrightarrow> v = NullValue" by (cases v) auto
  show ?case
  proof (cases "v = NullValue")
    case True
    show ?thesis
    proof (rule "2.IH"(1))
      show "kind_of v = KindNull" "i div 8 < length bm" using True i by simp_all
      show "i + 1 + length vs \<le> 8 * length ?bm" using "2.prems"(2) by simp
      fix bm'
      assume "set_null_bits (i + 1) vs ?bm = Some bm'" "length bm' = length ?bm"
        "\<And>j. j < 8 * length ?bm \<Longrightarrow> bit (bm' ! (j div 8)) (j mod 8) \<longleftrightarrow>
         bit (?bm ! (j div 8)) (j mod 8) \<or> (i + 1 \<le> j \<and> j < i + 1 + length vs \<and> vs ! (j - (i + 1)) = NullValue)"
      then show thesis
        using True i b by (intro "2.prems"(1) [of bm']) (auto simp: nth_Cons' nk)
    qed
  next
    case False
    show ?thesis
    proof (rule "2.IH"(2))
      show "kind_of v \<noteq> KindNull" using False by (simp add: nk)
      show "i + 1 + length vs \<le> 8 * length bm" using "2.prems"(2) by simp
      fix bm'
      assume "set_null_bits (i + 1) vs bm = Some bm'" "length bm' = length bm"
        "\<And>j. j < 8 * length bm \<Longrightarrow> bit (bm' ! (j div 8)) (j mod 8) \<longleftrightarrow>
         bit (bm ! (j div 8)) (j mod 8) \<or> (i + 1 \<le> j \<and> j < i + 1 + length vs \<and> vs ! (j - (i + 1)) = NullValue)"
      then show thesis
        using False i by (intro "2.prems"(1) [of bm']) (auto simp: nth_Cons' nk)
    qed
  qed
qed

lemma length_leaf_offsets [simp]: "length (leaf_offsets pos ds) = 2 * length ds"
  by (induction pos ds rule: leaf_offsets.induct) auto

lemma sub_leaf_offsets:
  "i < length ds \<Longrightarrow>
   sub (2 * i) 2 (leaf_offsets pos ds) = be_put 2 (pos + of_nat (length (concat (take i ds))))"
proof (induction pos ds arbitrary: i rule: leaf_offsets.induct)
  case (2 pos d ds)
  show ?case
  proof (cases i)
    case (Suc j)
    have "sub (2 * i) 2 (leaf_offsets pos (d # ds)) = sub (2 * j) 2 (leaf_offsets (pos + of_nat (length d)) ds)"
      by (simp add: Suc)
    also have "\<dots> = be_put 2 (pos + of_nat (length d) + of_nat (length (concat (take j ds))))"
      using Suc "2.prems" by (intro "2.IH") simp
    finally show ?thesis
      by (simp add: Suc add.assoc)
  qed simp
qed simp


lemma value_fits_decode:
  "value_fits c v \<Longrightarrow> v \<noteq> NullValue \<Longrightarrow>
   decode_value (encode_value v @ rest) (col_type c) = Some (v, length (encode_value v))"
  by (intro decode_encode_value) (cases v; auto)+

lemma decode_columns_ok:
  assumes "list_all2 value_fits cs vs"
    and "\<And>j. j < length vs \<Longrightarrow> (i + j) div 8 < length bm"
    and "\<And>j. j < length vs \<Longrightarrow> bit (bm ! ((i + j) div 8)) ((i + j) mod 8) \<longleftrightarrow> vs ! j = NullValue"
    and "\<And>j. j < length vs \<Longrightarrow> vs ! j \<noteq> NullValue \<Longrightarrow>
      \<exists>off rest. off < 65536 \<and> off \<le> length cell \<and>
        go_slice (os + (i + j) * 2) (os + (i + j) * 2 + 2) cell = Some (be_put 2 (of_nat off :: u16)) \<and>
        drop off cell = encode_value (vs ! j) @ rest"
  shows "decode_columns cell bm os ds (int ds) i cs = Some vs"
  using assms
proof (induction arbitrary: i rule: list_all2_induct)
  case Nil
  then show ?case by simp
next
  case (Cons c cs v vs)
  have IH: "decode_columns cell bm os ds (int ds) (i + 1) cs = Some vs"
  proof (rule Cons.IH)
    fix j assume j: "j < length vs"
    show "(i + 1 + j) div 8 < length bm"
      using Cons.prems(1) [of "Suc j"] j by simp
    show "bit (bm ! ((i + 1 + j) div 8)) ((i + 1 + j) mod 8) \<longleftrightarrow> vs ! j = NullValue"
      using Cons.prems(2) [of "Suc j"] j by simp
    show "\<exists>off rest. off < 65536 \<and> off \<le> length cell \<and>
        go_slice (os + (i + 1 + j) * 2) (os + (i + 1 + j) * 2 + 2) cell = Some (be_put 2 (of_nat off :: u16)) \<and>
        drop off cell = encode_value (vs ! j) @ rest" if "vs ! j \<noteq> NullValue"
      using Cons.prems(3) [of "Suc j"] j that by simp
  qed
  have b: "i div 8 < length bm" "bit (bm ! (i div 8)) (i mod 8) \<longleftrightarrow> v = NullValue"
    using Cons.prems(1,2) [of 0] by simp_all
  have nz: "bm ! (i div 8) AND push_bit (i mod 8) 1 \<noteq> 0 \<longleftrightarrow> v = NullValue"
    using b(2) by (simp add: push_bit_eq_mult and_exp_eq_0_iff_not_bit)
  show ?case
  proof (cases "v = NullValue")
    case True
    then show ?thesis
      using b(1) nz IH by simp
  next
    case False
    obtain off rest where off: "off < 65536" "off \<le> length cell"
      "go_slice (os + i * 2) (os + i * 2 + 2) cell = Some (be_put 2 (of_nat off :: u16))"
      "drop off cell = encode_value v @ rest"
      using Cons.prems(3) [of 0] False by auto
    have "decode_value (drop off cell) (col_type c) = Some (v, length (encode_value v))"
      unfolding off(4) using Cons.hyps(1) False by (rule value_fits_decode)
    then show ?thesis
      using b(1) nz IH False off by (simp add: Let_def)
  qed
qed

definition leaf_cell_size :: "u32 \<Rightarrow> gvalue \<Rightarrow> row \<Rightarrow> nat" where
  "leaf_cell_size tid key r =
     length (encode_composite_key tid key) + bitmap_size (length r) + 2 * length r
       + length (concat (map encode_value r))"

lemma encode_leaf_cell_ok:
  assumes conf: "row_conforms sch r" and n: "length (columns sch) \<le> 16"
  obtains bm where "encode_leaf_cell tid key r sch =
      Some (encode_composite_key tid key @ bm @
        leaf_offsets (of_nat (length (encode_composite_key tid key) + bitmap_size (length r) + length r * 2))
          (map encode_value r) @ concat (map encode_value r))"
    "length bm = bitmap_size (length r)"
    "\<And>j. j < length r \<Longrightarrow> bit (bm ! (j div 8)) (j mod 8) \<longleftrightarrow> r ! j = NullValue"
proof -
  have len: "length r = length (columns sch)"
    using conf by (simp add: row_conforms_def list_all2_lengthD)
  have fits: "0 + length r \<le> 8 * length (replicate (bitmap_size (length r)) (0 :: byte))"
    using n len by (simp add: bitmap_size_def)
  obtain bm where bm: "set_null_bits 0 r (replicate (bitmap_size (length r)) 0) = Some bm"
    "length bm = bitmap_size (length r)"
    "\<And>j. j < 8 * bitmap_size (length r) \<Longrightarrow> bit (bm ! (j div 8)) (j mod 8) \<longleftrightarrow>
       bit (replicate (bitmap_size (length r)) (0 :: byte) ! (j div 8)) (j mod 8) \<or> (j < length r \<and> r ! j = NullValue)"
    using set_null_bits_spec [OF fits] by auto
  have "bit (bm ! (j div 8)) (j mod 8) \<longleftrightarrow> r ! j = NullValue" if "j < length r" for j
  proof -
    have "j < 8 * bitmap_size (length r)" "j div 8 < bitmap_size (length r)"
      using that n len by (auto simp: bitmap_size_def)
    then show ?thesis
      using bm(3) that by simp
  qed
  then show thesis
    using that [of bm] bm(1,2) len by (simp add: encode_leaf_cell_def Let_def)
qed

lemma length_concat_take_le: "length (concat (take i xs)) \<le> length (concat xs)"
  by (metis append_take_drop_id concat_append le_add1 length_append)

lemma decode_encode_leaf_cell:
  assumes conf: "row_conforms sch r" and n: "length (columns sch) \<le> 16" and key: "key_ok key"
    and size: "leaf_cell_size tid key r < 65536"
  obtains cell where "encode_leaf_cell tid key r sch = Some cell" "length cell = leaf_cell_size tid key r"
    "decode_leaf_cell cell sch = Some (tid, key, r)"
    "decode_composite_key cell = Some (tid, key, length (encode_composite_key tid key))"
proof -
  have len: "length r = length (columns sch)"
    using conf by (simp add: row_conforms_def list_all2_lengthD)
  define kb ds where "kb = encode_composite_key tid key" and "ds = map encode_value r"
  define H where "H = length kb + bitmap_size (length r) + length r * 2"
  obtain bm where bm: "encode_leaf_cell tid key r sch =
      Some (kb @ bm @ leaf_offsets (of_nat H) ds @ concat ds)"
    "length bm = bitmap_size (length r)"
    "\<And>j. j < length r \<Longrightarrow> bit (bm ! (j div 8)) (j mod 8) \<longleftrightarrow> r ! j = NullValue"
    using encode_leaf_cell_ok [OF conf n, of tid key] unfolding kb_def ds_def H_def by metis
  define cell where "cell = kb @ bm @ leaf_offsets (of_nat H) ds @ concat ds"
  have lcell: "length cell = leaf_cell_size tid key r"
    by (simp add: cell_def leaf_cell_size_def kb_def ds_def bm(2))
  have dk: "decode_composite_key cell = Some (tid, key, length kb)"
    unfolding cell_def kb_def using key by (rule decode_encode_key)
  have cols: "decode_columns cell bm (length kb + length bm) H (int H) 0 (columns sch) = Some r"
  proof (rule decode_columns_ok)
    show "list_all2 value_fits (columns sch) r"
      using conf by (simp add: row_conforms_def)
    fix j assume j: "j < length r"
    show "(0 + j) div 8 < length bm"
      using j n len bm(2) by (auto simp: bitmap_size_def)
    show "bit (bm ! ((0 + j) div 8)) ((0 + j) mod 8) \<longleftrightarrow> r ! j = NullValue"
      using bm(3) j by simp
    let ?off = "H + length (concat (take j ds))"
    have off: "?off \<le> length cell"
      using length_concat_take_le [of j ds] by (simp add: lcell leaf_cell_size_def H_def kb_def ds_def)
    have "sub (length kb + length bm + j * 2) 2 cell = sub (2 * j) 2 (leaf_offsets (of_nat H) ds)"
      using j by (simp add: cell_def ds_def mult.commute)
    also have "\<dots> = be_put 2 (of_nat ?off :: u16)"
      using j by (simp add: sub_leaf_offsets ds_def)
    finally have sl: "go_slice (length kb + length bm + (0 + j) * 2) (length kb + length bm + (0 + j) * 2 + 2) cell =
        Some (be_put 2 (of_nat ?off :: u16))"
      using j by (simp add: go_slice_def cell_def ds_def)
    have "concat ds = concat (take j ds) @ ds ! j @ concat (drop (Suc j) ds)"
      using j by (metis append_take_drop_id concat.simps(2) concat_append Cons_nth_drop_Suc ds_def length_map)
    then have "drop ?off cell = encode_value (r ! j) @ concat (drop (Suc j) ds)"
      using j by (simp add: cell_def H_def bm(2) ds_def)
    then show "\<exists>off rest. off < 65536 \<and> off \<le> length cell \<and>
        go_slice (length kb + length bm + (0 + j) * 2) (length kb + length bm + (0 + j) * 2 + 2) cell
          = Some (be_put 2 (of_nat off :: u16)) \<and>
        drop off cell = encode_value (r ! j) @ rest"
      using sl off size lcell by (intro exI [of _ ?off] exI conjI) auto
  qed
  have "sub (length kb) (length bm) cell = bm"
    by (simp add: cell_def)
  then have "decode_leaf_cell cell sch = Some (tid, key, r)"
    using cols len
    by (simp add: decode_leaf_cell_def dk Let_def bm(2) H_def go_slice_def)
      (simp add: cell_def bm(2))
  with bm(1) lcell dk show thesis
    using that unfolding cell_def kb_def by blast
qed


section \<open>Bubble sort over a comparison\<close>

locale comparator =
  fixes gt :: "'a \<Rightarrow> 'a \<Rightarrow> bool option"
    and key :: "'a \<Rightarrow> 'k::linorder"
    and ok :: "'a \<Rightarrow> bool"
  assumes gt_key: "ok a \<Longrightarrow> ok b \<Longrightarrow> gt a b = Some (key b < key a)"
begin

lemma bubble_pass_step:
  assumes "\<forall>x \<in> set xs. ok x" "k < length xs"
  obtains ys where "bubble_pass gt k xs = Some ys"
    "mset (take (Suc k) ys) = mset (take (Suc k) xs)" "drop (Suc k) ys = drop (Suc k) xs"
    "\<forall>y \<in> set (take (Suc k) ys). key y \<le> key (ys ! k)" "length ys = length xs"
  using assms
proof (induction k arbitrary: xs thesis)
  case 0
  from "0.prems"(3) obtain x xs' where xs: "xs = x # xs'"
    by (cases xs) auto
  show ?case
    by (rule "0.prems"(1) [of xs]) (simp_all add: xs)
next
  case (Suc k)
  from Suc.prems(3) obtain c d cs where xs: "xs = c # d # cs"
    by (cases xs; cases "tl xs") auto
  have ok: "ok c" "ok d" "\<forall>x \<in> set cs. ok x"
    using Suc.prems(2) xs by auto
  define m M where "m = (if key d < key c then d else c)" and "M = (if key d < key c then c else d)"
  have mM: "key m \<le> key M" "ok M" "mset [m, M] = mset [c, d]"
    using ok by (auto simp: m_def M_def)
  obtain ys where ys: "bubble_pass gt k (M # cs) = Some ys"
    "mset (take (Suc k) ys) = mset (take (Suc k) (M # cs))" "drop (Suc k) ys = drop (Suc k) (M # cs)"
    "\<forall>y \<in> set (take (Suc k) ys). key y \<le> key (ys ! k)" "length ys = length (M # cs)"
    using Suc.IH [of "M # cs"] ok mM Suc.prems(3) xs by auto
  have "M \<in> set (take (Suc k) ys)"
    using ys(2) mset_eq_setD by fastforce
  then have M: "key M \<le> key (ys ! k)"
    using ys(4) by blast
  show ?case
  proof (rule Suc.prems(1) [of "m # ys"])
    show "bubble_pass gt (Suc k) xs = Some (m # ys)"
      using ys(1) gt_key [of c d] ok by (auto simp: xs m_def M_def)
    show "mset (take (Suc (Suc k)) (m # ys)) = mset (take (Suc (Suc k)) xs)"
      using ys(2) mM(3) by (simp add: xs add_mset_commute add.commute)
    show "\<forall>y \<in> set (take (Suc (Suc k)) (m # ys)). key y \<le> key ((m # ys) ! Suc k)"
      using ys(4) M mM(1) by auto
  qed (use ys xs in auto)
qed

lemma bubble_passes_sorted:
  assumes "\<forall>x \<in> set xs. ok x" "k \<le> length xs" "sorted (map key (drop k xs))"
    "\<forall>x \<in> set (take k xs). \<forall>y \<in> set (drop k xs). key x \<le> key y"
  obtains ys where "bubble_passes gt k xs = Some ys" "mset ys = mset xs" "sorted (map key ys)"
  using assms
proof (induction k arbitrary: xs thesis)
  case 0
  then show ?case by simp
next
  case (Suc k)
  obtain ys where ys: "bubble_pass gt k xs = Some ys"
    "mset (take (Suc k) ys) = mset (take (Suc k) xs)" "drop (Suc k) ys = drop (Suc k) xs"
    "\<forall>y \<in> set (take (Suc k) ys). key y \<le> key (ys ! k)" "length ys = length xs"
    using bubble_pass_step [of xs k] Suc.prems(2,3) by (metis Suc_le_lessD)
  have k: "k < length ys" using ys(5) Suc.prems(3) by simp
  have dk: "drop k ys = ys ! k # drop (Suc k) xs"
    using k ys(3) by (metis Cons_nth_drop_Suc)
  have tk: "take (Suc k) ys = take k ys @ [ys ! k]"
    using k by (rule take_Suc_conv_app_nth)
  have set: "set (take (Suc k) ys) = set (take (Suc k) xs)"
    using ys(2) by (rule mset_eq_setD)
  have m: "mset ys = mset xs"
    by (metis append_take_drop_id mset_append ys(2,3))
  have last: "ys ! k \<in> set (take (Suc k) xs)"
    using set tk by auto
  show ?case
  proof (rule Suc.IH [of ys])
    show "sorted (map key (drop k ys))"
      using Suc.prems(4,5) last by (auto simp: dk)
    show "\<forall>x \<in> set (take k ys). \<forall>y \<in> set (drop k ys). key x \<le> key y"
      using ys(4) Suc.prems(5) set by (auto simp: dk tk)
    show "\<forall>x \<in> set ys. ok x"
      using m Suc.prems(2) mset_eq_setD by blast
    fix zs
    assume "bubble_passes gt k ys = Some zs" "mset zs = mset ys" "sorted (map key zs)"
    then show ?case
      using Suc.prems(1) [of zs] ys(1) m by simp
  qed (use k in simp)
qed

lemma bubble_sort:
  assumes "\<forall>x \<in> set xs. ok x"
  obtains ys where "bubble_passes gt (length xs) xs = Some ys" "mset ys = mset xs" "sorted (map key ys)"
  using bubble_passes_sorted [of xs "length xs"] assms by auto

text \<open>Sorting a strictly sorted list with one new element at its end is inserting it in place.\<close>

lemma bubble_sort_insert:
  assumes ok: "\<forall>x \<in> set xs. ok x" "ok a"
    and split: "xs = us @ vs" "sorted_wrt (<) (map key us @ key a # map key vs)"
  shows "bubble_passes gt (length (xs @ [a])) (xs @ [a]) = Some (us @ a # vs)"
proof -
  obtain ys where ys: "bubble_passes gt (length (xs @ [a])) (xs @ [a]) = Some ys"
    "mset ys = mset (xs @ [a])" "sorted (map key ys)"
    using bubble_sort [of "xs @ [a]"] ok by auto
  let ?zs = "us @ a # vs"
  have st: "sorted (map key ?zs)" "distinct (map key ?zs)"
    using split(2) by (simp_all only: strict_sorted_iff list.map map_append)
  have m: "mset ys = mset ?zs"
    using ys(2) split(1) by simp
  have "mset (map key ys) = mset (map key ?zs)"
    using m by simp
  then have d: "distinct (map key ys)"
    using st(2) by (metis mset_eq_imp_distinct_iff)
  have "inj_on key (set ?zs)"
    using st(2) by (simp only: distinct_map)
  then have "inj_on key (set ys \<union> set ?zs)"
    by (simp only: mset_eq_setD [OF m] Un_absorb)
  then have "ys = ?zs"
    using map_sorted_distinct_set_unique [of key ys ?zs] ys(3) st d mset_eq_setD [OF m] by blast
  with ys(1) show ?thesis by simp
qed

end

section \<open>Cells under their keys\<close>

type_synonym ckey = "u32 \<times> value_t"

text \<open>\<open>kinds tid\<close> is the kind of the primary key of table \<open>tid\<close>: two keys of one table compare
  without panic only when they have the same kind.\<close>

fun ckey_ok :: "(u32 \<Rightarrow> value_kind) \<Rightarrow> ckey \<Rightarrow> bool" where
  "ckey_ok kinds (tid, v) \<longleftrightarrow> key_ok (Some v) \<and> kind_of v = kinds tid"

definition cell_key :: "byte list \<Rightarrow> ckey option" where
  "cell_key c = (case decode_composite_key c of Some (tid, Some v, _) \<Rightarrow> Some (tid, v) | _ \<Rightarrow> None)"

definition ckey :: "byte list \<Rightarrow> ckey" where
  "ckey c = the (cell_key c)"

definition cell_ok :: "(u32 \<Rightarrow> value_kind) \<Rightarrow> byte list \<Rightarrow> bool" where
  "cell_ok kinds c \<longleftrightarrow> (case cell_key c of Some k \<Rightarrow> ckey_ok kinds k | None \<Rightarrow> False)"

lemma compare_values_ok:
  assumes "key_ok (Some v)" "key_ok (Some w)" "kind_of v = kind_of w"
  shows "compare_values (Some v) (Some w) = Some (if v < w then -1 else if w < v then 1 else 0)"
  using assms by (cases v; cases w) auto

lemma compare_composite_keys_ok:
  assumes "ckey_ok kinds (s, v)" "ckey_ok kinds (t, w)"
  shows "compare_composite_keys s (Some v) t (Some w) =
         Some (if (s, v) < (t, w) then -1 else if (t, w) < (s, v) then 1 else 0)"
  using assms compare_values_ok [of v w]
  by (auto simp: compare_composite_keys_def)

lemma cell_ok_decode:
  assumes "cell_ok kinds c"
  obtains tid v n where "decode_composite_key c = Some (tid, Some v, n)" "ckey c = (tid, v)"
    "ckey_ok kinds (tid, v)"
  using assms by (auto simp: cell_ok_def cell_key_def ckey_def split: option.splits)

lemma cell_greater_ok:
  assumes "cell_ok kinds c" "cell_ok kinds d"
  shows "cell_greater c d = Some (ckey d < ckey c)"
proof -
  obtain s v m where c: "decode_composite_key c = Some (s, Some v, m)" "ckey c = (s, v)" "ckey_ok kinds (s, v)"
    using assms(1) by (rule cell_ok_decode)
  obtain t w n where d: "decode_composite_key d = Some (t, Some w, n)" "ckey d = (t, w)" "ckey_ok kinds (t, w)"
    using assms(2) by (rule cell_ok_decode)
  show ?thesis
    unfolding cell_greater_def using compare_composite_keys_ok [OF c(3) d(3)]
    by (auto simp: c(1,2) d(1,2))
qed

interpretation cells: comparator cell_greater ckey "cell_ok kinds" for kinds
  by unfold_locales (rule cell_greater_ok)

lemma sort_cells_insert:
  assumes "\<forall>c \<in> set (us @ vs). cell_ok kinds c" "cell_ok kinds a"
    "sorted_wrt (<) (map ckey us @ ckey a # map ckey vs)"
  shows "sort_cells (us @ vs @ [a]) = Some (us @ a # vs)"
  using cells.bubble_sort_insert [of "us @ vs" kinds a us vs] assms by (simp add: sort_cells_def)

lemma cell_key_leaf:
  assumes "decode_composite_key c = Some (tid, Some v, n)"
  shows "cell_key c = Some (tid, v)" "ckey c = (tid, v)"
  using assms by (simp_all add: cell_key_def ckey_def)


lemma cell_table_id_decode:
  "decode_composite_key c = Some (tid, k, n) \<Longrightarrow> cell_table_id c = Some tid"
  by (auto simp: cell_table_id_def decode_composite_key_def Let_def bind_eq_Some_conv split: if_splits)

section \<open>Properties\<close>

text \<open>C12. A row that conforms to its schema of at most 16 columns, under an INT or VARCHAR key, is encoded into
  a leaf cell, and decoding the cell gives back the table, the key and the row, NULLs included.\<close>

theorem leaf_cell_roundtrip:
  assumes "row_conforms sch r" "length (columns sch) \<le> 16" "key_ok key" "leaf_cell_size tid key r < 65536"
  shows "\<exists>cell. encode_leaf_cell tid key r sch = Some cell \<and> length cell = leaf_cell_size tid key r \<and>
    decode_leaf_cell cell sch = Some (tid, key, r) \<and> cell_table_id cell = Some tid"
proof -
  obtain cell where c: "encode_leaf_cell tid key r sch = Some cell" "length cell = leaf_cell_size tid key r"
    "decode_leaf_cell cell sch = Some (tid, key, r)"
    "decode_composite_key cell = Some (tid, key, length (encode_composite_key tid key))"
    using decode_encode_leaf_cell [OF assms] .
  then show ?thesis
    using cell_table_id_decode [OF c(4)] by blast
qed

definition sample_schema :: schema where
  "sample_schema = \<lparr>table_name = ''users'', table_id = 1,
     columns = [\<lparr>col_name = ''id'', col_type = \<lparr>dt_kind = KindIntType, dt_length = 0\<rparr>, primary_key = True, not_null = True\<rparr>,
                \<lparr>col_name = ''name'', col_type = \<lparr>dt_kind = KindVarcharType, dt_length = 20\<rparr>, primary_key = False, not_null = False\<rparr>]\<rparr>"

definition sample_row :: row where
  "sample_row = [IntValue 3, NullValue]"

lemma sample_row:
  "row_conforms sample_schema sample_row" "length (columns sample_schema) = 2"
  "leaf_cell_size 1 (Some (IntValue 3)) sample_row = 26"
  by (simp_all add: row_conforms_def sample_schema_def sample_row_def leaf_cell_size_def bitmap_size_def
      encode_composite_key_def)

theorem leaf_cell_roundtrip_witness:
  "\<exists>cell. encode_leaf_cell 1 (Some (IntValue 3)) sample_row sample_schema = Some cell \<and>
    length cell = leaf_cell_size 1 (Some (IntValue 3)) sample_row \<and>
    decode_leaf_cell cell sample_schema = Some (1, Some (IntValue 3), sample_row) \<and> cell_table_id cell = Some 1"
  by (rule leaf_cell_roundtrip) (simp_all add: sample_row)

text \<open>The bubble sort of cells with comparable keys does not panic and returns a permutation of the cells
  sorted by table id and key.\<close>

theorem sort_cells_sorts:
  assumes "\<forall>c \<in> set cs. cell_ok kinds c"
  shows "\<exists>ds. sort_cells cs = Some ds \<and> mset ds = mset cs \<and> sorted (map ckey ds)"
  using cells.bubble_sort [OF assms] by (auto simp: sort_cells_def)

definition sample_keys :: "byte list list" where
  "sample_keys = map (\<lambda>i. encode_composite_key 1 (Some (IntValue i))) [5, -2, 3]"

theorem sort_cells_sorts_witness:
  "\<exists>ds. sort_cells sample_keys = Some ds \<and> mset ds = mset sample_keys \<and> sorted (map ckey ds)"
proof (rule sort_cells_sorts)
  have "decode_composite_key (encode_composite_key 1 (Some (IntValue i))) =
      Some (1, Some (IntValue i), length (encode_composite_key 1 (Some (IntValue i))))" for i
    using decode_encode_key [of "Some (IntValue i)" 1 "[]"] by simp
  then show "\<forall>c \<in> set sample_keys. cell_ok (\<lambda>_. KindInt) c"
    by (auto simp: sample_keys_def cell_ok_def cell_key_def)
qed

text \<open>Keys of one kind compare by the signed order of integers or the byte order of strings, and keys of
  different tables by their table ids, so the comparison is the total order of \<open>(table, value_t)\<close> pairs.\<close>

theorem compare_composite_keys_total_order:
  assumes "ckey_ok kinds (s, v)" "ckey_ok kinds (t, w)"
  shows "compare_composite_keys s (Some v) t (Some w) =
    Some (if (s, v) < (t, w) then -1 else if (t, w) < (s, v) then 1 else 0)"
  using assms by (rule compare_composite_keys_ok)

theorem compare_composite_keys_total_order_witness:
  "compare_composite_keys 1 (Some (IntValue (-1))) 1 (Some (IntValue 1)) =
    Some (if (1 :: u32, IntValue (-1)) < (1, IntValue 1) then -1 else if (1 :: u32, IntValue 1) < (1, IntValue (-1)) then 1 else 0)"
  by (rule compare_composite_keys_total_order [of "\<lambda>_. KindInt"]) simp_all

end
