(* ===== verification/BTree.thy ===== *)
theory BTree
  imports Buffer_Pool Cell
begin

text \<open>
  \<open>storage/btree/btree.go\<close>: the B+-tree shared by all tables, over the storage of
  \<open>Buffer_Pool\<close>. A page the Go code holds is the handle of its frame. Recursion down the tree and
  the walk along the leaves take fuel, since a damaged file can hold a cycle of pages.
\<close>

section \<open>Page utilities\<close>

definition init_leaf_links :: "page \<Rightarrow> page" where
  "init_leaf_links p = set_rightmost_child no_page_id p"

definition next_leaf_id :: "page \<Rightarrow> u32" where
  "next_leaf_id p = rightmost_child p"

definition set_next_leaf_id :: "u32 \<Rightarrow> page \<Rightarrow> page" where
  "set_next_leaf_id i p = set_rightmost_child i p"

definition reset_page :: "page \<Rightarrow> page" where
  "reset_page p =
     upd 15 (be_put 2 (of_nat page_size :: u16))
       (upd 13 (be_put 2 (0 :: u16))
         (upd header_size (replicate (page_size - header_size) 0) p))"

text \<open>\<open>copy(cellBytes, bs)\<close> where \<open>cellBytes\<close> is the slice \<open>CellAt(i)\<close> of the page itself.\<close>

definition overwrite_cell :: "nat \<Rightarrow> byte list \<Rightarrow> page \<Rightarrow> page option" where
  "overwrite_cell i bs p =
     do { (off, len) \<leftarrow> get_slot i p;
          old \<leftarrow> cell_at i p;
          Some (upd (unat off) (take (length old) bs) p) }"

text \<open>The copies of all cells, as both splits collect them.\<close>

fun copy_cells :: "page \<Rightarrow> nat list \<Rightarrow> byte list list option" where
  "copy_cells p [] = Some []"
| "copy_cells p (i # is) = do { c \<leftarrow> cell_at i p; cs \<leftarrow> copy_cells p is; Some (c # cs) }"

definition all_cells :: "page \<Rightarrow> byte list list option" where
  "all_cells p = copy_cells p [0..<unat (cell_count p)]"

text \<open>\<open>for _, c := range cells \{ p.AddCell(c) \}\<close>: the result of \<open>AddCell\<close> is ignored.\<close>

fun add_cells :: "byte list list \<Rightarrow> page \<Rightarrow> page option" where
  "add_cells [] p = Some p"
| "add_cells (c # cs) p = do { (_, q) \<leftarrow> add_cell c p; add_cells cs q }"

section \<open>Searching inside a page\<close>

fun child_loop :: "page \<Rightarrow> u32 \<Rightarrow> gvalue \<Rightarrow> nat list \<Rightarrow> u32 option" where
  "child_loop p tid key [] = Some (rightmost_child p)"
| "child_loop p tid key (i # is) =
     do { c \<leftarrow> cell_at i p;
          (kid, k, child) \<leftarrow> decode_internal_cell c;
          cmp \<leftarrow> compare_composite_keys tid key kid k;
          if cmp < 0 then Some child else child_loop p tid key is }"

definition find_child_page_id :: "page \<Rightarrow> u32 \<Rightarrow> gvalue \<Rightarrow> u32 option" where
  "find_child_page_id p tid key = child_loop p tid key [0..<unat (cell_count p)]"

fun search_loop :: "page \<Rightarrow> u32 \<Rightarrow> gvalue \<Rightarrow> nat list \<Rightarrow> (nat \<times> bool) option" where
  "search_loop p tid key [] = Some (0, False)"
| "search_loop p tid key (i # is) =
     do { c \<leftarrow> cell_at i p;
          (kid, k, _) \<leftarrow> decode_composite_key c;
          cmp \<leftarrow> compare_composite_keys kid k tid key;
          if cmp = 0 then Some (i, True)
          else if cmp > 0 then Some (0, False)
          else search_loop p tid key is }"

definition search_in_leaf :: "page \<Rightarrow> u32 \<Rightarrow> gvalue \<Rightarrow> (nat \<times> bool) option" where
  "search_in_leaf p tid key = search_loop p tid key [0..<unat (cell_count p)]"

fun insert_pos_loop :: "page \<Rightarrow> u32 \<Rightarrow> gvalue \<Rightarrow> nat list \<Rightarrow> nat option" where
  "insert_pos_loop p tid key [] = Some (unat (cell_count p))"
| "insert_pos_loop p tid key (i # is) =
     do { c \<leftarrow> cell_at i p;
          (kid, k, _) \<leftarrow> decode_composite_key c;
          cmp \<leftarrow> compare_composite_keys kid k tid key;
          if cmp > 0 then Some i else insert_pos_loop p tid key is }"

definition find_insert_pos :: "page \<Rightarrow> u32 \<Rightarrow> gvalue \<Rightarrow> nat option" where
  "find_insert_pos p tid key = insert_pos_loop p tid key [0..<unat (cell_count p)]"

section \<open>Releasing and logging a page\<close>

definition release_page :: "u32 \<Rightarrow> storage \<Rightarrow> storage" where
  "release_page i s =
     (case frame_at s i of None \<Rightarrow> s | Some f \<Rightarrow> unpin_page (page_id (fpage f)) False 0 s)"

definition finish_page :: "u32 \<Rightarrow> u64 \<Rightarrow> u8 \<Rightarrow> (storage, unit) go" where
  "finish_page i txn op =
     bindG (get_page i) (\<lambda>p.
     bindG (on_err (on_wal (append_record \<lparr>r_lsn = 0, r_txn = txn, r_page = page_id p, r_op = op,
                                            r_prev = 0, redo_data = p\<rparr>))
                   (release_page i)) (\<lambda>n.
     bindG (put_page i (set_lsn n p)) (\<lambda>_.
     modifyG (unpin_page (page_id (set_lsn n p)) True txn))))"

section \<open>Descending and searching\<close>

fun find_leaf_from :: "nat \<Rightarrow> u32 \<Rightarrow> u32 \<Rightarrow> gvalue \<Rightarrow> (storage, u32) go" where
  "find_leaf_from 0 pid tid key = stuck"
| "find_leaf_from (Suc n) pid tid key =
     bindG (fetch_page pid) (\<lambda>p.
     if page_type p = type_leaf then bindG (modifyG (release_page pid)) (\<lambda>_. ret pid)
     else
       bindG (of_option (find_child_page_id p tid key)) (\<lambda>next.
       bindG (modifyG (release_page pid)) (\<lambda>_.
       find_leaf_from n next tid key)))"

definition find_leaf :: "nat \<Rightarrow> u32 \<Rightarrow> gvalue \<Rightarrow> (storage, u32) go" where
  "find_leaf n tid key =
     bindG (getsG (\<lambda>s. root_page_id (disk s))) (\<lambda>root. find_leaf_from n root tid key)"

definition search :: "nat \<Rightarrow> u32 \<Rightarrow> gvalue \<Rightarrow> schema \<Rightarrow> (storage, row option) go" where
  "search n tid key sch =
     bindG (find_leaf n tid key) (\<lambda>leaf.
     bindG (fetch_page leaf) (\<lambda>p.
     bindG (of_option (search_in_leaf p tid key)) (\<lambda>(idx, found).
     if \<not> found then bindG (modifyG (release_page leaf)) (\<lambda>_. ret None)
     else
       bindG (of_option (do { c \<leftarrow> cell_at idx p; decode_leaf_cell c sch })) (\<lambda>(_, _, r).
       bindG (modifyG (release_page leaf)) (\<lambda>_.
       ret (Some r))))))"

fun find_leftmost_leaf :: "nat \<Rightarrow> u32 \<Rightarrow> (storage, u32) go" where
  "find_leftmost_leaf 0 pid = stuck"
| "find_leftmost_leaf (Suc n) pid =
     bindG (fetch_page pid) (\<lambda>p.
     if page_type p = type_leaf \<or> cell_count p = 0
     then bindG (modifyG (release_page pid)) (\<lambda>_. ret pid)
     else
       bindG (of_option (do { c \<leftarrow> cell_at 0 p; decode_internal_cell c })) (\<lambda>(_, _, child).
       bindG (modifyG (release_page pid)) (\<lambda>_.
       find_leftmost_leaf n child)))"

text \<open>The loop over the cells of one leaf in \<open>Scan\<close>: the rows of the table, and whether a cell of a
  later table was seen.\<close>

fun scan_cells :: "page \<Rightarrow> u32 \<Rightarrow> schema \<Rightarrow> nat list \<Rightarrow> (row list \<times> bool) option" where
  "scan_cells p tid sch [] = Some ([], False)"
| "scan_cells p tid sch (i # is) =
     do { c \<leftarrow> cell_at i p;
          t \<leftarrow> cell_table_id c;
          if t < tid then scan_cells p tid sch is
          else if t > tid then Some ([], True)
          else do { (_, _, r) \<leftarrow> decode_leaf_cell c sch;
                    (rs, done) \<leftarrow> scan_cells p tid sch is;
                    Some (r # rs, done) } }"

fun scan_leaves :: "nat \<Rightarrow> u32 \<Rightarrow> u32 \<Rightarrow> schema \<Rightarrow> (storage, row list) go" where
  "scan_leaves n leaf tid sch s =
     (if leaf = no_page_id then (Ok [], s)
      else case n of
        0 \<Rightarrow> (Stuck, s)
      | Suc m \<Rightarrow>
          bindG (fetch_page leaf) (\<lambda>p.
          bindG (of_option (scan_cells p tid sch [0..<unat (cell_count p)])) (\<lambda>(rs, done).
          bindG (modifyG (release_page leaf)) (\<lambda>_.
          if done then ret rs
          else bindG (scan_leaves m (next_leaf_id p) tid sch) (\<lambda>rs'. ret (rs @ rs'))))) s)"

declare scan_leaves.simps [simp del]

definition scan :: "nat \<Rightarrow> nat \<Rightarrow> u32 \<Rightarrow> schema \<Rightarrow> (storage, row list) go" where
  "scan n m tid sch =
     bindG (getsG (\<lambda>s. root_page_id (disk s))) (\<lambda>root.
     bindG (find_leftmost_leaf n root) (\<lambda>leaf. scan_leaves m leaf tid sch))"

section \<open>Splitting\<close>

text \<open>What a change of a subtree reports upwards: the split key and the id of the new right page,
  which is \<open>0\<close> when nothing was split.\<close>

type_synonym split = "u32 \<times> gvalue \<times> u32"

definition split_leaf :: "u32 \<Rightarrow> u32 \<Rightarrow> gvalue \<Rightarrow> row \<Rightarrow> schema \<Rightarrow> u64 \<Rightarrow> (storage, split) go" where
  "split_leaf i tid key r sch txn =
     bindG (on_err (on_disk (allocate_page type_leaf)) (release_page i)) (\<lambda>right_alloc.
     let ri = page_id right_alloc in
     bindG (on_err (fetch_page ri) (release_page i)) (\<lambda>right0.
     bindG (put_page ri (init_leaf_links right0)) (\<lambda>_.
     bindG (get_page i) (\<lambda>p.
     let old_next = next_leaf_id p in
     bindG (of_option (all_cells p)) (\<lambda>old_cells.
     bindG (of_option (encode_leaf_cell tid key r sch)) (\<lambda>new_cell.
     bindG (of_option (sort_cells (old_cells @ [new_cell]))) (\<lambda>cells.
     let mid = length cells div 2 in
     bindG (of_option (add_cells (take mid cells) (reset_page p))) (\<lambda>p1.
     bindG (of_option (add_cells (drop mid cells) (init_leaf_links right0))) (\<lambda>q1.
     bindG (put_page ri (set_next_leaf_id old_next q1)) (\<lambda>_.
     bindG (put_page i (set_next_leaf_id (page_id q1) p1)) (\<lambda>_.
     bindG (of_option (decode_composite_key (cells ! mid))) (\<lambda>(split_tid, split_key, _).
     bindG (on_err (finish_page i txn op_insert) (release_page ri)) (\<lambda>_.
     bindG (finish_page ri txn op_insert) (\<lambda>_.
     bindG (get_page ri) (\<lambda>q.
     ret (split_tid, split_key, page_id q))))))))))))))))"

definition split_internal :: "u32 \<Rightarrow> u32 \<Rightarrow> gvalue \<Rightarrow> u32 \<Rightarrow> u64 \<Rightarrow> (storage, split) go" where
  "split_internal i tid key right_child txn =
     bindG (on_err (on_disk (allocate_page type_internal)) (release_page i)) (\<lambda>right_alloc.
     let ri = page_id right_alloc in
     bindG (on_err (fetch_page ri) (release_page i)) (\<lambda>right0.
     bindG (get_page i) (\<lambda>p.
     let old_rightmost = rightmost_child p in
     bindG (of_option (all_cells p)) (\<lambda>old_cells.
     bindG (of_option (sort_cells (old_cells @ [encode_internal_cell tid key right_child]))) (\<lambda>cells.
     let mid = length cells div 2 in
     bindG (of_option (decode_composite_key (cells ! mid))) (\<lambda>(mid_tid, mid_key, _).
     bindG (of_option (add_cells (take mid cells) (reset_page p))) (\<lambda>p1.
     bindG (of_option (decode_internal_cell (cells ! mid))) (\<lambda>(_, _, mid_child).
     bindG (put_page i (set_rightmost_child mid_child p1)) (\<lambda>_.
     bindG (of_option (add_cells (drop (mid + 1) cells) right0)) (\<lambda>q1.
     bindG (put_page ri (set_rightmost_child old_rightmost q1)) (\<lambda>_.
     bindG (on_err (finish_page i txn op_insert) (release_page ri)) (\<lambda>_.
     bindG (finish_page ri txn op_insert) (\<lambda>_.
     bindG (get_page ri) (\<lambda>q.
     ret (mid_tid, mid_key, page_id q)))))))))))))))"

definition create_new_root :: "u32 \<Rightarrow> u32 \<Rightarrow> gvalue \<Rightarrow> u32 \<Rightarrow> u64 \<Rightarrow> (storage, unit) go" where
  "create_new_root old_root tid key right_page txn =
     bindG (on_disk (allocate_page type_internal)) (\<lambda>alloc.
     let ni = page_id alloc in
     bindG (fetch_page ni) (\<lambda>root0.
     bindG (of_option (add_cell (encode_internal_cell tid key old_root) root0)) (\<lambda>(_, root1).
     bindG (put_page ni (set_rightmost_child right_page root1)) (\<lambda>_.
     bindG (finish_page ni txn op_insert) (\<lambda>_.
     bindG (get_page ni) (\<lambda>q.
     on_disk (set_root_page_id (page_id q))))))))"

section \<open>Inserting\<close>

definition insert_into_leaf :: "u32 \<Rightarrow> u32 \<Rightarrow> gvalue \<Rightarrow> row \<Rightarrow> schema \<Rightarrow> u64 \<Rightarrow> (storage, split) go" where
  "insert_into_leaf i tid key r sch txn =
     bindG (get_page i) (\<lambda>p.
     bindG (of_option (encode_leaf_cell tid key r sch)) (\<lambda>cell.
     bindG (of_option (find_insert_pos p tid key)) (\<lambda>pos.
     bindG (of_option (insert_cell_at (int pos) cell p)) (\<lambda>(placed, p1).
     bindG (put_page i p1) (\<lambda>_.
     if placed then bindG (finish_page i txn op_insert) (\<lambda>_. ret (0, None, 0))
     else split_leaf i tid key r sch txn)))))"

text \<open>The search for the cell that points to \<open>childID\<close>.\<close>

fun child_slot :: "page \<Rightarrow> u32 \<Rightarrow> nat list \<Rightarrow> (nat \<times> u32 \<times> gvalue) option option" where
  "child_slot p child [] = Some None"
| "child_slot p child (i # is) =
     do { c \<leftarrow> cell_at i p;
          (kid, k, cid) \<leftarrow> decode_internal_cell c;
          if cid = child then Some (Some (i, kid, k)) else child_slot p child is }"

definition redirect_child :: "page \<Rightarrow> u32 \<Rightarrow> u32 \<Rightarrow> page option" where
  "redirect_child p child new_child =
     do { r \<leftarrow> child_slot p child [0..<unat (cell_count p)];
          case r of
            Some (i, kid, k) \<Rightarrow> overwrite_cell i (encode_internal_cell kid k new_child) p
          | None \<Rightarrow> Some (set_rightmost_child new_child p) }"

definition patch_internal_after_child_split ::
  "u32 \<Rightarrow> u32 \<Rightarrow> u32 \<Rightarrow> gvalue \<Rightarrow> u32 \<Rightarrow> u64 \<Rightarrow> (storage, split) go" where
  "patch_internal_after_child_split i child up_tid up_key new_child txn =
     (if new_child = 0 then bindG (modifyG (release_page i)) (\<lambda>_. ret (0, None, 0))
      else
        bindG (get_page i) (\<lambda>p.
        bindG (of_option (redirect_child p child new_child)) (\<lambda>p1.
        bindG (of_option (find_insert_pos p1 up_tid up_key)) (\<lambda>pos.
        bindG (of_option (insert_cell_at (int pos) (encode_internal_cell up_tid up_key child) p1)) (\<lambda>(placed, p2).
        bindG (put_page i p2) (\<lambda>_.
        if placed then bindG (finish_page i txn op_insert) (\<lambda>_. ret (0, None, 0))
        else split_internal i up_tid up_key child txn))))))"

text \<open>\<open>insertIntoInternal\<close> and \<open>updateIntoInternal\<close>, whose bodies differ in the recursive call only.\<close>

definition into_internal ::
  "(u32 \<Rightarrow> (storage, split) go) \<Rightarrow> u32 \<Rightarrow> u32 \<Rightarrow> gvalue \<Rightarrow> u64 \<Rightarrow> (storage, split) go" where
  "into_internal descend i tid key txn =
     bindG (get_page i) (\<lambda>p.
     bindG (of_option (find_child_page_id p tid key)) (\<lambda>child.
     bindG (on_err (descend child) (release_page i)) (\<lambda>(up_tid, up_key, new_child).
     patch_internal_after_child_split i child up_tid up_key new_child txn)))"

fun insert_recursive ::
  "nat \<Rightarrow> u32 \<Rightarrow> gvalue \<Rightarrow> row \<Rightarrow> schema \<Rightarrow> u64 \<Rightarrow> u32 \<Rightarrow> (storage, split) go" where
  "insert_recursive 0 tid key r sch txn pid = stuck"
| "insert_recursive (Suc n) tid key r sch txn pid =
     bindG (fetch_page pid) (\<lambda>p.
     if page_type p = type_leaf then insert_into_leaf pid tid key r sch txn
     else into_internal (insert_recursive n tid key r sch txn) pid tid key txn)"

definition insert_row :: "nat \<Rightarrow> u32 \<Rightarrow> gvalue \<Rightarrow> row \<Rightarrow> schema \<Rightarrow> u64 \<Rightarrow> (storage, unit) go" where
  "insert_row n tid key r sch txn =
     bindG (getsG (\<lambda>s. root_page_id (disk s))) (\<lambda>root.
     bindG (insert_recursive n tid key r sch txn root) (\<lambda>(up_tid, up_key, new_page).
     if new_page \<noteq> 0 then create_new_root root up_tid up_key new_page txn else ret ()))"

section \<open>Updating and deleting\<close>

definition update_leaf :: "u32 \<Rightarrow> u32 \<Rightarrow> gvalue \<Rightarrow> row \<Rightarrow> schema \<Rightarrow> u64 \<Rightarrow> (storage, split) go" where
  "update_leaf i tid key r sch txn =
     bindG (get_page i) (\<lambda>p.
     bindG (of_option (search_in_leaf p tid key)) (\<lambda>(idx, found).
     if \<not> found then bindG (modifyG (release_page i)) (\<lambda>_. fail EKeyNotFound)
     else
       bindG (of_option (delete_cell (int idx) p)) (\<lambda>p1.
       bindG (put_page i p1) (\<lambda>_.
       bindG (of_option (encode_leaf_cell tid key r sch)) (\<lambda>cell.
       bindG (of_option (find_insert_pos p1 tid key)) (\<lambda>pos.
       bindG (of_option (insert_cell_at (int pos) cell p1)) (\<lambda>(placed, p2).
       bindG (put_page i p2) (\<lambda>_.
       if placed then bindG (finish_page i txn op_update) (\<lambda>_. ret (0, None, 0))
       else split_leaf i tid key r sch txn))))))))"

fun update_recursive ::
  "nat \<Rightarrow> u32 \<Rightarrow> gvalue \<Rightarrow> row \<Rightarrow> schema \<Rightarrow> u64 \<Rightarrow> u32 \<Rightarrow> (storage, split) go" where
  "update_recursive 0 tid key r sch txn pid = stuck"
| "update_recursive (Suc n) tid key r sch txn pid =
     bindG (fetch_page pid) (\<lambda>p.
     if page_type p = type_leaf then update_leaf pid tid key r sch txn
     else into_internal (update_recursive n tid key r sch txn) pid tid key txn)"

definition update_row :: "nat \<Rightarrow> u32 \<Rightarrow> gvalue \<Rightarrow> row \<Rightarrow> schema \<Rightarrow> u64 \<Rightarrow> (storage, unit) go" where
  "update_row n tid key r sch txn =
     bindG (getsG (\<lambda>s. root_page_id (disk s))) (\<lambda>root.
     bindG (update_recursive n tid key r sch txn root) (\<lambda>(up_tid, up_key, new_page).
     if new_page \<noteq> 0 then create_new_root root up_tid up_key new_page txn else ret ()))"

definition delete_row :: "nat \<Rightarrow> u32 \<Rightarrow> gvalue \<Rightarrow> u64 \<Rightarrow> (storage, unit) go" where
  "delete_row n tid key txn =
     bindG (find_leaf n tid key) (\<lambda>leaf.
     bindG (fetch_page leaf) (\<lambda>p.
     bindG (of_option (search_in_leaf p tid key)) (\<lambda>(idx, found).
     if \<not> found then bindG (modifyG (release_page leaf)) (\<lambda>_. fail EKeyNotFound)
     else
       bindG (of_option (delete_cell (int idx) p)) (\<lambda>p1.
       bindG (put_page leaf p1) (\<lambda>_.
       finish_page leaf txn op_delete)))))"

section \<open>Opening a tree\<close>

definition new_btree :: "(storage, unit) go" where
  "new_btree s =
     (if root_page_id (disk s) = no_page_id
      then bindG (on_disk (allocate_page type_leaf)) (\<lambda>info.
           bindG (on_disk (write_page (init_leaf_links info))) (\<lambda>_.
           on_disk (set_root_page_id (page_id (init_leaf_links info))))) s
      else (Ok (), s))"

end
