(* ===== verification/BTree_Page.thy ===== *)
theory BTree_Page
  imports BTree
begin

text \<open>
  What the page-level parts of the B+-tree do to the list of cells of a page: collecting and
  refilling cells, overwriting a child pointer in place, and the three linear searches (child,
  cell, insertion position) on pages whose cells are sorted by key.
\<close>

section \<open>Page utilities on the list of cells\<close>

lemma all_cells_ok: "page_wf p \<Longrightarrow> all_cells p = Some (page_cells p)"
proof -
  assume wf: "page_wf p"
  have "copy_cells p is = Some (map (\<lambda>i. page_cells p ! i) is)" if "\<forall>i \<in> set is. i < length (page_cells p)" for "is"
    using that by (induction "is") (simp_all add: cell_at_ok [OF wf])
  from this [of "[0..<unat (cell_count p)]"] show ?thesis
    using map_nth [of "page_cells p"] by (simp add: all_cells_def)
qed

lemma reset_page_ok:
  assumes "length p = 4096"
  shows "page_wf (reset_page p)" "page_cells (reset_page p) = []" "free_space (reset_page p) = 4072"
    "same_header p (reset_page p)"
proof -
  have l: "length (reset_page p) = 4096"
    using assms by (simp add: reset_page_def)
  have c: "cell_count (reset_page p) = 0" "cell_content_offset (reset_page p) = 4096"
    using assms by (simp_all add: reset_page_def cell_count_def cell_content_offset_def sub_upd_same sub_upd_before)
  show "page_wf (reset_page p)" "page_cells (reset_page p) = []" "free_space (reset_page p) = 4072"
    using l c by (simp_all add: page_wf_def slots_def page_cells_def slot_offset_def free_space_nat)
  show "same_header p (reset_page p)"
    using assms l by (intro same_headerI) (simp_all add: reset_page_def sub_upd_after sub_upd_before)
qed

definition cells_size :: "byte list list \<Rightarrow> nat" where
  "cells_size cs = sum_list (map (\<lambda>c. length c + 4) cs)"

lemma cells_size_simps [simp]:
  "cells_size [] = 0" "cells_size (c # cs) = length c + 4 + cells_size cs"
  "cells_size (cs @ ds) = cells_size cs + cells_size ds"
  by (simp_all add: cells_size_def)

lemma add_cells_ok:
  assumes "page_wf p" "\<forall>c \<in> set cs. c \<noteq> []" "int (cells_size cs) \<le> free_space p"
  obtains q where "add_cells cs p = Some q" "page_wf q" "same_header p q"
    "page_cells q = page_cells p @ cs" "free_space q = free_space p - int (cells_size cs)"
  using assms
proof (induction cs arbitrary: p thesis)
  case Nil
  then show ?case by simp
next
  case (Cons c cs)
  have c: "c \<noteq> []" "int (length c) + 4 \<le> free_space p"
    using Cons.prems(3,4) by auto
  obtain q where q: "add_cell c p = Some (True, q)" "page_wf q" "same_header p q"
    "page_cells q = page_cells p @ [c]" "free_space q = free_space p - int (length c) - 4"
    by (rule add_cell_ok [OF Cons.prems(2) c])
  have fit: "\<forall>c \<in> set cs. c \<noteq> []" "int (cells_size cs) \<le> free_space q"
    using Cons.prems(3,4) q(5) by auto
  obtain r where r: "add_cells cs q = Some r" "page_wf r" "same_header q r"
    "page_cells r = page_cells q @ cs" "free_space r = free_space q - int (cells_size cs)"
    using Cons.IH [OF _ q(2) fit] by blast
  show ?case
    using r q by (intro Cons.prems(1) [of r]) (auto intro: same_header_trans)
qed

text \<open>A page never holds more than it can: the sizes of its cells and the free space.\<close>

lemma distinct_slots:
  "sorted_wrt disjoint_slots ss \<Longrightarrow> \<forall>s \<in> set ss. 0 < snd s \<Longrightarrow> distinct ss"
  by (induction ss) auto

lemma slots_size_bound:
  assumes "sorted_wrt disjoint_slots ss" "\<forall>s \<in> set ss. lo \<le> fst s \<and> 0 < snd s \<and> fst s + snd s \<le> hi"
  shows "sum_list (map snd ss) \<le> hi - lo"
proof -
  let ?I = "\<lambda>s :: nat \<times> nat. {fst s..<fst s + snd s}"
  have disj: "\<forall>s \<in> set ss. \<forall>t \<in> set ss. s \<noteq> t \<longrightarrow> ?I s \<inter> ?I t = {}"
  proof (intro ballI impI)
    fix s t
    assume "s \<in> set ss" "t \<in> set ss" "s \<noteq> t"
    then have "disjoint_slots s t \<or> disjoint_slots t s"
      using assms(1) by (metis in_set_conv_nth linorder_neqE_nat sorted_wrt_iff_nth_less)
    then show "?I s \<inter> ?I t = {}"
      by (cases s; cases t) auto
  qed
  have "sum_list (map snd ss) = (\<Sum>s \<in> set ss. snd s)"
    using distinct_slots [OF assms(1)] assms(2) by (simp add: sum_list_distinct_conv_sum_set)
  also have "\<dots> = (\<Sum>s \<in> set ss. card (?I s))"
    by simp
  also have "\<dots> = card (\<Union>s \<in> set ss. ?I s)"
    by (rule card_UN_disjoint [symmetric]) (use disj in simp_all)
  also have "\<dots> \<le> card {lo..<hi}"
    using assms(2) by (intro card_mono) fastforce+
  finally show ?thesis by simp
qed

lemma cells_size_bound:
  assumes "page_wf p"
  shows "int (cells_size (page_cells p)) + free_space p \<le> 4072"
proof -
  have sl: "unat (cell_content_offset p) \<le> fst s \<and> 0 < snd s \<and> fst s + snd s \<le> 4096" if "s \<in> set (slots p)" for s
    using page_wf_slot [OF assms, of "fst s" "snd s"] that by simp
  have "map length (page_cells p) = map snd (slots p)"
    using sl page_wf_length [OF assms] by (auto simp: page_cells_def split: prod.splits)
  moreover have "cells_size cs = sum_list (map length cs) + 4 * length cs" for cs
    by (induction cs) simp_all
  ultimately have "cells_size (page_cells p) = sum_list (map snd (slots p)) + 4 * length (slots p)"
    by simp
  moreover have "sum_list (map snd (slots p)) \<le> 4096 - unat (cell_content_offset p)"
    using slots_size_bound page_wf_disjoint [OF assms] sl by blast
  ultimately show ?thesis
    using page_wf_content [OF assms] page_wf_offset [OF assms]
    by (simp add: free_space_nat slot_offset_def)
qed

text \<open>Overwriting a cell with bytes of the same length.\<close>

lemma overwrite_cell_ok:
  assumes wf: "page_wf p" and i: "i < length (page_cells p)" and len: "length bs = length (page_cells p ! i)"
  obtains q where "overwrite_cell i bs p = Some q" "page_wf q" "same_header p q"
    "page_cells q = (page_cells p)[i := bs]" "free_space q = free_space p"
proof -
  note l = page_wf_length [OF wf]
  have i: "i < unat (cell_count p)" using i by simp
  obtain off n where on: "slots p ! i = (off, n)" by (cases "slots p ! i")
  then have s: "(off, n) \<in> set (slots p)"
    using i by (metis length_slots nth_mem)
  note b = page_wf_slot [OF wf s]
  have pc: "page_cells p ! i = sub off n p"
    using i on by (simp add: page_cells_def)
  have bs: "length bs = n"
    using len b l by (simp add: pc)
  have sa: "slot_at p i = (off, n)"
    using on i by (simp add: slots_def)
  have i4: "slot_offset i + 4 \<le> 4096"
    using slot_offset_mono [OF i] page_wf_offset [OF wf] page_wf_content [OF wf] by simp
  define q where "q = upd off bs p"
  have lq: "length q = 4096"
    using b l bs by (simp add: q_def)
  have near: "sub x k q = sub x k p" if "x + k \<le> unat (cell_content_offset p)" for x k
    using that b l bs unfolding q_def by (intro sub_upd_other) auto
  have h: "cell_count q = cell_count p" "cell_content_offset q = cell_content_offset p"
    using page_wf_offset [OF wf] by (simp_all add: cell_count_def cell_content_offset_def near slot_offset_def)
  have "slot_offset k + 4 \<le> unat (cell_content_offset p)" if "k < unat (cell_count p)" for k
    by (rule order.trans [OF slot_offset_mono [OF that] page_wf_offset [OF wf]])
  then have sl: "slots q = slots p"
    by (auto simp: slots_def h intro!: slot_at_cong near)
  have same: "sub off n q = bs"
    using b l bs by (simp add: q_def sub_upd_same)
  show thesis
  proof (rule that [of q])
    show "overwrite_cell i bs p = Some q"
      using get_slot_slot_at [of i p] i4 l sa cell_at_ok [OF wf, of i] i b
      by (simp add: overwrite_cell_def slot_at_def pc bs q_def)
    show "page_wf q"
      using wf lq by (simp add: page_wf_def sl h)
    show "same_header p q"
      using page_wf_offset [OF wf] by (intro same_headerI l lq) (auto simp: near slot_offset_def)
    show "free_space q = free_space p"
      by (simp add: free_space_nat h)
    show "page_cells q = (page_cells p)[i := bs]"
    proof (rule nth_equalityI)
      fix j
      assume "j < length (page_cells q)"
      then have j: "j < unat (cell_count p)" by (simp add: h)
      obtain o2 m where om: "slots p ! j = (o2, m)" by (cases "slots p ! j")
      then have s2: "(o2, m) \<in> set (slots p)"
        using j by (metis length_slots nth_mem)
      show "page_cells q ! j = (page_cells p)[i := bs] ! j"
      proof (cases "j = i")
        case True
        then show ?thesis
          using i j on same by (simp add: page_cells_def sl h)
      next
        case False
        then have "disjoint_slots (slots p ! i) (slots p ! j) \<or> disjoint_slots (slots p ! j) (slots p ! i)"
          using page_wf_disjoint [OF wf] i j by (metis length_slots linorder_neqE_nat sorted_wrt_iff_nth_less)
        then have "o2 + m \<le> off \<or> off + n \<le> o2"
          by (auto simp: on om)
        then have "sub o2 m q = sub o2 m p"
          unfolding q_def using b l bs by (intro sub_upd_other) auto
        then show ?thesis
          using False i j om by (simp add: page_cells_def sl h)
      qed
    qed (simp add: h)
  qed
qed

section \<open>Searching a page\<close>

definition cell_child :: "byte list \<Rightarrow> u32" where
  "cell_child c = (case decode_internal_cell c of Some (_, _, ch) \<Rightarrow> ch | None \<Rightarrow> 0)"

definition internal_ok :: "(u32 \<Rightarrow> value_kind) \<Rightarrow> byte list \<Rightarrow> bool" where
  "internal_ok kinds c \<longleftrightarrow> cell_ok kinds c \<and> decode_internal_cell c \<noteq> None"

fun child_of :: "byte list list \<Rightarrow> u32 \<Rightarrow> ckey \<Rightarrow> u32" where
  "child_of [] r k = r"
| "child_of (c # cs) r k = (if k < ckey c then cell_child c else child_of cs r k)"

lemma internal_ok_decode:
  assumes "internal_ok kinds c"
  obtains tid v where "decode_internal_cell c = Some (tid, Some v, cell_child c)" "ckey c = (tid, v)"
    "ckey_ok kinds (tid, v)"
proof -
  obtain tid v n where k: "decode_composite_key c = Some (tid, Some v, n)" "ckey c = (tid, v)"
    "ckey_ok kinds (tid, v)"
    using assms cell_ok_decode unfolding internal_ok_def by metis
  moreover obtain ch where "decode_internal_cell c = Some (tid, Some v, ch)"
    using assms k(1) unfolding internal_ok_def by (auto simp: decode_internal_cell_def bind_eq_Some_conv)
  ultimately show thesis
    using that by (simp add: cell_child_def)
qed

lemma compare_lt_iff:
  "ckey_ok kinds (s, v) \<Longrightarrow> ckey_ok kinds (t, w) \<Longrightarrow>
   \<exists>c. compare_composite_keys s (Some v) t (Some w) = Some c \<and>
     (c < 0 \<longleftrightarrow> (s, v) < (t, w)) \<and> (c = 0 \<longleftrightarrow> (s, v) = (t, w)) \<and> (c > 0 \<longleftrightarrow> (t, w) < (s, v))"
  using compare_composite_keys_ok [of kinds s v t w] by (auto simp del: less_prod_simp)

lemma child_loop_ok:
  assumes wf: "page_wf p" and key: "ckey_ok kinds (tid, v)"
    and "\<forall>i \<in> set is. i < length (page_cells p) \<and> internal_ok kinds (page_cells p ! i)"
  shows "child_loop p tid (Some v) is = Some (child_of (map ((!) (page_cells p)) is) (rightmost_child p) (tid, v))"
  using assms(3)
proof (induction "is")
  case (Cons i "is")
  let ?c = "page_cells p ! i"
  have i: "cell_at i p = Some ?c"
    using Cons.prems cell_at_ok [OF wf] by simp
  obtain t w where d: "decode_internal_cell ?c = Some (t, Some w, cell_child ?c)" "ckey ?c = (t, w)"
    "ckey_ok kinds (t, w)"
    using Cons.prems internal_ok_decode by (metis list.set_intros(1))
  obtain x where x: "compare_composite_keys tid (Some v) t (Some w) = Some x" "x < 0 \<longleftrightarrow> (tid, v) < (t, w)"
    using compare_lt_iff [OF key d(3)] by blast
  show ?case
    using Cons.IH Cons.prems i d(1,2) x by (simp del: less_prod_simp)
qed simp

lemma find_child_ok:
  assumes "page_wf p" "ckey_ok kinds (tid, v)" "\<forall>c \<in> set (page_cells p). internal_ok kinds c"
  shows "find_child_page_id p tid (Some v) = Some (child_of (page_cells p) (rightmost_child p) (tid, v))"
proof -
  have "map ((!) (page_cells p)) [0..<unat (cell_count p)] = page_cells p"
    using map_nth [of "page_cells p"] by simp
  then show ?thesis
    using child_loop_ok [OF assms(1,2), of "[0..<unat (cell_count p)]"] assms(3)
    by (simp add: find_child_page_id_def)
qed

text \<open>The walk of \<open>searchInLeaf\<close> and of \<open>findInsertPos\<close> over a strictly sorted page.\<close>

definition pos_of :: "byte list list \<Rightarrow> ckey \<Rightarrow> nat" where
  "pos_of cs k = length (takeWhile (\<lambda>c. \<not> k < ckey c) cs)"

lemma insert_pos_loop_ok:
  assumes wf: "page_wf p" and key: "ckey_ok kinds (tid, v)" and cs: "\<forall>c \<in> set (page_cells p). cell_ok kinds c"
    and "i \<le> length (page_cells p)"
  shows "insert_pos_loop p tid (Some v) [i..<unat (cell_count p)] = Some (i + pos_of (drop i (page_cells p)) (tid, v))"
  using assms(4)
proof (induction "unat (cell_count p) - i" arbitrary: i)
  case 0
  then show ?case by (simp add: pos_of_def)
next
  case (Suc m)
  then have i: "i < unat (cell_count p)" by simp
  let ?c = "page_cells p ! i"
  have ca: "cell_at i p = Some ?c" and ok: "cell_ok kinds ?c"
    using i cell_at_ok [OF wf] cs by simp_all
  obtain t w n where d: "decode_composite_key ?c = Some (t, Some w, n)" "ckey ?c = (t, w)" "ckey_ok kinds (t, w)"
    using ok by (rule cell_ok_decode)
  obtain x where x: "compare_composite_keys t (Some w) tid (Some v) = Some x" "x > 0 \<longleftrightarrow> (tid, v) < (t, w)"
    using compare_lt_iff [OF d(3) key] by blast
  have dr: "drop i (page_cells p) = ?c # drop (Suc i) (page_cells p)"
    using i by (simp add: Cons_nth_drop_Suc)
  have u: "[i..<unat (cell_count p)] = i # [Suc i..<unat (cell_count p)]"
    using i by (rule upt_conv_Cons)
  have IH: "insert_pos_loop p tid (Some v) [Suc i..<unat (cell_count p)] =
      Some (Suc i + pos_of (drop (Suc i) (page_cells p)) (tid, v))"
    using Suc by (intro Suc.hyps(1)) auto
  show ?case
    unfolding u dr using ca d(1,2) x IH by (simp add: pos_of_def del: less_prod_simp)
qed

lemma find_insert_pos_ok:
  assumes "page_wf p" "ckey_ok kinds (tid, v)" "\<forall>c \<in> set (page_cells p). cell_ok kinds c"
  shows "find_insert_pos p tid (Some v) = Some (pos_of (page_cells p) (tid, v))"
  using insert_pos_loop_ok [OF assms, of 0] by (simp add: find_insert_pos_def)

lemma pos_of_split:
  assumes "cs = us @ vs" "\<forall>c \<in> set us. ckey c \<le> k" "\<forall>c \<in> set vs. k < ckey c"
  shows "pos_of cs k = length us"
proof -
  have "takeWhile (\<lambda>c. \<not> k < ckey c) vs = []"
    using assms(3) by (cases vs) auto
  then show ?thesis
    unfolding pos_of_def assms(1) using assms(2) by (simp add: takeWhile_append2 not_less)
qed

lemma search_loop_ok:
  assumes wf: "page_wf p" and key: "ckey_ok kinds (tid, v)" and cs: "\<forall>c \<in> set (page_cells p). cell_ok kinds c"
    and sorted: "sorted_wrt (<) (map ckey (page_cells p))" and "i \<le> length (page_cells p)"
    and before: "\<forall>j < i. ckey (page_cells p ! j) < (tid, v)"
  shows "search_loop p tid (Some v) [i..<unat (cell_count p)] =
    Some (if (tid, v) \<in> ckey ` set (page_cells p)
          then (pos_of (page_cells p) (tid, v) - 1, True) else (0, False))"
  using assms(5,6)
proof (induction "unat (cell_count p) - i" arbitrary: i)
  case 0
  then have "(tid, v) \<notin> ckey ` set (page_cells p)"
    by (auto simp: in_set_conv_nth)
  with 0 show ?case by simp
next
  case (Suc m)
  then have i: "i < unat (cell_count p)" by simp
  let ?c = "page_cells p ! i"
  have ca: "cell_at i p = Some ?c" and ok: "cell_ok kinds ?c"
    using i cell_at_ok [OF wf] cs by simp_all
  obtain t w n where d: "decode_composite_key ?c = Some (t, Some w, n)" "ckey ?c = (t, w)" "ckey_ok kinds (t, w)"
    using ok by (rule cell_ok_decode)
  obtain x where x: "compare_composite_keys t (Some w) tid (Some v) = Some x"
    "x < 0 \<longleftrightarrow> (t, w) < (tid, v)" "x = 0 \<longleftrightarrow> (t, w) = (tid, v)" "x > 0 \<longleftrightarrow> (tid, v) < (t, w)"
    using compare_lt_iff [OF d(3) key] by blast
  have u: "[i..<unat (cell_count p)] = i # [Suc i..<unat (cell_count p)]"
    using i by (rule upt_conv_Cons)
  have srt: "ckey (page_cells p ! a) < ckey (page_cells p ! b)" if "a < b" "b < unat (cell_count p)" for a b
    using sorted that by (simp add: sorted_wrt_iff_nth_less)
  consider (eq) "(t, w) = (tid, v)" | (gt) "(tid, v) < (t, w)" | (lt) "(t, w) < (tid, v)"
    by (metis linorder_less_linear)
  then show ?case
  proof cases
    case eq
    have "page_cells p = take (Suc i) (page_cells p) @ drop (Suc i) (page_cells p)"
      by simp
    moreover have "\<forall>c \<in> set (take (Suc i) (page_cells p)). ckey c \<le> (tid, v)"
      using Suc.prems(2) d(2) eq i
      by (auto simp: in_set_conv_nth less_Suc_eq order.order_iff_strict)
    moreover have "\<forall>c \<in> set (drop (Suc i) (page_cells p)). (tid, v) < ckey c"
      using srt [of i] d(2) eq i by (auto simp: in_set_conv_nth simp del: less_prod_simp)
    ultimately have "pos_of (page_cells p) (tid, v) = Suc i"
      using pos_of_split [of "page_cells p" "take (Suc i) (page_cells p)" "drop (Suc i) (page_cells p)"] i by simp
    moreover have "(tid, v) \<in> ckey ` set (page_cells p)"
      using d(2) eq i by (metis image_eqI length_page_cells nth_mem)
    ultimately show ?thesis
      unfolding u using ca d(1) x eq by simp
  next
    case gt
    have "ckey (page_cells p ! j) \<noteq> (tid, v)" if j: "j < unat (cell_count p)" for j
    proof (cases "j < i")
      case True
      then show ?thesis
        using Suc.prems(2) by (metis less_irrefl)
    next
      case False
      then have "(t, w) \<le> ckey (page_cells p ! j)"
        using srt [of i j] j d(2) by (metis linorder_neqE_nat order.order_iff_strict)
      then show ?thesis
        using gt by (metis leD)
    qed
    then have "(tid, v) \<notin> ckey ` set (page_cells p)"
      by (metis (no_types, lifting) image_iff in_set_conv_nth length_page_cells)
    moreover have "x \<noteq> 0" "0 < x"
      using x(3,4) gt by (metis less_irrefl)+
    ultimately show ?thesis
      unfolding u using ca d(1) x(1) by simp
  next
    case lt
    have "search_loop p tid (Some v) [Suc i..<unat (cell_count p)] =
      Some (if (tid, v) \<in> ckey ` set (page_cells p)
          then (pos_of (page_cells p) (tid, v) - 1, True) else (0, False))"
      using Suc lt d(2) by (intro Suc.hyps(1)) (auto simp: less_Suc_eq)
    moreover have "x \<noteq> 0" "\<not> 0 < x"
      using x(3,4) lt by (metis less_irrefl less_asym)+
    ultimately show ?thesis
      unfolding u using ca d(1) x(1) by simp
  qed
qed

lemma search_in_leaf_ok:
  assumes "page_wf p" "ckey_ok kinds (tid, v)" "\<forall>c \<in> set (page_cells p). cell_ok kinds c"
    "sorted_wrt (<) (map ckey (page_cells p))"
  shows "search_in_leaf p tid (Some v) =
    Some (if (tid, v) \<in> ckey ` set (page_cells p)
          then (pos_of (page_cells p) (tid, v) - 1, True) else (0, False))"
  using search_loop_ok [OF assms, of 0] by (simp add: search_in_leaf_def)

end
