(* ===== verification/Recovery.thy ===== *)
theory Recovery
  imports Wal
begin

text \<open>
  \<open>storage/btree/recovery.go\<close>: after a crash the committed page images of the log are written
  back to the disk. Go ranges over the map \<open>latest\<close> in an order that differs from run to run: the
  argument \<open>visit\<close> of \<open>recover_in\<close> is that order, any rearrangement of the entries.
\<close>

section \<open>Recover\<close>

definition is_committed :: "log_record list \<Rightarrow> u64 \<Rightarrow> bool" where
  "is_committed rs t \<longleftrightarrow> list_ex (\<lambda>r. r_op r = op_commit \<and> r_txn r = t) rs"

definition is_page_op :: "u8 \<Rightarrow> bool" where
  "is_page_op op \<longleftrightarrow> op = op_insert \<or> op = op_update \<or> op = op_delete"

definition latest_step ::
  "(u64 \<Rightarrow> bool) \<Rightarrow> log_record \<Rightarrow> (u32 \<times> log_record) list \<Rightarrow> (u32 \<times> log_record) list" where
  "latest_step committed r m =
     (if \<not> is_page_op (r_op r) then m
      else if \<not> committed (r_txn r) then m
      else case map_of m (r_page r) of
             None \<Rightarrow> AList.update (r_page r) r m
           | Some cur \<Rightarrow> if r_lsn r > r_lsn cur then AList.update (r_page r) r m else m)"

definition latest_images :: "log_record list \<Rightarrow> (u32 \<times> log_record) list" where
  "latest_images rs = fold (latest_step (is_committed rs)) rs []"

fun write_images :: "(u32 \<times> log_record) list \<Rightarrow> (disk_mgr, unit) go" where
  "write_images [] dm = (Ok (), dm)"
| "write_images ((i, r) # m) dm =
     bindG (of_option (from_bytes (redo_data r))) (\<lambda>p.
     bindG (write_page p) (\<lambda>_. write_images m)) dm"

definition recover_in :: "((u32 \<times> log_record) list \<Rightarrow> (u32 \<times> log_record) list) \<Rightarrow> wal_mgr \<Rightarrow> (disk_mgr, unit) go" where
  "recover_in visit wm dm =
     (case wal_read_all wm of
        Ok rs \<Rightarrow> write_images (visit (latest_images rs)) dm
      | Err e \<Rightarrow> (Err e, dm)
      | Panic \<Rightarrow> (Panic, dm)
      | Stuck \<Rightarrow> (Stuck, dm))"

definition range_order :: "('a list \<Rightarrow> 'a list) \<Rightarrow> bool" where
  "range_order visit \<longleftrightarrow> (\<forall>m. mset (visit m) = mset m)"

text \<open>One run: the order is that in which the pages first appear in the log. The order does not show in the
  pages (\<open>recover_redoes_committed\<close>).\<close>

definition recover :: "wal_mgr \<Rightarrow> (disk_mgr, unit) go" where
  "recover = recover_in (\<lambda>m. m)"

section \<open>The latest committed image of a page\<close>

text \<open>The last record of the log that carries an image of page \<open>i\<close> by a committed transaction.\<close>

definition image_of :: "log_record list \<Rightarrow> u32 \<Rightarrow> log_record \<Rightarrow> bool" where
  "image_of rs i r \<longleftrightarrow> is_page_op (r_op r) \<and> is_committed rs (r_txn r) \<and> r_page r = i"

definition committed_images :: "log_record list \<Rightarrow> u32 \<Rightarrow> log_record list" where
  "committed_images rs i = filter (image_of rs i) rs"

lemma latest_step_distinct:
  "distinct (map fst m) \<Longrightarrow> distinct (map fst (latest_step c r m))"
  by (simp add: latest_step_def distinct_update split: option.split)

lemma fold_latest_distinct:
  "distinct (map fst m) \<Longrightarrow> distinct (map fst (fold (latest_step c) rs m))"
  by (induction rs arbitrary: m) (simp_all add: latest_step_distinct)

lemma fold_latest_lookup:
  assumes "sorted_wrt (\<lambda>a b. r_lsn a < r_lsn b) rs" "\<And>r. map_of m i = Some r \<Longrightarrow> \<forall>x \<in> set rs. r_lsn r < r_lsn x"
  shows "map_of (fold (latest_step c) rs m) i =
    (let is = filter (\<lambda>r. is_page_op (r_op r) \<and> c (r_txn r) \<and> r_page r = i) rs
     in if is = [] then map_of m i else Some (last is))"
  using assms
proof (induction rs arbitrary: m)
  case Nil
  then show ?case by simp
next
  case (Cons r rs)
  have up: "map_of (latest_step c r m) j =
      (if is_page_op (r_op r) \<and> c (r_txn r) \<and> r_page r = j then Some r else map_of m j)" if "j = i" for j
    using Cons.prems(2) that by (auto simp: latest_step_def update_conv split: option.split)
  have "map_of (fold (latest_step c) rs (latest_step c r m)) i =
    (let is = filter (\<lambda>r. is_page_op (r_op r) \<and> c (r_txn r) \<and> r_page r = i) rs
     in if is = [] then map_of (latest_step c r m) i else Some (last is))"
    using Cons.prems up by (intro Cons.IH) (auto split: if_splits)
  then show ?case
    using up [OF refl] by (auto simp: Let_def)
qed

lemma latest_images_lookup:
  assumes "sorted_wrt (\<lambda>a b. r_lsn a < r_lsn b) rs"
  shows "map_of (latest_images rs) i =
    (if committed_images rs i = [] then None else Some (last (committed_images rs i)))"
  using fold_latest_lookup [of rs "[]" i "is_committed rs"] assms
  by (simp add: latest_images_def committed_images_def image_of_def [abs_def] Let_def)

lemma distinct_latest_images: "distinct (map fst (latest_images rs))"
  by (simp add: latest_images_def fold_latest_distinct)

section \<open>Recovery writes exactly those images\<close>

definition image_ok :: "u32 \<Rightarrow> u32 \<Rightarrow> log_record \<Rightarrow> bool" where
  "image_ok next i r \<longleftrightarrow> length (redo_data r) = page_size \<and> page_id (redo_data r) = i \<and> i < next"

lemma write_images_ok:
  assumes "disk_ok dm" "distinct (map fst m)" "\<forall>(i, r) \<in> set m. image_ok (next_page_id dm) i r"
  obtains dm' where "write_images m dm = (Ok (), dm')" "disk_ok dm'"
    "root_page_id dm' = root_page_id dm" "next_page_id dm' = next_page_id dm"
    "disk_view dm' = (\<lambda>i. case map_of m i of Some r \<Rightarrow> Some (redo_data r) | None \<Rightarrow> disk_view dm i)"
  using assms
proof (induction m arbitrary: dm thesis)
  case Nil
  then show ?case by simp
next
  case (Cons x m)
  obtain i r where x: "x = (i, r)" by (cases x)
  have r: "length (redo_data r) = 4096" "page_id (redo_data r) = i" "i < next_page_id dm"
    using Cons.prems(4) by (auto simp: x image_ok_def)
  obtain d1 where d1: "write_page (redo_data r) dm = (Ok (), d1)" "disk_ok d1"
    "disk_view d1 = (disk_view dm)(i \<mapsto> redo_data r)"
    "root_page_id d1 = root_page_id dm" "next_page_id d1 = next_page_id dm"
    using write_page_ok [OF Cons.prems(2) r(1)] r(2,3) by auto
  have d: "distinct (map fst m)" "map_of m i = None"
    using Cons.prems(3) by (auto simp: x map_of_eq_None_iff)
  obtain d2 where d2: "write_images m d1 = (Ok (), d2)" "disk_ok d2"
    "root_page_id d2 = root_page_id d1" "next_page_id d2 = next_page_id d1"
    "disk_view d2 = (\<lambda>i. case map_of m i of Some r \<Rightarrow> Some (redo_data r) | None \<Rightarrow> disk_view d1 i)"
    using Cons.IH [OF _ d1(2) d(1)] Cons.prems(4) d1(5) by auto
  show ?case
  proof (rule Cons.prems(1) [of d2])
    show "write_images (x # m) dm = (Ok (), d2)"
      using r(1) d1(1) d2(1) by (simp add: x from_bytes_def bindG_def)
    show "disk_view d2 = (\<lambda>j. case map_of (x # m) j of Some r \<Rightarrow> Some (redo_data r) | None \<Rightarrow> disk_view dm j)"
      using d(2) by (auto simp: d2(5) d1(3) x fun_eq_iff split: option.split)
  qed (use d1 d2 in simp_all)
qed

text \<open>The log agrees with the disk it belongs to: LSNs increase, and every page image is a whole
  page with its own number, allocated on the disk.\<close>

definition log_ok :: "u32 \<Rightarrow> log_record list \<Rightarrow> bool" where
  "log_ok next rs \<longleftrightarrow> sorted_wrt (\<lambda>a b. r_lsn a < r_lsn b) rs \<and>
     (\<forall>r \<in> set rs. is_page_op (r_op r) \<longrightarrow> image_ok next (r_page r) r)"

definition recovered :: "log_record list \<Rightarrow> (u32 \<Rightarrow> page option) \<Rightarrow> u32 \<Rightarrow> page option" where
  "recovered rs d i =
     (if committed_images rs i = [] then d i else Some (redo_data (last (committed_images rs i))))"

lemma committed_images_last:
  assumes "committed_images rs i \<noteq> []"
  shows "last (committed_images rs i) \<in> set rs" "image_of rs i (last (committed_images rs i))"
  using last_in_set [OF assms] by (simp_all add: committed_images_def)

lemma latest_images_ok:
  assumes "log_ok next rs"
  shows "\<forall>(i, r) \<in> set (latest_images rs). image_ok next i r"
proof clarify
  fix i r
  assume "(i, r) \<in> set (latest_images rs)"
  then have "map_of (latest_images rs) i = Some r"
    using distinct_latest_images by (rule map_of_is_SomeI [rotated])
  then have "committed_images rs i \<noteq> []" "r = last (committed_images rs i)"
    using latest_images_lookup [of rs i] assms by (auto simp: log_ok_def split: if_splits)
  then show "image_ok next i r"
    using committed_images_last [of rs i] assms by (auto simp: log_ok_def image_of_def)
qed

lemma range_order_id [simp]: "range_order (\<lambda>m. m)" and range_order_rev [simp]: "range_order rev"
  by (simp_all add: range_order_def)

lemma same_entries:
  assumes "range_order visit" "distinct (map fst m)"
  shows "distinct (map fst (visit m))" "set (visit m) = set m" "map_of (visit m) = map_of m"
proof -
  have e: "mset (visit m) = mset m"
    using assms(1) by (simp add: range_order_def)
  then show s: "set (visit m) = set m"
    by (rule mset_eq_setD)
  have "mset (map fst (visit m)) = mset (map fst m)"
    by (simp add: e)
  then show d: "distinct (map fst (visit m))"
    using assms(2) mset_eq_imp_distinct_iff by blast
  show "map_of (visit m) = map_of m"
    using s d assms(2) by (simp add: map_of_inject_set)
qed

lemma recover_in_ok:
  assumes dm: "disk_ok dm" and rd: "wal_read_all wm = Ok rs" and log: "log_ok (next_page_id dm) rs" and v: "range_order visit"
  obtains dm' where "recover_in visit wm dm = (Ok (), dm')" "disk_ok dm'" "disk_view dm' = recovered rs (disk_view dm)"
    "root_page_id dm' = root_page_id dm" "next_page_id dm' = next_page_id dm"
proof -
  note same = same_entries [OF v distinct_latest_images, of rs]
  have im: "\<forall>(i, r) \<in> set (visit (latest_images rs)). image_ok (next_page_id dm) i r"
    using latest_images_ok [OF log] by (simp only: same(2))
  obtain dm' where d: "write_images (visit (latest_images rs)) dm = (Ok (), dm')" "disk_ok dm'"
    "root_page_id dm' = root_page_id dm" "next_page_id dm' = next_page_id dm"
    "disk_view dm' = (\<lambda>i. case map_of (latest_images rs) i of Some r \<Rightarrow> Some (redo_data r) | None \<Rightarrow> disk_view dm i)"
    by (rule write_images_ok [OF dm same(1) im]) (simp only: same(3))
  show thesis
  proof (rule that [of dm'])
    show "recover_in visit wm dm = (Ok (), dm')"
      by (simp add: recover_in_def rd d(1))
    show "disk_view dm' = recovered rs (disk_view dm)"
      using log by (auto simp: d(5) recovered_def fun_eq_iff log_ok_def latest_images_lookup)
  qed (use d in simp_all)
qed

lemma recover_ok:
  assumes "disk_ok dm" "wal_read_all wm = Ok rs" "log_ok (next_page_id dm) rs"
  obtains dm' where "recover wm dm = (Ok (), dm')" "disk_ok dm'" "disk_view dm' = recovered rs (disk_view dm)"
    "root_page_id dm' = root_page_id dm" "next_page_id dm' = next_page_id dm"
  unfolding recover_def by (rule recover_in_ok [OF assms range_order_id])

section \<open>What a log says of a page\<close>

text \<open>A reading of the log that does not use the code: a transaction ends with the first of its records that is a
  \<open>COMMIT\<close> or an \<open>ABORT\<close>, and its earlier changes count when that record is a \<open>COMMIT\<close>. \<open>redone rs i\<close> are the images of
  page \<open>i\<close> that count, in the order of the log.\<close>

fun ends_in_commit :: "u64 \<Rightarrow> log_record list \<Rightarrow> bool" where
  "ends_in_commit t [] \<longleftrightarrow> False"
| "ends_in_commit t (r # rs) \<longleftrightarrow>
     (if r_txn r = t \<and> r_op r \<in> {op_commit, op_abort} then r_op r = op_commit else ends_in_commit t rs)"

fun redone :: "log_record list \<Rightarrow> u32 \<Rightarrow> page list" where
  "redone [] i = []"
| "redone (r # rs) i =
     (if r_op r \<in> {op_insert, op_update, op_delete} \<and> r_page r = i \<and> ends_in_commit (r_txn r) rs
      then redo_data r # redone rs i else redone rs i)"

text \<open>No transaction id is used again after the end of its transaction. The code does not see to this across restarts:
  ids start at 1 again.\<close>

fun ids_used_once :: "log_record list \<Rightarrow> bool" where
  "ids_used_once [] \<longleftrightarrow> True"
| "ids_used_once (r # rs) \<longleftrightarrow> (r_op r \<in> {op_commit, op_abort} \<longrightarrow> (\<forall>x \<in> set rs. r_txn x \<noteq> r_txn r)) \<and> ids_used_once rs"

lemma ids_used_once_append:
  "ids_used_once (xs @ ys) \<longleftrightarrow> ids_used_once xs \<and> ids_used_once ys \<and>
     (\<forall>x \<in> set xs. r_op x \<in> {op_commit, op_abort} \<longrightarrow> (\<forall>y \<in> set ys. r_txn y \<noteq> r_txn x))"
  by (induction xs) auto

lemma ends_in_commit_iff: "ids_used_once rs \<Longrightarrow> ends_in_commit t rs \<longleftrightarrow> is_committed rs t"
  by (induction rs) (auto simp: is_committed_def list_ex_iff)

lemma image_of_suffix:
  assumes "ids_used_once (xs @ r # rs)"
  shows "image_of (xs @ r # rs) i r \<longleftrightarrow>
    r_op r \<in> {op_insert, op_update, op_delete} \<and> r_page r = i \<and> ends_in_commit (r_txn r) rs"
proof -
  have "\<not> is_committed xs (r_txn r)" and rs: "ids_used_once rs"
    using assms by (auto simp: ids_used_once_append is_committed_def list_ex_iff)
  then have "is_committed (xs @ r # rs) (r_txn r) \<longleftrightarrow> ends_in_commit (r_txn r) rs" if "r_op r \<in> {op_insert, op_update, op_delete}"
    using that unfolding ends_in_commit_iff [OF rs] by (auto simp: is_committed_def op_insert_def op_update_def op_delete_def op_commit_def)
  then show ?thesis
    by (auto simp: image_of_def is_page_op_def)
qed

lemma committed_images_redone: "ids_used_once rs \<Longrightarrow> map redo_data (committed_images rs i) = redone rs i"
proof -
  have "ids_used_once (xs @ rs) \<Longrightarrow> map redo_data (filter (image_of (xs @ rs) i) rs) = redone rs i" for xs
  proof (induction rs arbitrary: xs)
    case (Cons r rs)
    have "map redo_data (filter (image_of (xs @ r # rs) i) rs) = redone rs i"
      using Cons.IH [of "xs @ [r]"] Cons.prems by simp
    with image_of_suffix [OF Cons.prems, of i] show ?case
      by simp
  qed simp
  from this [of "[]"] show "ids_used_once rs \<Longrightarrow> map redo_data (committed_images rs i) = redone rs i"
    by (simp add: committed_images_def)
qed

lemma recovered_redone:
  "ids_used_once rs \<Longrightarrow> recovered rs d i = (if redone rs i = [] then d i else Some (last (redone rs i)))"
  by (simp add: recovered_def last_map flip: committed_images_redone)

lemma recovered_idem [simp]: "recovered rs (recovered rs d) = recovered rs d"
  by (simp add: recovered_def fun_eq_iff)

text \<open>A crash in the middle of recovery: some of the images are written. Recovering again completes it.\<close>

lemma recovered_override:
  assumes "set m \<subseteq> set (latest_images rs)" "log_ok next rs"
  shows "recovered rs (\<lambda>i. case map_of m i of Some r \<Rightarrow> Some (redo_data r) | None \<Rightarrow> d i) = recovered rs d"
proof
  fix i
  show "recovered rs (\<lambda>i. case map_of m i of Some r \<Rightarrow> Some (redo_data r) | None \<Rightarrow> d i) i = recovered rs d i"
  proof (cases "map_of m i")
    case (Some r)
    then have "(i, r) \<in> set (latest_images rs)"
      using assms(1) map_of_SomeD by fastforce
    then have "map_of (latest_images rs) i = Some r"
      using distinct_latest_images by (rule map_of_is_SomeI [rotated])
    then have "committed_images rs i \<noteq> []"
      using latest_images_lookup [of rs i] assms(2) by (auto simp: log_ok_def split: if_splits)
    then show ?thesis
      by (simp add: recovered_def)
  qed (simp add: recovered_def)
qed

lemma recover_after_partial:
  assumes dm: "disk_ok dm" and rd: "wal_read_all wm = Ok rs" and log: "log_ok (next_page_id dm) rs"
    and v: "range_order visit" "range_order visit'"
  obtains dm1 dm2 where "write_images (take k (visit (latest_images rs))) dm = (Ok (), dm1)"
    "recover_in visit' wm dm1 = (Ok (), dm2)" "disk_view dm2 = recovered rs (disk_view dm)"
proof -
  let ?m = "take k (visit (latest_images rs))"
  note same = same_entries [OF v(1) distinct_latest_images, of rs]
  have sub: "set ?m \<subseteq> set (latest_images rs)"
    using set_take_subset unfolding same(2) [symmetric] .
  have d: "distinct (map fst ?m)"
    unfolding take_map [symmetric] using same(1) by (rule distinct_take)
  have im: "\<forall>(i, r) \<in> set ?m. image_ok (next_page_id dm) i r"
    using latest_images_ok [OF log] sub by blast
  from write_images_ok [OF dm d im] obtain dm1 where dm1: "write_images ?m dm = (Ok (), dm1)" "disk_ok dm1"
    "next_page_id dm1 = next_page_id dm"
    "disk_view dm1 = (\<lambda>i. case map_of ?m i of Some r \<Rightarrow> Some (redo_data r) | None \<Rightarrow> disk_view dm i)"
    by blast
  obtain dm2 where dm2: "recover_in visit' wm dm1 = (Ok (), dm2)" "disk_view dm2 = recovered rs (disk_view dm1)"
    using recover_in_ok [OF dm1(2) rd _ v(2)] log unfolding dm1(3) by blast
  show thesis
    using that [OF dm1(1) dm2(1)] dm2(2) recovered_override [OF sub log] by (simp add: dm1(4))
qed

section \<open>Properties\<close>

text \<open>C5. Recovery, in whatever order it visits the pages: it writes to every page the last image by a transaction that the log
  ends with a \<open>COMMIT\<close>, whatever LSN the page on the disk carries, and leaves every page without such an image as it is;
  the root page and the number of pages stay what the header says. (No transaction id may be used again in the log after
  its transaction has ended.)\<close>

theorem recover_redoes_committed:
  assumes "disk_ok dm" "wal_read_all wm = Ok rs" "log_ok (next_page_id dm) rs" "ids_used_once rs" "range_order visit"
  shows "\<exists>dm'. recover_in visit wm dm = (Ok (), dm') \<and> disk_ok dm' \<and>
    root_page_id dm' = root_page_id dm \<and> next_page_id dm' = next_page_id dm \<and>
    (\<forall>i. disk_view dm' i = (if redone rs i = [] then disk_view dm i else Some (last (redone rs i))))"
  by (rule recover_in_ok [OF assms(1-3,5)]) (simp add: recovered_redone [OF assms(4)])

text \<open>An id that is used again: the image of a transaction that was rolled back is written to its page when a later
  transaction with the same id commits.\<close>

theorem reused_id_redoes_aborted:
  assumes "disk_ok dm" "wal_read_all wm = Ok [r, a, c]" "log_ok (next_page_id dm) [r, a, c]" "range_order visit"
    and "r_op r = op_insert" "r_op a = op_abort" "r_op c = op_commit" "r_txn a = r_txn r" "r_txn c = r_txn r"
  shows "\<exists>dm'. recover_in visit wm dm = (Ok (), dm') \<and> disk_view dm' (r_page r) = Some (redo_data r) \<and>
    redone [r, a, c] (r_page r) = []"
proof -
  have "committed_images [r, a, c] (r_page r) = [r]"
    using assms(5-9) by (simp add: committed_images_def image_of_def is_page_op_def is_committed_def op_insert_def op_update_def
      op_delete_def op_abort_def op_commit_def)
  then have "recovered [r, a, c] d (r_page r) = Some (redo_data r)" for d
    by (simp add: recovered_def)
  moreover have "redone [r, a, c] (r_page r) = []"
    using assms(5-9) by (simp add: op_insert_def op_update_def op_delete_def op_abort_def op_commit_def)
  moreover obtain dm' where "recover_in visit wm dm = (Ok (), dm')" "disk_view dm' = recovered [r, a, c] (disk_view dm)"
    by (rule recover_in_ok [OF assms(1-4)])
  ultimately show ?thesis
    by auto
qed

text \<open>C14. A recovery that is interrupted after any number of its page writes, in whatever order it makes them, and then run
  again ends with the same pages as an undisturbed recovery, whatever the orders of these two.\<close>

theorem recover_restartable:
  assumes "disk_ok dm" "wal_read_all wm = Ok rs" "log_ok (next_page_id dm) rs"
    and "range_order visit1" "range_order visit2" "range_order visit3"
  shows "\<exists>dm1 dm2 dm3. write_images (take k (visit1 (latest_images rs))) dm = (Ok (), dm1) \<and>
    recover_in visit2 wm dm1 = (Ok (), dm2) \<and> recover_in visit3 wm dm = (Ok (), dm3) \<and> disk_view dm2 = disk_view dm3"
proof -
  obtain dm3 where dm3: "recover_in visit3 wm dm = (Ok (), dm3)" "disk_view dm3 = recovered rs (disk_view dm)"
    by (rule recover_in_ok [OF assms(1-3,6)])
  obtain dm1 dm2 where "write_images (take k (visit1 (latest_images rs))) dm = (Ok (), dm1)"
    "recover_in visit2 wm dm1 = (Ok (), dm2)" "disk_view dm2 = recovered rs (disk_view dm)"
    by (rule recover_after_partial [OF assms(1-3,4,5)])
  with dm3 show ?thesis
    by auto
qed

subsection \<open>Witnesses\<close>

definition sample_image :: log_record where
  "sample_image = \<lparr>r_lsn = 0, r_txn = 1, r_page = 0, r_op = op_insert, r_prev = 0, redo_data = set_lsn 4 sample_leaf\<rparr>"

definition sample_commit :: log_record where
  "sample_commit = \<lparr>r_lsn = 1, r_txn = 1, r_page = 0, r_op = op_commit, r_prev = 0, redo_data = []\<rparr>"

definition sample_log :: wal_mgr where
  "sample_log = \<lparr>wfile = sample_file\<lparr>fbytes := encode_log [sample_image, sample_commit]\<rparr>, next_lsn = 2, wbuf = []\<rparr>"

lemma sample_log:
  "wal_read_all sample_log = Ok [sample_image, sample_commit]"
  "log_ok 1 [sample_image, sample_commit]"
proof -
  have "wal_holds sample_log [sample_image, sample_commit] []"
    by (simp add: wal_holds_def sample_log_def readable_def sample_file_def redo_fits_def sample_image_def sample_commit_def)
  then show "wal_read_all sample_log = Ok [sample_image, sample_commit]"
    by (rule wal_holds_read)
  show "log_ok 1 [sample_image, sample_commit]"
    by (simp add: log_ok_def image_ok_def sample_image_def sample_commit_def is_page_op_def
        op_insert_def op_update_def op_delete_def op_commit_def)
qed

theorem recover_redoes_committed_witness:
  "\<exists>dm'. recover_in rev sample_log sample_disk = (Ok (), dm') \<and> disk_view dm' 0 = Some (redo_data sample_image)"
proof -
  have "ids_used_once [sample_image, sample_commit]" "redone [sample_image, sample_commit] 0 = [redo_data sample_image]"
    by (simp_all add: sample_image_def sample_commit_def op_insert_def op_update_def op_delete_def op_commit_def op_abort_def)
  then show ?thesis
    using recover_redoes_committed [OF _ sample_log(1), of sample_disk rev] sample_log(2) by auto
qed

theorem recover_restartable_witness:
  "\<exists>dm1 dm2 dm3. write_images (take 1 (rev (latest_images [sample_image, sample_commit]))) sample_disk = (Ok (), dm1) \<and>
    recover_in (\<lambda>m. m) sample_log dm1 = (Ok (), dm2) \<and> recover_in rev sample_log sample_disk = (Ok (), dm3) \<and>
    disk_view dm2 = disk_view dm3"
  by (rule recover_restartable) (simp_all add: sample_log)

end
