(* ===== verification/Page_Store.thy ===== *)
theory Page_Store
  imports BTree_Page Recovery
begin

text \<open>
  The storage as the B+-tree sees it: for every allocated page its content, its pins and its owner
  (\<open>obs\<close>), and the invariant \<open>db_ok\<close> that ties pool, disk and log together. In particular every page
  that a transaction owns is logged: the last image of the page in the log is by that transaction
  and is the current content up to the LSN field. A page that nobody owns is safe: it holds on disk, up to its
  LSN field, the last committed image the log file has of it, and what waits in the buffer of the log is by
  transactions that were rolled back. Each primitive the tree uses has one rule here.
\<close>

section \<open>Observations\<close>

text \<open>The records of the log, flushed or not, and the transactions that have ended in it.\<close>

definition log_records :: "wal_mgr \<Rightarrow> log_record list" where
  "log_records w = (case read_records 0 ((wfile w)\<lparr>fbytes := fbytes (wfile w) @ wbuf w\<rparr>) of Some rs \<Rightarrow> rs | None \<Rightarrow> [])"

definition ended :: "log_record list \<Rightarrow> u64 set" where
  "ended rs = {t. \<exists>r \<in> set rs. r_txn r = t \<and> (r_op r = op_commit \<or> r_op r = op_abort)}"

lemma log_records_holds: "wal_holds w rs ps \<Longrightarrow> log_records w = rs @ ps"
  unfolding log_records_def by (subst read_records_log [where rs = "rs @ ps"]) (auto simp: wal_holds_def readable_def)

lemma ended_simps [simp]: "ended [] = {}" "ended (rs @ ps) = ended rs \<union> ended ps"
  by (auto simp: ended_def)

record observed =
  o_next :: u32
  o_root :: u32
  o_max :: int
  o_view :: "u32 \<Rightarrow> page option"
  o_pins :: "u32 \<Rightarrow> int"
  o_owner :: "u32 \<Rightarrow> u64 option"
  o_file :: os_file
  o_ended :: "u64 set"
  o_txns :: "u64 set"

definition obs :: "storage \<Rightarrow> observed" where
  "obs s = \<lparr>o_next = next_page_id (disk s), o_root = root_page_id (disk s), o_max = max_size (bpool s),
     o_view = (\<lambda>i. if i < next_page_id (disk s) then view s i else None),
     o_pins = pins s, o_owner = owner s, o_file = wfile (wal s), o_ended = ended (log_records (wal s)),
     o_txns = r_txn ` set (log_records (wal s))\<rparr>"

definition o_busy :: "observed \<Rightarrow> u32 set" where
  "o_busy x = {i. o_pins x i > 0 \<or> o_owner x i \<noteq> None}"

definition room :: "nat \<Rightarrow> observed \<Rightarrow> bool" where
  "room n x \<longleftrightarrow> int (card (o_busy x) + n) \<le> o_max x"

lemma obs_fields [simp]:
  "o_next (obs s) = next_page_id (disk s)" "o_root (obs s) = root_page_id (disk s)"
  "o_max (obs s) = max_size (bpool s)" "o_pins (obs s) = pins s" "o_owner (obs s) = owner s"
  "o_view (obs s) i = (if i < next_page_id (disk s) then view s i else None)" "o_file (obs s) = wfile (wal s)"
  "o_ended (obs s) = ended (log_records (wal s))" "o_txns (obs s) = r_txn ` set (log_records (wal s))"
  by (simp_all add: obs_def)

lemma o_busy_obs [simp]: "o_busy (obs s) = busy s"
  by (simp add: o_busy_def busy_def)

section \<open>The invariant\<close>

text \<open>The images of page \<open>i\<close> in the log, in order.\<close>

definition images :: "log_record list \<Rightarrow> u32 \<Rightarrow> log_record list" where
  "images rs i = filter (\<lambda>r. is_page_op (r_op r) \<and> r_page r = i) rs"

definition images_ok :: "u32 \<Rightarrow> log_record list \<Rightarrow> bool" where
  "images_ok next rs \<longleftrightarrow> (\<forall>r \<in> set rs. is_page_op (r_op r) \<longrightarrow> image_ok next (r_page r) r)"

definition logged :: "u32 set \<Rightarrow> storage \<Rightarrow> log_record list \<Rightarrow> bool" where
  "logged M s rs \<longleftrightarrow>
     (\<forall>i t. owner s i = Some t \<longrightarrow> i \<notin> M \<longrightarrow>
        images rs i \<noteq> [] \<and> r_txn (last (images rs i)) = t \<and>
        view s i = Some (set_lsn (r_lsn (last (images rs i))) (redo_data (last (images rs i)))))"

definition safe :: "storage \<Rightarrow> log_record list \<Rightarrow> log_record list \<Rightarrow> bool" where
  "safe s rs ps \<longleftrightarrow> (\<forall>r \<in> set ps. r_op r \<noteq> op_commit) \<and>
     (\<forall>i. owner s i = None \<longrightarrow>
        (\<forall>r \<in> set (images ps i). r_txn r \<in> ended (rs @ ps) \<and> \<not> is_committed rs (r_txn r)) \<and>
        (committed_images rs i \<noteq> [] \<longrightarrow> (\<exists>l. disk_view (disk s) i = Some (set_lsn l (redo_data (last (committed_images rs i)))))))"

definition db_ok :: "u32 set \<Rightarrow> storage \<Rightarrow> bool" where
  "db_ok M s \<longleftrightarrow> pool_ok M s \<and>
     (\<exists>rs ps. wal_holds (wal s) rs ps \<and> images_ok (next_page_id (disk s)) (rs @ ps) \<and> logged M s (rs @ ps) \<and> safe s rs ps)"

lemma committed_images_in: "set (committed_images rs i) \<subseteq> set (images rs i)"
  by (auto simp: committed_images_def image_of_def images_def)

lemma db_ok_pool: "db_ok M s \<Longrightarrow> pool_ok M s"
  by (simp add: db_ok_def)

lemma owner_allocated: "pool_ok M s \<Longrightarrow> owner s i = Some t \<Longrightarrow> i < next_page_id (disk s)"
  by (auto simp: owner_frame dest: pool_ok_frameD)

lemma o_view_allocated:
  assumes "db_ok M s" "i < o_next (obs s)"
  obtains p where "o_view (obs s) i = Some p" "length p = 4096" "page_id p = i"
  using view_allocated [OF db_ok_pool [OF assms(1)], of i] assms(2) by auto

lemma o_view_id:
  assumes "db_ok M s" "o_view (obs s) i = Some p"
  shows "length p = 4096" "page_id p = i" "i < o_next (obs s)"
  using assms(2) view_fields [OF db_ok_pool [OF assms(1)], of i p] by (auto split: if_splits)

lemma pins_pos_allocated: "db_ok M s \<Longrightarrow> 0 < pins s i \<Longrightarrow> i < next_page_id (disk s)"
  using db_ok_pool pool_ok_frameD(4) pins_frame by blast

section \<open>Rules for the primitives\<close>

lemma fetch_rule:
  assumes ok: "db_ok M s" and p: "o_view (obs s) i = Some p" and room: "room 1 (obs s)"
  obtains s' where "fetch_page i s = (Ok p, s')" "db_ok M s'"
    "obs s' = (obs s)\<lparr>o_pins := (o_pins (obs s))(i := o_pins (obs s) i + 1)\<rparr>"
proof -
  have i: "i < next_page_id (disk s)" and v: "view s i = Some p"
    using p by (auto split: if_splits)
  have "i \<in> dom (frame_at s) \<or> int (card (busy s)) < max_size (bpool s)"
    using room by (simp add: room_def)
  then obtain s' where s': "fetch_page i s = (Ok p, s')" "pool_ok M s'"
    "disk s' = disk s" "wal s' = wal s" "max_size (bpool s') = max_size (bpool s)"
    "view s' = view s" "pins s' = (pins s)(i := pins s i + 1)" "owner s' = owner s"
    using fetch_page_ok [OF db_ok_pool [OF ok] i _ v] by blast
  show thesis
  proof (rule that [of s'])
    show "db_ok M s'"
      using ok s' by (auto simp: db_ok_def logged_def safe_def)
    show "obs s' = (obs s)\<lparr>o_pins := (o_pins (obs s))(i := o_pins (obs s) i + 1)\<rparr>"
      by (auto simp: obs_def s' fun_eq_iff)
  qed (rule s'(1))
qed

lemma get_rule:
  assumes "o_view (obs s) i = Some p" "0 < o_pins (obs s) i"
  shows "get_page i s = (Ok p, s)"
  using assms by (intro get_page_ok) (auto split: if_splits)

lemma put_rule:
  assumes ok: "db_ok M s" and pin: "0 < o_pins (obs s) i" and p: "length p = 4096" "page_id p = i"
  obtains s' where "put_page i p s = (Ok (), s')" "db_ok (insert i M) s'"
    "obs s' = (obs s)\<lparr>o_view := (o_view (obs s))(i \<mapsto> p)\<rparr>"
proof -
  have pin': "0 < pins s i" using pin by simp
  obtain s' where s': "put_page i p s = (Ok (), s')" "pool_ok (insert i M) s'"
    "disk s' = disk s" "wal s' = wal s" "max_size (bpool s') = max_size (bpool s)"
    "view s' = (view s)(i \<mapsto> p)" "pins s' = pins s" "owner s' = owner s"
    by (rule put_page_ok [OF db_ok_pool [OF ok] pin' p])
  have i: "i < next_page_id (disk s)"
    using pins_pos_allocated [OF ok] pin by simp
  show thesis
  proof (rule that [of s'])
    show "db_ok (insert i M) s'"
      using ok s' by (auto simp: db_ok_def logged_def safe_def)
    show "obs s' = (obs s)\<lparr>o_view := (o_view (obs s))(i \<mapsto> p)\<rparr>"
      using i by (auto simp: obs_def s' fun_eq_iff)
  qed (rule s'(1))
qed

lemma release_rule:
  assumes ok: "db_ok M s" and pin: "0 < o_pins (obs s) i" and M: "i \<notin> M"
  shows "db_ok M (release_page i s)"
    "obs (release_page i s) = (obs s)\<lparr>o_pins := (o_pins (obs s))(i := o_pins (obs s) i - 1)\<rparr>"
proof -
  have pin': "0 < pins s i" using pin by simp
  obtain f where f: "frame_at s i = Some f"
    using pins_frame [OF pin'] by blast
  have r: "release_page i s = unpin_page i False 0 s"
    using pool_ok_frameD(3) [OF db_ok_pool [OF ok] f] by (simp add: release_page_def f)
  note u = unpin_page_ok [OF db_ok_pool [OF ok] pin', of False 0]
  show "db_ok M (release_page i s)"
    using ok u M unfolding r db_ok_def logged_def safe_def by auto
  show "obs (release_page i s) = (obs s)\<lparr>o_pins := (o_pins (obs s))(i := o_pins (obs s) i - 1)\<rparr>"
    using u M by (auto simp: r obs_def fun_eq_iff)
qed

lemma allocate_rule:
  assumes ok: "db_ok M s" and room: "o_next (obs s) < no_page_id"
  obtains s' where "on_disk (allocate_page t) s = (Ok (new_page t (o_next (obs s))), s')" "db_ok M s'"
    "obs s' = (obs s)\<lparr>o_next := o_next (obs s) + 1,
       o_view := (o_view (obs s))(o_next (obs s) \<mapsto> new_page t (o_next (obs s)))\<rparr>"
proof -
  let ?n = "next_page_id (disk s)"
  have room': "?n < no_page_id" using room by simp
  obtain s' where s': "on_disk (allocate_page t) s = (Ok (new_page t ?n), s')"
    "pool_ok M s'" "view s' ?n = Some (new_page t ?n)"
    "\<forall>i < ?n. view s' i = view s i" "next_page_id (disk s') = ?n + 1"
    "root_page_id (disk s') = root_page_id (disk s)"
    "\<forall>i < ?n. disk_view (disk s') i = disk_view (disk s) i"
    "wal s' = wal s" "max_size (bpool s') = max_size (bpool s)" "pins s' = pins s" "owner s' = owner s"
    by (rule allocate_ok [OF db_ok_pool [OF ok] room', of t])
  have lt: "i < ?n + 1 \<longleftrightarrow> i < ?n \<or> i = ?n" for i
    using room' by (auto simp: no_page_id_def word_less_nat_alt word_unat_eq_iff unat_word_ariths)
  show thesis
  proof (rule that [of s'])
    show "on_disk (allocate_page t) s = (Ok (new_page t (o_next (obs s))), s')"
      using s'(1) by simp
    obtain rs ps where rs: "wal_holds (wal s) rs ps" "images_ok ?n (rs @ ps)" "logged M s (rs @ ps)" "safe s rs ps"
      using ok by (auto simp: db_ok_def)
    have "images_ok (?n + 1) (rs @ ps)"
      using rs(2) by (auto simp: images_ok_def image_ok_def lt)
    moreover have "logged M s' (rs @ ps)"
      using rs(3) s'(4) owner_allocated [OF db_ok_pool [OF ok]] by (auto simp: logged_def s'(11))
    moreover have "safe s' rs ps"
      unfolding safe_def s'(11)
    proof (intro allI impI conjI)
      show "\<forall>r \<in> set ps. r_op r \<noteq> op_commit"
        using rs(4) by (simp add: safe_def)
      fix i assume o: "owner s i = None"
      show "\<forall>r \<in> set (images ps i). r_txn r \<in> ended (rs @ ps) \<and> \<not> is_committed rs (r_txn r)"
        using rs(4) o unfolding safe_def by blast
      assume c: "committed_images rs i \<noteq> []"
      then obtain r where "r \<in> set (rs @ ps)" "is_page_op (r_op r)" "r_page r = i"
        using committed_images_last [OF c] by (auto simp: image_of_def)
      then have "i < ?n"
        using rs(2) unfolding images_ok_def image_ok_def by blast
      then show "\<exists>l. disk_view (disk s') i = Some (set_lsn l (redo_data (last (committed_images rs i))))"
        using rs(4) o c s'(7) unfolding safe_def by metis
    qed
    ultimately show "db_ok M s'"
      using rs(1) s'(2,5,8) by (auto simp: db_ok_def)
    show "obs s' = (obs s)\<lparr>o_next := o_next (obs s) + 1,
       o_view := (o_view (obs s))(o_next (obs s) \<mapsto> new_page t (o_next (obs s)))\<rparr>"
      using s'(3,4) by (auto simp: obs_def s'(5,6,8-11) lt fun_eq_iff)
  qed
qed

lemma set_root_rule:
  assumes ok: "db_ok M s"
  obtains s' where "on_disk (set_root_page_id r) s = (Ok (), s')" "db_ok M s'"
    "obs s' = (obs s)\<lparr>o_root := r\<rparr>"
proof -
  obtain s' where s': "on_disk (set_root_page_id r) s = (Ok (), s')" "pool_ok M s'"
    "root_page_id (disk s') = r" "next_page_id (disk s') = next_page_id (disk s)" "disk_view (disk s') = disk_view (disk s)" "wal s' = wal s"
    "max_size (bpool s') = max_size (bpool s)" "view s' = view s" "pins s' = pins s" "owner s' = owner s"
    using set_root_ok [OF db_ok_pool [OF ok], of r] by blast
  show thesis
  proof (rule that [of s'])
    show "db_ok M s'"
      using ok s' by (auto simp: db_ok_def logged_def safe_def)
    show "obs s' = (obs s)\<lparr>o_root := r\<rparr>"
      by (auto simp: obs_def s' fun_eq_iff)
  qed (rule s'(1))
qed

lemma images_append: "images (rs @ ps) i = images rs i @ images ps i"
  by (simp add: images_def)

text \<open>An image at the end of the log ends no transaction.\<close>

lemma page_op_ends_nothing: "is_page_op op \<Longrightarrow> op \<noteq> op_commit \<and> op \<noteq> op_abort"
  by (auto simp: is_page_op_def op_insert_def op_update_def op_delete_def op_commit_def op_abort_def)

lemma ended_image [simp]: "is_page_op (r_op r) \<Longrightarrow> ended [r] = {}"
  using page_op_ends_nothing [of "r_op r"] by (simp add: ended_def)

lemma safe_append_image:
  assumes "safe s rs ps" "is_page_op (r_op r)" "owner s' = (owner s)(r_page r \<mapsto> t)" "disk_view (disk s') = disk_view (disk s)"
  shows "safe s' rs (ps @ [r])"
proof -
  have i: "i \<noteq> r_page r \<and> owner s i = None \<and> images (ps @ [r]) i = images ps i" if "owner s' i = None" for i
    using that assms(3) by (auto simp: images_def split: if_splits)
  show ?thesis
    using assms(1) page_op_ends_nothing [OF assms(2)] i unfolding safe_def assms(4) by (auto simp: assms(2))
qed

lemma finish_rule:
  assumes ok: "db_ok M s" and pin: "0 < o_pins (obs s) i" and p: "o_view (obs s) i = Some p"
    and op: "is_page_op op"
  obtains l s' where "finish_page i txn op s = (Ok (), s')" "db_ok (M - {i}) s'"
    "obs s' = (obs s)\<lparr>o_view := (o_view (obs s))(i \<mapsto> set_lsn l p),
       o_pins := (o_pins (obs s))(i := o_pins (obs s) i - 1), o_owner := (o_owner (obs s))(i \<mapsto> txn), o_txns := insert txn (o_txns (obs s))\<rparr>"
proof -
  note pp = o_view_id [OF ok p]
  let ?r = "\<lparr>r_lsn = 0, r_txn = txn, r_page = i, r_op = op, r_prev = 0, redo_data = p\<rparr>"
  let ?l = "next_lsn (wal s)"
  let ?r' = "?r\<lparr>r_lsn := ?l\<rparr>"
  obtain rs ps where rs: "wal_holds (wal s) rs ps" "images_ok (next_page_id (disk s)) (rs @ ps)" "logged M s (rs @ ps)" "safe s rs ps"
    using ok by (auto simp: db_ok_def)
  have fits: "redo_fits ?r"
    by (simp add: redo_fits_def pp)
  obtain w where w: "append_record ?r (wal s) = (Ok ?l, w)" "wal_holds w rs (ps @ [?r'])" "wfile w = wfile (wal s)"
    by (rule append_record_holds [OF rs(1) fits])
  let ?s1 = "s\<lparr>wal := w\<rparr>"
  have o1: "pool_ok M ?s1" "0 < pins ?s1 i"
    using ok pin by (simp_all add: db_ok_def)
  obtain s2 where s2: "put_page i (set_lsn ?l p) ?s1 = (Ok (), s2)" "pool_ok (insert i M) s2"
    "disk s2 = disk ?s1" "wal s2 = wal ?s1" "max_size (bpool s2) = max_size (bpool ?s1)"
    "view s2 = (view ?s1)(i \<mapsto> set_lsn ?l p)" "pins s2 = pins ?s1" "owner s2 = owner ?s1"
    by (rule put_page_ok [OF o1, of "set_lsn ?l p"]) (use pp in simp_all)
  let ?s' = "unpin_page i True txn s2"
  have pin2: "0 < pins s2 i"
    using s2(7) pin by simp
  note u = unpin_page_ok [OF s2(2) pin2, of True txn]
  show thesis
  proof (rule that [of ?s' ?l])
    have g: "get_page i s = (Ok p, s)"
      by (rule get_rule [OF p pin])
    show "finish_page i txn op s = (Ok (), ?s')"
      using g w(1) s2(1) pp by (simp add: finish_page_def bindG_def on_err_def on_wal_def)
    have M: "insert i M - {i} = M - {i}"
      by auto
    have "images_ok (next_page_id (disk s)) (rs @ ps @ [?r'])"
      using rs(2) pp by (auto simp: images_ok_def image_ok_def)
    moreover have "logged (M - {i}) ?s' (rs @ ps @ [?r'])"
      unfolding logged_def
    proof (intro allI impI)
      fix j t
      assume j: "owner ?s' j = Some t" "j \<notin> M - {i}"
      show "images (rs @ ps @ [?r']) j \<noteq> [] \<and> r_txn (last (images (rs @ ps @ [?r']) j)) = t \<and>
        view ?s' j = Some (set_lsn (r_lsn (last (images (rs @ ps @ [?r']) j))) (redo_data (last (images (rs @ ps @ [?r']) j))))"
      proof (cases "j = i")
        case True
        then have "images (rs @ ps @ [?r']) j = images (rs @ ps) j @ [?r']"
          using op by (simp add: images_def)
        then show ?thesis
          using True j u s2 by simp
      next
        case False
        then have "images (rs @ ps @ [?r']) j = images (rs @ ps) j"
          by (simp add: images_def)
        then show ?thesis
          using False j u s2 rs(3) by (simp add: logged_def)
      qed
    qed
    moreover have "safe ?s' rs (ps @ [?r'])"
      using u s2 op by (intro safe_append_image [OF rs(4)]) auto
    ultimately show "db_ok (M - {i}) ?s'"
      using u s2 w(2) M unfolding db_ok_def by (intro conjI exI [of _ rs] exI [of _ "ps @ [?r']"]) auto
    have "ended (log_records (wal ?s')) = ended (log_records (wal s))"
      using op u(3) s2(4) log_records_holds [OF w(2)] log_records_holds [OF rs(1)] by simp
    note this [simp]
    have t: "o_txns (obs ?s') = insert txn (o_txns (obs s))"
      using u(3) s2(4) log_records_holds [OF w(2)] log_records_holds [OF rs(1)] by auto
    show "obs ?s' = (obs s)\<lparr>o_view := (o_view (obs s))(i \<mapsto> set_lsn ?l p),
       o_pins := (o_pins (obs s))(i := o_pins (obs s) i - 1), o_owner := (o_owner (obs s))(i \<mapsto> txn), o_txns := insert txn (o_txns (obs s))\<rparr>"
      by (intro observed.equality) (use u s2 w(3) pp(3) t in \<open>auto simp del: obs_fields(9)\<close>)
  qed
qed

declare obs_fields(6) [simp del]

section \<open>Reading a page\<close>

text \<open>The contract that the descents and scans of the tree rely on: a page that is fetched, looked at and
  released leaves the storage observably as it was.\<close>

locale page_reader =
  fixes fetch :: "u32 \<Rightarrow> ('s, page) go"
    and release :: "u32 \<Rightarrow> 's \<Rightarrow> 's"
    and content :: "'s \<Rightarrow> u32 \<Rightarrow> page option"
    and good :: "'s \<Rightarrow> bool"
    and same :: "'s \<Rightarrow> 's \<Rightarrow> bool"
  assumes fetch_release: "good s \<Longrightarrow> content s i = Some p \<Longrightarrow>
      \<exists>s'. fetch i s = (Ok p, s') \<and> good (release i s') \<and> same s (release i s')"
    and same_content: "same s t \<Longrightarrow> content t = content s"
begin

lemma read_page:
  assumes "good s" "content s i = Some p"
  obtains t where "good t" "same s t" "content t = content s"
    "\<And>body (k :: 's \<Rightarrow> 'x res \<times> 's). (\<And>u. body p u = k (release i u)) \<Longrightarrow> bindG (fetch i) body s = k t"
proof -
  obtain s' where s': "fetch i s = (Ok p, s')" "good (release i s')" "same s (release i s')"
    using fetch_release [OF assms] by blast
  show thesis
    by (rule that [OF s'(2,3) same_content [OF s'(3)]]) (simp_all add: bindG_def s'(1))
qed

end

definition reader_ready :: "storage \<Rightarrow> bool" where
  "reader_ready s \<longleftrightarrow> db_ok {} s \<and> room 1 (obs s)"

interpretation reader: page_reader fetch_page release_page "\<lambda>s. o_view (obs s)" reader_ready "\<lambda>s t. obs t = obs s"
proof (unfold_locales, goal_cases)
  case (1 s i p)
  have ok: "db_ok {} s" and room: "room 1 (obs s)"
    using 1(1) by (simp_all add: reader_ready_def)
  obtain s' where s': "fetch_page i s = (Ok p, s')" "db_ok {} s'"
    "obs s' = (obs s)\<lparr>o_pins := (o_pins (obs s))(i := o_pins (obs s) i + 1)\<rparr>"
    by (rule fetch_rule [OF ok 1(2) room])
  have "0 \<le> o_pins (obs s) i"
    using pins_nonneg [OF db_ok_pool [OF ok]] by simp
  then have pin: "0 < o_pins (obs s') i"
    by (simp only: s'(3) observed.simps) simp
  note r = release_rule [OF s'(2) pin]
  have "obs (release_page i s') = obs s"
    using r(2) unfolding s'(3) by simp
  then show ?case
    using s'(1) r(1) room by (simp add: reader_ready_def)
next
  case (2 s t)
  then show ?case by simp
qed

end
