(* ===== verification/Tree.thy ===== *)
theory Tree
  imports Page_Store
begin

text \<open>
  The B+-tree as a tree: what it means for the pages of a storage to hold a given tree, the
  invariant of the tree (order, balance, leaf chain), and the correctness of descending,
  searching and scanning.
\<close>

section \<open>Trees\<close>

text \<open>\<open>Node i ks ts\<close> is an internal page with the separators \<open>ks\<close> and one more child than separators.\<close>

datatype tree = Leaf u32 "byte list list" u32 | Node u32 "ckey list" "tree list"

fun root_of :: "tree \<Rightarrow> u32" where
  "root_of (Leaf i cs nx) = i"
| "root_of (Node i ks ts) = i"

definition icell :: "ckey \<Rightarrow> u32 \<Rightarrow> byte list" where
  "icell k c = encode_internal_cell (fst k) (Some (snd k)) c"

definition leaf_page :: "page \<Rightarrow> u32 \<Rightarrow> byte list list \<Rightarrow> u32 \<Rightarrow> bool" where
  "leaf_page p i cs nx \<longleftrightarrow> page_wf p \<and> page_id p = i \<and> page_type p = type_leaf \<and> page_cells p = cs \<and>
     rightmost_child p = nx"

definition node_page :: "page \<Rightarrow> u32 \<Rightarrow> ckey list \<Rightarrow> u32 list \<Rightarrow> bool" where
  "node_page p i ks is \<longleftrightarrow> page_wf p \<and> page_id p = i \<and> page_type p = type_internal \<and>
     length is = Suc (length ks) \<and> page_cells p = map2 icell ks is \<and> rightmost_child p = last is \<and>
     free_space p + int (cells_size (page_cells p)) = 4072"

fun holds_tree :: "(u32 \<Rightarrow> page option) \<Rightarrow> tree \<Rightarrow> bool" where
  "holds_tree V (Leaf i cs nx) \<longleftrightarrow> (\<exists>p. V i = Some p \<and> leaf_page p i cs nx)"
| "holds_tree V (Node i ks ts) \<longleftrightarrow>
     (\<exists>p. V i = Some p \<and> node_page p i ks (map root_of ts)) \<and> (\<forall>t \<in> set ts. holds_tree V t)"

fun page_ids :: "tree \<Rightarrow> u32 list" where
  "page_ids (Leaf i cs nx) = [i]"
| "page_ids (Node i ks ts) = i # concat (map page_ids ts)"

fun balanced :: "nat \<Rightarrow> tree \<Rightarrow> bool" where
  "balanced 0 (Leaf i cs nx) = True"
| "balanced (Suc n) (Node i ks ts) = (\<forall>t \<in> set ts. balanced n t)"
| "balanced _ _ = False"

type_synonym leaf = "u32 \<times> byte list list \<times> u32"

fun leaves :: "tree \<Rightarrow> leaf list" where
  "leaves (Leaf i cs nx) = [(i, cs, nx)]"
| "leaves (Node i ks ts) = concat (map leaves ts)"

fun chained :: "leaf list \<Rightarrow> u32 \<Rightarrow> bool" where
  "chained [] end \<longleftrightarrow> True"
| "chained ((i, cs, nx) # ls) end \<longleftrightarrow> nx = (case ls of [] \<Rightarrow> end | l # _ \<Rightarrow> fst l) \<and> chained ls end"

definition leaves_cells :: "leaf list \<Rightarrow> byte list list" where
  "leaves_cells ls = concat (map (\<lambda>(i, cs, nx). cs) ls)"

definition tree_cells :: "tree \<Rightarrow> byte list list" where
  "tree_cells t = leaves_cells (leaves t)"

section \<open>Order\<close>

text \<open>A bound that is \<open>None\<close> is no bound.\<close>

type_synonym bound = "ckey option"

definition above :: "bound \<Rightarrow> ckey \<Rightarrow> bool" where
  "above lo k \<longleftrightarrow> (case lo of None \<Rightarrow> True | Some l \<Rightarrow> l \<le> k)"

definition below :: "bound \<Rightarrow> ckey \<Rightarrow> bool" where
  "below hi k \<longleftrightarrow> (case hi of None \<Rightarrow> True | Some h \<Rightarrow> k < h)"

definition over :: "bound \<Rightarrow> ckey \<Rightarrow> bool" where
  "over lo k \<longleftrightarrow> (case lo of None \<Rightarrow> True | Some l \<Rightarrow> l < k)"

fun kids_in :: "(bound \<Rightarrow> bound \<Rightarrow> 'a \<Rightarrow> bool) \<Rightarrow> bound \<Rightarrow> bound \<Rightarrow> ckey list \<Rightarrow> 'a list \<Rightarrow> bool" where
  "kids_in P lo hi [] [t] \<longleftrightarrow> P lo hi t"
| "kids_in P lo hi (k # ks) (t # ts) \<longleftrightarrow>
     over lo k \<and> below hi k \<and> P lo (Some k) t \<and> kids_in P (Some k) hi ks ts"
| "kids_in P lo hi _ _ \<longleftrightarrow> False"

lemma kids_in_cong [fundef_cong]:
  assumes "lo = lo'" "hi = hi'" "ks = ks'" "ts = ts'" "\<And>l h t. t \<in> set ts' \<Longrightarrow> P l h t = Q l h t"
  shows "kids_in P lo hi ks ts = kids_in Q lo' hi' ks' ts'"
proof -
  have "(\<And>l h t. t \<in> set ts \<Longrightarrow> P l h t = Q l h t) \<Longrightarrow> kids_in P lo hi ks ts = kids_in Q lo hi ks ts"
    by (induction P lo hi ks ts rule: kids_in.induct) auto
  with assms show ?thesis by blast
qed

text \<open>What is fixed for a database: the kind of the primary key of every table, and bounds on the size a
  cell takes on a page (with its slot). \<open>env_ok\<close> makes the bounds tight enough for a page to be split by
  the number of its cells without overflowing a half.\<close>

record env =
  key_kinds :: "u32 \<Rightarrow> value_kind"
  min_cell :: nat
  max_cell :: nat

definition env_ok :: "env \<Rightarrow> bool" where
  "env_ok e \<longleftrightarrow> 0 < min_cell e \<and> min_cell e \<le> max_cell e \<and>
     max_cell e * max_cell e + max_cell e * min_cell e \<le> 4072 * min_cell e"

definition sized :: "env \<Rightarrow> nat \<Rightarrow> bool" where
  "sized e n \<longleftrightarrow> min_cell e \<le> n + 4 \<and> n + 4 \<le> max_cell e"

definition key_in_env :: "env \<Rightarrow> ckey \<Rightarrow> bool" where
  "key_in_env e k \<longleftrightarrow> ckey_ok (key_kinds e) k \<and> sized e (length (icell k 0))"

definition cell_in_env :: "env \<Rightarrow> byte list \<Rightarrow> bool" where
  "cell_in_env e c \<longleftrightarrow> cell_ok (key_kinds e) c \<and> sized e (length c) \<and> key_in_env e (ckey c)"

definition leaf_in :: "env \<Rightarrow> bound \<Rightarrow> bound \<Rightarrow> byte list list \<Rightarrow> bool" where
  "leaf_in e lo hi cs \<longleftrightarrow> sorted_wrt (<) (map ckey cs) \<and>
     (\<forall>c \<in> set cs. cell_in_env e c \<and> above lo (ckey c) \<and> below hi (ckey c))"

fun tree_in :: "env \<Rightarrow> bound \<Rightarrow> bound \<Rightarrow> tree \<Rightarrow> bool" where
  "tree_in e lo hi (Leaf i cs nx) \<longleftrightarrow> leaf_in e lo hi cs"
| "tree_in e lo hi (Node i ks ts) \<longleftrightarrow>
     ks \<noteq> [] \<and> (\<forall>k \<in> set ks. key_in_env e k) \<and> kids_in (tree_in e) lo hi ks ts"

text \<open>The pages of \<open>x\<close> hold the tree \<open>t\<close> of height \<open>n\<close>.\<close>

definition btree_ok :: "env \<Rightarrow> nat \<Rightarrow> tree \<Rightarrow> observed \<Rightarrow> bool" where
  "btree_ok e n t x \<longleftrightarrow> env_ok e \<and> holds_tree (o_view x) t \<and> root_of t = o_root x \<and> balanced n t \<and>
     tree_in e None None t \<and> distinct (page_ids t) \<and> chained (leaves t) no_page_id"

section \<open>Separators\<close>

lemma above_None [simp]: "above None k" and below_None [simp]: "below None k"
  and over_None [simp]: "over None k" and above_Some [simp]: "above (Some l) k \<longleftrightarrow> l \<le> k"
  and below_Some [simp]: "below (Some h) k \<longleftrightarrow> k < h" and over_Some [simp]: "over (Some l) k \<longleftrightarrow> l < k"
  by (simp_all add: above_def below_def over_def)

lemma above_trans: "above lo k \<Longrightarrow> k \<le> l \<Longrightarrow> above lo l"
  by (cases lo) auto

lemma over_trans: "over lo k \<Longrightarrow> k \<le> l \<Longrightarrow> over lo l"
  by (cases lo) auto

lemma over_above: "over lo k \<Longrightarrow> above lo k"
  by (cases lo) auto

lemma below_trans: "below hi k \<Longrightarrow> l \<le> k \<Longrightarrow> below hi l"
  by (cases hi) auto

lemma kids_in_length: "kids_in P lo hi ks ts \<Longrightarrow> length ts = Suc (length ks)"
  by (induction P lo hi ks ts rule: kids_in.induct) auto

definition lower :: "bound \<Rightarrow> ckey list \<Rightarrow> bound" where
  "lower lo ks = (if ks = [] then lo else Some (last ks))"

definition upper :: "bound \<Rightarrow> ckey list \<Rightarrow> bound" where
  "upper hi ks = (if ks = [] then hi else Some (hd ks))"

lemma lower_simps [simp]: "lower lo [] = lo" "lower lo (k # ks) = lower (Some k) ks"
  by (simp_all add: lower_def)

lemma upper_simps [simp]: "upper hi [] = hi" "upper hi (k # ks) = Some k"
  by (simp_all add: upper_def)

lemma kids_in_member:
  assumes "kids_in P lo hi (ka @ kb) (as @ t # bs)" "length as = length ka"
  shows "P (lower lo ka) (upper hi kb) t"
  using assms
proof (induction ka arbitrary: lo as)
  case Nil
  then show ?case
    by (cases kb; cases bs) auto
next
  case (Cons k ka)
  then show ?case by (cases as) auto
qed

lemma kids_in_append:
  assumes "kids_in P lo (upper hi kb) ks ts"
    "case kb of [] \<Rightarrow> bs = [] | k # kb' \<Rightarrow> over lo k \<and> below hi k \<and> kids_in P (Some k) hi kb' bs"
  shows "kids_in P lo hi (ks @ kb) (ts @ bs)"
  using assms
proof (induction ks arbitrary: lo ts)
  case Nil
  then obtain t where "ts = [t]" "P lo (upper hi kb) t"
    by (cases ts; cases "tl ts") auto
  then show ?case
    using Nil by (cases kb) auto
next
  case (Cons k ks)
  then obtain t ts' where ts: "ts = t # ts'" "over lo k" "below (upper hi kb) k" "P lo (Some k) t"
    "kids_in P (Some k) (upper hi kb) ks ts'"
    by (cases ts) auto
  have "case kb of [] \<Rightarrow> bs = [] | k' # kb' \<Rightarrow> over (Some k) k' \<and> below hi k' \<and> kids_in P (Some k') hi kb' bs"
    using Cons.prems(2) ts(3) by (cases kb) auto
  then have "kids_in P (Some k) hi (ks @ kb) (ts' @ bs)"
    by (rule Cons.IH [OF ts(5)])
  moreover have "below hi k"
    using Cons.prems(2) ts(3) by (cases kb) (auto intro: below_trans)
  ultimately show ?case
    using ts by simp
qed

text \<open>Replacing one child by a forest \<open>ts'\<close> with separators \<open>ks'\<close> between its bounds.\<close>

lemma kids_in_replace:
  assumes "kids_in P lo hi (ka @ kb) (as @ t # bs)" "length as = length ka"
    "kids_in P (lower lo ka) (upper hi kb) ks' ts'"
  shows "kids_in P lo hi (ka @ ks' @ kb) (as @ ts' @ bs)"
  using assms
proof (induction ka arbitrary: lo as)
  case Nil
  then have "case kb of [] \<Rightarrow> bs = [] | k # kb' \<Rightarrow> over lo k \<and> below hi k \<and> kids_in P (Some k) hi kb' bs"
    by (cases kb; cases bs) auto
  then show ?case
    using Nil kids_in_append [of P lo hi kb ks' ts' bs] by simp
next
  case (Cons k ka)
  then show ?case by (cases as) auto
qed

text \<open>Cutting a node in two at a separator.\<close>

lemma kids_in_cut:
  assumes "kids_in P lo hi (ka @ k # kb) (as @ bs)" "length as = Suc (length ka)"
  shows "kids_in P lo (Some k) ka as" "kids_in P (Some k) hi kb bs" "over lo k" "below hi k"
proof -
  have "kids_in P lo (Some k) ka as \<and> kids_in P (Some k) hi kb bs \<and> over lo k \<and> below hi k"
    using assms
  proof (induction ka arbitrary: lo as)
    case Nil
    then show ?case by (cases as; cases "tl as") auto
  next
    case (Cons k' ka)
    then obtain t as' where as: "as = t # as'"
      by (cases as) auto
    have IH: "kids_in P (Some k') (Some k) ka as' \<and> kids_in P (Some k) hi kb bs \<and> over (Some k') k \<and> below hi k"
      using Cons.prems by (intro Cons.IH) (auto simp: as)
    then show ?case
      using Cons.prems(1) by (auto simp: as intro: over_trans)
  qed
  then show "kids_in P lo (Some k) ka as" "kids_in P (Some k) hi kb bs" "over lo k" "below hi k"
    by blast+
qed

lemma kids_in_sorted: "kids_in P lo hi ks ts \<Longrightarrow> sorted_wrt (<) ks \<and> (\<forall>k \<in> set ks. over lo k \<and> below hi k)"
proof (induction P lo hi ks ts rule: kids_in.induct)
  case (2 P lo hi k ks t ts)
  then have "sorted_wrt (<) ks" "\<forall>l \<in> set ks. k < l \<and> below hi l" "over lo k" "below hi k"
    by auto
  then show ?case
    using over_trans [of lo k] by (auto intro: less_imp_le)
qed auto

lemma kids_in_mono:
  "kids_in P lo hi ks ts \<Longrightarrow> (\<And>l h t. t \<in> set ts \<Longrightarrow> P l h t \<Longrightarrow> Q l h t) \<Longrightarrow> kids_in Q lo hi ks ts"
  by (induction P lo hi ks ts rule: kids_in.induct) auto

section \<open>The cells of a tree\<close>

lemma leaves_cells_simps [simp]:
  "leaves_cells [] = []" "leaves_cells ((i, cs, nx) # ls) = cs @ leaves_cells ls"
  "leaves_cells (ls @ ms) = leaves_cells ls @ leaves_cells ms"
  by (simp_all add: leaves_cells_def)

lemma leaves_cells_concat: "leaves_cells (concat lss) = concat (map leaves_cells lss)"
  by (induction lss) simp_all

lemma tree_cells_Node: "tree_cells (Node i ks ts) = concat (map tree_cells ts)"
  by (simp add: tree_cells_def [abs_def] leaves_cells_concat comp_def)

lemma tree_cells_Leaf [simp]: "tree_cells (Leaf i cs nx) = cs"
  by (simp add: tree_cells_def)

lemma sorted_kids:
  assumes "kids_in P lo hi ks ts"
    and "\<And>l h t. t \<in> set ts \<Longrightarrow> P l h t \<Longrightarrow> leaf_in e l h (f t)"
  shows "leaf_in e lo hi (concat (map f ts))"
  using assms
proof (induction P lo hi ks ts rule: kids_in.induct)
  case (2 P lo hi k ks t ts)
  have t: "leaf_in e lo (Some k) (f t)" and k: "over lo k" "below hi k"
    using 2 by auto
  have ts: "leaf_in e (Some k) hi (concat (map f ts))"
    using 2 by auto
  show ?case
    using t ts k unfolding leaf_in_def
    by (fastforce simp: sorted_wrt_append intro: above_trans below_trans dest: over_above)
qed (auto simp: leaf_in_def)

lemma tree_in_cells: "tree_in e lo hi t \<Longrightarrow> leaf_in e lo hi (tree_cells t)"
proof (induction e lo hi t rule: tree_in.induct)
  case (2 e lo hi i ks ts)
  then show ?case
    using sorted_kids [of "tree_in e" lo hi ks ts e tree_cells] by (auto simp: tree_cells_Node)
qed simp


section \<open>Descending\<close>

lemma icell_decode:
  assumes "ckey_ok kinds k"
  shows "decode_internal_cell (icell k c) = Some (fst k, Some (snd k), c)"
    "decode_composite_key (icell k c) = Some (fst k, Some (snd k), length (encode_composite_key (fst k) (Some (snd k))))"
    "ckey (icell k c) = k" "cell_child (icell k c) = c" "internal_ok kinds (icell k c)" "cell_ok kinds (icell k c)"
proof -
  obtain tid v where k: "k = (tid, v)" by (cases k)
  have ok: "key_ok (Some v)"
    using assms by (simp add: k)
  show d: "decode_internal_cell (icell k c) = Some (fst k, Some (snd k), c)"
    using decode_internal_encode [OF ok, of tid c "[]"] by (simp add: icell_def k)
  show dk: "decode_composite_key (icell k c) =
      Some (fst k, Some (snd k), length (encode_composite_key (fst k) (Some (snd k))))"
    using decode_encode_key [OF ok, of tid "be_put 4 c"] by (simp add: icell_def k encode_internal_cell_def)
  show "ckey (icell k c) = k" and ok: "cell_ok kinds (icell k c)"
    using dk assms by (simp_all add: ckey_def cell_ok_def cell_key_def)
  show "cell_child (icell k c) = c"
    by (simp add: cell_child_def d)
  show "internal_ok kinds (icell k c)"
    using ok d by (simp add: internal_ok_def)
qed

lemma length_icell: "length (icell k c) = length (encode_composite_key (fst k) (Some (snd k))) + 4"
  by (simp add: icell_def encode_internal_cell_def)

lemma length_icell_child: "length (icell k c) = length (icell k d)"
  by (simp add: length_icell)

lemma icell_not_Nil [simp]: "icell k c \<noteq> []"
  using length_icell [of k c] by auto

lemma child_split:
  assumes "length is = Suc (length ks)" "\<forall>k \<in> set ks. ckey_ok kinds k"
  obtains ka kb ia c ib where "ks = ka @ kb" "is = ia @ c # ib" "length ia = length ka"
    "\<forall>k \<in> set ka. k \<le> K" "kb = [] \<or> K < hd kb"
    "child_of (map2 icell ks is) (last is) K = c"
  using assms
proof (induction ks arbitrary: "is" thesis)
  case Nil
  then obtain c where "is = [c]"
    by (cases "is") auto
  then show ?case
    by (intro Nil.prems(1) [of "[]" "[]" "[]" c "[]"]) simp_all
next
  case (Cons k ks)
  obtain i "is'" where i: "is = i # is'" "length is' = Suc (length ks)"
    using Cons.prems(2) by (cases "is") auto
  have ck: "ckey (icell k i) = k" "cell_child (icell k i) = i"
    using icell_decode [of kinds k i] Cons.prems(3) by auto
  have l: "last is = last is'"
    using i by auto
  show ?case
  proof (cases "K < k")
    case True
    then show ?thesis
      using ck by (intro Cons.prems(1) [of "[]" "k # ks" "[]" i is']) (simp_all add: i)
  next
    case False
    have kok: "\<forall>k \<in> set ks. ckey_ok kinds k"
      using Cons.prems(3) by simp
    obtain ka kb ia c ib where r: "ks = ka @ kb" "is' = ia @ c # ib" "length ia = length ka"
      "\<forall>k \<in> set ka. k \<le> K" "kb = [] \<or> K < hd kb" "child_of (map2 icell ks is') (last is') K = c"
      using Cons.IH [OF _ i(2) kok] by blast
    show ?thesis
      using False ck r l
      by (intro Cons.prems(1) [of "k # ka" kb "i # ia" c ib]) (simp_all add: i(1))
  qed
qed

lemma route_bounds:
  assumes "above lo K" "below hi K" "\<forall>k \<in> set ka. k \<le> K" "kb = [] \<or> K < hd kb"
  shows "above (lower lo ka) K" "below (upper hi kb) K"
  using assms by (auto simp: lower_def upper_def)

lemma kids_left:
  assumes "kids_in (tree_in e) lo hi (ka @ kb) (as @ t # bs)" "length as = length ka" "a \<in> set as" "c \<in> set (tree_cells a)"
  shows "\<exists>k \<in> set ka. ckey c < k"
  using assms
proof (induction ka arbitrary: lo as)
  case (Cons k ka)
  then obtain a' as' where as: "as = a' # as'" by (cases as) auto
  show ?case
  proof (cases "a = a'")
    case True
    then have "tree_in e lo (Some k) a"
      using Cons.prems(1) by (simp add: as)
    then show ?thesis
      using tree_in_cells Cons.prems(4) by (fastforce simp: leaf_in_def)
  next
    case False
    then show ?thesis
      using Cons by (auto simp: as)
  qed
qed simp

lemma kids_above:
  "kids_in (tree_in e) (Some k) hi ks ts \<Longrightarrow> a \<in> set ts \<Longrightarrow> c \<in> set (tree_cells a) \<Longrightarrow> k \<le> ckey c"
proof -
  assume a: "kids_in (tree_in e) (Some k) hi ks ts" "a \<in> set ts" "c \<in> set (tree_cells a)"
  have "leaf_in e (Some k) hi (concat (map tree_cells ts))"
    using a(1) tree_in_cells by (rule sorted_kids) auto
  then show ?thesis
    using a(2,3) by (auto simp: leaf_in_def)
qed

lemma kids_right:
  assumes "kids_in (tree_in e) lo hi (ka @ kb) (as @ t # bs)" "length as = length ka" "b \<in> set bs" "c \<in> set (tree_cells b)"
  shows "kb \<noteq> [] \<and> hd kb \<le> ckey c"
proof (cases kb)
  case Nil
  then show ?thesis
    using kids_in_length [OF assms(1)] assms(2,3) by auto
next
  case (Cons k kb')
  have "kids_in (tree_in e) (Some k) hi kb' bs"
    using kids_in_cut(2) [of "tree_in e" lo hi ka k kb' "as @ [t]" bs] assms(1,2) by (simp add: Cons)
  then show ?thesis
    using kids_above assms(3,4) by (simp add: Cons)
qed

lemma holds_tree_leaf:
  "holds_tree V t \<Longrightarrow> (i, cs, nx) \<in> set (leaves t) \<Longrightarrow> \<exists>p. V i = Some p \<and> leaf_page p i cs nx"
  by (induction V t rule: holds_tree.induct) auto

lemma tree_in_leaf:
  "tree_in e lo hi t \<Longrightarrow> (i, cs, nx) \<in> set (leaves t) \<Longrightarrow> \<exists>l h. leaf_in e l h cs"
proof (induction e lo hi t rule: tree_in.induct)
  case (2 e lo hi j ks ts)
  then obtain t where t: "t \<in> set ts" "(i, cs, nx) \<in> set (leaves t)" by auto
  obtain as bs where ts: "ts = as @ t # bs"
    using t(1) by (meson split_list)
  have k: "kids_in (tree_in e) lo hi ks ts" using 2 by simp
  then have "length (take (length as) ks) = length as"
    using kids_in_length ts by fastforce
  then have "tree_in e (lower lo (take (length as) ks)) (upper hi (drop (length as) ks)) t"
    using kids_in_member [of "tree_in e" lo hi "take (length as) ks" "drop (length as) ks" as t bs] k ts by simp
  then show ?case
    using 2(1) t by auto
qed auto

lemma page_types_differ [simp]: "type_internal \<noteq> type_leaf"
  by (simp add: type_internal_def type_leaf_def)

text \<open>The child that \<open>findChildPageID\<close> follows.\<close>

lemma node_route:
  assumes p: "node_page p i ks (map root_of ts)" and t: "tree_in e lo hi (Node i ks ts)"
    and K: "ckey_ok (key_kinds e) (tid, v)" "above lo (tid, v)" "below hi (tid, v)"
  obtains ka kb as u bs where "ks = ka @ kb" "ts = as @ u # bs" "length as = length ka"
    "find_child_page_id p tid (Some v) = Some (root_of u)"
    "tree_in e (lower lo ka) (upper hi kb) u" "above (lower lo ka) (tid, v)" "below (upper hi kb) (tid, v)"
    "\<And>a c. a \<in> set as \<Longrightarrow> c \<in> set (tree_cells a) \<Longrightarrow> ckey c < (tid, v)"
    "\<And>b c. b \<in> set bs \<Longrightarrow> c \<in> set (tree_cells b) \<Longrightarrow> (tid, v) < ckey c"
    "\<forall>k \<in> set ka. k \<le> (tid, v)" "kb = [] \<or> (tid, v) < hd kb"
proof -
  let ?K = "(tid, v)" and ?is = "map root_of ts"
  have len: "length ?is = Suc (length ks)" and wf: "page_wf p" and cells: "page_cells p = map2 icell ks ?is"
    and right: "rightmost_child p = last ?is"
    using p by (simp_all add: node_page_def)
  have kok: "\<forall>k \<in> set ks. ckey_ok (key_kinds e) k" and kids: "kids_in (tree_in e) lo hi ks ts"
    using t by (auto simp: key_in_env_def)
  obtain ka kb ia c ib where s: "ks = ka @ kb" "?is = ia @ c # ib" "length ia = length ka"
    "\<forall>k \<in> set ka. k \<le> ?K" "kb = [] \<or> ?K < hd kb" "child_of (map2 icell ks ?is) (last ?is) ?K = c"
    by (rule child_split [OF len kok, of ?K])
  obtain as u bs where ts: "ts = as @ u # bs" "ia = map root_of as" "c = root_of u"
    using s(2) by (auto simp: map_eq_append_conv map_eq_Cons_conv)
  have la: "length as = length ka"
    using s(3) ts(2) by simp
  have kids': "kids_in (tree_in e) lo hi (ka @ kb) (as @ u # bs)"
    using kids s(1) ts(1) by simp
  have "internal_ok (key_kinds e) c" if "c \<in> set (page_cells p)" for c
  proof -
    obtain k j where "c = icell k j" "k \<in> set ks"
      using \<open>c \<in> set (page_cells p)\<close> unfolding cells by (auto dest: set_zip_leftD)
    then show ?thesis
      using icell_decode(5) kok by blast
  qed
  then have fc: "find_child_page_id p tid (Some v) = Some (root_of u)"
    using find_child_ok [OF wf K(1)] s(6) right by (simp add: cells ts(3))
  show thesis
  proof (rule that [OF s(1) ts(1) la fc])
    show "tree_in e (lower lo ka) (upper hi kb) u"
      by (rule kids_in_member [OF kids' la])
    show "above (lower lo ka) ?K" "below (upper hi kb) ?K"
      using route_bounds [OF K(2,3) s(4,5)] .
    show "ckey c < ?K" if "a \<in> set as" "c \<in> set (tree_cells a)" for a c
      using kids_left [OF kids' la that] s(4) by (metis order.strict_trans2)
    show "?K < ckey c" if "b \<in> set bs" "c \<in> set (tree_cells b)" for b c
      using kids_right [OF kids' la that] s(5) by (metis order.strict_trans2)
  qed (use s in blast)+
qed

lemma set_leaves_cells_trees: "set (leaves_cells (concat (map leaves ts))) = (\<Union>t \<in> set ts. set (tree_cells t))"
  by (simp add: leaves_cells_concat tree_cells_def)

lemma find_leaf_from_ok:
  assumes "tree_in e lo hi t" "balanced n t" "holds_tree (o_view (obs s)) t" "reader_ready s"
    "ckey_ok (key_kinds e) (tid, v)" "above lo (tid, v)" "below hi (tid, v)" "n < fuel"
  shows "\<exists>i cs nx ls1 ls2 s'. find_leaf_from fuel (root_of t) tid (Some v) s = (Ok i, s') \<and>
    obs s' = obs s \<and> reader_ready s' \<and> leaves t = ls1 @ (i, cs, nx) # ls2 \<and>
    (\<forall>c \<in> set (leaves_cells ls1). ckey c < (tid, v)) \<and> (\<forall>c \<in> set (leaves_cells ls2). (tid, v) < ckey c)"
  using assms
proof (induction n t arbitrary: lo hi fuel s rule: balanced.induct)
  case (1 i cs nx)
  obtain f where f: "fuel = Suc f"
    using "1.prems"(8) by (cases fuel) auto
  obtain p where p: "o_view (obs s) i = Some p" "leaf_page p i cs nx"
    using "1.prems"(3) by auto
  obtain u where u: "reader_ready u" "obs u = obs s"
    "\<And>body (k :: storage \<Rightarrow> u32 res \<times> storage). (\<And>w. body p w = k (release_page i w)) \<Longrightarrow> bindG (fetch_page i) body s = k u"
    by (rule reader.read_page [OF "1.prems"(4) p(1)]) blast
  have "find_leaf_from fuel (root_of (Leaf i cs nx)) tid (Some v) s = (Ok i, u)"
    unfolding f find_leaf_from.simps root_of.simps
    by (rule u(3) [of _ "\<lambda>w. (Ok i, w)"]) (use p(2) in \<open>simp add: leaf_page_def bindG_def\<close>)
  then show ?case
    using u(1,2) by (intro exI [of _ i] exI [of _ cs] exI [of _ nx] exI [of _ "[]"] exI [of _ u]) simp
next
  case (2 n i ks ts)
  obtain f where f: "fuel = Suc f" "n < f"
    using "2.prems"(8) by (cases fuel) auto
  obtain p where p: "o_view (obs s) i = Some p" "node_page p i ks (map root_of ts)"
    using "2.prems"(3) by auto
  obtain ka kb as u bs where r: "ks = ka @ kb" "ts = as @ u # bs" "length as = length ka"
    "find_child_page_id p tid (Some v) = Some (root_of u)"
    "tree_in e (lower lo ka) (upper hi kb) u" "above (lower lo ka) (tid, v)" "below (upper hi kb) (tid, v)"
    "\<And>a c. a \<in> set as \<Longrightarrow> c \<in> set (tree_cells a) \<Longrightarrow> ckey c < (tid, v)"
    "\<And>b c. b \<in> set bs \<Longrightarrow> c \<in> set (tree_cells b) \<Longrightarrow> (tid, v) < ckey c"
    by (rule node_route [OF p(2) "2.prems"(1,5,6,7)]) blast
  obtain w where w: "reader_ready w" "obs w = obs s"
    "\<And>body (k :: storage \<Rightarrow> u32 res \<times> storage). (\<And>x. body p x = k (release_page i x)) \<Longrightarrow> bindG (fetch_page i) body s = k w"
    by (rule reader.read_page [OF "2.prems"(4) p(1)]) blast
  have step: "find_leaf_from fuel (root_of (Node i ks ts)) tid (Some v) s = find_leaf_from f (root_of u) tid (Some v) w"
    unfolding f(1) find_leaf_from.simps root_of.simps
    by (rule w(3)) (use p(2) r(4) in \<open>simp add: node_page_def bindG_def\<close>)
  have u: "u \<in> set ts" "balanced n u" "holds_tree (o_view (obs w)) u"
    using "2.prems"(2,3) by (simp_all add: r(2) w(2))
  obtain j cs nx ls1 ls2 s' where IH: "find_leaf_from f (root_of u) tid (Some v) w = (Ok j, s')"
    "obs s' = obs w" "reader_ready s'" "leaves u = ls1 @ (j, cs, nx) # ls2"
    "\<forall>c \<in> set (leaves_cells ls1). ckey c < (tid, v)" "\<forall>c \<in> set (leaves_cells ls2). (tid, v) < ckey c"
    using "2.IH" [OF u(1) r(5) u(2,3) w(1) "2.prems"(5) r(6,7) f(2)] by blast
  show ?case
  proof (intro exI conjI)
    show "find_leaf_from fuel (root_of (Node i ks ts)) tid (Some v) s = (Ok j, s')"
      using step IH(1) by simp
    show "leaves (Node i ks ts) = (concat (map leaves as) @ ls1) @ (j, cs, nx) # (ls2 @ concat (map leaves bs))"
      by (simp add: r(2) IH(4))
    show "\<forall>c \<in> set (leaves_cells (concat (map leaves as) @ ls1)). ckey c < (tid, v)"
      using IH(5) r(8) set_leaves_cells_trees [of as] by auto
    show "\<forall>c \<in> set (leaves_cells (ls2 @ concat (map leaves bs))). (tid, v) < ckey c"
      using IH(6) r(9) set_leaves_cells_trees [of bs] by auto
  qed (use IH w in auto)
qed auto


section \<open>Searching\<close>

lemma pos_of_found:
  assumes "sorted_wrt (<) (map ckey cs)" "c \<in> set cs" "ckey c = k"
  shows "0 < pos_of cs k" "pos_of cs k \<le> length cs" "cs ! (pos_of cs k - 1) = c"
proof -
  obtain us vs where cs: "cs = us @ c # vs"
    using assms(2) by (meson split_list)
  have "pos_of cs k = length (us @ [c])"
    using assms(1,3) by (intro pos_of_split [of _ _ vs]) (auto simp: cs sorted_wrt_append order.order_iff_strict)
  then show "0 < pos_of cs k" "pos_of cs k \<le> length cs" "cs ! (pos_of cs k - 1) = c"
    by (simp_all add: cs)
qed

lemma leaf_in_sorted: "leaf_in e lo hi cs \<Longrightarrow> sorted_wrt (<) (map ckey cs)"
  and leaf_in_ok: "leaf_in e lo hi cs \<Longrightarrow> c \<in> set cs \<Longrightarrow> cell_ok (key_kinds e) c"
  by (auto simp: leaf_in_def cell_in_env_def)

lemma btree_okD:
  assumes "btree_ok e n t x"
  shows "env_ok e" "holds_tree (o_view x) t" "root_of t = o_root x" "balanced n t" "tree_in e None None t"
    "distinct (page_ids t)" "chained (leaves t) no_page_id"
  using assms by (simp_all add: btree_ok_def)

text \<open>The leaf that holds a key, or should hold it, and its page.\<close>

lemma find_leaf_ok:
  assumes bt: "btree_ok e n t (obs s)" and s: "reader_ready s" and K: "ckey_ok (key_kinds e) (tid, v)" and f: "n < fuel"
  obtains i cs nx ls1 ls2 s' p where "find_leaf fuel tid (Some v) s = (Ok i, s')" "obs s' = obs s" "reader_ready s'"
    "leaves t = ls1 @ (i, cs, nx) # ls2"
    "\<forall>c \<in> set (leaves_cells ls1). ckey c < (tid, v)" "\<forall>c \<in> set (leaves_cells ls2). (tid, v) < ckey c"
    "o_view (obs s) i = Some p" "leaf_page p i cs nx" "sorted_wrt (<) (map ckey cs)"
    "\<forall>c \<in> set cs. cell_ok (key_kinds e) c"
proof -
  note b = btree_okD [OF bt]
  obtain i cs nx ls1 ls2 s' where r: "find_leaf_from fuel (root_of t) tid (Some v) s = (Ok i, s')"
    "obs s' = obs s" "reader_ready s'" "leaves t = ls1 @ (i, cs, nx) # ls2"
    "\<forall>c \<in> set (leaves_cells ls1). ckey c < (tid, v)" "\<forall>c \<in> set (leaves_cells ls2). (tid, v) < ckey c"
    using find_leaf_from_ok [OF b(5,4,2) s K _ _ f] by auto
  have l: "(i, cs, nx) \<in> set (leaves t)"
    by (simp add: r(4))
  obtain p where p: "o_view (obs s) i = Some p" "leaf_page p i cs nx"
    using holds_tree_leaf [OF b(2) l] by blast
  obtain lo hi where "leaf_in e lo hi cs"
    using tree_in_leaf [OF b(5) l] by blast
  then have "sorted_wrt (<) (map ckey cs)" "\<forall>c \<in> set cs. cell_ok (key_kinds e) c"
    using leaf_in_sorted leaf_in_ok by blast+
  moreover have "find_leaf fuel tid (Some v) s = (Ok i, s')"
    using r(1) b(3) by (simp add: find_leaf_def bindG_def)
  ultimately show thesis
    using that r(2-6) p by blast
qed

lemma leaf_page_cells:
  assumes "leaf_page p i cs nx"
  shows "page_wf p" "page_cells p = cs" "page_type p = type_leaf" "rightmost_child p = nx" "page_id p = i"
    "unat (cell_count p) = length cs"
  using assms length_page_cells [of p] by (auto simp: leaf_page_def)

lemma tree_cells_split:
  "leaves t = ls1 @ (i, cs, nx) # ls2 \<Longrightarrow> tree_cells t = leaves_cells ls1 @ cs @ leaves_cells ls2"
  by (simp add: tree_cells_def)

lemma search_ok:
  assumes bt: "btree_ok e n t (obs s)" and s: "reader_ready s" and K: "ckey_ok (key_kinds e) (tid, v)" and f: "n < fuel"
    and row: "\<And>c. c \<in> set (tree_cells t) \<Longrightarrow> ckey c = (tid, v) \<Longrightarrow> decode_leaf_cell c sch = Some (row c)"
  obtains s' where "search fuel tid (Some v) sch s =
      (Ok (map_option (\<lambda>c. snd (snd (row c))) (find (\<lambda>c. ckey c = (tid, v)) (tree_cells t))), s')"
    "obs s' = obs s" "reader_ready s'"
proof -
  let ?K = "(tid, v)"
  obtain i cs nx ls1 ls2 s1 p where r: "find_leaf fuel tid (Some v) s = (Ok i, s1)" "obs s1 = obs s" "reader_ready s1"
    "leaves t = ls1 @ (i, cs, nx) # ls2"
    "\<forall>c \<in> set (leaves_cells ls1). ckey c < ?K" "\<forall>c \<in> set (leaves_cells ls2). ?K < ckey c"
    "o_view (obs s) i = Some p" "leaf_page p i cs nx" "sorted_wrt (<) (map ckey cs)"
    "\<forall>c \<in> set cs. cell_ok (key_kinds e) c"
    by (rule find_leaf_ok [OF bt s K f])
  note lp = leaf_page_cells [OF r(8)]
  note tc = tree_cells_split [OF r(4)]
  have v1: "o_view (obs s1) i = Some p"
    using r(2,7) by simp
  obtain u where u: "reader_ready u" "obs u = obs s1"
    "\<And>body (k :: storage \<Rightarrow> row option res \<times> storage). (\<And>w. body p w = k (release_page i w)) \<Longrightarrow> bindG (fetch_page i) body s1 = k u"
    by (rule reader.read_page [OF r(3) v1]) blast
  have sl: "search_in_leaf p tid (Some v) =
      Some (if ?K \<in> ckey ` set cs then (pos_of cs ?K - 1, True) else (0, False))"
    using search_in_leaf_ok [OF lp(1) K] r(9,10) by (simp add: lp(2))
  let ?res = "map_option (\<lambda>c. snd (snd (row c))) (find (\<lambda>c. ckey c = ?K) (tree_cells t))"
  have none: "find (\<lambda>c. ckey c = ?K) (leaves_cells ls1) = None" "find (\<lambda>c. ckey c = ?K) (leaves_cells ls2) = None"
    using r(5,6) by (auto simp: find_None_iff)
  have fnd: "find (\<lambda>c. ckey c = ?K) (xs @ ys) =
      (case find (\<lambda>c. ckey c = ?K) xs of None \<Rightarrow> find (\<lambda>c. ckey c = ?K) ys | Some c \<Rightarrow> Some c)" for xs ys
    by (induction xs) auto
  have res: "?res = map_option (\<lambda>c. snd (snd (row c))) (find (\<lambda>c. ckey c = ?K) cs)"
    using none by (simp add: tc fnd split: option.split)
  have "bindG (fetch_page i) (\<lambda>p.
     bindG (of_option (search_in_leaf p tid (Some v))) (\<lambda>(idx, found).
     if \<not> found then bindG (modifyG (release_page i)) (\<lambda>_. ret None)
     else
       bindG (of_option (do { c \<leftarrow> cell_at idx p; decode_leaf_cell c sch })) (\<lambda>(_, _, r).
       bindG (modifyG (release_page i)) (\<lambda>_. ret (Some r))))) s1 = (Ok ?res, u)"
  proof (cases "?K \<in> ckey ` set cs")
    case True
    then obtain c where c: "c \<in> set cs" "ckey c = ?K" by auto
    note ps = pos_of_found [OF r(9) c]
    have ca: "cell_at (pos_of cs ?K - 1) p = Some c"
      using cell_at_ok [OF lp(1), of "pos_of cs ?K - 1"] ps by (simp add: lp(2,6))
    have dc: "decode_leaf_cell c sch = Some (row c)"
      using row c by (simp add: tc)
    have "find (\<lambda>c. ckey c = ?K) cs = Some c"
    proof -
      obtain c' where c': "find (\<lambda>c. ckey c = ?K) cs = Some c'"
        using c by (cases "find (\<lambda>c. ckey c = ?K) cs") (auto simp: find_None_iff)
      then have "c' \<in> set cs" "ckey c' = ?K"
        by (auto simp: find_Some_iff)
      then have "c' = c"
        using pos_of_found(3) [OF r(9)] c ps(3) by metis
      with c' show ?thesis by simp
    qed
    then show ?thesis
      using True ca dc
      by (intro u(3) [of _ "\<lambda>w. (Ok ?res, w)"]) (simp add: sl bindG_def res split: prod.split)
  next
    case False
    then have "find (\<lambda>c. ckey c = ?K) cs = None"
      unfolding find_None_iff by (metis image_eqI)
    then show ?thesis
      using False by (intro u(3) [of _ "\<lambda>w. (Ok ?res, w)"]) (simp add: sl bindG_def res)
  qed
  then have "search fuel tid (Some v) sch s = (Ok ?res, u)"
    by (simp add: search_def bindG_def r(1))
  then show thesis
    using that u(1,2) r(2) by simp
qed

section \<open>Scanning\<close>

definition rows_of :: "schema \<Rightarrow> u32 \<Rightarrow> byte list list \<Rightarrow> row list" where
  "rows_of sch tid cs = map (\<lambda>c. snd (snd (the (decode_leaf_cell c sch)))) (filter (\<lambda>c. fst (ckey c) = tid) cs)"

lemma rows_of_simps [simp]:
  "rows_of sch tid [] = []" "rows_of sch tid (cs @ ds) = rows_of sch tid cs @ rows_of sch tid ds"
  by (simp_all add: rows_of_def)

lemma cell_ok_table_id: "cell_ok kinds c \<Longrightarrow> cell_table_id c = Some (fst (ckey c))"
  by (erule cell_ok_decode) (simp add: cell_table_id_decode)

definition decodable :: "schema \<Rightarrow> u32 \<Rightarrow> byte list list \<Rightarrow> bool" where
  "decodable sch tid cs \<longleftrightarrow> (\<forall>c \<in> set cs. fst (ckey c) = tid \<longrightarrow> decode_leaf_cell c sch \<noteq> None)"

lemma rows_of_later: "\<forall>c \<in> set cs. tid < fst (ckey c) \<Longrightarrow> rows_of sch tid cs = []"
  by (induction cs) (auto simp: rows_of_def)

lemma sorted_tables: "sorted_wrt (<) (map ckey (c # cs)) \<Longrightarrow> d \<in> set cs \<Longrightarrow> fst (ckey c) \<le> fst (ckey d)"
  by (auto simp: less_prod_def')

lemma scan_cells_ok:
  assumes wf: "page_wf p" and "\<forall>i \<in> set is. i < length (page_cells p)"
    and "\<forall>i \<in> set is. cell_ok kinds (page_cells p ! i)"
    and "sorted_wrt (<) (map ckey (map ((!) (page_cells p)) is))" "decodable sch tid (map ((!) (page_cells p)) is)"
  shows "scan_cells p tid sch is = Some (rows_of sch tid (map ((!) (page_cells p)) is),
     \<exists>c \<in> set (map ((!) (page_cells p)) is). tid < fst (ckey c))"
  using assms(2-5)
proof (induction "is")
  case Nil
  then show ?case by simp
next
  case (Cons i "is")
  let ?c = "page_cells p ! i" and ?cs = "map ((!) (page_cells p)) is"
  have ca: "cell_at i p = Some ?c" and ok: "cell_ok kinds ?c" and ti: "cell_table_id ?c = Some (fst (ckey ?c))"
    using Cons.prems cell_at_ok [OF wf] cell_ok_table_id by auto
  have IH: "scan_cells p tid sch is = Some (rows_of sch tid ?cs, \<exists>c \<in> set ?cs. tid < fst (ckey c))"
    using Cons.prems by (intro Cons.IH) (auto simp: decodable_def)
  have le: "fst (ckey ?c) \<le> fst (ckey d)" if "d \<in> set ?cs" for d
    using sorted_tables [of ?c ?cs d] Cons.prems(3) that by simp
  consider (lt) "fst (ckey ?c) < tid" | (gt) "tid < fst (ckey ?c)" | (eq) "fst (ckey ?c) = tid"
    by (metis linorder_less_linear)
  then show ?case
  proof cases
    case lt
    then show ?thesis
      using ca ti IH by (auto simp: rows_of_def)
  next
    case gt
    then have "\<forall>d \<in> set (?c # ?cs). tid < fst (ckey d)"
      using le by (auto intro: order.strict_trans2)
    then have "rows_of sch tid (?c # ?cs) = []"
      by (rule rows_of_later)
    then show ?thesis
      using gt ca ti by (auto dest: less_asym)
  next
    case eq
    then obtain x where "decode_leaf_cell ?c sch = Some x"
      using Cons.prems(4) by (auto simp: decodable_def)
    then show ?thesis
      using eq ca ti IH by (cases x) (simp add: rows_of_def)
  qed
qed

lemma no_page_not_stored: "db_ok M s \<Longrightarrow> o_view (obs s) no_page_id = None"
proof (rule ccontr)
  assume "db_ok M s" "o_view (obs s) no_page_id \<noteq> None"
  then have "no_page_id < o_next (obs s)"
    using o_view_id(3) by blast
  then show False
    using unsigned_less [where 'a = nat, of "o_next (obs s)"] by (simp add: no_page_id_def word_less_nat_alt)
qed

text \<open>The walk along the leaf chain, from any leaf on.\<close>

lemma scan_leaves_ok:
  assumes "chained ls no_page_id" "\<forall>(i, cs, nx) \<in> set ls. \<exists>p. o_view (obs s) i = Some p \<and> leaf_page p i cs nx"
    "reader_ready s" "\<forall>c \<in> set (leaves_cells ls). cell_ok kinds c"
    "sorted_wrt (<) (map ckey (leaves_cells ls))" "decodable sch tid (leaves_cells ls)" "length ls < fuel"
  shows "\<exists>s'. scan_leaves fuel (case ls of [] \<Rightarrow> no_page_id | l # _ \<Rightarrow> fst l) tid sch s =
      (Ok (rows_of sch tid (leaves_cells ls)), s') \<and> obs s' = obs s \<and> reader_ready s'"
  using assms
proof (induction ls arbitrary: fuel s)
  case Nil
  then show ?case
    by (auto simp: scan_leaves.simps)
next
  case (Cons l ls)
  obtain i cs nx where l: "l = (i, cs, nx)" by (cases l)
  obtain f where f: "fuel = Suc f" "length ls < f"
    using Cons.prems(7) by (cases fuel) auto
  obtain p where p: "o_view (obs s) i = Some p" "leaf_page p i cs nx"
    using Cons.prems(2) by (auto simp: l)
  note lp = leaf_page_cells [OF p(2)]
  have ok: "db_ok {} s"
    using Cons.prems(3) by (simp add: reader_ready_def)
  have i: "i \<noteq> no_page_id"
    using p(1) no_page_not_stored [OF ok] by auto
  have nx: "nx = (case ls of [] \<Rightarrow> no_page_id | l # _ \<Rightarrow> fst l)"
    using Cons.prems(1) by (simp add: l)
  obtain u where u: "reader_ready u" "obs u = obs s"
    "\<And>body (k :: storage \<Rightarrow> row list res \<times> storage). (\<And>w. body p w = k (release_page i w)) \<Longrightarrow> bindG (fetch_page i) body s = k u"
    by (rule reader.read_page [OF Cons.prems(3) p(1)]) blast
  have idx: "map ((!) (page_cells p)) [0..<unat (cell_count p)] = cs"
    using map_nth [of cs] by (simp add: lp(2,6))
  have sc: "scan_cells p tid sch [0..<unat (cell_count p)] =
      Some (rows_of sch tid cs, \<exists>c \<in> set cs. tid < fst (ckey c))"
    using scan_cells_ok [OF lp(1), of "[0..<unat (cell_count p)]" kinds sch tid] Cons.prems(4,5,6)
    unfolding idx by (simp add: l lp sorted_wrt_append decodable_def)
  let ?rest = "bindG (scan_leaves f nx tid sch) (\<lambda>rs'. ret (rows_of sch tid cs @ rs'))"
  have step: "scan_leaves fuel i tid sch s =
      (if \<exists>c \<in> set cs. tid < fst (ckey c) then (Ok (rows_of sch tid cs), u) else ?rest u)"
    unfolding f(1) scan_leaves.simps [of "Suc f"] if_not_P [OF i] nat.case
    by (rule u(3) [of _ "\<lambda>w. if \<exists>c \<in> set cs. tid < fst (ckey c) then (Ok (rows_of sch tid cs), w) else ?rest w"])
      (simp add: sc bindG_def next_leaf_id_def lp(4))
  obtain s' where s': "scan_leaves f nx tid sch u = (Ok (rows_of sch tid (leaves_cells ls)), s')"
    "obs s' = obs u" "reader_ready s'"
    using Cons.IH [OF _ _ u(1) _ _ _ f(2)] Cons.prems(1,2,4,5,6)
    by (auto simp: l nx u(2) sorted_wrt_append decodable_def)
  show ?case
  proof (cases "\<exists>c \<in> set cs. tid < fst (ckey c)")
    case True
    then obtain c where c: "c \<in> set cs" "tid < fst (ckey c)" by blast
    have "tid < fst (ckey d)" if "d \<in> set (leaves_cells ls)" for d
    proof -
      have "ckey c < ckey d"
        using Cons.prems(5) c(1) that by (auto simp: l sorted_wrt_append)
      then have "fst (ckey c) \<le> fst (ckey d)"
        by (auto simp: less_prod_def')
      with c(2) show ?thesis by simp
    qed
    then have "rows_of sch tid (leaves_cells ls) = []"
      by (intro rows_of_later) blast
    then show ?thesis
      using step True u by (intro exI [of _ u]) (simp add: l)
  next
    case False
    then show ?thesis
      using step s' u(2) by (intro exI [of _ s']) (simp add: l bindG_def)
  qed
qed

lemma balanced_leaves: "balanced n t \<Longrightarrow> tree_in e lo hi t \<Longrightarrow> leaves t \<noteq> []"
proof (induction n t arbitrary: lo hi rule: balanced.induct)
  case (2 n i ks ts)
  then obtain t where t: "t \<in> set ts"
    using kids_in_length [of "tree_in e" lo hi ks ts] by (cases ts) auto
  then obtain as bs where ts: "ts = as @ t # bs" by (meson split_list)
  obtain l h where "tree_in e l h t"
    using 2(3) kids_in_member [of "tree_in e" lo hi "take (length as) ks" "drop (length as) ks" as t bs]
      kids_in_length [of "tree_in e" lo hi ks ts] by (auto simp: ts)
  then show ?case
    using 2(1) [OF t] 2(2) t by auto
qed auto

lemma find_leftmost_ok:
  assumes "tree_in e lo hi t" "balanced n t" "holds_tree (o_view (obs s)) t" "reader_ready s" "n < fuel"
  shows "\<exists>s'. find_leftmost_leaf fuel (root_of t) s = (Ok (fst (hd (leaves t))), s') \<and> obs s' = obs s \<and> reader_ready s'"
  using assms
proof (induction n t arbitrary: lo hi fuel s rule: balanced.induct)
  case (1 i cs nx)
  obtain f where f: "fuel = Suc f"
    using "1.prems"(5) by (cases fuel) auto
  obtain p where p: "o_view (obs s) i = Some p" "leaf_page p i cs nx"
    using "1.prems"(3) by auto
  obtain u where u: "reader_ready u" "obs u = obs s"
    "\<And>body (k :: storage \<Rightarrow> u32 res \<times> storage). (\<And>w. body p w = k (release_page i w)) \<Longrightarrow> bindG (fetch_page i) body s = k u"
    by (rule reader.read_page [OF "1.prems"(4) p(1)]) blast
  have "find_leftmost_leaf fuel i s = (Ok i, u)"
    unfolding f find_leftmost_leaf.simps
    by (rule u(3) [of _ "\<lambda>w. (Ok i, w)"]) (use p(2) in \<open>simp add: leaf_page_def bindG_def\<close>)
  then show ?case
    using u(1,2) by auto
next
  case (2 n i ks ts)
  obtain f where f: "fuel = Suc f" "n < f"
    using "2.prems"(5) by (cases fuel) auto
  obtain p where p: "o_view (obs s) i = Some p" "node_page p i ks (map root_of ts)"
    using "2.prems"(3) by auto
  have kids: "kids_in (tree_in e) lo hi ks ts" and "ks \<noteq> []" and kok: "\<forall>k \<in> set ks. ckey_ok (key_kinds e) k"
    using "2.prems"(1) by (auto simp: key_in_env_def)
  then obtain k ks' where ks: "ks = k # ks'" by (cases ks) auto
  obtain t ts' where ts: "ts = t # ts'" "tree_in e lo (Some k) t" "length ts' = Suc (length ks')"
    using kids kids_in_length [OF kids] by (cases ts) (auto simp: ks)
  have wf: "page_wf p" and cells: "page_cells p = icell k (root_of t) # map2 icell ks' (map root_of ts')"
    using p(2) by (simp_all add: node_page_def ks ts)
  have "length (page_cells p) \<noteq> 0"
    by (simp only: cells) simp
  then have nz: "cell_count p \<noteq> 0"
    by auto
  have ca: "cell_at 0 p = Some (icell k (root_of t))"
    using cell_at_ok [OF wf, of 0] \<open>length (page_cells p) \<noteq> 0\<close> by (simp add: cells)
  have dc: "decode_internal_cell (icell k (root_of t)) = Some (fst k, Some (snd k), root_of t)"
    using icell_decode(1) [of "key_kinds e" k] kok by (simp add: ks)
  obtain w where w: "reader_ready w" "obs w = obs s"
    "\<And>body (k :: storage \<Rightarrow> u32 res \<times> storage). (\<And>x. body p x = k (release_page i x)) \<Longrightarrow> bindG (fetch_page i) body s = k w"
    by (rule reader.read_page [OF "2.prems"(4) p(1)]) blast
  have step: "find_leftmost_leaf fuel i s = find_leftmost_leaf f (root_of t) w"
    unfolding f(1) find_leftmost_leaf.simps
    by (rule w(3)) (use p(2) nz ca dc in \<open>simp add: node_page_def bindG_def\<close>)
  have t: "t \<in> set ts" "balanced n t" "holds_tree (o_view (obs w)) t"
    using "2.prems"(2,3) by (simp_all add: ts w(2))
  obtain s' where "find_leftmost_leaf f (root_of t) w = (Ok (fst (hd (leaves t))), s')" "obs s' = obs w" "reader_ready s'"
    using "2.IH" [OF t(1) ts(2) t(2,3) w(1) f(2)] by blast
  then show ?case
    using step w(2) balanced_leaves [OF t(2) ts(2)] by (simp add: ts(1))
qed auto

lemma scan_ok:
  assumes bt: "btree_ok e n t (obs s)" and s: "reader_ready s" and f: "n < fuel" "length (leaves t) < fuel2"
    and dec: "decodable sch tid (tree_cells t)"
  obtains s' where "scan fuel fuel2 tid sch s = (Ok (rows_of sch tid (tree_cells t)), s')"
    "obs s' = obs s" "reader_ready s'"
proof -
  note b = btree_okD [OF bt]
  obtain u where u: "find_leftmost_leaf fuel (root_of t) s = (Ok (fst (hd (leaves t))), u)" "obs u = obs s" "reader_ready u"
    using find_leftmost_ok [OF b(5,4,2) s f(1)] by blast
  have li: "leaf_in e None None (tree_cells t)"
    by (rule tree_in_cells [OF b(5)])
  have ne: "leaves t \<noteq> []"
    by (rule balanced_leaves [OF b(4,5)])
  have pages: "\<forall>(i, cs, nx) \<in> set (leaves t). \<exists>p. o_view (obs u) i = Some p \<and> leaf_page p i cs nx"
    using holds_tree_leaf [OF b(2)] by (auto simp: u(2))
  obtain s' where "scan_leaves fuel2 (case leaves t of [] \<Rightarrow> no_page_id | l # _ \<Rightarrow> fst l) tid sch u =
      (Ok (rows_of sch tid (leaves_cells (leaves t))), s')" "obs s' = obs u" "reader_ready s'"
    using scan_leaves_ok [OF b(7) pages u(3) _ _ _ f(2), of "key_kinds e" sch tid]
      leaf_in_ok [OF li] leaf_in_sorted [OF li] dec unfolding tree_cells_def by blast
  moreover have "(case leaves t of [] \<Rightarrow> no_page_id | l # _ \<Rightarrow> fst l) = fst (hd (leaves t))"
    using ne by (cases "leaves t") auto
  ultimately have "scan fuel fuel2 tid sch s = (Ok (rows_of sch tid (tree_cells t)), s')" "obs s' = obs s" "reader_ready s'"
    using u b(3) by (simp_all add: scan_def bindG_def tree_cells_def)
  then show thesis by (rule that)
qed

end
