(* ===== verification/Tree_Insert.thy ===== *)
theory Tree_Insert imports Tree begin

section \<open>Splitting by count\<close>

lemma cells_size_upper: "\<forall>c \<in> set cs. length c + 4 \<le> M \<Longrightarrow> cells_size cs \<le> length cs * M"
  by (induction cs) fastforce+

lemma cells_size_lower: "\<forall>c \<in> set cs. m \<le> length c + 4 \<Longrightarrow> length cs * m \<le> cells_size cs"
  by (induction cs) fastforce+

lemma half_fits:
  assumes e: "env_ok e" and sz: "\<forall>c \<in> set (xs @ ys). sized e (length c)"
    and total: "cells_size (xs @ ys) \<le> 4072 + max_cell e" and half: "length xs \<le> Suc (length ys)"
  shows "cells_size xs \<le> 4072"
proof (cases "length xs * max_cell e \<le> 4072")
  case True
  have "cells_size xs \<le> length xs * max_cell e"
    using sz by (intro cells_size_upper) (auto simp: sized_def)
  with True show ?thesis by simp
next
  case False
  let ?m = "min_cell e" and ?M = "max_cell e"
  have "4072 < Suc (length ys) * ?M"
  proof -
    have "length xs * ?M \<le> Suc (length ys) * ?M"
      using half by (rule mult_right_mono) simp
    with False show ?thesis by linarith
  qed
  then have "4072 * ?m < Suc (length ys) * ?M * ?m"
    using e by (simp add: env_ok_def)
  then have "?M * ?M + ?M * ?m < Suc (length ys) * ?M * ?m"
    using e unfolding env_ok_def by linarith
  then have "?M * (?M + ?m) < ?M * (Suc (length ys) * ?m)"
    by (simp add: algebra_simps)
  then have "?M < length ys * ?m"
    by (simp add: algebra_simps)
  moreover have "length ys * ?m \<le> cells_size ys"
    using sz by (intro cells_size_lower) (auto simp: sized_def)
  ultimately show ?thesis
    using total by simp
qed

lemma halves_fit:
  assumes "env_ok e" "\<forall>c \<in> set cs. sized e (length c)" "cells_size cs \<le> 4072 + max_cell e"
  shows "cells_size (take (length cs div 2) cs) \<le> 4072" "cells_size (drop (length cs div 2) cs) \<le> 4072"
proof -
  let ?n = "length cs div 2"
  have e: "take ?n cs @ drop ?n cs = cs" by simp
  have s: "set (take ?n cs) \<union> set (drop ?n cs) = set cs"
    by (metis e set_append)
  have t: "cells_size (take ?n cs) + cells_size (drop ?n cs) = cells_size cs"
    by (metis e cells_size_simps(3))
  show "cells_size (take ?n cs) \<le> 4072"
    using assms s t by (intro half_fits [OF assms(1), of _ "drop ?n cs"]) auto
  show "cells_size (drop ?n cs) \<le> 4072"
    using assms s t by (intro half_fits [OF assms(1), of _ "take ?n cs"]) auto
qed

lemma two_cells_fit:
  assumes "env_ok e" "sized e a" "sized e b"
  shows "a + b + 8 \<le> 4072"
proof -
  let ?m = "min_cell e" and ?M = "max_cell e"
  have "?M * ?M + ?M * ?m \<le> 4072 * ?M" "0 < ?M"
    using assms(1) unfolding env_ok_def by (auto intro: order.trans)
  then have "?M + ?m \<le> 4072"
    by (metis add_mult_distrib2 mult.commute nat_mult_le_cancel1)
  have "?M * ?M + ?M * ?m \<le> 4072 * ?m" "?m \<le> ?M"
    using assms(1) by (auto simp: env_ok_def)
  then have "?M * ?M \<le> (4072 - ?M) * ?m"
    by (simp add: diff_mult_distrib algebra_simps)
  also have "\<dots> \<le> (4072 - ?M) * ?M"
    using \<open>?m \<le> ?M\<close> by simp
  finally have "?M \<le> 4072 - ?M"
    using \<open>0 < ?M\<close> by simp
  then have "2 * ?M \<le> 4072"
    using \<open>?M + ?m \<le> 4072\<close> by linarith
  then show ?thesis
    using assms(2,3) by (simp add: sized_def)
qed

lemma sized_nonempty: "env_ok e \<Longrightarrow> cell_in_env e c \<Longrightarrow> c \<noteq> []"
  by (auto simp: cell_in_env_def cell_ok_def cell_key_def decode_composite_key_def)

section \<open>Splitting a leaf\<close>

lemma get_owned_rule:
  assumes "o_view (obs s) i = Some p" "o_owner (obs s) i = Some t"
  shows "get_page i s = (Ok p, s)"
proof -
  obtain f where "frame_at s i = Some f"
    using assms(2) by (auto simp: owner_frame)
  then show ?thesis
    using assms(1) by (auto simp: get_page_def obs_fields(6) view_def split: if_splits)
qed

lemma same_header_leaf_page:
  "leaf_page p i cs nx \<Longrightarrow> same_header p q \<Longrightarrow> page_wf q \<Longrightarrow> page_cells q = ds \<Longrightarrow> leaf_page q i ds nx"
  by (simp add: leaf_page_def same_header_def)

lemma leaf_page_set_lsn [simp]: "leaf_page p i cs nx \<Longrightarrow> leaf_page (set_lsn l p) i cs nx"
  by (auto simp: leaf_page_def page_wf_length)

lemma leaf_page_set_rightmost:
  "leaf_page p i cs nx \<Longrightarrow> leaf_page (set_rightmost_child r p) i cs r"
  by (auto simp: leaf_page_def page_wf_length)

lemma leaf_page_wf: "leaf_page p i cs nx \<Longrightarrow> page_wf p" "leaf_page p i cs nx \<Longrightarrow> length p = 4096"
  by (auto simp: leaf_page_def page_wf_length)

lemma reset_leaf_page: "leaf_page p i cs nx \<Longrightarrow> leaf_page (reset_page p) i [] nx"
proof -
  assume p: "leaf_page p i cs nx"
  have l: "length p = 4096"
    by (rule leaf_page_wf(2) [OF p])
  show ?thesis
    by (rule same_header_leaf_page [OF p reset_page_ok(4) [OF l] reset_page_ok(1) [OF l] reset_page_ok(2) [OF l]])
qed

lemma add_cells_leaf:
  assumes "leaf_page p i [] nx" "free_space p = 4072" "\<forall>c \<in> set cs. c \<noteq> []" "cells_size cs \<le> 4072"
  obtains q where "add_cells cs p = Some q" "leaf_page q i cs nx" "free_space q = 4072 - int (cells_size cs)"
proof -
  have f: "int (cells_size cs) \<le> free_space p"
    using assms(2,4) by simp
  obtain q where "add_cells cs p = Some q" "page_wf q" "same_header p q" "page_cells q = page_cells p @ cs"
    "free_space q = free_space p - int (cells_size cs)"
    by (rule add_cells_ok [OF leaf_page_wf(1) [OF assms(1)] assms(3) f])
  moreover from this have "leaf_page q i cs nx"
    using assms(1) by (intro same_header_leaf_page [OF assms(1)]) (auto simp: leaf_page_def)
  ultimately show thesis
    using assms(2) by (intro that [of q]) auto
qed

text \<open>Where a fresh key goes in a sorted list of cells.\<close>

definition insert_cell :: "byte list \<Rightarrow> byte list list \<Rightarrow> byte list list" where
  "insert_cell c cs = takeWhile (\<lambda>d. ckey d < ckey c) cs @ c # dropWhile (\<lambda>d. ckey d < ckey c) cs"

lemma insert_cell_split:
  assumes "sorted_wrt (<) (map ckey cs)" "ckey c \<notin> ckey ` set cs"
  shows "\<forall>d \<in> set (takeWhile (\<lambda>d. ckey d < ckey c) cs). ckey d < ckey c"
    "\<forall>d \<in> set (dropWhile (\<lambda>d. ckey d < ckey c) cs). ckey c < ckey d"
proof -
  show "\<forall>d \<in> set (takeWhile (\<lambda>d. ckey d < ckey c) cs). ckey d < ckey c"
    using set_takeWhileD by fast
  show "\<forall>d \<in> set (dropWhile (\<lambda>d. ckey d < ckey c) cs). ckey c < ckey d"
    using assms
  proof (induction cs)
    case (Cons b cs)
    have ne: "ckey b \<noteq> ckey c"
      using Cons.prems(2) by (metis image_eqI list.set_intros(1))
    show ?case
    proof (cases "ckey b < ckey c")
      case True
      then show ?thesis
        using Cons by (auto simp: image_iff)
    next
      case False
      then have "ckey c < ckey b"
        using ne by (metis linorder_less_linear)
      then show ?thesis
        using False Cons.prems(1) by (auto intro: order.strict_trans)
    qed
  qed simp
qed

lemma insert_cell_unique:
  assumes "\<forall>d \<in> set us. ckey d < ckey c" "\<forall>d \<in> set vs. ckey c < ckey d"
  shows "insert_cell c (us @ vs) = us @ c # vs"
proof -
  have "takeWhile (\<lambda>d. ckey d < ckey c) vs = []" "dropWhile (\<lambda>d. ckey d < ckey c) vs = vs"
    using assms(2) by (cases vs; auto dest: less_asym)+
  then show ?thesis
    using assms(1) by (simp add: insert_cell_def takeWhile_append2 dropWhile_append2)
qed

lemma leaf_in_insert:
  assumes "leaf_in e lo hi cs" "cell_in_env e c" "above lo (ckey c)" "below hi (ckey c)" "ckey c \<notin> ckey ` set cs"
  shows "leaf_in e lo hi (insert_cell c cs)"
proof -
  define us where "us = takeWhile (\<lambda>d. ckey d < ckey c) cs"
  define vs where "vs = dropWhile (\<lambda>d. ckey d < ckey c) cs"
  note s = insert_cell_split [OF leaf_in_sorted [OF assms(1)] assms(5), folded us_def vs_def]
  have "cs = us @ vs"
    by (simp add: us_def vs_def)
  then have l: "leaf_in e lo hi (us @ vs)"
    using assms(1) by simp
  have "leaf_in e lo hi (us @ c # vs)"
    unfolding leaf_in_def map_append list.map sorted_wrt_append sorted_wrt.simps(2)
    using l s assms(2-4) unfolding leaf_in_def by (auto simp: sorted_wrt_append)
  then show ?thesis
    by (simp add: insert_cell_def us_def vs_def)
qed

lemma insert_cell_parts:
  obtains us vs where "cs = us @ vs" "insert_cell c cs = us @ c # vs"
  by (rule that [of "takeWhile (\<lambda>d. ckey d < ckey c) cs" "dropWhile (\<lambda>d. ckey d < ckey c) cs"])
    (simp_all add: insert_cell_def)

lemma insert_cell_facts [simp]:
  "set (insert_cell c cs) = insert c (set cs)" "length (insert_cell c cs) = Suc (length cs)"
  "cells_size (insert_cell c cs) = cells_size cs + length c + 4"
proof -
  obtain us vs where p: "cs = us @ vs" "insert_cell c cs = us @ c # vs"
    by (rule insert_cell_parts)
  show "set (insert_cell c cs) = insert c (set cs)" "length (insert_cell c cs) = Suc (length cs)"
    "cells_size (insert_cell c cs) = cells_size cs + length c + 4"
    unfolding p(2) unfolding p(1) by simp_all
qed

lemma sort_cells_fresh:
  assumes "sorted_wrt (<) (map ckey cs)" "\<forall>c \<in> set cs. cell_ok kinds c" "cell_ok kinds c" "ckey c \<notin> ckey ` set cs"
  shows "sort_cells (cs @ [c]) = Some (insert_cell c cs)"
proof -
  define us where "us = takeWhile (\<lambda>d. ckey d < ckey c) cs"
  define vs where "vs = dropWhile (\<lambda>d. ckey d < ckey c) cs"
  have p: "cs = us @ vs"
    by (simp add: us_def vs_def)
  note s = insert_cell_split [OF assms(1,4), folded us_def vs_def]
  have "sorted_wrt (<) (map ckey us @ ckey c # map ckey vs)"
    using assms(1) s unfolding p sorted_wrt_append map_append sorted_wrt.simps(2) by auto
  moreover have "\<forall>c \<in> set (us @ vs). cell_ok kinds c"
    using assms(2) unfolding p .
  ultimately have "sort_cells (us @ vs @ [c]) = Some (us @ c # vs)"
    using assms(3) by (intro sort_cells_insert)
  moreover have "insert_cell c cs = us @ c # vs"
    unfolding p using s by (rule insert_cell_unique)
  ultimately show ?thesis
    unfolding p append_assoc by simp
qed

lemma pos_of_fresh:
  assumes "sorted_wrt (<) (map ckey cs)" "ckey c \<notin> ckey ` set cs"
  shows "pos_of cs (ckey c) = length (takeWhile (\<lambda>d. ckey d < ckey c) cs)"
  using insert_cell_split [OF assms]
  by (intro pos_of_split [of _ _ "dropWhile (\<lambda>d. ckey d < ckey c) cs"]) (auto simp: order.order_iff_strict)

lemma insert_cell_pos:
  assumes "sorted_wrt (<) (map ckey cs)" "ckey c \<notin> ckey ` set cs"
  shows "take (pos_of cs (ckey c)) cs @ c # drop (pos_of cs (ckey c)) cs = insert_cell c cs"
  unfolding pos_of_fresh [OF assms] insert_cell_def
  by (simp only: takeWhile_eq_take [symmetric] dropWhile_eq_drop [symmetric])

end
