(* ===== verification/Tree_Split.thy ===== *)
theory Tree_Split
  imports Tree_Insert
begin

text \<open>
  Splitting a page of the tree (\<open>splitLeaf\<close>, \<open>splitInternal\<close> of \<open>storage/btree/btree.go\<close>): the cells of the
  page and the new one, in order, on two pages, and the separator that goes up. What each page operation
  does to the storage comes from the rules of \<open>Tree_Insert\<close>.
\<close>

lemma fun_upd_back: "a \<noteq> b \<Longrightarrow> f(a := x, b := f b) = f(a := x)"
  by auto

lemma on_err_Ok: "m s = (Ok a, s') \<Longrightarrow> on_err m h s = (Ok a, s')"
  by simp

lemma page_size_bound: "page_wf p \<Longrightarrow> cells_size (page_cells p) \<le> 4072"
  using cells_size_bound [of p] page_wf_offset [of p] by (simp add: free_space_nat)

text \<open>Allocating and fetching a new page, and logging the two pages of a split.\<close>

lemma new_page_rule:
  assumes ok: "db_ok M s" and room: "room 1 (obs s)" "o_next (obs s) < no_page_id"
  obtains s1 s2 where "on_disk (allocate_page t) s = (Ok (new_page t (o_next (obs s))), s1)"
    "fetch_page (o_next (obs s)) s1 = (Ok (new_page t (o_next (obs s))), s2)" "db_ok M s2"
    "obs s2 = (obs s)\<lparr>o_next := o_next (obs s) + 1,
       o_view := (o_view (obs s))(o_next (obs s) \<mapsto> new_page t (o_next (obs s))),
       o_pins := (o_pins (obs s))(o_next (obs s) := o_pins (obs s) (o_next (obs s)) + 1)\<rparr>"
    "0 < o_pins (obs s2) (o_next (obs s))"
proof -
  let ?x = "obs s" and ?n = "o_next (obs s)"
  obtain s1 where s1: "on_disk (allocate_page t) s = (Ok (new_page t ?n), s1)" "db_ok M s1"
    "obs s1 = ?x\<lparr>o_next := ?n + 1, o_view := (o_view ?x)(?n \<mapsto> new_page t ?n)\<rparr>"
    by (rule allocate_rule [OF ok room(2)])
  have v1: "o_view (obs s1) ?n = Some (new_page t ?n)" "room 1 (obs s1)"
    using room(1) by (simp_all add: s1(3) room_def o_busy_def)
  obtain s2 where s2: "fetch_page ?n s1 = (Ok (new_page t ?n), s2)" "db_ok M s2"
    "obs s2 = (obs s1)\<lparr>o_pins := (o_pins (obs s1))(?n := o_pins (obs s1) ?n + 1)\<rparr>"
    by (rule fetch_rule [OF s1(2) v1])
  have "0 \<le> o_pins ?x ?n"
    using pins_nonneg [OF db_ok_pool [OF ok]] by simp
  then show thesis
    by (intro that [OF s1(1) s2(1,2)]) (simp_all add: s2(3) s1(3))
qed

lemma finish_both:
  assumes ok: "db_ok M s" and M: "M \<subseteq> {i, n}" and ne: "i \<noteq> n" and pins: "0 < o_pins (obs s) i" "0 < o_pins (obs s) n"
    and v: "o_view (obs s) i = Some p" "o_view (obs s) n = Some q"
  obtains s1 s2 l l' where "finish_page i txn op_insert s = (Ok (), s1)" "finish_page n txn op_insert s1 = (Ok (), s2)"
    "get_page n s2 = (Ok (set_lsn l' q), s2)" "db_ok {} s2"
    "obs s2 = (obs s)\<lparr>o_view := (o_view (obs s))(i \<mapsto> set_lsn l p, n \<mapsto> set_lsn l' q),
       o_pins := (o_pins (obs s))(i := o_pins (obs s) i - 1, n := o_pins (obs s) n - 1),
       o_owner := (o_owner (obs s))(i \<mapsto> txn, n \<mapsto> txn), o_txns := insert txn (o_txns (obs s))\<rparr>"
proof -
  have op: "is_page_op op_insert"
    by (simp add: is_page_op_def)
  obtain l s1 where s1: "finish_page i txn op_insert s = (Ok (), s1)" "db_ok (M - {i}) s1"
    "obs s1 = (obs s)\<lparr>o_view := (o_view (obs s))(i \<mapsto> set_lsn l p),
       o_pins := (o_pins (obs s))(i := o_pins (obs s) i - 1), o_owner := (o_owner (obs s))(i \<mapsto> txn), o_txns := insert txn (o_txns (obs s))\<rparr>"
    by (rule finish_rule [OF ok pins(1) v(1) op])
  have v1: "0 < o_pins (obs s1) n" "o_view (obs s1) n = Some q"
    using pins(2) v(2) ne by (simp_all add: s1(3))
  obtain l' s2 where s2: "finish_page n txn op_insert s1 = (Ok (), s2)" "db_ok (M - {i} - {n}) s2"
    "obs s2 = (obs s1)\<lparr>o_view := (o_view (obs s1))(n \<mapsto> set_lsn l' q),
       o_pins := (o_pins (obs s1))(n := o_pins (obs s1) n - 1), o_owner := (o_owner (obs s1))(n \<mapsto> txn), o_txns := insert txn (o_txns (obs s1))\<rparr>"
    by (rule finish_rule [OF s1(2) v1 op])
  have e: "M - {i} - {n} = {}"
    using M by auto
  show thesis
  proof (rule that [OF s1(1) s2(1) _ s2(2) [unfolded e]])
    show "get_page n s2 = (Ok (set_lsn l' q), s2)"
      by (rule get_owned_rule) (simp_all add: s2(3))
  qed (use ne in \<open>simp add: s2(3) s1(3)\<close>)
qed

lemma split_leaf_ok:
  assumes ok: "db_ok M s" and M: "M \<subseteq> {i}" and p: "o_view (obs s) i = Some p" "leaf_page p i cs nx"
    and pin: "0 < o_pins (obs s) i" and room: "room 1 (obs s)" "o_next (obs s) < no_page_id"
    and e: "env_ok e" "leaf_in e lo hi cs"
    and c: "encode_leaf_cell tid (Some v) r sch = Some c" "cell_in_env e c" "ckey c \<notin> ckey ` set cs"
  obtains s' cs1 c2 cs2 p1 q1 where
    "split_leaf i tid (Some v) r sch txn s = (Ok (fst (ckey c2), Some (snd (ckey c2)), o_next (obs s)), s')"
    "db_ok {} s'" "cs1 @ c2 # cs2 = insert_cell c cs" "length cs1 = Suc (length cs) div 2"
    "free_space p1 = 4072 - int (cells_size cs1)"
    "leaf_page p1 i cs1 (o_next (obs s))" "leaf_page q1 (o_next (obs s)) (c2 # cs2) nx"
    "obs s' = (obs s)\<lparr>o_next := o_next (obs s) + 1, o_view := (o_view (obs s))(i \<mapsto> p1, o_next (obs s) \<mapsto> q1),
       o_pins := (o_pins (obs s))(i := o_pins (obs s) i - 1),
       o_owner := (o_owner (obs s))(i \<mapsto> txn, o_next (obs s) \<mapsto> txn), o_txns := insert txn (o_txns (obs s))\<rparr>"
proof -
  let ?x = "obs s" and ?n = "o_next (obs s)"
  have ne: "i \<noteq> ?n"
    using o_view_id(3) [OF ok p(1)] by blast
  let ?new = "new_page type_leaf ?n"
  obtain s1 s2 where s1: "on_disk (allocate_page type_leaf) s = (Ok ?new, s1)"
    and s2: "fetch_page ?n s1 = (Ok ?new, s2)" "db_ok M s2"
    "obs s2 = ?x\<lparr>o_next := ?n + 1, o_view := (o_view ?x)(?n \<mapsto> ?new), o_pins := (o_pins ?x)(?n := o_pins ?x ?n + 1)\<rparr>"
    and np: "0 < o_pins (obs s2) ?n"
    by (rule new_page_rule [OF ok room])
  have pin2: "0 < o_pins (obs s2) ?n" "0 < o_pins (obs s2) i"
    using np pin ne by (simp_all add: s2(3))
  let ?q0 = "init_leaf_links ?new"
  have q0: "leaf_page ?q0 ?n [] no_page_id" "free_space ?q0 = 4072" "length ?q0 = 4096" "page_id ?q0 = ?n"
    by (simp_all add: leaf_page_def init_leaf_links_def)
  obtain s3 where s3: "put_page ?n ?q0 s2 = (Ok (), s3)" "db_ok (insert ?n M) s3"
    "obs s3 = (obs s2)\<lparr>o_view := (o_view (obs s2))(?n \<mapsto> ?q0)\<rparr>"
    by (rule put_rule [OF s2(2) pin2(1) q0(3,4)])
  have g3: "get_page i s3 = (Ok p, s3)"
    using p(1) pin2 ne by (intro get_rule) (simp_all add: s3(3) s2(3))
  let ?cells = "insert_cell c cs"
  let ?m = "length ?cells div 2"
  have sorted: "sort_cells (cs @ [c]) = Some ?cells"
    using leaf_in_sorted [OF e(2)] leaf_in_ok [OF e(2)] c(2,3) by (intro sort_cells_fresh) (auto simp: cell_in_env_def)
  have all: "\<forall>d \<in> set ?cells. cell_in_env e d"
    using e(2) c(2) by (auto simp: leaf_in_def)
  have sz: "\<forall>d \<in> set ?cells. sized e (length d)" and nn: "\<forall>d \<in> set ?cells. d \<noteq> []"
    using all sized_nonempty [OF e(1)] by (auto simp: cell_in_env_def)
  have "cells_size ?cells \<le> 4072 + max_cell e"
    using page_size_bound [OF leaf_page_wf(1) [OF p(2)]] leaf_page_cells(2) [OF p(2)] c(2)
    by (simp add: cell_in_env_def sized_def)
  note fit = halves_fit [OF e(1) sz this]
  obtain p1 where p1: "add_cells (take ?m ?cells) (reset_page p) = Some p1" "leaf_page p1 i (take ?m ?cells) nx"
    "free_space p1 = 4072 - int (cells_size (take ?m ?cells))"
    using add_cells_leaf [OF reset_leaf_page [OF p(2)] reset_page_ok(3) [OF leaf_page_wf(2) [OF p(2)]] _ fit(1)] nn
    by (metis in_set_takeD)
  obtain q1 where q1: "add_cells (drop ?m ?cells) ?q0 = Some q1" "leaf_page q1 ?n (drop ?m ?cells) no_page_id"
    using add_cells_leaf [OF q0(1,2) _ fit(2)] nn by (metis in_set_dropD)
  let ?q2 = "set_next_leaf_id nx q1" and ?p2 = "set_next_leaf_id ?n p1"
  have q2: "leaf_page ?q2 ?n (drop ?m ?cells) nx" and p2: "leaf_page ?p2 i (take ?m ?cells) ?n"
    using leaf_page_set_rightmost [OF q1(2)] leaf_page_set_rightmost [OF p1(2)] by (simp_all add: set_next_leaf_id_def)
  have pin3: "0 < o_pins (obs s3) ?n"
    using pin2(1) by (simp add: s3(3))
  obtain s4 where s4: "put_page ?n ?q2 s3 = (Ok (), s4)" "db_ok (insert ?n (insert ?n M)) s4"
    "obs s4 = (obs s3)\<lparr>o_view := (o_view (obs s3))(?n \<mapsto> ?q2)\<rparr>"
    by (rule put_rule [OF s3(2) pin3 leaf_page_wf(2) [OF q2] leaf_page_cells(5) [OF q2]])
  have pin4: "0 < o_pins (obs s4) i"
    using pin2(2) by (simp add: s4(3) s3(3))
  obtain s5 where s5: "put_page i ?p2 s4 = (Ok (), s5)" "db_ok (insert i (insert ?n (insert ?n M))) s5"
    "obs s5 = (obs s4)\<lparr>o_view := (o_view (obs s4))(i \<mapsto> ?p2)\<rparr>"
    by (rule put_rule [OF s4(2) pin4 leaf_page_wf(2) [OF p2] leaf_page_cells(5) [OF p2]])
  have v5: "0 < o_pins (obs s5) i" "0 < o_pins (obs s5) ?n" "o_view (obs s5) i = Some ?p2" "o_view (obs s5) ?n = Some ?q2"
    using pin3 pin4 ne by (simp_all add: s5(3) s4(3))
  have M5: "insert i (insert ?n (insert ?n M)) \<subseteq> {i, ?n}"
    using M by auto
  obtain l l' s6 s7 where s6: "finish_page i txn op_insert s5 = (Ok (), s6)" and s7: "finish_page ?n txn op_insert s6 = (Ok (), s7)"
    and g7: "get_page ?n s7 = (Ok (set_lsn l' ?q2), s7)" and ok7: "db_ok {} s7"
    and x7: "obs s7 = (obs s5)\<lparr>o_view := (o_view (obs s5))(i \<mapsto> set_lsn l ?p2, ?n \<mapsto> set_lsn l' ?q2),
       o_pins := (o_pins (obs s5))(i := o_pins (obs s5) i - 1, ?n := o_pins (obs s5) ?n - 1),
       o_owner := (o_owner (obs s5))(i \<mapsto> txn, ?n \<mapsto> txn), o_txns := insert txn (o_txns (obs s5))\<rparr>"
    by (rule finish_both [OF s5(2) M5 ne v5])
  have m: "?m < length ?cells"
    by simp
  define c2 where "c2 = ?cells ! ?m"
  have dr: "drop ?m ?cells = c2 # drop (Suc ?m) ?cells"
    using m unfolding c2_def by (rule Cons_nth_drop_Suc [symmetric])
  have "c2 \<in> set ?cells"
    using m nth_mem unfolding c2_def by blast
  then have "cell_ok (key_kinds e) c2"
    using all by (auto simp: cell_in_env_def)
  then obtain tid' v' k where k: "decode_composite_key c2 = Some (tid', Some v', k)" "ckey c2 = (tid', v')"
    by (rule cell_ok_decode)
  show thesis
  proof (rule that [of c2 s7 "take ?m ?cells" "drop (Suc ?m) ?cells" "set_lsn l ?p2" "set_lsn l' ?q2"])
    show "split_leaf i tid (Some v) r sch txn s = (Ok (fst (ckey c2), Some (snd (ckey c2)), ?n), s7)"
      unfolding split_leaf_def
      using s1 s2(1) s3(1) g3 s4(1) s5(1) s6 s7 g7 p1(1) q1(1) sorted c(1) k(2) k(1) [unfolded c2_def]
        all_cells_ok [OF leaf_page_wf(1) [OF p(2)]] leaf_page_cells [OF p(2)] leaf_page_cells [OF q1(2)] leaf_page_cells [OF q2]
        leaf_page_wf(2) [OF q2]
      by (simp add: bindG_Ok on_err_Ok Let_def next_leaf_id_def)
    show "take ?m ?cells @ c2 # drop (Suc ?m) ?cells = ?cells"
      using append_take_drop_id [of ?m ?cells] unfolding dr .
    show "leaf_page (set_lsn l ?p2) i (take ?m ?cells) ?n" "leaf_page (set_lsn l' ?q2) ?n (c2 # drop (Suc ?m) ?cells) nx"
      using p2 q2 unfolding dr by simp_all
    show "free_space (set_lsn l ?p2) = 4072 - int (cells_size (take ?m ?cells))"
      using p1(3) leaf_page_wf(1) [OF p1(2)] leaf_page_wf(1) [OF p2] by (simp add: set_next_leaf_id_def)
  qed (use ne ok7 in \<open>simp_all add: x7 s5(3) s4(3) s3(3) s2(3) fun_upd_twist fun_upd_back\<close>)
qed

section \<open>Splitting an internal page\<close>

lemma map2_icell_split:
  "length ia = length ka \<Longrightarrow> map2 icell (ka @ kb) (ia @ ib) = map2 icell ka ia @ map2 icell kb ib"
  by simp

lemma zip_take_Suc: "zip (take n xs) (take (Suc n) ys) = take n (zip xs ys)"
proof (induction n arbitrary: xs ys)
  case (Suc n)
  show ?case
  proof (cases xs; cases ys)
    fix x xs' y ys'
    assume "xs = x # xs'" "ys = y # ys'"
    then show ?thesis
      using Suc [of xs' ys'] by simp
  qed simp_all
qed simp

lemma map2_icell_take: "map2 icell (take n ks) (take (Suc n) is) = take n (map2 icell ks is)"
  by (simp only: zip_take_Suc take_map)

lemma map2_icell_drop: "map2 icell (drop n ks) (drop n is) = drop n (map2 icell ks is)"
  by (simp only: drop_zip drop_map)

lemma icell_keys:
  assumes "\<forall>k \<in> set ks. ckey_ok kinds k" "length ks \<le> length is"
  shows "map ckey (map2 icell ks is) = ks" "\<forall>c \<in> set (map2 icell ks is). cell_ok kinds c"
proof -
  have n: "ckey (icell (ks ! j) (is ! j)) = ks ! j" if "j < length ks" for j
    using icell_decode(3) [of kinds "ks ! j"] assms(1) that nth_mem by blast
  show "map ckey (map2 icell ks is) = ks"
    using assms(2) n by (intro nth_equalityI) simp_all
  show "\<forall>c \<in> set (map2 icell ks is). cell_ok kinds c"
  proof
    fix c assume "c \<in> set (map2 icell ks is)"
    then obtain k j where "k \<in> set ks" "c = icell k j"
      by (auto dest: set_zip_leftD)
    then show "cell_ok kinds c"
      using icell_decode(6) assms(1) by blast
  qed
qed

lemma node_pageD:
  assumes "node_page p i ks is"
  shows "page_wf p" "page_id p = i" "page_type p = type_internal" "length is = Suc (length ks)"
    "page_cells p = map2 icell ks is" "rightmost_child p = last is"
    "free_space p + int (cells_size (map2 icell ks is)) = 4072" "length p = 4096"
    "unat (cell_count p) = length ks"
  using assms length_page_cells [of p] by (auto simp: node_page_def page_wf_length)

lemma same_header_node_page:
  assumes "page_wf p" "page_id p = i" "page_type p = type_internal"
    and "same_header p q" "page_wf q" "page_cells q = map2 icell ks is" "length is = Suc (length ks)"
    and "free_space q + int (cells_size (map2 icell ks is)) = 4072"
  shows "node_page (set_rightmost_child (last is) q) i ks is"
  using assms by (simp add: node_page_def same_header_def page_wf_length)

lemma node_page_set_lsn [simp]: "node_page p i ks is \<Longrightarrow> node_page (set_lsn l p) i ks is"
  by (auto simp: node_page_def page_wf_length)


lemma sized_icells:
  assumes "\<forall>k \<in> set ks. key_in_env e k"
  shows "\<forall>c \<in> set (map2 icell ks is). sized e (length c) \<and> c \<noteq> []"
proof
  fix c assume "c \<in> set (map2 icell ks is)"
  then obtain k j where "k \<in> set ks" "c = icell k j"
    by (auto dest: set_zip_leftD)
  then show "sized e (length c) \<and> c \<noteq> []"
    using assms length_icell_child [of k j 0] by (auto simp: key_in_env_def)
qed

text \<open>The keys and children of a node after a child \<open>b\<close> was split off to the right of \<open>a\<close> at \<open>k\<close>.\<close>

lemma sort_icells:
  assumes "\<forall>k \<in> set (ka @ k # kb). ckey_ok kinds k" "sorted_wrt (<) (ka @ k # kb)"
    "length ia = length ka" "length ib = length kb"
  shows "sort_cells (map2 icell (ka @ kb) (ia @ b # ib) @ [icell k a]) = Some (map2 icell (ka @ k # kb) (ia @ a # b # ib))"
proof -
  let ?us = "map2 icell ka ia" and ?vs = "map2 icell kb (b # ib)"
  have ok: "\<forall>k \<in> set ka. ckey_ok kinds k" "\<forall>k \<in> set kb. ckey_ok kinds k" "ckey_ok kinds k"
    using assms(1) by auto
  have u: "map ckey ?us = ka" "\<forall>c \<in> set ?us. cell_ok kinds c"
    using icell_keys [OF ok(1), of ia] assms(3) by simp_all
  have v: "map ckey ?vs = kb" "\<forall>c \<in> set ?vs. cell_ok kinds c"
    using icell_keys [OF ok(2), of "b # ib"] assms(4) by simp_all
  note k = icell_decode(3,6) [OF ok(3), of a]
  have "sort_cells (?us @ ?vs @ [icell k a]) = Some (?us @ icell k a # ?vs)"
    using u v k assms(2) by (intro sort_cells_insert [of _ _ kinds]) auto
  then show ?thesis
    using assms(3) by simp
qed


text \<open>A page that has no room for another cell has at least two.\<close>

lemma full_node:
  assumes e: "env_ok e" and k: "\<forall>k \<in> set ks. key_in_env e k" "key_in_env e k"
    and p: "node_page p i ks is" and full: "free_space p < int (length (icell k a)) + 4"
  shows "2 \<le> length ks"
proof (rule ccontr)
  assume "\<not> 2 \<le> length ks"
  then have "ks = [] \<or> (\<exists>k'. ks = [k'])"
    by (cases ks; cases "tl ks") auto
  then consider "ks = []" | k' where "ks = [k']"
    by blast
  then have "int (cells_size (map2 icell ks is)) + int (length (icell k a)) + 4 \<le> 4072"
  proof cases
    case 1
    have "length (icell k 0) + length (icell k 0) + 8 \<le> 4072"
      using k(2) by (intro two_cells_fit [OF e]) (simp_all add: key_in_env_def)
    then show ?thesis
      using 1 length_icell_child [of k a 0] by simp
  next
    case 2
    obtain b is' where "is = b # is'"
      using node_pageD(4) [OF p] by (cases "is") auto
    moreover have "length (icell k' 0) + length (icell k 0) + 8 \<le> 4072"
      using k 2 by (intro two_cells_fit [OF e]) (simp_all add: key_in_env_def)
    ultimately show ?thesis
      using 2 length_icell_child [of k a 0] length_icell_child [of k' b 0] by simp
  qed
  then show False
    using node_pageD(7) [OF p] full by simp
qed

lemma half_node_page:
  assumes "page_wf p" "page_id p = i" "page_type p = type_internal" "page_cells p = []" "free_space p = 4072"
    and k: "\<forall>k \<in> set ks. key_in_env e k" and fit: "cells_size (map2 icell ks is) \<le> 4072" and l: "length is = Suc (length ks)"
  obtains q where "add_cells (map2 icell ks is) p = Some q" "node_page (set_rightmost_child (last is) q) i ks is" "page_wf q" "page_id q = i"
proof -
  have n: "\<forall>c \<in> set (map2 icell ks is). c \<noteq> []" "int (cells_size (map2 icell ks is)) \<le> free_space p"
    using sized_icells [OF k] fit assms(5) by auto
  obtain q where q: "add_cells (map2 icell ks is) p = Some q" "page_wf q" "same_header p q"
    "page_cells q = page_cells p @ map2 icell ks is" "free_space q = free_space p - int (cells_size (map2 icell ks is))"
    by (rule add_cells_ok [OF assms(1) n])
  show thesis
    using q assms(2,4,5) by (intro that [OF q(1) same_header_node_page [OF assms(1-3) q(3,2) _ l]]) (simp_all add: same_header_def)
qed

lemma split_internal_ok:
  assumes K_def: "K = ka @ k # kb" and I_def: "I = ia @ a # b # ib" and ok: "db_ok M s" and M: "M \<subseteq> {i}" and p: "o_view (obs s) i = Some p" "node_page p i (ka @ kb) (ia @ b # ib)"
    and pin: "0 < o_pins (obs s) i" and room: "room 1 (obs s)" "o_next (obs s) < no_page_id"
    and e: "env_ok e" "\<forall>k \<in> set K. key_in_env e k" "sorted_wrt (<) K" "length ia = length ka"
    and full: "free_space p < int (length (icell k a)) + 4"
  obtains s' m p1 q1 where
    "split_internal i (fst k) (Some (snd k)) a txn s = (Ok (fst (K ! m), Some (snd (K ! m)), o_next (obs s)), s')"
    "db_ok {} s'" "0 < m" "Suc m < length K"
    "node_page p1 i (take m K) (take (Suc m) I)" "node_page q1 (o_next (obs s)) (drop (Suc m) K) (drop (Suc m) I)"
    "obs s' = (obs s)\<lparr>o_next := o_next (obs s) + 1, o_view := (o_view (obs s))(i \<mapsto> p1, o_next (obs s) \<mapsto> q1),
       o_pins := (o_pins (obs s))(i := o_pins (obs s) i - 1),
       o_owner := (o_owner (obs s))(i \<mapsto> txn, o_next (obs s) \<mapsto> txn), o_txns := insert txn (o_txns (obs s))\<rparr>"
proof -
  let ?x = "obs s" and ?n = "o_next (obs s)"
  note np = node_pageD [OF p(2)]
  have lib: "length ib = length kb" and lI: "length I = Suc (length K)"
    using np(4) e(4) by (simp_all add: I_def K_def)
  let ?cells = "map2 icell K I"
  let ?m = "length ?cells div 2"
  have lc: "length ?cells = length K"
    using lI by simp
  have "2 \<le> length (ka @ kb)"
    using e(2) by (intro full_node [OF e(1) _ _ p(2) full]) (auto simp: K_def)
  then have m: "0 < ?m" "Suc ?m < length K" "?m < length ?cells"
    using lI by (simp_all add: K_def)
  have kok: "\<forall>k \<in> set K. ckey_ok (key_kinds e) k"
    using e(2) by (simp add: key_in_env_def)
  have sort: "sort_cells (map2 icell (ka @ kb) (ia @ b # ib) @ [icell k a]) = Some ?cells"
    unfolding K_def I_def by (rule sort_icells [OF kok [unfolded K_def] e(3) [unfolded K_def] e(4) lib])
  have all: "page_cells p = map2 icell (ka @ kb) (ia @ b # ib)"
    by (rule np(5))
  have sz: "\<forall>c \<in> set ?cells. sized e (length c)"
    using sized_icells [OF e(2)] by blast
  have "cells_size ?cells = cells_size (map2 icell (ka @ kb) (ia @ b # ib)) + length (icell k a) + 4"
    using e(4) by (simp add: K_def I_def)
  moreover have "sized e (length (icell k a))"
    using e(2) length_icell_child [of k a 0] by (simp add: K_def key_in_env_def)
  ultimately have "cells_size ?cells \<le> 4072 + max_cell e"
    using page_size_bound [OF np(1)] by (simp add: all sized_def)
  note fit = halves_fit [OF e(1) sz this]
  have fit1: "cells_size (map2 icell (take ?m K) (take (Suc ?m) I)) \<le> 4072"
    using fit(1) by (simp only: map2_icell_take)
  have "drop ?m ?cells = ?cells ! ?m # drop (Suc ?m) ?cells"
    using m(3) by (rule Cons_nth_drop_Suc [symmetric])
  then have fit2: "cells_size (map2 icell (drop (Suc ?m) K) (drop (Suc ?m) I)) \<le> 4072"
    using fit(2) by (simp only: map2_icell_drop) simp
  have k1: "\<forall>k \<in> set (take ?m K). key_in_env e k" and k2: "\<forall>k \<in> set (drop (Suc ?m) K). key_in_env e k"
    using e(2) by (meson in_set_takeD in_set_dropD)+
  have l1: "length (take (Suc ?m) I) = Suc (length (take ?m K))" and l2: "length (drop (Suc ?m) I) = Suc (length (drop (Suc ?m) K))"
    using lI m(2) by simp_all
  let ?new = "new_page type_internal ?n"
  note rp = reset_page_ok [OF np(8)]
  have h: "page_id (reset_page p) = i" "page_type (reset_page p) = type_internal"
    using rp(4) np(2,3) by (simp_all add: same_header_def)
  obtain p1 where p1: "add_cells (map2 icell (take ?m K) (take (Suc ?m) I)) (reset_page p) = Some p1"
    "node_page (set_rightmost_child (last (take (Suc ?m) I)) p1) i (take ?m K) (take (Suc ?m) I)"
    using half_node_page [OF rp(1) h rp(2,3) k1 fit1 l1] by blast
  obtain q1 where q1: "add_cells (map2 icell (drop (Suc ?m) K) (drop (Suc ?m) I)) ?new = Some q1"
    "node_page (set_rightmost_child (last (drop (Suc ?m) I)) q1) ?n (drop (Suc ?m) K) (drop (Suc ?m) I)"
    using half_node_page [OF _ _ _ _ _ k2 fit2 l2, of ?new ?n] by auto
  let ?p2 = "set_rightmost_child (last (take (Suc ?m) I)) p1" and ?q2 = "set_rightmost_child (last (drop (Suc ?m) I)) q1"
  note p2 = node_pageD [OF p1(2)] and q2 = node_pageD [OF q1(2)]
  have ne: "i \<noteq> ?n"
    using o_view_id(3) [OF ok p(1)] by blast
  obtain s1 s2 where s1: "on_disk (allocate_page type_internal) s = (Ok ?new, s1)"
    and s2: "fetch_page ?n s1 = (Ok ?new, s2)" "db_ok M s2"
    "obs s2 = ?x\<lparr>o_next := ?n + 1, o_view := (o_view ?x)(?n \<mapsto> ?new), o_pins := (o_pins ?x)(?n := o_pins ?x ?n + 1)\<rparr>"
    and pin2: "0 < o_pins (obs s2) ?n"
    by (rule new_page_rule [OF ok room])
  have pin2': "0 < o_pins (obs s2) i"
    using pin ne by (simp add: s2(3))
  have g2: "get_page i s2 = (Ok p, s2)"
    using p(1) pin2' ne by (intro get_rule) (simp_all add: s2(3))
  obtain s3 where s3: "put_page i ?p2 s2 = (Ok (), s3)" "db_ok (insert i M) s3"
    "obs s3 = (obs s2)\<lparr>o_view := (o_view (obs s2))(i \<mapsto> ?p2)\<rparr>"
    by (rule put_rule [OF s2(2) pin2' p2(8,2)])
  have pin3: "0 < o_pins (obs s3) ?n"
    using pin2 by (simp add: s3(3))
  obtain s4 where s4: "put_page ?n ?q2 s3 = (Ok (), s4)" "db_ok (insert ?n (insert i M)) s4"
    "obs s4 = (obs s3)\<lparr>o_view := (o_view (obs s3))(?n \<mapsto> ?q2)\<rparr>"
    by (rule put_rule [OF s3(2) pin3 q2(8,2)])
  have v4: "0 < o_pins (obs s4) i" "0 < o_pins (obs s4) ?n" "o_view (obs s4) i = Some ?p2" "o_view (obs s4) ?n = Some ?q2"
    using pin2 pin2' ne by (simp_all add: s4(3) s3(3))
  have M4: "insert ?n (insert i M) \<subseteq> {i, ?n}"
    using M by auto
  obtain l l' s5 s6 where s5: "finish_page i txn op_insert s4 = (Ok (), s5)" and s6: "finish_page ?n txn op_insert s5 = (Ok (), s6)"
    and g6: "get_page ?n s6 = (Ok (set_lsn l' ?q2), s6)" and ok6: "db_ok {} s6"
    and x6: "obs s6 = (obs s4)\<lparr>o_view := (o_view (obs s4))(i \<mapsto> set_lsn l ?p2, ?n \<mapsto> set_lsn l' ?q2),
       o_pins := (o_pins (obs s4))(i := o_pins (obs s4) i - 1, ?n := o_pins (obs s4) ?n - 1),
       o_owner := (o_owner (obs s4))(i \<mapsto> txn, ?n \<mapsto> txn), o_txns := insert txn (o_txns (obs s4))\<rparr>"
    by (rule finish_both [OF s4(2) M4 ne v4])
  have "?m < length K" "?m < length I"
    using m lI by simp_all
  then have mid: "?cells ! ?m = icell (K ! ?m) (I ! ?m)" "K ! ?m \<in> set K" "last (take (Suc ?m) I) = I ! ?m"
    by (simp_all add: take_Suc_conv_app_nth)
  note dm = icell_decode(1,2) [of "key_kinds e" "K ! ?m" "I ! ?m"]
  have lastI: "last (drop (Suc ?m) I) = last (ia @ b # ib)"
    using m lI by (simp add: last_drop) (simp add: I_def)
  show thesis
  proof (rule that [of ?m s6 "set_lsn l ?p2" "set_lsn l' ?q2", OF _ ok6 m(1,2)])
    have ac: "all_cells p = Some (map2 icell (ka @ kb) (ia @ b # ib))"
      using all_cells_ok [OF np(1)] unfolding all .
    have k: "ckey_ok (key_kinds e) (K ! ?m)"
      using kok mid(2) by blast
    have rm: "rightmost_child p = last (drop (Suc ?m) I)"
      using np(6) lastI by simp
    define C where "C = ?cells"
    have c: "add_cells (take (length C div 2) C) (reset_page p) = Some p1" "add_cells (drop (Suc (length C div 2)) C) ?new = Some q1"
      using p1(1) q1(1) by (simp_all only: C_def map2_icell_take map2_icell_drop)
    note d = dm [OF k, folded mid(1), folded C_def]
    show "split_internal i (fst k) (Some (snd k)) a txn s = (Ok (fst (K ! ?m), Some (snd (K ! ?m)), ?n), s6)"
      unfolding split_internal_def
      using s1 s2(1) g2 ac sort [folded C_def] c s3(1) s4(1) s5 s6 g6 d p2(8) q2(8,2) mid(3) rm
      by (simp add: bindG_Ok on_err_Ok Let_def flip: icell_def C_def del: map_append zip_append)
    show "node_page (set_lsn l ?p2) i (take ?m K) (take (Suc ?m) I)" "node_page (set_lsn l' ?q2) ?n (drop (Suc ?m) K) (drop (Suc ?m) I)"
      using p1(2) q1(2) by simp_all
  qed (use ne in \<open>simp add: x6 s4(3) s3(3) s2(3) fun_upd_twist fun_upd_back\<close>)
qed

end
