(* ===== verification/Tree_Grow.thy ===== *)
theory Tree_Grow
  imports Tree_Split
begin

text \<open>
  The invariant of a change on its way back to the root: a subtree becomes one tree or two with a separator
  (\<open>grown\<close>), and its pages only are touched (\<open>touched\<close>). The leaf that takes a cell meets it, whether the cell fits
  on its page or the page is split (\<open>insertIntoLeaf\<close>, and the second half of \<open>updateLeaf\<close>).
\<close>

section \<open>Forests\<close>

definition pinned :: "u32 \<Rightarrow> observed \<Rightarrow> observed" where
  "pinned i x = x\<lparr>o_pins := (o_pins x)(i := o_pins x i + 1)\<rparr>"

lemma pinned_fields [simp]:
  "o_next (pinned i x) = o_next x" "o_root (pinned i x) = o_root x" "o_max (pinned i x) = o_max x"
  "o_view (pinned i x) = o_view x" "o_owner (pinned i x) = o_owner x" "o_file (pinned i x) = o_file x" "o_ended (pinned i x) = o_ended x" "o_txns (pinned i x) = o_txns x"
  "o_pins (pinned i x) = (o_pins x)(i := o_pins x i + 1)"
  by (simp_all add: pinned_def)

text \<open>What an operation by \<open>txn\<close> on the pages \<open>T\<close> that allocates at most \<open>m\<close> pages leaves as it was.\<close>

definition touched :: "nat \<Rightarrow> u64 \<Rightarrow> u32 set \<Rightarrow> observed \<Rightarrow> observed \<Rightarrow> bool" where
  "touched m txn T x y \<longleftrightarrow> o_root y = o_root x \<and> o_max y = o_max x \<and> o_file y = o_file x \<and> o_ended y = o_ended x \<and> o_txns y \<subseteq> insert txn (o_txns x) \<and> o_pins y = o_pins x \<and>
     o_next x \<le> o_next y \<and> unat (o_next y) \<le> unat (o_next x) + m \<and>
     (\<forall>i < o_next x. i \<notin> T \<longrightarrow> o_view y i = o_view x i) \<and>
     (\<forall>i. o_owner y i = o_owner x i \<or> o_owner y i = Some txn \<and> (i \<in> T \<or> o_next x \<le> i \<and> i < o_next y))"

text \<open>Deleting a cell does not give its bytes back, so a leaf can be empty and full. \<open>stands\<close> excludes this: an empty
  leaf is a fresh page. (Splitting an emptied leaf gives an empty page and a separator that may equal the one before.)\<close>

definition fresh_empty :: "(u32 \<Rightarrow> page option) \<Rightarrow> tree \<Rightarrow> bool" where
  "fresh_empty V t \<longleftrightarrow> (\<forall>(i, cs, nx) \<in> set (leaves t). cs = [] \<longrightarrow> (\<exists>p. V i = Some p \<and> free_space p = 4072))"

definition stands :: "(u32 \<Rightarrow> page option) \<Rightarrow> nat \<Rightarrow> tree \<Rightarrow> bool" where
  "stands V h t \<longleftrightarrow> holds_tree V t \<and> balanced h t \<and> fresh_empty V t"

text \<open>A sorted list of cells with a cell under its key: new, or in the place of the old one.\<close>

definition put_cell :: "byte list \<Rightarrow> byte list list \<Rightarrow> byte list list" where
  "put_cell c cs = takeWhile (\<lambda>d. ckey d < ckey c) cs @ c # dropWhile (\<lambda>d. ckey d \<le> ckey c) cs"

text \<open>The trees \<open>us\<close> after the insertion of a cell: the trees \<open>ts\<close> with the separators \<open>ks\<close>, on the old pages and on new
  ones from \<open>N\<close> on.\<close>

definition grown :: "env \<Rightarrow> nat \<Rightarrow> bound \<Rightarrow> bound \<Rightarrow> byte list \<Rightarrow> tree list \<Rightarrow> u32 \<Rightarrow> (u32 \<Rightarrow> page option) \<Rightarrow> ckey list \<Rightarrow> tree list \<Rightarrow> bool" where
  "grown e h lo hi c us N V ks ts \<longleftrightarrow> kids_in (tree_in e) lo hi ks ts \<and> (\<forall>k \<in> set ks. key_in_env e k) \<and>
     (\<forall>t \<in> set ts. stands V h t) \<and>
     concat (map tree_cells ts) = put_cell c (concat (map tree_cells us)) \<and>
     distinct (concat (map page_ids ts)) \<and> set (concat (map page_ids ts)) \<subseteq> set (concat (map page_ids us)) \<union> {i. N \<le> i} \<and>
     (\<forall>end. chained (concat (map leaves us)) end \<longrightarrow> chained (concat (map leaves ts)) end) \<and>
     fst (hd (concat (map leaves ts))) = fst (hd (concat (map leaves us)))"

text \<open>What the insertion reports to its caller: one tree, or two and their separator.\<close>

fun split_of :: "ckey list \<Rightarrow> tree list \<Rightarrow> split" where
  "split_of [k] [t, u] = (fst k, Some (snd k), root_of u)"
| "split_of _ _ = (0, None, 0)"

lemma touched_refl: "touched m txn T x x"
  by (auto simp: touched_def)

lemma touched_trans:
  assumes "touched m txn T x y" "touched k txn S y z"
  shows "touched (m + k) txn (T \<union> S) x z"
proof -
  note a = assms [unfolded touched_def]
  have "o_owner z i = o_owner x i \<or> o_owner z i = Some txn \<and> (i \<in> T \<union> S \<or> o_next x \<le> i \<and> i < o_next z)" for i
  proof -
    have y: "o_owner y i = o_owner x i \<or> o_owner y i = Some txn \<and> (i \<in> T \<or> o_next x \<le> i \<and> i < o_next y)"
      and z: "o_owner z i = o_owner y i \<or> o_owner z i = Some txn \<and> (i \<in> S \<or> o_next y \<le> i \<and> i < o_next z)"
      and le: "o_next x \<le> o_next y" "o_next y \<le> o_next z"
      using a by simp_all
    have "o_next y \<le> i \<Longrightarrow> o_next x \<le> i" "i < o_next y \<Longrightarrow> i < o_next z"
      using le by simp_all
    with y z show ?thesis by auto
  qed
  then show ?thesis
    using a unfolding touched_def by (auto intro: less_le_trans)
qed

lemma holds_tree_cong: "(\<And>i. i \<in> set (page_ids t) \<Longrightarrow> V i = W i) \<Longrightarrow> holds_tree V t = holds_tree W t"
  by (induction V t rule: holds_tree.induct) auto

lemma leaf_pages: "(i, cs, nx) \<in> set (leaves t) \<Longrightarrow> i \<in> set (page_ids t)"
  by (induction t rule: leaves.induct) auto

lemma stands_cong:
  assumes "\<And>i. i \<in> set (page_ids t) \<Longrightarrow> V i = W i"
  shows "stands V h t = stands W h t"
proof -
  have "fresh_empty V t = fresh_empty W t"
    unfolding fresh_empty_def using assms leaf_pages by (intro ball_cong) fastforce+
  then show ?thesis
    using holds_tree_cong [OF assms] by (simp add: stands_def)
qed

lemma stands_Node:
  "stands V (Suc h) (Node i ks ts) \<longleftrightarrow> (\<exists>p. V i = Some p \<and> node_page p i ks (map root_of ts)) \<and> (\<forall>t \<in> set ts. stands V h t)"
  by (auto simp: stands_def fresh_empty_def)

lemma stands_balanced: "stands V h t \<Longrightarrow> balanced h t"
  by (simp add: stands_def)

lemma chained_append:
  "chained (ls @ ms) end \<longleftrightarrow> chained ls (case ms of [] \<Rightarrow> end | m # _ \<Rightarrow> fst m) \<and> chained ms end"
  by (induction ls "end" rule: chained.induct) (auto split: list.split)


lemma put_cell_between:
  assumes "\<forall>d \<in> set us. ckey d < ckey c" "\<forall>d \<in> set vs. ckey c < ckey d"
  shows "put_cell c (us @ xs @ vs) = us @ put_cell c xs @ vs"
proof -
  have "takeWhile (\<lambda>d. ckey d < ckey c) vs = []" "dropWhile (\<lambda>d. ckey d \<le> ckey c) vs = vs"
    using assms(2) by (cases vs; auto dest: less_asym leD)+
  then have "takeWhile (\<lambda>d. ckey d < ckey c) (xs @ vs) = takeWhile (\<lambda>d. ckey d < ckey c) xs"
    "dropWhile (\<lambda>d. ckey d \<le> ckey c) (xs @ vs) = dropWhile (\<lambda>d. ckey d \<le> ckey c) xs @ vs"
    by (induction xs) auto
  then show ?thesis
    using assms(1) by (simp add: put_cell_def takeWhile_append2 dropWhile_append2 less_imp_le)
qed

lemma put_cell_fresh:
  assumes "ckey c \<notin> ckey ` set cs"
  shows "put_cell c cs = insert_cell c cs"
proof -
  have "dropWhile (\<lambda>d. ckey d \<le> ckey c) cs = dropWhile (\<lambda>d. ckey d < ckey c) cs"
    using assms by (intro dropWhile_cong) (auto simp: order.order_iff_strict image_iff)
  then show ?thesis
    by (simp add: put_cell_def insert_cell_def)
qed

lemma put_cell_old:
  assumes "\<forall>d \<in> set us. ckey d < ckey c" "\<forall>d \<in> set vs. ckey c < ckey d" "ckey b = ckey c"
  shows "put_cell c (us @ b # vs) = us @ c # vs"
  using put_cell_between [OF assms(1,2), of "[b]"] assms(3) by (simp add: put_cell_def)

lemma kids_in_all: "kids_in P lo hi ks ts \<Longrightarrow> t \<in> set ts \<Longrightarrow> \<exists>l h. P l h t"
  by (induction P lo hi ks ts rule: kids_in.induct) auto

lemma forest_leaves:
  assumes "kids_in (tree_in e) lo hi ks ts" "\<forall>t \<in> set ts. balanced h t"
  shows "concat (map leaves ts) \<noteq> []" "\<forall>t \<in> set ts. leaves t \<noteq> []"
proof -
  show 1: "\<forall>t \<in> set ts. leaves t \<noteq> []"
    using kids_in_all [OF assms(1)] assms(2) balanced_leaves by blast
  show "concat (map leaves ts) \<noteq> []"
    using 1 kids_in_length [OF assms(1)] by (cases ts) auto
qed

lemma chained_replace:
  assumes "chained (ls @ us @ ms) end" "us \<noteq> []" "ts \<noteq> []" "fst (hd ts) = fst (hd us)" "\<And>end. chained us end \<Longrightarrow> chained ts end"
  shows "chained (ls @ ts @ ms) end"
proof -
  have h: "(case xs @ ms of [] \<Rightarrow> end | m # _ \<Rightarrow> fst m) = fst (hd xs)" if "xs \<noteq> []" for xs
    using that by (cases xs) simp_all
  show ?thesis
    using assms(1,4,5) unfolding chained_append h [OF assms(2)] h [OF assms(3)] by simp
qed

lemma distinct_replace:
  assumes "distinct (xs @ us @ ys)" "distinct ps" "set ps \<subseteq> set us \<union> {i. N \<le> i}" "\<forall>i \<in> set (xs @ us @ ys). i < (N :: 'a :: linorder)"
  shows "distinct (xs @ ps @ ys)"
proof -
  have "i \<notin> set ps" if "i \<in> set xs \<union> set ys" for i
    using assms that by (auto dest: leD)
  then show ?thesis
    using assms(1,2) by auto
qed

lemma grown_kids:
  assumes g: "grown e h (lower lo ka) (upper hi kb) c [u] N V ks' ts'"
    and kids: "kids_in (tree_in e) lo hi (ka @ kb) (as @ u # bs)" "length as = length ka" "\<forall>k \<in> set (ka @ kb). key_in_env e k"
    and bal: "balanced h u" and hold: "\<forall>t \<in> set (as @ bs). stands V h t"
    and left: "\<And>a d. a \<in> set as \<Longrightarrow> d \<in> set (tree_cells a) \<Longrightarrow> ckey d < ckey c"
    and right: "\<And>b d. b \<in> set bs \<Longrightarrow> d \<in> set (tree_cells b) \<Longrightarrow> ckey c < ckey d"
    and pages: "distinct (concat (map page_ids (as @ u # bs)))" "\<forall>i \<in> set (concat (map page_ids (as @ u # bs))). i < N"
  shows "grown e h lo hi c (as @ u # bs) N V (ka @ ks' @ kb) (as @ ts' @ bs)"
proof -
  note g = g [unfolded grown_def]
  have K: "kids_in (tree_in e) lo hi (ka @ ks' @ kb) (as @ ts' @ bs)"
    using kids_in_replace [OF kids(1,2)] g by blast
  have ne: "concat (map leaves ts') \<noteq> []" "leaves u \<noteq> []" "\<forall>a \<in> set as. leaves a \<noteq> []"
  proof -
    have b: "\<forall>t \<in> set ts'. balanced h t"
      using g by (simp add: stands_def)
    show "concat (map leaves ts') \<noteq> []"
      by (rule forest_leaves(1) [OF conjunct1 [OF g] b])
    show "leaves u \<noteq> []" "\<forall>a \<in> set as. leaves a \<noteq> []"
    proof -
      have "\<forall>t \<in> set (as @ u # bs). balanced h t"
        using bal hold stands_balanced by auto
      from forest_leaves(2) [OF kids(1) this] show "leaves u \<noteq> []" "\<forall>a \<in> set as. leaves a \<noteq> []"
        by simp_all
    qed
  qed
  have cells: "concat (map tree_cells (as @ ts' @ bs)) = put_cell c (concat (map tree_cells (as @ u # bs)))"
    using put_cell_between [of "concat (map tree_cells as)" c "concat (map tree_cells bs)" "tree_cells u"] g left right
    by simp
  have chain: "chained (concat (map leaves (as @ ts' @ bs))) end" if "chained (concat (map leaves (as @ u # bs))) end" for "end"
    using chained_replace [of "concat (map leaves as)" "leaves u" "concat (map leaves bs)" "end" "concat (map leaves ts')"] that ne g
    by simp
  have hd: "fst (hd (concat (map leaves (as @ ts' @ bs)))) = fst (hd (concat (map leaves (as @ u # bs))))"
    using ne g by (cases as) auto
  have dist: "distinct (concat (map page_ids (as @ ts' @ bs)))"
    using distinct_replace [of "concat (map page_ids as)" "page_ids u" "concat (map page_ids bs)" "concat (map page_ids ts')" N] pages g
    by simp
  show ?thesis
    unfolding grown_def using K cells chain hd dist g kids(3) hold by auto
qed

section \<open>Inserting into a leaf\<close>

definition inserted ::
  "env \<Rightarrow> nat \<Rightarrow> bound \<Rightarrow> bound \<Rightarrow> byte list \<Rightarrow> u64 \<Rightarrow> tree \<Rightarrow> observed \<Rightarrow> split res \<times> storage \<Rightarrow> bool" where
  "inserted e h lo hi c txn t x = (\<lambda>(r, s).
     db_ok {} s \<and> touched (Suc h) txn (set (page_ids t)) x (obs s) \<and> card (o_busy (obs s)) \<le> card (o_busy x) + 2 * Suc h \<and>
     (\<exists>ks ts. r = Ok (split_of ks ts) \<and> length ks \<le> 1 \<and> root_of (hd ts) = root_of t \<and> (ks \<noteq> [] \<longrightarrow> o_next x \<le> root_of (ts ! 1)) \<and>
        grown e h lo hi c [t] (o_next x) (o_view (obs s)) ks ts))"

lemma insert_cell_not_Nil [simp]: "insert_cell c cs \<noteq> []"
  by (simp add: insert_cell_def)

lemma card_insert_le': "card (insert a A) \<le> Suc (card A)"
  by (cases "finite A") (simp_all add: card_insert_if)

lemma card_two: "card (insert a (insert b A)) \<le> card A + 2"
  using card_insert_le' [of a "insert b A"] card_insert_le' [of b A] by simp

text \<open>A new page with its content: the last page is the one that was allocated.\<close>

lemma next_page: "n < no_page_id \<Longrightarrow> n < n + 1 \<and> unat (n + 1) = unat n + 1"
  by (auto simp: no_page_id_def word_less_nat_alt unat_word_ariths)

lemma touched_allocated:
  assumes "touched h txn T x y" and z: "z = y\<lparr>o_next := o_next y + 1, o_view := (o_view y)(i \<mapsto> p, o_next y \<mapsto> q),
      o_owner := (o_owner y)(i \<mapsto> txn, o_next y \<mapsto> txn), o_txns := insert txn (o_txns y)\<rparr>"
    and n: "o_next y < no_page_id" and i: "i \<in> S" "T \<subseteq> S"
  shows "touched (Suc h) txn S x z"
proof -
  note y = assms(1) [unfolded touched_def]
  note n1 = next_page [OF n]
  have le: "o_next x \<le> o_next y" "o_next y \<le> o_next z"
    using y less_imp_le [OF conjunct1 [OF n1]] by (simp_all add: z)
  have "o_owner z j = o_owner x j \<or> o_owner z j = Some txn \<and> (j \<in> S \<or> o_next x \<le> j \<and> j < o_next z)" for j
  proof -
    have "o_owner y j = o_owner x j \<or> o_owner y j = Some txn \<and> (j \<in> T \<or> o_next x \<le> j \<and> j < o_next y)"
      using y by simp
    moreover have "j < o_next y \<Longrightarrow> j < o_next z"
      using le by simp
    ultimately show ?thesis
      using i n1 le by (auto simp: z)
  qed
  moreover have "o_view z j = o_view x j" if "j < o_next x" "j \<notin> S" for j
    using that y i le by (auto simp: z)
  ultimately show ?thesis
    unfolding touched_def using y n1 le by (auto simp: z)
qed

lemma inserted_placed:
  assumes "db_ok {} s" and z: "obs s = y\<lparr>o_view := (o_view y)(i \<mapsto> q), o_owner := (o_owner y)(i \<mapsto> txn), o_txns := insert txn (o_txns y)\<rparr>"
    and y: "touched h txn T x y" "T \<subseteq> set (page_ids t)" "finite (o_busy y)" "card (insert i (o_busy y)) \<le> card (o_busy x) + 2 * h + 1"
    and i: "i \<in> set (page_ids t)" and r: "root_of u = root_of t"
    and g: "grown e h lo hi c [t] (o_next x) ((o_view y)(i \<mapsto> q)) [] [u]"
  shows "inserted e h lo hi c txn t x (Ok (0, None, 0), s)"
proof -
  have b: "o_busy (obs s) \<subseteq> insert i (o_busy y)"
    by (auto simp: z o_busy_def split: if_splits)
  then have "card (o_busy (obs s)) \<le> card (o_busy x) + 2 * Suc h"
    using card_mono [OF _ b] y(3,4) by auto
  moreover have "touched (Suc h) txn (set (page_ids t)) x (obs s)"
    using i y(1,2) by (auto simp: touched_def z)
  ultimately show ?thesis
    using assms(1) r g unfolding inserted_def prod.case
    by (intro conjI exI [of _ "[]"] exI [of _ "[u]"]) (simp_all add: z)
qed

lemma inserted_split:
  assumes "db_ok {} s" and z: "obs s = y\<lparr>o_next := o_next y + 1, o_view := (o_view y)(i \<mapsto> p, o_next y \<mapsto> q),
      o_owner := (o_owner y)(i \<mapsto> txn, o_next y \<mapsto> txn), o_txns := insert txn (o_txns y)\<rparr>"
    and y: "touched h txn T x y" "T \<subseteq> set (page_ids t)" "finite (o_busy y)" "card (insert i (o_busy y)) \<le> card (o_busy x) + 2 * h + 1"
    and i: "i \<in> set (page_ids t)" and r: "root_of u = root_of t" "root_of u' = o_next y"
    and n: "o_next y < no_page_id"
    and g: "grown e h lo hi c [t] (o_next x) ((o_view y)(i \<mapsto> p, o_next y \<mapsto> q)) [k] [u, u']"
  shows "inserted e h lo hi c txn t x (Ok (fst k, Some (snd k), o_next y), s)"
proof -
  have b: "o_busy (obs s) \<subseteq> insert (o_next y) (insert i (o_busy y))"
    by (auto simp: z o_busy_def split: if_splits)
  then have "card (o_busy (obs s)) \<le> card (o_busy x) + 2 * Suc h"
    using card_mono [OF _ b] y(3,4) card_insert_le' [of "o_next y" "insert i (o_busy y)"] by auto
  moreover have "touched (Suc h) txn (set (page_ids t)) x (obs s)"
    using touched_allocated [OF y(1) z n i y(2)] .
  moreover have "o_next x \<le> o_next y"
    using y(1) by (simp add: touched_def)
  ultimately show ?thesis
    using assms(1) r g unfolding inserted_def prod.case
    by (intro conjI exI [of _ "[k]"] exI [of _ "[u, u']"]) (simp_all add: z)
qed

text \<open>The common end of inserting and updating: the cell goes to its place on the page, or the page is split. The page
  may hold the cells \<open>ds\<close> that are left of \<open>cs\<close>.\<close>

definition place_cell :: "u32 \<Rightarrow> page \<Rightarrow> byte list \<Rightarrow> u8 \<Rightarrow> u32 \<Rightarrow> gvalue \<Rightarrow> row \<Rightarrow> schema \<Rightarrow> u64 \<Rightarrow> (storage, split) go" where
  "place_cell i p c op tid key r sch txn =
     bindG (of_option (find_insert_pos p tid key)) (\<lambda>pos.
     bindG (of_option (insert_cell_at (int pos) c p)) (\<lambda>(placed, p1).
     bindG (put_page i p1) (\<lambda>_.
     if placed then bindG (finish_page i txn op) (\<lambda>_. ret (0, None, 0)) else split_leaf i tid key r sch txn)))"

lemma place_cell_ok:
  assumes ok: "db_ok M s" "M \<subseteq> {i}" and x: "obs s = pinned i y" and pins: "0 \<le> o_pins y i"
    and y: "touched 0 txn {i} x y" "finite (o_busy y)" "card (insert i (o_busy y)) \<le> card (o_busy x) + 1"
    and p: "o_view y i = Some p" "leaf_page p i ds nx" "ds \<noteq> [] \<or> over lo (ckey c) \<or> int (length c) + 4 \<le> free_space p"
    and room: "room 1 (obs s)" "o_next y < no_page_id" and op: "is_page_op op"
    and e: "env_ok e" "leaf_in e lo hi ds" "put_cell c cs = insert_cell c ds"
    and c: "encode_leaf_cell tid (Some v) r sch = Some c" "cell_in_env e c" "ckey c = (tid, v)" "ckey c \<notin> ckey ` set ds"
      "above lo (ckey c)" "below hi (ckey c)"
  shows "inserted e 0 lo hi c txn (Leaf i cs nx) x (place_cell i p c op tid (Some v) r sch txn s)"
proof -
  note lp = leaf_page_cells [OF p(2)]
  have pin: "0 < o_pins (obs s) i" and v: "o_view (obs s) i = Some p"
    using pins p(1) by (simp_all add: x)
  have kok: "ckey_ok (key_kinds e) (tid, v)"
    using c(2,3) by (simp add: cell_in_env_def key_in_env_def)
  note sorted = leaf_in_sorted [OF e(2)]
  let ?pos = "pos_of ds (tid, v)" and ?t = "Leaf i cs nx"
  have pos: "find_insert_pos p tid (Some v) = Some ?pos"
    using find_insert_pos_ok [OF lp(1) kok] leaf_in_ok [OF e(2)] by (simp add: lp(2))
  have le: "?pos \<le> length (page_cells p)"
    by (simp add: lp(2) pos_of_def length_takeWhile_le)
  have ne: "c \<noteq> []"
    by (rule sized_nonempty [OF e(1) c(2)])
  note li = leaf_in_insert [OF e(2) c(2,5,6,4)]
  have T: "{i} \<subseteq> set (page_ids ?t)" "i \<in> set (page_ids ?t)" "card (insert i (o_busy y)) \<le> card (o_busy x) + 2 * 0 + 1"
    using y(3) by simp_all
  have nx: "o_next x \<le> o_next y"
    using y(1) by (simp add: touched_def)
  show ?thesis
  proof (cases "int (length c) + 4 \<le> free_space p")
    case True
    obtain q where q: "insert_cell_at (int ?pos) c p = Some (True, q)" "page_wf q" "same_header p q"
      "page_cells q = take ?pos (page_cells p) @ c # drop ?pos (page_cells p)" "free_space q = free_space p - int (length c) - 4"
      by (rule insert_cell_at_ok [OF lp(1) le ne True])
    have qp: "leaf_page q i (insert_cell c ds) nx"
      using q(4) insert_cell_pos [OF sorted c(4)] by (intro same_header_leaf_page [OF p(2) q(3,2)]) (simp add: lp(2) c(3))
    obtain s1 where s1: "put_page i q s = (Ok (), s1)" "db_ok (insert i M) s1"
      "obs s1 = (obs s)\<lparr>o_view := (o_view (obs s))(i \<mapsto> q)\<rparr>"
      by (rule put_rule [OF ok(1) pin leaf_page_wf(2) [OF qp] leaf_page_cells(5) [OF qp]])
    have v1: "0 < o_pins (obs s1) i" "o_view (obs s1) i = Some q"
      using pin by (simp_all add: s1(3))
    obtain l s2 where s2: "finish_page i txn op s1 = (Ok (), s2)" "db_ok (insert i M - {i}) s2"
      "obs s2 = (obs s1)\<lparr>o_view := (o_view (obs s1))(i \<mapsto> set_lsn l q),
         o_pins := (o_pins (obs s1))(i := o_pins (obs s1) i - 1), o_owner := (o_owner (obs s1))(i \<mapsto> txn), o_txns := insert txn (o_txns (obs s1))\<rparr>"
      by (rule finish_rule [OF s1(2) v1 op])
    have M: "insert i M - {i} = {}"
      using ok(2) by auto
    have pc: "place_cell i p c op tid (Some v) r sch txn s = (Ok (0, None, 0), s2)"
      using pos q(1) s1(1) s2(1) by (simp add: place_cell_def bindG_Ok)
    have z: "obs s2 = y\<lparr>o_view := (o_view y)(i \<mapsto> set_lsn l q), o_owner := (o_owner y)(i \<mapsto> txn), o_txns := insert txn (o_txns y)\<rparr>"
      by (simp add: s2(3) s1(3) x)
    have g: "grown e 0 lo hi c [?t] (o_next x) ((o_view y)(i \<mapsto> set_lsn l q)) [] [Leaf i (insert_cell c ds) nx]"
      using li qp e(3) by (simp add: grown_def stands_def fresh_empty_def)
    show ?thesis
      unfolding pc by (rule inserted_placed [OF s2(2) [unfolded M] z y(1) T(1) y(2) T(3,2) _ g]) simp
  next
    case False
    have small: "ds \<noteq> [] \<or> over lo (ckey c)"
      using False p(3) by blast
    have full: "insert_cell_at (int ?pos) c p = Some (False, p)"
      using insert_cell_at_full [OF le, of c] False by simp
    obtain s1 where s1: "put_page i p s = (Ok (), s1)" "db_ok (insert i M) s1"
      "obs s1 = (obs s)\<lparr>o_view := (o_view (obs s))(i \<mapsto> p)\<rparr>"
      by (rule put_rule [OF ok(1) pin leaf_page_wf(2) [OF p(2)] lp(5)])
    have M: "insert i M \<subseteq> {i}"
      using ok(2) by auto
    have x1: "obs s1 = pinned i y"
      using v by (simp add: s1(3) x fun_upd_idem)
    have v1: "o_view (obs s1) i = Some p" "0 < o_pins (obs s1) i" "room 1 (obs s1)" "o_next (obs s1) < no_page_id"
      using v pin room by (simp_all add: x1 x)
    obtain s2 cs1 c2 cs2 p1 q1 where s2: "split_leaf i tid (Some v) r sch txn s1 = (Ok (fst (ckey c2), Some (snd (ckey c2)), o_next (obs s1)), s2)"
      "db_ok {} s2" "cs1 @ c2 # cs2 = insert_cell c ds" "length cs1 = Suc (length ds) div 2" "free_space p1 = 4072 - int (cells_size cs1)"
      "leaf_page p1 i cs1 (o_next (obs s1))" "leaf_page q1 (o_next (obs s1)) (c2 # cs2) nx"
      "obs s2 = (obs s1)\<lparr>o_next := o_next (obs s1) + 1, o_view := (o_view (obs s1))(i \<mapsto> p1, o_next (obs s1) \<mapsto> q1),
         o_pins := (o_pins (obs s1))(i := o_pins (obs s1) i - 1),
         o_owner := (o_owner (obs s1))(i \<mapsto> txn, o_next (obs s1) \<mapsto> txn), o_txns := insert txn (o_txns (obs s1))\<rparr>"
      by (rule split_leaf_ok [OF s1(2) M v1(1) p(2) v1(2-4) e(1,2) c(1,2,4)])
    have cells: "leaf_in e lo hi (cs1 @ c2 # cs2)"
      using li by (simp only: s2(3))
    have over: "over lo (ckey c2)"
    proof (cases "ds = []")
      case True
      then have "c2 = c"
        using s2(3) by (simp add: append_eq_Cons_conv insert_cell_def)
      then show ?thesis
        using small True by simp
    next
      case False
      then have "cs1 \<noteq> []"
        using s2(4) by (cases ds) auto
      then obtain d cs1' where "cs1 = d # cs1'"
        by (cases cs1) auto
      then have "above lo (ckey d)" "ckey d < ckey c2"
        using cells by (auto simp: leaf_in_def)
      then show ?thesis
        by (cases lo) auto
    qed
    have parts: "leaf_in e lo (Some (ckey c2)) cs1" "leaf_in e (Some (ckey c2)) hi (c2 # cs2)" "below hi (ckey c2)" "key_in_env e (ckey c2)"
      using cells by (auto simp: leaf_in_def sorted_wrt_append cell_in_env_def intro: less_imp_le)
    have ne': "i \<noteq> o_next y"
      using o_view_id(3) [OF ok(1) v] by (simp add: x)
    have pc: "place_cell i p c op tid (Some v) r sch txn s = (Ok (fst (ckey c2), Some (snd (ckey c2)), o_next y), s2)"
      using pos full s1(1) s2(1) by (simp add: place_cell_def bindG_Ok x1)
    have z: "obs s2 = y\<lparr>o_next := o_next y + 1, o_view := (o_view y)(i \<mapsto> p1, o_next y \<mapsto> q1),
        o_owner := (o_owner y)(i \<mapsto> txn, o_next y \<mapsto> txn), o_txns := insert txn (o_txns y)\<rparr>"
      by (simp add: s2(8) x1)
    have g: "grown e 0 lo hi c [?t] (o_next x) ((o_view y)(i \<mapsto> p1, o_next y \<mapsto> q1)) [ckey c2]
        [Leaf i cs1 (o_next y), Leaf (o_next y) (c2 # cs2) nx]"
      using over parts s2(3,5-7) e(3) ne' nx by (auto simp: grown_def stands_def fresh_empty_def x1)
    show ?thesis
      unfolding pc by (rule inserted_split [OF s2(2) z y(1) T(1) y(2) T(3,2) _ _ room(2) g]) simp_all
  qed
qed

lemma insert_into_leaf_ok:
  assumes ok: "db_ok {} s" and x: "obs s = pinned i x" and pins: "0 \<le> o_pins x i" and fin: "finite (o_busy x)"
    and p: "o_view x i = Some p" "leaf_page p i cs nx" "fresh_empty (o_view x) (Leaf i cs nx)"
    and room: "room 1 (obs s)" "o_next x < no_page_id"
    and e: "env_ok e" "leaf_in e lo hi cs"
    and c: "encode_leaf_cell tid (Some v) r sch = Some c" "cell_in_env e c" "ckey c = (tid, v)" "ckey c \<notin> ckey ` set cs"
      "above lo (ckey c)" "below hi (ckey c)"
  shows "inserted e 0 lo hi c txn (Leaf i cs nx) x (insert_into_leaf i tid (Some v) r sch txn s)"
proof -
  have "get_page i s = (Ok p, s)"
    using pins p(1) by (intro get_rule) (simp_all add: x)
  then have "insert_into_leaf i tid (Some v) r sch txn s = place_cell i p c op_insert tid (Some v) r sch txn s"
    using c(1) by (simp add: insert_into_leaf_def place_cell_def bindG_Ok)
  moreover have "cs \<noteq> [] \<or> over lo (ckey c) \<or> int (length c) + 4 \<le> free_space p"
  proof -
    have "length c + length c + 8 \<le> 4072"
      using c(2) by (intro two_cells_fit [OF e(1)]) (simp_all add: cell_in_env_def)
    then show ?thesis
      using p(1,3) by (auto simp: fresh_empty_def)
  qed
  moreover have "inserted e 0 lo hi c txn (Leaf i cs nx) x (place_cell i p c op_insert tid (Some v) r sch txn s)"
    if "cs \<noteq> [] \<or> over lo (ckey c) \<or> int (length c) + 4 \<le> free_space p"
    by (rule place_cell_ok [OF ok _ x pins touched_refl fin _ p(1,2) that room _ e put_cell_fresh [OF c(4)] c])
      (use card_insert_le' [of i "o_busy x"] in \<open>simp_all add: is_page_op_def\<close>)
  ultimately show ?thesis by simp
qed

end
