(* ===== verification/Tree_Patch.thy ===== *)
theory Tree_Patch
  imports Tree_Grow
begin

text \<open>
  An internal node after a change below it (\<open>patchInternalAfterChildSplit\<close> of \<open>storage/btree/btree.go\<close>): the slot of
  the child is found and redirected, the separator is placed, and a full node is split in its turn.
\<close>

section \<open>Inserting a separator\<close>

lemma child_slot_ok:
  assumes p: "node_page p i (ka @ kb) (ia @ a # ib)" "length ia = length ka" "a \<notin> set ia"
    and kok: "\<forall>k \<in> set (ka @ kb). ckey_ok kinds k" and "j \<le> length ka"
  shows "child_slot p a [j..<length (ka @ kb)] =
    Some (case kb of [] \<Rightarrow> None | k # _ \<Rightarrow> Some (length ka, fst k, Some (snd k)))"
  using assms(5)
proof (induction "length ka - j" arbitrary: j)
  case 0
  then have j: "j = length ka" by simp
  note np = node_pageD [OF p(1)]
  show ?case
  proof (cases kb)
    case (Cons k kb')
    have "cell_at j p = Some (icell k a)"
      using cell_at_ok [OF np(1), of j] p(2) j by (simp add: np(5,9) Cons nth_append)
    moreover have "decode_internal_cell (icell k a) = Some (fst k, Some (snd k), a)"
      using icell_decode(1) [of kinds k] kok by (simp add: Cons)
    moreover have "[j..<length (ka @ kb)] = j # [Suc j..<length (ka @ kb)]"
      using j by (intro upt_conv_Cons) (simp add: Cons)
    ultimately show ?thesis
      by (simp add: Cons j)
  qed (simp add: j)
next
  case (Suc n)
  note np = node_pageD [OF p(1)]
  have j: "j < length ka" "j < length (ka @ kb)" "j < length ia" "Suc j \<le> length ka"
    using Suc(2,3) p(2) by simp_all
  have "cell_at j p = Some (icell (ka ! j) (ia ! j))"
    using cell_at_ok [OF np(1), of j] j by (simp add: np(5,9) nth_append)
  moreover have "decode_internal_cell (icell (ka ! j) (ia ! j)) = Some (fst (ka ! j), Some (snd (ka ! j)), ia ! j)"
    using icell_decode(1) [of kinds "ka ! j"] kok j(1) by simp
  moreover have "ia ! j \<noteq> a"
    using j(3) p(3) nth_mem by blast
  ultimately show ?case
    using Suc.hyps(1) [of "Suc j"] Suc.hyps(2) j by (simp add: upt_conv_Cons)
qed

lemma redirect_child_ok:
  assumes p: "node_page p i (ka @ kb) (ia @ a # ib)" "length ia = length ka" "a \<notin> set ia"
    and kok: "\<forall>k \<in> set (ka @ kb). ckey_ok kinds k"
  obtains q where "redirect_child p a b = Some q" "node_page q i (ka @ kb) (ia @ b # ib)"
proof -
  note np = node_pageD [OF p(1)]
  note cs = child_slot_ok [OF p kok, of 0]
  show thesis
  proof (cases kb)
    case Nil
    have "ib = []"
      using np(4) p(2) Nil by simp
    moreover have "map2 icell ka (ia @ [z]) = map2 icell ka ia" for z
      using map2_icell_split [of ia ka "[]" "[z]"] p(2) by simp
    ultimately have "node_page (set_rightmost_child b p) i (ka @ kb) (ia @ b # ib)"
      using np(1-6,8) np(7) [unfolded np(5) [symmetric]] p(2) Nil by (simp add: node_page_def)
    then show thesis
      using cs Nil by (intro that) (simp_all add: redirect_child_def np(9))
  next
    case (Cons k kb')
    have ib: "ib \<noteq> []"
      using np(4) p(2) Cons by auto
    have c: "page_cells p ! length ka = icell k a" "length ka < length (page_cells p)"
      using p(2) by (simp_all add: np(5) Cons nth_append np(9))
    have l: "length (icell k b) = length (page_cells p ! length ka)"
      unfolding c(1) by (rule length_icell_child)
    obtain q where q: "overwrite_cell (length ka) (icell k b) p = Some q" "page_wf q" "same_header p q"
      "page_cells q = (page_cells p)[length ka := icell k b]" "free_space q = free_space p"
      by (rule overwrite_cell_ok [OF np(1) c(2) l])
    have cells: "page_cells q = map2 icell (ka @ kb) (ia @ b # ib)"
      using p(2) by (simp add: q(4) np(5) Cons list_update_append)
    have "cells_size (map2 icell (ka @ kb) (ia @ b # ib)) = cells_size (map2 icell (ka @ kb) (ia @ a # ib))"
      using p(2) length_icell_child [of k a b] by (simp add: Cons)
    then have "node_page q i (ka @ kb) (ia @ b # ib)"
      using q(2,3,5) np cells ib by (simp add: node_page_def same_header_def)
    then show thesis
      using cs Cons q(1) by (intro that) (simp_all add: redirect_child_def np(9) icell_def)
  qed
qed

lemma separator_pos:
  assumes p: "node_page p i (ka @ kb) (ia @ b # ib)" "length ia = length ka"
    and kok: "\<forall>k \<in> set (ka @ k # kb). ckey_ok kinds k" "sorted_wrt (<) (ka @ k # kb)"
  shows "find_insert_pos p (fst k) (Some (snd k)) = Some (length ka)"
proof -
  note np = node_pageD [OF p(1)]
  have ks: "\<forall>k \<in> set (ka @ kb). ckey_ok kinds k" "ckey_ok kinds (fst k, snd k)"
    using kok(1) by auto
  have ik: "map ckey (page_cells p) = ka @ kb" "\<forall>c \<in> set (page_cells p). cell_ok kinds c"
    using icell_keys [OF ks(1), of "ia @ b # ib"] np(4) by (simp_all add: np(5))
  have cs: "page_cells p = take (length ka) (page_cells p) @ drop (length ka) (page_cells p)"
    by simp
  have "map ckey (take (length ka) (page_cells p)) = ka" "map ckey (drop (length ka) (page_cells p)) = kb"
    using ik(1) by (simp_all flip: take_map drop_map)
  then have m: "ckey ` set (take (length ka) (page_cells p)) = set ka" "ckey ` set (drop (length ka) (page_cells p)) = set kb"
    by (metis set_map)+
  have lt: "\<forall>j \<in> set ka. j < k" "\<forall>j \<in> set kb. k < j"
    using kok(2) by (auto simp: sorted_wrt_append)
  have "\<forall>c \<in> set (take (length ka) (page_cells p)). ckey c \<le> k" "\<forall>c \<in> set (drop (length ka) (page_cells p)). k < ckey c"
    using lt [folded m] by (simp_all add: less_imp_le)
  then have "pos_of (page_cells p) k = length ka"
    using pos_of_split [OF cs] np(9) by simp
  then show ?thesis
    using find_insert_pos_ok [OF np(1) ks(2) ik(2)] by simp
qed


text \<open>The page of a node after the separator \<open>k\<close> and the new child \<open>b\<close> of \<open>a\<close> went in: it had room, or was split.\<close>

lemma patch_ok:
  fixes a b :: u32
  assumes K: "K = ka @ k # kb" and I: "I = ia @ a # b # ib" and ok: "db_ok {} s" and x: "obs s = pinned i y" and pins: "0 \<le> o_pins y i"
    and p: "o_view y i = Some p" "node_page p i (ka @ kb) (ia @ a # ib)" "length ia = length ka" "a \<notin> set ia" "b \<noteq> 0"
    and room: "room 1 (obs s)" "o_next y < no_page_id"
    and e: "env_ok e" "\<forall>k \<in> set K. key_in_env e k" "sorted_wrt (<) K"
  obtains (placed) s' q where "patch_internal_after_child_split i a (fst k) (Some (snd k)) b txn s = (Ok (0, None, 0), s')"
      "db_ok {} s'" "node_page q i K I" "obs s' = y\<lparr>o_view := (o_view y)(i \<mapsto> q), o_owner := (o_owner y)(i \<mapsto> txn), o_txns := insert txn (o_txns y)\<rparr>"
    | (split) s' m p1 q1 where "patch_internal_after_child_split i a (fst k) (Some (snd k)) b txn s =
        (Ok (fst (K ! m), Some (snd (K ! m)), o_next y), s')" "db_ok {} s'" "0 < m" "Suc m < length K"
      "node_page p1 i (take m K) (take (Suc m) I)" "node_page q1 (o_next y) (drop (Suc m) K) (drop (Suc m) I)"
      "obs s' = y\<lparr>o_next := o_next y + 1, o_view := (o_view y)(i \<mapsto> p1, o_next y \<mapsto> q1),
         o_owner := (o_owner y)(i \<mapsto> txn, o_next y \<mapsto> txn), o_txns := insert txn (o_txns y)\<rparr>"
proof -
  have kok: "\<forall>j \<in> set (ka @ k # kb). ckey_ok (key_kinds e) j" "\<forall>j \<in> set (ka @ kb). ckey_ok (key_kinds e) j"
    using e(2) by (simp_all add: K key_in_env_def)
  obtain p1 where p1: "redirect_child p a b = Some p1" "node_page p1 i (ka @ kb) (ia @ b # ib)"
    by (rule redirect_child_ok [OF p(2-4) kok(2)])
  note np = node_pageD [OF p1(2)]
  have pos: "find_insert_pos p1 (fst k) (Some (snd k)) = Some (length ka)"
    by (rule separator_pos [OF p1(2) p(3) kok(1)]) (use e(3) in \<open>simp add: K\<close>)
  have pin: "0 < o_pins (obs s) i" and v: "o_view (obs s) i = Some p"
    using pins p(1) by (simp_all add: x)
  have g: "get_page i s = (Ok p, s)"
    by (rule get_rule [OF v pin])
  have le: "length ka \<le> length (page_cells p1)"
    by (simp add: np(9))
  have enc: "encode_internal_cell (fst k) (Some (snd k)) a = icell k a"
    by (simp add: icell_def)
  have cells: "take (length ka) (page_cells p1) @ icell k a # drop (length ka) (page_cells p1) = map2 icell K I"
    using p(3) by (simp add: np(5) K I)
  show thesis
  proof (cases "int (length (icell k a)) + 4 \<le> free_space p1")
    case True
    obtain q where q: "insert_cell_at (int (length ka)) (icell k a) p1 = Some (True, q)" "page_wf q" "same_header p1 q"
      "page_cells q = take (length ka) (page_cells p1) @ icell k a # drop (length ka) (page_cells p1)"
      "free_space q = free_space p1 - int (length (icell k a)) - 4"
      by (rule insert_cell_at_ok [OF np(1) le icell_not_Nil True])
    have size: "cells_size (map2 icell K I) = cells_size (map2 icell (ka @ kb) (ia @ b # ib)) + length (icell k a) + 4"
      using p(3) by (simp add: K I)
    have qc: "page_cells q = map2 icell K I"
      using q(4) cells by (rule trans)
    have qh: "page_id q = i" "page_type q = type_internal" "rightmost_child q = last (ia @ b # ib)"
      using q(3) np(2,3,6) by (simp_all add: same_header_def)
    have "free_space q + int (cells_size (page_cells q)) = 4072"
      unfolding qc using size q(5) np(7) by simp
    moreover have "last (ia @ b # ib) = last I" "length I = Suc (length K)"
      using np(4) by (simp_all add: K I)
    ultimately have qp: "node_page q i K I"
      unfolding node_page_def using q(2) qc qh by simp
    note nq = node_pageD [OF qp]
    obtain s1 where s1: "put_page i q s = (Ok (), s1)" "db_ok (insert i {}) s1"
      "obs s1 = (obs s)\<lparr>o_view := (o_view (obs s))(i \<mapsto> q)\<rparr>"
      by (rule put_rule [OF ok pin nq(8,2)])
    have v1: "0 < o_pins (obs s1) i" "o_view (obs s1) i = Some q" "is_page_op op_insert"
      using pin by (simp_all add: s1(3) is_page_op_def)
    obtain l s2 where s2: "finish_page i txn op_insert s1 = (Ok (), s2)" "db_ok (insert i {} - {i}) s2"
      "obs s2 = (obs s1)\<lparr>o_view := (o_view (obs s1))(i \<mapsto> set_lsn l q),
         o_pins := (o_pins (obs s1))(i := o_pins (obs s1) i - 1), o_owner := (o_owner (obs s1))(i \<mapsto> txn), o_txns := insert txn (o_txns (obs s1))\<rparr>"
      by (rule finish_rule [OF s1(2) v1])
    show thesis
    proof (rule placed [of s2 "set_lsn l q"])
      show "patch_internal_after_child_split i a (fst k) (Some (snd k)) b txn s = (Ok (0, None, 0), s2)"
        using g p1(1) pos q(1) s1(1) s2(1) p(5) by (simp add: patch_internal_after_child_split_def bindG_Ok enc)
      show "obs s2 = y\<lparr>o_view := (o_view y)(i \<mapsto> set_lsn l q), o_owner := (o_owner y)(i \<mapsto> txn), o_txns := insert txn (o_txns y)\<rparr>"
        by (simp add: s2(3) s1(3) x)
    qed (use s2(2) qp in simp_all)
  next
    case False
    have full: "insert_cell_at (int (length ka)) (icell k a) p1 = Some (False, p1)"
      using insert_cell_at_full [OF le, of "icell k a"] False by simp
    obtain s1 where s1: "put_page i p1 s = (Ok (), s1)" "db_ok (insert i {}) s1"
      "obs s1 = (obs s)\<lparr>o_view := (o_view (obs s))(i \<mapsto> p1)\<rparr>"
      by (rule put_rule [OF ok pin np(8,2)])
    have v1: "o_view (obs s1) i = Some p1" "0 < o_pins (obs s1) i" "room 1 (obs s1)" "o_next (obs s1) < no_page_id"
      using pin room by (simp_all add: s1(3) x room_def o_busy_def)
    have lt: "free_space p1 < int (length (icell k a)) + 4"
      using False by simp
    obtain s2 m p2 q2 where s2: "split_internal i (fst k) (Some (snd k)) a txn s1 = (Ok (fst (K ! m), Some (snd (K ! m)), o_next (obs s1)), s2)"
      "db_ok {} s2" "0 < m" "Suc m < length K"
      "node_page p2 i (take m K) (take (Suc m) I)" "node_page q2 (o_next (obs s1)) (drop (Suc m) K) (drop (Suc m) I)"
      "obs s2 = (obs s1)\<lparr>o_next := o_next (obs s1) + 1, o_view := (o_view (obs s1))(i \<mapsto> p2, o_next (obs s1) \<mapsto> q2),
         o_pins := (o_pins (obs s1))(i := o_pins (obs s1) i - 1),
         o_owner := (o_owner (obs s1))(i \<mapsto> txn, o_next (obs s1) \<mapsto> txn), o_txns := insert txn (o_txns (obs s1))\<rparr>"
      by (rule split_internal_ok [OF K I s1(2) subset_refl v1(1) p1(2) v1(2-4) e p(3) lt])
    have ne: "i \<noteq> o_next y"
      using o_view_id(3) [OF ok v] by (simp add: x)
    have n: "o_next (obs s1) = o_next y"
      by (simp only: s1(3) x) simp
    show thesis
    proof (rule split [of m s2 p2 q2])
      show "patch_internal_after_child_split i a (fst k) (Some (snd k)) b txn s = (Ok (fst (K ! m), Some (snd (K ! m)), o_next y), s2)"
        using g p1(1) pos full s1(1) s2(1) p(5) n by (simp add: patch_internal_after_child_split_def bindG_Ok enc)
      show "obs s2 = y\<lparr>o_next := o_next y + 1, o_view := (o_view y)(i \<mapsto> p2, o_next y \<mapsto> q2),
         o_owner := (o_owner y)(i \<mapsto> txn, o_next y \<mapsto> txn), o_txns := insert txn (o_txns y)\<rparr>"
        using ne by (simp add: s2(7) s1(3) x)
    qed (use s2 n in simp_all)
  qed
qed

section \<open>Nodes over a grown forest\<close>

lemma grown_cong:
  assumes "grown e h lo hi c us N V ks ts" "\<And>i. i \<in> set (concat (map page_ids ts)) \<Longrightarrow> V i = W i"
  shows "grown e h lo hi c us N W ks ts"
proof -
  have "stands W h t" if "t \<in> set ts" for t
    using assms that stands_cong [of t V W h] by (auto simp: grown_def)
  then show ?thesis
    using assms(1) by (simp add: grown_def)
qed

lemma grown_node:
  assumes g: "grown e h lo hi c us N W ks ts" and ks: "ks \<noteq> []" and p: "W i = Some q" "node_page q i ks (map root_of ts)"
    and i: "i \<notin> set (concat (map page_ids us))" "i < N"
  shows "grown e (Suc h) lo hi c [Node i js us] N W [] [Node i ks ts]"
proof -
  note g = g [unfolded grown_def]
  have "i \<notin> set (concat (map page_ids ts))"
    using g i by (auto dest: leD)
  then show ?thesis
    using g ks p unfolding grown_def by (auto simp: stands_Node tree_cells_Node)
qed

lemma concat_cut: "concat (map f (take n xs)) @ concat (map f (drop n xs)) = concat (map f xs)"
  by (metis append_take_drop_id concat_append map_append)

lemma grown_split:
  assumes g: "grown e h lo hi c us N W ks ts" and m: "0 < m" "Suc m < length ks"
    and p: "W i = Some p" "node_page p i (take m ks) (take (Suc m) (map root_of ts))"
    and q: "W n = Some q" "node_page q n (drop (Suc m) ks) (drop (Suc m) (map root_of ts))"
    and i: "i \<notin> set (concat (map page_ids us))" "i < N" and n: "n \<notin> set (concat (map page_ids ts))" "N \<le> n"
  shows "grown e (Suc h) lo hi c [Node i js us] N W [ks ! m]
    [Node i (take m ks) (take (Suc m) ts), Node n (drop (Suc m) ks) (drop (Suc m) ts)]"
proof -
  note g = g [unfolded grown_def]
  let ?us = "take (Suc m) ts" and ?vs = "drop (Suc m) ts"
  have ks: "ks = take m ks @ ks ! m # drop (Suc m) ks"
    using m(2) by (intro id_take_nth_drop) simp
  have "kids_in (tree_in e) lo hi (take m ks @ ks ! m # drop (Suc m) ks) (?us @ ?vs)"
    using g unfolding append_take_drop_id by (simp flip: ks)
  moreover have "length ?us = Suc (length (take m ks))"
    using kids_in_length [of "tree_in e" lo hi ks ts] g m by simp
  ultimately have cut: "kids_in (tree_in e) lo (Some (ks ! m)) (take m ks) ?us" "kids_in (tree_in e) (Some (ks ! m)) hi (drop (Suc m) ks) ?vs"
    "over lo (ks ! m)" "below hi (ks ! m)"
    by (rule kids_in_cut)+
  have ne: "take m ks \<noteq> []" "drop (Suc m) ks \<noteq> []"
    using m by auto
  have in_ks: "ks ! m \<in> set ks" "set (take m ks) \<subseteq> set ks" "set (drop (Suc m) ks) \<subseteq> set ks"
    using m by (simp_all add: set_take_subset set_drop_subset)
  have in_ts: "set ?us \<subseteq> set ts" "set ?vs \<subseteq> set ts"
    by (simp_all add: set_take_subset set_drop_subset)
  have stand: "stands W (Suc h) (Node i (take m ks) ?us)" "stands W (Suc h) (Node n (drop (Suc m) ks) ?vs)"
    unfolding stands_Node using p q in_ts g by (auto simp: take_map drop_map)
  have i': "i \<notin> set (concat (map page_ids ts))" "i \<noteq> n"
    using g i n by (auto dest: leD)
  note cat = concat_cut [of _ "Suc m" ts]
  have dist: "distinct (concat (map page_ids [Node i (take m ks) ?us, Node n (drop (Suc m) ks) ?vs]))"
    using g i' n(1) unfolding cat [of page_ids, symmetric] by auto
  have sub: "set (concat (map page_ids [Node i (take m ks) ?us, Node n (drop (Suc m) ks) ?vs])) \<subseteq> set (concat (map page_ids [Node i js us])) \<union> {i. N \<le> i}"
    using g n(2) unfolding cat [of page_ids, symmetric] by auto
  show ?thesis
    unfolding grown_def
  proof (intro conjI)
    show "kids_in (tree_in e) lo hi [ks ! m] [Node i (take m ks) ?us, Node n (drop (Suc m) ks) ?vs]"
      using cut ne in_ks g by auto
  qed (use g in_ks stand dist sub cat [of tree_cells] cat [of leaves] in \<open>auto simp: tree_cells_Node\<close>)
qed

section \<open>The recursion\<close>

lemma room_less: "room n x \<Longrightarrow> m \<le> n \<Longrightarrow> room m x"
  by (simp add: room_def)

lemma finite_pinned: "0 \<le> o_pins x i \<Longrightarrow> obs s = pinned i x \<Longrightarrow> finite (o_busy x) \<and> o_busy (obs s) = insert i (o_busy x)"
proof -
  assume a: "0 \<le> o_pins x i" "obs s = pinned i x"
  then have "o_busy (obs s) = insert i (o_busy x)"
    by (auto simp: o_busy_def)
  then show ?thesis
    by (metis finite_busy finite_insert o_busy_obs)
qed

lemma fetch_pins:
  assumes ok: "db_ok M s" and p: "o_view (obs s) i = Some p" and room: "room (Suc n) (obs s)"
  obtains s' where "fetch_page i s = (Ok p, s')" "db_ok M s'" "obs s' = pinned i (obs s)" "room n (obs s')" "0 \<le> o_pins (obs s) i"
proof -
  have 1: "room 1 (obs s)"
    using room by (rule room_less) simp
  obtain s' where s': "fetch_page i s = (Ok p, s')" "db_ok M s'"
    "obs s' = (obs s)\<lparr>o_pins := (o_pins (obs s))(i := o_pins (obs s) i + 1)\<rparr>"
    by (rule fetch_rule [OF ok p 1])
  have x: "obs s' = pinned i (obs s)"
    by (simp add: s'(3) pinned_def)
  have pins: "0 \<le> o_pins (obs s) i"
    using pins_nonneg [OF db_ok_pool [OF ok]] by simp
  have "room n (obs s')"
    using finite_pinned [OF pins x] room card_insert_le' [of i "o_busy (obs s)"] by (simp add: room_def x)
  then show thesis
    by (rule that [OF s'(1,2) x _ pins])
qed

lemma unpinned:
  assumes "touched m txn T (pinned i x) (obs s)"
  obtains y where "obs s = pinned i y" "touched m txn T x y" "o_pins y = o_pins x"
proof (rule that [of "(obs s)\<lparr>o_pins := o_pins x\<rparr>"])
  have "o_pins (obs s) = (o_pins x)(i := o_pins x i + 1)"
    using assms by (simp add: touched_def)
  then show "obs s = pinned i ((obs s)\<lparr>o_pins := o_pins x\<rparr>)"
    by (simp add: pinned_def)
  show "touched m txn T x ((obs s)\<lparr>o_pins := o_pins x\<rparr>)"
    using assms by (simp add: touched_def)
qed simp

lemma stands_pages:
  assumes "stands (o_view (obs s)) h t" "db_ok M s" "i \<in> set (page_ids t)"
  shows "i < o_next (obs s)"
proof -
  have "holds_tree V t \<Longrightarrow> i \<in> set (page_ids t) \<Longrightarrow> V i \<noteq> None" for V
    by (induction V t rule: holds_tree.induct) auto
  then show ?thesis
    using assms o_view_id(3) [OF assms(2)] unfolding stands_def by blast
qed

lemma root_in_pages: "root_of t \<in> set (page_ids t)"
  by (cases t) simp_all


text \<open>The step of a node: its child \<open>u\<close> has grown to \<open>ts'\<close>, and the node takes the separator up.\<close>

lemma insert_step:
  fixes as bs :: "tree list"
  defines "us \<equiv> \<lambda>ts. as @ ts @ bs"
  assumes t: "tree_in e lo hi (Node i (ka @ kb) (us [u]))" and la: "length as = length ka" and dist: "distinct (page_ids (Node i (ka @ kb) (us [u])))"
    and p: "o_view x i = Some p" "node_page p i (ka @ kb) (map root_of (us [u]))"
    and kids: "\<forall>w \<in> set (as @ bs). stands (o_view x) h w" "balanced h u"
    and below_next: "\<forall>j \<in> set (page_ids (Node i (ka @ kb) (us [u]))). j < o_next x"
    and cells: "\<And>a d. a \<in> set as \<Longrightarrow> d \<in> set (tree_cells a) \<Longrightarrow> ckey d < ckey c" "\<And>b d. b \<in> set bs \<Longrightarrow> d \<in> set (tree_cells b) \<Longrightarrow> ckey c < ckey d"
    and ins: "inserted e h (lower lo ka) (upper hi kb) c txn u (pinned i x) (Ok r, s)"
    and pins: "0 \<le> o_pins x i" and e: "env_ok e" and fin: "finite (o_busy x)" and room: "room (2 * h + 4) x" "unat (o_next x) + Suc h < unat no_page_id"
  shows "inserted e (Suc h) lo hi c txn (Node i (ka @ kb) (us [u])) x
    (case r of (ut, uk, nc) \<Rightarrow> patch_internal_after_child_split i (root_of u) ut uk nc txn s)"
proof -
  let ?t = "Node i (ka @ kb) (us [u])" and ?T = "set (page_ids u)"
  obtain ks' ts' where ok: "db_ok {} s" and tch: "touched (Suc h) txn ?T (pinned i x) (obs s)"
    and busy: "card (o_busy (obs s)) \<le> card (o_busy (pinned i x)) + 2 * Suc h"
    and r: "r = split_of ks' ts'" "length ks' \<le> 1" "root_of (hd ts') = root_of u" "ks' \<noteq> [] \<longrightarrow> o_next x \<le> root_of (ts' ! 1)"
    and gr: "grown e h (lower lo ka) (upper hi kb) c [u] (o_next x) (o_view (obs s)) ks' ts'"
    using ins unfolding inserted_def by auto
  obtain y where y: "obs s = pinned i y" "touched (Suc h) txn ?T x y" "o_pins y = o_pins x"
    by (rule unpinned [OF tch])
  have next_y: "o_next x \<le> o_next y" "unat (o_next y) \<le> unat (o_next x) + Suc h" "o_max y = o_max x"
    and same: "\<And>j. j < o_next x \<Longrightarrow> j \<notin> ?T \<Longrightarrow> o_view y j = o_view x j"
    using y(2) by (auto simp: touched_def)
  have i: "i \<notin> set (concat (map page_ids (us [u])))" "i < o_next x" and d: "distinct (concat (map page_ids (us [u])))"
    using dist below_next by simp_all
  have vi: "o_view y i = Some p"
    using same [of i] i p(1) by (auto simp: us_def)
  have py: "0 \<le> o_pins y i"
    using pins by (simp add: y(3))
  have ib: "o_busy (obs s) = insert i (o_busy y)" "finite (o_busy y)"
    using finite_pinned [OF py y(1)] by simp_all
  have "o_busy (pinned i x) \<subseteq> insert i (o_busy x)"
    by (auto simp: o_busy_def split: if_splits)
  then have "card (o_busy (pinned i x)) \<le> Suc (card (o_busy x))"
    using card_mono [of "insert i (o_busy x)"] fin card_insert_le' [of i "o_busy x"] by (meson finite_insert order_trans)
  then have cb: "card (insert i (o_busy y)) \<le> card (o_busy x) + 2 * Suc h + 1"
    using busy unfolding ib(1) by simp
  have stand: "\<forall>w \<in> set (as @ bs). stands (o_view y) h w"
  proof
    fix w assume w: "w \<in> set (as @ bs)"
    have "o_view x j = o_view y j" if "j \<in> set (page_ids w)" for j
    proof -
      have "j < o_next x"
        using below_next that w by (auto simp: us_def)
      moreover have "j \<notin> ?T"
        using d that w by (auto simp: us_def)
      ultimately show ?thesis
        using same by simp
    qed
    then show "stands (o_view y) h w"
      using kids(1) w stands_cong [of w "o_view x" "o_view y" h] by blast
  qed
  have kin: "kids_in (tree_in e) lo hi (ka @ kb) (as @ u # bs)" "\<forall>k \<in> set (ka @ kb). key_in_env e k" "ka @ kb \<noteq> []"
    using t by (simp_all add: us_def)
  have dn: "distinct (concat (map page_ids (as @ u # bs)))" "\<forall>j \<in> set (concat (map page_ids (as @ u # bs))). j < o_next x"
    using d below_next by (auto simp: us_def)
  have G: "grown e h lo hi c (us [u]) (o_next x) (o_view y) (ka @ ks' @ kb) (us ts')"
    using grown_kids [OF _ kin(1) la kin(2) kids(2) stand cells dn] gr by (simp add: us_def y(1))
  have i': "i \<notin> set (concat (map page_ids (us ts')))"
    using G i by (auto simp: grown_def dest: leD)
  have Tt: "?T \<subseteq> set (page_ids ?t)" "i \<in> set (page_ids ?t)"
    by (auto simp: us_def)
  have rm: "map root_of (us [u]) = map root_of as @ root_of u # map root_of bs"
    by (simp add: us_def)
  have len: "length ts' = Suc (length ks')"
    using gr kids_in_length by (auto simp: grown_def)
  show ?thesis
  proof (cases ks')
    case Nil
    then obtain u' where u': "ts' = [u']" "root_of u' = root_of u"
      using len r(3) by (cases ts') auto
    have pin: "0 < o_pins (obs s) i"
      using py by (simp add: y(1))
    note rel = release_rule [OF ok pin]
    have z: "obs (release_page i s) = y"
      using rel(2) by (simp add: y(1))
    have p': "node_page p i (ka @ kb) (map root_of (us ts'))"
      using p(2) by (simp add: us_def u')
    have "grown e (Suc h) lo hi c [?t] (o_next x) (o_view y) [] [Node i (ka @ kb) (us ts')]"
      using grown_node [OF G _ vi _ i] kin(3) p' by (simp add: Nil)
    moreover have "touched (Suc (Suc h)) txn (set (page_ids ?t)) x y"
      using y(2) Tt(1) by (auto simp: touched_def)
    moreover have "card (o_busy y) \<le> card (o_busy x) + 2 * Suc (Suc h)"
      using cb card_mono [OF _ subset_insertI [of "o_busy y" i]] ib(2) by simp
    moreover have "patch_internal_after_child_split i (root_of u) 0 None 0 txn s = (Ok (0, None, 0), release_page i s)"
      by (simp add: patch_internal_after_child_split_def bindG_def)
    moreover have "busy (release_page i s) = o_busy y"
      using arg_cong [OF z, of o_busy] by simp
    ultimately show ?thesis
      using rel(1) unfolding inserted_def r(1) Nil u'(1) split_of.simps prod.case
      by (auto simp: z intro!: exI [of _ "[]"] exI [of _ "[Node i (ka @ kb) (us [u'])]"])
  next
    case (Cons k ks2)
    then have k: "ks' = [k]"
      using r(2) by simp
    then obtain u1 u2 where u: "ts' = [u1, u2]" "root_of u1 = root_of u" "o_next x \<le> root_of u2"
      using len r(3,4) by (cases ts'; cases "tl ts'") auto
    let ?K = "ka @ k # kb" and ?ts = "us [u1, u2]"
    let ?I = "map root_of as @ root_of u # root_of u2 # map root_of bs"
    have I: "map root_of ?ts = ?I"
      using u(2) by (simp add: us_def)
    have G2: "grown e h lo hi c (us [u]) (o_next x) (o_view y) ?K ?ts"
      using G by (simp add: k u(1))
    have nc: "root_of u2 \<noteq> 0"
      using u(3) i(2) by (auto simp: word_le_nat_alt word_less_nat_alt)
    have "root_of u \<notin> set (map root_of as)"
    proof
      assume "root_of u \<in> set (map root_of as)"
      then obtain a where "a \<in> set as" "root_of u = root_of a" by auto
      then have "root_of u \<in> set (concat (map page_ids as))"
        using root_in_pages [of a] by auto
      then show False
        using dn(1) root_in_pages [of u] by auto
    qed
    note redirect = length_map [of root_of as, unfolded la] this nc
    have "room 1 (obs s)"
    proof -
      have "card (o_busy (obs s)) + 1 \<le> card (o_busy x) + (2 * h + 4)"
        using cb unfolding ib(1) by simp
      then show ?thesis
        using room(1) next_y(3) by (simp add: room_def y(1))
    qed
    moreover have n: "o_next y < no_page_id"
      using next_y(2) room(2) by (simp add: word_less_nat_alt)
    ultimately have rn: "room 1 (obs s)" "o_next y < no_page_id"
      by blast+
    have K: "\<forall>k \<in> set ?K. key_in_env e k" "sorted_wrt (<) ?K" "kids_in (tree_in e) lo hi ?K ?ts"
      using G2 kids_in_sorted unfolding grown_def by blast+
    have lK: "length ?ts = Suc (length ?K)"
      by (rule kids_in_length [OF K(3)])
    note p' = p(2) [unfolded rm]
    from patch_ok [where txn = txn, OF refl refl ok y(1) py vi p' redirect rn e K(1,2)]
    have goal: "inserted e (Suc h) lo hi c txn ?t x (patch_internal_after_child_split i (root_of u) (fst k) (Some (snd k)) (root_of u2) txn s)"
    proof cases
      case (1 s' q)
      have "grown e h lo hi c (us [u]) (o_next x) ((o_view y)(i \<mapsto> q)) ?K ?ts"
        by (rule grown_cong [OF G2]) (use i' in \<open>auto simp: k u(1)\<close>)
      then have "grown e (Suc h) lo hi c [?t] (o_next x) ((o_view y)(i \<mapsto> q)) [] [Node i ?K ?ts]"
        using 1(3) i by (intro grown_node [where q = q]) (simp_all add: I)
      then show ?thesis
        unfolding 1(1) by (intro inserted_placed [OF 1(2,4) y(2) Tt(1) ib(2) cb Tt(2)]) simp_all
    next
      case (2 s' m p1 q1)
      have new: "o_next y \<notin> set (concat (map page_ids ?ts))"
      proof
        assume "o_next y \<in> set (concat (map page_ids ?ts))"
        then obtain w where w: "w \<in> set ?ts" "o_next y \<in> set (page_ids w)" by auto
        then have "stands (o_view (obs s)) h w"
          using G2 by (auto simp: grown_def y(1))
        from stands_pages [OF this ok w(2)] show False
          by (simp add: y(1))
      qed
      have ne: "i \<noteq> o_next y"
        using i(2) next_y(1) by auto
      have "grown e h lo hi c (us [u]) (o_next x) ((o_view y)(i \<mapsto> p1, o_next y \<mapsto> q1)) ?K ?ts"
        by (rule grown_cong [OF G2]) (use i' new in \<open>auto simp: k u(1)\<close>)
      then have "grown e (Suc h) lo hi c [?t] (o_next x) ((o_view y)(i \<mapsto> p1, o_next y \<mapsto> q1)) [?K ! m]
          [Node i (take m ?K) (take (Suc m) ?ts), Node (o_next y) (drop (Suc m) ?K) (drop (Suc m) ?ts)]"
        using 2(3-6) i new next_y(1) ne by (intro grown_split [where p = p1 and q = q1]) (simp_all add: I)
      then show ?thesis
        unfolding 2(1) by (intro inserted_split [OF 2(2,7) y(2) Tt(1) ib(2) cb Tt(2) _ _ rn(2)]) simp_all
    qed
    then show ?thesis
      by (simp add: r(1) k u(1))
  qed
qed

end
