(* ===== verification/Tree_Change.thy ===== *)
theory Tree_Change
  imports Tree_Patch
begin

text \<open>
  \<open>Insert\<close>, \<open>Update\<close> and \<open>Delete\<close> of \<open>storage/btree/btree.go\<close> keep the tree well-formed and change its cells by the one
  cell they are about. Insertion and update share their descent (the locale \<open>tree_change\<close>, interpreted on both).
\<close>

lemma inserted_Ok: "inserted e h lo hi c txn t x y \<Longrightarrow> \<exists>a s. y = (Ok a, s)"
  by (cases y) (auto simp: inserted_def simp del: split_paired_Ex)

text \<open>Insertion and update descend in the same way to the leaf of the key, and each node on the way back takes up what
  its child reports. They differ in what they do on the leaf, and in what they need of the tree (\<open>fit\<close>)
  and of its pages, which are \<open>held\<close> at the start.\<close>

locale tree_change =
  fixes e :: env and c :: "byte list" and tid :: u32 and v :: value_t and txn :: u64
    and leaf_op :: "u32 \<Rightarrow> (storage, split) go" and descend :: "nat \<Rightarrow> u32 \<Rightarrow> (storage, split) go"
    and held :: "u32 \<Rightarrow> page option" and fit :: "bound \<Rightarrow> tree \<Rightarrow> bool"
  assumes descend_Suc: "descend (Suc n) i =
      bindG (fetch_page i) (\<lambda>p. if page_type p = type_leaf then leaf_op i else into_internal (descend n) i tid (Some v) txn)"
    and fit_key: "fit lo t \<Longrightarrow> env_ok e \<and> ckey_ok (key_kinds e) (tid, v) \<and> ckey c = (tid, v)"
    and fit_child: "length as = length ka \<Longrightarrow> fit lo (Node i (ka @ kb) (as @ u # bs)) \<Longrightarrow> \<forall>d \<in> set (concat (map tree_cells (as @ bs))). ckey d \<noteq> (tid, v) \<Longrightarrow>
      fit (lower lo ka) u"
    and leaf_op_ok: "fit lo (Leaf i cs nx) \<Longrightarrow> o_view x = held \<Longrightarrow> db_ok {} s \<Longrightarrow> obs s = pinned i x \<Longrightarrow> 0 \<le> o_pins x i \<Longrightarrow> finite (o_busy x) \<Longrightarrow>
      o_view x i = Some p \<Longrightarrow> leaf_page p i cs nx \<Longrightarrow> fresh_empty (o_view x) (Leaf i cs nx) \<Longrightarrow>
      room 1 (obs s) \<Longrightarrow> o_next x < no_page_id \<Longrightarrow> leaf_in e lo hi cs \<Longrightarrow> above lo (tid, v) \<Longrightarrow> below hi (tid, v) \<Longrightarrow>
      inserted e 0 lo hi c txn (Leaf i cs nx) x (leaf_op i s)"
begin

lemma descend_ok:
  assumes "fit lo t" "tree_in e lo hi t" "stands (o_view (obs s)) h t" "db_ok {} s" "distinct (page_ids t)" "h < fuel"
    and "room (2 * h + 2) (obs s)" "unat (o_next (obs s)) + h < unat no_page_id" "above lo (tid, v)" "below hi (tid, v)" "o_view (obs s) = held"
  shows "inserted e h lo hi c txn t (obs s) (descend fuel (root_of t) s)"
  using assms
proof (induction h t arbitrary: lo hi fuel s rule: balanced.induct)
  case (1 i cs nx)
  obtain f where f: "fuel = Suc f"
    using "1.prems"(6) by (cases fuel) auto
  obtain p where p: "o_view (obs s) i = Some p" "leaf_page p i cs nx"
    using "1.prems"(3) by (auto simp: stands_def)
  have room: "room (Suc 1) (obs s)"
    using "1.prems"(7) by (simp add: numeral_2_eq_2)
  obtain s1 where s1: "fetch_page i s = (Ok p, s1)" "db_ok {} s1" "obs s1 = pinned i (obs s)" "room 1 (obs s1)" "0 \<le> o_pins (obs s) i"
    by (rule fetch_pins [OF "1.prems"(4) p(1) room])
  have fin: "finite (o_busy (obs s))"
    by simp
  have "descend fuel (root_of (Leaf i cs nx)) s = leaf_op i s1"
    using p(2) s1(1) by (simp add: f descend_Suc leaf_page_def bindG_def)
  moreover have "inserted e 0 lo hi c txn (Leaf i cs nx) (obs s) (leaf_op i s1)"
    using "1.prems" by (intro leaf_op_ok [OF _ _ s1(2,3,5) fin p _ s1(4)]) (simp_all add: stands_def word_less_nat_alt)
  ultimately show ?case
    by simp
next
  case (2 h i ks ts)
  obtain f where f: "fuel = Suc f" "h < f"
    using "2.prems"(6) by (cases fuel) auto
  obtain p where p: "o_view (obs s) i = Some p" "node_page p i ks (map root_of ts)" and st: "\<forall>t \<in> set ts. stands (o_view (obs s)) h t"
    using "2.prems"(3) by (auto simp: stands_Node)
  have fk: "env_ok e" "ckey_ok (key_kinds e) (tid, v)" "ckey c = (tid, v)"
    using fit_key [OF "2.prems"(1)] by blast+
  obtain ka kb as u bs where R: "ks = ka @ kb" "ts = as @ u # bs" "length as = length ka"
    "find_child_page_id p tid (Some v) = Some (root_of u)"
    "tree_in e (lower lo ka) (upper hi kb) u" "above (lower lo ka) (tid, v)" "below (upper hi kb) (tid, v)"
    "\<And>a c. a \<in> set as \<Longrightarrow> c \<in> set (tree_cells a) \<Longrightarrow> ckey c < (tid, v)"
    "\<And>b c. b \<in> set bs \<Longrightarrow> c \<in> set (tree_cells b) \<Longrightarrow> (tid, v) < ckey c"
    by (rule node_route [OF p(2) "2.prems"(2) fk(2) "2.prems"(9,10)]) blast
  have room: "room (Suc (2 * h + 3)) (obs s)"
    using "2.prems"(7) by (simp add: numeral_3_eq_3)
  obtain s1 where s1: "fetch_page i s = (Ok p, s1)" "db_ok {} s1" "obs s1 = pinned i (obs s)" "room (2 * h + 3) (obs s1)" "0 \<le> o_pins (obs s) i"
    by (rule fetch_pins [OF "2.prems"(4) p(1) room])
  let ?child = "descend f (root_of u) s1"
  have u: "u \<in> set ts"
    by (simp add: R(2))
  have away: "\<forall>d \<in> set (concat (map tree_cells (as @ bs))). ckey d \<noteq> (tid, v)"
    using R(8,9) by (fastforce dest: less_imp_neq)
  have child: "inserted e h (lower lo ka) (upper hi kb) c txn u (obs s1) ?child"
  proof (rule "2.IH" [OF u _ R(5) _ s1(2) _ f(2) _ _ R(6,7)])
    show "fit (lower lo ka) u"
      by (rule fit_child [OF R(3) "2.prems"(1) [unfolded R(1,2)] away])
    show "stands (o_view (obs s1)) h u" "distinct (page_ids u)"
      using st "2.prems"(5) by (simp_all add: R(2) s1(3))
    show "room (2 * h + 2) (obs s1)"
      using s1(4) by (rule room_less) simp
    show "unat (o_next (obs s1)) + h < unat no_page_id" "o_view (obs s1) = held"
      using "2.prems"(8,11) by (simp_all add: s1(3))
  qed
  then obtain x s2 where x: "?child = (Ok x, s2)"
    using inserted_Ok by blast
  note ins = child [unfolded x s1(3)]
  obtain ut uk nc where xs: "x = (ut, uk, nc)" by (cases x)
  have pin: "0 < o_pins (obs s1) i" "o_view (obs s1) i = Some p"
    using s1(5) p(1) by (simp_all add: s1(3))
  note g = get_rule [OF pin(2,1)]
  have step: "descend fuel (root_of (Node i ks ts)) s = patch_internal_after_child_split i (root_of u) ut uk nc txn s2"
    using p(2) R(4) x s1(1) g by (simp add: f(1) descend_Suc node_page_def into_internal_def xs bindG_def on_err_def)
  have "inserted e (Suc h) lo hi c txn (Node i (ka @ kb) (as @ [u] @ bs)) (obs s)
    (case x of (ut, uk, nc) \<Rightarrow> patch_internal_after_child_split i (root_of u) ut uk nc txn s2)"
  proof (rule insert_step [OF _ R(3) _ p(1) _ _ _ _ _ _ ins s1(5) fk(1)])
    show "\<forall>w \<in> set (as @ bs). stands (o_view (obs s)) h w" "balanced h u"
      using st by (auto simp: R(2) stands_balanced)
    show "\<forall>j \<in> set (page_ids (Node i (ka @ kb) (as @ [u] @ bs))). j < o_next (obs s)"
      using stands_pages [OF "2.prems"(3,4)] by (simp add: R(1,2))
    show "room (2 * h + 4) (obs s)"
      by (rule room_less [OF "2.prems"(7)]) simp
    show "unat (o_next (obs s)) + Suc h < unat no_page_id"
      using "2.prems"(8) by simp
  qed (use "2.prems"(2,5) p(2) R(8,9) fk(3) in \<open>simp_all add: R(1,2)\<close>)
  then show ?case
    unfolding step by (simp add: xs R(1,2))
qed (simp_all add: stands_def)

end

text \<open>Inserting a row with a new key.\<close>

definition insert_fit :: "env \<Rightarrow> byte list \<Rightarrow> u32 \<Rightarrow> value_t \<Rightarrow> row \<Rightarrow> schema \<Rightarrow> tree \<Rightarrow> bool" where
  "insert_fit e c tid v r sch t \<longleftrightarrow> env_ok e \<and> encode_leaf_cell tid (Some v) r sch = Some c \<and> cell_in_env e c \<and> ckey c = (tid, v) \<and>
     (tid, v) \<notin> ckey ` set (tree_cells t)"

interpretation insertion: tree_change e c tid v txn "\<lambda>i. insert_into_leaf i tid (Some v) r sch txn"
  "\<lambda>n. insert_recursive n tid (Some v) r sch txn" V "\<lambda>_. insert_fit e c tid v r sch" for e c tid v r sch txn V
proof (unfold_locales, goal_cases)
  case (1 n i)
  then show ?case by simp
next
  case (2 lo t)
  then show ?case by (auto simp: insert_fit_def cell_in_env_def key_in_env_def)
next
  case (3 as ka lo i kb u bs)
  then show ?case by (auto simp: insert_fit_def tree_cells_Node)
next
  case (4 lo i cs nx s x p hi)
  then show ?case by (intro insert_into_leaf_ok) (auto simp: insert_fit_def)
qed

section \<open>A new root\<close>

lemma create_new_root_ok:
  assumes ok: "db_ok {} s" and room: "room 1 (obs s)" "o_next (obs s) < no_page_id"
    and e: "env_ok e" "key_in_env e k"
  obtains s' q where "create_new_root a (fst k) (Some (snd k)) b txn s = (Ok (), s')" "db_ok {} s'"
    "node_page q (o_next (obs s)) [k] [a, b]"
    "obs s' = (obs s)\<lparr>o_next := o_next (obs s) + 1, o_root := o_next (obs s), o_view := (o_view (obs s))(o_next (obs s) \<mapsto> q),
       o_owner := (o_owner (obs s))(o_next (obs s) \<mapsto> txn), o_txns := insert txn (o_txns (obs s))\<rparr>"
proof -
  let ?x = "obs s" and ?n = "o_next (obs s)"
  let ?new = "new_page type_internal ?n"
  obtain s1 s2 where s1: "on_disk (allocate_page type_internal) s = (Ok ?new, s1)"
    and s2: "fetch_page ?n s1 = (Ok ?new, s2)" "db_ok {} s2"
    "obs s2 = ?x\<lparr>o_next := ?n + 1, o_view := (o_view ?x)(?n \<mapsto> ?new), o_pins := (o_pins ?x)(?n := o_pins ?x ?n + 1)\<rparr>"
    and pin2: "0 < o_pins (obs s2) ?n"
    by (rule new_page_rule [OF ok room])
  have "length (icell k 0) + length (icell k 0) + 8 \<le> 4072"
    using e(2) by (intro two_cells_fit [OF e(1)]) (simp_all add: key_in_env_def)
  then have fit: "int (length (icell k a)) + 4 \<le> free_space ?new"
    using length_icell_child [of k a 0] by simp
  obtain q1 where q1: "add_cell (icell k a) ?new = Some (True, q1)" "page_wf q1" "same_header ?new q1"
    "page_cells q1 = page_cells ?new @ [icell k a]" "free_space q1 = free_space ?new - int (length (icell k a)) - 4"
    by (rule add_cell_ok [OF page_wf_new_page icell_not_Nil fit])
  let ?q = "set_rightmost_child b q1"
  have q: "node_page ?q ?n [k] [a, b]"
    using q1(2-5) by (simp add: node_page_def same_header_def page_wf_length)
  note nq = node_pageD [OF q]
  obtain s3 where s3: "put_page ?n ?q s2 = (Ok (), s3)" "db_ok (insert ?n {}) s3"
    "obs s3 = (obs s2)\<lparr>o_view := (o_view (obs s2))(?n \<mapsto> ?q)\<rparr>"
    by (rule put_rule [OF s2(2) pin2 nq(8,2)])
  have v3: "0 < o_pins (obs s3) ?n" "o_view (obs s3) ?n = Some ?q" "is_page_op op_insert"
    using pin2 by (simp_all add: s3(3) is_page_op_def)
  obtain l s4 where s4: "finish_page ?n txn op_insert s3 = (Ok (), s4)" "db_ok (insert ?n {} - {?n}) s4"
    "obs s4 = (obs s3)\<lparr>o_view := (o_view (obs s3))(?n \<mapsto> set_lsn l ?q),
       o_pins := (o_pins (obs s3))(?n := o_pins (obs s3) ?n - 1), o_owner := (o_owner (obs s3))(?n \<mapsto> txn), o_txns := insert txn (o_txns (obs s3))\<rparr>"
    by (rule finish_rule [OF s3(2) v3])
  have ok4: "db_ok {} s4"
    using s4(2) by simp
  have g: "get_page ?n s4 = (Ok (set_lsn l ?q), s4)"
    by (rule get_owned_rule) (simp_all add: s4(3))
  obtain s5 where s5: "on_disk (set_root_page_id ?n) s4 = (Ok (), s5)" "db_ok {} s5" "obs s5 = (obs s4)\<lparr>o_root := ?n\<rparr>"
    by (rule set_root_rule [OF ok4])
  show thesis
  proof (rule that [of s5 "set_lsn l ?q"])
    show "create_new_root a (fst k) (Some (snd k)) b txn s = (Ok (), s5)"
      using s1 s2(1) q1(1) s3(1) s4(1) g s5(1) nq(2,8) by (simp add: create_new_root_def Let_def bindG_Ok flip: icell_def)
  qed (use s5(2) q in \<open>simp_all add: s5(3) s4(3) s3(3) s2(3)\<close>)
qed

text \<open>What an operation leaves of the pages and owners outside the tree, and how many pages it takes at most.\<close>

definition kept :: "nat \<Rightarrow> u64 \<Rightarrow> tree \<Rightarrow> observed \<Rightarrow> observed \<Rightarrow> bool" where
  "kept m txn t x y \<longleftrightarrow> o_max y = o_max x \<and> o_file y = o_file x \<and> o_ended y = o_ended x \<and> o_txns y \<subseteq> insert txn (o_txns x) \<and> o_pins y = o_pins x \<and> o_next x \<le> o_next y \<and>
     unat (o_next y) \<le> unat (o_next x) + Suc m \<and> card (o_busy y) \<le> card (o_busy x) + 2 * m + 1 \<and>
     (\<forall>i < o_next x. i \<notin> set (page_ids t) \<longrightarrow> o_view y i = o_view x i) \<and>
     (\<forall>i. o_owner y i = o_owner x i \<or> o_owner y i = Some txn \<and> (i \<in> set (page_ids t) \<or> o_next x \<le> i))"

lemma touched_kept: "touched m txn (set (page_ids t)) x y \<Longrightarrow> card (o_busy y) \<le> card (o_busy x) + 2 * m \<Longrightarrow> kept m txn t x y"
  by (auto simp: touched_def kept_def)

definition tree_ready :: "env \<Rightarrow> nat \<Rightarrow> tree \<Rightarrow> storage \<Rightarrow> bool" where
  "tree_ready e h t s \<longleftrightarrow> db_ok {} s \<and> btree_ok e h t (obs s) \<and> fresh_empty (o_view (obs s)) t \<and>
     room (2 * h + 3) (obs s) \<and> unat (o_next (obs s)) + Suc h < unat no_page_id"

lemma grow_root:
  assumes ok0: "db_ok {} s" and b: "btree_ok e h t (obs s)" and f: "fresh_empty (o_view (obs s)) t" "room (2 * h + 3) (obs s)" "unat (o_next (obs s)) + Suc h < unat no_page_id"
    and ins: "inserted e h None None c txn t (obs s) (Ok (ut, uk, nc), s1)"
  obtains t' h' s' where "(if nc \<noteq> 0 then create_new_root (root_of t) ut uk nc txn else ret ()) s1 = (Ok (), s')" "db_ok {} s'"
    "btree_ok e h' t' (obs s')" "fresh_empty (o_view (obs s')) t'" "tree_cells t' = put_cell c (tree_cells t)"
    "h' \<le> Suc h" "kept (Suc h) txn t (obs s) (obs s')"
proof -
  let ?x = "obs s"
  note b = btree_okD [OF b]
  obtain ks ts where ok: "db_ok {} s1" and tch: "touched (Suc h) txn (set (page_ids t)) ?x (obs s1)"
    and busy: "card (o_busy (obs s1)) \<le> card (o_busy ?x) + 2 * Suc h"
    and r: "(ut, uk, nc) = split_of ks ts" "length ks \<le> 1" "root_of (hd ts) = root_of t" "ks \<noteq> [] \<longrightarrow> o_next ?x \<le> root_of (ts ! 1)"
    and gr: "grown e h None None c [t] (o_next ?x) (o_view (obs s1)) ks ts"
    using ins unfolding inserted_def by auto
  note g = gr [unfolded grown_def]
  have len: "length ts = Suc (length ks)"
    using g kids_in_length by blast
  have root: "o_root (obs s1) = o_root ?x" "o_next (obs s1) \<ge> o_next ?x" "o_max (obs s1) = o_max ?x"
    "unat (o_next (obs s1)) \<le> unat (o_next ?x) + Suc h"
    using tch by (simp_all add: touched_def)
  show thesis
  proof (cases ks)
    case Nil
    then obtain u where u: "ts = [u]" "root_of u = root_of t"
      using len r(3) by (cases ts) auto
    have nc: "nc = 0"
      using r(1) by (simp add: Nil u)
    have "btree_ok e h u (obs s1)" "fresh_empty (o_view (obs s1)) u" "tree_cells u = put_cell c (tree_cells t)"
      using g b root u by (simp_all add: btree_ok_def stands_def Nil)
    then show thesis
      using ok touched_kept [OF tch busy] by (intro that [of s1 h u]) (simp_all add: nc)
  next
    case (Cons k ks')
    then have k: "ks = [k]"
      using r(2) by simp
    then obtain u1 u2 where u: "ts = [u1, u2]" "root_of u1 = root_of t" "o_next ?x \<le> root_of u2"
      using len r(3,4) by (cases ts; cases "tl ts") auto
    have sp: "ut = fst k" "uk = Some (snd k)" "nc = root_of u2"
      using r(1) by (simp_all add: k u)
    have st: "stands (o_view (obs s1)) h u1" "stands (o_view (obs s1)) h u2"
      using g by (simp_all add: u)
    have "stands (o_view ?x) h t"
      using b f(1) by (simp add: stands_def)
    from stands_pages [OF this ok0 root_in_pages] have nz: "root_of u2 \<noteq> 0"
      using u(3) by (auto simp: word_le_nat_alt word_less_nat_alt)
    have "room 1 (obs s1)"
      using f(2) busy root(3) by (simp add: room_def)
    moreover have "o_next (obs s1) < no_page_id"
      using root(4) f(3) by (simp add: word_less_nat_alt)
    ultimately have rn: "room 1 (obs s1)" "o_next (obs s1) < no_page_id" .
    have kk: "key_in_env e k"
      using g by (simp add: k)
    let ?n = "o_next (obs s1)" and ?t = "Node (o_next (obs s1)) [k] [u1, u2]"
    obtain s2 q where s2: "create_new_root (root_of t) (fst k) (Some (snd k)) (root_of u2) txn s1 = (Ok (), s2)" "db_ok {} s2"
      "node_page q ?n [k] [root_of t, root_of u2]"
      "obs s2 = (obs s1)\<lparr>o_next := ?n + 1, o_root := ?n, o_view := (o_view (obs s1))(?n \<mapsto> q), o_owner := (o_owner (obs s1))(?n \<mapsto> txn), o_txns := insert txn (o_txns (obs s1))\<rparr>"
      by (rule create_new_root_ok [OF ok rn b(1) kk])
    have new: "?n \<notin> set (page_ids u1)" "?n \<notin> set (page_ids u2)"
      using stands_pages [OF st(1) ok] stands_pages [OF st(2) ok] by blast+
    have move: "stands (o_view (obs s2)) h w" if w: "stands (o_view (obs s1)) h w" for w
    proof -
      have "o_view (obs s1) i = o_view (obs s2) i" if "i \<in> set (page_ids w)" for i
        using stands_pages [OF w ok that] by (auto simp: s2(4))
      then show ?thesis
        using w stands_cong by blast
    qed
    note st2 = move [OF st(1)] move [OF st(2)]
    have stand: "stands (o_view (obs s2)) (Suc h) ?t"
      using s2(3) st2 u(2) by (simp add: stands_Node s2(4))
    have ti: "tree_in e None None ?t"
      using g kk by (simp add: k u)
    have "btree_ok e (Suc h) ?t (obs s2)"
      using stand ti b(1,7) g new by (simp add: btree_ok_def stands_def k u s2(4))
    moreover have "fresh_empty (o_view (obs s2)) ?t"
      using stand by (simp add: stands_def)
    moreover have "tree_cells ?t = put_cell c (tree_cells t)"
      using g by (simp add: tree_cells_Node u)
    moreover have "kept (Suc h) txn t ?x (obs s2)"
    proof -
      have n: "?n < ?n + 1" "unat (?n + 1) = unat ?n + 1"
        using next_page [OF rn(2)] by simp_all
      have "o_busy (obs s2) \<subseteq> insert ?n (o_busy (obs s1))"
        by (auto simp: s2(4) o_busy_def split: if_splits)
      then have "card (o_busy (obs s2)) \<le> Suc (card (o_busy (obs s1)))"
        by (intro order.trans [OF card_mono card_insert_le']) simp_all
      with busy have "card (o_busy (obs s2)) \<le> card (o_busy ?x) + 2 * Suc h + 1"
        by simp
      then show ?thesis
        using touched_kept [OF tch busy] root(2,4) n unfolding kept_def s2(4) by auto
    qed
    ultimately show thesis
      using s2(1,2) nz by (intro that [of s2 "Suc h" ?t]) (simp_all add: sp)
  qed
qed

text \<open>Inserting a row with a new key.\<close>

lemma insert_row_ok:
  assumes t: "tree_ready e h t s" and f: "h < fuel"
    and c: "encode_leaf_cell tid (Some v) r sch = Some c" "cell_in_env e c" "ckey c = (tid, v)" "(tid, v) \<notin> ckey ` set (tree_cells t)"
  obtains t' h' s' where "insert_row fuel tid (Some v) r sch txn s = (Ok (), s')" "db_ok {} s'"
    "btree_ok e h' t' (obs s')" "fresh_empty (o_view (obs s')) t'" "tree_cells t' = put_cell c (tree_cells t)"
    "h' \<le> Suc h" "kept (Suc h) txn t (obs s) (obs s')"
proof -
  note t = t [unfolded tree_ready_def]
  have bt: "btree_ok e h t (obs s)"
    using t by blast
  note b = btree_okD [OF bt]
  have room: "room (2 * h + 2) (obs s)"
    using t room_less by force
  have "inserted e h None None c txn t (obs s) (insert_recursive fuel tid (Some v) r sch txn (root_of t) s)"
    using t b room c f by (intro insertion.descend_ok) (simp_all add: stands_def insert_fit_def)
  moreover obtain ut uk nc s1 where r: "insert_recursive fuel tid (Some v) r sch txn (root_of t) s = (Ok (ut, uk, nc), s1)"
    using inserted_Ok [OF calculation] by auto
  ultimately have ins: "inserted e h None None c txn t (obs s) (Ok (ut, uk, nc), s1)"
    by simp
  obtain t' h' s' where g: "(if nc \<noteq> 0 then create_new_root (root_of t) ut uk nc txn else ret ()) s1 = (Ok (), s')" "db_ok {} s'"
    "btree_ok e h' t' (obs s')" "fresh_empty (o_view (obs s')) t'" "tree_cells t' = put_cell c (tree_cells t)"
    "h' \<le> Suc h" "kept (Suc h) txn t (obs s) (obs s')"
    by (rule grow_root [OF _ bt _ _ _ ins]) (use t in blast)+
  show thesis
  proof (rule that [OF _ g(2-7)])
    show "insert_row fuel tid (Some v) r sch txn s = (Ok (), s')"
      using r g(1) b(3) by (auto simp: insert_row_def bindG_def split: if_splits)
  qed
qed

section \<open>Deleting a row\<close>

text \<open>The tree with other cells on leaf \<open>i\<close>.\<close>

fun set_leaf :: "u32 \<Rightarrow> byte list list \<Rightarrow> tree \<Rightarrow> tree" where
  "set_leaf i ds (Leaf j cs nx) = Leaf j (if i = j then ds else cs) nx"
| "set_leaf i ds (Node j ks ts) = Node j ks (map (set_leaf i ds) ts)"

lemma set_leaf_shape [simp]:
  "root_of (set_leaf i ds t) = root_of t" "page_ids (set_leaf i ds t) = page_ids t" "balanced h (set_leaf i ds t) = balanced h t"
proof -
  show "root_of (set_leaf i ds t) = root_of t"
    by (cases t) simp_all
  show "page_ids (set_leaf i ds t) = page_ids t"
    by (induction i ds t rule: set_leaf.induct) (simp_all add: comp_def cong: map_cong)
  show "balanced h (set_leaf i ds t) = balanced h t"
    by (induction h t rule: balanced.induct) auto
qed

lemma leaves_set_leaf: "leaves (set_leaf i ds t) = map (\<lambda>(j, cs, nx). (j, if i = j then ds else cs, nx)) (leaves t)"
  by (induction i ds t rule: set_leaf.induct) (simp_all add: comp_def map_concat cong: map_cong)

lemma chained_map: "chained (map (\<lambda>(j, cs, nx). (j, f j cs nx, nx)) ls) end = chained ls end"
  by (induction ls "end" rule: chained.induct) (auto split: list.split)

lemma leaf_ids: "set (map fst (leaves t)) \<subseteq> set (page_ids t)"
proof
  fix i assume "i \<in> set (map fst (leaves t))"
  then obtain cs nx where "(i, cs, nx) \<in> set (leaves t)" by auto
  then show "i \<in> set (page_ids t)" by (rule leaf_pages)
qed

lemma leaf_ids_distinct: "distinct (page_ids t) \<Longrightarrow> distinct (map fst (leaves t))"
proof (induction t rule: leaves.induct)
  case (2 i ks ts)
  have "distinct (concat (map page_ids ts))" "\<forall>t \<in> set ts. distinct (map fst (leaves t))"
    using 2 by (auto simp: distinct_concat_iff)
  then have "distinct (concat (map (\<lambda>t. map fst (leaves t)) ts))"
  proof (induction ts)
    case (Cons t ts)
    have "set (concat (map (\<lambda>t. map fst (leaves t)) ts)) \<subseteq> set (concat (map page_ids ts))"
      using leaf_ids by fastforce
    then have "set (map fst (leaves t)) \<inter> set (concat (map (\<lambda>t. map fst (leaves t)) ts)) = {}"
      using Cons.prems(1) leaf_ids [of t] by (simp del: set_map set_concat) blast
    then show ?case
      using Cons by (simp del: set_map set_concat)
  qed simp
  then show ?case
    by (simp add: map_concat comp_def)
qed simp

lemma leaf_unique:
  assumes "distinct (page_ids t)" "(i, cs, nx) \<in> set (leaves t)" "(i, cs', nx') \<in> set (leaves t)"
  shows "cs' = cs \<and> nx' = nx"
  using eq_key_imp_eq_value [OF leaf_ids_distinct [OF assms(1)] assms(2,3)] by simp

lemma tree_cells_set_leaf:
  assumes "distinct (page_ids t)" "leaves t = ls1 @ (i, cs, nx) # ls2"
  shows "tree_cells (set_leaf i ds t) = leaves_cells ls1 @ ds @ leaves_cells ls2"
proof -
  have "distinct (map fst (leaves t))"
    by (rule leaf_ids_distinct [OF assms(1)])
  then have "i \<notin> fst ` set ls1" "i \<notin> fst ` set ls2"
    by (auto simp: assms(2))
  then have "map (\<lambda>(j, cs, nx). (j, if i = j then ds else cs, nx)) ls1 = ls1" "map (\<lambda>(j, cs, nx). (j, if i = j then ds else cs, nx)) ls2 = ls2"
    by (force intro!: map_idI)+
  then show ?thesis
    by (simp add: tree_cells_def leaves_set_leaf assms(2))
qed

lemma holds_set_leaf:
  assumes "holds_tree V t" "\<And>cs' nx'. (i, cs', nx') \<in> set (leaves t) \<Longrightarrow> nx' = nx" "V i = Some p" "page_type p = type_leaf" "leaf_page q i ds nx"
  shows "holds_tree (V(i \<mapsto> q)) (set_leaf i ds t)"
  using assms(1,2)
proof (induction t rule: leaves.induct)
  case (1 j cs' nx')
  then show ?case
    using assms(5) by auto
next
  case (2 j ks ts)
  have "j \<noteq> i"
    using "2.prems"(1) assms(3,4) by (auto simp: node_page_def page_types_differ [symmetric])
  moreover have "holds_tree (V(i \<mapsto> q)) (set_leaf i ds t)" if "t \<in> set ts" for t
    using "2.IH" [OF that] "2.prems" that by fastforce
  ultimately show ?case
    using "2.prems"(1) by (simp add: comp_def fun_upd_other del: fun_upd_apply)
qed

lemma kids_in_map:
  "kids_in P lo hi ks ts \<Longrightarrow> (\<And>l h t. t \<in> set ts \<Longrightarrow> P l h t \<Longrightarrow> P l h (f t)) \<Longrightarrow> kids_in P lo hi ks (map f ts)"
  by (induction P lo hi ks ts rule: kids_in.induct) auto

lemma tree_in_set_leaf:
  assumes "tree_in e lo hi t" "\<And>cs nx. (i, cs, nx) \<in> set (leaves t) \<Longrightarrow> cs = us @ c # vs"
  shows "tree_in e lo hi (set_leaf i (us @ vs) t)"
  using assms
proof (induction e lo hi t rule: tree_in.induct)
  case (1 e lo hi j cs nx)
  then show ?case
    by (auto simp: leaf_in_def sorted_wrt_append)
next
  case (2 e lo hi j ks ts)
  have "tree_in e l h (set_leaf i (us @ vs) t)" if "t \<in> set ts" "tree_in e l h t" for l h t
    using "2.IH" [OF that] "2.prems"(2) that(1) by fastforce
  then show ?case
    using "2.prems"(1) kids_in_map [of "tree_in e" lo hi ks ts "set_leaf i (us @ vs)"] by simp
qed

text \<open>Deleting the row of a key: its cell goes, and nothing else of the tables changes.\<close>

lemma delete_row_ok:
  assumes t: "btree_ok e h t (obs s)" and s: "reader_ready s" and f: "h < fuel"
    and K: "ckey_ok (key_kinds e) (tid, v)" and found: "(tid, v) \<in> ckey ` set (tree_cells t)"
  obtains t' s' where "delete_row fuel tid (Some v) txn s = (Ok (), s')" "db_ok {} s'" "btree_ok e h t' (obs s')"
    "tree_cells t' = filter (\<lambda>c. ckey c \<noteq> (tid, v)) (tree_cells t)" "kept 0 txn t (obs s) (obs s')" "o_root (obs s') = o_root (obs s)"
proof -
  let ?K = "(tid, v)" and ?x = "obs s"
  obtain i cs nx ls1 ls2 s1 p where r: "find_leaf fuel tid (Some v) s = (Ok i, s1)" "obs s1 = ?x" "reader_ready s1"
    "leaves t = ls1 @ (i, cs, nx) # ls2"
    "\<forall>c \<in> set (leaves_cells ls1). ckey c < ?K" "\<forall>c \<in> set (leaves_cells ls2). ?K < ckey c"
    "o_view ?x i = Some p" "leaf_page p i cs nx" "sorted_wrt (<) (map ckey cs)"
    "\<forall>c \<in> set cs. cell_ok (key_kinds e) c"
    by (rule find_leaf_ok [OF t s K f])
  note b = btree_okD [OF t] and lp = leaf_page_cells [OF r(8)] and tc = tree_cells_split [OF r(4)]
  have mem: "?K \<in> ckey ` set cs"
    using found r(5,6) by (auto simp: tc)
  then obtain c where c: "c \<in> set cs" "ckey c = ?K"
    by (metis imageE)
  then obtain us vs where uv: "cs = us @ c # vs"
    by (meson split_list)
  let ?ds = "us @ vs"
  have "pos_of cs ?K = length (us @ [c])"
    using r(9) c(2) by (intro pos_of_split [of _ _ vs]) (auto simp: uv sorted_wrt_append order.order_iff_strict)
  then have idx: "pos_of cs ?K = Suc (length us)" by simp
  have sl: "search_in_leaf p tid (Some v) = Some (length us, True)"
    using search_in_leaf_ok [OF lp(1) K] r(9,10) mem by (simp add: lp(2) idx)
  have li: "length us < length (page_cells p)"
    by (simp add: lp(2) uv)
  obtain q where q: "delete_cell (int (length us)) p = Some q" "page_wf q" "same_header p q"
    "page_cells q = take (length us) (page_cells p) @ drop (Suc (length us)) (page_cells p)" "free_space q = free_space p + 4"
    by (rule delete_cell_ok [OF lp(1) li])
  have qp: "leaf_page q i ?ds nx"
    using q(4) by (intro same_header_leaf_page [OF r(8) q(3,2)]) (simp add: lp(2) uv)
  have ok: "db_ok {} s1" and room: "room (Suc 0) (obs s1)"
    using r(3) by (simp_all add: reader_ready_def)
  have v1: "o_view (obs s1) i = Some p"
    using r(2,7) by simp
  obtain s2 where s2: "fetch_page i s1 = (Ok p, s2)" "db_ok {} s2" "obs s2 = pinned i (obs s1)" "0 \<le> o_pins (obs s1) i"
    by (rule fetch_pins [OF ok v1 room])
  have pin: "0 < o_pins (obs s2) i"
    using s2(4) by (simp add: s2(3))
  obtain s3 where s3: "put_page i q s2 = (Ok (), s3)" "db_ok (insert i {}) s3"
    "obs s3 = (obs s2)\<lparr>o_view := (o_view (obs s2))(i \<mapsto> q)\<rparr>"
    by (rule put_rule [OF s2(2) pin leaf_page_wf(2) [OF qp] leaf_page_cells(5) [OF qp]])
  have v3: "0 < o_pins (obs s3) i" "o_view (obs s3) i = Some q" "is_page_op op_delete"
    using pin by (simp_all add: s3(3) is_page_op_def)
  obtain l s4 where s4: "finish_page i txn op_delete s3 = (Ok (), s4)" "db_ok (insert i {} - {i}) s4"
    "obs s4 = (obs s3)\<lparr>o_view := (o_view (obs s3))(i \<mapsto> set_lsn l q),
       o_pins := (o_pins (obs s3))(i := o_pins (obs s3) i - 1), o_owner := (o_owner (obs s3))(i \<mapsto> txn), o_txns := insert txn (o_txns (obs s3))\<rparr>"
    by (rule finish_rule [OF s3(2) v3])
  have x4: "obs s4 = ?x\<lparr>o_view := (o_view ?x)(i \<mapsto> set_lsn l q), o_owner := (o_owner ?x)(i \<mapsto> txn), o_txns := insert txn (o_txns ?x)\<rparr>"
    by (simp add: s4(3) s3(3) s2(3) r(2))
  have il: "(i, cs, nx) \<in> set (leaves t)"
    by (simp add: r(4))
  note uniq = leaf_unique [OF b(6) il]
  let ?t = "set_leaf i ?ds t"
  have "btree_ok e h ?t (obs s4)"
    unfolding btree_ok_def
  proof (intro conjI)
    show "holds_tree (o_view (obs s4)) ?t"
      using holds_set_leaf [OF b(2) _ r(7) lp(3) leaf_page_set_lsn [OF qp]] uniq by (auto simp: x4)
    show "tree_in e None None ?t"
      using tree_in_set_leaf [OF b(5), of i us c vs] uniq by (auto simp: uv)
    show "chained (leaves ?t) no_page_id"
      using b(7) unfolding leaves_set_leaf by (simp add: chained_map)
  qed (use b in \<open>simp_all add: x4\<close>)
  moreover have "tree_cells ?t = filter (\<lambda>c. ckey c \<noteq> ?K) (tree_cells t)"
  proof -
    have keep: "filter (\<lambda>c. ckey c \<noteq> ?K) xs = xs" if "\<forall>d \<in> set xs. ckey d < ?K \<or> ?K < ckey d" for xs
      using that by (intro filter_True) (metis less_irrefl)
    have "\<forall>d \<in> set us. ckey d < ?K" "\<forall>d \<in> set vs. ?K < ckey d"
      using r(9) c(2) by (auto simp: uv sorted_wrt_append)
    then have "filter (\<lambda>c. ckey c \<noteq> ?K) us = us" "filter (\<lambda>c. ckey c \<noteq> ?K) vs = vs"
      "filter (\<lambda>c. ckey c \<noteq> ?K) (leaves_cells ls1) = leaves_cells ls1" "filter (\<lambda>c. ckey c \<noteq> ?K) (leaves_cells ls2) = leaves_cells ls2"
      using r(5,6) by (intro keep; blast)+
    then show ?thesis
      using c(2) by (simp add: tree_cells_set_leaf [OF b(6) r(4)] tc uv)
  qed
  moreover have "delete_row fuel tid (Some v) txn s = (Ok (), s4)"
    using r(1) s2(1) sl q(1) s3(1) s4(1) by (simp add: delete_row_def bindG_def)
  moreover have "kept 0 txn t ?x (obs s4)"
  proof -
    have "o_busy (obs s4) \<subseteq> insert i (o_busy ?x)"
      by (auto simp: x4 o_busy_def split: if_splits)
    then have "card (o_busy (obs s4)) \<le> Suc (card (o_busy ?x))"
      by (intro order.trans [OF card_mono card_insert_le']) simp_all
    then show ?thesis
      using leaf_pages [OF il] by (auto simp: kept_def x4)
  qed
  moreover have "db_ok {} s4" "o_root (obs s4) = o_root ?x"
    using s4(2) by (simp, simp add: x4 del: obs_fields)
  ultimately show thesis
    by (intro that [of s4 ?t])
qed

section \<open>Updating a row\<close>

text \<open>The old cell is deleted first and its bytes are not reused, so a leaf whose only cell is updated is empty and may be
  full: then it is split into an empty page and a page with the new cell, and the key of the cell goes up as a separator. That
  is one separator too many when the key is one already. \<open>update_room V n K t\<close> excludes this: when the key \<open>K\<close> is a separator,
  its leaf has another cell, or \<open>n\<close> free bytes for the new one on the page that \<open>V\<close> has for it.\<close>

fun separators :: "tree \<Rightarrow> ckey list" where
  "separators (Leaf i cs nx) = []"
| "separators (Node i ks ts) = ks @ concat (map separators ts)"

definition leaf_room :: "(u32 \<Rightarrow> page option) \<Rightarrow> nat \<Rightarrow> ckey \<Rightarrow> tree \<Rightarrow> bool" where
  "leaf_room V n K t \<longleftrightarrow> (\<forall>(i, cs, nx) \<in> set (leaves t). K \<in> ckey ` set cs \<longrightarrow>
     2 \<le> length cs \<or> (case V i of Some p \<Rightarrow> int n \<le> free_space p | None \<Rightarrow> False))"

definition update_room :: "(u32 \<Rightarrow> page option) \<Rightarrow> nat \<Rightarrow> ckey \<Rightarrow> tree \<Rightarrow> bool" where
  "update_room V n K t \<longleftrightarrow> K \<in> set (separators t) \<longrightarrow> leaf_room V n K t"

definition update_fit :: "(u32 \<Rightarrow> page option) \<Rightarrow> env \<Rightarrow> byte list \<Rightarrow> u32 \<Rightarrow> value_t \<Rightarrow> row \<Rightarrow> schema \<Rightarrow> bound \<Rightarrow> tree \<Rightarrow> bool" where
  "update_fit V e c tid v r sch lo t \<longleftrightarrow> env_ok e \<and> encode_leaf_cell tid (Some v) r sch = Some c \<and> cell_in_env e c \<and> ckey c = (tid, v) \<and>
     (tid, v) \<in> ckey ` set (tree_cells t) \<and> (lo = Some (tid, v) \<or> (tid, v) \<in> set (separators t) \<longrightarrow> leaf_room V (length c) (tid, v) t)"

lemma update_fit_key:
  assumes "update_fit V e c tid v r sch lo t"
  shows "env_ok e" "ckey_ok (key_kinds e) (tid, v)" "ckey c = (tid, v)"
proof -
  have "env_ok e" "ckey_ok (key_kinds e) (ckey c)" "ckey c = (tid, v)"
    using assms unfolding update_fit_def cell_in_env_def key_in_env_def by blast+
  then show "env_ok e" "ckey_ok (key_kinds e) (tid, v)" "ckey c = (tid, v)"
    by metis+
qed

lemma update_leaf_ok:
  assumes ok: "db_ok {} s" and x: "obs s = pinned i x" and pins: "0 \<le> o_pins x i" and fin: "finite (o_busy x)"
    and p: "o_view x i = Some p" "leaf_page p i cs nx"
    and room: "room 1 (obs s)" "o_next x < no_page_id" and e: "leaf_in e lo hi cs"
    and f: "update_fit (o_view x) e c tid v r sch lo (Leaf i cs nx)" and b: "above lo (tid, v)" "below hi (tid, v)"
  shows "inserted e 0 lo hi c txn (Leaf i cs nx) x (update_leaf i tid (Some v) r sch txn s)"
proof -
  let ?K = "(tid, v)"
  note f = f [unfolded update_fit_def] and lp = leaf_page_cells [OF p(2)] and sorted = leaf_in_sorted [OF e]
  have key: "ckey_ok (key_kinds e) ?K" and mem: "?K \<in> ckey ` set cs"
    using update_fit_key [OF assms(10)] f by simp_all
  then obtain d where d: "d \<in> set cs" "ckey d = ?K"
    by (metis imageE)
  then obtain us vs where uv: "cs = us @ d # vs"
    by (meson split_list)
  have away: "\<forall>a \<in> set us. ckey a < ?K" "\<forall>a \<in> set vs. ?K < ckey a"
    using sorted d(2) by (auto simp: uv sorted_wrt_append)
  let ?ds = "us @ vs"
  have absent: "ckey c \<notin> ckey ` set ?ds"
    using away f by (auto dest: less_imp_neq)
  have "pos_of cs ?K = length (us @ [d])"
    using sorted d(2) by (intro pos_of_split [of _ _ vs]) (auto simp: uv sorted_wrt_append order.order_iff_strict)
  then have idx: "pos_of cs ?K = Suc (length us)" by simp
  have sl: "search_in_leaf p tid (Some v) = Some (length us, True)"
    using search_in_leaf_ok [OF lp(1) key] leaf_in_ok [OF e] sorted mem by (simp add: lp(2) idx)
  have li: "length us < length (page_cells p)"
    by (simp add: lp(2) uv)
  obtain q where q: "delete_cell (int (length us)) p = Some q" "page_wf q" "same_header p q"
    "page_cells q = take (length us) (page_cells p) @ drop (Suc (length us)) (page_cells p)" "free_space q = free_space p + 4"
    by (rule delete_cell_ok [OF lp(1) li])
  have qp: "leaf_page q i ?ds nx"
    using q(4) by (intro same_header_leaf_page [OF p(2) q(3,2)]) (simp add: lp(2) uv)
  have pin: "0 < o_pins (obs s) i"
    using pins by (simp add: x)
  obtain s1 where s1: "put_page i q s = (Ok (), s1)" "db_ok (insert i {}) s1"
    "obs s1 = (obs s)\<lparr>o_view := (o_view (obs s))(i \<mapsto> q)\<rparr>"
    by (rule put_rule [OF ok pin leaf_page_wf(2) [OF qp] leaf_page_cells(5) [OF qp]])
  let ?y = "x\<lparr>o_view := (o_view x)(i \<mapsto> q)\<rparr>"
  have x1: "obs s1 = pinned i ?y"
    by (simp add: s1(3) x pinned_def)
  have "get_page i s = (Ok p, s)"
    using pins p(1) by (intro get_rule) (simp_all add: x)
  then have "update_leaf i tid (Some v) r sch txn s = place_cell i q c op_update tid (Some v) r sch txn s1"
    using f sl q(1) s1(1) by (simp add: update_leaf_def place_cell_def bindG_Ok)
  moreover have "inserted e 0 lo hi c txn (Leaf i cs nx) x (place_cell i q c op_update tid (Some v) r sch txn s1)"
  proof (rule place_cell_ok [OF s1(2) _ x1 _ _ _ _ _ qp])
    show "touched 0 txn {i} x ?y"
      by (auto simp: touched_def)
    show "card (insert i (o_busy ?y)) \<le> card (o_busy x) + 1"
      using card_insert_le' [of i "o_busy x"] by (simp add: o_busy_def)
    show "?ds \<noteq> [] \<or> over lo (ckey c) \<or> int (length c) + 4 \<le> free_space q"
    proof (cases "lo = Some ?K")
      case True
      then have "leaf_room (o_view x) (length c) ?K (Leaf i cs nx)"
        using f by simp
      then show ?thesis
        using mem q(5) p(1) by (cases us) (auto simp: leaf_room_def uv)
    next
      case False
      then show ?thesis
        using b(1) update_fit_key(3) [OF assms(10)] by (cases lo) (auto simp: order.order_iff_strict)
    qed
    show "leaf_in e lo hi ?ds"
      using e by (auto simp: leaf_in_def uv sorted_wrt_append)
    show "put_cell c cs = insert_cell c ?ds"
      using away d(2) update_fit_key(3) [OF assms(10)] absent
        put_cell_old [of us c vs d] put_cell_between [of us c vs "[]"] put_cell_fresh [of c ?ds]
      by (simp add: uv put_cell_def)
    show "room 1 (obs s1)"
      using room(1) by (simp add: s1(3) room_def o_busy_def)
    show "ckey c \<notin> ckey ` set ?ds"
      by (rule absent)
  qed (use fin pins room(2) f b in \<open>simp_all add: is_page_op_def o_busy_def\<close>)
  ultimately show ?thesis
    by simp
qed

text \<open>The excluded case: a row alone in a leaf that has too few free bytes for its new version. The leaf is split into an empty
  page and one with the row, and the key of the row goes up as a separator, even when it is the separator below the leaf already.\<close>

theorem update_alone_splits:
  assumes ok: "db_ok {} s" and x: "obs s = pinned i x" and pins: "0 \<le> o_pins x i"
    and p: "o_view x i = Some p" "leaf_page p i [d] nx" "ckey d = (tid, v)" "free_space p < int (length c)"
    and room: "room 1 (obs s)" "o_next x < no_page_id" and e: "env_ok e" "leaf_in e lo hi [d]"
    and c: "encode_leaf_cell tid (Some v) r sch = Some c" "cell_in_env e c" "ckey c = (tid, v)"
  shows "\<exists>s' p1 q1. update_leaf i tid (Some v) r sch txn s = (Ok (tid, Some v, o_next x), s') \<and>
    o_view (obs s') i = Some p1 \<and> leaf_page p1 i [] (o_next x) \<and> o_view (obs s') (o_next x) = Some q1 \<and> leaf_page q1 (o_next x) [c] nx"
proof -
  let ?K = "(tid, v)"
  note lp = leaf_page_cells [OF p(2)]
  have key: "ckey_ok (key_kinds e) ?K"
    using c(2,3) by (simp add: cell_in_env_def key_in_env_def)
  have "pos_of [d] ?K = length [d]"
    using p(3) by (intro pos_of_split [of _ _ "[]"]) simp_all
  then have sl: "search_in_leaf p tid (Some v) = Some (0, True)"
    using search_in_leaf_ok [OF lp(1) key] leaf_in_ok [OF e(2)] p(3) by (simp add: lp(2))
  obtain q where q: "delete_cell (int 0) p = Some q" "page_wf q" "same_header p q"
    "page_cells q = take 0 (page_cells p) @ drop (Suc 0) (page_cells p)" "free_space q = free_space p + 4"
    by (rule delete_cell_ok [OF lp(1), of 0]) (simp_all add: lp(2))
  have qp: "leaf_page q i [] nx"
    using q(4) by (intro same_header_leaf_page [OF p(2) q(3,2)]) (simp add: lp(2))
  note lq = leaf_page_cells [OF qp]
  have pin: "0 < o_pins (obs s) i"
    using pins by (simp add: x)
  obtain s1 where s1: "put_page i q s = (Ok (), s1)" "db_ok (insert i {}) s1"
    "obs s1 = (obs s)\<lparr>o_view := (o_view (obs s))(i \<mapsto> q)\<rparr>"
    by (rule put_rule [OF ok pin leaf_page_wf(2) [OF qp] lq(5)])
  have pin1: "0 < o_pins (obs s1) i"
    using pin by (simp add: s1(3))
  obtain s2 where s2: "put_page i q s1 = (Ok (), s2)" "db_ok (insert i (insert i {})) s2"
    "obs s2 = (obs s1)\<lparr>o_view := (o_view (obs s1))(i \<mapsto> q)\<rparr>"
    by (rule put_rule [OF s1(2) pin1 leaf_page_wf(2) [OF qp] lq(5)])
  have pos: "find_insert_pos q tid (Some v) = Some 0"
    using find_insert_pos_ok [OF lq(1) key] by (simp add: lq(2) pos_of_def)
  have full: "insert_cell_at (int 0) c q = Some (False, q)"
    using insert_cell_at_full [of 0 q c] p(4) q(5) by simp
  have v2: "o_view (obs s2) i = Some q" "0 < o_pins (obs s2) i" "room 1 (obs s2)" "o_next (obs s2) < no_page_id" "o_next (obs s2) = o_next x"
    using pin room by (simp_all add: s2(3) s1(3) x room_def o_busy_def)
  have "leaf_in e lo hi []" "ckey c \<notin> ckey ` set []"
    by (simp_all add: leaf_in_def)
  note le = this
  have M: "insert i (insert i {}) \<subseteq> {i}"
    by simp
  obtain s3 cs1 c2 cs2 p1 q1 where s3: "split_leaf i tid (Some v) r sch txn s2 = (Ok (fst (ckey c2), Some (snd (ckey c2)), o_next x), s3)"
    "cs1 @ c2 # cs2 = insert_cell c []" "leaf_page p1 i cs1 (o_next x)" "leaf_page q1 (o_next x) (c2 # cs2) nx"
    and x3: "obs s3 = (obs s2)\<lparr>o_next := o_next x + 1, o_view := (o_view (obs s2))(i \<mapsto> p1, o_next x \<mapsto> q1),
       o_pins := (o_pins (obs s2))(i := o_pins (obs s2) i - 1),
       o_owner := (o_owner (obs s2))(i \<mapsto> txn, o_next x \<mapsto> txn), o_txns := insert txn (o_txns (obs s2))\<rparr>"
    by (rule split_leaf_ok [OF s2(2) M v2(1) qp v2(2-4) e(1) le(1) c(1,2) le(2), of txn, unfolded v2(5)]) blast
  have v3: "o_view (obs s3) = (o_view (obs s2))(i \<mapsto> p1, o_next x \<mapsto> q1)"
    by (simp add: x3 del: obs_fields)
  have one: "cs1 = []" "c2 = c" "cs2 = []"
    using s3(2) by (simp_all add: insert_cell_def append_eq_Cons_conv)
  have "i \<noteq> o_next x"
    using o_view_id(3) [OF s2(2) v2(1)] unfolding v2(5) by blast
  moreover have "update_leaf i tid (Some v) r sch txn s = (Ok (tid, Some v, o_next x), s3)"
    using get_rule [of s i p] pins p(1) sl q(1) s1(1) s2(1) pos full c s3(1) one by (simp add: update_leaf_def bindG_Ok x)
  ultimately show ?thesis
    using s3(3,4) v3 one by (intro exI [of _ s3] exI [of _ p1] exI [of _ q1]) simp
qed

interpretation update: tree_change e c tid v txn "\<lambda>i. update_leaf i tid (Some v) r sch txn"
  "\<lambda>n. update_recursive n tid (Some v) r sch txn" V "update_fit V e c tid v r sch" for e c tid v r sch txn V
proof (unfold_locales, goal_cases)
  case (1 n i)
  then show ?case by simp
next
  case (2 lo t)
  then show ?case by (intro conjI update_fit_key)
next
  case (3 as ka lo i kb u bs)
  have "(tid, v) \<in> ckey ` set (concat (map tree_cells (as @ u # bs)))"
    using 3(2) by (simp add: update_fit_def tree_cells_Node)
  then have "(tid, v) \<in> ckey ` set (tree_cells u)"
    using 3(3) by force
  moreover have "leaf_room V (length c) (tid, v) u"
    if "lower lo ka = Some (tid, v) \<or> (tid, v) \<in> set (separators u)"
  proof -
    have "lo = Some (tid, v) \<or> (tid, v) \<in> set (separators (Node i (ka @ kb) (as @ u # bs)))"
      using that by (auto simp: lower_def split: if_splits) (metis last_in_set)
    then have "leaf_room V (length c) (tid, v) (Node i (ka @ kb) (as @ u # bs))"
      using 3(2) by (simp add: update_fit_def)
    then show ?thesis
      by (auto simp: leaf_room_def)
  qed
  ultimately show ?case
    using 3(2) by (simp add: update_fit_def)
next
  case (4 lo i cs nx x s p hi)
  then show ?case by (intro update_leaf_ok) auto
qed

lemma update_row_ok:
  assumes t: "tree_ready e h t s" and f: "h < fuel" and u: "update_fit (o_view (obs s)) e c tid v r sch None t"
  obtains t' h' s' where "update_row fuel tid (Some v) r sch txn s = (Ok (), s')" "db_ok {} s'"
    "btree_ok e h' t' (obs s')" "fresh_empty (o_view (obs s')) t'" "tree_cells t' = put_cell c (tree_cells t)"
    "h' \<le> Suc h" "kept (Suc h) txn t (obs s) (obs s')"
proof -
  note t = t [unfolded tree_ready_def]
  have bt: "btree_ok e h t (obs s)"
    using t by blast
  note b = btree_okD [OF bt]
  have room: "room (2 * h + 2) (obs s)"
    using t room_less by force
  have "inserted e h None None c txn t (obs s) (update_recursive fuel tid (Some v) r sch txn (root_of t) s)"
    using t b room u f by (intro update.descend_ok) (simp_all add: stands_def)
  moreover obtain ut uk nc s1 where r: "update_recursive fuel tid (Some v) r sch txn (root_of t) s = (Ok (ut, uk, nc), s1)"
    using inserted_Ok [OF calculation] by auto
  ultimately have ins: "inserted e h None None c txn t (obs s) (Ok (ut, uk, nc), s1)"
    by simp
  obtain t' h' s' where g: "(if nc \<noteq> 0 then create_new_root (root_of t) ut uk nc txn else ret ()) s1 = (Ok (), s')" "db_ok {} s'"
    "btree_ok e h' t' (obs s')" "fresh_empty (o_view (obs s')) t'" "tree_cells t' = put_cell c (tree_cells t)"
    "h' \<le> Suc h" "kept (Suc h) txn t (obs s) (obs s')"
    by (rule grow_root [OF _ bt _ _ _ ins]) (use t in blast)+
  show thesis
  proof (rule that [OF _ g(2-7)])
    show "update_row fuel tid (Some v) r sch txn s = (Ok (), s')"
      using r g(1) b(3) by (auto simp: update_row_def bindG_def split: if_splits)
  qed
qed

end
