(* ===== verification/Durable.thy ===== *)
theory Durable
  imports Txn Tree_Change
begin

text \<open>
  Commit and restart: after the commit of the only writing transaction every page is safe in the sense of
  \<open>Page_Store\<close>, and opening the files again, with the recovery of \<open>storage/btree/recovery.go\<close>, gives back the pages
  up to their LSN fields. (A page is logged before its LSN is set, so recovery brings back the previous LSN.)
\<close>

section \<open>The LSN of a page\<close>

lemma bit_fold_bytes:
  "bit (fold (\<lambda>b acc. push_bit 8 acc OR ucast b) (bs :: byte list) (a :: 'a::len word)) m \<longleftrightarrow>
     m < LENGTH('a) \<and> (if m < 8 * length bs then bit (bs ! (length bs - 1 - m div 8)) (m mod 8) else bit a (m - 8 * length bs))"
proof (induction bs arbitrary: a)
  case Nil
  then show ?case
    by (auto dest: bit_imp_le_length)
next
  case (Cons b bs)
  have "m div 8 = length bs \<and> m mod 8 = m - 8 * length bs" if "8 * length bs \<le> m" "m < 8 * Suc (length bs)"
    using that by (auto simp: div_nat_eqI mod_nat_eqI)
  moreover have "m div 8 < length bs" if "m < 8 * length bs"
    using that by (simp add: less_mult_imp_div_less mult.commute)
  moreover have "\<not> bit b (m - 8 * length bs)" if "8 * Suc (length bs) \<le> m"
    using bit_imp_le_length [of b "m - 8 * length bs"] that by auto
  ultimately show ?case
    by (auto simp: Cons bit_simps not_less nth_Cons' algebra_simps Suc_diff_Suc dest: bit_imp_le_length)
qed

lemma be_put_get:
  assumes "LENGTH('a) = 8 * length bs"
  shows "be_put (length bs) (be_get bs :: 'a::len word) = bs"
proof (rule nth_equalityI)
  fix j assume "j < length (be_put (length bs) (be_get bs :: 'a word))"
  then have j: "j < length bs" by simp
  have "be_put (length bs) (be_get bs :: 'a word) ! j = ucast (drop_bit (8 * (length bs - 1 - j)) (be_get bs :: 'a word))"
    using j by (simp add: be_put_def rev_nth)
  also have "\<dots> = bs ! j"
  proof (rule bit_word_eqI)
    fix k assume k: "k < LENGTH(8)"
    have "8 * (length bs - Suc j) + k < 8 * length bs"
      using j k by simp
    then show "bit (ucast (drop_bit (8 * (length bs - 1 - j)) (be_get bs :: 'a word)) :: byte) k \<longleftrightarrow> bit (bs ! j) k"
      using j k assms by (simp add: bit_simps be_get_def bit_fold_bytes)
  qed
  finally show "be_put (length bs) (be_get bs :: 'a word) ! j = bs ! j" .
qed simp

text \<open>The LSN of a page can be put back.\<close>

lemma upd_sub [simp]: "off + n \<le> length xs \<Longrightarrow> upd off (sub off n xs) xs = xs"
  by (simp add: upd_def sub_def) (metis add.commute append_take_drop_id drop_drop)

lemma upd_upd [simp]: "length bs = length cs \<Longrightarrow> off + length bs \<le> length xs \<Longrightarrow> upd off cs (upd off bs xs) = upd off cs xs"
  by (simp add: upd_def)

lemma set_lsn_own:
  assumes "length p = 4096"
  shows "set_lsn (lsn p) p = p" "set_lsn (lsn p) (set_lsn l p) = p"
proof -
  have "be_put 8 (lsn p) = sub 5 8 p"
    using be_put_get [of "sub 5 8 p", where 'a = 64] assms by (simp add: lsn_def)
  then show "set_lsn (lsn p) p = p" "set_lsn (lsn p) (set_lsn l p) = p"
    using assms by (simp_all add: set_lsn_def)
qed

section \<open>Committing\<close>

text \<open>The transactions of the records in a log file.\<close>

definition file_txns :: "os_file \<Rightarrow> u64 set" where
  "file_txns f = (case read_records 0 f of Some rs \<Rightarrow> r_txn ` set rs | None \<Rightarrow> {})"

lemma file_txns_holds: "wal_holds w rs ps \<Longrightarrow> file_txns (wfile w) = r_txn ` set rs"
  unfolding file_txns_def by (subst read_records_log [where rs = rs]) (auto simp: wal_holds_def)

text \<open>A transaction that alone owns pages and has not written to the log file.\<close>

definition sole_writer :: "u64 \<Rightarrow> observed \<Rightarrow> bool" where
  "sole_writer t x \<longleftrightarrow> (\<forall>i. o_owner x i = None \<or> o_owner x i = Some t) \<and> t \<notin> o_ended x \<and> t \<notin> file_txns (o_file x)"

lemma committed_images_append_commit:
  assumes c: "r_op c = op_commit" "r_txn c = t" and ps: "\<forall>r \<in> set ps. r_op r \<noteq> op_commit"
  shows "is_committed (rs @ ps @ [c]) u \<longleftrightarrow> is_committed rs u \<or> u = t"
    and "committed_images (rs @ ps @ [c]) i = filter (\<lambda>r. is_committed rs (r_txn r) \<or> r_txn r = t) (images (rs @ ps) i)"
proof -
  show k: "is_committed (rs @ ps @ [c]) u \<longleftrightarrow> is_committed rs u \<or> u = t" for u
    using c ps by (auto simp: is_committed_def list_ex_iff)
  have "\<not> is_page_op (r_op c)"
    using c(1) page_op_ends_nothing by blast
  moreover have "image_of (rs @ ps @ [c]) i = (\<lambda>r. is_page_op (r_op r) \<and> (is_committed rs (r_txn r) \<or> r_txn r = t) \<and> r_page r = i)"
    by (simp add: image_of_def k fun_eq_iff)
  ultimately show "committed_images (rs @ ps @ [c]) i = filter (\<lambda>r. is_committed rs (r_txn r) \<or> r_txn r = t) (images (rs @ ps) i)"
    by (simp add: committed_images_def images_def conj_ac)
qed

lemma safe_commit:
  assumes safe: "safe s rs ps" and lg: "logged {} s (rs @ ps)" and own: "\<And>i. owner s i = None \<or> owner s i = Some t"
    and fresh: "t \<notin> ended (rs @ ps)" "t \<notin> r_txn ` set rs" and c: "r_op c = op_commit" "r_txn c = t"
    and d: "\<And>i. disk_view (disk s') i = (if owner s i = Some t then view s i else disk_view (disk s) i)"
  shows "safe s' (rs @ ps @ [c]) []"
proof -
  have ps: "\<forall>r \<in> set ps. r_op r \<noteq> op_commit"
    using safe by (simp add: safe_def)
  note ci = committed_images_append_commit(2) [OF c ps]
  have "\<exists>l. disk_view (disk s') i = Some (set_lsn l (redo_data (last (committed_images (rs @ ps @ [c]) i))))"
    if ne: "committed_images (rs @ ps @ [c]) i \<noteq> []" for i
  proof (cases "owner s i")
    case None
    have old: "filter (\<lambda>r. is_committed rs (r_txn r) \<or> r_txn r = t) (images rs i) = committed_images rs i"
      using fresh(2) by (auto simp: committed_images_def images_def image_of_def intro!: filter_cong)
    have new: "filter (\<lambda>r. is_committed rs (r_txn r) \<or> r_txn r = t) (images ps i) = []"
    proof (rule filter_False, rule ballI)
      fix r assume r: "r \<in> set (images ps i)"
      have "r_txn r \<in> ended (rs @ ps)" "\<not> is_committed rs (r_txn r)"
        using safe None r unfolding safe_def by blast+
      then show "\<not> (is_committed rs (r_txn r) \<or> r_txn r = t)"
        using fresh(1) by blast
    qed
    have eq: "committed_images (rs @ ps @ [c]) i = committed_images rs i"
      unfolding ci images_append filter_append old new by simp
    have "\<exists>l. disk_view (disk s) i = Some (set_lsn l (redo_data (last (committed_images rs i))))"
      using safe None ne unfolding safe_def eq by blast
    then show ?thesis
      by (simp add: eq d None)
  next
    case (Some u)
    then have u: "u = t"
      using own [of i] by simp
    have l: "images (rs @ ps) i \<noteq> []" "r_txn (last (images (rs @ ps) i)) = t"
      "view s i = Some (set_lsn (r_lsn (last (images (rs @ ps) i))) (redo_data (last (images (rs @ ps) i))))"
      using lg Some u unfolding logged_def by blast+
    have lastP: "last (filter P xs) = last xs" if "xs \<noteq> []" "P (last xs)" for P and xs :: "log_record list"
    proof -
      have "filter P xs = filter P (butlast xs @ [last xs])"
        using that(1) by simp
      then show ?thesis
        using that(2) by simp
    qed
    have "last (committed_images (rs @ ps @ [c]) i) = last (images (rs @ ps) i)"
      unfolding ci by (rule lastP [OF l(1)]) (simp add: l(2))
    then show ?thesis
      using l(3) by (auto simp: d Some u)
  qed
  then show ?thesis
    by (simp add: safe_def images_def)
qed

lemma commit_db_ok:
  assumes st: "tstate t = StateActive" and db: "db_ok {} (store m)" and w: "sole_writer (txn_id t) (obs (store m))"
    and dev: "all_writable (wfile (wal (store m)))" and held: "locks_held t (table_locks m)"
  obtains m' rs where "commit t m = (Ok (t\<lparr>tstate := StateCommitted, locks := []\<rparr>), m')" "db_ok {} (store m')"
    "obs (store m') = (obs (store m))\<lparr>o_owner := (\<lambda>_. None), o_file := wfile (wal (store m')), o_ended := insert (txn_id t) (o_ended (obs (store m))),
      o_txns := insert (txn_id t) (o_txns (obs (store m)))\<rparr>"
    "wal_holds (wal (store m')) rs []"
    "all_writable (wfile (wal (store m')))" "next_txn_id m' = next_txn_id m"
    "\<And>table. writer (table_locks m' table) \<longleftrightarrow> writer (table_locks m table) \<and> lock_entry WriteLock table \<notin> set (locks t)"
    "\<And>table. readers (table_locks m' table) = readers (table_locks m table) - of_bool (lock_entry ReadLock table \<in> set (locks t))"
proof -
  let ?s = "store m"
  obtain rs ps where rs: "wal_holds (wal ?s) rs ps" "images_ok (next_page_id (disk ?s)) (rs @ ps)" "logged {} ?s (rs @ ps)" "safe ?s rs ps"
    using db by (auto simp: db_ok_def)
  let ?c = "(txn_record (txn_id t) op_commit)\<lparr>r_lsn := next_lsn (wal ?s)\<rparr>"
  obtain m' where c: "commit t m = (Ok (t\<lparr>tstate := StateCommitted, locks := []\<rparr>), m')" "pool_ok {} (store m')"
    "abs_store (store m') = commit_pages ((=) (txn_id t)) (abs_store ?s)" "wal_holds (wal (store m')) (rs @ ps @ [?c]) []"
    "\<And>table. writer (table_locks m' table) \<longleftrightarrow> writer (table_locks m table) \<and> lock_entry WriteLock table \<notin> set (locks t)"
    "\<And>table. readers (table_locks m' table) = readers (table_locks m table) - of_bool (lock_entry ReadLock table \<in> set (locks t))"
    "pins (store m') = pins ?s" "root_page_id (disk (store m')) = root_page_id (disk ?s)" "next_page_id (disk (store m')) = next_page_id (disk ?s)"
    "max_size (bpool (store m')) = max_size (bpool ?s)" "wfile (wal (store m')) = (wfile (wal ?s))\<lparr>fbytes := encode_log (rs @ ps @ [?c])\<rparr>"
    "next_txn_id m' = next_txn_id m"
    by (rule commit_ok [OF st db_ok_pool [OF db] rs(1) dev held]) blast
  have own: "owner ?s i = None \<or> owner ?s i = Some (txn_id t)" for i
    using w by (simp add: sole_writer_def)
  have fresh: "txn_id t \<notin> ended (rs @ ps)" "txn_id t \<notin> r_txn ` set rs"
    using w by (simp_all add: sole_writer_def log_records_holds [OF rs(1)] file_txns_holds [OF rs(1)])
  have v: "view (store m') = view ?s" "owner (store m') = (\<lambda>_. None)"
    "disk_view (disk (store m')) i = (if owner ?s i = Some (txn_id t) then view ?s i else disk_view (disk ?s) i)" for i
  proof -
    show "view (store m') = view ?s"
      using arg_cong [OF c(3), of vis] by (simp add: commit_pages_def)
    show "owner (store m') = (\<lambda>_. None)"
      using arg_cong [OF c(3), of own] own by (auto simp: commit_pages_def owned_by_abs fun_eq_iff)
    show "disk_view (disk (store m')) i = (if owner ?s i = Some (txn_id t) then view ?s i else disk_view (disk ?s) i)"
      using arg_cong [OF c(3), of dur] by (auto simp: commit_pages_def owned_by_abs)
  qed
  have op: "r_op ?c = op_commit" "r_txn ?c = txn_id t"
    by (simp_all add: txn_record_def)
  have npo: "\<not> is_page_op op_commit"
    using page_op_ends_nothing by blast
  have "safe (store m') (rs @ ps @ [?c]) []"
    by (rule safe_commit [OF rs(4,3) own fresh op v(3)])
  moreover have "images_ok (next_page_id (disk ?s)) (rs @ ps @ [?c])"
    using rs(2) op(1) npo by (auto simp: images_ok_def)
  moreover have "logged {} (store m') (rs @ ps @ [?c])"
    by (simp add: logged_def v(2))
  ultimately have db': "db_ok {} (store m')"
    unfolding db_ok_def using c(2,4,9) by (intro conjI exI [of _ "rs @ ps @ [?c]"] exI [of _ "[]"]) simp_all
  have en: "ended (log_records (wal (store m'))) = insert (txn_id t) (ended (log_records (wal ?s)))"
  proof -
    have "ended [?c] = {txn_id t}"
      using op by (auto simp: ended_def)
    then show ?thesis
      by (simp add: log_records_holds [OF c(4)] log_records_holds [OF rs(1)])
  qed
  have tx: "r_txn ` set (log_records (wal (store m'))) = insert (txn_id t) (r_txn ` set (log_records (wal ?s)))"
    using op by (simp add: log_records_holds [OF c(4)] log_records_holds [OF rs(1)] image_Un)
  show thesis
  proof (rule that [OF c(1) db' _ c(4) _ c(12) c(5,6)])
    show "obs (store m') = (obs ?s)\<lparr>o_owner := (\<lambda>_. None), o_file := wfile (wal (store m')), o_ended := insert (txn_id t) (o_ended (obs ?s)),
      o_txns := insert (txn_id t) (o_txns (obs ?s))\<rparr>"
      using c(7-10) v(1,2) en tx by (simp add: obs_def cong: if_cong)
    show "all_writable (wfile (wal (store m')))"
      using dev by (simp add: c(11) all_writable_def)
  qed
qed

section \<open>A crash after the commit\<close>

text \<open>Pages that agree but for their LSN.\<close>

definition but_lsn :: "(u32 \<Rightarrow> page option) \<Rightarrow> (u32 \<Rightarrow> page option) \<Rightarrow> bool" where
  "but_lsn V W \<longleftrightarrow> (\<forall>i p. V i = Some p \<longrightarrow> (\<exists>l. W i = Some (set_lsn l p)))"

lemma but_lsn_tree: "but_lsn V W \<Longrightarrow> holds_tree V t \<Longrightarrow> holds_tree W t"
proof (induction t rule: leaves.induct)
  case (1 i cs nx)
  then show ?case
    by (auto simp: but_lsn_def) (metis leaf_page_set_lsn)
next
  case (2 i ks ts)
  then obtain p where p: "V i = Some p" "node_page p i ks (map root_of ts)"
    by auto
  then obtain l where "W i = Some (set_lsn l p)"
    using "2.prems"(1) by (auto simp: but_lsn_def)
  then show ?case
    using 2 p by auto
qed

lemma but_lsn_fresh: "but_lsn V W \<Longrightarrow> holds_tree V t \<Longrightarrow> fresh_empty V t \<Longrightarrow> fresh_empty W t"
proof (induction t rule: leaves.induct)
  case (1 i cs nx)
  then obtain p where p: "V i = Some p" "leaf_page p i cs nx"
    by auto
  then obtain l where "W i = Some (set_lsn l p)"
    using "1.prems"(1) by (auto simp: but_lsn_def)
  then show ?case
    using "1.prems"(3) p by (auto simp: fresh_empty_def leaf_page_def)
next
  case (2 i ks ts)
  then show ?case
    by (auto simp: fresh_empty_def)
qed

lemma but_lsn_btree:
  assumes "but_lsn (o_view x) (o_view y)" "o_root y = o_root x" "btree_ok e h t x"
  shows "btree_ok e h t y"
  using assms but_lsn_tree [OF assms(1), of t] by (simp add: btree_ok_def)

text \<open>What is left of the storage when the process ends, opened again. Nothing of the pool survives.\<close>

definition reopened :: "disk_mgr \<Rightarrow> wal_mgr \<Rightarrow> int \<Rightarrow> storage" where
  "reopened dm w k = \<lparr>disk = dm, wal = w, bpool = new_buffer_pool k\<rparr>"

lemma reopened_fields [simp]:
  "disk (reopened dm w k) = dm" "wal (reopened dm w k) = w" "max_size (bpool (reopened dm w k)) = k"
  "frame_at (reopened dm w k) i = None" "view (reopened dm w k) = disk_view dm" "pins (reopened dm w k) i = 0"
  "owner (reopened dm w k) i = None" "lru (bpool (reopened dm w k)) = []" "frames (bpool (reopened dm w k)) = []"
proof -
  show f: "frame_at (reopened dm w k) i = None" for i
    by (simp add: reopened_def frame_at_def new_buffer_pool_def)
  show "disk (reopened dm w k) = dm"
    by (simp add: reopened_def)
  then show "view (reopened dm w k) = disk_view dm" "pins (reopened dm w k) i = 0" "owner (reopened dm w k) i = None"
    by (auto simp: view_def pins_def owner_def f fun_eq_iff)
qed (simp_all add: reopened_def new_buffer_pool_def)

lemma wal_holds_log_ok:
  assumes "wal_holds w rs []" "images_ok next rs" "length rs < 2 ^ 64"
  shows "log_ok next rs"
proof -
  have "r_lsn (rs ! i) < r_lsn (rs ! j)" if "i < j" "j < length rs" for i j
  proof -
    have l: "r_lsn (rs ! k) = of_nat k" if "k < length rs" for k
    proof -
      have "map r_lsn rs = map of_nat [0..<length rs]"
        using assms(1) by (simp add: wal_holds_def)
      from arg_cong [OF this, of "\<lambda>xs. xs ! k"] show ?thesis
        using that by simp
    qed
    then show ?thesis
      using that assms(3) by (simp add: word_less_nat_alt unat_of_nat)
  qed
  then show ?thesis
    using assms(2) by (simp add: log_ok_def images_ok_def sorted_wrt_iff_nth_less)
qed

lemma quiet_view:
  assumes "db_ok {} s" "owner s i = None" "i < next_page_id (disk s)"
  shows "view s i = disk_view (disk s) i"
proof (cases "frame_at s i")
  case (Some f)
  then show ?thesis
    using pool_ok_frameD(5) [OF db_ok_pool [OF assms(1)] Some] assms(2) by (auto simp: view_def owner_def split: if_splits)
qed (simp add: view_def)

lemma reopen_committed:
  assumes db: "db_ok {} s" and quiet: "\<And>i. owner s i = None" and w: "wal_holds (wal s) rs []" and len: "length rs < 2 ^ 64"
  obtains dm where "new_disk_manager (dfile (disk s)) = Ok (disk s)" "new_wal_manager (wfile (wal s)) = Ok (wal s)"
    "recover (wal s) (disk s) = (Ok (), dm)" "db_ok {} (reopened dm (wal s) k)"
    "next_page_id dm = next_page_id (disk s)" "root_page_id dm = root_page_id (disk s)"
    "but_lsn (o_view (obs s)) (o_view (obs (reopened dm (wal s) k)))"
proof -
  obtain rs' ps' where r: "wal_holds (wal s) rs' ps'" "images_ok (next_page_id (disk s)) (rs' @ ps')" "safe s rs' ps'"
    using db by (auto simp: db_ok_def)
  have "rs' = rs"
    using wal_holds_read [OF w] wal_holds_read [OF r(1)] by simp
  moreover have "rs' @ ps' = rs @ []"
    using log_records_holds [OF w] log_records_holds [OF r(1)] by simp
  ultimately have im: "images_ok (next_page_id (disk s)) rs" and sf: "safe s rs []"
    using r(2,3) by simp_all
  note pool = db_ok_pool [OF db]
  note dok = pool_okD(1) [OF pool]
  obtain dm where dm: "recover (wal s) (disk s) = (Ok (), dm)" "disk_ok dm" "disk_view dm = recovered rs (disk_view (disk s))"
    "root_page_id dm = root_page_id (disk s)" "next_page_id dm = next_page_id (disk s)"
    by (rule recover_ok [OF dok wal_holds_read [OF w] wal_holds_log_ok [OF w im len]])
  have last: "length (redo_data (last (committed_images rs i))) = 4096 \<and> page_id (redo_data (last (committed_images rs i))) = i"
    if "committed_images rs i \<noteq> []" for i
    using committed_images_last [OF that] im by (auto simp: images_ok_def image_of_def image_ok_def)
  let ?s = "reopened dm (wal s) k"
  have "but_lsn (o_view (obs s)) (o_view (obs ?s))"
    unfolding but_lsn_def
  proof (intro allI impI)
    fix i p assume p: "o_view (obs s) i = Some p"
    note pp = o_view_id [OF db p]
    have i: "i < next_page_id (disk s)"
      using pp(3) by simp
    have v: "disk_view (disk s) i = Some p"
      using p i quiet_view [OF db quiet i] by (simp add: obs_def)
    have "\<exists>l. recovered rs (disk_view (disk s)) i = Some (set_lsn l p)"
    proof (cases "committed_images rs i = []")
      case True
      then show ?thesis
        using v set_lsn_own(1) [OF pp(1)] by (auto simp: recovered_def) metis
    next
      case False
      then obtain l where "p = set_lsn l (redo_data (last (committed_images rs i)))"
        using sf quiet v unfolding safe_def by fastforce
      then show ?thesis
        using False set_lsn_own(2) last by (auto simp: recovered_def) metis
    qed
    then show "\<exists>l. o_view (obs ?s) i = Some (set_lsn l p)"
      using i by (simp add: obs_def dm(3,5))
  qed
  moreover have "db_ok {} ?s"
  proof -
    have "pool_ok {} ?s"
      using dm(2,5) last pool_okD(6) [OF pool] by (auto simp: pool_ok_def dm(3) recovered_def split: if_splits)
    moreover have "safe ?s rs []"
      using set_lsn_own(1) last by (auto simp: safe_def images_def dm(3) recovered_def) metis
    ultimately show ?thesis
      using w im dm(5) unfolding db_ok_def by (intro conjI exI [of _ rs] exI [of _ "[]"]) (simp_all add: logged_def)
  qed
  ultimately show thesis
    using that [OF new_disk_manager_reopen [OF dok] new_wal_manager_holds [OF w] dm(1)] dm(4,5) by blast
qed

end
