(* ===== verification/Ast.thy ===== *)
theory Ast
  imports Db_Types
begin

text \<open>
  \<open>sql/ast/ast.go\<close>: statements and expressions. A Go interface variable that may be \<open>nil\<close> is an
  \<open>option\<close>: the \<open>Where\<close> of a statement without \<open>WHERE\<close>, and the condition of a \<open>JOIN\<close>.
\<close>

section \<open>Expressions\<close>

datatype operator_type = OpEQ | OpNEQ | OpLT | OpGT | OpLTE | OpGTE | OpAND | OpOR

datatype expr =
    Identifier string string                  \<comment> \<open>table (empty without a prefix), column\<close>
  | Wildcard
  | IntLiteral i64
  | StringLiteral string
  | BoolLiteral bool
  | NullLiteral
  | BinaryExpr expr operator_type expr
  | UnaryExpr string expr
  | IsNullExpr expr
  | IsNotNullExpr expr

section \<open>Statements\<close>

record join_clause =
  join_table :: string
  join_condition :: "expr option"

record order_by_clause =
  ob_column :: string
  ob_desc :: bool

record assignment =
  as_column :: string
  as_value :: expr

record select_statement =
  sel_columns :: "expr list"
  sel_table :: string
  sel_join :: "join_clause option"
  sel_where :: "expr option"
  sel_order_by :: "order_by_clause option"
  sel_limit :: "int option"

datatype statement =
    SelectStatement select_statement
  | InsertStatement string "expr list"
  | UpdateStatement string "assignment list" "expr option"
  | DeleteStatement string "expr option"
  | CreateTableStatement string "column list"
  | DropTableStatement string
  | BeginStatement
  | CommitStatement
  | RollbackStatement

fun statement_kind :: "statement \<Rightarrow> string" where
  "statement_kind (SelectStatement _) = ''SELECT''"
| "statement_kind (InsertStatement _ _) = ''INSERT''"
| "statement_kind (UpdateStatement _ _ _) = ''UPDATE''"
| "statement_kind (DeleteStatement _ _) = ''DELETE''"
| "statement_kind (CreateTableStatement _ _) = ''CREATE_TABLE''"
| "statement_kind (DropTableStatement _) = ''DROP_TABLE''"
| "statement_kind BeginStatement = ''BEGIN''"
| "statement_kind CommitStatement = ''COMMIT''"
| "statement_kind RollbackStatement = ''ROLLBACK''"

end
