(* ===== verification/Planner.thy ===== *)
theory Planner
  imports Ast
begin

text \<open>
  \<open>sql/planner/planner.go\<close>: from a statement to a tree of plan nodes. The catalog is used through
  the interface \<open>catalogReader\<close>, a record of its two operations; the planner only looks at whether
  \<open>GetSchema\<close> failed.
\<close>

section \<open>Plan nodes\<close>

datatype plan =
    SequentialScanNode string schema
  | IndexScanNode string schema expr
  | FilterNode plan expr
  | ProjectionNode plan "expr list"
  | NestedLoopJoinNode plan plan "expr option"
  | SortNode plan string bool
  | LimitNode plan int
  | InsertNode string schema "expr list"
  | UpdateNode string schema "assignment list" "expr option"
  | DeleteNode string schema "expr option"
  | CreateTableNode string "column list"
  | DropTableNode string
  | BeginNode
  | CommitNode
  | RollbackNode

fun plan_kind :: "plan \<Rightarrow> string" where
  "plan_kind (SequentialScanNode _ _) = ''SequentialScan''"
| "plan_kind (IndexScanNode _ _ _) = ''IndexScan''"
| "plan_kind (FilterNode _ _) = ''Filter''"
| "plan_kind (ProjectionNode _ _) = ''Projection''"
| "plan_kind (NestedLoopJoinNode _ _ _) = ''NestedLoopJoin''"
| "plan_kind (SortNode _ _ _) = ''Sort''"
| "plan_kind (LimitNode _ _) = ''Limit''"
| "plan_kind (InsertNode _ _ _) = ''Insert''"
| "plan_kind (UpdateNode _ _ _ _) = ''Update''"
| "plan_kind (DeleteNode _ _ _) = ''Delete''"
| "plan_kind (CreateTableNode _ _) = ''CreateTable''"
| "plan_kind (DropTableNode _) = ''DropTable''"
| "plan_kind BeginNode = ''Begin''"
| "plan_kind CommitNode = ''Commit''"
| "plan_kind RollbackNode = ''Rollback''"

section \<open>The planner\<close>

record catalog_reader =
  cat_get_schema :: "string \<Rightarrow> schema res"
  cat_table_exists :: "string \<Rightarrow> bool"

text \<open>\<open>GetSchema\<close>, with the error replaced by the planner's own.\<close>

definition plan_schema :: "catalog_reader \<Rightarrow> string \<Rightarrow> schema res" where
  "plan_schema c t = (case cat_get_schema c t of Err _ \<Rightarrow> Err (EPlanNoTable t) | r \<Rightarrow> r)"

definition indexable :: "operator_type \<Rightarrow> bool" where
  "indexable op \<longleftrightarrow> op \<in> {OpEQ, OpLT, OpGT, OpLTE, OpGTE}"

fun extract_pk_expr :: "expr \<Rightarrow> string \<Rightarrow> expr option" where
  "extract_pk_expr (BinaryExpr (Identifier t c) op r) pk =
     (if indexable op \<and> c = pk then Some (BinaryExpr (Identifier t c) op r) else None)"
| "extract_pk_expr _ _ = None"

definition choose_scan :: "string \<Rightarrow> schema \<Rightarrow> expr option \<Rightarrow> plan" where
  "choose_scan table sch wh =
     (case wh of
        None \<Rightarrow> SequentialScanNode table sch
      | Some w \<Rightarrow>
          let i = primary_key_index sch in
          if i \<ge> 0 then
            (case extract_pk_expr w (col_name (columns sch ! nat i)) of
               Some pe \<Rightarrow> IndexScanNode table sch pe
             | None \<Rightarrow> SequentialScanNode table sch)
          else SequentialScanNode table sch)"

fun is_index_scan :: "plan \<Rightarrow> bool" where
  "is_index_scan (IndexScanNode _ _ _) = True"
| "is_index_scan _ = False"

definition add_filter :: "expr option \<Rightarrow> plan \<Rightarrow> plan" where
  "add_filter wh scan =
     (case wh of
        None \<Rightarrow> scan
      | Some w \<Rightarrow> if is_index_scan scan then scan else FilterNode scan w)"

definition add_order :: "order_by_clause option \<Rightarrow> plan \<Rightarrow> plan" where
  "add_order ob n = (case ob of None \<Rightarrow> n | Some b \<Rightarrow> SortNode n (ob_column b) (ob_desc b))"

definition add_limit :: "int option \<Rightarrow> plan \<Rightarrow> plan" where
  "add_limit l n = (case l of None \<Rightarrow> n | Some k \<Rightarrow> LimitNode n k)"

definition plan_scan :: "catalog_reader \<Rightarrow> select_statement \<Rightarrow> schema \<Rightarrow> plan res" where
  "plan_scan c s sch =
     (case sel_join s of
        None \<Rightarrow> Ok (choose_scan (sel_table s) sch (sel_where s))
      | Some j \<Rightarrow>
          bindR (plan_schema c (join_table j)) (\<lambda>right_sch.
          Ok (NestedLoopJoinNode (SequentialScanNode (sel_table s) sch)
                (SequentialScanNode (join_table j) right_sch) (join_condition j))))"

definition plan_select :: "catalog_reader \<Rightarrow> select_statement \<Rightarrow> plan res" where
  "plan_select c s =
     bindR (plan_schema c (sel_table s)) (\<lambda>sch.
     bindR (plan_scan c s sch) (\<lambda>scan.
     Ok (add_limit (sel_limit s)
          (add_order (sel_order_by s)
            (ProjectionNode (add_filter (sel_where s) scan) (sel_columns s))))))"

definition plan_insert :: "catalog_reader \<Rightarrow> string \<Rightarrow> expr list \<Rightarrow> plan res" where
  "plan_insert c t vs =
     bindR (plan_schema c t) (\<lambda>sch.
     if length vs \<noteq> length (columns sch)
     then Err (EPlanColumns (int (length (columns sch))) (int (length vs)))
     else Ok (InsertNode t sch vs))"

definition plan_update :: "catalog_reader \<Rightarrow> string \<Rightarrow> assignment list \<Rightarrow> expr option \<Rightarrow> plan res" where
  "plan_update c t as wh = bindR (plan_schema c t) (\<lambda>sch. Ok (UpdateNode t sch as wh))"

definition plan_delete :: "catalog_reader \<Rightarrow> string \<Rightarrow> expr option \<Rightarrow> plan res" where
  "plan_delete c t wh = bindR (plan_schema c t) (\<lambda>sch. Ok (DeleteNode t sch wh))"

fun plan_statement :: "catalog_reader \<Rightarrow> statement \<Rightarrow> plan res" where
  "plan_statement c (SelectStatement s) = plan_select c s"
| "plan_statement c (InsertStatement t vs) = plan_insert c t vs"
| "plan_statement c (UpdateStatement t as wh) = plan_update c t as wh"
| "plan_statement c (DeleteStatement t wh) = plan_delete c t wh"
| "plan_statement c (CreateTableStatement t cs) = Ok (CreateTableNode t cs)"
| "plan_statement c (DropTableStatement t) =
     (if \<not> cat_table_exists c t then Err (EPlanNoTable t) else Ok (DropTableNode t))"
| "plan_statement c BeginStatement = Ok BeginNode"
| "plan_statement c CommitStatement = Ok CommitNode"
| "plan_statement c RollbackStatement = Ok RollbackNode"

section \<open>What plans look like\<close>

text \<open>The plans the planner makes for queries: the right side of a join is a scan of a table.\<close>

fun query :: "plan \<Rightarrow> bool" where
  "query (SequentialScanNode t sch) = True"
| "query (IndexScanNode t sch pe) = (case pe of BinaryExpr _ _ _ \<Rightarrow> True | _ \<Rightarrow> False)"
| "query (FilterNode p c) = query p"
| "query (ProjectionNode p cols) = query p"
| "query (NestedLoopJoinNode l r c) = (query l \<and> (case r of SequentialScanNode _ _ \<Rightarrow> True | _ \<Rightarrow> False))"
| "query (SortNode p col desc) = query p"
| "query (LimitNode p k) = query p"
| "query _ = False"

fun tables_of_statement :: "statement \<Rightarrow> string list" where
  "tables_of_statement (SelectStatement s) =
     sel_table s # (case sel_join s of None \<Rightarrow> [] | Some j \<Rightarrow> [join_table j])"
| "tables_of_statement (InsertStatement t vs) = [t]"
| "tables_of_statement (UpdateStatement t as wh) = [t]"
| "tables_of_statement (DeleteStatement t wh) = [t]"
| "tables_of_statement (DropTableStatement t) = [t]"
| "tables_of_statement _ = []"

fun plan_tables :: "plan \<Rightarrow> string list" where
  "plan_tables (SequentialScanNode t sch) = [t]"
| "plan_tables (IndexScanNode t sch pe) = [t]"
| "plan_tables (FilterNode p c) = plan_tables p"
| "plan_tables (ProjectionNode p cols) = plan_tables p"
| "plan_tables (NestedLoopJoinNode l r c) = plan_tables l @ plan_tables r"
| "plan_tables (SortNode p col desc) = plan_tables p"
| "plan_tables (LimitNode p k) = plan_tables p"
| "plan_tables (InsertNode t sch vs) = [t]"
| "plan_tables (UpdateNode t sch as wh) = [t]"
| "plan_tables (DeleteNode t sch wh) = [t]"
| "plan_tables (DropTableNode t) = [t]"
| "plan_tables _ = []"

text \<open>An index scan is on a comparison of the primary key.\<close>

definition pk_comparison :: "schema \<Rightarrow> expr \<Rightarrow> bool" where
  "pk_comparison sch pe \<longleftrightarrow> primary_key_index sch \<ge> 0 \<and>
     (\<exists>t op r. pe = BinaryExpr (Identifier t (col_name (columns sch ! nat (primary_key_index sch)))) op r \<and> indexable op)"

fun planned :: "(string \<Rightarrow> schema res) \<Rightarrow> plan \<Rightarrow> bool" where
  "planned g (SequentialScanNode t sch) = (g t = Ok sch)"
| "planned g (IndexScanNode t sch pe) = (g t = Ok sch \<and> pk_comparison sch pe)"
| "planned g (FilterNode p c) = planned g p"
| "planned g (ProjectionNode p cols) = planned g p"
| "planned g (NestedLoopJoinNode l r c) = (planned g l \<and> planned g r)"
| "planned g (SortNode p col desc) = planned g p"
| "planned g (LimitNode p k) = planned g p"
| "planned g (InsertNode t sch vs) = (g t = Ok sch \<and> length vs = length (columns sch))"
| "planned g (UpdateNode t sch as wh) = (g t = Ok sch)"
| "planned g (DeleteNode t sch wh) = (g t = Ok sch)"
| "planned g (DropTableNode t) = (\<exists>sch. g t = Ok sch)"
| "planned g _ = True"

lemma extract_pk_expr_Some:
  "extract_pk_expr w pk = Some pe \<longleftrightarrow> pe = w \<and> (\<exists>t op r. w = BinaryExpr (Identifier t pk) op r \<and> indexable op)"
  by (induction w pk rule: extract_pk_expr.induct) auto

lemma choose_scan_cases:
  obtains "choose_scan t sch wh = SequentialScanNode t sch"
  | w where "wh = Some w" "choose_scan t sch wh = IndexScanNode t sch w" "pk_comparison sch w"
  by (cases "choose_scan t sch wh = SequentialScanNode t sch")
    (auto simp: choose_scan_def Let_def extract_pk_expr_Some pk_comparison_def split: option.splits if_splits)

lemma pk_comparison_query: "pk_comparison sch w \<Longrightarrow> query (IndexScanNode t sch w)"
  by (auto simp: pk_comparison_def)

text \<open>The steps above a scan keep its shape.\<close>

lemma add_steps [simp]:
  "query (add_filter wh n) = query n" "query (add_order ob n) = query n" "query (add_limit l n) = query n"
  "planned g (add_filter wh n) = planned g n" "planned g (add_order ob n) = planned g n"
  "planned g (add_limit l n) = planned g n"
  "plan_tables (add_filter wh n) = plan_tables n" "plan_tables (add_order ob n) = plan_tables n"
  "plan_tables (add_limit l n) = plan_tables n"
  by (simp_all add: add_filter_def add_order_def add_limit_def split: option.split)

lemma choose_scan_ok:
  assumes "g t = Ok sch"
  shows "query (choose_scan t sch wh)" "planned g (choose_scan t sch wh)" "plan_tables (choose_scan t sch wh) = [t]"
  by (rule choose_scan_cases [of t sch wh]; use assms pk_comparison_query in simp)+

section \<open>The contract of the catalog\<close>

locale schema_source =
  fixes c :: catalog_reader
  assumes exists_iff: "cat_table_exists c t \<longleftrightarrow> (\<exists>s. cat_get_schema c t = Ok s)"
    and missing: "\<not> cat_table_exists c t \<Longrightarrow> \<exists>e. cat_get_schema c t = Err e"
begin

lemma plan_schema_cases:
  "plan_schema c t = (if cat_table_exists c t then cat_get_schema c t else Err (EPlanNoTable t))"
  using exists_iff [of t] missing [of t] by (auto simp: plan_schema_def)

lemma plan_statement_fails_iff:
  "(\<exists>e. plan_statement c st = Err e) \<longleftrightarrow>
     (\<exists>t \<in> set (tables_of_statement st). \<not> cat_table_exists c t) \<or>
     (\<exists>t vs sch. st = InsertStatement t vs \<and> cat_get_schema c t = Ok sch \<and> length vs \<noteq> length (columns sch))"
proof (cases st)
  case (SelectStatement s)
  show ?thesis
    using exists_iff [of "sel_table s"]
    by (cases "sel_join s"; cases "cat_table_exists c (sel_table s)")
      (auto simp: SelectStatement plan_select_def plan_scan_def plan_schema_cases exists_iff split: if_splits)
next
  case (InsertStatement t vs)
  then show ?thesis
    using exists_iff [of t] by (auto simp: plan_insert_def plan_schema_cases)
next
  case (UpdateStatement t as wh)
  then show ?thesis
    using exists_iff [of t] by (auto simp: plan_update_def plan_schema_cases)
next
  case (DeleteStatement t wh)
  then show ?thesis
    using exists_iff [of t] by (auto simp: plan_delete_def plan_schema_cases)
qed simp_all

lemma plan_schema_Ok: "plan_schema c t = Ok sch \<longleftrightarrow> cat_get_schema c t = Ok sch"
  using exists_iff [of t] by (auto simp: plan_schema_cases)

lemma plan_scan_ok:
  assumes "cat_get_schema c (sel_table s) = Ok sch" "plan_scan c s sch = Ok n"
  shows "query n" "planned (cat_get_schema c) n" "plan_tables n = tables_of_statement (SelectStatement s)"
  using assms choose_scan_ok [of "cat_get_schema c" "sel_table s" sch "sel_where s"]
  by (auto simp: plan_scan_def bindR_eq_Ok plan_schema_Ok split: option.splits)

lemma plan_statement_planned:
  assumes "plan_statement c st = Ok p"
  shows "planned (cat_get_schema c) p \<and> set (plan_tables p) \<subseteq> set (tables_of_statement st) \<and>
    ((\<exists>s. st = SelectStatement s) \<longrightarrow> query p)"
proof (cases st)
  case (SelectStatement s)
  then obtain sch n where n: "cat_get_schema c (sel_table s) = Ok sch" "plan_scan c s sch = Ok n"
    "p = add_limit (sel_limit s) (add_order (sel_order_by s) (ProjectionNode (add_filter (sel_where s) n) (sel_columns s)))"
    using assms by (auto simp: plan_select_def bindR_eq_Ok plan_schema_Ok)
  show ?thesis
    using plan_scan_ok [OF n(1,2)] SelectStatement n(3) by simp
qed (use assms in \<open>auto simp: plan_insert_def plan_update_def plan_delete_def bindR_eq_Ok plan_schema_Ok exists_iff
  split: if_splits\<close>)

end

end
