(* ===== verification/Executor.thy ===== *)
theory Executor
  imports Planner
begin

text \<open>
  \<open>executor/executor.go\<close>: the evaluation of expressions on a row and the Volcano-style executors.
  The table repository is used through the interface \<open>TableRepository\<close>, a record of its operations
  on a state \<open>'s\<close>. An executor object is a value of \<open>exec\<close>; \<open>Next\<close> returns the changed object next
  to the row (\<open>None\<close> is Go's \<open>nil\<close>). After an error the object is not used again
  (\<open>executeLocked\<close> stops), so it is not returned then. Loops and nested calls take fuel.
\<close>

section \<open>Rows and schemas\<close>

fun col_index_from :: "int \<Rightarrow> column list \<Rightarrow> string \<Rightarrow> int" where
  "col_index_from i [] name = -1"
| "col_index_from i (c # cs) name = (if col_name c = name then i else col_index_from (i + 1) cs name)"

definition col_index :: "schema \<Rightarrow> string \<Rightarrow> int" where
  "col_index sch name = col_index_from 0 (columns sch) name"

text \<open>\<open>row.Values[idx]\<close> and the assignment to it, with Go's bounds check.\<close>

definition value_at :: "row \<Rightarrow> int \<Rightarrow> value_t res" where
  "value_at r i = (if 0 \<le> i \<and> i < int (length r) then Ok (r ! nat i) else Panic)"

definition set_value_at :: "row \<Rightarrow> int \<Rightarrow> value_t \<Rightarrow> row res" where
  "set_value_at r i v = (if 0 \<le> i \<and> i < int (length r) then Ok (r[nat i := v]) else Panic)"

definition join_rows :: "row \<Rightarrow> row \<Rightarrow> row" where
  "join_rows a b = a @ b"

definition join_schemas :: "schema \<Rightarrow> schema \<Rightarrow> schema" where
  "join_schemas a b =
     \<lparr>table_name = table_name a @ ''_'' @ table_name b, table_id = 0, columns = columns a @ columns b\<rparr>"

section \<open>Expressions\<close>

fun eval_literal :: "expr \<Rightarrow> value_t res" where
  "eval_literal (IntLiteral i) = Ok (IntValue i)"
| "eval_literal (StringLiteral s) = Ok (StringValue s)"
| "eval_literal (BoolLiteral b) = Ok (BoolValue b)"
| "eval_literal NullLiteral = Ok NullValue"
| "eval_literal _ = Err (EUnsupported ''evalLiteral'')"

fun eval_value :: "expr \<Rightarrow> row \<Rightarrow> schema \<Rightarrow> value_t res" where
  "eval_value (Identifier _ c) r sch =
     (let i = col_index sch c in if i < 0 then Err (EColumnNotFound c) else value_at r i)"
| "eval_value (IntLiteral i) r sch = Ok (IntValue i)"
| "eval_value (StringLiteral s) r sch = Ok (StringValue s)"
| "eval_value (BoolLiteral b) r sch = Ok (BoolValue b)"
| "eval_value NullLiteral r sch = Ok NullValue"
| "eval_value _ r sch = Err (EUnsupported ''evalValue'')"

text \<open>The comparison of two values. The type assertion on the right value panics when its type differs
  from the left one's; every other left value, NULL included, compares as equal.\<close>

fun value_cmp :: "value_t \<Rightarrow> value_t \<Rightarrow> int res" where
  "value_cmp (IntValue a) w =
     (case w of IntValue b \<Rightarrow> Ok (if sint a < sint b then -1 else if sint b < sint a then 1 else 0) | _ \<Rightarrow> Panic)"
| "value_cmp (StringValue a) w =
     (case w of StringValue b \<Rightarrow> Ok (if a < b then -1 else if b < a then 1 else 0) | _ \<Rightarrow> Panic)"
| "value_cmp (BoolValue a) w = Ok 0"
| "value_cmp NullValue w = Ok 0"

definition op_holds :: "operator_type \<Rightarrow> int \<Rightarrow> bool res" where
  "op_holds op cmp =
     (case op of
        OpEQ \<Rightarrow> Ok (cmp = 0) | OpNEQ \<Rightarrow> Ok (cmp \<noteq> 0) | OpLT \<Rightarrow> Ok (cmp < 0) | OpGT \<Rightarrow> Ok (cmp > 0)
      | OpLTE \<Rightarrow> Ok (cmp \<le> 0) | OpGTE \<Rightarrow> Ok (cmp \<ge> 0) | _ \<Rightarrow> Err (EUnsupported ''evalBinary''))"

text \<open>\<open>evalCond\<close> and \<open>evalBinary\<close>.\<close>

fun eval_cond :: "expr \<Rightarrow> row \<Rightarrow> schema \<Rightarrow> bool res" where
  "eval_cond (BinaryExpr l op r) row sch =
     (if op = OpAND then
        bindR (eval_cond l row sch) (\<lambda>b. if \<not> b then Ok False else eval_cond r row sch)
      else if op = OpOR then
        bindR (eval_cond l row sch) (\<lambda>b. if b then Ok True else eval_cond r row sch)
      else
        bindR (eval_value l row sch) (\<lambda>lv.
        bindR (eval_value r row sch) (\<lambda>rv.
        bindR (value_cmp lv rv) (\<lambda>cmp. op_holds op cmp))))"
| "eval_cond (UnaryExpr op e) row sch =
     (if op = ''NOT'' then bindR (eval_cond e row sch) (\<lambda>b. Ok (\<not> b)) else Err (EUnsupported ''evalCond''))"
| "eval_cond (IsNullExpr e) row sch = bindR (eval_value e row sch) (\<lambda>v. Ok (v = NullValue))"
| "eval_cond (IsNotNullExpr e) row sch = bindR (eval_value e row sch) (\<lambda>v. Ok (v \<noteq> NullValue))"
| "eval_cond _ row sch = Err (EUnsupported ''evalCond'')"

definition eval_gcond :: "expr option \<Rightarrow> row \<Rightarrow> schema \<Rightarrow> bool res" where
  "eval_gcond c row sch = (case c of None \<Rightarrow> Err (EUnsupported ''evalCond'') | Some e \<Rightarrow> eval_cond e row sch)"

text \<open>A \<open>WHERE\<close> that is absent lets every row pass.\<close>

definition where_holds :: "expr option \<Rightarrow> row \<Rightarrow> schema \<Rightarrow> bool res" where
  "where_holds wh row sch = (case wh of None \<Rightarrow> Ok True | Some e \<Rightarrow> eval_cond e row sch)"

section \<open>Executors\<close>

text \<open>The operations of \<open>TableRepository\<close> the executors call.\<close>

record 's repository =
  repo_open_table :: "string \<Rightarrow> schema \<Rightarrow> ('s, unit) go"
  repo_find_by_pk :: "string \<Rightarrow> value_t \<Rightarrow> ('s, row option) go"
  repo_scan :: "string \<Rightarrow> ('s, row list) go"
  repo_insert :: "string \<Rightarrow> row \<Rightarrow> u64 \<Rightarrow> ('s, unit) go"
  repo_update :: "string \<Rightarrow> value_t \<Rightarrow> row \<Rightarrow> u64 \<Rightarrow> ('s, unit) go"
  repo_delete :: "string \<Rightarrow> value_t \<Rightarrow> u64 \<Rightarrow> ('s, unit) go"

datatype exec =
    SeqScanExecutor string schema "row list" nat bool
  | IndexScanExecutor string schema expr bool
  | FilterExecutor exec expr
  | ProjectionExecutor exec "expr list" schema
  | NestedLoopJoinExecutor exec exec "expr option" "row option" "row list" nat bool
  | SortExecutor exec string bool "row list" nat bool
  | LimitExecutor exec int int
  | InsertExecutor string schema "expr list" u64 bool
  | UpdateExecutor string schema "assignment list" "expr option" u64 bool
  | DeleteExecutor string schema "expr option" u64 bool

fun exec_schema :: "exec \<Rightarrow> schema" where
  "exec_schema (SeqScanExecutor _ sch _ _ _) = sch"
| "exec_schema (IndexScanExecutor _ sch _ _) = sch"
| "exec_schema (FilterExecutor child _) = exec_schema child"
| "exec_schema (ProjectionExecutor _ _ sch) = sch"
| "exec_schema (NestedLoopJoinExecutor l r _ _ _ _ _) = join_schemas (exec_schema l) (exec_schema r)"
| "exec_schema (SortExecutor child _ _ _ _ _) = exec_schema child"
| "exec_schema (LimitExecutor child _ _) = exec_schema child"
| "exec_schema (InsertExecutor _ sch _ _ _) = sch"
| "exec_schema (UpdateExecutor _ sch _ _ _ _) = sch"
| "exec_schema (DeleteExecutor _ sch _ _ _) = sch"

text \<open>\<open>build\<close>: the executor of a plan. A node that is not a query or a change is an error.\<close>

fun build :: "plan \<Rightarrow> u64 \<Rightarrow> exec res" where
  "build (SequentialScanNode t sch) txn = Ok (SeqScanExecutor t sch [] 0 False)"
| "build (IndexScanNode t sch pe) txn = Ok (IndexScanExecutor t sch pe False)"
| "build (FilterNode n c) txn = bindR (build n txn) (\<lambda>child. Ok (FilterExecutor child c))"
| "build (ProjectionNode n cols) txn =
     bindR (build n txn) (\<lambda>child. Ok (ProjectionExecutor child cols (exec_schema child)))"
| "build (NestedLoopJoinNode l r c) txn =
     bindR (build l txn) (\<lambda>le. bindR (build r txn) (\<lambda>ri. Ok (NestedLoopJoinExecutor le ri c None [] 0 False)))"
| "build (SortNode n col desc) txn = bindR (build n txn) (\<lambda>child. Ok (SortExecutor child col desc [] 0 False))"
| "build (LimitNode n k) txn = bindR (build n txn) (\<lambda>child. Ok (LimitExecutor child k 0))"
| "build (InsertNode t sch vs) txn = Ok (InsertExecutor t sch vs txn False)"
| "build (UpdateNode t sch as wh) txn = Ok (UpdateExecutor t sch as wh txn False)"
| "build (DeleteNode t sch wh) txn = Ok (DeleteExecutor t sch wh txn False)"
| "build _ txn = Err (EUnsupported ''plan node'')"

section \<open>The steps of single executors\<close>

text \<open>Projection of a row on the listed columns.\<close>

fun project_columns :: "expr list \<Rightarrow> row \<Rightarrow> schema \<Rightarrow> row res" where
  "project_columns [] r sch = Ok []"
| "project_columns (e # es) r sch =
     (case e of
        Identifier _ c \<Rightarrow>
          (let i = col_index sch c in
           if i < 0 then Err (EColumnNotFound c)
           else bindR (value_at r i) (\<lambda>v. bindR (project_columns es r sch) (\<lambda>vs. Ok (v # vs))))
      | _ \<Rightarrow> Err (EUnsupported ''projection''))"

definition project_row :: "expr list \<Rightarrow> row \<Rightarrow> schema \<Rightarrow> row res" where
  "project_row cols r sch =
     (case cols of [] \<Rightarrow> Panic | c # _ \<Rightarrow> if c = Wildcard then Ok r else project_columns cols r sch)"

text \<open>The inner loop of the join: the rows of the right side from a position on, up to a match.\<close>

fun join_probe :: "expr option \<Rightarrow> schema \<Rightarrow> row \<Rightarrow> row list \<Rightarrow> nat \<Rightarrow> (row option \<times> nat) res" where
  "join_probe c sch l [] pos = Ok (None, pos)"
| "join_probe c sch l (r # rs) pos =
     bindR (eval_gcond c (join_rows l r) sch) (\<lambda>b.
     if b then Ok (Some (join_rows l r), pos + 1) else join_probe c sch l rs (pos + 1))"

text \<open>\<open>sort.SliceStable\<close>: the insertion sort the library runs on blocks of up to 20 rows; on longer slices
  it merges such blocks, with the same result for an order that does not panic. The sorted part is
  kept in reverse.\<close>

fun insert_back :: "('a \<Rightarrow> 'a \<Rightarrow> bool res) \<Rightarrow> 'a \<Rightarrow> 'a list \<Rightarrow> 'a list res" where
  "insert_back lt x [] = Ok [x]"
| "insert_back lt x (y # ys) =
     bindR (lt x y) (\<lambda>b. if b then bindR (insert_back lt x ys) (\<lambda>zs. Ok (y # zs)) else Ok (x # y # ys))"

fun insertion_sort :: "('a \<Rightarrow> 'a \<Rightarrow> bool res) \<Rightarrow> 'a list \<Rightarrow> 'a list \<Rightarrow> 'a list res" where
  "insertion_sort lt acc [] = Ok (rev acc)"
| "insertion_sort lt acc (x # xs) = bindR (insert_back lt x acc) (\<lambda>acc'. insertion_sort lt acc' xs)"

definition row_less :: "int \<Rightarrow> bool \<Rightarrow> row \<Rightarrow> row \<Rightarrow> bool res" where
  "row_less idx desc a b =
     bindR (value_at a idx) (\<lambda>x.
     bindR (value_at b idx) (\<lambda>y.
     bindR (value_cmp x y) (\<lambda>cmp. Ok (if desc then cmp > 0 else cmp < 0))))"

definition sort_rows :: "int \<Rightarrow> bool \<Rightarrow> row list \<Rightarrow> row list res" where
  "sort_rows idx desc rs = insertion_sort (row_less idx desc) [] rs"

fun eval_literals :: "expr list \<Rightarrow> value_t list res" where
  "eval_literals [] = Ok []"
| "eval_literals (e # es) = bindR (eval_literal e) (\<lambda>v. bindR (eval_literals es) (\<lambda>vs. Ok (v # vs)))"

text \<open>The assignments of an \<open>UPDATE\<close>, applied to a copy of the row.\<close>

fun apply_assignments :: "assignment list \<Rightarrow> schema \<Rightarrow> row \<Rightarrow> row res" where
  "apply_assignments [] sch r = Ok r"
| "apply_assignments (a # as) sch r =
     (let i = col_index sch (as_column a) in
      if i < 0 then Err (EColumnNotFound (as_column a))
      else bindR (eval_literal (as_value a)) (\<lambda>v.
           bindR (set_value_at r i v) (\<lambda>r'. apply_assignments as sch r')))"

text \<open>The loops over the scanned rows in \<open>UPDATE\<close> and \<open>DELETE\<close>.\<close>

fun update_rows ::
  "'s repository \<Rightarrow> string \<Rightarrow> schema \<Rightarrow> assignment list \<Rightarrow> expr option \<Rightarrow> u64 \<Rightarrow> row list \<Rightarrow> ('s, unit) go" where
  "update_rows R t sch as wh txn [] = ret ()"
| "update_rows R t sch as wh txn (r # rs) =
     bindG (pureG (where_holds wh r sch)) (\<lambda>ok.
     if \<not> ok then update_rows R t sch as wh txn rs
     else
       bindG (pureG (apply_assignments as sch r)) (\<lambda>updated.
       bindG (pureG (value_at r (primary_key_index sch))) (\<lambda>pk.
       bindG (repo_update R t pk updated txn) (\<lambda>_.
       update_rows R t sch as wh txn rs))))"

fun delete_rows :: "'s repository \<Rightarrow> string \<Rightarrow> schema \<Rightarrow> expr option \<Rightarrow> u64 \<Rightarrow> row list \<Rightarrow> ('s, unit) go" where
  "delete_rows R t sch wh txn [] = ret ()"
| "delete_rows R t sch wh txn (r # rs) =
     bindG (pureG (where_holds wh r sch)) (\<lambda>ok.
     if \<not> ok then delete_rows R t sch wh txn rs
     else
       bindG (pureG (value_at r (primary_key_index sch))) (\<lambda>pk.
       bindG (repo_delete R t pk txn) (\<lambda>_.
       delete_rows R t sch wh txn rs)))"

section \<open>Next\<close>

text \<open>One definition per executor for its \<open>Next\<close>. \<open>next\<close> is \<open>Next\<close> of the executors it calls (its children,
  and itself where the Go code goes round its loop), \<open>dr\<close> the loop that collects all rows of a child.\<close>

type_synonym 's next_fun = "exec \<Rightarrow> ('s, row option \<times> exec) go"
type_synonym 's drain_fun = "exec \<Rightarrow> ('s, row list \<times> exec) go"

definition seq_scan_next ::
  "'s repository \<Rightarrow> string \<Rightarrow> schema \<Rightarrow> row list \<Rightarrow> nat \<Rightarrow> bool \<Rightarrow> ('s, row option \<times> exec) go" where
  "seq_scan_next R t sch rows pos loaded =
     bindG (if loaded then ret rows else repo_scan R t) (\<lambda>rs.
     if pos \<ge> length rs then ret (None, SeqScanExecutor t sch rs pos True)
     else ret (Some (rs ! pos), SeqScanExecutor t sch rs (pos + 1) True))"

definition index_scan_next ::
  "'s repository \<Rightarrow> string \<Rightarrow> schema \<Rightarrow> expr \<Rightarrow> bool \<Rightarrow> ('s, row option \<times> exec) go" where
  "index_scan_next R t sch pe done =
     (if done then ret (None, IndexScanExecutor t sch pe done)
      else
        (case pe of
           BinaryExpr _ _ r \<Rightarrow>
             bindG (pureG (eval_literal r)) (\<lambda>v.
             bindG (repo_find_by_pk R t v) (\<lambda>row. ret (row, IndexScanExecutor t sch pe True)))
         | _ \<Rightarrow> fail (EUnsupported ''IndexScan'')))"

definition filter_next :: "'s next_fun \<Rightarrow> exec \<Rightarrow> expr \<Rightarrow> ('s, row option \<times> exec) go" where
  "filter_next next child c =
     bindG (next child) (\<lambda>(row, child').
     case row of
       None \<Rightarrow> ret (None, FilterExecutor child' c)
     | Some r \<Rightarrow>
         bindG (pureG (eval_cond c r (exec_schema child'))) (\<lambda>ok.
         if ok then ret (Some r, FilterExecutor child' c) else next (FilterExecutor child' c)))"

definition projection_next ::
  "'s next_fun \<Rightarrow> exec \<Rightarrow> expr list \<Rightarrow> schema \<Rightarrow> ('s, row option \<times> exec) go" where
  "projection_next next child cols sch =
     bindG (next child) (\<lambda>(row, child').
     case row of
       None \<Rightarrow> ret (None, ProjectionExecutor child' cols sch)
     | Some r \<Rightarrow>
         bindG (pureG (project_row cols r (exec_schema child'))) (\<lambda>r'.
         ret (Some r', ProjectionExecutor child' cols sch)))"

definition join_next ::
  "'s next_fun \<Rightarrow> 's drain_fun \<Rightarrow> exec \<Rightarrow> exec \<Rightarrow> expr option \<Rightarrow> row option \<Rightarrow> row list \<Rightarrow> nat \<Rightarrow> bool \<Rightarrow>
   ('s, row option \<times> exec) go" where
  "join_next next dr le ri c left_row right_rows pos loaded =
     (case left_row of
        None \<Rightarrow>
          bindG (next le) (\<lambda>(row, le').
          case row of
            None \<Rightarrow> ret (None, NestedLoopJoinExecutor le' ri c None right_rows pos loaded)
          | Some l \<Rightarrow> next (NestedLoopJoinExecutor le' ri c (Some l) [] 0 False))
      | Some l \<Rightarrow>
          if \<not> loaded then
            bindG (dr ri) (\<lambda>(rs, ri').
            next (NestedLoopJoinExecutor le ri' c (Some l) (right_rows @ rs) pos True))
          else
            bindG (pureG (join_probe c (join_schemas (exec_schema le) (exec_schema ri)) l (drop pos right_rows) pos))
              (\<lambda>(row, pos').
              case row of
                Some r \<Rightarrow> ret (Some r, NestedLoopJoinExecutor le ri c (Some l) right_rows pos' True)
              | None \<Rightarrow> next (NestedLoopJoinExecutor le ri c None right_rows pos' True)))"

definition sort_next ::
  "'s drain_fun \<Rightarrow> exec \<Rightarrow> string \<Rightarrow> bool \<Rightarrow> row list \<Rightarrow> nat \<Rightarrow> bool \<Rightarrow> ('s, row option \<times> exec) go" where
  "sort_next dr child col desc rows pos loaded =
     bindG (if loaded then ret (rows, child)
            else bindG (dr child) (\<lambda>(rs, child').
                 bindG (pureG (sort_rows (col_index (exec_schema child') col) desc (rows @ rs))) (\<lambda>sorted.
                 ret (sorted, child')))) (\<lambda>(rs, child').
     if pos \<ge> length rs then ret (None, SortExecutor child' col desc rs pos True)
     else ret (Some (rs ! pos), SortExecutor child' col desc rs (pos + 1) True))"

definition limit_next :: "'s next_fun \<Rightarrow> exec \<Rightarrow> int \<Rightarrow> int \<Rightarrow> ('s, row option \<times> exec) go" where
  "limit_next next child k i =
     (if i \<ge> k then ret (None, LimitExecutor child k i)
      else
        bindG (next child) (\<lambda>(row, child').
        case row of
          None \<Rightarrow> ret (None, LimitExecutor child' k i)
        | Some r \<Rightarrow> ret (Some r, LimitExecutor child' k (i + 1))))"

definition insert_next ::
  "'s repository \<Rightarrow> string \<Rightarrow> schema \<Rightarrow> expr list \<Rightarrow> u64 \<Rightarrow> bool \<Rightarrow> ('s, row option \<times> exec) go" where
  "insert_next R t sch vs txn done =
     (if done then ret (None, InsertExecutor t sch vs txn done)
      else
        bindG (pureG (eval_literals vs)) (\<lambda>r.
        bindG (repo_insert R t r txn) (\<lambda>_. ret (None, InsertExecutor t sch vs txn True))))"

definition update_next ::
  "'s repository \<Rightarrow> string \<Rightarrow> schema \<Rightarrow> assignment list \<Rightarrow> expr option \<Rightarrow> u64 \<Rightarrow> bool \<Rightarrow>
   ('s, row option \<times> exec) go" where
  "update_next R t sch as wh txn done =
     (if done then ret (None, UpdateExecutor t sch as wh txn done)
      else
        bindG (repo_scan R t) (\<lambda>rows.
        bindG (update_rows R t sch as wh txn rows) (\<lambda>_. ret (None, UpdateExecutor t sch as wh txn True))))"

definition delete_next ::
  "'s repository \<Rightarrow> string \<Rightarrow> schema \<Rightarrow> expr option \<Rightarrow> u64 \<Rightarrow> bool \<Rightarrow> ('s, row option \<times> exec) go" where
  "delete_next R t sch wh txn done =
     (if done then ret (None, DeleteExecutor t sch wh txn done)
      else
        bindG (repo_scan R t) (\<lambda>rows.
        bindG (delete_rows R t sch wh txn rows) (\<lambda>_. ret (None, DeleteExecutor t sch wh txn True))))"

text \<open>\<open>exec_next\<close> is the dynamic dispatch of \<open>Next\<close>; \<open>drain\<close> is \<open>for \{ row := child.Next() ... \}\<close> up to \<open>nil\<close>.\<close>

fun exec_next :: "nat \<Rightarrow> 's repository \<Rightarrow> exec \<Rightarrow> ('s, row option \<times> exec) go"
  and drain :: "nat \<Rightarrow> 's repository \<Rightarrow> exec \<Rightarrow> ('s, row list \<times> exec) go" where
  "exec_next 0 R e = stuck"
| "exec_next (Suc n) R (SeqScanExecutor t sch rows pos loaded) = seq_scan_next R t sch rows pos loaded"
| "exec_next (Suc n) R (IndexScanExecutor t sch pe done) = index_scan_next R t sch pe done"
| "exec_next (Suc n) R (FilterExecutor child c) = filter_next (exec_next n R) child c"
| "exec_next (Suc n) R (ProjectionExecutor child cols sch) = projection_next (exec_next n R) child cols sch"
| "exec_next (Suc n) R (NestedLoopJoinExecutor le ri c left_row right_rows pos loaded) =
     join_next (exec_next n R) (drain n R) le ri c left_row right_rows pos loaded"
| "exec_next (Suc n) R (SortExecutor child col desc rows pos loaded) =
     sort_next (drain n R) child col desc rows pos loaded"
| "exec_next (Suc n) R (LimitExecutor child k i) = limit_next (exec_next n R) child k i"
| "exec_next (Suc n) R (InsertExecutor t sch vs txn done) = insert_next R t sch vs txn done"
| "exec_next (Suc n) R (UpdateExecutor t sch as wh txn done) = update_next R t sch as wh txn done"
| "exec_next (Suc n) R (DeleteExecutor t sch wh txn done) = delete_next R t sch wh txn done"
| "drain 0 R e = stuck"
| "drain (Suc n) R e =
     bindG (exec_next n R e) (\<lambda>(row, e').
     case row of
       None \<Rightarrow> ret ([], e')
     | Some r \<Rightarrow> bindG (drain n R e') (\<lambda>(rs, e''). ret (r # rs, e'')))"

section \<open>Running a plan\<close>

text \<open>\<open>executeLocked\<close>: the rows of the plan, up to the first error. \<open>ctx i\<close> says whether the context is done
  when the loop is entered for the \<open>i\<close>-th time.\<close>

record result =
  res_rows :: "row list"
  res_affected :: int
  res_schema :: "schema option"

fun result_loop :: "nat \<Rightarrow> 's repository \<Rightarrow> (nat \<Rightarrow> bool) \<Rightarrow> nat \<Rightarrow> exec \<Rightarrow> ('s, row list) go" where
  "result_loop 0 R ctx i e = stuck"
| "result_loop (Suc n) R ctx i e =
     (if ctx i then fail ECancelled
      else bindG (exec_next n R e) (\<lambda>(row, e').
           case row of
             None \<Rightarrow> ret []
           | Some r \<Rightarrow> bindG (result_loop n R ctx (i + 1) e') (\<lambda>rs. ret (r # rs))))"

definition execute_locked :: "nat \<Rightarrow> 's repository \<Rightarrow> (nat \<Rightarrow> bool) \<Rightarrow> plan \<Rightarrow> u64 \<Rightarrow> ('s, result) go" where
  "execute_locked n R ctx node txn =
     bindG (pureG (build node txn)) (\<lambda>e.
     bindG (result_loop n R ctx 0 e) (\<lambda>rows.
     ret \<lparr>res_rows = rows, res_affected = 0, res_schema = Some (exec_schema e)\<rparr>))"

fun table_names_of :: "plan \<Rightarrow> string list" where
  "table_names_of (SequentialScanNode t _) = [t]"
| "table_names_of (IndexScanNode t _ _) = [t]"
| "table_names_of (FilterNode n _) = table_names_of n"
| "table_names_of (ProjectionNode n _) = table_names_of n"
| "table_names_of (NestedLoopJoinNode l r _) = table_names_of l @ table_names_of r"
| "table_names_of (SortNode n _ _) = table_names_of n"
| "table_names_of (LimitNode n _) = table_names_of n"
| "table_names_of _ = []"

end
