(* ===== verification/Query.thy ===== *)
theory Query
  imports Executor
begin

text \<open>
  The outcome of a plan, and that the executors compute it. The outcome (\<open>meaning\<close>) is the list of rows the
  code delivers together with how the run ends (\<open>Ok ()\<close>, an error or a panic), computed from the contents of
  the tables with no executor state. It is what the code does, its faults included; what SQL means by a query
  is defined on its own in \<open>Relational\<close>. The locale \<open>table_reader\<close> is the contract of the repository that
  reading relies on.
\<close>

section \<open>The outcome of a plan\<close>

type_synonym outcome = "row list \<times> unit res"

text \<open>Rows are passed through \<open>f\<close> one at a time, up to the first failure.\<close>

fun run_map :: "('a \<Rightarrow> 'b option res) \<Rightarrow> 'a list \<Rightarrow> unit res \<Rightarrow> 'b list \<times> unit res" where
  "run_map f [] fin = ([], fin)"
| "run_map f (x # xs) fin =
     (case f x of
        Ok None \<Rightarrow> run_map f xs fin
      | Ok (Some y) \<Rightarrow> (case run_map f xs fin of (ys, e) \<Rightarrow> (y # ys, e))
      | Err e \<Rightarrow> ([], Err e) | Panic \<Rightarrow> ([], Panic) | Stuck \<Rightarrow> ([], Stuck))"

definition keep_if :: "expr \<Rightarrow> schema \<Rightarrow> row \<Rightarrow> row option res" where
  "keep_if c sch r = bindR (eval_cond c r sch) (\<lambda>b. Ok (if b then Some r else None))"

definition project_as :: "expr list \<Rightarrow> schema \<Rightarrow> row \<Rightarrow> row option res" where
  "project_as cols sch r = bindR (project_row cols r sch) (\<lambda>r'. Ok (Some r'))"

definition joined_if :: "expr option \<Rightarrow> schema \<Rightarrow> row \<Rightarrow> row \<Rightarrow> row option res" where
  "joined_if c sch l r = bindR (eval_gcond c (join_rows l r) sch) (\<lambda>b. Ok (if b then Some (join_rows l r) else None))"

fun plan_output :: "plan \<Rightarrow> schema" where
  "plan_output (SequentialScanNode t sch) = sch"
| "plan_output (IndexScanNode t sch pe) = sch"
| "plan_output (FilterNode p c) = plan_output p"
| "plan_output (ProjectionNode p cols) = plan_output p"
| "plan_output (NestedLoopJoinNode l r c) = join_schemas (plan_output l) (plan_output r)"
| "plan_output (SortNode p col desc) = plan_output p"
| "plan_output (LimitNode p k) = plan_output p"
| "plan_output (InsertNode t sch vs) = sch"
| "plan_output (UpdateNode t sch as wh) = sch"
| "plan_output (DeleteNode t sch wh) = sch"
| "plan_output _ = \<lparr>table_name = [], table_id = 0, columns = []\<rparr>"

text \<open>The join probes the right table for the first left row only: its executor reads the rows of the
  right side once and finds the right side exhausted at every later left row.\<close>

fun meaning :: "(string \<Rightarrow> row list) \<Rightarrow> (string \<Rightarrow> value_t \<Rightarrow> row option) \<Rightarrow> plan \<Rightarrow> outcome" where
  "meaning db look (SequentialScanNode t sch) = (db t, Ok ())"
| "meaning db look (IndexScanNode t sch pe) =
     (case pe of
        BinaryExpr _ _ r \<Rightarrow>
          (case eval_literal r of
             Ok v \<Rightarrow> (case look t v of None \<Rightarrow> ([], Ok ()) | Some x \<Rightarrow> ([x], Ok ()))
           | Err e \<Rightarrow> ([], Err e) | Panic \<Rightarrow> ([], Panic) | Stuck \<Rightarrow> ([], Stuck))
      | _ \<Rightarrow> ([], Err (EUnsupported ''IndexScan'')))"
| "meaning db look (FilterNode p c) = (case meaning db look p of (rs, fin) \<Rightarrow> run_map (keep_if c (plan_output p)) rs fin)"
| "meaning db look (ProjectionNode p cols) =
     (case meaning db look p of (rs, fin) \<Rightarrow> run_map (project_as cols (plan_output p)) rs fin)"
| "meaning db look (NestedLoopJoinNode l r c) =
     (case meaning db look l of
        ([], fin) \<Rightarrow> ([], fin)
      | (x # xs, fin) \<Rightarrow>
          run_map (joined_if c (join_schemas (plan_output l) (plan_output r)) x) (fst (meaning db look r)) fin)"
| "meaning db look (SortNode p col desc) =
     (case meaning db look p of
        (rs, Ok _) \<Rightarrow>
          (case sort_rows (col_index (plan_output p) col) desc rs of
             Ok rs' \<Rightarrow> (rs', Ok ()) | Err e \<Rightarrow> ([], Err e) | Panic \<Rightarrow> ([], Panic) | Stuck \<Rightarrow> ([], Stuck))
      | (rs, fin) \<Rightarrow> ([], fin))"
| "meaning db look (LimitNode p k) =
     (case meaning db look p of
        (rs, fin) \<Rightarrow> if k \<le> int (length rs) then (take (nat k) rs, Ok ()) else (rs, fin))"
| "meaning db look _ = ([], Err (EUnsupported ''plan node''))"

text \<open>What reading a plan asks of the database: its tables are open, and the key of an index scan fits
  the table.\<close>

fun plan_readable :: "(string \<Rightarrow> bool) \<Rightarrow> (string \<Rightarrow> value_t \<Rightarrow> bool) \<Rightarrow> plan \<Rightarrow> bool" where
  "plan_readable opened fits (SequentialScanNode t sch) = opened t"
| "plan_readable opened fits (IndexScanNode t sch pe) =
     (opened t \<and> (case pe of
        BinaryExpr _ _ r \<Rightarrow> (case eval_literal r of Ok v \<Rightarrow> fits t v | _ \<Rightarrow> True)
      | _ \<Rightarrow> True))"
| "plan_readable opened fits (FilterNode p c) = plan_readable opened fits p"
| "plan_readable opened fits (ProjectionNode p cols) = plan_readable opened fits p"
| "plan_readable opened fits (NestedLoopJoinNode l r c) = (plan_readable opened fits l \<and> plan_readable opened fits r)"
| "plan_readable opened fits (SortNode p col desc) = plan_readable opened fits p"
| "plan_readable opened fits (LimitNode p k) = plan_readable opened fits p"
| "plan_readable opened fits _ = True"

section \<open>Reading through a repository\<close>

locale table_reader =
  fixes R :: "'s repository"
    and good :: "'s \<Rightarrow> bool"
    and is_open :: "string \<Rightarrow> bool"
    and fits :: "string \<Rightarrow> value_t \<Rightarrow> bool"
    and db :: "string \<Rightarrow> row list"
    and look :: "string \<Rightarrow> value_t \<Rightarrow> row option"
  assumes scan_table: "good s \<Longrightarrow> is_open t \<Longrightarrow> \<exists>s'. good s' \<and> repo_scan R t s = (Ok (db t), s')"
    and find_row: "good s \<Longrightarrow> is_open t \<Longrightarrow> fits t v \<Longrightarrow> \<exists>s'. good s' \<and> repo_find_by_pk R t v s = (Ok (look t v), s')"
begin

text \<open>\<open>settles F x\<close>: with enough fuel \<open>F\<close> ends with \<open>x\<close> in every good state.\<close>

definition settles :: "(nat \<Rightarrow> 's \<Rightarrow> 'a \<times> 's) \<Rightarrow> 'a \<Rightarrow> bool" where
  "settles F x \<longleftrightarrow> (\<exists>N. \<forall>s. good s \<longrightarrow> (\<exists>s'. good s' \<and> (\<forall>n \<ge> N. F n s = (x, s'))))"

abbreviation gives :: "exec \<Rightarrow> (row option \<times> exec) res \<Rightarrow> bool" where
  "gives e \<equiv> settles (\<lambda>n. exec_next n R e)"

abbreviation drains :: "exec \<Rightarrow> (row list \<times> exec) res \<Rightarrow> bool" where
  "drains e \<equiv> settles (\<lambda>n. drain n R e)"

inductive yields :: "exec \<Rightarrow> row list \<Rightarrow> unit res \<Rightarrow> bool" where
  ends: "gives e (Ok (None, e')) \<Longrightarrow> exec_schema e' = exec_schema e \<Longrightarrow> yields e [] (Ok ())"
| fails: "gives e (bindR y (\<lambda>_. Ok (None, e))) \<Longrightarrow> y \<noteq> Ok () \<Longrightarrow> yields e [] y"
| row: "gives e (Ok (Some r, e')) \<Longrightarrow> exec_schema e' = exec_schema e \<Longrightarrow> yields e' rs fin \<Longrightarrow> yields e (r # rs) fin"

lemma settles_once:
  assumes "\<And>s. good s \<Longrightarrow> \<exists>s'. good s' \<and> (\<forall>n. F (Suc n) s = (x, s'))"
  shows "settles F x"
  unfolding settles_def
proof (intro exI [of _ 1] allI impI)
  fix s assume "good s"
  then obtain s' where s': "good s'" "\<forall>n. F (Suc n) s = (x, s')"
    using assms by blast
  have "F n s = (x, s')" if "n \<ge> 1" for n
    using s'(2) that by (cases n) auto
  with s'(1) show "\<exists>s'. good s' \<and> (\<forall>n\<ge>1. F n s = (x, s'))"
    by blast
qed

lemma settles_const: "(\<And>s n. good s \<Longrightarrow> F (Suc n) s = (x, s)) \<Longrightarrow> settles F x"
  by (rule settles_once) blast

lemma settles_return: "settles (\<lambda>n s. (x, s)) x"
  by (rule settles_const) simp

text \<open>One run, then another.\<close>

lemma settles_bind:
  assumes a: "settles F y" and b: "settles G x" and e: "\<And>n s u. F n s = (y, u) \<Longrightarrow> H (Suc n) s = G n u"
  shows "settles H x"
proof -
  obtain N1 where N1: "\<And>s. good s \<Longrightarrow> \<exists>s'. good s' \<and> (\<forall>n \<ge> N1. F n s = (y, s'))"
    using a by (auto simp: settles_def)
  obtain N2 where N2: "\<And>s. good s \<Longrightarrow> \<exists>s'. good s' \<and> (\<forall>n \<ge> N2. G n s = (x, s'))"
    using b by (auto simp: settles_def)
  show ?thesis
    unfolding settles_def
  proof (intro exI [of _ "Suc (max N1 N2)"] allI impI)
    fix s assume s: "good s"
    obtain u where u: "good u" "\<forall>n \<ge> N1. F n s = (y, u)"
      using N1 [OF s] by blast
    obtain w where w: "good w" "\<forall>n \<ge> N2. G n u = (x, w)"
      using N2 [OF u(1)] by blast
    have "H n s = (x, w)" if "n \<ge> Suc (max N1 N2)" for n
    proof -
      have n: "n - 1 \<ge> N1" "n - 1 \<ge> N2" "Suc (n - 1) = n"
        using that by auto
      show ?thesis
        using e [of "n - 1" s u] u(2) w(2) n by simp
    qed
    with w(1) show "\<exists>s'. good s' \<and> (\<forall>n\<ge>Suc (max N1 N2). H n s = (x, s'))"
      by blast
  qed
qed

lemma settles_step: "settles F y \<Longrightarrow> (\<And>n s u. F n s = (y, u) \<Longrightarrow> H (Suc n) s = (x, u)) \<Longrightarrow> settles H x"
  by (rule settles_bind [OF _ settles_return])

lemma settles_map: "settles F y \<Longrightarrow> (\<And>n s u. F n s = (y, u) \<Longrightarrow> H n s = (x, u)) \<Longrightarrow> settles H x"
  unfolding settles_def by meson

lemmas gives_step = settles_step [of "\<lambda>n. exec_next n R a" for a]
lemmas gives_again = settles_bind [of "\<lambda>n. exec_next n R a" _ "\<lambda>n. exec_next n R b" for a b]
lemmas gives_const = settles_const [of "\<lambda>n. exec_next n R e" for e]

section \<open>Scans\<close>

lemma yields_loaded: "pos \<le> length rs \<Longrightarrow> yields (SeqScanExecutor t sch rs pos True) (drop pos rs) (Ok ())"
proof (induction "length rs - pos" arbitrary: pos)
  case 0
  then have "gives (SeqScanExecutor t sch rs pos True) (Ok (None, SeqScanExecutor t sch rs pos True))"
    by (intro gives_const) (simp add: seq_scan_next_def bindG_def)
  with 0 show ?case
    by (auto intro: yields.ends)
next
  case (Suc k)
  then have l: "pos < length rs" by simp
  then have "gives (SeqScanExecutor t sch rs pos True) (Ok (Some (rs ! pos), SeqScanExecutor t sch rs (Suc pos) True))"
    by (intro gives_const) (simp add: seq_scan_next_def bindG_def)
  moreover have "yields (SeqScanExecutor t sch rs (Suc pos) True) (drop (Suc pos) rs) (Ok ())"
    using Suc l by (intro Suc.hyps) simp_all
  ultimately show ?case
    unfolding Cons_nth_drop_Suc [OF l, symmetric] by (auto intro: yields.row)
qed

lemma gives_scan:
  assumes "is_open t" "\<And>s n. exec_next (Suc n) R (SeqScanExecutor t sch (db t) 0 True) s = (x, s)"
  shows "gives (SeqScanExecutor t sch [] 0 False) x"
proof (rule settles_once)
  fix s assume s: "good s"
  obtain s' where s': "good s'" "repo_scan R t s = (Ok (db t), s')"
    using scan_table [OF s assms(1)] by blast
  have "exec_next (Suc n) R (SeqScanExecutor t sch [] 0 False) s = (x, s')" for n
    using assms(2) [of n s'] by (simp add: seq_scan_next_def bindG_def s'(2))
  with s'(1) show "\<exists>s'. good s' \<and> (\<forall>n. exec_next (Suc n) R (SeqScanExecutor t sch [] 0 False) s = (x, s'))"
    by blast
qed

lemma yields_scan:
  assumes "is_open t"
  shows "yields (SeqScanExecutor t sch [] 0 False) (db t) (Ok ())"
proof (cases "db t")
  case Nil
  have "gives (SeqScanExecutor t sch [] 0 False) (Ok (None, SeqScanExecutor t sch [] 0 True))"
    using Nil by (intro gives_scan [OF assms]) (simp add: seq_scan_next_def bindG_def)
  then show ?thesis
    unfolding Nil by (rule yields.ends) simp
next
  case (Cons r rs)
  have g: "gives (SeqScanExecutor t sch [] 0 False) (Ok (Some r, SeqScanExecutor t sch (db t) 1 True))"
    using Cons by (intro gives_scan [OF assms]) (simp add: seq_scan_next_def bindG_def)
  have "yields (SeqScanExecutor t sch (db t) 1 True) (drop 1 (db t)) (Ok ())"
    using Cons by (intro yields_loaded) simp
  then have "yields (SeqScanExecutor t sch (db t) 1 True) rs (Ok ())"
    using Cons by simp
  with g show ?thesis
    unfolding Cons by (auto intro: yields.row)
qed

lemma yields_Err: "gives e (Err x) \<Longrightarrow> yields e [] (Err x)"
  and yields_Panic: "gives e Panic \<Longrightarrow> yields e [] Panic"
  and yields_Stuck: "gives e Stuck \<Longrightarrow> yields e [] Stuck"
  by (rule yields.fails; simp)+

lemmas yields_failure = yields_Err yields_Panic yields_Stuck

lemma gives_recast: "y \<noteq> Ok () \<Longrightarrow> gives e (bindR y (\<lambda>_. Ok z)) \<longleftrightarrow> gives e (bindR y (\<lambda>_. Ok w))"
  by (cases y) auto

lemma yields_transfer:
  assumes "yields a rs fin" "\<And>x. gives a x \<Longrightarrow> gives b x" "exec_schema b = exec_schema a"
  shows "yields b rs fin"
  using assms(1)
proof cases
  case (ends e')
  show ?thesis
    unfolding ends by (rule yields.ends [of _ e']) (use ends assms(2,3) in auto)
next
  case fails
  show ?thesis
    unfolding fails by (rule yields.fails [OF iffD1 [OF gives_recast [OF fails(3)] assms(2) [OF fails(2)]] fails(3)])
next
  case (row r e' rs')
  show ?thesis
    unfolding row by (rule yields.row [of _ r e']) (use row assms(2,3) in auto)
qed

text \<open>A failure of a child is the failure of its parent, and so is a failure to evaluate an expression on a
  row of the child.\<close>

lemma yields_child_fails:
  assumes "gives a (bindR y (\<lambda>_. Ok (None, a)))" "y \<noteq> Ok ()"
    and "\<And>n s x u. exec_next n R a s = (x, u) \<Longrightarrow> \<forall>z. x \<noteq> Ok z \<Longrightarrow> exec_next (Suc n) R e s = (x, u)"
  shows "yields e [] y"
proof (rule yields.fails [OF _ assms(2)])
  have n: "\<forall>z. bindR y (\<lambda>_. Ok (None, a)) \<noteq> Ok z"
    using assms(2) by (cases y) auto
  have "gives e (bindR y (\<lambda>_. Ok (None, a)))"
    by (rule gives_step [OF assms(1)]) (rule assms(3), assumption, rule n)
  then show "gives e (bindR y (\<lambda>_. Ok (None, e)))"
    by (rule iffD1 [OF gives_recast [OF assms(2)]])
qed

lemma yields_row_fails:
  assumes "gives a z" "y \<noteq> Ok ()"
    and "\<And>n s u. exec_next n R a s = (z, u) \<Longrightarrow> exec_next (Suc n) R e s = (bindR y (\<lambda>_. Ok (None, e)), u)"
  shows "yields e [] y"
proof (rule yields.fails [OF _ assms(2)])
  show "gives e (bindR y (\<lambda>_. Ok (None, e)))"
    by (rule gives_step [OF assms(1)]) (rule assms(3))
qed

lemma yields_done: "(\<And>s n. good s \<Longrightarrow> exec_next (Suc n) R e s = (Ok (None, e), s)) \<Longrightarrow> yields e [] (Ok ())"
  by (rule yields.ends [OF gives_const]) auto

lemma yields_index:
  assumes "is_open t" "\<And>v. eval_literal r = Ok v \<Longrightarrow> fits t v"
  shows "yields (IndexScanExecutor t sch (BinaryExpr l op r) False)
    (fst (meaning db look (IndexScanNode t sch (BinaryExpr l op r))))
    (snd (meaning db look (IndexScanNode t sch (BinaryExpr l op r))))"
proof (cases "eval_literal r")
  case (Ok v)
  let ?e = "IndexScanExecutor t sch (BinaryExpr l op r)"
  have g: "gives (?e False) (Ok (look t v, ?e True))"
  proof (rule settles_once)
    fix s assume s: "good s"
    obtain s' where s': "good s'" "repo_find_by_pk R t v s = (Ok (look t v), s')"
      using find_row [OF s assms(1) assms(2) [OF Ok]] by blast
    have "exec_next (Suc n) R (?e False) s = (Ok (look t v, ?e True), s')" for n
      by (simp add: index_scan_next_def bindG_def pureG_def Ok s'(2))
    with s'(1) show "\<exists>s'. good s' \<and> (\<forall>n. exec_next (Suc n) R (?e False) s = (Ok (look t v, ?e True), s'))"
      by blast
  qed
  have d: "yields (?e True) [] (Ok ())"
    by (rule yields_done) (simp add: index_scan_next_def)
  show ?thesis
  proof (cases "look t v")
    case None
    then show ?thesis
      using yields.ends [of _ "?e True"] g Ok by simp
  next
    case (Some x)
    then show ?thesis
      using yields.row [OF _ _ d, of _ x] g Ok by simp
  qed
qed (auto intro!: yields_failure gives_const simp: index_scan_next_def bindG_def pureG_def)

section \<open>Filters, projections, limits\<close>

lemma yields_filter:
  "yields child rs fin \<Longrightarrow>
   yields (FilterExecutor child c) (fst (run_map (keep_if c (exec_schema child)) rs fin))
     (snd (run_map (keep_if c (exec_schema child)) rs fin))"
proof (induction rule: yields.induct)
  case (ends e e')
  have "gives (FilterExecutor e c) (Ok (None, FilterExecutor e' c))"
    by (rule gives_step [OF ends(1)]) (simp add: filter_next_def bindG_def)
  then show ?case
    using ends(2) by (simp add: yields.ends)
next
  case (fails e y)
  have "yields (FilterExecutor e c) [] y"
    by (rule yields_child_fails [OF fails]) (simp add: filter_next_def bindG_def split: res.split)
  then show ?case by simp
next
  case (row e r e' rs fin)
  let ?F = "\<lambda>e. FilterExecutor e c"
  note step = filter_next_def bindG_def pureG_def row(2)
  show ?case
  proof (cases "eval_cond c r (exec_schema e)")
    case (Ok b)
    show ?thesis
    proof (cases b)
      case True
      have "gives (?F e) (Ok (Some r, ?F e'))"
        by (rule gives_step [OF row(1)]) (simp add: step Ok True)
      from yields.row [OF this _ row.IH] row(2) Ok True show ?thesis
        by (simp add: keep_if_def case_prod_beta)
    next
      case False
      have "gives (?F e) x" if "gives (?F e') x" for x
        by (rule gives_again [OF row(1) that]) (simp add: step Ok False)
      from yields_transfer [OF row.IH this] row(2) Ok False show ?thesis
        by (simp add: keep_if_def)
    qed
  next
    case (Err x)
    have "yields (?F e) [] (Err x)"
      by (rule yields_row_fails [OF row(1)]) (simp_all add: step Err)
    with Err show ?thesis by (simp add: keep_if_def)
  next
    case Panic
    have "yields (?F e) [] Panic"
      by (rule yields_row_fails [OF row(1)]) (simp_all add: step Panic)
    with Panic show ?thesis by (simp add: keep_if_def)
  next
    case Stuck
    have "yields (?F e) [] Stuck"
      by (rule yields_row_fails [OF row(1)]) (simp_all add: step Stuck)
    with Stuck show ?thesis by (simp add: keep_if_def)
  qed
qed

lemma yields_projection:
  "yields child rs fin \<Longrightarrow> exec_schema child = sch \<Longrightarrow>
   yields (ProjectionExecutor child cols sch) (fst (run_map (project_as cols sch) rs fin))
     (snd (run_map (project_as cols sch) rs fin))"
proof (induction rule: yields.induct)
  case (ends e e')
  have "gives (ProjectionExecutor e cols sch) (Ok (None, ProjectionExecutor e' cols sch))"
    by (rule gives_step [OF ends(1)]) (simp add: projection_next_def bindG_def)
  then show ?case
    by (simp add: yields.ends)
next
  case (fails e y)
  have "yields (ProjectionExecutor e cols sch) [] y"
    by (rule yields_child_fails [OF fails(1,2)]) (simp add: projection_next_def bindG_def split: res.split)
  then show ?case by simp
next
  case (row e r e' rs fin)
  let ?P = "\<lambda>e. ProjectionExecutor e cols sch"
  have sch: "exec_schema e' = sch" using row(2,5) by simp
  note step = projection_next_def bindG_def pureG_def sch
  show ?case
  proof (cases "project_row cols r sch")
    case (Ok r')
    have "gives (?P e) (Ok (Some r', ?P e'))"
      by (rule gives_step [OF row(1)]) (simp add: step Ok)
    from yields.row [OF this _ row.IH [OF sch]] Ok show ?thesis
      by (simp add: project_as_def case_prod_beta)
  next
    case (Err x)
    have "yields (?P e) [] (Err x)"
      by (rule yields_row_fails [OF row(1)]) (simp_all add: step Err)
    with Err show ?thesis by (simp add: project_as_def)
  next
    case Panic
    have "yields (?P e) [] Panic"
      by (rule yields_row_fails [OF row(1)]) (simp_all add: step Panic)
    with Panic show ?thesis by (simp add: project_as_def)
  next
    case Stuck
    have "yields (?P e) [] Stuck"
      by (rule yields_row_fails [OF row(1)]) (simp_all add: step Stuck)
    with Stuck show ?thesis by (simp add: project_as_def)
  qed
qed

lemma yields_limit:
  "yields child rs fin \<Longrightarrow>
   yields (LimitExecutor child k i) (if k - i \<le> int (length rs) then take (nat (k - i)) rs else rs)
     (if k - i \<le> int (length rs) then Ok () else fin)"
proof (induction arbitrary: i rule: yields.induct)
  case (ends e e')
  show ?case
  proof (cases "i \<ge> k")
    case True
    then have "yields (LimitExecutor e k i) [] (Ok ())"
      by (intro yields_done) (simp add: limit_next_def)
    with True show ?thesis by simp
  next
    case False
    have "gives (LimitExecutor e k i) (Ok (None, LimitExecutor e' k i))"
      by (rule gives_step [OF ends(1)]) (use False in \<open>simp add: limit_next_def bindG_def\<close>)
    with ends(2) show ?thesis
      by (simp add: yields.ends)
  qed
next
  case (fails e y)
  show ?case
  proof (cases "i \<ge> k")
    case True
    then have "yields (LimitExecutor e k i) [] (Ok ())"
      by (intro yields_done) (simp add: limit_next_def)
    with True show ?thesis by simp
  next
    case False
    then have "yields (LimitExecutor e k i) [] y"
      by (intro yields_child_fails [OF fails]) (simp add: limit_next_def bindG_def split: res.split)
    with False show ?thesis by simp
  qed
next
  case (row e r e' rs fin)
  show ?case
  proof (cases "i \<ge> k")
    case True
    then have "yields (LimitExecutor e k i) [] (Ok ())"
      by (intro yields_done) (simp add: limit_next_def)
    with True show ?thesis by simp
  next
    case False
    have g: "gives (LimitExecutor e k i) (Ok (Some r, LimitExecutor e' k (i + 1)))"
      by (rule gives_step [OF row(1)]) (use False in \<open>simp add: limit_next_def bindG_def\<close>)
    have n: "nat (k - i) = Suc (nat (k - (i + 1)))"
      using False by simp
    show ?thesis
      using yields.row [OF g _ row.IH [of "i + 1"]] row(2) False
      by (simp add: n split: if_splits)
  qed
qed

section \<open>Sorting\<close>

lemma yields_drains: "yields e rs fin \<Longrightarrow> \<exists>e'. exec_schema e' = exec_schema e \<and> drains e (bindR fin (\<lambda>_. Ok (rs, e')))"
proof (induction rule: yields.induct)
  case (ends e e')
  have "drains e (Ok ([], e'))"
    by (rule gives_step [OF ends(1)]) (simp add: bindG_def)
  then show ?case
    using ends(2) by auto
next
  case (fails e y)
  have "drains e (bindR y (\<lambda>_. Ok ([], e)))"
    by (rule gives_step [OF fails(1)]) (use fails(2) in \<open>cases y; simp add: bindG_def\<close>)
  then show ?case
    by auto
next
  case (row e r e' rs fin)
  obtain e'' where e'': "exec_schema e'' = exec_schema e'" "drains e' (bindR fin (\<lambda>_. Ok (rs, e'')))"
    using row.IH by blast
  have m: "settles (\<lambda>n. bindG (drain n R e') (\<lambda>(rs, e''). ret (r # rs, e''))) (bindR fin (\<lambda>_. Ok (r # rs, e'')))"
    by (rule settles_map [OF e''(2)]) (cases fin; simp add: bindG_def del: drain.simps)
  have "drains e (bindR fin (\<lambda>_. Ok (r # rs, e'')))"
    by (rule settles_bind [OF row(1) m]) (simp add: bindG_def)
  then show ?case
    using e''(1) row(2) by auto
qed

lemma yields_sorted:
  "pos \<le> length rs \<Longrightarrow> yields (SortExecutor child col desc rs pos True) (drop pos rs) (Ok ())"
proof (induction "length rs - pos" arbitrary: pos)
  case 0
  then have "yields (SortExecutor child col desc rs pos True) [] (Ok ())"
    by (intro yields_done) (simp add: sort_next_def bindG_def)
  with 0 show ?case by simp
next
  case (Suc k)
  then have l: "pos < length rs" by simp
  then have "gives (SortExecutor child col desc rs pos True) (Ok (Some (rs ! pos), SortExecutor child col desc rs (Suc pos) True))"
    by (intro gives_const) (simp add: sort_next_def bindG_def)
  moreover have "yields (SortExecutor child col desc rs (Suc pos) True) (drop (Suc pos) rs) (Ok ())"
    using Suc l by (intro Suc.hyps) simp_all
  ultimately show ?case
    unfolding Cons_nth_drop_Suc [OF l, symmetric] by (auto intro: yields.row)
qed

text \<open>A loaded and an unloaded executor give the same at the first call.\<close>

lemma yields_sort_loads:
  assumes d: "drains child (Ok (rs, child'))" "exec_schema child' = exec_schema child"
    and s: "sort_rows (col_index (exec_schema child) col) desc rs = Ok rs'"
  shows "yields (SortExecutor child col desc [] 0 False) rs' (Ok ())"
proof -
  have g: "gives (SortExecutor child col desc [] 0 False) x"
    if "\<And>n s. exec_next (Suc n) R (SortExecutor child' col desc rs' 0 True) s = (x, s)" for x
  proof (rule settles_step [OF d(1)])
    fix n s u assume "drain n R child s = (Ok (rs, child'), u)"
    then show "exec_next (Suc n) R (SortExecutor child col desc [] 0 False) s = (x, u)"
      using that [of n u] d(2) s by (simp add: sort_next_def bindG_def pureG_def)
  qed
  show ?thesis
  proof (cases rs')
    case Nil
    have "gives (SortExecutor child col desc [] 0 False) (Ok (None, SortExecutor child' col desc [] 0 True))"
      by (rule g) (simp add: Nil sort_next_def bindG_def)
    from yields.ends [OF this] show ?thesis
      using d(2) unfolding Nil by simp
  next
    case (Cons r ss)
    have "gives (SortExecutor child col desc [] 0 False) (Ok (Some r, SortExecutor child' col desc rs' 1 True))"
      by (rule g) (simp add: Cons sort_next_def bindG_def)
    moreover have "yields (SortExecutor child' col desc rs' 1 True) ss (Ok ())"
      using yields_sorted [of 1 rs' child' col desc] Cons by simp
    ultimately show ?thesis
      using d(2) unfolding Cons by (auto intro: yields.row)
  qed
qed

lemma yields_sort:
  assumes y: "yields child rs fin"
  shows "yields (SortExecutor child col desc [] 0 False)
    (fst (case fin of
       Ok _ \<Rightarrow> (case sort_rows (col_index (exec_schema child) col) desc rs of
             Ok rs' \<Rightarrow> (rs', Ok ()) | Err e \<Rightarrow> ([], Err e) | Panic \<Rightarrow> ([], Panic) | Stuck \<Rightarrow> ([], Stuck))
     | _ \<Rightarrow> ([], fin)))
    (snd (case fin of
       Ok _ \<Rightarrow> (case sort_rows (col_index (exec_schema child) col) desc rs of
             Ok rs' \<Rightarrow> (rs', Ok ()) | Err e \<Rightarrow> ([], Err e) | Panic \<Rightarrow> ([], Panic) | Stuck \<Rightarrow> ([], Stuck))
     | _ \<Rightarrow> ([], fin)))"
proof -
  let ?e = "SortExecutor child col desc [] 0 False"
  obtain child' where c: "exec_schema child' = exec_schema child" "drains child (bindR fin (\<lambda>_. Ok (rs, child')))"
    using yields_drains [OF y] by blast
  have bad: "yields ?e [] x" if "x \<noteq> Ok ()" "\<And>n s u. drain n R child s = (bindR fin (\<lambda>_. Ok (rs, child')), u) \<Longrightarrow>
      exec_next (Suc n) R ?e s = (bindR x (\<lambda>_. Ok (None, ?e)), u)" for x
  proof (rule yields.fails [OF _ that(1)])
    show "gives ?e (bindR x (\<lambda>_. Ok (None, ?e)))"
      by (rule settles_step [OF c(2)]) (rule that(2))
  qed
  show ?thesis
  proof (cases "fin = Ok ()")
    case True
    show ?thesis
    proof (cases "sort_rows (col_index (exec_schema child) col) desc rs")
      case (Ok rs')
      then show ?thesis
        using yields_sort_loads [of child rs child'] c True by simp
    next
      case (Err e)
      have "yields ?e [] (Err e)"
        by (rule bad) (simp_all add: sort_next_def bindG_def pureG_def c(1) True Err)
      then show ?thesis using True Err by simp
    next
      case Panic
      have "yields ?e [] Panic"
        by (rule bad) (simp_all add: sort_next_def bindG_def pureG_def c(1) True Panic)
      then show ?thesis using True Panic by simp
    next
      case Stuck
      have "yields ?e [] Stuck"
        by (rule bad) (simp_all add: sort_next_def bindG_def pureG_def c(1) True Stuck)
      then show ?thesis using True Stuck by simp
    qed
  next
    case False
    have "yields ?e [] fin"
      by (rule bad) (use False in \<open>cases fin; simp add: sort_next_def bindG_def\<close>)+
    then show ?thesis
      using False by (cases fin) auto
  qed
qed

section \<open>Joins\<close>

lemma join_probe_bounds: "join_probe c sch l rs pos = Ok (Some r, p) \<Longrightarrow> pos < p \<and> p \<le> pos + length rs"
proof (induction rs arbitrary: pos)
  case (Cons x rs)
  then show ?case
    by (cases "eval_gcond c (join_rows l x) sch") (auto split: if_splits dest!: Cons.IH)
qed simp

lemma join_probe_run_map:
  "run_map (joined_if c sch l) rs fin =
     (case join_probe c sch l rs pos of
        Ok (None, _) \<Rightarrow> ([], fin)
      | Ok (Some r, p) \<Rightarrow> (case run_map (joined_if c sch l) (drop (p - pos) rs) fin of (ys, e) \<Rightarrow> (r # ys, e))
      | Err e \<Rightarrow> ([], Err e) | Panic \<Rightarrow> ([], Panic) | Stuck \<Rightarrow> ([], Stuck))"
proof (induction rs arbitrary: pos)
  case (Cons x rs)
  show ?case
  proof (cases "eval_gcond c (join_rows l x) sch")
    case (Ok b)
    have d: "drop (p - pos) (x # rs) = drop (p - Suc pos) rs"
      if "join_probe c sch l rs (Suc pos) = Ok (Some r, p)" for p r
    proof -
      have "p - pos = Suc (p - Suc pos)"
        using join_probe_bounds [OF that] by arith
      then show ?thesis by simp
    qed
    have j: "joined_if c sch l x = Ok (if b then Some (join_rows l x) else None)"
      by (simp add: joined_if_def Ok)
    show ?thesis
    proof (cases b)
      case False
      with Cons.IH [of "Suc pos"] Ok j show ?thesis
        by (auto simp: d split: res.splits option.splits)
    qed (simp add: Ok j)
  qed (auto simp: joined_if_def)
qed simp

lemma gives_jump: "gives b x \<Longrightarrow> (\<And>n s. exec_next (Suc n) R e s = exec_next n R b s) \<Longrightarrow> gives e x"
  by (rule settles_bind [OF settles_return [of "()"], of "\<lambda>n. exec_next n R b"]) auto

text \<open>The rows of a left row, given that nothing comes after it.\<close>

lemma yields_probe:
  fixes le ri c l rights fin
  defines "sch \<equiv> join_schemas (exec_schema le) (exec_schema ri)"
  assumes rest: "\<And>p. yields (NestedLoopJoinExecutor le ri c None rights p True) [] fin"
  shows "pos \<le> length rights \<Longrightarrow>
    yields (NestedLoopJoinExecutor le ri c (Some l) rights pos True)
      (fst (run_map (joined_if c sch l) (drop pos rights) fin)) (snd (run_map (joined_if c sch l) (drop pos rights) fin))"
proof (induction "length rights - pos" arbitrary: pos rule: less_induct)
  case less
  let ?J = "\<lambda>pos. NestedLoopJoinExecutor le ri c (Some l) rights pos True"
  note step = join_next_def bindG_def pureG_def sch_def [symmetric]
  note rm = join_probe_run_map [of c sch l "drop pos rights" fin pos]
  show ?case
  proof (cases "join_probe c sch l (drop pos rights) pos")
    case (Ok y)
    obtain ro p where y: "y = (ro, p)" by (cases y)
    show ?thesis
    proof (cases ro)
      case None
      have "gives (?J pos) x" if "gives (NestedLoopJoinExecutor le ri c None rights p True) x" for x
        by (rule gives_jump [OF that]) (simp add: step Ok y None)
      from yields_transfer [OF rest this] show ?thesis
        by (simp add: rm Ok y None)
    next
      case (Some r)
      have b: "pos < p" "p \<le> length rights"
        using join_probe_bounds [OF Ok [unfolded y Some]] less.prems by auto
      have g: "gives (?J pos) (Ok (Some r, ?J p))"
        by (rule gives_const) (simp add: step Ok y Some)
      have "drop (p - pos) (drop pos rights) = drop p rights"
        using b by simp
      then show ?thesis
        using yields.row [OF g _ less.hyps [of p]] b
        by (simp add: rm Ok y Some case_prod_beta)
    qed
  next
    case (Err e)
    have "gives (?J pos) (Err e)"
      by (rule gives_const) (simp add: step Err)
    then show ?thesis
      by (simp add: rm Err yields_Err)
  next
    case Panic
    have "gives (?J pos) Panic"
      by (rule gives_const) (simp add: step Panic)
    then show ?thesis
      by (simp add: rm Panic yields_Panic)
  next
    case Stuck
    have "gives (?J pos) Stuck"
      by (rule gives_const) (simp add: step Stuck)
    then show ?thesis
      by (simp add: rm Stuck yields_Stuck)
  qed
qed

text \<open>Once the right side is exhausted, the remaining left rows give nothing.\<close>

lemma yields_join_rest:
  assumes "drains ri (Ok ([], ri))"
  shows "yields le ls fin \<Longrightarrow> yields (NestedLoopJoinExecutor le ri c None rights p b) [] fin"
proof (induction arbitrary: rights p b rule: yields.induct)
  case (ends e e')
  let ?J = "\<lambda>e. NestedLoopJoinExecutor e ri c None rights p b"
  have "gives (?J e) (Ok (None, ?J e'))"
    by (rule gives_step [OF ends(1)]) (simp add: join_next_def bindG_def)
  from yields.ends [OF this] show ?case
    using ends(2) by simp
next
  case (fails e y)
  show ?case
    by (rule yields_child_fails [OF fails]) (simp add: join_next_def bindG_def split: res.split)
next
  case (row e r e' rs fin)
  let ?J = "\<lambda>lr. NestedLoopJoinExecutor e' ri c lr [] 0"
  have "gives (?J (Some r) True) x" if "gives (?J None True) x" for x
    by (rule gives_jump [OF that]) (simp add: join_next_def bindG_def pureG_def)
  from yields_transfer [OF row.IH this] have 1: "yields (?J (Some r) True) [] fin"
    by simp
  have "gives (?J (Some r) False) x" if "gives (?J (Some r) True) x" for x
    by (rule settles_bind [OF assms that]) (simp add: join_next_def bindG_def)
  from yields_transfer [OF 1 this] have 2: "yields (?J (Some r) False) [] fin"
    by simp
  have "gives (NestedLoopJoinExecutor e ri c None rights p b) x" if "gives (?J (Some r) False) x" for x
    by (rule gives_again [OF row(1) that]) (simp add: join_next_def bindG_def)
  from yields_transfer [OF 2 this] show ?case
    using row(2) by simp
qed

lemma drains_loaded:
  "pos \<le> length rs \<Longrightarrow>
   drains (SeqScanExecutor t sch rs pos True) (Ok (drop pos rs, SeqScanExecutor t sch rs (length rs) True))"
proof (induction "length rs - pos" arbitrary: pos)
  case 0
  have "gives (SeqScanExecutor t sch rs pos True) (Ok (None, SeqScanExecutor t sch rs pos True))"
    by (rule gives_const) (use 0 in \<open>simp add: seq_scan_next_def bindG_def\<close>)
  then have "drains (SeqScanExecutor t sch rs pos True) (Ok ([], SeqScanExecutor t sch rs pos True))"
    by (rule settles_step) (simp add: bindG_def)
  with 0 show ?case
    by (metis diff_is_0_eq drop_all le_antisym)
next
  case (Suc k)
  then have l: "pos < length rs" by simp
  let ?e = "\<lambda>pos. SeqScanExecutor t sch rs pos True"
  have g: "gives (?e pos) (Ok (Some (rs ! pos), ?e (Suc pos)))"
    by (rule gives_const) (use l in \<open>simp add: seq_scan_next_def bindG_def\<close>)
  have d: "drains (?e (Suc pos)) (Ok (drop (Suc pos) rs, ?e (length rs)))"
    using Suc l by (intro Suc.hyps) simp_all
  have m: "settles (\<lambda>n. bindG (drain n R (?e (Suc pos))) (\<lambda>(rs', e''). ret (rs ! pos # rs', e'')))
      (Ok (rs ! pos # drop (Suc pos) rs, ?e (length rs)))"
    by (rule settles_map [OF d]) (simp add: bindG_def del: drain.simps)
  show ?case
    unfolding Cons_nth_drop_Suc [OF l, symmetric]
    by (rule settles_bind [OF g m]) (simp add: bindG_def)
qed

lemma drains_scan:
  assumes "is_open t"
  shows "drains (SeqScanExecutor t sch [] 0 False) (Ok (db t, SeqScanExecutor t sch (db t) (length (db t)) True))"
proof -
  obtain N where N: "\<And>s. good s \<Longrightarrow> \<exists>s'. good s' \<and>
      (\<forall>n \<ge> N. drain n R (SeqScanExecutor t sch (db t) 0 True) s = (Ok (db t, SeqScanExecutor t sch (db t) (length (db t)) True), s'))"
    using drains_loaded [of 0 "db t" t sch] by (auto simp: settles_def)
  show ?thesis
    unfolding settles_def
  proof (intro exI [of _ "N + 2"] allI impI)
    fix s assume "good s"
    then obtain u where u: "good u" "repo_scan R t s = (Ok (db t), u)"
      using scan_table assms by blast
    obtain w where w: "good w"
      "\<forall>n \<ge> N. drain n R (SeqScanExecutor t sch (db t) 0 True) u = (Ok (db t, SeqScanExecutor t sch (db t) (length (db t)) True), w)"
      using N [OF u(1)] by blast
    have "drain (Suc (Suc n)) R (SeqScanExecutor t sch [] 0 False) s = drain (Suc (Suc n)) R (SeqScanExecutor t sch (db t) 0 True) u" for n
      by (simp add: bindG_def seq_scan_next_def u(2))
    moreover have "\<exists>m. n = Suc (Suc m)" if "n \<ge> N + 2" for n
      using that by (metis add_2_eq_Suc' le_add2 le_trans nat_le_iff_add add.commute)
    ultimately have "\<forall>n \<ge> N + 2. drain n R (SeqScanExecutor t sch [] 0 False) s =
        (Ok (db t, SeqScanExecutor t sch (db t) (length (db t)) True), w)"
      using w(2) by (metis add_leD1)
    with w(1) show "\<exists>s'. good s' \<and> (\<forall>n \<ge> N + 2. drain n R (SeqScanExecutor t sch [] 0 False) s =
        (Ok (db t, SeqScanExecutor t sch (db t) (length (db t)) True), s'))"
      by blast
  qed
qed

lemma yields_join:
  fixes t sch c le
  defines "ri \<equiv> SeqScanExecutor t sch [] 0 False"
  assumes t: "is_open t" and y: "yields le ls fin"
  shows "yields (NestedLoopJoinExecutor le ri c None [] 0 False)
    (case ls of [] \<Rightarrow> [] | l # _ \<Rightarrow> fst (run_map (joined_if c (join_schemas (exec_schema le) sch) l) (db t) fin))
    (case ls of [] \<Rightarrow> fin | l # _ \<Rightarrow> snd (run_map (joined_if c (join_schemas (exec_schema le) sch) l) (db t) fin))"
  using y
proof cases
  case (ends e')
  let ?J = "\<lambda>e. NestedLoopJoinExecutor e ri c None [] 0 False"
  have "gives (?J le) (Ok (None, ?J e'))"
    by (rule gives_step [OF ends(3)]) (simp add: join_next_def bindG_def)
  from yields.ends [OF this] show ?thesis
    using ends by simp
next
  case fails
  have "yields (NestedLoopJoinExecutor le ri c None [] 0 False) [] fin"
    by (rule yields_child_fails [OF fails(2,3)]) (simp add: join_next_def bindG_def split: res.split)
  then show ?thesis
    using fails by simp
next
  case (row l e' rs)
  let ?r1 = "SeqScanExecutor t sch (db t) (length (db t)) True"
  have ex: "drains ?r1 (Ok ([], ?r1))"
    using drains_loaded [of "length (db t)" "db t" t sch] by simp
  have 1: "yields (NestedLoopJoinExecutor e' ?r1 c (Some l) (db t) 0 True)
      (fst (run_map (joined_if c (join_schemas (exec_schema e') sch) l) (db t) fin))
      (snd (run_map (joined_if c (join_schemas (exec_schema e') sch) l) (db t) fin))" (is "yields _ ?ys ?end")
    using yields_probe [OF yields_join_rest [OF ex row(4)], of 0 "db t" c l] by simp
  have "gives (NestedLoopJoinExecutor e' ri c (Some l) [] 0 False) x"
    if "gives (NestedLoopJoinExecutor e' ?r1 c (Some l) (db t) 0 True) x" for x
    by (rule settles_bind [OF drains_scan [OF t, of sch] that]) (simp add: join_next_def bindG_def ri_def)
  from yields_transfer [OF 1 this] have 2: "yields (NestedLoopJoinExecutor e' ri c (Some l) [] 0 False) ?ys ?end"
    by (simp add: ri_def)
  have "gives (NestedLoopJoinExecutor le ri c None [] 0 False) x"
    if "gives (NestedLoopJoinExecutor e' ri c (Some l) [] 0 False) x" for x
    by (rule gives_again [OF row(2) that]) (simp add: join_next_def bindG_def)
  from yields_transfer [OF 2 this] show ?thesis
    using row(1,3) by simp
qed

section \<open>Whole plans\<close>

lemma build_yields:
  "query p \<Longrightarrow> plan_readable is_open fits p \<Longrightarrow>
   \<exists>e. build p txn = Ok e \<and> exec_schema e = plan_output p \<and>
       yields e (fst (meaning db look p)) (snd (meaning db look p))"
proof (induction p)
  case (SequentialScanNode t sch)
  then show ?case
    using yields_scan by simp
next
  case (IndexScanNode t sch pe)
  then obtain l op r where pe: "pe = BinaryExpr l op r"
    by (auto split: expr.splits)
  have t: "is_open t" and f: "fits t v" if "eval_literal r = Ok v" for v
    using IndexScanNode.prems pe that by simp_all
  have "is_open t"
    using IndexScanNode.prems pe by simp
  with yields_index [of t r sch l op, OF _ f] show ?case
    by (simp add: pe)
next
  case (FilterNode p c)
  then obtain e where e: "build p txn = Ok e" "exec_schema e = plan_output p"
    "yields e (fst (meaning db look p)) (snd (meaning db look p))"
    by auto
  from yields_filter [OF e(3), of c] e show ?case
    by (simp add: case_prod_beta)
next
  case (ProjectionNode p cols)
  then obtain e where e: "build p txn = Ok e" "exec_schema e = plan_output p"
    "yields e (fst (meaning db look p)) (snd (meaning db look p))"
    by auto
  from yields_projection [OF e(3,2), of cols] e show ?case
    by (simp add: case_prod_beta)
next
  case (NestedLoopJoinNode l r c)
  then obtain t sch where r: "r = SequentialScanNode t sch"
    by (auto split: plan.splits)
  obtain e where e: "build l txn = Ok e" "exec_schema e = plan_output l"
    "yields e (fst (meaning db look l)) (snd (meaning db look l))"
    using NestedLoopJoinNode by auto
  have t: "is_open t"
    using NestedLoopJoinNode.prems r by simp
  from yields_join [OF t e(3), of sch c] e r show ?case
    by (cases "meaning db look l"; cases "fst (meaning db look l)") simp_all
next
  case (SortNode p col desc)
  then obtain e where e: "build p txn = Ok e" "exec_schema e = plan_output p"
    "yields e (fst (meaning db look p)) (snd (meaning db look p))"
    by auto
  from yields_sort [OF e(3), of col desc] e show ?case
    by (cases "meaning db look p"; cases "snd (meaning db look p)") simp_all
next
  case (LimitNode p k)
  then obtain e where e: "build p txn = Ok e" "exec_schema e = plan_output p"
    "yields e (fst (meaning db look p)) (snd (meaning db look p))"
    by auto
  from yields_limit [OF e(3), of k 0] e show ?case
    by (simp add: case_prod_beta split: if_splits)
qed simp_all

lemma yields_result:
  "yields e rs fin \<Longrightarrow> settles (\<lambda>n. result_loop n R (\<lambda>_. False) i e) (bindR fin (\<lambda>_. Ok rs))"
proof (induction arbitrary: i rule: yields.induct)
  case (ends e e')
  show ?case
    by (rule settles_step [OF ends(1)]) (simp add: bindG_def)
next
  case (fails e y)
  show ?case
    by (rule settles_step [OF fails(1)]) (use fails(2) in \<open>cases y; simp add: bindG_def\<close>)
next
  case (row e r e' rs fin)
  have m: "settles (\<lambda>n. bindG (result_loop n R (\<lambda>_. False) (i + 1) e') (\<lambda>rs. ret (r # rs)))
      (bindR fin (\<lambda>_. Ok (r # rs)))"
    by (rule settles_map [OF row.IH [of "i + 1"]]) (cases fin; simp add: bindG_def del: result_loop.simps)
  show ?case
    by (rule settles_bind [OF row(1) m]) (simp add: bindG_def)
qed

text \<open>Executing a query plan returns its outcome.\<close>

lemma execute_query:
  assumes "query p" "plan_readable is_open fits p"
  shows "settles (\<lambda>n. execute_locked n R (\<lambda>_. False) p txn)
    (bindR (snd (meaning db look p)) (\<lambda>_.
       Ok \<lparr>res_rows = fst (meaning db look p), res_affected = 0, res_schema = Some (plan_output p)\<rparr>))"
proof -
  obtain e where e: "build p txn = Ok e" "exec_schema e = plan_output p"
    "yields e (fst (meaning db look p)) (snd (meaning db look p))"
    using build_yields [OF assms] by blast
  show ?thesis
    by (rule settles_map [OF yields_result [OF e(3), of 0]])
      (cases "snd (meaning db look p)"; simp add: execute_locked_def bindG_def pureG_def e)
qed

end

end
