(* ===== verification/Decimal.thy ===== *)
theory Decimal
  imports Prelude
begin

text \<open>
  Characters and decimal numbers, as the lexer, the parser and the catalog need them. A Go string is the
  list of its bytes.
\<close>

section \<open>Decimal numbers\<close>

text \<open>The verb \<open>%d\<close> of \<open>fmt.Sprintf\<close>.\<close>

definition digit_char :: "nat \<Rightarrow> char" where
  "digit_char d = char_of (48 + d)"

fun show_nat :: "nat \<Rightarrow> string" where
  "show_nat n = (if n < 10 then [digit_char n] else show_nat (n div 10) @ [digit_char (n mod 10)])"

declare show_nat.simps [simp del]

definition show_int :: "int \<Rightarrow> string" where
  "show_int i = (if i < 0 then CHR ''-'' # show_nat (nat (- i)) else show_nat (nat i))"

definition is_digit_char :: "char \<Rightarrow> bool" where
  "is_digit_char c \<longleftrightarrow> 48 \<le> (of_char c :: nat) \<and> (of_char c :: nat) \<le> 57"

definition digit_value :: "char \<Rightarrow> nat" where
  "digit_value c = of_char c - 48"

definition read_nat :: "string \<Rightarrow> nat" where
  "read_nat ds = foldl (\<lambda>n c. 10 * n + digit_value c) 0 ds"

text \<open>An \<open>int\<close> of a 64-bit platform.\<close>

definition fits_int :: "int \<Rightarrow> bool" where
  "fits_int i \<longleftrightarrow> - (2 ^ 63) \<le> i \<and> i < 2 ^ 63"

lemma digit_char_digit: "d < 10 \<Longrightarrow> is_digit_char (digit_char d)" "d < 10 \<Longrightarrow> digit_value (digit_char d) = d"
  by (simp_all add: is_digit_char_def digit_char_def digit_value_def of_char_of)

lemma show_nat_ne: "show_nat n \<noteq> []"
  by (simp add: show_nat.simps [of n])

lemma show_nat_digits: "list_all is_digit_char (show_nat n)"
  by (induction n rule: show_nat.induct) (subst show_nat.simps, auto simp: digit_char_digit)

lemma read_nat_snoc: "read_nat (ds @ [c]) = 10 * read_nat ds + digit_value c"
  by (simp add: read_nat_def)

lemma read_show_nat: "read_nat (show_nat n) = n"
proof (induction n rule: show_nat.induct)
  case (1 n)
  show ?case
  proof (cases "n < 10")
    case True
    then show ?thesis
      by (subst show_nat.simps) (simp add: read_nat_def digit_char_digit)
  next
    case False
    then show ?thesis
      using 1 by (subst show_nat.simps) (simp add: read_nat_snoc digit_char_digit)
  qed
qed

lemma not_digits [simp]: "\<not> is_digit_char (CHR '')'')" "\<not> is_digit_char (CHR ''-'')" "\<not> is_digit_char (CHR ''+'')"
  "\<not> is_digit_char (CHR '' '')"
  by (simp_all add: is_digit_char_def)

end
