(* ===== verification/Catalog.thy ===== *)
theory Catalog
  imports Planner Decimal
begin

text \<open>
  \<open>catalog/catalog.go\<close>: the schemas of the tables by name and the next table id, kept in a JSON file
  that is written again after every change. A Go map is an association list with distinct keys. The
  file holds a \<open>catalog_json\<close> value: \<open>encoding/json\<close> turns it into text and back. \<open>can_write\<close> says
  whether the next \<open>os.WriteFile\<close> succeeds. The mutex is not modelled: every operation runs under it.
\<close>

section \<open>The JSON form\<close>

record column_json =
  cj_name :: string
  cj_type :: string
  cj_primary_key :: bool
  cj_not_null :: bool

record table_json =
  tj_id :: u32
  tj_columns :: "column_json list"

record catalog_json =
  cat_next :: u32
  cat_tables :: "(string \<times> table_json) list"

section \<open>Data types as text\<close>

text \<open>The verb \<open>%d\<close> of \<open>fmt.Sscanf\<close>: spaces, a sign, digits; an integer outside 64 bits is an error.\<close>

definition scan_int :: "string \<Rightarrow> (int \<times> string) option" where
  "scan_int s =
     (let s1 = dropWhile (\<lambda>c. c = CHR '' '') s;
          neg = (s1 \<noteq> [] \<and> hd s1 = CHR ''-'');
          s2 = (if s1 \<noteq> [] \<and> (hd s1 = CHR ''-'' \<or> hd s1 = CHR ''+'') then tl s1 else s1);
          ds = takeWhile is_digit_char s2;
          i = (if neg then - int (read_nat ds) else int (read_nat ds))
      in if ds = [] \<or> \<not> fits_int i then None else Some (i, dropWhile is_digit_char s2))"

text \<open>\<open>fmt.Sscanf(s, "VARCHAR(%d)", &length)\<close>; what follows the closing parenthesis is not looked at.\<close>

definition scan_varchar :: "string \<Rightarrow> int option" where
  "scan_varchar s =
     (if take 8 s \<noteq> ''VARCHAR('' then None
      else case scan_int (drop 8 s) of
             Some (i, rest) \<Rightarrow> if take 1 rest = '')'' then Some i else None
           | None \<Rightarrow> None)"

definition parse_data_type :: "string \<Rightarrow> data_type res" where
  "parse_data_type s =
     (if s = ''INT'' then Ok \<lparr>dt_kind = KindIntType, dt_length = 0\<rparr>
      else if s = ''BOOL'' then Ok \<lparr>dt_kind = KindBoolType, dt_length = 0\<rparr>
      else case scan_varchar s of
             Some n \<Rightarrow> Ok \<lparr>dt_kind = KindVarcharType, dt_length = n\<rparr>
           | None \<Rightarrow> Err (EUnknownType s))"

definition format_data_type :: "data_type \<Rightarrow> string" where
  "format_data_type dt =
     (case dt_kind dt of
        KindIntType \<Rightarrow> ''INT''
      | KindBoolType \<Rightarrow> ''BOOL''
      | KindVarcharType \<Rightarrow> ''VARCHAR('' @ show_int (dt_length dt) @ '')'')"

section \<open>The catalog\<close>

record catalog =
  schemas :: "(string \<times> schema) list"
  next_table_id :: u32
  cat_file :: "catalog_json option"
  can_write :: bool

definition column_to_json :: "column \<Rightarrow> column_json" where
  "column_to_json c =
     \<lparr>cj_name = col_name c, cj_type = format_data_type (col_type c),
      cj_primary_key = primary_key c, cj_not_null = not_null c\<rparr>"

definition schema_to_json :: "schema \<Rightarrow> table_json" where
  "schema_to_json s = \<lparr>tj_id = table_id s, tj_columns = map column_to_json (columns s)\<rparr>"

definition catalog_to_json :: "catalog \<Rightarrow> catalog_json" where
  "catalog_to_json c = \<lparr>cat_next = next_table_id c, cat_tables = map (\<lambda>(t, s). (t, schema_to_json s)) (schemas c)\<rparr>"

definition save :: "(catalog, unit) go" where
  "save c = (if can_write c then (Ok (), c\<lparr>cat_file := Some (catalog_to_json c)\<rparr>) else (Err EIO, c))"

definition column_of_json :: "column_json \<Rightarrow> column res" where
  "column_of_json c =
     bindR (parse_data_type (cj_type c)) (\<lambda>dt.
     Ok \<lparr>col_name = cj_name c, col_type = dt, primary_key = cj_primary_key c, not_null = cj_not_null c\<rparr>)"

fun columns_of_json :: "column_json list \<Rightarrow> column list res" where
  "columns_of_json [] = Ok []"
| "columns_of_json (c # cs) = bindR (column_of_json c) (\<lambda>x. bindR (columns_of_json cs) (\<lambda>xs. Ok (x # xs)))"

fun tables_of_json :: "(string \<times> table_json) list \<Rightarrow> (string \<times> schema) list res" where
  "tables_of_json [] = Ok []"
| "tables_of_json ((t, j) # ts) =
     bindR (columns_of_json (tj_columns j)) (\<lambda>cols.
     bindR (tables_of_json ts) (\<lambda>ss.
     Ok ((t, \<lparr>table_name = t, table_id = tj_id j, columns = cols\<rparr>) # ss)))"

text \<open>\<open>NewCatalog\<close> with the file it finds: \<open>None\<close> when there is none. \<open>load\<close> fills the empty catalog.\<close>

definition load :: "catalog_json \<Rightarrow> bool \<Rightarrow> catalog res" where
  "load j w =
     bindR (tables_of_json (cat_tables j)) (\<lambda>ss.
     Ok \<lparr>schemas = ss, next_table_id = cat_next j, cat_file = Some j, can_write = w\<rparr>)"

definition new_catalog :: "catalog_json option \<Rightarrow> bool \<Rightarrow> catalog res" where
  "new_catalog f w =
     (case f of
        None \<Rightarrow> Ok \<lparr>schemas = [], next_table_id = 0, cat_file = None, can_write = w\<rparr>
      | Some j \<Rightarrow> load j w)"

definition get_schema :: "catalog \<Rightarrow> string \<Rightarrow> schema res" where
  "get_schema c t = (case map_of (schemas c) t of None \<Rightarrow> Err (ETableNotFound t) | Some s \<Rightarrow> Ok s)"

definition table_names :: "catalog \<Rightarrow> string list" where
  "table_names c = map fst (schemas c)"

definition table_exists :: "catalog \<Rightarrow> string \<Rightarrow> bool" where
  "table_exists c t \<longleftrightarrow> map_of (schemas c) t \<noteq> None"

definition create_table :: "schema \<Rightarrow> (catalog, unit) go" where
  "create_table sch c =
     (if map_of (schemas c) (table_name sch) \<noteq> None then (Err (ETableExists (table_name sch)), c)
      else
        let sch' = sch\<lparr>table_id := next_table_id c\<rparr> in
        save (c\<lparr>next_table_id := next_table_id c + 1, schemas := AList.update (table_name sch) sch' (schemas c)\<rparr>))"

definition drop_table :: "string \<Rightarrow> (catalog, unit) go" where
  "drop_table t c =
     (if map_of (schemas c) t = None then (Err (ETableNotFound t), c)
      else save (c\<lparr>schemas := AList.delete t (schemas c)\<rparr>))"

section \<open>Types survive the file\<close>

lemma scan_int_show:
  assumes "fits_int i"
  shows "scan_int (show_int i @ CHR '')'' # rest) = Some (i, CHR '')'' # rest)"
proof -
  define n where "n = nat \<bar>i\<bar>"
  obtain c cs where c: "show_nat n = c # cs"
    using show_nat_ne by (cases "show_nat n") auto
  have d: "is_digit_char c" "list_all is_digit_char cs"
    using show_nat_digits [of n] by (simp_all add: c)
  have ne: "c \<noteq> CHR '' ''" "c \<noteq> CHR ''-''" "c \<noteq> CHR ''+''"
    using d(1) by auto
  have tw: "takeWhile is_digit_char (c # cs @ CHR '')'' # rest) = c # cs"
    "dropWhile is_digit_char (c # cs @ CHR '')'' # rest) = CHR '')'' # rest"
    using d by (auto simp: takeWhile_append2 dropWhile_append2 list_all_iff)
  have r: "read_nat (c # cs) = n"
    using read_show_nat [of n] by (simp add: c)
  show ?thesis
  proof (cases "i < 0")
    case True
    then have "show_int i = CHR ''-'' # c # cs" "i = - int n"
      by (simp_all add: show_int_def c [symmetric] n_def)
    then show ?thesis
      using assms tw r by (simp add: scan_int_def Let_def)
  next
    case False
    then have "show_int i = c # cs" "i = int n"
      by (simp_all add: show_int_def c [symmetric] n_def)
    then show ?thesis
      using assms tw r ne by (simp add: scan_int_def Let_def)
  qed
qed

definition type_ok :: "data_type \<Rightarrow> bool" where
  "type_ok dt \<longleftrightarrow> (if dt_kind dt = KindVarcharType then fits_int (dt_length dt) else dt_length dt = 0)"

lemma parse_format_data_type:
  assumes "type_ok dt"
  shows "parse_data_type (format_data_type dt) = Ok dt"
proof (cases "dt_kind dt")
  case KindVarcharType
  then have "scan_varchar (format_data_type dt) = Some (dt_length dt)"
    using assms scan_int_show [of "dt_length dt" "[]"] by (simp add: type_ok_def format_data_type_def scan_varchar_def)
  moreover have "hd (format_data_type dt) = CHR ''V''"
    by (simp add: format_data_type_def KindVarcharType)
  ultimately show ?thesis
    using KindVarcharType by (auto simp: parse_data_type_def intro: data_type.equality)
qed (use assms in \<open>auto simp: parse_data_type_def format_data_type_def type_ok_def\<close>)

section \<open>The invariant of the catalog\<close>

text \<open>Names are keys, ids are distinct and below the next id, and the file holds the catalog as it is in
  memory (\<open>synced\<close>) once a change was saved.\<close>

definition catalog_ok :: "catalog \<Rightarrow> bool" where
  "catalog_ok c \<longleftrightarrow> distinct (map fst (schemas c)) \<and> (\<forall>(t, s) \<in> set (schemas c). table_name s = t) \<and>
     distinct (map (table_id \<circ> snd) (schemas c)) \<and> (\<forall>(t, s) \<in> set (schemas c). table_id s < next_table_id c) \<and>
     (\<forall>(t, s) \<in> set (schemas c). \<forall>col \<in> set (columns s). type_ok (col_type col))"

definition synced :: "catalog \<Rightarrow> bool" where
  "synced c \<longleftrightarrow> cat_file c = Some (catalog_to_json c)"

lemma save_fields [simp]:
  "schemas (snd (save c)) = schemas c" "next_table_id (snd (save c)) = next_table_id c"
  by (simp_all add: save_def)

lemma catalog_ok_cong: "schemas d = schemas c \<Longrightarrow> next_table_id d = next_table_id c \<Longrightarrow> catalog_ok d = catalog_ok c"
  by (simp add: catalog_ok_def)

lemma update_fresh: "map_of xs k = None \<Longrightarrow> AList.update k v xs = xs @ [(k, v)]"
  by (induction xs) (auto split: if_splits)

lemma create_table_fresh:
  "map_of (schemas c) (table_name sch) = None \<Longrightarrow>
   schemas (snd (create_table sch c)) = schemas c @ [(table_name sch, sch\<lparr>table_id := next_table_id c\<rparr>)] \<and>
   next_table_id (snd (create_table sch c)) = next_table_id c + 1"
  by (simp add: create_table_def Let_def update_fresh)

lemma map_of_None_fst: "map_of xs k = None \<longleftrightarrow> k \<notin> fst ` set xs"
  by (rule map_of_eq_None_iff)

lemma next_id_grows:
  assumes "n \<noteq> (- 1 :: u32)"
  shows "n < n + 1" "i < n \<Longrightarrow> i < n + 1"
proof -
  have "1 + n \<noteq> 0"
    using assms by (metis add.commute add_eq_0_iff)
  then have "unat (n + 1) = Suc (unat n)"
    using unatSuc by (metis add.commute)
  then show "n < n + 1" "i < n \<Longrightarrow> i < n + 1"
    by (simp_all add: word_less_nat_alt)
qed

lemma create_table_ok:
  assumes c: "catalog_ok c" and n: "next_table_id c \<noteq> - 1" and t: "\<forall>col \<in> set (columns sch). type_ok (col_type col)"
  shows "catalog_ok (snd (create_table sch c))"
proof (cases "map_of (schemas c) (table_name sch)")
  case None
  show ?thesis
    using c t create_table_fresh [OF None] None
    by (auto simp: catalog_ok_def map_of_None_fst intro: next_id_grows [OF n])
qed (use c in \<open>simp add: create_table_def\<close>)

lemma drop_table_ok:
  assumes "catalog_ok c"
  shows "catalog_ok (snd (drop_table t c))"
proof -
  have "distinct (map (table_id \<circ> snd) (AList.delete t (schemas c)))"
    using assms by (auto simp: catalog_ok_def AList.delete_eq distinct_map inj_on_def)
  moreover have "distinct (map fst (AList.delete t (schemas c)))"
    using assms by (simp add: catalog_ok_def AList.distinct_delete)
  ultimately have "catalog_ok (c\<lparr>schemas := AList.delete t (schemas c)\<rparr>)"
    using assms by (auto simp: catalog_ok_def AList.delete_eq)
  then have "catalog_ok (snd (save (c\<lparr>schemas := AList.delete t (schemas c)\<rparr>)))"
    by (rule iffD2 [OF catalog_ok_cong, rotated -1]) simp_all
  then show ?thesis
    using assms by (simp add: drop_table_def)
qed

lemma columns_roundtrip:
  "\<forall>col \<in> set cols. type_ok (col_type col) \<Longrightarrow> columns_of_json (map column_to_json cols) = Ok cols"
  by (induction cols) (auto simp: column_of_json_def column_to_json_def parse_format_data_type)

lemma tables_roundtrip:
  "\<forall>(t, s) \<in> set ts. table_name s = t \<and> (\<forall>col \<in> set (columns s). type_ok (col_type col)) \<Longrightarrow>
   tables_of_json (map (\<lambda>(t, s). (t, schema_to_json s)) ts) = Ok ts"
  by (induction ts) (auto simp: schema_to_json_def columns_roundtrip)

lemma load_saved:
  assumes "catalog_ok c" "synced c"
  shows "new_catalog (cat_file c) w = Ok (c\<lparr>can_write := w\<rparr>)"
proof -
  have "tables_of_json (cat_tables (catalog_to_json c)) = Ok (schemas c)"
  proof -
    have "\<forall>(t, s) \<in> set (schemas c). table_name s = t \<and> (\<forall>col \<in> set (columns s). type_ok (col_type col))"
      using assms(1) by (auto simp: catalog_ok_def)
    from tables_roundtrip [OF this] show ?thesis
      by (simp add: catalog_to_json_def)
  qed
  then show ?thesis
    using assms(2) by (simp add: synced_def new_catalog_def load_def catalog_to_json_def)
qed

lemma saved_synced: "save c = (Ok (), d) \<Longrightarrow> synced d"
  by (auto simp: save_def synced_def catalog_to_json_def split: if_splits)

section \<open>The planner's view\<close>

definition reader_of :: "catalog \<Rightarrow> catalog_reader" where
  "reader_of c = \<lparr>cat_get_schema = get_schema c, cat_table_exists = table_exists c\<rparr>"

interpretation catalog_reads: schema_source "reader_of c" for c
  by unfold_locales (auto simp: reader_of_def get_schema_def table_exists_def split: option.splits)

section \<open>Properties\<close>

definition sample_column :: column where
  "sample_column = \<lparr>col_name = ''id'', col_type = \<lparr>dt_kind = KindIntType, dt_length = 0\<rparr>, primary_key = True, not_null = True\<rparr>"

definition name_column :: column where
  "name_column = \<lparr>col_name = ''name'', col_type = \<lparr>dt_kind = KindVarcharType, dt_length = 20\<rparr>,
     primary_key = False, not_null = False\<rparr>"

definition users_schema :: schema where
  "users_schema = \<lparr>table_name = ''users'', table_id = 0, columns = [sample_column, name_column]\<rparr>"

definition empty_catalog :: catalog where
  "empty_catalog = \<lparr>schemas = [], next_table_id = 0, cat_file = None, can_write = True\<rparr>"

text \<open>C32. Invariant of the catalog: \<open>CreateTable\<close> and \<open>DropTable\<close>, successful or not, keep the names
  distinct, the table ids distinct and below \<open>nextTableID\<close>, so an id is never given twice, not even
  after a table was dropped (up to 2^32 - 1 tables).\<close>

theorem catalog_invariant:
  assumes "catalog_ok c" "next_table_id c \<noteq> - 1" "\<forall>col \<in> set (columns sch). type_ok (col_type col)"
  shows "catalog_ok (snd (create_table sch c)) \<and> catalog_ok (snd (drop_table t c)) \<and>
    (\<forall>(u, s) \<in> set (schemas (snd (drop_table t c))). (u, s) \<in> set (schemas c)) \<and>
    next_table_id (snd (drop_table t c)) = next_table_id c"
  using create_table_ok [OF assms] drop_table_ok [OF assms(1)]
  by (auto simp: drop_table_def AList.delete_eq)

lemma empty_catalog_ok [simp]: "catalog_ok empty_catalog"
  by (simp add: catalog_ok_def empty_catalog_def)

lemma users_types_ok: "\<forall>col \<in> set (columns users_schema). type_ok (col_type col)"
  by (simp add: users_schema_def sample_column_def name_column_def type_ok_def fits_int_def)

theorem catalog_invariant_witness:
  "catalog_ok (snd (create_table users_schema empty_catalog))"
  using catalog_invariant [OF empty_catalog_ok _ users_types_ok] by (simp add: empty_catalog_def)

text \<open>Persistence of the catalog: after a successful \<open>CreateTable\<close> the new table has the next id, the
  other tables are as before, and opening the file again gives back the catalog.\<close>

theorem create_table_persists:
  assumes "catalog_ok c" "next_table_id c \<noteq> - 1" "\<forall>col \<in> set (columns sch). type_ok (col_type col)"
    and "create_table sch c = (Ok (), d)"
  shows "get_schema d (table_name sch) = Ok (sch\<lparr>table_id := next_table_id c\<rparr>) \<and>
    (\<forall>t. t \<noteq> table_name sch \<longrightarrow> get_schema d t = get_schema c t) \<and>
    new_catalog (cat_file d) w = Ok (d\<lparr>can_write := w\<rparr>)"
proof -
  have fresh: "map_of (schemas c) (table_name sch) = None"
    using assms(4) by (auto simp: create_table_def split: if_splits)
  have d: "schemas d = schemas c @ [(table_name sch, sch\<lparr>table_id := next_table_id c\<rparr>)]"
    using create_table_fresh [OF fresh] assms(4) by simp
  have "catalog_ok d" "synced d"
    using create_table_ok [OF assms(1-3)] assms(4) saved_synced fresh by (auto simp: create_table_def Let_def)
  then show ?thesis
    using d fresh load_saved [of d w] by (auto simp: get_schema_def map_add_def split: option.splits)
qed

theorem create_table_persists_witness:
  "\<exists>d. get_schema d ''users'' = Ok users_schema \<and> new_catalog (cat_file d) True = Ok (d\<lparr>can_write := True\<rparr>)"
proof -
  obtain d where d: "create_table users_schema empty_catalog = (Ok (), d)"
    by (simp add: create_table_def empty_catalog_def save_def Let_def)
  from create_table_persists [OF empty_catalog_ok _ users_types_ok d, of True] show ?thesis
    by (auto simp: empty_catalog_def users_schema_def)
qed

text \<open>A failed save: when the catalog file cannot be written, \<open>CreateTable\<close> reports the error but the
  table stays in the catalog in memory, so it can be used until the process ends and is gone at the
  next start; the file is unchanged.\<close>

theorem create_table_unsaved:
  assumes "map_of (schemas c) (table_name sch) = None" "\<not> can_write c"
  shows "fst (create_table sch c) = Err EIO \<and>
    get_schema (snd (create_table sch c)) (table_name sch) = Ok (sch\<lparr>table_id := next_table_id c\<rparr>) \<and>
    cat_file (snd (create_table sch c)) = cat_file c"
proof -
  have "schemas (snd (create_table sch c)) = schemas c @ [(table_name sch, sch\<lparr>table_id := next_table_id c\<rparr>)]"
    using create_table_fresh [OF assms(1)] by simp
  then show ?thesis
    using assms by (simp add: get_schema_def map_add_def) (simp add: create_table_def save_def Let_def)
qed

theorem create_table_unsaved_witness:
  "fst (create_table users_schema (empty_catalog\<lparr>can_write := False\<rparr>)) = Err EIO"
  using create_table_unsaved [of "empty_catalog\<lparr>can_write := False\<rparr>" users_schema]
  by (simp add: empty_catalog_def)

text \<open>Errors of the planner: planning fails exactly when a table of the statement is not in the
  catalog, or an \<open>INSERT\<close> has a number of values other than the number of columns.\<close>

theorem plan_fails_iff:
  "(\<exists>e. plan_statement (reader_of c) st = Err e) \<longleftrightarrow>
     (\<exists>t \<in> set (tables_of_statement st). \<not> table_exists c t) \<or>
     (\<exists>t vs sch. st = InsertStatement t vs \<and> get_schema c t = Ok sch \<and> length vs \<noteq> length (columns sch))"
  using catalog_reads.plan_statement_fails_iff [of c st] by (simp add: reader_of_def)

text \<open>C33. Type invariant of plans: a plan reads and changes only tables of the statement, each node
  carries the schema the catalog has for its table, an index scan is a comparison of the primary key
  with something, an \<open>INSERT\<close> has as many values as columns, and a \<open>SELECT\<close> gives a query.\<close>

theorem plans_well_formed:
  assumes "plan_statement (reader_of c) st = Ok p"
  shows "planned (get_schema c) p \<and> set (plan_tables p) \<subseteq> set (tables_of_statement st) \<and>
    ((\<exists>s. st = SelectStatement s) \<longrightarrow> query p)"
  using catalog_reads.plan_statement_planned [of c st p] assms by (simp add: reader_of_def)

definition sample_select :: select_statement where
  "sample_select = \<lparr>sel_columns = [Wildcard], sel_table = ''users'', sel_join = None,
     sel_where = Some (BinaryExpr (Identifier [] ''id'') OpEQ (IntLiteral 7)), sel_order_by = None, sel_limit = None\<rparr>"

definition users_catalog :: catalog where
  "users_catalog = empty_catalog\<lparr>schemas := [(''users'', users_schema)], next_table_id := 1\<rparr>"

theorem plans_well_formed_witness:
  "planned (get_schema users_catalog)
     (ProjectionNode (IndexScanNode ''users'' users_schema (BinaryExpr (Identifier [] ''id'') OpEQ (IntLiteral 7))) [Wildcard])"
proof -
  have "plan_statement (reader_of users_catalog) (SelectStatement sample_select) =
    Ok (ProjectionNode (IndexScanNode ''users'' users_schema (BinaryExpr (Identifier [] ''id'') OpEQ (IntLiteral 7))) [Wildcard])"
    by (simp add: plan_select_def plan_schema_def plan_scan_def reader_of_def get_schema_def users_catalog_def
      sample_select_def choose_scan_def primary_key_index_def users_schema_def sample_column_def name_column_def
      add_filter_def add_order_def add_limit_def indexable_def)
  from plans_well_formed [OF this] show ?thesis by simp
qed

end
