(* ===== verification/Repository.thy ===== *)
theory Repository
  imports Query Tree Catalog
begin

text \<open>
  \<open>infrastructure/btree_repository.go\<close>: the tables as one tree, with the schemas of the open tables by
  name. The operations are packed into the \<open>TableRepository\<close> interface of the executor, and the
  contract the query executors read through (\<open>table_reader\<close>) is discharged by the tree.
\<close>

section \<open>The repository\<close>

record btree_repository =
  bt_store :: storage
  open_schemas :: "string \<Rightarrow> schema option"

definition on_tree :: "(storage, 'a) go \<Rightarrow> (btree_repository, 'a) go" where
  "on_tree f r = (case f (bt_store r) of (x, s) \<Rightarrow> (x, r\<lparr>bt_store := s\<rparr>))"

definition new_btree_repository :: "storage \<Rightarrow> btree_repository res" where
  "new_btree_repository s =
     (case new_btree s of
        (Ok _, s') \<Rightarrow> Ok \<lparr>bt_store = s', open_schemas = (\<lambda>_. None)\<rparr>
      | (Err e, _) \<Rightarrow> Err e | (Panic, _) \<Rightarrow> Panic | (Stuck, _) \<Rightarrow> Stuck)"

definition open_table :: "string \<Rightarrow> schema \<Rightarrow> (btree_repository, unit) go" where
  "open_table t sch r = (Ok (), r\<lparr>open_schemas := (open_schemas r)(t \<mapsto> sch)\<rparr>)"

definition schema_of :: "string \<Rightarrow> (btree_repository, schema) go" where
  "schema_of t r = (case open_schemas r t of None \<Rightarrow> (Err (ETableNotOpen t), r) | Some sch \<Rightarrow> (Ok sch, r))"

definition find_by_pk :: "nat \<Rightarrow> string \<Rightarrow> value_t \<Rightarrow> (btree_repository, row option) go" where
  "find_by_pk n t pk = bindG (schema_of t) (\<lambda>sch. on_tree (search n (table_id sch) (Some pk) sch))"

definition scan_rows :: "nat \<Rightarrow> nat \<Rightarrow> string \<Rightarrow> (btree_repository, row list) go" where
  "scan_rows n m t = bindG (schema_of t) (\<lambda>sch. on_tree (scan n m (table_id sch) sch))"

text \<open>A schema without primary key has index -1, and \<open>row.Values[-1]\<close> panics.\<close>

definition insert_into :: "nat \<Rightarrow> string \<Rightarrow> row \<Rightarrow> u64 \<Rightarrow> (btree_repository, unit) go" where
  "insert_into n t r txn =
     bindG (schema_of t) (\<lambda>sch.
     bindG (pureG (value_at r (primary_key_index sch))) (\<lambda>pk.
     on_tree (insert_row n (table_id sch) (Some pk) r sch txn)))"

definition update_in :: "nat \<Rightarrow> string \<Rightarrow> value_t \<Rightarrow> row \<Rightarrow> u64 \<Rightarrow> (btree_repository, unit) go" where
  "update_in n t pk r txn = bindG (schema_of t) (\<lambda>sch. on_tree (update_row n (table_id sch) (Some pk) r sch txn))"

definition delete_from :: "nat \<Rightarrow> string \<Rightarrow> value_t \<Rightarrow> u64 \<Rightarrow> (btree_repository, unit) go" where
  "delete_from n t pk txn = bindG (schema_of t) (\<lambda>sch. on_tree (delete_row n (table_id sch) (Some pk) txn))"

definition tree_repository :: "nat \<Rightarrow> nat \<Rightarrow> btree_repository repository" where
  "tree_repository n m =
     \<lparr>repo_open_table = open_table, repo_find_by_pk = find_by_pk n, repo_scan = scan_rows n m,
      repo_insert = insert_into n, repo_update = update_in n, repo_delete = delete_from n\<rparr>"

section \<open>Reading tables through the tree\<close>

text \<open>The contents of the tables of a tree: \<open>n\<close> is the fuel for its height, \<open>m\<close> for its leaves.\<close>

definition table_rows :: "(string \<Rightarrow> schema option) \<Rightarrow> tree \<Rightarrow> string \<Rightarrow> row list" where
  "table_rows schs t tb = (case schs tb of None \<Rightarrow> [] | Some sch \<Rightarrow> rows_of sch (table_id sch) (tree_cells t))"

definition table_find :: "(string \<Rightarrow> schema option) \<Rightarrow> tree \<Rightarrow> string \<Rightarrow> value_t \<Rightarrow> row option" where
  "table_find schs t tb v =
     (case schs tb of
        None \<Rightarrow> None
      | Some sch \<Rightarrow>
          map_option (\<lambda>c. snd (snd (the (decode_leaf_cell c sch))))
            (find (\<lambda>c. ckey c = (table_id sch, v)) (tree_cells t)))"

definition key_fits :: "env \<Rightarrow> (string \<Rightarrow> schema option) \<Rightarrow> string \<Rightarrow> value_t \<Rightarrow> bool" where
  "key_fits e schs tb v \<longleftrightarrow> (\<forall>sch. schs tb = Some sch \<longrightarrow> ckey_ok (key_kinds e) (table_id sch, v))"

definition repo_ok :: "env \<Rightarrow> nat \<Rightarrow> tree \<Rightarrow> (string \<Rightarrow> schema option) \<Rightarrow> nat \<Rightarrow> nat \<Rightarrow> btree_repository \<Rightarrow> bool" where
  "repo_ok e h t schs n m r \<longleftrightarrow>
     reader_ready (bt_store r) \<and> btree_ok e h t (obs (bt_store r)) \<and> open_schemas r = schs \<and>
     h < n \<and> length (leaves t) < m \<and>
     (\<forall>tb sch. schs tb = Some sch \<longrightarrow> decodable sch (table_id sch) (tree_cells t))"

text \<open>Reading keeps what can be observed of the storage, \<open>x\<close>.\<close>

interpretation tables: table_reader "tree_repository n m" "\<lambda>r. repo_ok e h t schs n m r \<and> obs (bt_store r) = x"
  "\<lambda>tb. schs tb \<noteq> None" "key_fits e schs" "table_rows schs t" "table_find schs t" for e h t schs n m x
proof (unfold_locales, goal_cases)
  case (1 r tb)
  then obtain sch where sch: "schs tb = Some sch" by auto
  note ok = conjunct1 [OF 1(1), unfolded repo_ok_def]
  obtain s' where s': "scan n m (table_id sch) sch (bt_store r) = (Ok (rows_of sch (table_id sch) (tree_cells t)), s')"
    "obs s' = obs (bt_store r)" "reader_ready s'"
    using scan_ok [of e h t "bt_store r" n m sch "table_id sch"] ok sch by blast
  have "repo_ok e h t schs n m (r\<lparr>bt_store := s'\<rparr>)"
    using ok s' by (simp add: repo_ok_def)
  moreover have "repo_scan (tree_repository n m) tb r = (Ok (table_rows schs t tb), r\<lparr>bt_store := s'\<rparr>)"
    using ok s'(1) sch by (simp add: tree_repository_def scan_rows_def schema_of_def on_tree_def bindG_def table_rows_def)
  ultimately show ?case
    using s'(2) 1(1) by auto
next
  case (2 r tb v)
  then obtain sch where sch: "schs tb = Some sch" by auto
  note ok = conjunct1 [OF 2(1), unfolded repo_ok_def]
  have k: "ckey_ok (key_kinds e) (table_id sch, v)"
    using 2(3) sch by (simp add: key_fits_def)
  have d: "decode_leaf_cell c sch = Some (the (decode_leaf_cell c sch))"
    if "c \<in> set (tree_cells t)" "ckey c = (table_id sch, v)" for c
    using ok sch that by (auto simp: decodable_def)
  obtain s' where s': "search n (table_id sch) (Some v) sch (bt_store r) = (Ok (table_find schs t tb v), s')"
    "obs s' = obs (bt_store r)" "reader_ready s'"
    using search_ok [of e h t "bt_store r" "table_id sch" v n sch "\<lambda>c. the (decode_leaf_cell c sch)"] ok k d
    unfolding table_find_def sch option.case by blast
  have "repo_ok e h t schs n m (r\<lparr>bt_store := s'\<rparr>)"
    using ok s' by (simp add: repo_ok_def)
  moreover have "repo_find_by_pk (tree_repository n m) tb v r = (Ok (table_find schs t tb v), r\<lparr>bt_store := s'\<rparr>)"
    using ok s'(1) sch by (simp add: tree_repository_def find_by_pk_def schema_of_def on_tree_def bindG_def)
  ultimately show ?case
    using s'(2) 2(1) by auto
qed

section \<open>A database of one row\<close>

text \<open>The instance the witnesses use: the table \<open>users\<close> with the row \<open>(7, 'Bob')\<close>, on the leaf page 0.\<close>

definition user_row :: row where
  "user_row = [IntValue 7, StringValue ''Bob'']"

definition user_cell :: "byte list" where
  "user_cell = the (encode_leaf_cell 0 (Some (IntValue 7)) user_row users_schema)"

definition users_env :: env where
  "users_env = \<lparr>key_kinds = (\<lambda>_. KindInt), min_cell = 8, max_cell = 120\<rparr>"

definition users_tree :: tree where
  "users_tree = Leaf 0 [user_cell] no_page_id"

definition users_page :: page where
  "users_page = the (add_cells [user_cell] sample_leaf)"

definition users_storage :: storage where
  "users_storage = \<lparr>disk = sample_disk\<lparr>dfile := sample_file\<lparr>fbytes := file_header 0 1 @ users_page\<rparr>\<rparr>, wal = sample_wal,
     bpool = \<lparr>frames = [], lru = [], max_size = 8\<rparr>\<rparr>"

definition users_repository :: btree_repository where
  "users_repository = \<lparr>bt_store = users_storage, open_schemas = [''users'' \<mapsto> users_schema]\<rparr>"

lemma user_cell_facts:
  "encode_leaf_cell 0 (Some (IntValue 7)) user_row users_schema = Some user_cell"
  "decode_leaf_cell user_cell users_schema = Some (0, Some (IntValue 7), user_row)"
  "ckey user_cell = (0, IntValue 7)" "cell_ok (key_kinds users_env) user_cell" "length user_cell = 31"
proof -
  have conf: "row_conforms users_schema user_row"
    by (simp add: row_conforms_def user_row_def users_schema_def sample_column_def name_column_def)
  obtain cell where c: "encode_leaf_cell 0 (Some (IntValue 7)) user_row users_schema = Some cell"
    "length cell = leaf_cell_size 0 (Some (IntValue 7)) user_row"
    "decode_leaf_cell cell users_schema = Some (0, Some (IntValue 7), user_row)"
    "decode_composite_key cell = Some (0, Some (IntValue 7), length (encode_composite_key 0 (Some (IntValue 7))))"
    by (rule decode_encode_leaf_cell [OF conf, of "Some (IntValue 7)" 0])
      (simp_all add: users_schema_def user_row_def leaf_cell_size_def encode_composite_key_def bitmap_size_def)
  have u: "user_cell = cell"
    by (simp add: user_cell_def c(1))
  show "encode_leaf_cell 0 (Some (IntValue 7)) user_row users_schema = Some user_cell"
    "decode_leaf_cell user_cell users_schema = Some (0, Some (IntValue 7), user_row)"
    using c u by simp_all
  show "ckey user_cell = (0, IntValue 7)" "cell_ok (key_kinds users_env) user_cell"
    using c(4) u by (simp_all add: ckey_def cell_ok_def cell_key_def users_env_def ckey_ok.simps)
  show "length user_cell = 31"
    using c(2) u by (simp add: leaf_cell_size_def user_row_def encode_composite_key_def bitmap_size_def)
qed

lemma users_page_facts:
  "leaf_page users_page 0 [user_cell] no_page_id" "length users_page = 4096" "page_id users_page = 0"
proof -
  have ne: "\<forall>c \<in> set [user_cell]. c \<noteq> []"
    using user_cell_facts(5) by auto
  obtain q where q: "add_cells [user_cell] sample_leaf = Some q" "page_wf q" "same_header sample_leaf q"
    "page_cells q = page_cells sample_leaf @ [user_cell]"
    by (rule add_cells_ok [of sample_leaf "[user_cell]"]) (use ne user_cell_facts(5) in simp_all)
  then have "users_page = q"
    by (simp add: users_page_def)
  with q show "leaf_page users_page 0 [user_cell] no_page_id" "length users_page = 4096" "page_id users_page = 0"
    by (auto simp: leaf_page_def same_header_def page_wf_length)
qed

lemma users_disk:
  "disk_ok (disk users_storage)" "next_page_id (disk users_storage) = 1" "root_page_id (disk users_storage) = 0"
  "disk_view (disk users_storage) i = (if i = 0 then Some users_page else None)"
proof -
  have "unat i = 0 \<longleftrightarrow> i = 0"
    by (simp add: unat_eq_0)
  then have "page_offset i + 4096 \<le> 8192 \<longleftrightarrow> i = 0"
    by (auto simp: page_offset_def)
  then show "disk_view (disk users_storage) i = (if i = 0 then Some users_page else None)"
    using users_page_facts(2) by (auto simp: disk_view_def users_storage_def sample_disk_def page_offset_def)
  show "disk_ok (disk users_storage)"
    using users_page_facts(2)
    by (simp add: users_storage_def sample_disk_def disk_ok_def page_offset_def sample_file_def)
qed (simp_all add: users_storage_def)

lemma users_storage_facts:
  "frame_at users_storage i = None" "pins users_storage i = 0" "owner users_storage i = None"
  "view users_storage i = (if i = 0 then Some users_page else None)" "busy users_storage = {}"
  "wal users_storage = sample_wal" "max_size (bpool users_storage) = 8"
proof -
  show f: "frame_at users_storage i = None" for i
    by (simp add: frame_at_def users_storage_def)
  show "pins users_storage i = 0" "owner users_storage i = None" "busy users_storage = {}"
    "view users_storage i = (if i = 0 then Some users_page else None)"
    by (simp_all add: pins_def owner_def busy_def view_def f users_disk(4))
qed (simp_all add: users_storage_def)

lemma users_ready: "reader_ready users_storage"
proof -
  have "dom (frame_at users_storage) = {}"
    by (auto simp: users_storage_facts)
  moreover have "lru (bpool users_storage) = []" "frames (bpool users_storage) = []"
    by (simp_all add: users_storage_def)
  ultimately have "pool_ok {} users_storage"
    using users_disk users_page_facts(3) by (auto simp: pool_ok_def users_storage_facts split: if_splits)
  then have "db_ok {} users_storage"
    unfolding db_ok_def by (auto simp: users_storage_facts images_ok_def logged_def safe_def images_def committed_images_def intro!: exI [of _ "[]"])
  then show ?thesis
    by (simp add: reader_ready_def room_def users_storage_facts)
qed

lemma users_tree_ok: "btree_ok users_env 0 users_tree (obs users_storage)"
  unfolding btree_ok_def
proof (intro conjI)
  show "env_ok users_env"
    by (simp add: env_ok_def users_env_def)
  show "holds_tree (o_view (obs users_storage)) users_tree"
    using users_page_facts(1) by (simp add: users_tree_def obs_fields(6) users_storage_facts users_disk(2))
  show "tree_in users_env None None users_tree"
    using user_cell_facts
    by (simp add: users_tree_def leaf_in_def cell_in_env_def key_in_env_def sized_def users_env_def length_icell
      encode_composite_key_def ckey_ok.simps)
qed (simp_all add: users_tree_def users_disk)

lemma users_repository_ok: "repo_ok users_env 0 users_tree [''users'' \<mapsto> users_schema] 1 2 users_repository"
  using users_ready users_tree_ok user_cell_facts(2)
  by (auto simp: repo_ok_def users_repository_def users_tree_def decodable_def)

section \<open>Properties\<close>

text \<open>C30. Point lookup: in a well-formed tree \<open>Search\<close> returns the row of the cell with the given table and
  key, or nothing when there is none, and changes nothing that can be observed.\<close>

theorem search_finds_row:
  assumes "btree_ok e h t (obs s)" "reader_ready s" "ckey_ok (key_kinds e) (tid, v)" "h < fuel"
    and "decodable sch tid (tree_cells t)"
  shows "\<exists>s'. search fuel tid (Some v) sch s =
      (Ok (map_option (\<lambda>c. snd (snd (the (decode_leaf_cell c sch)))) (find (\<lambda>c. ckey c = (tid, v)) (tree_cells t))), s') \<and>
    obs s' = obs s \<and> reader_ready s'"
proof -
  have d: "decode_leaf_cell c sch = Some (the (decode_leaf_cell c sch))"
    if "c \<in> set (tree_cells t)" "ckey c = (tid, v)" for c
    using assms(5) that by (auto simp: decodable_def)
  show ?thesis
    using search_ok [OF assms(1-4), of sch "\<lambda>c. the (decode_leaf_cell c sch)"] d by metis
qed

theorem search_finds_row_witness:
  "\<exists>s'. search 1 0 (Some (IntValue 7)) users_schema users_storage = (Ok (Some user_row), s') \<and> obs s' = obs users_storage"
proof -
  have d: "decodable users_schema 0 (tree_cells users_tree)" and k: "ckey_ok (key_kinds users_env) (0, IntValue 7)"
    using user_cell_facts by (simp_all add: decodable_def users_tree_def users_env_def)
  show ?thesis
    using search_finds_row [OF users_tree_ok users_ready k _ d, of 1] user_cell_facts by (auto simp: users_tree_def)
qed

text \<open>Scan: in a well-formed tree \<open>Scan\<close> returns the rows of a table in the order of the primary key, the
  rows of the other tables left out, and changes nothing that can be observed.\<close>

theorem scan_returns_table:
  assumes "btree_ok e h t (obs s)" "reader_ready s" "h < fuel" "length (leaves t) < fuel2" "decodable sch tid (tree_cells t)"
  shows "\<exists>s'. scan fuel fuel2 tid sch s = (Ok (rows_of sch tid (tree_cells t)), s') \<and> obs s' = obs s \<and> reader_ready s' \<and>
    sorted_wrt (<) (map ckey (tree_cells t))"
proof -
  have "sorted_wrt (<) (map ckey (tree_cells t))"
    using leaf_in_sorted [OF tree_in_cells] assms(1) by (auto simp: btree_ok_def)
  then show ?thesis
    using scan_ok [OF assms] by metis
qed

theorem scan_returns_table_witness:
  "\<exists>s'. scan 1 2 0 users_schema users_storage = (Ok [user_row], s')"
proof -
  have d: "decodable users_schema 0 (tree_cells users_tree)"
    using user_cell_facts by (simp add: decodable_def users_tree_def)
  show ?thesis
    using scan_returns_table [OF users_tree_ok users_ready _ _ d, of 1 2] user_cell_facts
    by (auto simp: users_tree_def rows_of_def)
qed

end
