(* ===== verification/Select.thy ===== *)
theory Select
  imports Repository
begin

text \<open>
  What the executors of a \<open>SELECT\<close> do, from the plan down to the pages of the tree: the evaluation of
  conditions, sorting, the outcome of the plan of a statement on one table, index scans, and where the code
  departs from SQL (ranges of the primary key, joins, sorting after a projection). What SQL means by a query,
  and that well-posed plans are executed to it, is in \<open>Relational\<close>.
\<close>

section \<open>Evaluation of conditions\<close>

text \<open>Typing: an operand of a comparison is a literal or a column that is not nullable.\<close>

definition value_of_kind :: "data_type_kind \<Rightarrow> value_t \<Rightarrow> bool" where
  "value_of_kind k v \<longleftrightarrow>
     (case k of KindIntType \<Rightarrow> kind_of v = KindInt | KindVarcharType \<Rightarrow> kind_of v = KindString | KindBoolType \<Rightarrow> kind_of v = KindBool)"

definition row_typed :: "schema \<Rightarrow> row \<Rightarrow> bool" where
  "row_typed sch r \<longleftrightarrow> length r = length (columns sch) \<and>
     (\<forall>i < length r. value_of_kind (dt_kind (col_type (columns sch ! i))) (r ! i) \<or>
        \<not> not_null (columns sch ! i) \<and> r ! i = NullValue)"

fun operand_kind :: "schema \<Rightarrow> expr \<Rightarrow> data_type_kind option" where
  "operand_kind sch (Identifier _ c) =
     (let i = col_index sch c in
      if i \<ge> 0 \<and> not_null (columns sch ! nat i) then Some (dt_kind (col_type (columns sch ! nat i))) else None)"
| "operand_kind sch (IntLiteral _) = Some KindIntType"
| "operand_kind sch (StringLiteral _) = Some KindVarcharType"
| "operand_kind sch (BoolLiteral _) = Some KindBoolType"
| "operand_kind sch _ = None"

fun operand_known :: "schema \<Rightarrow> expr \<Rightarrow> bool" where
  "operand_known sch (Identifier _ c) = (col_index sch c \<ge> 0)"
| "operand_known sch e = (e \<noteq> Wildcard \<and> (\<forall>x. eval_literal e \<noteq> Err x))"

fun cond_typed :: "schema \<Rightarrow> expr \<Rightarrow> bool" where
  "cond_typed sch (BinaryExpr l op r) =
     (if op = OpAND \<or> op = OpOR then cond_typed sch l \<and> cond_typed sch r
      else operand_kind sch l \<noteq> None \<and> operand_kind sch l = operand_kind sch r)"
| "cond_typed sch (UnaryExpr op e) = (op = ''NOT'' \<and> cond_typed sch e)"
| "cond_typed sch (IsNullExpr e) = operand_known sch e"
| "cond_typed sch (IsNotNullExpr e) = operand_known sch e"
| "cond_typed sch _ = False"

lemma col_index_from_bounds:
  "col_index_from i cs name = -1 \<or> i \<le> col_index_from i cs name \<and> col_index_from i cs name < i + int (length cs) \<and>
     col_name (cs ! nat (col_index_from i cs name - i)) = name"
proof (induction cs arbitrary: i)
  case (Cons c cs)
  have "nat (k - i) = Suc (nat (k - (i + 1)))" if "i + 1 \<le> k" for k
    using that by simp
  then show ?case
    using Cons.IH [of "i + 1"] by auto
qed simp

lemma col_index_bounds:
  "0 \<le> col_index sch c \<Longrightarrow>
   nat (col_index sch c) < length (columns sch) \<and> col_name (columns sch ! nat (col_index sch c)) = c"
  using col_index_from_bounds [of 0 "columns sch" c] by (auto simp: col_index_def)

lemma eval_value_typed:
  assumes "operand_kind sch e = Some k" "row_typed sch r"
  obtains v where "eval_value e r sch = Ok v" "value_of_kind k v"
proof (cases e)
  case (Identifier t c)
  let ?i = "nat (col_index sch c)"
  have i: "0 \<le> col_index sch c" "not_null (columns sch ! ?i)" "k = dt_kind (col_type (columns sch ! ?i))"
    using assms(1) Identifier by (auto simp: Let_def split: if_splits)
  have l: "?i < length r" "length r = length (columns sch)"
    using col_index_bounds [OF i(1)] assms(2) by (auto simp: row_typed_def)
  have "eval_value e r sch = Ok (r ! ?i)"
    using i l by (simp add: Identifier value_at_def Let_def)
  moreover have "value_of_kind k (r ! ?i)"
    using assms(2) i l by (auto simp: row_typed_def)
  ultimately show thesis by (rule that)
qed (use assms that in \<open>auto simp: value_of_kind_def\<close>)

lemma value_cmp_typed: "value_of_kind k v \<Longrightarrow> value_of_kind k w \<Longrightarrow> \<exists>i. value_cmp v w = Ok i"
  by (cases v; cases w; cases k) (auto simp: value_of_kind_def)

lemma op_holds_comparison: "op \<noteq> OpAND \<Longrightarrow> op \<noteq> OpOR \<Longrightarrow> \<exists>b. op_holds op i = Ok b"
  by (cases op) (auto simp: op_holds_def)

lemma eval_value_known:
  assumes "operand_known sch e" "row_typed sch r"
  shows "\<exists>v. eval_value e r sch = Ok v"
proof (cases e)
  case (Identifier t c)
  then have "0 \<le> col_index sch c"
    using assms(1) by simp
  with col_index_bounds [OF this] assms(2) show ?thesis
    by (auto simp: Identifier value_at_def row_typed_def Let_def)
qed (use assms(1) in auto)

text \<open>Type soundness of conditions: a well-typed \<open>WHERE\<close> or \<open>ON\<close> condition evaluates to a truth value
  on every row of the types of the schema; it neither fails nor panics.\<close>

theorem typed_condition_evaluates:
  assumes "cond_typed sch e" "row_typed sch r"
  shows "\<exists>b. eval_cond e r sch = Ok b"
  using assms(1)
proof (induction e)
  case (BinaryExpr l op ri)
  show ?case
  proof (cases "op = OpAND \<or> op = OpOR")
    case True
    then obtain a b where "eval_cond l r sch = Ok a" "eval_cond ri r sch = Ok b"
      using BinaryExpr by auto
    then show ?thesis
      using True by auto
  next
    case False
    then have eq: "(\<exists>k. operand_kind sch l = Some k) \<and> operand_kind sch l = operand_kind sch ri"
      using BinaryExpr.prems False by (metis cond_typed.simps(1) not_None_eq)
    then obtain k where "operand_kind sch l = Some k"
      by blast
    with eq have k: "operand_kind sch l = Some k" "operand_kind sch ri = Some k"
      by simp_all
    obtain v where v: "eval_value l r sch = Ok v" "value_of_kind k v"
      by (rule eval_value_typed [OF k(1) assms(2)])
    obtain w where w: "eval_value ri r sch = Ok w" "value_of_kind k w"
      by (rule eval_value_typed [OF k(2) assms(2)])
    obtain i where "value_cmp v w = Ok i"
      using value_cmp_typed v(2) w(2) by blast
    with v w False op_holds_comparison [of op i] show ?thesis
      by simp
  qed
qed (auto dest: eval_value_known [OF _ assms(2)])

theorem typed_condition_evaluates_witness:
  "\<exists>b. eval_cond (BinaryExpr (Identifier [] ''id'') OpGT (IntLiteral 3)) [IntValue 7, NullValue] users_schema = Ok b"
  by (rule typed_condition_evaluates)
    (simp_all add: users_schema_def sample_column_def name_column_def col_index_def row_typed_def value_of_kind_def
      less_Suc_eq)

text \<open>Comparisons with NULL: whatever the right side evaluates to, a NULL (or a boolean) on the left
  compares as equal, so \<open>=\<close>, \<open><=\<close> and \<open>>=\<close> hold for it and \<open>!=\<close>, \<open><\<close> and \<open>>\<close> do not.\<close>

theorem null_compares_equal:
  assumes "eval_value l r sch = Ok v" "v = NullValue \<or> kind_of v = KindBool" "eval_value e r sch = Ok w"
  shows "eval_cond (BinaryExpr l OpEQ e) r sch = Ok True \<and> eval_cond (BinaryExpr l OpLTE e) r sch = Ok True \<and>
    eval_cond (BinaryExpr l OpGTE e) r sch = Ok True \<and> eval_cond (BinaryExpr l OpNEQ e) r sch = Ok False \<and>
    eval_cond (BinaryExpr l OpLT e) r sch = Ok False \<and> eval_cond (BinaryExpr l OpGT e) r sch = Ok False"
  using assms by (cases v) (auto simp: op_holds_def)

theorem null_compares_equal_witness:
  "eval_cond (BinaryExpr (Identifier [] ''name'') OpEQ (StringLiteral ''Bob'')) [IntValue 1, NullValue] users_schema = Ok True"
  using null_compares_equal [of "Identifier [] ''name''" "[IntValue 1, NullValue]" users_schema NullValue
      "StringLiteral ''Bob''" "StringValue ''Bob''"]
  by (simp add: users_schema_def sample_column_def name_column_def col_index_def value_at_def)

section \<open>Sorting\<close>

text \<open>A comparison that is a total preorder given by a key.\<close>

lemma insert_back_ok:
  assumes "\<And>x y. x \<in> A \<Longrightarrow> y \<in> A \<Longrightarrow> lt x y = Ok (key x < (key y :: 'k :: linorder))"
    and "x \<in> A" "set ys \<subseteq> A"
  shows "insert_back lt x ys = Ok (takeWhile (\<lambda>y. key x < key y) ys @ x # dropWhile (\<lambda>y. key x < key y) ys)"
  using assms(3) by (induction ys) (use assms(1,2) in auto)

lemma insert_rev_sorted:
  fixes key :: "'a \<Rightarrow> 'k :: linorder"
  assumes "sorted_wrt (\<lambda>a b. key b \<le> key a) ys"
  shows "sorted_wrt (\<lambda>a b. key b \<le> key a) (takeWhile (\<lambda>y. key x < key y) ys @ x # dropWhile (\<lambda>y. key x < key y) ys)"
    "filter (\<lambda>y. key y = k) (takeWhile (\<lambda>y. key x < key y) ys @ x # dropWhile (\<lambda>y. key x < key y) ys) =
       (if key x = k then x # filter (\<lambda>y. key y = k) ys else filter (\<lambda>y. key y = k) ys)"
proof -
  have d: "\<forall>y \<in> set (dropWhile (\<lambda>y. key x < key y) ys). key y \<le> key x"
    using assms by (induction ys) (auto simp: not_less intro: order.trans)
  have s: "sorted_wrt (\<lambda>a b. key b \<le> key a) (takeWhile (\<lambda>y. key x < key y) ys @ dropWhile (\<lambda>y. key x < key y) ys)"
    using assms by simp
  then show "sorted_wrt (\<lambda>a b. key b \<le> key a) (takeWhile (\<lambda>y. key x < key y) ys @ x # dropWhile (\<lambda>y. key x < key y) ys)"
    unfolding sorted_wrt_append using d by (auto dest: set_takeWhileD)
  show "filter (\<lambda>y. key y = k) (takeWhile (\<lambda>y. key x < key y) ys @ x # dropWhile (\<lambda>y. key x < key y) ys) =
       (if key x = k then x # filter (\<lambda>y. key y = k) ys else filter (\<lambda>y. key y = k) ys)"
  proof -
    have "filter (\<lambda>y. key y = k) ys =
        filter (\<lambda>y. key y = k) (takeWhile (\<lambda>y. key x < key y) ys) @ filter (\<lambda>y. key y = k) (dropWhile (\<lambda>y. key x < key y) ys)"
      by (metis filter_append takeWhile_dropWhile_id)
    moreover have "filter (\<lambda>y. key y = k) (takeWhile (\<lambda>y. key x < key y) ys) = []" if "key x = k"
      using that by (auto simp: filter_empty_conv dest: set_takeWhileD)
    ultimately show ?thesis
      by simp
  qed
qed

lemma insertion_sort_ok:
  fixes key :: "'a \<Rightarrow> 'k :: linorder"
  assumes lt: "\<And>x y. x \<in> A \<Longrightarrow> y \<in> A \<Longrightarrow> lt x y = Ok (key x < key y)"
    and "set xs \<subseteq> A" "set acc \<subseteq> A" "sorted_wrt (\<lambda>a b. key b \<le> key a) acc"
  shows "\<exists>zs. insertion_sort lt acc xs = Ok zs \<and> sorted (map key zs) \<and> mset zs = mset acc + mset xs \<and>
    (\<forall>k. filter (\<lambda>y. key y = k) zs = filter (\<lambda>y. key y = k) (rev acc @ xs))"
  using assms(2-4)
proof (induction xs arbitrary: acc)
  case Nil
  have "sorted (map key (rev acc))"
    using Nil.prems(3) by (simp add: sorted_map sorted_wrt_rev)
  then show ?case
    by simp
next
  case (Cons x xs)
  let ?acc = "takeWhile (\<lambda>y. key x < key y) acc @ x # dropWhile (\<lambda>y. key x < key y) acc"
  have i: "insert_back lt x acc = Ok ?acc"
    using Cons.prems by (intro insert_back_ok [of A lt key]) (auto simp: lt)
  have m: "mset ?acc = add_mset x (mset acc)"
    by (metis mset.simps(2) mset_append takeWhile_dropWhile_id union_mset_add_mset_right)
  have "set ?acc \<subseteq> A"
    using Cons.prems by (auto dest: set_takeWhileD set_dropWhileD)
  with Cons.IH [of ?acc] insert_rev_sorted(1) [OF Cons.prems(3)] Cons.prems
  obtain zs where zs: "insertion_sort lt ?acc xs = Ok zs" "sorted (map key zs)" "mset zs = mset ?acc + mset xs"
    "\<forall>k. filter (\<lambda>y. key y = k) zs = filter (\<lambda>y. key y = k) (rev ?acc @ xs)"
    by auto
  have "filter (\<lambda>y. key y = k) (rev ?acc @ xs) = filter (\<lambda>y. key y = k) (rev acc @ x # xs)" for k
    using insert_rev_sorted(2) [OF Cons.prems(3), where x = x and k = k] 
    unfolding filter_append rev_filter [symmetric] by (simp del: rev_append)
  with zs m i show ?case
    by (intro exI [of _ zs]) simp
qed

text \<open>\<open>ORDER BY\<close> on column number \<open>i\<close> with values of one kind.\<close>

definition sort_column_ok :: "nat \<Rightarrow> value_kind \<Rightarrow> row list \<Rightarrow> bool" where
  "sort_column_ok i k rs \<longleftrightarrow> (k = KindInt \<or> k = KindString) \<and> (\<forall>r \<in> set rs. i < length r \<and> kind_of (r ! i) = k)"

definition in_order :: "bool \<Rightarrow> value_t \<Rightarrow> value_t \<Rightarrow> bool" where
  "in_order desc v w \<longleftrightarrow> (if desc then w \<le> v else v \<le> w)"

lemma row_less_ok:
  assumes "sort_column_ok i k rs" "a \<in> set rs" "b \<in> set rs"
  shows "row_less (int i) False a b = Ok (a ! i < b ! i)" "row_less (int i) True a b = Ok (b ! i < a ! i)"
  using assms by (cases "a ! i"; cases "b ! i"; force simp: sort_column_ok_def row_less_def value_at_def)+

text \<open>The order of values turned round.\<close>

datatype rev_value = Rev value_t

fun unrev :: "rev_value \<Rightarrow> value_t" where
  "unrev (Rev v) = v"

instantiation rev_value :: linorder
begin

definition less_eq_rev_value :: "rev_value \<Rightarrow> rev_value \<Rightarrow> bool" where
  "less_eq_rev_value a b \<longleftrightarrow> unrev b \<le> unrev a"

definition less_rev_value :: "rev_value \<Rightarrow> rev_value \<Rightarrow> bool" where
  "less_rev_value a b \<longleftrightarrow> unrev b < unrev a"

instance
proof
  fix a b c :: rev_value
  show "a < b \<longleftrightarrow> a \<le> b \<and> \<not> b \<le> a" "a \<le> a" "a \<le> b \<or> b \<le> a"
    by (auto simp: less_eq_rev_value_def less_rev_value_def)
  show "a \<le> b \<Longrightarrow> b \<le> c \<Longrightarrow> a \<le> c"
    by (simp add: less_eq_rev_value_def)
  show "a \<le> b \<Longrightarrow> b \<le> a \<Longrightarrow> a = b"
    by (cases a; cases b) (simp add: less_eq_rev_value_def)
qed

end

text \<open>\<open>ORDER BY\<close>: on a column whose values are all integers or all strings, sorting ends without a
  failure in a permutation of the rows that is in order (descending with \<open>DESC\<close>), with rows of equal
  values in the order they came.\<close>

theorem sort_rows_sorts:
  assumes "sort_column_ok i k rs"
  shows "\<exists>zs. sort_rows (int i) desc rs = Ok zs \<and> mset zs = mset rs \<and>
    sorted_wrt (in_order desc) (map (\<lambda>r. r ! i) zs) \<and>
    (\<forall>v. filter (\<lambda>r. r ! i = v) zs = filter (\<lambda>r. r ! i = v) rs)"
proof (cases desc)
  case False
  obtain zs where "insertion_sort (row_less (int i) False) [] rs = Ok zs" "sorted (map (\<lambda>r. r ! i) zs)"
    "mset zs = mset [] + mset rs" "\<forall>v. filter (\<lambda>r. r ! i = v) zs = filter (\<lambda>r. r ! i = v) (rev [] @ rs)"
    using insertion_sort_ok [of "set rs" "row_less (int i) False" "\<lambda>r. r ! i" rs "[]"] row_less_ok(1) [OF assms] by auto
  then show ?thesis
    using False by (auto simp: sort_rows_def in_order_def [abs_def])
next
  case True
  obtain zs where zs: "insertion_sort (row_less (int i) True) [] rs = Ok zs" "sorted (map (\<lambda>r. Rev (r ! i)) zs)"
    "mset zs = mset [] + mset rs" "\<forall>v. filter (\<lambda>r. Rev (r ! i) = v) zs = filter (\<lambda>r. Rev (r ! i) = v) (rev [] @ rs)"
    using insertion_sort_ok [of "set rs" "row_less (int i) True" "\<lambda>r. Rev (r ! i)" rs "[]"] row_less_ok(2) [OF assms]
    by (auto simp: less_rev_value_def)
  have "filter (\<lambda>r. r ! i = v) zs = filter (\<lambda>r. r ! i = v) rs" for v
    using zs(4) [rule_format, of "Rev v"] by simp
  moreover have "sorted_wrt (in_order True) (map (\<lambda>r. r ! i) zs)"
    using zs(2) by (simp add: sorted_wrt_map in_order_def less_eq_rev_value_def)
  ultimately show ?thesis
    using True zs by (auto simp: sort_rows_def)
qed

theorem sort_rows_sorts_witness:
  "\<exists>zs. sort_rows 1 True [[IntValue 1, StringValue ''Bob''], [IntValue 2, StringValue ''Cat'']] = Ok zs \<and>
    sorted_wrt (in_order True) (map (\<lambda>r. r ! 1) zs)"
  using sort_rows_sorts [of 1 KindString "[[IntValue 1, StringValue ''Bob''], [IntValue 2, StringValue ''Cat'']]" True]
  by (auto simp: sort_column_ok_def)

text \<open>\<open>ORDER BY\<close> after a projection: the sort looks the column up in the schema of the table, but the
  rows it sorts are already projected. When the position is beyond the projected row, two rows are
  enough for a panic.\<close>

theorem order_by_projected_panics:
  assumes "\<forall>r \<in> set rs. int (length r) \<le> col_index sch col" "2 \<le> length rs"
  shows "sort_rows (col_index sch col) desc rs = Panic"
proof -
  obtain a b rest where rs: "rs = a # b # rest"
    using assms(2) by (cases rs; cases "tl rs") auto
  then show ?thesis
    using assms(1) by (simp add: sort_rows_def row_less_def value_at_def)
qed

theorem order_by_projected_panics_witness:
  "sort_rows (col_index users_schema ''name'') False [[StringValue ''Bob''], [StringValue ''Al'']] = Panic"
  by (rule order_by_projected_panics) (simp_all add: users_schema_def sample_column_def name_column_def col_index_def)

section \<open>From the plan to the tree\<close>

lemma query_run:
  assumes "repo_ok e h t schs n m r"
  shows "query p \<Longrightarrow> plan_readable (\<lambda>tb. schs tb \<noteq> None) (key_fits e schs) p \<Longrightarrow>
    \<exists>N r'. repo_ok e h t schs n m r' \<and> obs (bt_store r') = obs (bt_store r) \<and> (\<forall>k \<ge> N.
    execute_locked k (tree_repository n m) (\<lambda>_. False) p txn r =
      (bindR (snd (meaning (table_rows schs t) (table_find schs t) p)) (\<lambda>_.
         Ok \<lparr>res_rows = fst (meaning (table_rows schs t) (table_find schs t) p), res_affected = 0,
             res_schema = Some (plan_output p)\<rparr>), r'))"
  using tables.execute_query [where e = e and schs = schs and t = t and n = n and m = m and h = h and txn = txn and x = "obs (bt_store r)"] assms
  unfolding tables.settles_def by blast

section \<open>The rows a SELECT computes\<close>

definition passes :: "expr option \<Rightarrow> schema \<Rightarrow> row \<Rightarrow> bool" where
  "passes wh sch r \<longleftrightarrow> where_holds wh r sch = Ok True"

definition projected :: "expr list \<Rightarrow> schema \<Rightarrow> row \<Rightarrow> row" where
  "projected cols sch r = (case project_row cols r sch of Ok x \<Rightarrow> x | _ \<Rightarrow> [])"

definition limited :: "int option \<Rightarrow> 'a list \<Rightarrow> 'a list" where
  "limited l xs = (case l of None \<Rightarrow> xs | Some k \<Rightarrow> take (nat k) xs)"

lemma run_map_keep:
  "\<forall>r \<in> set rs. \<exists>b. eval_cond w r sch = Ok b \<Longrightarrow>
   run_map (keep_if w sch) rs fin = (filter (\<lambda>r. eval_cond w r sch = Ok True) rs, fin)"
  by (induction rs) (auto simp: keep_if_def)

lemma run_map_project:
  "\<forall>r \<in> set rs. \<exists>x. project_row cols r sch = Ok x \<Longrightarrow>
   run_map (project_as cols sch) rs fin = (map (projected cols sch) rs, fin)"
  by (induction rs) (auto simp: project_as_def projected_def)

lemma meaning_limit:
  "meaning db look (add_limit l p) = (case meaning db look p of (rs, Ok u) \<Rightarrow> (limited l rs, Ok u) | x \<Rightarrow> meaning db look (add_limit l p))"
  by (auto simp: add_limit_def limited_def split: option.split prod.split res.split)

lemma choose_scan_seq:
  "(\<And>w. wh = Some w \<Longrightarrow> \<not> pk_comparison sch w) \<Longrightarrow> choose_scan t sch wh = SequentialScanNode t sch"
  by (rule choose_scan_cases [of t sch wh]) auto

lemma select_means:
  assumes "plan_select c s = Ok p" "sel_join s = None" "sel_order_by s = None" "cat_get_schema c (sel_table s) = Ok sch"
    and "\<forall>w. sel_where s = Some w \<longrightarrow> \<not> pk_comparison sch w"
    and "\<forall>r \<in> set (db (sel_table s)). \<exists>b. where_holds (sel_where s) r sch = Ok b"
    and "\<forall>r \<in> set (db (sel_table s)). \<exists>x. project_row (sel_columns s) r sch = Ok x"
  shows "meaning db look p =
    (limited (sel_limit s) (map (projected (sel_columns s) sch) (filter (passes (sel_where s) sch) (db (sel_table s)))), Ok ()) \<and>
    plan_output p = sch \<and> query p \<and> plan_readable opened fits p = opened (sel_table s)"
proof -
  let ?t = "sel_table s"
  have p: "p = add_limit (sel_limit s)
      (ProjectionNode (add_filter (sel_where s) (SequentialScanNode ?t sch)) (sel_columns s))"
    using assms(1-5) choose_scan_seq [of "sel_where s" sch ?t]
    by (simp add: plan_select_def plan_schema_def plan_scan_def add_order_def)
  have f: "meaning db look (add_filter (sel_where s) (SequentialScanNode ?t sch)) = (filter (passes (sel_where s) sch) (db ?t), Ok ())"
    "plan_output (add_filter (sel_where s) (SequentialScanNode ?t sch)) = sch"
    using assms(6) run_map_keep [of "db ?t"]
    by (auto simp: add_filter_def passes_def [abs_def] where_holds_def split: option.splits)
  have "meaning db look (ProjectionNode (add_filter (sel_where s) (SequentialScanNode ?t sch)) (sel_columns s)) =
      (map (projected (sel_columns s) sch) (filter (passes (sel_where s) sch) (db ?t)), Ok ())"
    using assms(7) run_map_project [of "filter (passes (sel_where s) sch) (db ?t)"] by (simp add: f)
  moreover have "plan_output p = sch" "query p" "plan_readable opened fits p = opened (sel_table s)"
    using f(2) by (simp_all add: p add_filter_def add_limit_def split: option.split)
  ultimately show ?thesis
    unfolding p by (subst meaning_limit) simp
qed

section \<open>Index scans\<close>

text \<open>The primary key of every row of the table is the key of its cell, and of the kind of \<open>v\<close>.\<close>

definition keyed :: "schema \<Rightarrow> nat \<Rightarrow> value_t \<Rightarrow> byte list list \<Rightarrow> bool" where
  "keyed sch i v cs \<longleftrightarrow>
     (\<forall>c \<in> set cs. fst (ckey c) = table_id sch \<longrightarrow>
        (\<exists>tid k r. decode_leaf_cell c sch = Some (tid, k, r) \<and> i < length r \<and> r ! i = snd (ckey c) \<and>
           kind_of (r ! i) = kind_of v))"

lemma filter_find_unique:
  "distinct (map f xs) \<Longrightarrow> filter (\<lambda>x. f x = k) xs = (case find (\<lambda>x. f x = k) xs of None \<Rightarrow> [] | Some x \<Rightarrow> [x])"
proof (induction xs)
  case (Cons x xs)
  show ?case
  proof (cases "f x = k")
    case True
    then have "filter (\<lambda>x. f x = k) xs = []"
      using Cons.prems by (auto simp: filter_empty_conv) (metis image_eqI)
    with True show ?thesis by simp
  qed (use Cons in simp)
qed simp

lemma eval_equality:
  assumes "col_index sch pk = int i" "eval_literal l = Ok v" "v \<noteq> NullValue" "kind_of v \<noteq> KindBool"
    and "i < length r" "kind_of (r ! i) = kind_of v"
  shows "eval_cond (BinaryExpr (Identifier x pk) OpEQ l) r sch = Ok (r ! i = v)"
proof -
  have "eval_value l r sch = Ok v"
    using assms(2) by (cases l) auto
  moreover have "bindR (value_cmp (r ! i) v) (\<lambda>cmp. op_holds OpEQ cmp) = Ok (r ! i = v)"
    using assms(3,4,6) by (cases v; cases "r ! i") (auto simp: op_holds_def dest: signed_word_eqI)
  ultimately show ?thesis
    using assms(1,5) by (simp add: value_at_def)
qed

lemma index_scan_meaning:
  assumes "sorted_wrt (<) (map ckey (tree_cells t))" "schs tb = Some sch" "col_index sch pk = int i"
    and "eval_literal l = Ok v" "v \<noteq> NullValue" "kind_of v \<noteq> KindBool" "keyed sch i v (tree_cells t)"
  shows "meaning (table_rows schs t) (table_find schs t) (IndexScanNode tb sch (BinaryExpr (Identifier x pk) OpEQ l)) =
    meaning (table_rows schs t) (table_find schs t)
      (FilterNode (SequentialScanNode tb sch) (BinaryExpr (Identifier x pk) OpEQ l))"
proof -
  let ?w = "BinaryExpr (Identifier x pk) OpEQ l" and ?tid = "table_id sch"
  let ?row = "\<lambda>c. snd (snd (the (decode_leaf_cell c sch)))"
  let ?cs = "filter (\<lambda>c. fst (ckey c) = ?tid) (tree_cells t)"
  have row: "i < length (?row c) \<and> ?row c ! i = snd (ckey c) \<and> kind_of (?row c ! i) = kind_of v" if "c \<in> set ?cs" for c
    using assms(7) that by (auto simp: keyed_def)
  have rows: "table_rows schs t tb = map ?row ?cs"
    using assms(2) by (simp add: table_rows_def rows_of_def)
  have ev: "eval_cond ?w (?row c) sch = Ok (snd (ckey c) = v)" if "c \<in> set ?cs" for c
  proof -
    have "eval_cond ?w (?row c) sch = Ok (?row c ! i = v)"
      by (rule eval_equality [OF assms(3-6)]) (use row [OF that] in blast)+
    then show ?thesis
      using row [OF that] by metis
  qed
  have "run_map (keep_if ?w sch) (map ?row ?cs) (Ok ()) = (filter (\<lambda>r. eval_cond ?w r sch = Ok True) (map ?row ?cs), Ok ())"
    by (rule run_map_keep) (use ev in auto)
  also have "filter (\<lambda>r. eval_cond ?w r sch = Ok True) (map ?row ?cs) = map ?row (filter (\<lambda>c. snd (ckey c) = v) ?cs)"
    unfolding filter_map comp_def by (rule arg_cong [where f = "map ?row"], rule filter_cong) (use ev in auto)
  also have "filter (\<lambda>c. snd (ckey c) = v) ?cs = filter (\<lambda>c. ckey c = (?tid, v)) (tree_cells t)"
    by (auto simp: prod_eq_iff intro: filter_cong)
  also have "\<dots> = (case find (\<lambda>c. ckey c = (?tid, v)) (tree_cells t) of None \<Rightarrow> [] | Some c \<Rightarrow> [c])"
    by (rule filter_find_unique) (use assms(1) strict_sorted_iff in blast)
  finally show ?thesis
    using assms(2,4) by (simp add: rows table_find_def split: option.split)
qed

lemma range_query_meaning:
  assumes "plan_select c s = Ok p" "sel_join s = None" "sel_order_by s = None" "cat_get_schema c (sel_table s) = Ok sch"
    and "sel_where s = Some (BinaryExpr (Identifier x pk) op l)" "pk_comparison sch (BinaryExpr (Identifier x pk) op l)"
    and "eval_literal l = Ok v" "sel_columns s = [Wildcard]" "sel_limit s = None"
  shows "meaning db look p = (case look (sel_table s) v of None \<Rightarrow> [] | Some r \<Rightarrow> [r], Ok ()) \<and>
    plan_output p = sch \<and> query p \<and> plan_readable opened fits p = (opened (sel_table s) \<and> fits (sel_table s) v)"
proof -
  let ?w = "BinaryExpr (Identifier x pk) op l"
  have i: "choose_scan (sel_table s) sch (Some ?w) = IndexScanNode (sel_table s) sch ?w"
    using assms(6) by (auto simp: choose_scan_def pk_comparison_def Let_def)
  have p: "p = ProjectionNode (IndexScanNode (sel_table s) sch ?w) [Wildcard]"
    using assms(1-5,8,9) i
    by (simp add: plan_select_def plan_schema_def plan_scan_def add_order_def add_limit_def add_filter_def)
  show ?thesis
    using assms(7) by (simp add: p project_as_def project_row_def split: option.split)
qed

lemma join_meaning:
  assumes "x \<in> set (fst (meaning db look (NestedLoopJoinNode l (SequentialScanNode t sch) c)))"
  shows "fst (meaning db look l) \<noteq> [] \<and> (\<exists>y \<in> set (db t). x = join_rows (hd (fst (meaning db look l))) y)"
proof -
  have rm: "x \<in> set (fst (run_map (joined_if c s a) ys fin)) \<Longrightarrow> \<exists>y \<in> set ys. x = join_rows a y" for a s ys fin
  proof (induction ys)
    case (Cons y ys)
    then show ?case
      by (cases "eval_gcond c (join_rows a y) s") (auto simp: joined_if_def case_prod_beta split: if_splits)
  qed simp
  show ?thesis
    using assms rm by (cases "meaning db look l"; cases "fst (meaning db look l)") auto
qed

section \<open>Executing a SELECT\<close>

text \<open>\<open>SELECT cols FROM t WHERE w LIMIT k\<close>, where \<open>w\<close> is not a comparison of the primary key: executing the
  plan of the statement returns the rows of the table that satisfy the condition, projected, up to the
  limit, in the order of the primary key. Condition and projection have to be defined on the rows, as
  they are when they are well-typed.\<close>

theorem select_returns:
  assumes "repo_ok e h t schs n m r" "plan_select c s = Ok p" "sel_join s = None" "sel_order_by s = None"
    and "cat_get_schema c (sel_table s) = Ok sch" "schs (sel_table s) = Some sch"
    and "\<forall>w. sel_where s = Some w \<longrightarrow> \<not> pk_comparison sch w"
    and "\<forall>x \<in> set (table_rows schs t (sel_table s)). \<exists>b. where_holds (sel_where s) x sch = Ok b"
    and "\<forall>x \<in> set (table_rows schs t (sel_table s)). \<exists>y. project_row (sel_columns s) x sch = Ok y"
  shows "\<exists>N r'. repo_ok e h t schs n m r' \<and> obs (bt_store r') = obs (bt_store r) \<and> (\<forall>k \<ge> N. execute_locked k (tree_repository n m) (\<lambda>_. False) p txn r =
    (Ok \<lparr>res_rows = limited (sel_limit s) (map (projected (sel_columns s) sch)
           (filter (passes (sel_where s) sch) (table_rows schs t (sel_table s)))),
         res_affected = 0, res_schema = Some sch\<rparr>, r'))"
proof -
  note m = select_means [of c s p sch "table_rows schs t" "table_find schs t" "\<lambda>tb. schs tb \<noteq> None" "key_fits e schs",
      OF assms(2-5,7-9)]
  show ?thesis
    using query_run [OF assms(1), of p txn] m assms(6) by simp
qed

definition name_query :: select_statement where
  "name_query = \<lparr>sel_columns = [Identifier [] ''name''], sel_table = ''users'', sel_join = None,
     sel_where = Some (BinaryExpr (Identifier [] ''name'') OpEQ (StringLiteral ''Bob'')), sel_order_by = None, sel_limit = Some 1\<rparr>"

lemma users_rows: "table_rows [''users'' \<mapsto> users_schema] users_tree ''users'' = [user_row]"
  "table_find [''users'' \<mapsto> users_schema] users_tree ''users'' v = (if v = IntValue 7 then Some user_row else None)"
  using user_cell_facts by (auto simp: table_rows_def table_find_def rows_of_def users_tree_def users_schema_def)

lemma users_get_schema: "cat_get_schema (reader_of users_catalog) ''users'' = Ok users_schema"
  by (simp add: users_catalog_def reader_of_def get_schema_def)

theorem select_returns_witness:
  "\<exists>p N r'. \<forall>k \<ge> N. execute_locked k (tree_repository 1 2) (\<lambda>_. False) p 1 users_repository =
     (Ok \<lparr>res_rows = [[StringValue ''Bob'']], res_affected = 0, res_schema = Some users_schema\<rparr>, r')"
proof -
  have s: "sel_join name_query = None" "sel_order_by name_query = None" "sel_table name_query = ''users''"
    "sel_where name_query = Some (BinaryExpr (Identifier [] ''name'') OpEQ (StringLiteral ''Bob''))"
    by (simp_all add: name_query_def)
  have pk: "\<not> pk_comparison users_schema (BinaryExpr (Identifier [] ''name'') OpEQ (StringLiteral ''Bob''))"
    by (simp add: pk_comparison_def users_schema_def sample_column_def name_column_def primary_key_index_def)
  obtain p where p: "plan_select (reader_of users_catalog) name_query = Ok p"
    using users_get_schema by (simp add: plan_select_def plan_schema_def plan_scan_def name_query_def)
  have e: "where_holds (sel_where name_query) user_row users_schema = Ok True"
    "project_row (sel_columns name_query) user_row users_schema = Ok [StringValue ''Bob'']"
    by code_simp+
  show ?thesis
    using select_returns [OF users_repository_ok p s(1,2), of users_schema 1] e users_get_schema pk s
    by (simp add: users_rows passes_def projected_def limited_def name_query_def) blast
qed

text \<open>C31. \<open>WHERE pk = v\<close>: the index scan the planner chooses returns what scanning the table and testing the
  condition would return, when the rows carry their keys.\<close>

theorem index_scan_equals_filter:
  assumes "repo_ok e h t schs n m r" "schs tb = Some sch" "col_index sch pk = int i" "ckey_ok (key_kinds e) (table_id sch, v)"
    and "eval_literal l = Ok v" "keyed sch i v (tree_cells t)"
  shows "\<exists>N. \<forall>k \<ge> N.
    fst (execute_locked k (tree_repository n m) (\<lambda>_. False) (IndexScanNode tb sch (BinaryExpr (Identifier x pk) OpEQ l)) txn r) =
    fst (execute_locked k (tree_repository n m) (\<lambda>_. False)
           (FilterNode (SequentialScanNode tb sch) (BinaryExpr (Identifier x pk) OpEQ l)) txn r)"
proof -
  let ?w = "BinaryExpr (Identifier x pk) OpEQ l"
  have sorted: "sorted_wrt (<) (map ckey (tree_cells t))"
    using leaf_in_sorted [OF tree_in_cells] assms(1) by (auto simp: repo_ok_def btree_ok_def)
  have v: "v \<noteq> NullValue" "kind_of v \<noteq> KindBool"
    using assms(4) by (cases v; simp)+
  note eq = index_scan_meaning [of t schs tb sch pk i l v x, OF sorted assms(2,3,5) v assms(6)]
  obtain N1 r1 where 1: "\<forall>k \<ge> N1. execute_locked k (tree_repository n m) (\<lambda>_. False) (IndexScanNode tb sch ?w) txn r =
      (bindR (snd (meaning (table_rows schs t) (table_find schs t) (IndexScanNode tb sch ?w))) (\<lambda>_.
         Ok \<lparr>res_rows = fst (meaning (table_rows schs t) (table_find schs t) (IndexScanNode tb sch ?w)), res_affected = 0,
             res_schema = Some sch\<rparr>), r1)"
    using query_run [OF assms(1), of "IndexScanNode tb sch ?w" txn] assms(2,4,5) by (auto simp: key_fits_def)
  obtain N2 r2 where 2: "\<forall>k \<ge> N2. execute_locked k (tree_repository n m) (\<lambda>_. False) (FilterNode (SequentialScanNode tb sch) ?w) txn r =
      (bindR (snd (meaning (table_rows schs t) (table_find schs t) (FilterNode (SequentialScanNode tb sch) ?w))) (\<lambda>_.
         Ok \<lparr>res_rows = fst (meaning (table_rows schs t) (table_find schs t) (FilterNode (SequentialScanNode tb sch) ?w)), res_affected = 0,
             res_schema = Some sch\<rparr>), r2)"
    using query_run [OF assms(1), of "FilterNode (SequentialScanNode tb sch) ?w" txn] assms(2) by auto
  show ?thesis
    by (rule exI [of _ "max N1 N2"]) (use 1 2 eq in simp)
qed

theorem index_scan_equals_filter_witness:
  "\<exists>N. \<forall>k \<ge> N.
    fst (execute_locked k (tree_repository 1 2) (\<lambda>_. False)
      (IndexScanNode ''users'' users_schema (BinaryExpr (Identifier [] ''id'') OpEQ (IntLiteral 7))) 1 users_repository) =
    fst (execute_locked k (tree_repository 1 2) (\<lambda>_. False)
      (FilterNode (SequentialScanNode ''users'' users_schema) (BinaryExpr (Identifier [] ''id'') OpEQ (IntLiteral 7))) 1 users_repository)"
proof (rule index_scan_equals_filter [OF users_repository_ok])
  show "keyed users_schema 0 (IntValue 7) (tree_cells users_tree)"
    using user_cell_facts by (simp add: keyed_def users_tree_def user_row_def)
qed (simp_all add: users_tree_def col_index_def users_schema_def sample_column_def users_env_def)

text \<open>Range conditions on the primary key: \<open>WHERE pk > v\<close> (and \<open><\<close>, \<open><=\<close>, \<open>>=\<close>) is planned as an index scan
  without a filter, and the index scan looks up the key \<open>v\<close> itself, whatever the operator. So the query
  returns at most one row, and that row has the key \<open>v\<close>.\<close>

theorem range_query_looks_up_one_key:
  assumes "repo_ok e h t schs n m r" "plan_select c s = Ok p" "sel_join s = None" "sel_order_by s = None"
    and "cat_get_schema c (sel_table s) = Ok sch" "schs (sel_table s) = Some sch"
    and "sel_where s = Some (BinaryExpr (Identifier x pk) op l)" "pk_comparison sch (BinaryExpr (Identifier x pk) op l)"
    and "eval_literal l = Ok v" "ckey_ok (key_kinds e) (table_id sch, v)" "sel_columns s = [Wildcard]" "sel_limit s = None"
  shows "\<exists>N r'. \<forall>k \<ge> N. execute_locked k (tree_repository n m) (\<lambda>_. False) p txn r =
    (Ok \<lparr>res_rows = (case table_find schs t (sel_table s) v of None \<Rightarrow> [] | Some y \<Rightarrow> [y]),
         res_affected = 0, res_schema = Some sch\<rparr>, r')"
proof -
  note m = range_query_meaning [OF assms(2-5,7-9,11,12), of "table_rows schs t" "table_find schs t"
      "\<lambda>tb. schs tb \<noteq> None" "key_fits e schs"]
  show ?thesis
    using query_run [OF assms(1), of p txn] m assms(6,10) by (auto simp: key_fits_def)
qed

definition range_query :: select_statement where
  "range_query = \<lparr>sel_columns = [Wildcard], sel_table = ''users'', sel_join = None,
     sel_where = Some (BinaryExpr (Identifier [] ''id'') OpGT (IntLiteral 1)), sel_order_by = None, sel_limit = None\<rparr>"

theorem range_query_looks_up_one_key_witness:
  "\<exists>p N r'. plan_select (reader_of users_catalog) range_query = Ok p \<and>
    (\<forall>k \<ge> N. execute_locked k (tree_repository 1 2) (\<lambda>_. False) p 1 users_repository =
       (Ok \<lparr>res_rows = [], res_affected = 0, res_schema = Some users_schema\<rparr>, r'))"
proof -
  have pk: "pk_comparison users_schema (BinaryExpr (Identifier [] ''id'') OpGT (IntLiteral 1))"
    by (simp add: pk_comparison_def users_schema_def sample_column_def primary_key_index_def indexable_def)
  obtain p where p: "plan_select (reader_of users_catalog) range_query = Ok p"
    using users_get_schema by (simp add: plan_select_def plan_schema_def plan_scan_def range_query_def)
  have s: "sel_join range_query = None" "sel_order_by range_query = None" "sel_limit range_query = None"
    "sel_table range_query = ''users''" "sel_columns range_query = [Wildcard]"
    "sel_where range_query = Some (BinaryExpr (Identifier [] ''id'') OpGT (IntLiteral 1))"
    by (simp_all add: range_query_def)
  show ?thesis
    using range_query_looks_up_one_key [OF users_repository_ok p s(1,2) _ _ s(6) pk _ _ s(5,3), of "IntValue 1" 1] users_get_schema p s(4)
    by (auto simp: users_rows users_env_def)
qed

text \<open>Joins: every row a join returns starts with the first row of the left side. The executor of the right
  side is read to its end for the first left row and is not started again for the others.\<close>

theorem join_first_row_only:
  assumes "repo_ok e h t schs n m r" "query l" "plan_readable (\<lambda>tb. schs tb \<noteq> None) (key_fits e schs) l" "schs tb \<noteq> None"
  shows "\<exists>N. \<forall>k \<ge> N. \<forall>res r' x.
    execute_locked k (tree_repository n m) (\<lambda>_. False) (NestedLoopJoinNode l (SequentialScanNode tb sch) c) txn r = (Ok res, r') \<longrightarrow>
    x \<in> set (res_rows res) \<longrightarrow>
    (\<exists>y \<in> set (table_rows schs t tb). x = join_rows (hd (fst (meaning (table_rows schs t) (table_find schs t) l))) y)"
proof -
  let ?p = "NestedLoopJoinNode l (SequentialScanNode tb sch) c"
  let ?M = "meaning (table_rows schs t) (table_find schs t) ?p"
  obtain N r1 where N: "\<forall>k \<ge> N. execute_locked k (tree_repository n m) (\<lambda>_. False) ?p txn r =
      (bindR (snd ?M) (\<lambda>_. Ok \<lparr>res_rows = fst ?M, res_affected = 0, res_schema = Some (plan_output ?p)\<rparr>), r1)"
    using query_run [OF assms(1), of ?p txn] assms(2-4) by auto
  show ?thesis
  proof (intro exI [of _ N] allI impI)
    fix k res r' x
    assume k: "N \<le> k" and ex: "execute_locked k (tree_repository n m) (\<lambda>_. False) ?p txn r = (Ok res, r')" and x: "x \<in> set (res_rows res)"
    have "bindR (snd ?M) (\<lambda>_. Ok \<lparr>res_rows = fst ?M, res_affected = 0, res_schema = Some (plan_output ?p)\<rparr>) = Ok res"
      using N k ex by simp
    then have "res_rows res = fst ?M"
      by (cases "snd ?M") auto
    with x join_meaning [of x "table_rows schs t" "table_find schs t" l tb sch c]
    show "\<exists>y \<in> set (table_rows schs t tb). x = join_rows (hd (fst (meaning (table_rows schs t) (table_find schs t) l))) y"
      by simp
  qed
qed

theorem join_first_row_only_witness:
  "\<exists>N. \<forall>k \<ge> N. \<forall>res r' x.
    execute_locked k (tree_repository 1 2) (\<lambda>_. False)
      (NestedLoopJoinNode (SequentialScanNode ''users'' users_schema) (SequentialScanNode ''users'' users_schema)
        (Some (IsNotNullExpr (IntLiteral 0)))) 1 users_repository = (Ok res, r') \<longrightarrow>
    x \<in> set (res_rows res) \<longrightarrow> x = join_rows user_row user_row"
  using join_first_row_only [OF users_repository_ok, of "SequentialScanNode ''users'' users_schema" "''users''" users_schema
      "Some (IsNotNullExpr (IntLiteral 0))" 1]
  by (simp add: users_rows)

end
