(* ===== verification/Relational.thy ===== *)
theory Relational
  imports Select
begin

text \<open>
  What SQL means by a query, with no reference to the executors: conditions as truth values over the
  columns of a row, a join as all pairs of rows that satisfy its condition, and selection, projection,
  sorting and cutting of lists of rows. The executors compute this on plans that are \<open>well_posed\<close>; the
  plans that are not are the ones on which the code departs from SQL (ranges of the primary key, joins in
  which a later left row has a partner, columns compared with NULL, sorting by a column that was projected
  away).
\<close>

section \<open>Rows, conditions and queries\<close>

text \<open>A row under the names of its columns.\<close>

definition field :: "string list \<Rightarrow> row \<Rightarrow> string \<Rightarrow> value_t" where
  "field ns x c = the (map_of (zip ns x) c)"

fun operand :: "string list \<Rightarrow> row \<Rightarrow> expr \<Rightarrow> value_t" where
  "operand ns x (Identifier _ c) = field ns x c"
| "operand ns x (IntLiteral i) = IntValue i"
| "operand ns x (StringLiteral s) = StringValue s"
| "operand ns x (BoolLiteral b) = BoolValue b"
| "operand ns x _ = NullValue"

fun compares :: "operator_type \<Rightarrow> value_t \<Rightarrow> value_t \<Rightarrow> bool" where
  "compares OpEQ v w = (v = w)"
| "compares OpNEQ v w = (v \<noteq> w)"
| "compares OpLT v w = (v < w)"
| "compares OpGT v w = (w < v)"
| "compares OpLTE v w = (v \<le> w)"
| "compares OpGTE v w = (w \<le> v)"
| "compares _ v w = False"

fun sat :: "string list \<Rightarrow> expr \<Rightarrow> row \<Rightarrow> bool" where
  "sat ns (BinaryExpr l op r) x =
     (case op of
        OpAND \<Rightarrow> sat ns l x \<and> sat ns r x
      | OpOR \<Rightarrow> sat ns l x \<or> sat ns r x
      | _ \<Rightarrow> compares op (operand ns x l) (operand ns x r))"
| "sat ns (UnaryExpr op e) x = (\<not> sat ns e x)"
| "sat ns (IsNullExpr e) x = (operand ns x e = NullValue)"
| "sat ns (IsNotNullExpr e) x = (operand ns x e \<noteq> NullValue)"
| "sat ns _ x = False"

definition project :: "string list \<Rightarrow> expr list \<Rightarrow> row \<Rightarrow> row" where
  "project ns cols x = (if cols = [Wildcard] then x else map (operand ns x) cols)"

fun identifier_name :: "expr \<Rightarrow> string" where
  "identifier_name (Identifier _ c) = c"
| "identifier_name _ = []"

text \<open>The names of the columns of the rows of a plan.\<close>

fun out_names :: "plan \<Rightarrow> string list" where
  "out_names (SequentialScanNode t sch) = map col_name (columns sch)"
| "out_names (IndexScanNode t sch pe) = map col_name (columns sch)"
| "out_names (FilterNode p c) = out_names p"
| "out_names (ProjectionNode p cols) = (if cols = [Wildcard] then out_names p else map identifier_name cols)"
| "out_names (NestedLoopJoinNode l r c) = out_names l @ out_names r"
| "out_names (SortNode p col desc) = out_names p"
| "out_names (LimitNode p k) = out_names p"
| "out_names _ = []"

text \<open>The rows of a query over the tables \<open>db\<close>.\<close>

fun sql_rows :: "(string \<Rightarrow> row list) \<Rightarrow> plan \<Rightarrow> row list" where
  "sql_rows db (SequentialScanNode t sch) = db t"
| "sql_rows db (IndexScanNode t sch pe) = filter (sat (map col_name (columns sch)) pe) (db t)"
| "sql_rows db (FilterNode p c) = filter (sat (out_names p) c) (sql_rows db p)"
| "sql_rows db (ProjectionNode p cols) = map (project (out_names p) cols) (sql_rows db p)"
| "sql_rows db (NestedLoopJoinNode l r c) =
     filter (\<lambda>z. case c of None \<Rightarrow> True | Some e \<Rightarrow> sat (out_names l @ out_names r) e z)
       (concat (map (\<lambda>x. map ((@) x) (sql_rows db r)) (sql_rows db l)))"
| "sql_rows db (SortNode p col desc) =
     (if desc then sort_key (\<lambda>x. Rev (field (out_names p) x col)) (sql_rows db p)
      else sort_key (\<lambda>x. field (out_names p) x col) (sql_rows db p))"
| "sql_rows db (LimitNode p k) = take (nat k) (sql_rows db p)"
| "sql_rows db _ = []"

section \<open>Queries on which the code is right\<close>

fun operand_in :: "string list \<Rightarrow> expr \<Rightarrow> bool" where
  "operand_in ns (Identifier _ c) \<longleftrightarrow> c \<in> set ns"
| "operand_in ns e \<longleftrightarrow> (\<exists>v. eval_literal e = Ok v)"

text \<open>On the row \<open>x\<close> every comparison of the condition compares two integers or two strings.\<close>

fun comparable :: "string list \<Rightarrow> expr \<Rightarrow> row \<Rightarrow> bool" where
  "comparable ns (BinaryExpr l op r) x =
     (if op = OpAND \<or> op = OpOR then comparable ns l x \<and> comparable ns r x
      else operand_in ns l \<and> operand_in ns r \<and> kind_of (operand ns x l) = kind_of (operand ns x r) \<and>
        (kind_of (operand ns x l) = KindInt \<or> kind_of (operand ns x l) = KindString))"
| "comparable ns (UnaryExpr op e) x = (op = ''NOT'' \<and> comparable ns e x)"
| "comparable ns (IsNullExpr e) x = operand_in ns e"
| "comparable ns (IsNotNullExpr e) x = operand_in ns e"
| "comparable ns _ x = False"

text \<open>The executors look columns up in the schema of the tables, also above a projection.\<close>

abbreviation schema_names :: "plan \<Rightarrow> string list" where
  "schema_names p \<equiv> map col_name (columns (plan_output p))"

text \<open>An index scan is an equality with the primary key. Of a join only the first left row has partners, and no
  two of its columns have one name. A sort is by a column that is where the schema has it, with values of one
  kind.\<close>

fun well_posed :: "(string \<Rightarrow> schema option) \<Rightarrow> (string \<Rightarrow> row list) \<Rightarrow> plan \<Rightarrow> bool" where
  "well_posed schs db (SequentialScanNode t sch) \<longleftrightarrow> schs t = Some sch"
| "well_posed schs db (IndexScanNode t sch pe) \<longleftrightarrow> schs t = Some sch \<and> 0 \<le> primary_key_index sch \<and>
     (\<exists>q c l v. pe = BinaryExpr (Identifier q c) OpEQ l \<and> eval_literal l = Ok v \<and>
        col_index sch c = primary_key_index sch)"
| "well_posed schs db (FilterNode p c) \<longleftrightarrow> well_posed schs db p \<and> out_names p = schema_names p \<and>
     (\<forall>x \<in> set (sql_rows db p). comparable (out_names p) c x)"
| "well_posed schs db (ProjectionNode p cols) \<longleftrightarrow> well_posed schs db p \<and> out_names p = schema_names p \<and>
     (cols = [Wildcard] \<or> cols \<noteq> [] \<and> (\<forall>c \<in> set cols. \<exists>q n. c = Identifier q n \<and> n \<in> set (out_names p)))"
| "well_posed schs db (NestedLoopJoinNode l r c) \<longleftrightarrow> well_posed schs db l \<and> well_posed schs db r \<and>
     out_names l = schema_names l \<and> out_names r = schema_names r \<and> distinct (out_names l @ out_names r) \<and>
     (\<exists>e. c = Some e \<and>
        (\<forall>x \<in> set (sql_rows db l). \<forall>y \<in> set (sql_rows db r). comparable (out_names l @ out_names r) e (x @ y)) \<and>
        (\<forall>x \<in> set (tl (sql_rows db l)). \<forall>y \<in> set (sql_rows db r). \<not> sat (out_names l @ out_names r) e (x @ y)))"
| "well_posed schs db (SortNode p col desc) \<longleftrightarrow> well_posed schs db p \<and>
     (\<exists>zs. schema_names p = out_names p @ zs) \<and> col \<in> set (out_names p) \<and>
     (\<exists>k. (k = KindInt \<or> k = KindString) \<and> (\<forall>x \<in> set (sql_rows db p). kind_of (field (out_names p) x col) = k))"
| "well_posed schs db (LimitNode p k) \<longleftrightarrow> well_posed schs db p"
| "well_posed schs db _ \<longleftrightarrow> False"

section \<open>Conditions and projections\<close>

lemma col_index_from_field:
  assumes "c \<in> set ns" "length x = length ns" "map col_name cs = ns @ zs"
  shows "\<exists>j < length x. col_index_from i cs c = i + int j \<and> map_of (zip ns x) c = Some (x ! j)"
  using assms
proof (induction cs arbitrary: i ns x)
  case (Cons a cs)
  obtain n ns' where ns: "ns = n # ns'" "col_name a = n" "map col_name cs = ns' @ zs"
    using Cons.prems(1,3) by (cases ns) auto
  obtain v x' where x: "x = v # x'" "length x' = length ns'"
    using Cons.prems(2) ns(1) by (cases x) auto
  show ?case
  proof (cases "c = n")
    case False
    then have "c \<in> set ns'"
      using Cons.prems(1) ns(1) by simp
    then obtain j where "j < length x'" "col_index_from (i + 1) cs c = i + 1 + int j" "map_of (zip ns' x') c = Some (x' ! j)"
      using Cons.IH [of ns' x' "i + 1"] x(2) ns(3) by auto
    then show ?thesis
      using False ns x by (intro exI [of _ "Suc j"]) simp
  qed (use ns x in auto)
qed auto

lemma col_index_field:
  assumes "c \<in> set ns" "length x = length ns" "map col_name (columns sch) = ns @ zs"
  obtains j where "j < length x" "col_index sch c = int j" "field ns x c = x ! j"
  using col_index_from_field [OF assms, of 0] by (auto simp: col_index_def field_def)

lemma eval_value_operand:
  assumes "operand_in (map col_name (columns sch)) e" "length x = length (columns sch)"
  shows "eval_value e x sch = Ok (operand (map col_name (columns sch)) x e)"
proof (cases e)
  case (Identifier q c)
  then obtain j where "j < length x" "col_index sch c = int j" "field (map col_name (columns sch)) x c = x ! j"
    using col_index_field [of c "map col_name (columns sch)" x sch "[]"] assms by auto
  then show ?thesis
    by (simp add: Identifier value_at_def)
qed (use assms(1) in auto)

lemma compares_cmp:
  assumes "kind_of v = kind_of w" "kind_of v = KindInt \<or> kind_of v = KindString" "op \<noteq> OpAND" "op \<noteq> OpOR"
  shows "bindR (value_cmp v w) (op_holds op) = Ok (compares op v w)"
proof -
  have "\<not> sint i < sint j \<Longrightarrow> \<not> sint j < sint i \<Longrightarrow> i = j" for i j :: i64
    by (rule signed_word_eqI) simp
  then have "\<exists>c. value_cmp v w = Ok c \<and> (c < 0 \<longleftrightarrow> v < w) \<and> (0 < c \<longleftrightarrow> w < v)"
    using assms(1,2) by (cases v; cases w) auto
  then obtain c where c: "value_cmp v w = Ok c" "c < 0 \<longleftrightarrow> v < w" "0 < c \<longleftrightarrow> w < v"
    by blast
  have "c = 0 \<longleftrightarrow> v = w"
    using c(2,3) by (metis linorder_neq_iff)
  with c assms(3,4) show ?thesis
    by (cases op) (auto simp: op_holds_def)
qed

text \<open>A condition that compares integers with integers and strings with strings evaluates to its truth value.\<close>

lemma eval_cond_sat:
  assumes "comparable (map col_name (columns sch)) e x" "length x = length (columns sch)"
  shows "eval_cond e x sch = Ok (sat (map col_name (columns sch)) e x)"
  using assms(1)
proof (induction e)
  case (BinaryExpr l op r)
  let ?ns = "map col_name (columns sch)"
  show ?case
  proof (cases "op = OpAND \<or> op = OpOR")
    case False
    then have k: "operand_in ?ns l" "operand_in ?ns r" "kind_of (operand ?ns x l) = kind_of (operand ?ns x r)"
      "kind_of (operand ?ns x l) = KindInt \<or> kind_of (operand ?ns x l) = KindString"
      using BinaryExpr.prems by auto
    have "sat ?ns (BinaryExpr l op r) x = compares op (operand ?ns x l) (operand ?ns x r)"
      using False by (cases op) auto
    with False compares_cmp [OF k(3,4), of op] show ?thesis
      by (simp add: eval_value_operand [OF k(1) assms(2)] eval_value_operand [OF k(2) assms(2)] del: sat.simps)
  qed (use BinaryExpr in auto)
qed (auto simp: eval_value_operand [OF _ assms(2)])

lemma project_columns_operands:
  assumes "\<forall>c \<in> set cols. \<exists>q n. c = Identifier q n \<and> n \<in> set (map col_name (columns sch))" "length x = length (columns sch)"
  shows "project_columns cols x sch = Ok (map (operand (map col_name (columns sch)) x) cols)"
  using assms(1)
proof (induction cols)
  case (Cons c cols)
  then obtain q n where c: "c = Identifier q n" "n \<in> set (map col_name (columns sch))"
    by auto
  obtain j where "j < length x" "col_index sch n = int j" "field (map col_name (columns sch)) x n = x ! j"
    using col_index_field [OF c(2), of x sch "[]"] assms(2) by auto
  with Cons c show ?case
    by (auto simp: value_at_def)
qed simp

lemma project_row_project:
  assumes "cols = [Wildcard] \<or> cols \<noteq> [] \<and> (\<forall>c \<in> set cols. \<exists>q n. c = Identifier q n \<and> n \<in> set (map col_name (columns sch)))"
    and "length x = length (columns sch)"
  shows "project_row cols x sch = Ok (project (map col_name (columns sch)) cols x)"
proof (cases "cols = [Wildcard]")
  case False
  then have c: "cols \<noteq> []" "\<forall>c \<in> set cols. \<exists>q n. c = Identifier q n \<and> n \<in> set (map col_name (columns sch))"
    using assms(1) by auto
  then have "hd cols \<noteq> Wildcard"
    by (metis expr.distinct(1) hd_in_set)
  with c(1) False project_columns_operands [OF c(2) assms(2)] show ?thesis
    by (cases cols) (simp_all add: project_row_def project_def)
qed (simp add: project_row_def project_def)

section \<open>Plans\<close>

text \<open>Sorting by a column, descending or not, is the stable sort by the value of the column.\<close>

lemma sort_rows_sort_key:
  assumes "sort_column_ok i k rs" "\<And>x. x \<in> set rs \<Longrightarrow> f x = x ! i"
  shows "sort_rows (int i) desc rs = Ok (if desc then sort_key (\<lambda>x. Rev (f x)) rs else sort_key f rs)"
proof -
  obtain zs where zs: "sort_rows (int i) desc rs = Ok zs" "mset zs = mset rs"
    "sorted_wrt (in_order desc) (map (\<lambda>r. r ! i) zs)" "\<And>v. filter (\<lambda>r. r ! i = v) zs = filter (\<lambda>r. r ! i = v) rs"
    using sort_rows_sorts [OF assms(1), of desc] by blast
  have set: "set zs = set rs"
    using zs(2) by (metis set_mset_mset)
  have eq: "filter (\<lambda>r. v = f r) zs = filter (\<lambda>r. r ! i = v) zs" "filter (\<lambda>r. v = f r) rs = filter (\<lambda>r. r ! i = v) rs" for v
    using assms(2) set by (auto intro: filter_cong)
  have s: "sorted_wrt (in_order desc) (map f zs)"
  proof -
    have eq: "map f zs = map (\<lambda>r. r ! i) zs"
      using assms(2) set by simp
    show ?thesis
      unfolding eq by (rule zs(3))
  qed
  show ?thesis
  proof (cases desc)
    case True
    have "sort_key (\<lambda>x. Rev (f x)) rs = zs"
      by (rule properties_for_sort_key)
        (use zs s eq True in \<open>simp_all add: sorted_wrt_map in_order_def less_eq_rev_value_def\<close>)
    with zs(1) True show ?thesis by simp
  next
    case False
    have "sort_key f rs = zs"
      by (rule properties_for_sort_key) (use zs s eq False in \<open>simp_all add: sorted_wrt_map in_order_def\<close>)
    with zs(1) False show ?thesis by simp
  qed
qed

lemma sort_rows_by_name:
  assumes "\<forall>x \<in> set rs. length x = length ns" "map col_name (columns sch) = ns @ zs" "c \<in> set ns"
    and "k = KindInt \<or> k = KindString" "\<forall>x \<in> set rs. kind_of (field ns x c) = k"
  shows "sort_rows (col_index sch c) desc rs =
    Ok (if desc then sort_key (\<lambda>x. Rev (field ns x c)) rs else sort_key (\<lambda>x. field ns x c) rs)"
proof -
  obtain j where j: "j < length (replicate (length ns) NullValue)" "col_index sch c = int j"
    by (rule col_index_field [OF assms(3) _ assms(2), of "replicate (length ns) NullValue"]) auto
  have f: "field ns x c = x ! j" if "x \<in> set rs" for x
    by (rule col_index_field [OF assms(3) _ assms(2), of x]) (use assms(1) that j(2) in auto)
  have ok: "sort_column_ok j k rs"
    using assms(1,4,5) j(1) f by (auto simp: sort_column_ok_def)
  show ?thesis
    unfolding j(2) by (rule sort_rows_sort_key [OF ok f])
qed

lemma run_map_joined:
  assumes "\<forall>y \<in> set ys. eval_cond e (x @ y) sch = Ok (P (x @ y))"
  shows "run_map (joined_if (Some e) sch x) ys fin = (filter P (map ((@) x) ys), fin)"
  using assms by (induction ys) (auto simp: joined_if_def eval_gcond_def join_rows_def)

lemma run_map_filter:
  assumes "\<forall>x \<in> set xs. eval_cond e x sch = Ok (P x)"
  shows "run_map (keep_if e sch) xs fin = (filter P xs, fin)"
  using assms by (induction xs) (auto simp: keep_if_def)

lemma run_map_map:
  assumes "\<forall>x \<in> set xs. project_row cols x sch = Ok (f x)"
  shows "run_map (project_as cols sch) xs fin = (map f xs, fin)"
  using assms by (induction xs) (auto simp: project_as_def)

text \<open>What the executors compute on a well-posed plan are the rows of the query. The rows of a table have a value
  for each column, and at most one row has a given primary key, the one a lookup finds.\<close>

lemma meaning_sql_rows:
  assumes rows: "\<And>t sch x. schs t = Some sch \<Longrightarrow> x \<in> set (db t) \<Longrightarrow> length x = length (columns sch)"
    and look: "\<And>t sch v. schs t = Some sch \<Longrightarrow> t \<in> set (plan_tables p) \<Longrightarrow> 0 \<le> primary_key_index sch \<Longrightarrow>
      filter (\<lambda>x. value_at x (primary_key_index sch) = Ok v) (db t) = (case look t v of None \<Rightarrow> [] | Some x \<Rightarrow> [x])"
    and "well_posed schs db p"
  shows "meaning db look p = (sql_rows db p, Ok ()) \<and> (\<forall>x \<in> set (sql_rows db p). length x = length (out_names p))"
  using look assms(3)
proof (induction p)
  case (SequentialScanNode t sch)
  then show ?case
    using rows by simp
next
  case (IndexScanNode t sch pe)
  then obtain q c l v where pe: "pe = BinaryExpr (Identifier q c) OpEQ l" "eval_literal l = Ok v"
      "col_index sch c = primary_key_index sch" and s: "schs t = Some sch" "0 \<le> primary_key_index sch"
    by auto
  let ?ns = "map col_name (columns sch)"
  have c: "c \<in> set ?ns"
    using col_index_bounds [of sch c] s(2) pe(3) by (metis length_map nth_map nth_mem)
  have "sat ?ns pe x \<longleftrightarrow> value_at x (primary_key_index sch) = Ok v" if x: "x \<in> set (db t)" for x
  proof -
    obtain j where "j < length x" "col_index sch c = int j" "field ?ns x c = x ! j"
      using col_index_field [OF c, of x sch "[]"] rows [OF s(1) x] by auto
    moreover have "operand ?ns x l = v"
      using pe(2) by (cases l) auto
    ultimately show ?thesis
      using pe(1,3) by (simp add: value_at_def)
  qed
  then have "filter (sat ?ns pe) (db t) = filter (\<lambda>x. value_at x (primary_key_index sch) = Ok v) (db t)"
    by (rule filter_cong [OF refl])
  with IndexScanNode.prems(1) [OF s(1) _ s(2), of v] have "filter (sat ?ns pe) (db t) = (case look t v of None \<Rightarrow> [] | Some x \<Rightarrow> [x])"
    by simp
  moreover have "\<forall>x \<in> set (filter (sat ?ns pe) (db t)). length x = length ?ns"
    using rows [OF s(1)] by simp
  ultimately show ?case
    using pe(1,2) by (simp split: option.split)
next
  case (FilterNode p c)
  then have m: "meaning db look p = (sql_rows db p, Ok ())" and l: "\<forall>x \<in> set (sql_rows db p). length x = length (out_names p)"
    and n: "out_names p = schema_names p"
    by simp_all
  have c: "\<forall>x \<in> set (sql_rows db p). comparable (out_names p) c x"
    using FilterNode.prems(2) unfolding well_posed.simps by blast
  have "\<forall>x \<in> set (sql_rows db p). eval_cond c x (plan_output p) = Ok (sat (out_names p) c x)"
    using eval_cond_sat [of "plan_output p" c] l c by (simp add: n)
  then show ?case
    using l by (simp add: m run_map_filter)
next
  case (ProjectionNode p cols)
  then have m: "meaning db look p = (sql_rows db p, Ok ())" and l: "\<forall>x \<in> set (sql_rows db p). length x = length (out_names p)"
    and n: "out_names p = schema_names p"
    by simp_all
  have c: "cols = [Wildcard] \<or> cols \<noteq> [] \<and> (\<forall>c \<in> set cols. \<exists>q n. c = Identifier q n \<and> n \<in> set (schema_names p))"
    using ProjectionNode.prems(2) unfolding well_posed.simps by metis
  have "\<forall>x \<in> set (sql_rows db p). project_row cols x (plan_output p) = Ok (project (out_names p) cols x)"
    using project_row_project [OF c] l by (simp add: n)
  then show ?case
    using l by (simp add: m run_map_map project_def)
next
  case (NestedLoopJoinNode l r c)
  let ?ns = "out_names l @ out_names r" and ?sch = "join_schemas (plan_output l) (plan_output r)"
  have m: "meaning db look l = (sql_rows db l, Ok ())" "meaning db look r = (sql_rows db r, Ok ())"
    and len: "\<forall>x \<in> set (sql_rows db l). length x = length (out_names l)" "\<forall>x \<in> set (sql_rows db r). length x = length (out_names r)"
    and n: "?ns = map col_name (columns ?sch)"
    using NestedLoopJoinNode by (simp_all add: join_schemas_def)
  obtain e where e: "c = Some e" "\<forall>x \<in> set (sql_rows db l). \<forall>y \<in> set (sql_rows db r). comparable ?ns e (x @ y)"
    "\<forall>x \<in> set (tl (sql_rows db l)). \<forall>y \<in> set (sql_rows db r). \<not> sat ?ns e (x @ y)"
    using NestedLoopJoinNode.prems(2) by auto
  show ?case
  proof (cases "sql_rows db l")
    case (Cons x xs)
    have "length (x @ y) = length (columns ?sch)" if "y \<in> set (sql_rows db r)" for y
      using that len arg_cong [OF n, of length] by (simp add: Cons)
    then have "\<forall>y \<in> set (sql_rows db r). eval_cond e (x @ y) ?sch = Ok (sat ?ns e (x @ y))"
      using eval_cond_sat [of ?sch e] e(2) by (simp add: n Cons)
    then have "run_map (joined_if c ?sch x) (sql_rows db r) (Ok ()) = (filter (sat ?ns e) (map ((@) x) (sql_rows db r)), Ok ())"
      unfolding e(1) by (rule run_map_joined)
    moreover have "filter (sat ?ns e) (concat (map (\<lambda>x. map ((@) x) (sql_rows db r)) xs)) = []"
      using e(3) by (auto simp: filter_empty_conv Cons)
    ultimately show ?thesis
      using len by (auto simp: m e(1) Cons)
  qed (simp add: m)
next
  case (SortNode p col desc)
  then have m: "meaning db look p = (sql_rows db p, Ok ())" and l: "\<forall>x \<in> set (sql_rows db p). length x = length (out_names p)"
    by simp_all
  obtain zs k where c: "schema_names p = out_names p @ zs" "col \<in> set (out_names p)" "k = KindInt \<or> k = KindString"
    "\<forall>x \<in> set (sql_rows db p). kind_of (field (out_names p) x col) = k"
    using SortNode.prems(2) by auto
  show ?case
    using l by (simp add: m sort_rows_by_name [OF l c])
next
  case (LimitNode p k)
  then have m: "meaning db look p = (sql_rows db p, Ok ())" and l: "\<forall>x \<in> set (sql_rows db p). length x = length (out_names p)"
    by simp_all
  show ?case
    using l by (auto simp: m dest: in_set_takeD)
qed simp_all

section \<open>The tables of a tree\<close>

text \<open>The rows of a table have different primary keys, and each is found under its own.\<close>

definition keyed :: "(string \<Rightarrow> schema option) \<Rightarrow> tree \<Rightarrow> string \<Rightarrow> bool" where
  "keyed schs t tb \<longleftrightarrow> (\<forall>sch. schs tb = Some sch \<longrightarrow>
     distinct (map (\<lambda>r. value_at r (primary_key_index sch)) (table_rows schs t tb)) \<and>
     (\<forall>r \<in> set (table_rows schs t tb). \<exists>v. value_at r (primary_key_index sch) = Ok v \<and> table_find schs t tb v = Some r))"

lemma keyedD:
  assumes "keyed schs t tb" "schs tb = Some sch" "r \<in> set (table_rows schs t tb)"
  obtains v where "value_at r (primary_key_index sch) = Ok v" "table_find schs t tb v = Some r"
  using assms unfolding keyed_def by blast

lemma keyed_distinct: "keyed schs t tb \<Longrightarrow> schs tb = Some sch \<Longrightarrow> distinct (table_rows schs t tb)"
  by (simp add: keyed_def distinct_map)

lemma decode_columns_length: "decode_columns c bm os ds hdr i cols = Some vs \<Longrightarrow> length vs = length cols"
proof (induction cols arbitrary: i vs)
  case (Cons col cols)
  then obtain v ws where "vs = v # ws" "decode_columns c bm os ds hdr (i + 1) cols = Some ws"
    by (auto simp only: decode_columns.simps Option.bind_eq_Some_conv option.inject)
  with Cons.IH show ?case
    by simp
qed simp

lemma decode_leaf_cell_length: "decode_leaf_cell c sch = Some (tid, k, x) \<Longrightarrow> length x = length (columns sch)"
  by (auto simp: decode_leaf_cell_def Let_def dest: decode_columns_length split: bind_split_asm)

lemma table_rows_length:
  assumes "repo_ok e h t schs n m r" "schs tb = Some sch" "x \<in> set (table_rows schs t tb)"
  shows "length x = length (columns sch)"
proof -
  obtain c where c: "c \<in> set (tree_cells t)" "fst (ckey c) = table_id sch" "x = snd (snd (the (decode_leaf_cell c sch)))"
    using assms(2,3) by (auto simp: table_rows_def rows_of_def)
  have "decodable sch (table_id sch) (tree_cells t)"
    using assms(1,2) unfolding repo_ok_def by blast
  then obtain y where "decode_leaf_cell c sch = Some y"
    using c(1,2) unfolding decodable_def by blast
  with c(3) decode_leaf_cell_length [of c sch "fst y" "fst (snd y)" "snd (snd y)"] show ?thesis
    by simp
qed

lemma distinct_filter_key:
  assumes "distinct (map f xs)" "x \<in> set xs" "f x = k"
  shows "filter (\<lambda>y. f y = k) xs = [x]"
  using assms filter_find_unique [OF assms(1), of k]
  by (cases "find (\<lambda>y. f y = k) xs") (auto simp: find_None_iff find_Some_iff distinct_map inj_on_def)

lemma table_lookup:
  assumes k: "keyed schs t tb" and sch: "schs tb = Some sch"
  shows "filter (\<lambda>x. value_at x (primary_key_index sch) = Ok v) (table_rows schs t tb) =
    (case table_find schs t tb v of None \<Rightarrow> [] | Some x \<Rightarrow> [x])"
proof -
  let ?key = "\<lambda>x. value_at x (primary_key_index sch)" and ?row = "\<lambda>c. snd (snd (the (decode_leaf_cell c sch)))"
  let ?cs = "filter (\<lambda>c. fst (ckey c) = table_id sch) (tree_cells t)"
  have rows: "table_rows schs t tb = map ?row ?cs"
    using sch by (simp add: table_rows_def rows_of_def)
  have at: "\<exists>c \<in> set ?cs. snd (ckey c) = w \<and> ?row c = x" if "table_find schs t tb w = Some x" for w x
    using that sch by (auto simp: table_find_def find_Some_iff) (metis fst_conv nth_mem snd_conv)
  show ?thesis
  proof (cases "table_find schs t tb v")
    case None
    have "?key x \<noteq> Ok v" if "x \<in> set (table_rows schs t tb)" for x
      by (rule keyedD [OF k sch that]) (use None in auto)
    with None show ?thesis
      by (simp add: filter_empty_conv)
  next
    case (Some x)
    obtain c where c: "c \<in> set ?cs" "snd (ckey c) = v" "?row c = x"
      using at [OF Some] by blast
    then have x: "x \<in> set (table_rows schs t tb)"
      unfolding rows by force
    obtain w where w: "?key x = Ok w" "table_find schs t tb w = Some x"
      by (rule keyedD [OF k sch x])
    obtain d where d: "d \<in> set ?cs" "snd (ckey d) = w" "?row d = x"
      using at [OF w(2)] by blast
    have "inj_on ?row (set ?cs)"
      using keyed_distinct [OF k sch] by (simp only: rows distinct_map)
    then have "c = d"
      by (rule inj_onD) (use c d in simp_all)
    with w(1) c(2) d(2) have "?key x = Ok v"
      by simp
    with Some distinct_filter_key [of ?key, OF _ x] k sch show ?thesis
      by (simp add: keyed_def)
  qed
qed

text \<open>On the tables of a well-formed tree a well-posed plan is executed to the rows of the query.\<close>

lemma well_posed_meaning:
  assumes "repo_ok e h t schs n m r" "query p" "plan_readable (\<lambda>tb. schs tb \<noteq> None) (key_fits e schs) p"
    and "\<forall>tb \<in> set (plan_tables p). keyed schs t tb" "well_posed schs (table_rows schs t) p"
  shows "meaning (table_rows schs t) (table_find schs t) p = (sql_rows (table_rows schs t) p, Ok ())"
  by (rule conjunct1 [OF meaning_sql_rows [where schs = schs]])
    (use table_rows_length [OF assms(1)] table_lookup assms(4,5) in auto)

section \<open>SELECT on one table\<close>

text \<open>The rows of \<open>SELECT cols FROM t WHERE w LIMIT k\<close> on a table with the columns \<open>ns\<close> and the rows \<open>rs\<close>.\<close>

definition select_rows :: "string list \<Rightarrow> select_statement \<Rightarrow> row list \<Rightarrow> row list" where
  "select_rows ns q rs = limited (sel_limit q) (map (project ns (sel_columns q))
     (filter (\<lambda>x. case sel_where q of None \<Rightarrow> True | Some w \<Rightarrow> sat ns w x) rs))"

text \<open>The statement has no join and no order; its condition compares integers with integers and strings with strings, the primary key only
  with \<open>=\<close> when the comparison is the whole condition.\<close>

definition select_posed :: "(value_t \<Rightarrow> bool) \<Rightarrow> schema \<Rightarrow> select_statement \<Rightarrow> row list \<Rightarrow> bool" where
  "select_posed fits sch q rs \<longleftrightarrow> sel_join q = None \<and> sel_order_by q = None \<and>
     (sel_columns q = [Wildcard] \<or>
      sel_columns q \<noteq> [] \<and> (\<forall>c \<in> set (sel_columns q). \<exists>t n. c = Identifier t n \<and> n \<in> set (map col_name (columns sch)))) \<and>
     (\<forall>w. sel_where q = Some w \<longrightarrow> (\<forall>x \<in> set rs. comparable (map col_name (columns sch)) w x) \<and>
        (pk_comparison sch w \<longrightarrow> (\<exists>t c l v. w = BinaryExpr (Identifier t c) OpEQ l \<and> eval_literal l = Ok v \<and> fits v \<and>
           col_index sch c = primary_key_index sch)))"

lemma limit_rows [simp]:
  "sql_rows db (add_limit l p) = limited l (sql_rows db p)" "well_posed schs db (add_limit l p) = well_posed schs db p"
  "plan_output (add_limit l p) = plan_output p" "plan_readable opened fits (add_limit l p) = plan_readable opened fits p"
  by (simp_all add: add_limit_def limited_def split: option.split)

lemma select_plan:
  assumes p: "plan_select c q = Ok p" and sch: "cat_get_schema c (sel_table q) = Ok sch" "schs (sel_table q) = Some sch"
    and q: "select_posed (fits (sel_table q)) sch q (db (sel_table q))"
  shows "query p \<and> plan_readable (\<lambda>tb. schs tb \<noteq> None) fits p \<and> well_posed schs db p \<and> set (plan_tables p) = {sel_table q} \<and>
    plan_output p = sch \<and> sql_rows db p = select_rows (map col_name (columns sch)) q (db (sel_table q))"
proof -
  let ?t = "sel_table q" and ?ns = "map col_name (columns sch)"
  let ?p = "\<lambda>s. add_limit (sel_limit q) (ProjectionNode s (sel_columns q))"
  have n: "sel_join q = None" "sel_order_by q = None"
    "sel_columns q = [Wildcard] \<or> sel_columns q \<noteq> [] \<and> (\<forall>c \<in> set (sel_columns q). \<exists>t n. c = Identifier t n \<and> n \<in> set ?ns)"
    and w: "sel_where q = Some w \<Longrightarrow> \<forall>x \<in> set (db ?t). comparable ?ns w x"
    "sel_where q = Some w \<Longrightarrow> pk_comparison sch w \<Longrightarrow> \<exists>t c l v. w = BinaryExpr (Identifier t c) OpEQ l \<and> eval_literal l = Ok v \<and>
       fits ?t v \<and> col_index sch c = primary_key_index sch" for w
    using q unfolding select_posed_def by blast+
  have p: "p = ?p (add_filter (sel_where q) (choose_scan ?t sch (sel_where q)))"
    using p sch(1) n(1,2) by (simp add: plan_select_def plan_schema_def plan_scan_def add_order_def)
  show ?thesis
  proof (cases "\<exists>w. sel_where q = Some w \<and> pk_comparison sch w")
    case True
    then obtain w where wh: "sel_where q = Some w" "pk_comparison sch w"
      by blast
    obtain a b l v where e: "w = BinaryExpr (Identifier a b) OpEQ l" "eval_literal l = Ok v" "fits ?t v" "col_index sch b = primary_key_index sch"
      using w(2) [OF wh] by blast
    have "choose_scan ?t sch (sel_where q) = IndexScanNode ?t sch w" "0 \<le> primary_key_index sch"
      using wh by (auto simp: choose_scan_def pk_comparison_def Let_def)
    then have "p = ?p (IndexScanNode ?t sch w)" "0 \<le> primary_key_index sch"
      by (simp_all add: p add_filter_def wh(1))
    moreover have "sat ?ns w = (\<lambda>x. field ?ns x b = operand ?ns x l)"
      by (simp add: fun_eq_iff e(1))
    ultimately show ?thesis
      using e sch(2) n(3) by (simp add: select_rows_def wh(1))
  next
    case False
    then have "choose_scan ?t sch (sel_where q) = SequentialScanNode ?t sch"
      by (intro choose_scan_seq) auto
    with sch(2) n(3) w(1) show ?thesis
      by (cases "sel_where q") (simp_all add: p add_filter_def select_rows_def)
  qed
qed

section \<open>Queries return the rows of SQL\<close>

text \<open>C29. Queries return what SQL means by them: over the repository of a well-formed tree a well-posed query plan, given
  enough fuel, is executed to the rows \<open>sql_rows\<close> of its tables, and nothing that can be observed of the storage
  changes. The primary keys of the tables identify their rows (\<open>keyed\<close>, which insertion and deletion keep).\<close>

theorem query_returns_sql_rows:
  assumes "repo_ok e h t schs n m r" "query p" "plan_readable (\<lambda>tb. schs tb \<noteq> None) (key_fits e schs) p"
    and "\<forall>tb \<in> set (plan_tables p). keyed schs t tb" "well_posed schs (table_rows schs t) p"
  shows "\<exists>N r'. repo_ok e h t schs n m r' \<and> obs (bt_store r') = obs (bt_store r) \<and> (\<forall>k \<ge> N.
    execute_locked k (tree_repository n m) (\<lambda>_. False) p txn r =
      (Ok \<lparr>res_rows = sql_rows (table_rows schs t) p, res_affected = 0, res_schema = Some (plan_output p)\<rparr>, r'))"
  using query_run [OF assms(1-3), of txn] well_posed_meaning [OF assms] by simp

text \<open>The cells of the table \<open>users\<close> under a second name, to join the table with itself.\<close>

definition people_schema :: schema where
  "people_schema = users_schema\<lparr>columns := map (\<lambda>c. c\<lparr>col_name := CHR ''u'' # col_name c\<rparr>) (columns users_schema)\<rparr>"

definition people_tables :: "string \<Rightarrow> schema option" where
  "people_tables = [''users'' \<mapsto> users_schema, ''people'' \<mapsto> people_schema]"

definition people_query :: plan where
  "people_query =
     LimitNode
       (SortNode
         (ProjectionNode
           (FilterNode
             (NestedLoopJoinNode
               (IndexScanNode ''users'' users_schema (BinaryExpr (Identifier [] ''id'') OpEQ (IntLiteral 7)))
               (SequentialScanNode ''people'' people_schema)
               (Some (BinaryExpr (Identifier [] ''id'') OpEQ (Identifier [] ''uid''))))
             (BinaryExpr (BinaryExpr (Identifier [] ''uid'') OpGT (IntLiteral 3)) OpAND
               (UnaryExpr ''NOT'' (BinaryExpr (Identifier [] ''uname'') OpLT (StringLiteral ''Al'')))))
           [Identifier [] ''id'', Identifier [] ''name''])
         ''name'' True)
       5"

lemma decode_columns_types:
  "map col_type cs = map col_type ds \<Longrightarrow> decode_columns c bm os dst hdr i cs = decode_columns c bm os dst hdr i ds"
proof (induction cs arbitrary: ds i)
  case (Cons a cs)
  then obtain b ds' where "ds = b # ds'" "col_type a = col_type b" "map col_type cs = map col_type ds'"
    by (cases ds) auto
  with Cons.IH [of ds' "i + 1"] show ?case
    by simp
qed simp

lemma people_facts:
  "decode_leaf_cell c people_schema = decode_leaf_cell c users_schema"
  "columns people_schema = map (\<lambda>c. c\<lparr>col_name := CHR ''u'' # col_name c\<rparr>) (columns users_schema)"
  "table_rows people_tables users_tree ''users'' = [user_row]" "table_rows people_tables users_tree ''people'' = [user_row]"
  "table_find people_tables users_tree ''users'' (IntValue 7) = Some user_row"
  "table_find people_tables users_tree ''people'' (IntValue 7) = Some user_row"
proof -
  have "map col_type (columns people_schema) = map col_type (columns users_schema)" "length (columns people_schema) = length (columns users_schema)"
    by (simp_all add: people_schema_def)
  note dc = decode_columns_types [OF this(1)] this(2)
  show d: "decode_leaf_cell c people_schema = decode_leaf_cell c users_schema" for c
    by (simp only: decode_leaf_cell_def Let_def dc)
  have i: "table_id people_schema = 0" "table_id users_schema = 0"
    by (simp_all add: people_schema_def users_schema_def)
  show "columns people_schema = map (\<lambda>c. c\<lparr>col_name := CHR ''u'' # col_name c\<rparr>) (columns users_schema)"
    "table_rows people_tables users_tree ''users'' = [user_row]" "table_rows people_tables users_tree ''people'' = [user_row]"
    "table_find people_tables users_tree ''users'' (IntValue 7) = Some user_row"
    "table_find people_tables users_tree ''people'' (IntValue 7) = Some user_row"
    using user_cell_facts d i
    by (simp_all add: people_schema_def table_rows_def table_find_def rows_of_def users_tree_def people_tables_def)
qed

lemma people_repository_ok:
  "repo_ok users_env 0 users_tree people_tables 1 2 (users_repository\<lparr>open_schemas := people_tables\<rparr>)"
  using users_repository_ok user_cell_facts(2)
  by (auto simp: repo_ok_def users_repository_def users_tree_def decodable_def people_tables_def people_facts(1))

theorem query_returns_sql_rows_witness:
  "\<exists>N r'. \<forall>k \<ge> N. execute_locked k (tree_repository 1 2) (\<lambda>_. False) people_query 1
      (users_repository\<lparr>open_schemas := people_tables\<rparr>) =
     (Ok \<lparr>res_rows = [[IntValue 7, StringValue ''Bob'']], res_affected = 0, res_schema = Some (plan_output people_query)\<rparr>, r')"
proof -
  note c = users_schema_def sample_column_def name_column_def
  have k: "\<forall>tb \<in> set (plan_tables people_query). keyed people_tables users_tree tb"
    using people_facts(3-6) people_facts(2)
    by (simp add: people_query_def keyed_def people_tables_def primary_key_index_def c user_row_def value_at_def)
  have n: "map col_name (columns users_schema) = [''id'', ''name'']" "map col_name (columns people_schema) = [''uid'', ''uname'']"
    by (simp_all add: c people_schema_def)
  have i: "primary_key_index users_schema = 0" "col_index users_schema ''id'' = 0"
    "people_tables ''users'' = Some users_schema" "people_tables ''people'' = Some people_schema"
    by (simp_all add: c primary_key_index_def col_index_def people_tables_def)
  have s: "sql_rows (table_rows people_tables users_tree) people_query = [[IntValue 7, StringValue ''Bob'']]"
    using people_facts(3,4) n by (simp add: people_query_def user_row_def field_def project_def)
  have w: "well_posed people_tables (table_rows people_tables users_tree) people_query"
    using people_facts(3,4) n i by (simp add: people_query_def user_row_def field_def project_def join_schemas_def)
  have "plan_readable (\<lambda>tb. people_tables tb \<noteq> None) (key_fits users_env people_tables) people_query"
    by (auto simp: people_query_def people_tables_def key_fits_def users_env_def)
  with query_returns_sql_rows [OF people_repository_ok _ _ k w, of 1] show ?thesis
    by (simp add: s) (auto simp: people_query_def)
qed

end
