(* ===== verification/Engine.thy ===== *)
theory Engine
  imports Relational Txn
begin

text \<open>
  The engine of \<open>executor/executor.go\<close>: a statement outside a transaction runs in one of its own (begin,
  lock, execute, commit or roll back), DDL runs at once. The state is that of one call: \<open>c_txn\<close> is the
  transaction object the call works on. Nothing else runs during a call: a mutex that is free is
  acquired, one that is not leads to the timeout and leaves the goroutine of the request behind.
  What such goroutines do later is in the lock system of \<open>Txn\<close>.
\<close>

section \<open>State\<close>

record engine =
  eng_mgr :: manager
  eng_schemas :: "string \<Rightarrow> schema option"
  eng_catalog :: catalog
  eng_waiting :: "(lock_mode \<times> string) list"    \<comment> \<open>goroutines that still wait for a mutex\<close>

record call =
  c_engine :: engine
  c_txn :: txn

definition repo_view :: "engine \<Rightarrow> btree_repository" where
  "repo_view g = \<lparr>bt_store = store (eng_mgr g), open_schemas = eng_schemas g\<rparr>"

definition put_repo :: "btree_repository \<Rightarrow> engine \<Rightarrow> engine" where
  "put_repo r g = g\<lparr>eng_mgr := (eng_mgr g)\<lparr>store := bt_store r\<rparr>, eng_schemas := open_schemas r\<rparr>"

definition on_repo :: "(btree_repository, 'a) go \<Rightarrow> (engine, 'a) go" where
  "on_repo f g = (case f (repo_view g) of (x, r) \<Rightarrow> (x, put_repo r g))"

definition on_catalog :: "(catalog, 'a) go \<Rightarrow> (engine, 'a) go" where
  "on_catalog f g = (case f (eng_catalog g) of (x, c) \<Rightarrow> (x, g\<lparr>eng_catalog := c\<rparr>))"

definition on_mgr :: "(manager, 'a) go \<Rightarrow> (engine, 'a) go" where
  "on_mgr f g = (case f (eng_mgr g) of (x, m) \<Rightarrow> (x, g\<lparr>eng_mgr := m\<rparr>))"

definition on_engine :: "(engine, 'a) go \<Rightarrow> (call, 'a) go" where
  "on_engine f s = (case f (c_engine s) of (x, g) \<Rightarrow> (x, s\<lparr>c_engine := g\<rparr>))"

text \<open>The interface value the engine hands to the executors.\<close>

definition engine_repository :: "nat \<Rightarrow> nat \<Rightarrow> engine repository" where
  "engine_repository n m =
     (let R = tree_repository n m in
      \<lparr>repo_open_table = (\<lambda>t sch. on_repo (repo_open_table R t sch)),
       repo_find_by_pk = (\<lambda>t v. on_repo (repo_find_by_pk R t v)),
       repo_scan = (\<lambda>t. on_repo (repo_scan R t)),
       repo_insert = (\<lambda>t r x. on_repo (repo_insert R t r x)),
       repo_update = (\<lambda>t v r x. on_repo (repo_update R t v r x)),
       repo_delete = (\<lambda>t v x. on_repo (repo_delete R t v x))\<rparr>)"

section \<open>Locking\<close>

text \<open>\<open>RLock\<close> and \<open>Lock\<close> of the manager. A \<open>sync.RWMutex\<close> with a waiting writer lets no new reader in. The
  context is not cancelled while the locks are taken.\<close>

definition lock_free :: "lock_mode \<Rightarrow> string \<Rightarrow> engine \<Rightarrow> bool" where
  "lock_free md table g \<longleftrightarrow> can_acquire md (table_locks (eng_mgr g) table) \<and>
     (md = ReadLock \<longrightarrow> (WriteLock, table) \<notin> set (eng_waiting g))"

definition lock_table :: "lock_mode \<Rightarrow> string \<Rightarrow> (call, unit) go" where
  "lock_table md table s =
     (let t = c_txn s; g = c_engine s; L = table_locks (eng_mgr g) in
      case lock_entry_check md t table of
        Some (Ok _) \<Rightarrow> (Ok (), s)
      | Some (Err e) \<Rightarrow> (Err e, s)
      | Some Panic \<Rightarrow> (Panic, s)
      | Some Stuck \<Rightarrow> (Stuck, s)
      | None \<Rightarrow>
          if lock_free md table g
          then (Ok (), s\<lparr>c_txn := t\<lparr>locks := locks t @ [lock_entry md table]\<rparr>,
                         c_engine := g\<lparr>eng_mgr := (eng_mgr g)\<lparr>table_locks := L(table := acquire md (L table))\<rparr>\<rparr>\<rparr>)
          else (Err (ELockTimeout (txn_id t) table), s\<lparr>c_engine := g\<lparr>eng_waiting := eng_waiting g @ [(md, table)]\<rparr>\<rparr>))"

fun read_lock_tables :: "string list \<Rightarrow> (call, unit) go" where
  "read_lock_tables [] = ret ()"
| "read_lock_tables (t # ts) = bindG (lock_table ReadLock t) (\<lambda>_. read_lock_tables ts)"

fun lock_for :: "plan \<Rightarrow> (call, unit) go" where
  "lock_for (InsertNode t _ _) = lock_table WriteLock t"
| "lock_for (UpdateNode t _ _ _) = lock_table WriteLock t"
| "lock_for (DeleteNode t _ _) = lock_table WriteLock t"
| "lock_for p = read_lock_tables (table_names_of p)"

section \<open>Executing a statement\<close>

definition empty_result :: result where
  "empty_result = \<lparr>res_rows = [], res_affected = 0, res_schema = None\<rparr>"

text \<open>\<open>executeDDLOrTxnMarker\<close>: \<open>None\<close> is \<open>handled = false\<close>.\<close>

fun execute_ddl_or_marker :: "plan \<Rightarrow> (engine, result) go option" where
  "execute_ddl_or_marker (CreateTableNode name cols) =
     Some (bindG (on_catalog (create_table \<lparr>table_name = name, table_id = 0, columns = cols\<rparr>)) (\<lambda>_.
           bindG (on_catalog (\<lambda>c. (get_schema c name, c))) (\<lambda>assigned.
           bindG (on_repo (open_table name assigned)) (\<lambda>_. ret empty_result))))"
| "execute_ddl_or_marker (DropTableNode name) =
     Some (bindG (on_catalog (drop_table name)) (\<lambda>_. ret empty_result))"
| "execute_ddl_or_marker BeginNode = Some (ret empty_result)"
| "execute_ddl_or_marker CommitNode = Some (ret empty_result)"
| "execute_ddl_or_marker RollbackNode = Some (ret empty_result)"
| "execute_ddl_or_marker _ = None"

text \<open>\<open>k\<close> is the fuel of the executors, \<open>n\<close> and \<open>m\<close> that of the tree.\<close>

definition exec_locked_in_txn :: "nat \<Rightarrow> nat \<Rightarrow> nat \<Rightarrow> (nat \<Rightarrow> bool) \<Rightarrow> plan \<Rightarrow> (call, result) go" where
  "exec_locked_in_txn k n m ctx p =
     bindG (lock_for p) (\<lambda>_ s.
       on_engine (execute_locked k (engine_repository n m) ctx p (txn_id (c_txn s))) s)"

definition execute_in_txn :: "nat \<Rightarrow> nat \<Rightarrow> nat \<Rightarrow> (nat \<Rightarrow> bool) \<Rightarrow> plan \<Rightarrow> (call, result) go" where
  "execute_in_txn k n m ctx p =
     (case execute_ddl_or_marker p of
        Some f \<Rightarrow> on_engine f
      | None \<Rightarrow> exec_locked_in_txn k n m ctx p)"

text \<open>A panic passes through \<open>Execute\<close>: neither \<open>Rollback\<close> nor \<open>Commit\<close> is called.\<close>

definition engine_execute :: "nat \<Rightarrow> nat \<Rightarrow> nat \<Rightarrow> (nat \<Rightarrow> bool) \<Rightarrow> plan \<Rightarrow> (engine, result) go" where
  "engine_execute k n m ctx p =
     (case execute_ddl_or_marker p of
        Some f \<Rightarrow> f
      | None \<Rightarrow>
          bindG (on_mgr begin_txn) (\<lambda>t g.
            case exec_locked_in_txn k n m ctx p \<lparr>c_engine = g, c_txn = t\<rparr> of
              (Ok res, s) \<Rightarrow> bindG (on_mgr (commit (c_txn s))) (\<lambda>_. ret res) (c_engine s)
            | (Err e, s) \<Rightarrow> (Err e, snd (on_mgr (rollback (c_txn s)) (c_engine s)))
            | (Panic, s) \<Rightarrow> (Panic, c_engine s)
            | (Stuck, s) \<Rightarrow> (Stuck, c_engine s)))"

section \<open>Locks cover what is read\<close>

fun exec_tables :: "exec \<Rightarrow> string list" where
  "exec_tables (SeqScanExecutor t _ _ _ _) = [t]"
| "exec_tables (IndexScanExecutor t _ _ _) = [t]"
| "exec_tables (FilterExecutor e _) = exec_tables e"
| "exec_tables (ProjectionExecutor e _ _) = exec_tables e"
| "exec_tables (NestedLoopJoinExecutor l r _ _ _ _ _) = exec_tables l @ exec_tables r"
| "exec_tables (SortExecutor e _ _ _ _ _) = exec_tables e"
| "exec_tables (LimitExecutor e _ _) = exec_tables e"
| "exec_tables (InsertExecutor t _ _ _ _) = [t]"
| "exec_tables (UpdateExecutor t _ _ _ _ _) = [t]"
| "exec_tables (DeleteExecutor t _ _ _ _) = [t]"

text \<open>Two repositories that agree on some tables.\<close>

definition agree_on :: "string set \<Rightarrow> 's repository \<Rightarrow> 's repository \<Rightarrow> bool" where
  "agree_on T R Q \<longleftrightarrow> (\<forall>t \<in> T. repo_find_by_pk R t = repo_find_by_pk Q t \<and> repo_scan R t = repo_scan Q t \<and>
     repo_insert R t = repo_insert Q t \<and> repo_update R t = repo_update Q t \<and> repo_delete R t = repo_delete Q t)"

lemma bindG_cong: "m s = m' s \<Longrightarrow> (\<And>a s'. m s = (Ok a, s') \<Longrightarrow> f a s' = f' a s') \<Longrightarrow> bindG m f s = bindG m' f' s"
  by (auto simp: bindG_def split: prod.split res.split)

definition keeps_tables :: "(exec \<Rightarrow> ('s, 'a \<times> exec) go) \<Rightarrow> bool" where
  "keeps_tables f \<longleftrightarrow> (\<forall>e s r e' s'. f e s = (Ok (r, e'), s') \<longrightarrow> exec_tables e' = exec_tables e)"

definition same_on :: "string set \<Rightarrow> (exec \<Rightarrow> ('s, 'a \<times> exec) go) \<Rightarrow> (exec \<Rightarrow> ('s, 'a \<times> exec) go) \<Rightarrow> bool" where
  "same_on T f g \<longleftrightarrow> (\<forall>e s. set (exec_tables e) \<subseteq> T \<longrightarrow> f e s = g e s)"

lemma keeps_tablesD: "keeps_tables f \<Longrightarrow> f e s = (Ok (r, e'), s') \<Longrightarrow> exec_tables e' = exec_tables e"
  unfolding keeps_tables_def by blast

lemma same_onD: "same_on T f g \<Longrightarrow> set (exec_tables e) \<subseteq> T \<Longrightarrow> f e s = g e s"
  by (simp add: same_on_def)

lemma leaf_next_tables:
  "seq_scan_next R t sch rows pos loaded s = (Ok (r, e'), s') \<Longrightarrow> exec_tables e' = [t]"
  "index_scan_next R t sch pe done s = (Ok (r, e'), s') \<Longrightarrow> exec_tables e' = [t]"
  "insert_next R t sch vs txn done s = (Ok (r, e'), s') \<Longrightarrow> exec_tables e' = [t]"
  "update_next R t sch as wh txn done s = (Ok (r, e'), s') \<Longrightarrow> exec_tables e' = [t]"
  "delete_next R t sch wh txn done s = (Ok (r, e'), s') \<Longrightarrow> exec_tables e' = [t]"
  by (auto simp: seq_scan_next_def index_scan_next_def insert_next_def update_next_def delete_next_def bindG_eq_Ok
    split: if_splits expr.splits)

lemma child_call:
  assumes "keeps_tables next" "bindG (next child) k s = (Ok y, s')"
  obtains r child' u where "k (r, child') u = (Ok y, s')" "exec_tables child' = exec_tables child"
proof -
  obtain a u where a: "next child s = (Ok a, u)" "k a u = (Ok y, s')"
    using assms(2) by (auto simp: bindG_eq_Ok)
  show thesis
    using that [of "fst a" "snd a" u] keeps_tablesD [OF assms(1), of child s "fst a" "snd a" u] a by simp
qed

lemma filter_next_tables:
  assumes n: "keeps_tables next" and f: "filter_next next child c s = (Ok (r, e'), s')"
  shows "exec_tables e' = exec_tables child"
proof (rule child_call [OF n f [unfolded filter_next_def]])
  fix row child' u
  assume k: "(\<lambda>(row, child'). case row of None \<Rightarrow> ret (None, FilterExecutor child' c)
      | Some r \<Rightarrow> bindG (pureG (eval_cond c r (exec_schema child')))
          (\<lambda>ok. if ok then ret (Some r, FilterExecutor child' c) else next (FilterExecutor child' c))) (row, child') u = (Ok (r, e'), s')"
    and t: "exec_tables child' = exec_tables child"
  show ?thesis
  proof (cases row)
    case None
    with k t show ?thesis by auto
  next
    case (Some x)
    then obtain ok where "(if ok then ret (Some x, FilterExecutor child' c) else next (FilterExecutor child' c)) u = (Ok (r, e'), s')"
      using k by (auto simp: bindG_eq_Ok pureG_def)
    then show ?thesis
      using keeps_tablesD [OF n, of "FilterExecutor child' c" u r e' s'] t by (cases ok) auto
  qed
qed

lemma projection_next_tables:
  assumes n: "keeps_tables next" and f: "projection_next next child cols sch s = (Ok (r, e'), s')"
  shows "exec_tables e' = exec_tables child"
  by (rule child_call [OF n f [unfolded projection_next_def]]) (auto simp: bindG_eq_Ok split: option.splits)

lemma limit_next_tables:
  assumes n: "keeps_tables next" and f: "limit_next next child k i s = (Ok (r, e'), s')"
  shows "exec_tables e' = exec_tables child"
proof (cases "i \<ge> k")
  case False
  then have "bindG (next child) (\<lambda>(row, child'). case row of None \<Rightarrow> ret (None, LimitExecutor child' k i)
      | Some r \<Rightarrow> ret (Some r, LimitExecutor child' k (i + 1))) s = (Ok (r, e'), s')"
    using f by (simp add: limit_next_def)
  then show ?thesis
    by (rule child_call [OF n]) (auto split: option.splits)
qed (use f in \<open>auto simp: limit_next_def\<close>)

lemma sort_next_tables:
  assumes d: "keeps_tables dr" and f: "sort_next dr child col desc rows pos loaded s = (Ok (r, e'), s')"
  shows "exec_tables e' = exec_tables child"
proof (cases loaded)
  case True
  with f show ?thesis
    by (auto simp: sort_next_def bindG_eq_Ok split: if_splits)
next
  case False
  then obtain rs child' u where c:
    "bindG (dr child) (\<lambda>(rs, child').
       bindG (pureG (sort_rows (col_index (exec_schema child') col) desc (rows @ rs))) (\<lambda>sorted. ret (sorted, child'))) s = (Ok (rs, child'), u)"
    "(if pos \<ge> length rs then ret (None, SortExecutor child' col desc rs pos True)
      else ret (Some (rs ! pos), SortExecutor child' col desc rs (pos + 1) True)) u = (Ok (r, e'), s')"
    using f by (auto simp: sort_next_def bindG_eq_Ok)
  have "exec_tables child' = exec_tables child"
    by (rule child_call [OF d c(1)]) (auto simp: bindG_eq_Ok)
  then show ?thesis
    using c(2) by (auto split: if_splits)
qed

lemma join_next_tables:
  assumes n: "keeps_tables next" and d: "keeps_tables dr"
    and f: "join_next next dr le ri c lr rows pos loaded s = (Ok (r, e'), s')"
  shows "exec_tables e' = exec_tables le @ exec_tables ri"
proof (cases lr)
  case None
  then have "bindG (next le) (\<lambda>(row, le'). case row of None \<Rightarrow> ret (None, NestedLoopJoinExecutor le' ri c None rows pos loaded)
      | Some l \<Rightarrow> next (NestedLoopJoinExecutor le' ri c (Some l) [] 0 False)) s = (Ok (r, e'), s')"
    using f by (simp add: join_next_def)
  then show ?thesis
    by (rule child_call [OF n]) (auto split: option.splits dest: keeps_tablesD [OF n])
next
  case (Some l)
  show ?thesis
  proof (cases loaded)
    case False
    then have "bindG (dr ri) (\<lambda>(rs, ri'). next (NestedLoopJoinExecutor le ri' c (Some l) (rows @ rs) pos True)) s = (Ok (r, e'), s')"
      using f Some by (simp add: join_next_def)
    then show ?thesis
      by (rule child_call [OF d]) (auto dest: keeps_tablesD [OF n])
  next
    case True
    then obtain row pos' u where "(case row of
        Some r \<Rightarrow> ret (Some r, NestedLoopJoinExecutor le ri c (Some l) rows pos' True)
      | None \<Rightarrow> next (NestedLoopJoinExecutor le ri c None rows pos' True)) u = (Ok (r, e'), s')"
      using f Some by (auto simp: join_next_def bindG_eq_Ok)
    then show ?thesis
      by (cases row) (auto dest: keeps_tablesD [OF n])
  qed
qed

lemma exec_next_keeps: "keeps_tables (exec_next n R) \<and> keeps_tables (drain n R)"
proof (induction n)
  case 0
  show ?case by (simp add: keeps_tables_def stuck_def)
next
  case (Suc n)
  then have n: "keeps_tables (exec_next n R)" and d: "keeps_tables (drain n R)"
    by simp_all
  have "keeps_tables (exec_next (Suc n) R)"
    unfolding keeps_tables_def
  proof (intro allI impI)
    fix e s r e' s'
    assume "exec_next (Suc n) R e s = (Ok (r, e'), s')"
    then show "exec_tables e' = exec_tables e"
      by (cases e) (simp_all add: leaf_next_tables filter_next_tables [OF n] projection_next_tables [OF n]
        limit_next_tables [OF n] sort_next_tables [OF d] join_next_tables [OF n d])
  qed
  moreover have "keeps_tables (drain (Suc n) R)"
    unfolding keeps_tables_def
  proof (intro allI impI)
    fix e s rs e' s'
    assume "drain (Suc n) R e s = (Ok (rs, e'), s')"
    then have "bindG (exec_next n R e) (\<lambda>(row, e'). case row of None \<Rightarrow> ret ([], e')
        | Some r \<Rightarrow> bindG (drain n R e') (\<lambda>(rs, e''). ret (r # rs, e''))) s = (Ok (rs, e'), s')"
      by simp
    then show "exec_tables e' = exec_tables e"
    proof (rule child_call [OF n])
      fix row e1 u
      assume k: "(\<lambda>(row, e'). case row of None \<Rightarrow> ret ([], e')
        | Some r \<Rightarrow> bindG (drain n R e') (\<lambda>(rs, e''). ret (r # rs, e''))) (row, e1) u = (Ok (rs, e'), s')"
        and t: "exec_tables e1 = exec_tables e"
      show ?thesis
      proof (cases row)
        case (Some r)
        then have "bindG (drain n R e1) (\<lambda>(rs, e''). ret (r # rs, e'')) u = (Ok (rs, e'), s')"
          using k by simp
        then show ?thesis
          by (rule child_call [OF d]) (use t in auto)
      qed (use k t in auto)
    qed
  qed
  ultimately show ?case ..
qed

lemma update_rows_agree:
  assumes "repo_update R t = repo_update Q t"
  shows "update_rows R t sch as wh txn rs = update_rows Q t sch as wh txn rs"
  by (induction rs) (simp_all add: assms cong: if_cong)

lemma delete_rows_agree:
  assumes "repo_delete R t = repo_delete Q t"
  shows "delete_rows R t sch wh txn rs = delete_rows Q t sch wh txn rs"
  by (induction rs) (simp_all add: assms cong: if_cong)

lemma leaf_next_same:
  assumes "agree_on T R Q" "t \<in> T"
  shows "seq_scan_next R t sch rows pos loaded = seq_scan_next Q t sch rows pos loaded"
    "index_scan_next R t sch pe done = index_scan_next Q t sch pe done"
    "insert_next R t sch vs txn done = insert_next Q t sch vs txn done"
    "update_next R t sch as wh txn done = update_next Q t sch as wh txn done"
    "delete_next R t sch wh txn done = delete_next Q t sch wh txn done"
  using assms update_rows_agree [of R t Q] delete_rows_agree [of R t Q]
  by (auto simp: seq_scan_next_def index_scan_next_def insert_next_def update_next_def delete_next_def agree_on_def
    split: expr.split)

lemma filter_next_same:
  assumes "same_on T next next'" "keeps_tables next" "set (exec_tables child) \<subseteq> T"
  shows "filter_next next child c s = filter_next next' child c s"
  unfolding filter_next_def
proof (rule bindG_cong)
  show "next child s = next' child s"
    by (rule same_onD [OF assms(1,3)])
next
  fix a s' assume a: "next child s = (Ok a, s')"
  then have "set (exec_tables (snd a)) \<subseteq> T"
    using keeps_tablesD [OF assms(2), of child s "fst a" "snd a" s'] assms(3) by simp
  then have "next (FilterExecutor (snd a) c) u = next' (FilterExecutor (snd a) c) u" for u
    by (intro same_onD [OF assms(1)]) simp
  then show "(\<lambda>(row, child'). case row of None \<Rightarrow> ret (None, FilterExecutor child' c)
      | Some r \<Rightarrow> bindG (pureG (eval_cond c r (exec_schema child')))
          (\<lambda>ok. if ok then ret (Some r, FilterExecutor child' c) else next (FilterExecutor child' c))) a s' =
    (\<lambda>(row, child'). case row of None \<Rightarrow> ret (None, FilterExecutor child' c)
      | Some r \<Rightarrow> bindG (pureG (eval_cond c r (exec_schema child')))
          (\<lambda>ok. if ok then ret (Some r, FilterExecutor child' c) else next' (FilterExecutor child' c))) a s'"
    by (auto simp: case_prod_beta split: option.split intro!: bindG_cong)
qed

lemma projection_next_same:
  "same_on T next next' \<Longrightarrow> set (exec_tables child) \<subseteq> T \<Longrightarrow>
   projection_next next child cols sch s = projection_next next' child cols sch s"
  by (auto simp: projection_next_def dest: same_onD intro!: bindG_cong)

lemma limit_next_same:
  "same_on T next next' \<Longrightarrow> set (exec_tables child) \<subseteq> T \<Longrightarrow> limit_next next child k i s = limit_next next' child k i s"
  by (auto simp: limit_next_def dest: same_onD intro!: bindG_cong)

lemma sort_next_same:
  "same_on T dr dr' \<Longrightarrow> set (exec_tables child) \<subseteq> T \<Longrightarrow>
   sort_next dr child col desc rows pos loaded s = sort_next dr' child col desc rows pos loaded s"
  by (auto simp: sort_next_def dest: same_onD intro!: bindG_cong)

lemma same_on_again: "same_on T next next' \<Longrightarrow> set (exec_tables e) \<subseteq> T \<Longrightarrow> next e = next' e"
  by (auto simp: same_on_def)

lemma child_within: "keeps_tables f \<Longrightarrow> f e s = (Ok a, s') \<Longrightarrow> set (exec_tables e) \<subseteq> T \<Longrightarrow> set (exec_tables (snd a)) \<subseteq> T"
  using keeps_tablesD [of f e s "fst a" "snd a" s'] by simp

lemma join_next_same:
  assumes n: "same_on T next next'" "keeps_tables next" and d: "same_on T dr dr'" "keeps_tables dr"
    and t: "set (exec_tables le) \<subseteq> T" "set (exec_tables ri) \<subseteq> T"
  shows "join_next next dr le ri c lr rows pos loaded s = join_next next' dr' le ri c lr rows pos loaded s"
proof (cases lr)
  case None
  have u: "set (exec_tables (snd a)) \<subseteq> T" if "next' le s = (Ok a, s')" for a s'
    using child_within [OF n(2) _ t(1)] that same_onD [OF n(1) t(1)] by simp
  show ?thesis
    unfolding join_next_def None option.case same_onD [OF n(1) t(1)]
    by (rule bindG_cong) (use u same_on_again [OF n(1)] t(2) same_onD [OF n(1) t(1)] in
      \<open>auto simp: case_prod_beta split: option.split\<close>)
next
  case (Some l)
  have u: "set (exec_tables (snd a)) \<subseteq> T" if "dr' ri s = (Ok a, s')" for a s'
    using child_within [OF d(2) _ t(2)] that same_onD [OF d(1) t(2)] by simp
  show ?thesis
    using Some same_on_again [OF n(1)] t u same_onD [OF d(1) t(2)]
    by (auto simp: join_next_def case_prod_beta split: option.split intro!: bindG_cong)
qed

lemma exec_next_same:
  assumes a: "agree_on T R Q"
  shows "same_on T (exec_next n R) (exec_next n Q) \<and> same_on T (drain n R) (drain n Q)"
proof (induction n)
  case 0
  show ?case by (simp add: same_on_def)
next
  case (Suc n)
  then have n: "same_on T (exec_next n R) (exec_next n Q)" and d: "same_on T (drain n R) (drain n Q)"
    by simp_all
  have k: "keeps_tables (exec_next n R)" "keeps_tables (drain n R)"
    using exec_next_keeps by blast+
  have "same_on T (exec_next (Suc n) R) (exec_next (Suc n) Q)"
    unfolding same_on_def
  proof (intro allI impI)
    fix e s
    assume "set (exec_tables e) \<subseteq> T"
    then show "exec_next (Suc n) R e s = exec_next (Suc n) Q e s"
      by (cases e) (simp_all add: leaf_next_same [OF a] filter_next_same [OF n k(1)] projection_next_same [OF n]
        limit_next_same [OF n] sort_next_same [OF d] join_next_same [OF n k(1) d k(2)])
  qed
  moreover have "same_on T (drain (Suc n) R) (drain (Suc n) Q)"
    unfolding same_on_def
  proof (intro allI impI)
    fix e s
    assume t: "set (exec_tables e) \<subseteq> T"
    show "drain (Suc n) R e s = drain (Suc n) Q e s"
      using same_on_again [OF d] child_within [OF k(1) _ t]
      by (auto simp: same_onD [OF n t] case_prod_beta split: option.split intro!: bindG_cong)
  qed
  ultimately show ?case ..
qed

lemma result_loop_same:
  assumes "agree_on T R Q" "set (exec_tables e) \<subseteq> T"
  shows "result_loop n R ctx i e s = result_loop n Q ctx i e s"
  using assms(2)
proof (induction n arbitrary: i e s)
  case (Suc n)
  have n: "same_on T (exec_next n R) (exec_next n Q)" and k: "keeps_tables (exec_next n R)"
    using exec_next_same [OF assms(1)] exec_next_keeps by blast+
  show ?case
    using child_within [OF k _ Suc.prems] Suc.IH
    by (auto simp: same_onD [OF n Suc.prems] case_prod_beta split: option.split intro!: bindG_cong)
qed simp

text \<open>The tables a plan works on.\<close>

fun locked_tables :: "plan \<Rightarrow> string list" where
  "locked_tables (InsertNode t _ _) = [t]"
| "locked_tables (UpdateNode t _ _ _) = [t]"
| "locked_tables (DeleteNode t _ _) = [t]"
| "locked_tables p = table_names_of p"

lemma build_tables: "build p txn = Ok e \<Longrightarrow> query p \<Longrightarrow> set (exec_tables e) = set (table_names_of p)"
  by (induction p arbitrary: e) (auto simp: bindR_eq_Ok split: plan.splits)

text \<open>Everything an executor does goes through the tables the engine has locked before.\<close>

lemma execute_locked_same:
  assumes "agree_on (set (locked_tables p)) R Q" "query p \<or> (\<exists>t sch vs. p = InsertNode t sch vs) \<or>
    (\<exists>t sch as wh. p = UpdateNode t sch as wh) \<or> (\<exists>t sch wh. p = DeleteNode t sch wh)"
  shows "execute_locked k R ctx p txn s = execute_locked k Q ctx p txn s"
proof -
  have "set (exec_tables e) \<subseteq> set (locked_tables p)" if "build p txn = Ok e" for e
    using assms(2) that build_tables [OF that] by (cases p) auto
  then have "result_loop k R ctx i e u = result_loop k Q ctx i e u" if "build p txn = Ok e" for e i u
    using that by (intro result_loop_same [OF assms(1)]) simp
  then show ?thesis
    by (auto simp: execute_locked_def pureG_def intro!: bindG_cong)
qed

section \<open>Taking read locks\<close>

text \<open>\<open>s\<close> comes from \<open>g\<close> and a fresh transaction by read locks alone.\<close>

definition read_locked :: "engine \<Rightarrow> u64 \<Rightarrow> call \<Rightarrow> bool" where
  "read_locked g i s \<longleftrightarrow>
     txn_id (c_txn s) = i \<and> tstate (c_txn s) = StateActive \<and> locks_ok (locks (c_txn s)) \<and>
     (\<forall>tb. lock_entry WriteLock tb \<notin> set (locks (c_txn s))) \<and>
     c_engine s = g\<lparr>eng_mgr := (eng_mgr g)\<lparr>table_locks := table_locks (eng_mgr (c_engine s))\<rparr>\<rparr> \<and>
     (\<forall>tb. readers (table_locks (eng_mgr (c_engine s)) tb) =
        readers (table_locks (eng_mgr g) tb) + of_bool (lock_entry ReadLock tb \<in> set (locks (c_txn s)))) \<and>
     (\<forall>tb. writer (table_locks (eng_mgr (c_engine s)) tb) = writer (table_locks (eng_mgr g) tb))"

lemma lock_table_read:
  assumes "read_locked g i s" "lock_free ReadLock tb g"
  obtains s' where "lock_table ReadLock tb s = (Ok (), s')" "read_locked g i s'"
    "set (locks (c_txn s')) = insert (lock_entry ReadLock tb) (set (locks (c_txn s)))"
proof (cases "lock_entry ReadLock tb \<in> set (locks (c_txn s))")
  case True
  then show thesis
    using assms(1) by (intro that [of s]) (auto simp: lock_table_def lock_entry_check_def holds_def Let_def)
next
  case False
  let ?L = "table_locks (eng_mgr (c_engine s))"
  let ?s = "s\<lparr>c_txn := (c_txn s)\<lparr>locks := locks (c_txn s) @ [lock_entry ReadLock tb]\<rparr>,
    c_engine := (c_engine s)\<lparr>eng_mgr := (eng_mgr (c_engine s))\<lparr>table_locks := ?L(tb := acquire ReadLock (?L tb))\<rparr>\<rparr>\<rparr>"
  note r = assms(1) [unfolded read_locked_def]
  have w: "eng_waiting (c_engine s) = eng_waiting g"
    using r by (metis (no_types, lifting) engine.ext_inject engine.surjective engine.update_convs(1))
  show thesis
  proof (rule that [of ?s])
    show "lock_table ReadLock tb s = (Ok (), ?s)"
      using False r assms(2) w by (auto simp: lock_table_def lock_entry_check_def holds_def lock_free_def can_acquire_def Let_def)
    have "c_engine s = g\<lparr>eng_mgr := (eng_mgr g)\<lparr>table_locks := ?L\<rparr>\<rparr>"
      using r by blast
    then obtain L where "c_engine s = g\<lparr>eng_mgr := (eng_mgr g)\<lparr>table_locks := L\<rparr>\<rparr>"
      by blast
    then have "c_engine ?s = g\<lparr>eng_mgr := (eng_mgr g)\<lparr>table_locks := table_locks (eng_mgr (c_engine ?s))\<rparr>\<rparr>"
      by simp
    then show "read_locked g i ?s"
      using r False unfolding read_locked_def by (auto simp: locks_ok_def acquire_def)
  qed simp
qed

lemma read_lock_tables_ok:
  assumes "read_locked g i s" "\<forall>tb \<in> set ts. lock_free ReadLock tb g"
  obtains s' where "read_lock_tables ts s = (Ok (), s')" "read_locked g i s'"
    "set (locks (c_txn s')) = lock_entry ReadLock ` set ts \<union> set (locks (c_txn s))"
  using assms
proof (induction ts arbitrary: s thesis)
  case Nil
  then show ?case by simp
next
  case (Cons t ts)
  have w: "lock_free ReadLock t g"
    using Cons.prems(3) by simp
  obtain u where u: "lock_table ReadLock t s = (Ok (), u)" "read_locked g i u"
    "set (locks (c_txn u)) = insert (lock_entry ReadLock t) (set (locks (c_txn s)))"
    by (rule lock_table_read [OF Cons.prems(2) w])
  obtain v where v: "read_lock_tables ts u = (Ok (), v)" "read_locked g i v"
    "set (locks (c_txn v)) = lock_entry ReadLock ` set ts \<union> set (locks (c_txn u))"
    using Cons.IH [OF _ u(2)] Cons.prems(3) by auto
  show ?case
    by (rule Cons.prems(1) [OF _ v(2)]) (simp_all add: bindG_def u v)
qed

section \<open>Queries through the engine\<close>

lemma repo_view_put [simp]: "repo_view (put_repo r g) = r"
  by (simp add: repo_view_def put_repo_def)

lemma put_repo_fields [simp]:
  "store (eng_mgr (put_repo r g)) = bt_store r" "eng_schemas (put_repo r g) = open_schemas r"
  "table_locks (eng_mgr (put_repo r g)) = table_locks (eng_mgr g)" "eng_catalog (put_repo r g) = eng_catalog g"
  "next_txn_id (eng_mgr (put_repo r g)) = next_txn_id (eng_mgr g)" "eng_waiting (put_repo r g) = eng_waiting g"
  by (simp_all add: put_repo_def)

text \<open>What reading keeps of the engine.\<close>

definition reads_from :: "env \<Rightarrow> nat \<Rightarrow> tree \<Rightarrow> nat \<Rightarrow> nat \<Rightarrow> engine \<Rightarrow> engine \<Rightarrow> bool" where
  "reads_from e h t n m g g' \<longleftrightarrow> repo_ok e h t (eng_schemas g) n m (repo_view g') \<and>
     obs (store (eng_mgr g')) = obs (store (eng_mgr g)) \<and> table_locks (eng_mgr g') = table_locks (eng_mgr g) \<and>
     eng_catalog g' = eng_catalog g \<and> eng_waiting g' = eng_waiting g \<and> next_txn_id (eng_mgr g') = next_txn_id (eng_mgr g)"

interpretation engine_tables: table_reader "engine_repository n m" "reads_from e h t n m g"
  "\<lambda>tb. eng_schemas g tb \<noteq> None" "key_fits e (eng_schemas g)" "table_rows (eng_schemas g) t" "table_find (eng_schemas g) t"
  for e h t n m g
proof (unfold_locales, goal_cases)
  case (1 u tb)
  note u = 1(1) [unfolded reads_from_def]
  have st: "bt_store (repo_view w) = store (eng_mgr w)" for w
    by (simp add: repo_view_def)
  obtain r where r: "repo_ok e h t (eng_schemas g) n m r" "obs (bt_store r) = obs (store (eng_mgr u))"
    "repo_scan (tree_repository n m) tb (repo_view u) = (Ok (table_rows (eng_schemas g) t tb), r)"
    using tables.scan_table [of e h t "eng_schemas g" n m "repo_view u" "obs (store (eng_mgr u))" tb] u 1(2) st by auto
  have "reads_from e h t n m g (put_repo r u)"
    using u r by (simp add: reads_from_def)
  moreover have "repo_scan (engine_repository n m) tb u = (Ok (table_rows (eng_schemas g) t tb), put_repo r u)"
    by (simp add: engine_repository_def on_repo_def r(3) Let_def)
  ultimately show ?case by blast
next
  case (2 u tb v)
  note u = 2(1) [unfolded reads_from_def]
  have st: "bt_store (repo_view w) = store (eng_mgr w)" for w
    by (simp add: repo_view_def)
  obtain r where r: "repo_ok e h t (eng_schemas g) n m r" "obs (bt_store r) = obs (store (eng_mgr u))"
    "repo_find_by_pk (tree_repository n m) tb v (repo_view u) = (Ok (table_find (eng_schemas g) t tb v), r)"
    using tables.find_row [of e h t "eng_schemas g" n m "repo_view u" "obs (store (eng_mgr u))" tb v] u 2(2,3) st by auto
  have "reads_from e h t n m g (put_repo r u)"
    using u r by (simp add: reads_from_def)
  moreover have "repo_find_by_pk (engine_repository n m) tb v u = (Ok (table_find (eng_schemas g) t tb v), put_repo r u)"
    by (simp add: engine_repository_def on_repo_def r(3) Let_def)
  ultimately show ?case by blast
qed

text \<open>The state in which the query of a new transaction runs: its tables are read-locked.\<close>

lemma lock_for_query: "query p \<Longrightarrow> lock_for p = read_lock_tables (table_names_of p)"
  by (cases p) auto

lemma read_locked_held: "read_locked g i s \<Longrightarrow> locks_held (c_txn s) (table_locks (eng_mgr (c_engine s)))"
  unfolding read_locked_def locks_held_def by auto

lemma read_locked_released:
  assumes "read_locked g i s"
    and "\<And>tb. writer (L tb) \<longleftrightarrow> writer (table_locks (eng_mgr (c_engine s)) tb) \<and> lock_entry WriteLock tb \<notin> set (locks (c_txn s))"
    and "\<And>tb. readers (L tb) = readers (table_locks (eng_mgr (c_engine s)) tb) - of_bool (lock_entry ReadLock tb \<in> set (locks (c_txn s)))"
  shows "L = table_locks (eng_mgr g)"
proof
  fix tb
  show "L tb = table_locks (eng_mgr g) tb"
    using assms(1) by (intro rwmutex.equality) (simp_all add: assms(2,3) read_locked_def)
qed

lemma same_file_reads:
  assumes "wal_holds w rs ps" "wal_holds w' rs' ps'" "wfile w' = wfile w"
  shows "rs' = rs"
proof -
  have "Ok rs' = wal_read_all w"
    using wal_holds_read [OF assms(2)] assms(3) by (simp add: wal_read_all_def)
  with wal_holds_read [OF assms(1)] show ?thesis by simp
qed

definition ready_for :: "env \<Rightarrow> nat \<Rightarrow> tree \<Rightarrow> nat \<Rightarrow> nat \<Rightarrow> plan \<Rightarrow> engine \<Rightarrow> bool" where
  "ready_for e h t n m p g \<longleftrightarrow> repo_ok e h t (eng_schemas g) n m (repo_view g) \<and> query p \<and>
     plan_readable (\<lambda>tb. eng_schemas g tb \<noteq> None) (key_fits e (eng_schemas g)) p \<and>
     (\<forall>tb \<in> set (table_names_of p). lock_free ReadLock tb g) \<and>
     (\<forall>j. owner (store (eng_mgr g)) j \<noteq> Some (next_txn_id (eng_mgr g) + 1))"

abbreviation answer :: "tree \<Rightarrow> plan \<Rightarrow> engine \<Rightarrow> result res" where
  "answer t p g \<equiv> bindR (snd (meaning (table_rows (eng_schemas g) t) (table_find (eng_schemas g) t) p)) (\<lambda>_.
     Ok \<lparr>res_rows = fst (meaning (table_rows (eng_schemas g) t) (table_find (eng_schemas g) t) p), res_affected = 0,
         res_schema = Some (plan_output p)\<rparr>)"

definition begun :: "engine \<Rightarrow> engine" where
  "begun g = g\<lparr>eng_mgr := (eng_mgr g)\<lparr>next_txn_id := next_txn_id (eng_mgr g) + 1\<rparr>\<rparr>"

lemma begun_fields [simp]:
  "store (eng_mgr (begun g)) = store (eng_mgr g)" "table_locks (eng_mgr (begun g)) = table_locks (eng_mgr g)"
  "eng_catalog (begun g) = eng_catalog g" "eng_schemas (begun g) = eng_schemas g" "repo_view (begun g) = repo_view g"
  "eng_waiting (begun g) = eng_waiting g"
  by (simp_all add: begun_def repo_view_def)

lemma query_locked_run:
  assumes r: "ready_for e h t n m p g"
  obtains N s g' where
    "\<And>k. N \<le> k \<Longrightarrow> engine_execute k n m (\<lambda>_. False) p g = (case answer t p g of
       Ok res \<Rightarrow> bindG (on_mgr (commit (c_txn s))) (\<lambda>_. ret res) g'
     | Err x \<Rightarrow> (Err x, snd (on_mgr (rollback (c_txn s)) g')) | Panic \<Rightarrow> (Panic, g') | Stuck \<Rightarrow> (Stuck, g'))"
    "read_locked (begun g) (next_txn_id (eng_mgr g) + 1) s" "set (locks (c_txn s)) = lock_entry ReadLock ` set (table_names_of p)"
    "table_locks (eng_mgr g') = table_locks (eng_mgr (c_engine s))" "obs (store (eng_mgr g')) = obs (store (eng_mgr g))"
    "db_ok {} (store (eng_mgr g'))" "eng_catalog g' = eng_catalog g"
proof -
  let ?i = "next_txn_id (eng_mgr g) + 1"
  define s0 where "s0 = \<lparr>c_engine = begun g, c_txn = \<lparr>txn_id = ?i, tstate = StateActive, locks = []\<rparr>\<rparr>"
  note r = r [unfolded ready_for_def]
  have rl: "read_locked (begun g) ?i s0"
    by (simp add: read_locked_def s0_def locks_ok_def)
  have w: "\<forall>tb \<in> set (table_names_of p). lock_free ReadLock tb (begun g)"
    using r by (simp add: lock_free_def)
  obtain s where s: "read_lock_tables (table_names_of p) s0 = (Ok (), s)" "read_locked (begun g) ?i s"
    "set (locks (c_txn s)) = lock_entry ReadLock ` set (table_names_of p) \<union> set (locks (c_txn s0))"
    by (rule read_lock_tables_ok [OF rl w])
  obtain L where L: "c_engine s = (begun g)\<lparr>eng_mgr := (eng_mgr (begun g))\<lparr>table_locks := L\<rparr>\<rparr>"
    using s(2) unfolding read_locked_def by blast
  have sch: "eng_schemas (c_engine s) = eng_schemas g" "repo_view (c_engine s) = repo_view g"
    "store (eng_mgr (c_engine s)) = store (eng_mgr g)" "eng_catalog (c_engine s) = eng_catalog g"
    unfolding L by (simp_all add: repo_view_def)
  have rf: "reads_from e h t n m (c_engine s) (c_engine s)"
    using r by (simp add: reads_from_def sch)
  obtain N g' where g': "reads_from e h t n m (c_engine s) g'"
    "\<forall>k \<ge> N. execute_locked k (engine_repository n m) (\<lambda>_. False) p ?i (c_engine s) = (answer t p g, g')"
    using engine_tables.execute_query [where e = e and h = h and t = t and n = n and m = m and g = "c_engine s" and p = p and txn = ?i]
      r rf unfolding engine_tables.settles_def sch by blast
  have i: "txn_id (c_txn s) = ?i"
    using s(2) by (simp add: read_locked_def)
  have bs: "begin_txn (eng_mgr g) = (Ok (c_txn s0), eng_mgr (begun g))"
    by (simp add: begin_txn_def s0_def begun_def Let_def)
  have b: "on_mgr begin_txn g = (Ok (c_txn s0), begun g)"
    by (simp add: on_mgr_def bs begun_def)
  have x: "exec_locked_in_txn k n m (\<lambda>_. False) p s0 = (answer t p g, s\<lparr>c_engine := g'\<rparr>)" if "N \<le> k" for k
    using r g'(2) that s(1) by (simp add: exec_locked_in_txn_def bindG_def on_engine_def lock_for_query i)
  have d: "execute_ddl_or_marker p = None"
    using r by (cases p) auto
  have s0: "\<lparr>c_engine = begun g, c_txn = c_txn s0\<rparr> = s0"
    by (simp add: s0_def)
  show thesis
  proof (rule that [of N s g'])
    show "engine_execute k n m (\<lambda>_. False) p g = (case answer t p g of
       Ok res \<Rightarrow> bindG (on_mgr (commit (c_txn s))) (\<lambda>_. ret res) g'
     | Err x \<Rightarrow> (Err x, snd (on_mgr (rollback (c_txn s)) g')) | Panic \<Rightarrow> (Panic, g') | Stuck \<Rightarrow> (Stuck, g'))" if "N \<le> k" for k
      by (simp only: engine_execute_def d option.case bindG_def [of "on_mgr begin_txn"] b prod.case res.case s0 x [OF that])
        (simp split: res.split)
  qed (use s g' in \<open>simp_all add: reads_from_def sch repo_ok_def reader_ready_def repo_view_def s0_def\<close>)
qed

text \<open>The pages as the query leaves them: no page belongs to its transaction.\<close>

lemma no_pages_owned:
  assumes "\<And>j. owner s j \<noteq> Some i"
  shows "commit_pages ((=) i) (abs_store s) = abs_store s" "rollback_pages i (abs_store s) = abs_store s"
proof -
  have o: "\<not> owned_by ((=) i) (abs_store s) j" for j
    using assms [of j] unfolding owned_by_abs by auto
  show "commit_pages ((=) i) (abs_store s) = abs_store s" "rollback_pages i (abs_store s) = abs_store s"
    by (simp_all add: commit_pages_def rollback_pages_def o)
qed

lemma same_abs_view: "abs_store s' = abs_store s \<Longrightarrow> view s' = view s"
  by (metis abs_store_fields(1))

lemma obs_eq_parts:
  assumes "obs s' = obs s"
  shows "owner s' = owner s" "wfile (wal s') = wfile (wal s)" "j < next_page_id (disk s) \<Longrightarrow> view s' j = view s j"
proof -
  show "owner s' = owner s" "wfile (wal s') = wfile (wal s)"
    using assms by (metis obs_fields(5), metis obs_fields(7))
  assume "j < next_page_id (disk s)"
  then show "view s' j = view s j"
    using assms obs_fields(6) [of s j] obs_fields(6) [of s' j] obs_fields(1) [of s] obs_fields(1) [of s'] by simp
qed

lemma lock_table_held:
  assumes "lock_table md tb s = (Ok (), s')"
  shows "lock_entry WriteLock tb \<in> set (locks (c_txn s')) \<or> md = ReadLock \<and> lock_entry ReadLock tb \<in> set (locks (c_txn s'))"
    "set (locks (c_txn s)) \<subseteq> set (locks (c_txn s'))"
proof -
  let ?t = "c_txn s" and ?mu = "table_locks (eng_mgr (c_engine s)) tb"
  consider "lock_entry_check md ?t tb = Some (Ok ())" "s' = s"
    | "lock_entry_check md ?t tb = None" "locks (c_txn s') = locks ?t @ [lock_entry md tb]"
    using assms by (cases "lock_entry_check md ?t tb"; auto simp: lock_table_def Let_def split: if_splits res.splits)
  then show "lock_entry WriteLock tb \<in> set (locks (c_txn s')) \<or> md = ReadLock \<and> lock_entry ReadLock tb \<in> set (locks (c_txn s'))"
    "set (locks (c_txn s)) \<subseteq> set (locks (c_txn s'))"
    by (cases; auto simp: lock_entry_check_def holds_def split: if_splits lock_mode.splits)+
qed

lemma read_lock_tables_held:
  assumes "read_lock_tables ts s = (Ok (), s')"
  shows "\<forall>tb \<in> set ts. lock_entry WriteLock tb \<in> set (locks (c_txn s')) \<or> lock_entry ReadLock tb \<in> set (locks (c_txn s'))"
proof -
  have "set (locks (c_txn s)) \<subseteq> set (locks (c_txn s')) \<and>
    (\<forall>tb \<in> set ts. lock_entry WriteLock tb \<in> set (locks (c_txn s')) \<or> lock_entry ReadLock tb \<in> set (locks (c_txn s')))"
    using assms
  proof (induction ts arbitrary: s)
    case (Cons t ts)
    then obtain u where u: "lock_table ReadLock t s = (Ok (), u)" "read_lock_tables ts u = (Ok (), s')"
      by (auto simp: bindG_eq_Ok)
    show ?case
      using lock_table_held [OF u(1)] Cons.IH [OF u(2)] by auto
  qed simp
  then show ?thesis by blast
qed

lemma commit_write_fails:
  assumes "tstate t = StateActive" "\<forall>off. \<not> wr_ok (wfile (wal (store m))) off"
  obtains m' where "commit t m = (Err EIO, m')" "table_locks m' = table_locks m"
proof -
  obtain w where w: "append_record (txn_record (txn_id t) op_commit) (wal (store m)) = (Ok (next_lsn (wal (store m))), w)"
    "wfile w = wfile (wal (store m))" "wbuf w \<noteq> []"
    by (auto simp: append_record_def Let_def encode_record_def be_put_def)
  have f: "flush_wal w = (Err EIO, w)"
    using assms(2) w(2,3) by (simp add: flush_wal_def write_at_def)
  show thesis
    by (rule that [of "m\<lparr>store := (store m)\<lparr>wal := w\<rparr>\<rparr>"])
      (use assms(1) w(1) f in \<open>simp_all add: commit_def bindG_def on_store_def on_wal_def\<close>)
qed

text \<open>How a query on its own ends: it has changed no page, and its locks go.\<close>

lemma query_end:
  assumes s: "read_locked (begun g) i s" and u: "table_locks (eng_mgr u) = table_locks (eng_mgr (c_engine s))" "db_ok {} (store (eng_mgr u))"
    and own: "\<And>j. owner (store (eng_mgr u)) j \<noteq> Some i" and w: "wal_holds (wal (store (eng_mgr u))) rs ps"
  shows query_commits: "all_writable (wfile (wal (store (eng_mgr u)))) \<Longrightarrow>
      \<exists>t m' l. on_mgr (commit (c_txn s)) u = (Ok t, u\<lparr>eng_mgr := m'\<rparr>) \<and> table_locks m' = table_locks (eng_mgr g) \<and>
        view (store m') = view (store (eng_mgr u)) \<and> wal_read_all (wal (store m')) = Ok (rs @ ps @ [(txn_record i op_commit)\<lparr>r_lsn := l\<rparr>])"
    and query_rolls_back: "\<exists>t m'. on_mgr (rollback (c_txn s)) u = (Ok t, u\<lparr>eng_mgr := m'\<rparr>) \<and> table_locks m' = table_locks (eng_mgr g) \<and>
        view (store m') = view (store (eng_mgr u)) \<and> wal_read_all (wal (store m')) = Ok rs"
proof -
  have t: "tstate (c_txn s) = StateActive" "txn_id (c_txn s) = i"
    using s by (simp_all add: read_locked_def)
  have held: "locks_held (c_txn s) (table_locks (eng_mgr u))"
    using read_locked_held [OF s] by (simp add: u(1))
  note rel = read_locked_released [OF s, folded u(1)]
  note pool = db_ok_pool [OF u(2)]
  show "\<exists>t m' l. on_mgr (commit (c_txn s)) u = (Ok t, u\<lparr>eng_mgr := m'\<rparr>) \<and> table_locks m' = table_locks (eng_mgr g) \<and>
      view (store m') = view (store (eng_mgr u)) \<and> wal_read_all (wal (store m')) = Ok (rs @ ps @ [(txn_record i op_commit)\<lparr>r_lsn := l\<rparr>])"
    if dev: "all_writable (wfile (wal (store (eng_mgr u))))"
  proof (rule commit_ok [OF t(1) pool w dev held])
    fix m'
    assume c: "commit (c_txn s) (eng_mgr u) = (Ok ((c_txn s)\<lparr>tstate := StateCommitted, locks := []\<rparr>), m')"
      "abs_store (store m') = commit_pages ((=) (txn_id (c_txn s))) (abs_store (store (eng_mgr u)))"
      "wal_holds (wal (store m')) (rs @ ps @ [(txn_record (txn_id (c_txn s)) op_commit)\<lparr>r_lsn := next_lsn (wal (store (eng_mgr u)))\<rparr>]) []"
      "\<And>tb. writer (table_locks m' tb) = (writer (table_locks (eng_mgr u) tb) \<and> lock_entry WriteLock tb \<notin> set (locks (c_txn s)))"
      "\<And>tb. readers (table_locks m' tb) = readers (table_locks (eng_mgr u) tb) - of_bool (lock_entry ReadLock tb \<in> set (locks (c_txn s)))"
    show ?thesis
      using rel [OF c(4,5)] same_abs_view [OF c(2) [unfolded t(2) no_pages_owned(1) [OF own]]] wal_holds_read [OF c(3)]
      by (auto simp: on_mgr_def c(1) t(2))
  qed
  have un: "owner (store (eng_mgr u)) j = Some (txn_id (c_txn s)) \<Longrightarrow> pins (store (eng_mgr u)) j = 0" for j
    using own by (simp add: t(2))
  show "\<exists>t m'. on_mgr (rollback (c_txn s)) u = (Ok t, u\<lparr>eng_mgr := m'\<rparr>) \<and> table_locks m' = table_locks (eng_mgr g) \<and>
      view (store m') = view (store (eng_mgr u)) \<and> wal_read_all (wal (store m')) = Ok rs"
  proof (rule rollback_ok [OF t(1) pool w un held])
    fix m'
    assume c: "rollback (c_txn s) (eng_mgr u) = (Ok ((c_txn s)\<lparr>tstate := StateAborted, locks := []\<rparr>), m')"
      "abs_store (store m') = rollback_pages (txn_id (c_txn s)) (abs_store (store (eng_mgr u)))"
      "wal_holds (wal (store m')) rs (ps @ [(txn_record (txn_id (c_txn s)) op_abort)\<lparr>r_lsn := next_lsn (wal (store (eng_mgr u)))\<rparr>])"
      "\<And>tb. writer (table_locks m' tb) = (writer (table_locks (eng_mgr u) tb) \<and> lock_entry WriteLock tb \<notin> set (locks (c_txn s)))"
      "\<And>tb. readers (table_locks m' tb) = readers (table_locks (eng_mgr u) tb) - of_bool (lock_entry ReadLock tb \<in> set (locks (c_txn s)))"
    show ?thesis
      using rel [OF c(4,5)] same_abs_view [OF c(2) [unfolded t(2) no_pages_owned(2) [OF own]]] wal_holds_read [OF c(3)]
      by (auto simp: on_mgr_def c(1))
  qed
qed

lemma autocommit_run:
  assumes "ready_for e h t n m p g" "wal_holds (wal (store (eng_mgr g))) rs ps" "all_writable (wfile (wal (store (eng_mgr g))))"
    and "answer t p g = Ok res \<or> answer t p g = Err x"
  shows "\<exists>N g' ps' l. (\<forall>k \<ge> N. engine_execute k n m (\<lambda>_. False) p g = (answer t p g, g')) \<and>
    table_locks (eng_mgr g') = table_locks (eng_mgr g) \<and> eng_catalog g' = eng_catalog g \<and>
    (\<forall>j < next_page_id (disk (store (eng_mgr g))). view (store (eng_mgr g')) j = view (store (eng_mgr g)) j) \<and>
    wal_read_all (wal (store (eng_mgr g'))) = Ok (rs @ (case answer t p g of
      Ok _ \<Rightarrow> ps' @ [(txn_record (next_txn_id (eng_mgr g) + 1) op_commit)\<lparr>r_lsn := l\<rparr>] | _ \<Rightarrow> []))"
proof -
  let ?i = "next_txn_id (eng_mgr g) + 1"
  obtain N s u where x: "\<And>k. N \<le> k \<Longrightarrow> engine_execute k n m (\<lambda>_. False) p g = (case answer t p g of
       Ok res \<Rightarrow> bindG (on_mgr (commit (c_txn s))) (\<lambda>_. ret res) u
     | Err x \<Rightarrow> (Err x, snd (on_mgr (rollback (c_txn s)) u)) | Panic \<Rightarrow> (Panic, u) | Stuck \<Rightarrow> (Stuck, u))"
    and s: "read_locked (begun g) ?i s" and u: "table_locks (eng_mgr u) = table_locks (eng_mgr (c_engine s))"
    "obs (store (eng_mgr u)) = obs (store (eng_mgr g))" "db_ok {} (store (eng_mgr u))" "eng_catalog u = eng_catalog g"
    by (rule query_locked_run [OF assms(1)]) blast
  note o = obs_eq_parts [OF u(2)]
  obtain rs' ps' where w: "wal_holds (wal (store (eng_mgr u))) rs' ps'"
    using u(3) unfolding db_ok_def by blast
  have rs: "rs' = rs"
    by (rule same_file_reads [OF assms(2) w o(2)])
  have own: "owner (store (eng_mgr u)) j \<noteq> Some ?i" for j
    using assms(1) by (simp add: o(1) ready_for_def)
  have dev: "all_writable (wfile (wal (store (eng_mgr u))))"
    using assms(3) by (simp add: o(2))
  show ?thesis
  proof (cases "answer t p g")
    case (Ok res)
    obtain y m' l where "on_mgr (commit (c_txn s)) u = (Ok y, u\<lparr>eng_mgr := m'\<rparr>)" "table_locks m' = table_locks (eng_mgr g)"
      "view (store m') = view (store (eng_mgr u))" "wal_read_all (wal (store m')) = Ok (rs @ ps' @ [(txn_record ?i op_commit)\<lparr>r_lsn := l\<rparr>])"
      using query_commits [OF s u(1,3) own w dev] unfolding rs begun_fields(2) by blast
    then show ?thesis
      using u(4) o(3) by (intro exI [of _ N] exI [of _ "u\<lparr>eng_mgr := m'\<rparr>"] exI [of _ ps'] exI [of _ l]) (simp add: x Ok bindG_def)
  next
    case (Err y)
    obtain z m' where "on_mgr (rollback (c_txn s)) u = (Ok z, u\<lparr>eng_mgr := m'\<rparr>)" "table_locks m' = table_locks (eng_mgr g)"
      "view (store m') = view (store (eng_mgr u))" "wal_read_all (wal (store m')) = Ok rs"
      using query_rolls_back [OF s u(1,3) own w] unfolding rs begun_fields(2) by blast
    then show ?thesis
      using u(4) o(3) by (intro exI [of _ N] exI [of _ "u\<lparr>eng_mgr := m'\<rparr>"]) (simp add: x Err)
  qed (use assms(4) in auto)
qed

section \<open>Properties\<close>

text \<open>C34. A query that is executed on its own, when none of its tables is write-locked or waited for by a writer. If it is
  well posed the engine returns the rows SQL means by it, and the log gets its commit record; if its executors end with an
  error the engine returns that error, and the log gets nothing. Either way all locks are released, the catalog stays and
  every page reads as before.\<close>

theorem autocommit_query:
  assumes "ready_for e h t n m p g" "wal_holds (wal (store (eng_mgr g))) rs ps" "all_writable (wfile (wal (store (eng_mgr g))))"
  shows "((\<forall>tb \<in> set (plan_tables p). keyed (eng_schemas g) t tb) \<and> well_posed (eng_schemas g) (table_rows (eng_schemas g) t) p \<longrightarrow>
      (\<exists>N g' ps' l. (\<forall>k \<ge> N. engine_execute k n m (\<lambda>_. False) p g =
          (Ok \<lparr>res_rows = sql_rows (table_rows (eng_schemas g) t) p, res_affected = 0, res_schema = Some (plan_output p)\<rparr>, g')) \<and>
        table_locks (eng_mgr g') = table_locks (eng_mgr g) \<and> eng_catalog g' = eng_catalog g \<and>
        (\<forall>j < next_page_id (disk (store (eng_mgr g))). view (store (eng_mgr g')) j = view (store (eng_mgr g)) j) \<and>
        wal_read_all (wal (store (eng_mgr g'))) =
          Ok (rs @ ps' @ [(txn_record (next_txn_id (eng_mgr g) + 1) op_commit)\<lparr>r_lsn := l\<rparr>]))) \<and>
    (\<forall>K x. (\<forall>k \<ge> K. fst (execute_locked k (engine_repository n m) (\<lambda>_. False) p i g) = Err x) \<longrightarrow>
      (\<exists>N g'. (\<forall>k \<ge> N. engine_execute k n m (\<lambda>_. False) p g = (Err x, g')) \<and>
        table_locks (eng_mgr g') = table_locks (eng_mgr g) \<and> eng_catalog g' = eng_catalog g \<and>
        (\<forall>j < next_page_id (disk (store (eng_mgr g))). view (store (eng_mgr g')) j = view (store (eng_mgr g)) j) \<and>
        wal_read_all (wal (store (eng_mgr g'))) = Ok rs))"
proof -
  note r = assms(1) [unfolded ready_for_def]
  have rf: "reads_from e h t n m g g"
    using r by (simp add: reads_from_def)
  obtain N g' where run: "\<forall>k \<ge> N. execute_locked k (engine_repository n m) (\<lambda>_. False) p i g = (answer t p g, g')"
    using engine_tables.execute_query [where e = e and h = h and t = t and n = n and m = m and g = g and p = p and txn = i] r rf
    unfolding engine_tables.settles_def by blast
  have st: "bt_store (repo_view g) = store (eng_mgr g)"
    by (simp add: repo_view_def)
  show ?thesis
  proof (intro conjI allI impI)
    assume w: "(\<forall>tb \<in> set (plan_tables p). keyed (eng_schemas g) t tb) \<and> well_posed (eng_schemas g) (table_rows (eng_schemas g) t) p"
    have a: "answer t p g = Ok \<lparr>res_rows = sql_rows (table_rows (eng_schemas g) t) p, res_affected = 0, res_schema = Some (plan_output p)\<rparr>"
      using well_posed_meaning [of e h t "eng_schemas g" n m "repo_view g" p] r w by simp
    from autocommit_run [OF assms disjI1 [OF a]]
    show "\<exists>N g' ps' l. (\<forall>k \<ge> N. engine_execute k n m (\<lambda>_. False) p g =
          (Ok \<lparr>res_rows = sql_rows (table_rows (eng_schemas g) t) p, res_affected = 0, res_schema = Some (plan_output p)\<rparr>, g')) \<and>
        table_locks (eng_mgr g') = table_locks (eng_mgr g) \<and> eng_catalog g' = eng_catalog g \<and>
        (\<forall>j < next_page_id (disk (store (eng_mgr g))). view (store (eng_mgr g')) j = view (store (eng_mgr g)) j) \<and>
        wal_read_all (wal (store (eng_mgr g'))) =
          Ok (rs @ ps' @ [(txn_record (next_txn_id (eng_mgr g) + 1) op_commit)\<lparr>r_lsn := l\<rparr>])"
      unfolding a by simp
  next
    fix K x
    assume x: "\<forall>k \<ge> K. fst (execute_locked k (engine_repository n m) (\<lambda>_. False) p i g) = Err x"
    have "answer t p g = Err x"
      using run [rule_format, of "max N K"] x [rule_format, of "max N K"] by simp
    then have a: "answer t p g = Err x" .
    from autocommit_run [OF assms disjI2 [OF a]]
    show "\<exists>N g'. (\<forall>k \<ge> N. engine_execute k n m (\<lambda>_. False) p g = (Err x, g')) \<and>
        table_locks (eng_mgr g') = table_locks (eng_mgr g) \<and> eng_catalog g' = eng_catalog g \<and>
        (\<forall>j < next_page_id (disk (store (eng_mgr g))). view (store (eng_mgr g')) j = view (store (eng_mgr g)) j) \<and>
        wal_read_all (wal (store (eng_mgr g'))) = Ok rs"
      unfolding a by simp
  qed
qed

text \<open>C35. Locks cover accesses: once the engine has taken the locks of a query, an \<open>INSERT\<close>, an \<open>UPDATE\<close> or a
  \<open>DELETE\<close>, the transaction holds the lock of each of its tables, for writing when it changes the table, and
  executing the plan uses no other table: a repository that behaves in the same way on the locked tables
  gives the same run.\<close>

theorem locks_cover_accesses:
  assumes "lock_for p s = (Ok (), s')"
    and "query p \<or> (\<exists>t sch vs. p = InsertNode t sch vs) \<or> (\<exists>t sch as wh. p = UpdateNode t sch as wh) \<or>
      (\<exists>t sch wh. p = DeleteNode t sch wh)"
  shows "(\<forall>tb \<in> set (locked_tables p). lock_entry WriteLock tb \<in> set (locks (c_txn s')) \<or>
      query p \<and> lock_entry ReadLock tb \<in> set (locks (c_txn s'))) \<and>
    (agree_on (set (locked_tables p)) R Q \<longrightarrow> execute_locked k R ctx p txn u = execute_locked k Q ctx p txn u)"
proof -
  have "\<forall>tb \<in> set (locked_tables p). lock_entry WriteLock tb \<in> set (locks (c_txn s')) \<or>
      query p \<and> lock_entry ReadLock tb \<in> set (locks (c_txn s'))"
  proof (cases "query p")
    case True
    then have "locked_tables p = table_names_of p"
      by (cases p) auto
    then show ?thesis
      using read_lock_tables_held assms(1) True by (simp add: lock_for_query)
  next
    case False
    then obtain t where t: "locked_tables p = [t]" "lock_for p = lock_table WriteLock t"
      using assms(2) by auto
    then show ?thesis
      using lock_table_held(1) [of WriteLock t s s'] assms(1) by simp
  qed
  then show ?thesis
    by (intro conjI impI) (assumption, rule execute_locked_same [OF _ assms(2)])
qed

text \<open>\<open>CREATE TABLE\<close> through the engine: the new table is open and empty, even when a dropped table of the
  same name has left its rows in the tree, because its id is new; the other tables and the storage are as
  before, and the catalog invariant and the bound on the ids in the tree are kept.\<close>

theorem created_table_is_empty:
  assumes "repo_ok e h t (eng_schemas g) n m (repo_view g)" "catalog_ok (eng_catalog g)" "next_table_id (eng_catalog g) \<noteq> - 1"
    and "\<forall>c \<in> set (tree_cells t). fst (ckey c) < next_table_id (eng_catalog g)"
    and "\<forall>col \<in> set cols. type_ok (col_type col)" "map_of (schemas (eng_catalog g)) name = None" "can_write (eng_catalog g)"
  shows "\<exists>g'. engine_execute k n m ctx (CreateTableNode name cols) g = (Ok empty_result, g') \<and>
    repo_ok e h t (eng_schemas g') n m (repo_view g') \<and> eng_mgr g' = eng_mgr g \<and>
    table_rows (eng_schemas g') t name = [] \<and>
    (\<forall>tb. tb \<noteq> name \<longrightarrow> table_rows (eng_schemas g') t tb = table_rows (eng_schemas g) t tb) \<and>
    catalog_ok (eng_catalog g') \<and> (\<forall>c \<in> set (tree_cells t). fst (ckey c) < next_table_id (eng_catalog g'))"
proof -
  let ?c = "eng_catalog g" and ?sch = "\<lparr>table_name = name, table_id = 0, columns = cols\<rparr>"
  let ?new = "?sch\<lparr>table_id := next_table_id ?c\<rparr>"
  obtain d where d: "create_table ?sch ?c = (Ok (), d)" "next_table_id d = next_table_id ?c + 1" "get_schema d name = Ok ?new"
    using assms(6,7) by (auto simp: create_table_def Let_def save_def get_schema_def update_conv)
  have cd: "catalog_ok d"
    using create_table_ok [OF assms(2,3), of ?sch] assms(5) by (simp add: d(1))
  let ?g' = "put_repo ((repo_view g)\<lparr>open_schemas := (eng_schemas g)(name \<mapsto> ?new)\<rparr>) (g\<lparr>eng_catalog := d\<rparr>)"
  have v: "repo_view (g\<lparr>eng_catalog := d\<rparr>) = repo_view g" "open_schemas (repo_view g) = eng_schemas g"
    "bt_store (repo_view g) = store (eng_mgr g)"
    by (simp_all add: repo_view_def)
  have ex: "engine_execute k n m ctx (CreateTableNode name cols) g = (Ok empty_result, ?g')"
    by (simp add: engine_execute_def bindG_def on_catalog_def on_repo_def d v open_table_def)
  have ids: "\<forall>c \<in> set (tree_cells t). fst (ckey c) \<noteq> next_table_id ?c"
    using assms(4) by auto
  have lt: "\<forall>c \<in> set (tree_cells t). fst (ckey c) < next_table_id d"
    using assms(4) next_id_grows(2) [OF assms(3)] by (simp add: d(2))
  have ok: "repo_ok e h t (eng_schemas ?g') n m (repo_view ?g')"
    using assms(1) ids by (auto simp: repo_ok_def v decodable_def)
  have "table_rows (eng_schemas ?g') t name = []"
    using ids by (simp add: table_rows_def rows_of_def filter_empty_conv)
  moreover have "eng_mgr ?g' = eng_mgr g"
    by (simp add: put_repo_def v)
  ultimately show ?thesis
    using ex ok cd lt by (intro exI [of _ ?g'] conjI) (auto simp: table_rows_def)
qed

subsection \<open>Witnesses\<close>

definition users_engine :: engine where
  "users_engine = \<lparr>eng_mgr = new_manager users_storage, eng_schemas = [''users'' \<mapsto> users_schema], eng_catalog = users_catalog,
     eng_waiting = []\<rparr>"

lemma users_engine_fields [simp]:
  "store (eng_mgr users_engine) = users_storage" "table_locks (eng_mgr users_engine) tb = free_mutex"
  "next_txn_id (eng_mgr users_engine) = 0" "eng_schemas users_engine = [''users'' \<mapsto> users_schema]"
  "eng_catalog users_engine = users_catalog" "repo_view users_engine = users_repository" "eng_waiting users_engine = []"
  by (simp_all add: users_engine_def new_manager_def repo_view_def users_repository_def)

lemma users_keyed: "keyed (eng_schemas users_engine) users_tree tb"
proof -
  have "primary_key_index users_schema = 0"
    by (simp add: primary_key_index_def users_schema_def sample_column_def)
  then show ?thesis
    by (auto simp: keyed_def users_rows user_row_def value_at_def split: if_splits)
qed

text \<open>\<open>SELECT name FROM users WHERE id > 3 AND name <= 'Eve' LIMIT 4\<close>, as a plan.\<close>

definition names_query :: plan where
  "names_query =
     LimitNode
       (ProjectionNode
         (FilterNode (SequentialScanNode ''users'' users_schema)
           (BinaryExpr (BinaryExpr (Identifier [] ''id'') OpGT (IntLiteral 3)) OpAND
             (BinaryExpr (Identifier [] ''name'') OpLTE (StringLiteral ''Eve''))))
         [Identifier [] ''name''])
       4"

lemma names_query_ready: "ready_for users_env 0 users_tree 1 2 names_query users_engine"
  using users_repository_ok
  by (simp add: ready_for_def names_query_def lock_free_def can_acquire_def free_mutex_def users_storage_facts)

lemma names_query_rows:
  "well_posed (eng_schemas users_engine) (table_rows (eng_schemas users_engine) users_tree) names_query"
  "sql_rows (table_rows (eng_schemas users_engine) users_tree) names_query = [[StringValue ''Bob'']]"
proof -
  have "map col_name (columns users_schema) = [''id'', ''name'']"
    by (simp add: users_schema_def sample_column_def name_column_def)
  moreover have "StringValue ''Bob'' \<le> StringValue ''Eve''"
    by code_simp
  ultimately show "well_posed (eng_schemas users_engine) (table_rows (eng_schemas users_engine) users_tree) names_query"
    "sql_rows (table_rows (eng_schemas users_engine) users_tree) names_query = [[StringValue ''Bob'']]"
    by (simp_all add: names_query_def users_rows user_row_def field_def project_def)
qed

theorem autocommit_query_witness:
  "\<exists>N g' l ps'. (\<forall>k \<ge> N. engine_execute k 1 2 (\<lambda>_. False) names_query users_engine =
      (Ok \<lparr>res_rows = [[StringValue ''Bob'']], res_affected = 0, res_schema = Some users_schema\<rparr>, g')) \<and>
    table_locks (eng_mgr g') = table_locks (eng_mgr users_engine) \<and>
    wal_read_all (wal (store (eng_mgr g'))) = Ok (ps' @ [(txn_record 1 op_commit)\<lparr>r_lsn := l\<rparr>])"
proof -
  have w: "wal_holds (wal (store (eng_mgr users_engine))) [] []" "all_writable (wfile (wal (store (eng_mgr users_engine))))"
    by (simp_all add: users_storage_facts)
  have o: "plan_output names_query = users_schema"
    by (simp add: names_query_def)
  show ?thesis
    using conjunct1 [OF autocommit_query [OF names_query_ready w]] users_keyed names_query_rows unfolding o users_engine_fields(3) by simp blast
qed

theorem locks_cover_accesses_witness:
  "\<exists>s'. lock_for (SequentialScanNode ''users'' users_schema) \<lparr>c_engine = users_engine, c_txn = \<lparr>txn_id = 1, tstate = StateActive, locks = []\<rparr>\<rparr> = (Ok (), s') \<and>
    lock_entry ReadLock ''users'' \<in> set (locks (c_txn s'))"
proof -
  have q: "query (SequentialScanNode ''users'' users_schema)" by simp
  obtain s' where s: "lock_for (SequentialScanNode ''users'' users_schema)
      \<lparr>c_engine = users_engine, c_txn = \<lparr>txn_id = 1, tstate = StateActive, locks = []\<rparr>\<rparr> = (Ok (), s')"
    "lock_entry WriteLock ''users'' \<notin> set (locks (c_txn s'))"
    by (simp add: bindG_def lock_table_def lock_entry_check_def holds_def Let_def lock_free_def can_acquire_def free_mutex_def ret_def)
  then show ?thesis
    using locks_cover_accesses [OF s(1) disjI1 [OF q], of "engine_repository 1 2" "engine_repository 1 2" 0 "\<lambda>_. False" 1 users_engine]
    by auto
qed

theorem created_table_is_empty_witness:
  "\<exists>g'. engine_execute 0 1 2 (\<lambda>_. False) (CreateTableNode ''pets'' (columns users_schema)) users_engine = (Ok empty_result, g') \<and>
    table_rows (eng_schemas g') users_tree ''pets'' = []"
proof -
  have r: "repo_ok users_env 0 users_tree (eng_schemas users_engine) 1 2 (repo_view users_engine)"
    using users_repository_ok by simp
  have c: "catalog_ok (eng_catalog users_engine)" "next_table_id (eng_catalog users_engine) \<noteq> - 1"
    "\<forall>c \<in> set (tree_cells users_tree). fst (ckey c) < next_table_id (eng_catalog users_engine)"
    "map_of (schemas (eng_catalog users_engine)) ''pets'' = None" "can_write (eng_catalog users_engine)"
    using users_types_ok user_cell_facts(3)
    by (auto simp: users_catalog_def empty_catalog_def catalog_ok_def users_schema_def users_tree_def)
  show ?thesis
    using created_table_is_empty [OF r c(1-3) users_types_ok c(4,5)] by blast
qed

end
