(* ===== verification/Repository_Change.thy ===== *)
theory Repository_Change
  imports Repository Tree_Change
begin

text \<open>
  Writing through \<open>infrastructure/btree_repository.go\<close>: \<open>Insert\<close>, \<open>Update\<close> and \<open>Delete\<close> refine the update of a map from keys to
  rows in one table (\<open>table_find\<close>), and of its list of rows in key order (\<open>table_rows\<close>). The tree stays well-formed, so
  that the reading contract of \<open>Repository\<close> holds again after each of them.
\<close>

section \<open>The tables as maps\<close>

text \<open>Tables with different names have different ids; a row that can be stored under a key.\<close>

definition ids_distinct :: "(string \<Rightarrow> schema option) \<Rightarrow> bool" where
  "ids_distinct schs \<longleftrightarrow> (\<forall>a b x y. schs a = Some x \<longrightarrow> schs b = Some y \<longrightarrow> table_id x = table_id y \<longrightarrow> a = b)"

definition storable :: "env \<Rightarrow> schema \<Rightarrow> value_t \<Rightarrow> row \<Rightarrow> bool" where
  "storable e sch v r \<longleftrightarrow> row_conforms sch r \<and> length (columns sch) \<le> 16 \<and> key_in_env e (table_id sch, v) \<and>
     sized e (leaf_cell_size (table_id sch) (Some v) r)"

lemma storable_encodes:
  assumes "env_ok e" "storable e sch v r"
  obtains c where "encode_leaf_cell (table_id sch) (Some v) r sch = Some c" "length c = leaf_cell_size (table_id sch) (Some v) r"
    "decode_leaf_cell c sch = Some (table_id sch, Some v, r)"
    "decode_composite_key c = Some (table_id sch, Some v, length (encode_composite_key (table_id sch) (Some v)))"
proof -
  note s = assms(2) [unfolded storable_def]
  have "leaf_cell_size (table_id sch) (Some v) r < 65536"
    using two_cells_fit [OF assms(1), of "leaf_cell_size (table_id sch) (Some v) r" "leaf_cell_size (table_id sch) (Some v) r"] s by simp
  moreover have "key_ok (Some v)"
    using s by (simp add: key_in_env_def)
  ultimately show thesis
    using s that by (elim decode_encode_leaf_cell conjE) blast+
qed

lemma storable_cell:
  assumes "env_ok e" "storable e sch v r"
  obtains c where "encode_leaf_cell (table_id sch) (Some v) r sch = Some c" "cell_in_env e c" "ckey c = (table_id sch, v)"
    "decode_leaf_cell c sch = Some (table_id sch, Some v, r)"
proof -
  note s = assms(2) [unfolded storable_def]
  have k: "ckey_ok (key_kinds e) (table_id sch, v)"
    using s by (simp add: key_in_env_def)
  obtain c where c: "encode_leaf_cell (table_id sch) (Some v) r sch = Some c" "length c = leaf_cell_size (table_id sch) (Some v) r"
    "decode_leaf_cell c sch = Some (table_id sch, Some v, r)"
    "decode_composite_key c = Some (table_id sch, Some v, length (encode_composite_key (table_id sch) (Some v)))"
    by (rule storable_encodes [OF assms])
  have "ckey c = (table_id sch, v)" "cell_ok (key_kinds e) c"
    using c(4) k by (simp_all add: ckey_def cell_ok_def cell_key_def)
  then show thesis
    using c s by (intro that [of c]) (simp_all add: cell_in_env_def)
qed

lemma put_cell_split:
  assumes "sorted_wrt (<) (map ckey cs)"
  obtains us ds vs where "cs = us @ ds @ vs" "put_cell c cs = us @ c # vs" "\<forall>d \<in> set us. ckey d < ckey c"
    "\<forall>d \<in> set vs. ckey c < ckey d" "ds = [] \<and> ckey c \<notin> ckey ` set cs \<or> (\<exists>d. ds = [d] \<and> ckey d = ckey c)"
proof (cases "ckey c \<in> ckey ` set cs")
  case True
  then obtain d where d: "d \<in> set cs" "ckey d = ckey c" by (metis imageE)
  then obtain us vs where uv: "cs = us @ [d] @ vs"
    by (metis append_Cons append_Nil split_list)
  have "\<forall>a \<in> set us. ckey a < ckey c" "\<forall>a \<in> set vs. ckey c < ckey a"
    using assms d(2) by (auto simp: uv sorted_wrt_append)
  then show thesis
    using d(2) put_cell_old [of us c vs d] by (intro that [OF uv]) (simp_all add: uv)
next
  case False
  let ?us = "takeWhile (\<lambda>d. ckey d < ckey c) cs" and ?vs = "dropWhile (\<lambda>d. ckey d < ckey c) cs"
  have "\<forall>d \<in> set ?vs. ckey c < ckey d"
  proof (cases ?vs)
    case (Cons a vs')
    have a: "a \<in> set cs" "\<not> ckey a < ckey c"
      using Cons by (metis list.set_intros(1) set_dropWhileD, metis hd_dropWhile list.distinct(1) list.sel(1))
    have "sorted_wrt (<) (map ckey ?vs)"
      using assms by (metis map_append sorted_wrt_append takeWhile_dropWhile_id)
    moreover have "ckey c < ckey a"
      using a False by (metis imageI linorder_less_linear)
    ultimately show ?thesis
      by (auto simp: Cons intro: less_trans)
  qed (metis empty_iff list.set(1))
  moreover have "put_cell c cs = ?us @ c # ?vs"
    using put_cell_fresh [OF False] by (simp add: insert_cell_def)
  ultimately show thesis
    using False by (intro that [of ?us "[]" ?vs]) (auto dest: set_takeWhileD)
qed

lemma find_append: "find P (xs @ ys) = (case find P xs of None \<Rightarrow> find P ys | Some x \<Rightarrow> Some x)"
  by (induction xs) auto

lemma find_put_cell:
  assumes "sorted_wrt (<) (map ckey cs)"
  shows "find (\<lambda>d. ckey d = K) (put_cell c cs) = (if K = ckey c then Some c else find (\<lambda>d. ckey d = K) cs)"
proof -
  obtain us ds vs where s: "cs = us @ ds @ vs" "put_cell c cs = us @ c # vs" "\<forall>d \<in> set us. ckey d < ckey c"
    "\<forall>d \<in> set vs. ckey c < ckey d" "ds = [] \<and> ckey c \<notin> ckey ` set cs \<or> (\<exists>d. ds = [d] \<and> ckey d = ckey c)"
    by (rule put_cell_split [OF assms])
  have "find (\<lambda>d. ckey d = ckey c) us = None"
    using s(3) by (auto simp: find_None_iff)
  moreover have "find (\<lambda>d. ckey d = K) ds = None" if "K \<noteq> ckey c"
    using s(5) that by auto
  ultimately show ?thesis
    unfolding s(2) by (auto simp: s(1) find_append split: option.splits)
qed

lemma find_filter_key: "find (\<lambda>d. ckey d = K) (filter (\<lambda>d. ckey d \<noteq> L) cs) = (if K = L then None else find (\<lambda>d. ckey d = K) cs)"
  by (induction cs) auto

text \<open>The rows of the tables when one cell changes.\<close>

lemma table_find_put:
  assumes "sorted_wrt (<) (map ckey (tree_cells t))" "ids_distinct schs" "schs tb = Some sch" "ckey c = (table_id sch, v)"
    "decode_leaf_cell c sch = Some (table_id sch, Some v, r)" "tree_cells t' = put_cell c (tree_cells t)"
  shows "table_find schs t' = (table_find schs t)(tb := (table_find schs t tb)(v := Some r))"
proof (intro ext)
  fix a w
  have "a = tb \<and> x = sch" if "schs a = Some x" "table_id x = table_id sch" for x
    using assms(2,3) that unfolding ids_distinct_def by (metis option.inject)
  then show "table_find schs t' a w = ((table_find schs t)(tb := (table_find schs t tb)(v := Some r))) a w"
    using assms(3-5) unfolding table_find_def assms(6) find_put_cell [OF assms(1)]
    by (cases "schs a") auto
qed

lemma key_split:
  assumes "sorted_wrt (<) (map ckey cs)" "K \<in> ckey ` set cs"
  obtains us d vs where "cs = us @ [d] @ vs" "ckey d = K" "filter (\<lambda>c. ckey c \<noteq> K) cs = us @ [] @ vs" "find (\<lambda>c. ckey c = K) cs = Some d"
proof -
  obtain us d vs where d: "cs = us @ [d] @ vs" "ckey d = K"
    using assms(2) by (metis append_Cons append_Nil imageE split_list)
  have out: "\<forall>a \<in> set us. ckey a \<noteq> K" "\<forall>a \<in> set vs. ckey a \<noteq> K"
    using assms(1) d(2) by (auto simp: d(1) sorted_wrt_append)
  then have "find (\<lambda>c. ckey c = K) us = None"
    by (auto simp: find_None_iff)
  with out d show thesis
    by (intro that [OF d]) (simp_all add: filter_id_conv find_append)
qed

lemma table_find_remove:
  assumes "ids_distinct schs" "schs tb = Some sch" "tree_cells t' = filter (\<lambda>c. ckey c \<noteq> (table_id sch, v)) (tree_cells t)"
  shows "table_find schs t' = (table_find schs t)(tb := (table_find schs t tb)(v := None))"
proof (intro ext)
  fix a w
  have "a = tb \<and> x = sch" if "schs a = Some x" "table_id x = table_id sch" for x
    using assms(1,2) that unfolding ids_distinct_def by (metis option.inject)
  then show "table_find schs t' a w = ((table_find schs t)(tb := (table_find schs t tb)(v := None))) a w"
    unfolding table_find_def assms(3) find_filter_key by (cases "schs a") (auto simp: assms(2))
qed

lemma rows_of_other: "\<forall>c \<in> set cs. fst (ckey c) \<noteq> tid \<Longrightarrow> rows_of sch tid cs = []"
  by (simp add: rows_of_def filter_empty_conv)

lemma rows_of_Cons: "rows_of sch tid (c # cs) = (if fst (ckey c) = tid then [snd (snd (the (decode_leaf_cell c sch)))] else []) @ rows_of sch tid cs"
  by (simp add: rows_of_def)

lemma rows_of_one: "decode_leaf_cell c sch = Some (i, k, r) \<Longrightarrow> fst (ckey c) = tid \<Longrightarrow> rows_of sch tid [c] = [r]"
  by (simp add: rows_of_def)

lemma table_rows_change:
  assumes ids: "ids_distinct schs" and sch: "schs tb = Some sch" and s: "tree_cells t = us @ ds @ vs" "tree_cells t' = us @ es @ vs"
    and k: "\<forall>d \<in> set ds. fst (ckey d) = table_id sch" "\<forall>d \<in> set es. fst (ckey d) = table_id sch"
  shows "\<exists>xs zs. table_rows schs t tb = xs @ rows_of sch (table_id sch) ds @ zs \<and>
    table_rows schs t' = (table_rows schs t)(tb := xs @ rows_of sch (table_id sch) es @ zs)"
proof (intro exI conjI ext)
  let ?r = "rows_of sch (table_id sch)"
  show "table_rows schs t tb = ?r us @ ?r ds @ ?r vs"
    by (simp add: table_rows_def sch s(1))
  fix a
  show "table_rows schs t' a = ((table_rows schs t)(tb := ?r us @ ?r es @ ?r vs)) a"
  proof (cases "a = tb \<or> schs a = None")
    case True
    then show ?thesis
      using sch by (auto simp: table_rows_def s(2))
  next
    case False
    then obtain sa where sa: "schs a = Some sa" "a \<noteq> tb"
      by auto
    then have "table_id sa \<noteq> table_id sch"
      using ids sch by (auto simp: ids_distinct_def)
    then have "rows_of sa (table_id sa) ds = []" "rows_of sa (table_id sa) es = []"
      using k by (auto intro!: rows_of_other)
    with sa show ?thesis
      by (simp add: table_rows_def s)
  qed
qed

section \<open>Writing\<close>

text \<open>A repository that can take a write. A write takes at most two pages more than the tree is high, and its fuel must
  do for the tree afterwards too: \<open>m\<close> for any number of leaves.\<close>

definition writable :: "env \<Rightarrow> nat \<Rightarrow> tree \<Rightarrow> (string \<Rightarrow> schema option) \<Rightarrow> nat \<Rightarrow> nat \<Rightarrow> btree_repository \<Rightarrow> bool" where
  "writable e h t schs n m r \<longleftrightarrow> repo_ok e h t schs n m r \<and> fresh_empty (o_view (obs (bt_store r))) t \<and>
     room (2 * h + 5) (obs (bt_store r)) \<and> unat (next_page_id (disk (bt_store r))) + Suc h < unat no_page_id \<and>
     Suc h < n \<and> 2 ^ 32 < m \<and> ids_distinct schs"

lemma leaves_bound: "distinct (page_ids t) \<Longrightarrow> length (leaves t) \<le> 2 ^ 32"
proof -
  assume "distinct (page_ids t)"
  then have "length (leaves t) = card (set (map fst (leaves t)))"
    by (metis leaf_ids_distinct distinct_card length_map)
  also have "\<dots> \<le> card (UNIV :: u32 set)"
    by (intro card_mono) simp_all
  finally show ?thesis
    by (simp add: card_word)
qed

lemma writableD:
  assumes "writable e h t schs n m r"
  shows "tree_ready e h t (bt_store r)" "h < n" "sorted_wrt (<) (map ckey (tree_cells t))" "env_ok e"
    "open_schemas r = schs" "ids_distinct schs" "btree_ok e h t (obs (bt_store r))" "reader_ready (bt_store r)"
proof -
  note w = assms [unfolded writable_def repo_ok_def]
  show "tree_ready e h t (bt_store r)"
    using w room_less [of "2 * h + 5" "obs (bt_store r)" "2 * h + 3"] by (auto simp: tree_ready_def reader_ready_def)
  show b: "btree_ok e h t (obs (bt_store r))"
    using w by blast
  show "sorted_wrt (<) (map ckey (tree_cells t))"
    using leaf_in_sorted [OF tree_in_cells] b by (auto simp: btree_ok_def)
  show "env_ok e"
    using b by (simp add: btree_ok_def)
qed (use assms in \<open>simp_all add: writable_def repo_ok_def\<close>)

lemma written_repo_ok:
  assumes r: "repo_ok e h t schs n m r" and ids: "ids_distinct schs" and fuel: "h' < n" "2 ^ 32 < m"
    and b: "db_ok {} s" "btree_ok e h' t' (obs s)" and room: "room 1 (obs s)"
    and d: "\<forall>c \<in> set (tree_cells t'). c \<in> set (tree_cells t) \<or>
      (\<exists>tb sch. schs tb = Some sch \<and> fst (ckey c) = table_id sch \<and> decode_leaf_cell c sch \<noteq> None)"
  shows "repo_ok e h' t' schs n m (r\<lparr>bt_store := s\<rparr>)"
proof -
  note r = r [unfolded repo_ok_def]
  have "length (leaves t') < m"
    using fuel(2) leaves_bound [of t'] b(2) by (simp add: btree_ok_def)
  moreover have "decodable sch (table_id sch) (tree_cells t')" if sch: "schs tb = Some sch" for tb sch
  proof (unfold decodable_def, intro ballI impI)
    fix c assume c: "c \<in> set (tree_cells t')" "fst (ckey c) = table_id sch"
    have "decode_leaf_cell c sch \<noteq> None" if "c \<in> set (tree_cells t)"
      using r sch c(2) that unfolding decodable_def by blast
    moreover have "x = sch" if "schs a = Some x" "table_id x = table_id sch" for a x
      using ids sch that unfolding ids_distinct_def by (metis option.inject)
    ultimately show "decode_leaf_cell c sch \<noteq> None"
      using d c by metis
  qed
  ultimately show ?thesis
    using r b fuel(1) room by (simp add: repo_ok_def reader_ready_def)
qed

text \<open>What reading shows.\<close>

lemma repo_reads:
  assumes "repo_ok e h t schs n m r" "schs tb = Some sch"
  shows "\<exists>r'. scan_rows n m tb r = (Ok (table_rows schs t tb), r') \<and> repo_ok e h t schs n m r' \<and> obs (bt_store r') = obs (bt_store r)"
    and "key_fits e schs tb v \<Longrightarrow> \<exists>r'. find_by_pk n tb v r = (Ok (table_find schs t tb v), r') \<and> repo_ok e h t schs n m r' \<and>
      obs (bt_store r') = obs (bt_store r)"
proof -
  have ok: "repo_ok e h t schs n m r \<and> obs (bt_store r) = obs (bt_store r)" and o: "schs tb \<noteq> None"
    using assms by simp_all
  show "\<exists>r'. scan_rows n m tb r = (Ok (table_rows schs t tb), r') \<and> repo_ok e h t schs n m r' \<and> obs (bt_store r') = obs (bt_store r)"
    using tables.scan_table [OF ok o] by (auto simp: tree_repository_def)
  show "\<exists>r'. find_by_pk n tb v r = (Ok (table_find schs t tb v), r') \<and> repo_ok e h t schs n m r' \<and>
      obs (bt_store r') = obs (bt_store r)" if "key_fits e schs tb v"
    using tables.find_row [OF ok o that] by (auto simp: tree_repository_def)
qed

lemma table_find_None: "schs tb = Some sch \<Longrightarrow> table_find schs t tb v = None \<longleftrightarrow> (table_id sch, v) \<notin> ckey ` set (tree_cells t)"
  by (auto simp: table_find_def find_None_iff image_iff)

text \<open>The common part of insertion and update.\<close>

definition put_row :: "env \<Rightarrow> (string \<Rightarrow> schema option) \<Rightarrow> nat \<Rightarrow> tree \<Rightarrow> nat \<Rightarrow> nat \<Rightarrow> string \<Rightarrow> value_t \<Rightarrow> row \<Rightarrow> row list \<Rightarrow> u64 \<Rightarrow>
    btree_repository \<Rightarrow> btree_repository \<Rightarrow> bool" where
  "put_row e schs h t n m tb v row old txn r r' \<longleftrightarrow> (\<exists>h' t' xs zs. repo_ok e h' t' schs n m r' \<and> h' \<le> Suc h \<and>
     fresh_empty (o_view (obs (bt_store r'))) t' \<and> kept (Suc h) txn t (obs (bt_store r)) (obs (bt_store r')) \<and>
     (\<forall>c \<in> set (tree_cells t'). c \<in> set (tree_cells t) \<or> fst (ckey c) = table_id (the (schs tb))) \<and>
     table_rows schs t tb = xs @ old @ zs \<and> table_rows schs t' = (table_rows schs t)(tb := xs @ row # zs) \<and>
     table_find schs t' = (table_find schs t)(tb := (table_find schs t tb)(v := Some row)))"

lemma put_row_ok:
  assumes w: "writable e h t schs n m r" and sch: "schs tb = Some sch"
    and c: "ckey c = (table_id sch, v)" "decode_leaf_cell c sch = Some (table_id sch, Some v, row)"
    and s: "db_ok {} s" "btree_ok e h' t' (obs s)" "fresh_empty (o_view (obs s)) t'" "tree_cells t' = put_cell c (tree_cells t)"
      "h' \<le> Suc h" "kept (Suc h) txn t (obs (bt_store r)) (obs s)"
  shows "put_row e schs h t n m tb v row (case table_find schs t tb v of None \<Rightarrow> [] | Some r0 \<Rightarrow> [r0]) txn r (r\<lparr>bt_store := s\<rparr>)"
proof -
  note wd = writableD [OF w] and w' = w [unfolded writable_def]
  obtain us ds vs where u: "tree_cells t = us @ ds @ vs" "put_cell c (tree_cells t) = us @ c # vs" "\<forall>d \<in> set us. ckey d < ckey c"
    "\<forall>d \<in> set vs. ckey c < ckey d" "ds = [] \<and> ckey c \<notin> ckey ` set (tree_cells t) \<or> (\<exists>d. ds = [d] \<and> ckey d = ckey c)"
    by (rule put_cell_split [OF wd(3)])
  have old: "rows_of sch (table_id sch) ds = (case table_find schs t tb v of None \<Rightarrow> [] | Some r0 \<Rightarrow> [r0])"
  proof -
    have "find (\<lambda>d. ckey d = ckey c) us = None" "find (\<lambda>d. ckey d = ckey c) vs = None"
      using u(3,4) by (auto simp: find_None_iff)
    then have "find (\<lambda>d. ckey d = ckey c) (tree_cells t) = (case ds of [] \<Rightarrow> None | d # _ \<Rightarrow> Some d)"
      using u(5) by (auto simp: u(1) find_append)
    then show ?thesis
      using u(5) c(1) by (auto simp: table_find_def sch rows_of_def)
  qed
  have rows: "\<exists>xs zs. table_rows schs t tb = xs @ rows_of sch (table_id sch) ds @ zs \<and>
    table_rows schs t' = (table_rows schs t)(tb := xs @ rows_of sch (table_id sch) [c] @ zs)"
    using u c(1) by (intro table_rows_change [OF wd(6) sch u(1)]) (auto simp: s(4))
  have new: "rows_of sch (table_id sch) [c] = [row]"
    using c by (simp add: rows_of_one)
  have "repo_ok e h' t' schs n m (r\<lparr>bt_store := s\<rparr>)"
  proof (rule written_repo_ok [OF _ wd(6) _ _ s(1,2)])
    show "room 1 (obs s)"
      using w' s(6) by (simp add: room_def kept_def)
    show "\<forall>d \<in> set (tree_cells t'). d \<in> set (tree_cells t) \<or>
      (\<exists>tb sch. schs tb = Some sch \<and> fst (ckey d) = table_id sch \<and> decode_leaf_cell d sch \<noteq> None)"
      using sch c unfolding s(4) u(2) by (auto simp: u(1))
  qed (use w' s(5) in auto)
  moreover have ids: "\<forall>d \<in> set (tree_cells t'). d \<in> set (tree_cells t) \<or> fst (ckey d) = table_id (the (schs tb))"
    using sch c(1) unfolding s(4) u(2) by (auto simp: u(1))
  moreover obtain xs zs where "table_rows schs t tb = xs @ (case table_find schs t tb v of None \<Rightarrow> [] | Some r0 \<Rightarrow> [r0]) @ zs"
    "table_rows schs t' = (table_rows schs t)(tb := xs @ row # zs)"
    using rows unfolding old new by auto
  ultimately show ?thesis
    using table_find_put [OF wd(3,6) sch c s(4)] s(3,5,6) ids unfolding put_row_def
    by (intro exI [of _ h'] exI [of _ t'] exI [of _ xs] exI [of _ zs]) simp
qed

section \<open>The operations of the repository\<close>

text \<open>Inserting a row with a new key adds it to its table in the place of its key, and leaves the other rows and tables
  as they were.\<close>

lemma insert_into_ok:
  assumes w: "writable e h t schs n m r" and sch: "schs tb = Some sch" and st: "storable e sch v row"
    and pk: "value_at row (primary_key_index sch) = Ok v" and new: "table_find schs t tb v = None"
  shows "\<exists>r'. insert_into n tb row txn r = (Ok (), r') \<and> put_row e schs h t n m tb v row [] txn r r'"
proof -
  note wd = writableD [OF w]
  obtain c where c: "encode_leaf_cell (table_id sch) (Some v) row sch = Some c" "cell_in_env e c" "ckey c = (table_id sch, v)"
    "decode_leaf_cell c sch = Some (table_id sch, Some v, row)"
    by (rule storable_cell [OF wd(4) st])
  have nk: "(table_id sch, v) \<notin> ckey ` set (tree_cells t)"
    using new table_find_None [of schs tb sch t v] sch by blast
  obtain t' h' s' where s': "insert_row n (table_id sch) (Some v) row sch txn (bt_store r) = (Ok (), s')" "db_ok {} s'"
    "btree_ok e h' t' (obs s')" "fresh_empty (o_view (obs s')) t'" "tree_cells t' = put_cell c (tree_cells t)"
    "h' \<le> Suc h" "kept (Suc h) txn t (obs (bt_store r)) (obs s')"
    by (rule insert_row_ok [OF wd(1,2) c(1-3) nk])
  have "insert_into n tb row txn r = (Ok (), r\<lparr>bt_store := s'\<rparr>)"
    using wd(5) sch pk s'(1) by (simp add: insert_into_def schema_of_def on_tree_def bindG_def pureG_def)
  then show ?thesis
    using put_row_ok [OF w sch c(3,4) s'(2-7)] new by simp
qed

text \<open>Updating the row of a key replaces it, and leaves the other rows and tables as they were.\<close>

abbreviation update_fits :: "btree_repository \<Rightarrow> schema \<Rightarrow> value_t \<Rightarrow> row \<Rightarrow> tree \<Rightarrow> bool" where
  "update_fits r sch v row \<equiv> update_room (o_view (obs (bt_store r))) (leaf_cell_size (table_id sch) (Some v) row) (table_id sch, v)"

lemma update_in_ok:
  assumes w: "writable e h t schs n m r" and sch: "schs tb = Some sch" and st: "storable e sch v row"
    and old: "table_find schs t tb v = Some row0" and fits: "update_fits r sch v row t"
  shows "\<exists>r'. update_in n tb v row txn r = (Ok (), r') \<and> put_row e schs h t n m tb v row [row0] txn r r'"
proof -
  note wd = writableD [OF w]
  obtain c where c: "encode_leaf_cell (table_id sch) (Some v) row sch = Some c" "cell_in_env e c" "ckey c = (table_id sch, v)"
    "decode_leaf_cell c sch = Some (table_id sch, Some v, row)"
    by (rule storable_cell [OF wd(4) st])
  have "length c = leaf_cell_size (table_id sch) (Some v) row"
    by (rule storable_encodes [OF wd(4) st]) (use c(1) in simp)
  then have f: "update_fit (o_view (obs (bt_store r))) e c (table_id sch) v row sch None t"
    using c wd(4) fits old table_find_None [of schs tb sch t v] sch by (auto simp: update_fit_def update_room_def)
  obtain t' h' s' where s': "update_row n (table_id sch) (Some v) row sch txn (bt_store r) = (Ok (), s')" "db_ok {} s'"
    "btree_ok e h' t' (obs s')" "fresh_empty (o_view (obs s')) t'" "tree_cells t' = put_cell c (tree_cells t)"
    "h' \<le> Suc h" "kept (Suc h) txn t (obs (bt_store r)) (obs s')"
    by (rule update_row_ok [OF wd(1,2) f])
  have "update_in n tb v row txn r = (Ok (), r\<lparr>bt_store := s'\<rparr>)"
    using wd(5) sch s'(1) by (simp add: update_in_def schema_of_def on_tree_def bindG_def)
  then show ?thesis
    using put_row_ok [OF w sch c(3,4) s'(2-7)] old by simp
qed

text \<open>Deleting the row of a key takes it out of its table, and leaves the other rows and tables as they were.\<close>

lemma delete_from_ok:
  assumes r: "repo_ok e h t schs n m r" "ids_distinct schs" "2 ^ 32 < m" "room 2 (obs (bt_store r))" and sch: "schs tb = Some sch"
    and key: "key_fits e schs tb v" and old: "table_find schs t tb v = Some row"
  shows "\<exists>r' t' xs zs. delete_from n tb v txn r = (Ok (), r') \<and> repo_ok e h t' schs n m r' \<and>
    kept 0 txn t (obs (bt_store r)) (obs (bt_store r')) \<and> set (tree_cells t') \<subseteq> set (tree_cells t) \<and>
    table_rows schs t tb = xs @ row # zs \<and> table_rows schs t' = (table_rows schs t)(tb := xs @ zs) \<and>
    table_find schs t' = (table_find schs t)(tb := (table_find schs t tb)(v := None))"
proof -
  let ?K = "(table_id sch, v)"
  note rd = r(1) [unfolded repo_ok_def]
  have bt: "btree_ok e h t (obs (bt_store r))" and ready: "reader_ready (bt_store r)" and hn: "h < n"
    using rd by blast+
  have K: "ckey_ok (key_kinds e) ?K"
    using key sch by (simp add: key_fits_def)
  have mem: "?K \<in> ckey ` set (tree_cells t)"
    using old table_find_None [of schs tb sch t v] sch by auto
  obtain t' s' where s': "delete_row n (table_id sch) (Some v) txn (bt_store r) = (Ok (), s')" "db_ok {} s'" "btree_ok e h t' (obs s')"
    "tree_cells t' = filter (\<lambda>c. ckey c \<noteq> ?K) (tree_cells t)" "kept 0 txn t (obs (bt_store r)) (obs s')"
    "o_root (obs s') = o_root (obs (bt_store r))"
    by (rule delete_row_ok [OF bt ready hn K mem])
  have sorted: "sorted_wrt (<) (map ckey (tree_cells t))"
    using leaf_in_sorted [OF tree_in_cells] bt by (auto simp: btree_ok_def)
  obtain us d vs where d: "tree_cells t = us @ [d] @ vs" "ckey d = ?K" "filter (\<lambda>c. ckey c \<noteq> ?K) (tree_cells t) = us @ [] @ vs"
    "find (\<lambda>c. ckey c = ?K) (tree_cells t) = Some d"
    by (rule key_split [OF sorted mem])
  have row: "rows_of sch (table_id sch) [d] = [row]"
    using old d(2,4) by (simp add: table_find_def sch rows_of_def)
  have rows: "\<exists>xs zs. table_rows schs t tb = xs @ rows_of sch (table_id sch) [d] @ zs \<and>
    table_rows schs t' = (table_rows schs t)(tb := xs @ rows_of sch (table_id sch) [] @ zs)"
    using d(2) by (intro table_rows_change [OF r(2) sch d(1) s'(4) [unfolded d(3)]]) simp_all
  have ok: "repo_ok e h t' schs n m (r\<lparr>bt_store := s'\<rparr>)"
  proof (rule written_repo_ok [OF r(1,2) hn r(3) s'(2,3)])
    show "room 1 (obs s')"
      using r(4) s'(5) by (simp add: room_def kept_def)
  qed (auto simp: s'(4))
  have del: "delete_from n tb v txn r = (Ok (), r\<lparr>bt_store := s'\<rparr>)"
    using rd sch s'(1) by (simp add: delete_from_def schema_of_def on_tree_def bindG_def)
  obtain xs zs where xz: "table_rows schs t tb = xs @ row # zs" "table_rows schs t' = (table_rows schs t)(tb := xs @ zs)"
    using rows unfolding row by (auto simp: rows_of_def)
  show ?thesis
    by (intro exI conjI) (rule del, use ok s'(4,5) xz table_find_remove [OF r(2) sch s'(4)] in simp_all)
qed

section \<open>Concrete runs\<close>

text \<open>The row \<open>(9, 'Eve')\<close> for the database of one row.\<close>

definition eve_row :: row where
  "eve_row = [IntValue 9, StringValue ''Eve'']"

definition users_schemas :: "string \<Rightarrow> schema option" where
  "users_schemas = [''users'' \<mapsto> users_schema]"

lemma users_writable: "writable users_env 0 users_tree users_schemas 2 (2 ^ 32 + 1) users_repository"
proof -
  have "repo_ok users_env 0 users_tree users_schemas 2 (2 ^ 32 + 1) users_repository"
    using users_repository_ok by (simp add: repo_ok_def users_schemas_def)
  then show ?thesis
    by (auto simp: writable_def users_tree_def fresh_empty_def room_def users_repository_def users_storage_facts users_disk
      ids_distinct_def users_schemas_def no_page_id_def split: if_splits)
qed

lemma users_storable: "length s < 20 \<Longrightarrow> storable users_env users_schema (IntValue i) [IntValue i, StringValue s]"
  by (simp add: storable_def users_schema_def sample_column_def name_column_def row_conforms_def key_in_env_def users_env_def
      ckey_ok.simps sized_def length_icell encode_composite_key_def leaf_cell_size_def bitmap_size_def)

lemma users_key: "value_at (IntValue i # row) (primary_key_index users_schema) = Ok (IntValue i)"
  by (simp add: value_at_def users_schema_def sample_column_def primary_key_index_def)

lemma users_reads:
  "users_schemas ''users'' = Some users_schema" "key_fits users_env users_schemas ''users'' (IntValue i)"
  "table_find users_schemas users_tree ''users'' (IntValue i) = (if i = 7 then Some user_row else None)"
  "table_rows users_schemas users_tree ''users'' = [user_row]"
proof -
  show u: "users_schemas ''users'' = Some users_schema"
    by (simp add: users_schemas_def)
  have id: "table_id users_schema = 0"
    by (simp add: users_schema_def)
  show "key_fits users_env users_schemas ''users'' (IntValue i)"
    by (simp add: key_fits_def u id users_env_def ckey_ok.simps)
  show "table_find users_schemas users_tree ''users'' (IntValue i) = (if i = 7 then Some user_row else None)"
    "table_rows users_schemas users_tree ''users'' = [user_row]"
    using user_cell_facts by (simp_all add: table_find_def table_rows_def u id users_tree_def rows_of_def)
qed

section \<open>Properties\<close>

text \<open>C8. Insertion: a row with a new key goes into its table at the place of its key, and nothing else changes in any
  table. The tree is well-formed again and at most one level higher, and only its pages and new ones are touched.\<close>

theorem insert_adds_row:
  assumes "writable e h t schs n m r" "schs tb = Some sch" "storable e sch v row"
    and "value_at row (primary_key_index sch) = Ok v" "table_find schs t tb v = None"
  shows "\<exists>r' h' t' xs zs. insert_into n tb row txn r = (Ok (), r') \<and> repo_ok e h' t' schs n m r' \<and> h' \<le> Suc h \<and>
    fresh_empty (o_view (obs (bt_store r'))) t' \<and> kept (Suc h) txn t (obs (bt_store r)) (obs (bt_store r')) \<and>
    table_rows schs t tb = xs @ zs \<and> table_rows schs t' = (table_rows schs t)(tb := xs @ row # zs) \<and>
    table_find schs t' = (table_find schs t)(tb := (table_find schs t tb)(v := Some row))"
  using insert_into_ok [OF assms] unfolding put_row_def append_Nil by blast

theorem insert_adds_row_witness:
  "\<exists>r'. insert_into 2 ''users'' eve_row 5 users_repository = (Ok (), r')"
proof -
  have "length ''Eve'' < 20" "table_find users_schemas users_tree ''users'' (IntValue 9) = None"
    by (simp_all add: users_reads)
  then show ?thesis
    using insert_adds_row [OF users_writable users_reads(1) users_storable users_key, of "''Eve''" 9 5] unfolding eve_row_def by blast
qed

text \<open>A row that was inserted is found, in whatever table and under whatever key is looked for.\<close>

theorem insert_then_find:
  assumes w: "writable e h t schs n m r" and sch: "schs tb = Some sch" and st: "storable e sch v row"
    and pk: "value_at row (primary_key_index sch) = Ok v" and new: "table_find schs t tb v = None"
    and other: "schs tb' = Some sch'" "key_fits e schs tb' w'"
  shows "fst (bindG (insert_into n tb row txn) (\<lambda>_. find_by_pk n tb' w') r) =
    Ok (if tb' = tb \<and> w' = v then Some row else table_find schs t tb' w')"
proof -
  obtain r' where r': "insert_into n tb row txn r = (Ok (), r')" "put_row e schs h t n m tb v row [] txn r r'"
    using insert_into_ok [OF w sch st pk new] by blast
  then obtain h' t' where t': "repo_ok e h' t' schs n m r'" "table_find schs t' = (table_find schs t)(tb := (table_find schs t tb)(v := Some row))"
    unfolding put_row_def by blast
  show ?thesis
    using repo_reads(2) [OF t'(1) other] r'(1) by (auto simp: bindG_def t'(2))
qed

theorem insert_then_find_witness:
  "fst (bindG (insert_into 2 ''users'' eve_row 5) (\<lambda>_. find_by_pk 2 ''users'' (IntValue 9)) users_repository) = Ok (Some eve_row)"
  using insert_then_find [OF users_writable users_reads(1) users_storable users_key _ users_reads(1,2)]
  by (simp add: users_reads eve_row_def)

text \<open>C9. Update: the row of a key is replaced at its place, and nothing else changes in any table, unless the key is a separator
  of the tree and the row is alone in its leaf with too few free bytes for the new one.\<close>

theorem update_replaces_row:
  assumes "writable e h t schs n m r" "schs tb = Some sch" "storable e sch v row"
    and "table_find schs t tb v = Some row0" "update_fits r sch v row t"
  shows "\<exists>r' h' t' xs zs. update_in n tb v row txn r = (Ok (), r') \<and> repo_ok e h' t' schs n m r' \<and> h' \<le> Suc h \<and>
    fresh_empty (o_view (obs (bt_store r'))) t' \<and> kept (Suc h) txn t (obs (bt_store r)) (obs (bt_store r')) \<and>
    table_rows schs t tb = xs @ row0 # zs \<and> table_rows schs t' = (table_rows schs t)(tb := xs @ row # zs) \<and>
    table_find schs t' = (table_find schs t)(tb := (table_find schs t tb)(v := Some row))"
  using update_in_ok [OF assms] unfolding put_row_def append_Nil append_Cons by blast

theorem update_replaces_row_witness:
  "\<exists>r'. update_in 2 ''users'' (IntValue 7) [IntValue 7, StringValue ''Bobby''] 5 users_repository = (Ok (), r')"
proof -
  have st: "storable users_env users_schema (IntValue 7) [IntValue 7, StringValue ''Bobby'']"
    by (rule users_storable) simp
  have old: "table_find users_schemas users_tree ''users'' (IntValue 7) = Some user_row" 
    and ro: "update_fits users_repository users_schema (IntValue 7) [IntValue 7, StringValue ''Bobby''] users_tree"
    by (simp add: users_reads) (simp add: users_tree_def update_room_def)
  show ?thesis
    using update_replaces_row [OF users_writable users_reads(1) st old ro, of 5] by blast
qed

text \<open>C10. Deletion: the row of a key goes out of its table, and nothing else changes in any table.\<close>

theorem delete_removes_row:
  assumes "repo_ok e h t schs n m r" "ids_distinct schs" "2 ^ 32 < m" "room 2 (obs (bt_store r))" "schs tb = Some sch"
    and "key_fits e schs tb v" "table_find schs t tb v = Some row"
  shows "\<exists>r' t' xs zs. delete_from n tb v txn r = (Ok (), r') \<and> repo_ok e h t' schs n m r' \<and>
    kept 0 txn t (obs (bt_store r)) (obs (bt_store r')) \<and>
    table_rows schs t tb = xs @ row # zs \<and> table_rows schs t' = (table_rows schs t)(tb := xs @ zs) \<and>
    table_find schs t' = (table_find schs t)(tb := (table_find schs t tb)(v := None))"
  using delete_from_ok [OF assms] by blast

theorem delete_removes_row_witness:
  "\<exists>r'. delete_from 2 ''users'' (IntValue 7) 5 users_repository = (Ok (), r')"
proof -
  note w = users_writable [unfolded writable_def]
  have "repo_ok users_env 0 users_tree users_schemas 2 (2 ^ 32 + 1) users_repository" "ids_distinct users_schemas"
    "room 2 (obs (bt_store users_repository))"
    using w by (simp_all add: room_def)
  then show ?thesis
    using delete_removes_row [OF _ _ _ _ users_reads(1,2)] by (force simp: users_reads)
qed

text \<open>Deleting a key that no row has fails and changes nothing that can be observed.\<close>

theorem delete_absent_fails:
  assumes r: "repo_ok e h t schs n m r" and sch: "schs tb = Some sch" and key: "key_fits e schs tb v" and none: "table_find schs t tb v = None"
  shows "\<exists>r'. delete_from n tb v txn r = (Err EKeyNotFound, r') \<and> repo_ok e h t schs n m r' \<and> obs (bt_store r') = obs (bt_store r)"
proof -
  let ?K = "(table_id sch, v)"
  note rd = r [unfolded repo_ok_def]
  have bt: "btree_ok e h t (obs (bt_store r))" and ready: "reader_ready (bt_store r)" and hn: "h < n"
    using rd by blast+
  have K: "ckey_ok (key_kinds e) ?K"
    using key sch by (simp add: key_fits_def)
  obtain i cs nx ls1 ls2 s1 p where f: "find_leaf n (table_id sch) (Some v) (bt_store r) = (Ok i, s1)" "obs s1 = obs (bt_store r)"
    "reader_ready s1" "leaves t = ls1 @ (i, cs, nx) # ls2"
    "\<forall>c \<in> set (leaves_cells ls1). ckey c < ?K" "\<forall>c \<in> set (leaves_cells ls2). ?K < ckey c"
    "o_view (obs (bt_store r)) i = Some p" "leaf_page p i cs nx" "sorted_wrt (<) (map ckey cs)" "\<forall>c \<in> set cs. cell_ok (key_kinds e) c"
    by (rule find_leaf_ok [OF bt ready K hn])
  note lp = leaf_page_cells [OF f(8)]
  have "?K \<notin> ckey ` set cs"
    using none table_find_None [of schs tb sch t v] sch by (auto simp: tree_cells_split [OF f(4)])
  then have sl: "search_in_leaf p (table_id sch) (Some v) = Some (0, False)"
    using search_in_leaf_ok [OF lp(1) K] f(9,10) by (simp add: lp(2))
  have v1: "o_view (obs s1) i = Some p"
    using f(2,7) by simp
  obtain u where u: "reader_ready u" "obs u = obs s1"
    "\<And>body (k :: storage \<Rightarrow> unit res \<times> storage). (\<And>w. body p w = k (release_page i w)) \<Longrightarrow> bindG (fetch_page i) body s1 = k u"
    by (rule reader.read_page [OF f(3) v1]) blast
  have "delete_row n (table_id sch) (Some v) txn (bt_store r) = (Err EKeyNotFound, u)"
    unfolding delete_row_def bindG_def [of "find_leaf n (table_id sch) (Some v)"] f(1) prod.case res.case
    by (intro u(3) [of _ "\<lambda>w. (Err EKeyNotFound, w)"]) (simp add: sl bindG_def)
  then have "delete_from n tb v txn r = (Err EKeyNotFound, r\<lparr>bt_store := u\<rparr>)"
    using rd sch by (simp add: delete_from_def schema_of_def on_tree_def bindG_def)
  then show ?thesis
    using rd u(1,2) f(2) by (simp add: repo_ok_def)
qed

theorem delete_absent_fails_witness:
  "\<exists>r'. delete_from 2 ''users'' (IntValue 9) 5 users_repository = (Err EKeyNotFound, r')"
  using delete_absent_fails [OF conjunct1 [OF users_writable [unfolded writable_def]] users_reads(1,2)] by (force simp: users_reads)

text \<open>Inserting a row and deleting it again leaves under every key of every table what was there.\<close>

theorem insert_then_delete:
  assumes w: "writable e h t schs n m r" and sch: "schs tb = Some sch" and st: "storable e sch v row"
    and pk: "value_at row (primary_key_index sch) = Ok v" and new: "table_find schs t tb v = None"
    and other: "schs tb' = Some sch'" "key_fits e schs tb' w'"
  shows "fst (bindG (insert_into n tb row txn) (\<lambda>_. bindG (delete_from n tb v txn') (\<lambda>_. find_by_pk n tb' w')) r) =
    Ok (table_find schs t tb' w')"
proof -
  obtain r1 where r1: "insert_into n tb row txn r = (Ok (), r1)" "put_row e schs h t n m tb v row [] txn r r1"
    using insert_into_ok [OF w sch st pk new] by blast
  then obtain h1 t1 where t1: "repo_ok e h1 t1 schs n m r1" "kept (Suc h) txn t (obs (bt_store r)) (obs (bt_store r1))"
    "table_find schs t1 = (table_find schs t)(tb := (table_find schs t tb)(v := Some row))"
    unfolding put_row_def by blast
  have k: "key_fits e schs tb v" and fuel: "2 ^ 32 < m" and ids: "ids_distinct schs" and room: "room 2 (obs (bt_store r1))"
    using st sch w t1(2) by (simp_all add: key_fits_def storable_def key_in_env_def writable_def room_def kept_def)
  have found: "table_find schs t1 tb v = Some row"
    by (simp add: t1(3))
  obtain r2 t2 where r2: "delete_from n tb v txn' r1 = (Ok (), r2)" "repo_ok e h1 t2 schs n m r2"
    "table_find schs t2 = (table_find schs t1)(tb := (table_find schs t1 tb)(v := None))"
    using delete_from_ok [OF t1(1) ids fuel room sch k found, of txn'] by blast
  have "table_find schs t2 = table_find schs t"
    using new unfolding r2(3) t1(3) by (auto simp: fun_eq_iff)
  then show ?thesis
    using repo_reads(2) [OF r2(2) other] r1(1) r2(1) by (auto simp: bindG_def)
qed

theorem insert_then_delete_witness:
  "fst (bindG (insert_into 2 ''users'' eve_row 5) (\<lambda>_. bindG (delete_from 2 ''users'' (IntValue 9) 6)
     (\<lambda>_. find_by_pk 2 ''users'' (IntValue 9))) users_repository) = Ok None"
  using insert_then_delete [OF users_writable users_reads(1) users_storable users_key _ users_reads(1,2)]
  by (simp add: users_reads eve_row_def)

end
