(* ===== verification/Engine_Write.thy ===== *)
theory Engine_Write
  imports Durable Engine Repository_Change
begin

text \<open>
  Statements on an engine at rest. A statement that succeeds begins a transaction, takes its locks, runs, commits and
  leaves the engine at rest again (\<open>statement_commits\<close>): instances are queries, \<open>INSERT\<close> and \<open>CREATE TABLE\<close>, with what they do
  to the rows of the tables.
\<close>

section \<open>An engine at rest\<close>

text \<open>No statement runs: no page is owned or pinned, no table is locked, and the log has no record that is not flushed or that
  carries an id not given yet.\<close>

definition at_rest :: "env \<Rightarrow> nat \<Rightarrow> tree \<Rightarrow> nat \<Rightarrow> nat \<Rightarrow> engine \<Rightarrow> bool" where
  "at_rest e h t n m g \<longleftrightarrow> repo_ok e h t (eng_schemas g) n m (repo_view g) \<and> ids_distinct (eng_schemas g) \<and>
     o_owner (obs (store (eng_mgr g))) = (\<lambda>_. None) \<and> o_pins (obs (store (eng_mgr g))) = (\<lambda>_. 0) \<and>
     all_writable (o_file (obs (store (eng_mgr g)))) \<and> (\<exists>rs. wal_holds (wal (store (eng_mgr g))) rs []) \<and>
     o_txns (obs (store (eng_mgr g))) \<subseteq> {..next_txn_id (eng_mgr g)} \<and>
     table_locks (eng_mgr g) = (\<lambda>_. free_mutex) \<and> eng_waiting g = []"

lemma next_id_above:
  assumes "i \<noteq> (- 1 :: u64)"
  shows "i < i + 1"
proof -
  have "1 + i \<noteq> 0"
    using assms by (metis add.commute add_eq_0_iff)
  then have "unat (i + 1) = Suc (unat i)"
    using unatSuc by (metis add.commute)
  then show ?thesis
    by (simp add: word_less_nat_alt)
qed

text \<open>What a writing transaction leaves as it was, whichever pages it changes.\<close>

definition wrote :: "u64 \<Rightarrow> observed \<Rightarrow> observed \<Rightarrow> bool" where
  "wrote txn x y \<longleftrightarrow> o_max y = o_max x \<and> o_file y = o_file x \<and> o_ended y = o_ended x \<and> o_pins y = o_pins x \<and>
     o_txns y \<subseteq> insert txn (o_txns x) \<and> (\<forall>i. o_owner y i = o_owner x i \<or> o_owner y i = Some txn)"

lemma kept_wrote: "kept m txn t x y \<Longrightarrow> wrote txn x y"
  unfolding kept_def wrote_def by blast

lemma wrote_refl: "wrote txn x x" and wrote_trans: "wrote txn x y \<Longrightarrow> wrote txn y z \<Longrightarrow> wrote txn x z"
  by (auto simp: wrote_def) metis+

text \<open>A statement that succeeds: begin, lock, execute, commit, unlock. \<open>L\<close> are the mutexes once the locks \<open>es\<close> are taken.\<close>

abbreviation active :: "u64 \<Rightarrow> lock_entry list \<Rightarrow> txn" where
  "active i es \<equiv> \<lparr>txn_id = i, tstate = StateActive, locks = es\<rparr>"

definition locked :: "(string \<Rightarrow> rwmutex) \<Rightarrow> engine \<Rightarrow> engine" where
  "locked L g = (begun g)\<lparr>eng_mgr := (eng_mgr (begun g))\<lparr>table_locks := L\<rparr>\<rparr>"

lemma locked_fields [simp]:
  "repo_view (locked L g) = repo_view g" "store (eng_mgr (locked L g)) = store (eng_mgr g)" "table_locks (eng_mgr (locked L g)) = L"
  "next_txn_id (eng_mgr (locked L g)) = next_txn_id (eng_mgr g) + 1" "eng_schemas (locked L g) = eng_schemas g"
  "eng_catalog (locked L g) = eng_catalog g" "eng_waiting (locked L g) = eng_waiting g"
  by (simp_all add: locked_def begun_def repo_view_def)

lemma statement_commits:
  fixes g :: engine
  defines "i \<equiv> next_txn_id (eng_mgr g) + 1" and "x \<equiv> obs (store (eng_mgr g))"
  assumes rest: "at_rest e h t n m g" and id: "next_txn_id (eng_mgr g) \<noteq> - 1"
    and p: "lock_for p \<lparr>c_engine = begun g, c_txn = active i []\<rparr> = (Ok (), \<lparr>c_engine = locked L g, c_txn = active i es\<rparr>)"
      "execute_ddl_or_marker p = None"
    and held: "locks_held (active i es) L" "\<And>tb. writer (L tb) \<longleftrightarrow> lock_entry WriteLock tb \<in> set es"
      "\<And>tb. readers (L tb) = of_bool (lock_entry ReadLock tb \<in> set es)"
    and run: "\<And>k. N \<le> k \<Longrightarrow> execute_locked k (engine_repository n m) (\<lambda>_. False) p i (locked L g) = (Ok res, v)"
    and v: "table_locks (eng_mgr v) = L" "eng_waiting v = []" "eng_catalog v = eng_catalog g" "next_txn_id (eng_mgr v) = i"
      "repo_ok e h' t' (eng_schemas g) n m (repo_view v)" "wrote i x (obs (store (eng_mgr v)))"
  obtains g' where "\<And>k. N \<le> k \<Longrightarrow> engine_execute k n m (\<lambda>_. False) p g = (Ok res, g')" "at_rest e h' t' n m g'"
    "eng_schemas g' = eng_schemas g" "eng_catalog g' = eng_catalog g" "next_txn_id (eng_mgr g') = i"
    "o_view (obs (store (eng_mgr g'))) = o_view (obs (store (eng_mgr v)))" "o_next (obs (store (eng_mgr g'))) = o_next (obs (store (eng_mgr v)))"
    "o_max (obs (store (eng_mgr g'))) = o_max x"
proof -
  let ?y = "obs (store (eng_mgr v))"
  note a = rest [unfolded at_rest_def, folded x_def]
  have st: "bt_store (repo_view w) = store (eng_mgr w)" "open_schemas (repo_view w) = eng_schemas w" for w
    by (simp_all add: repo_view_def)
  note rk = v(5) [unfolded repo_ok_def reader_ready_def st]
  have ex1: "exec_locked_in_txn k n m (\<lambda>_. False) p \<lparr>c_engine = begun g, c_txn = active i []\<rparr> = (Ok res, \<lparr>c_engine = v, c_txn = active i es\<rparr>)"
    if "N \<le> k" for k
    using run [OF that] by (simp add: exec_locked_in_txn_def bindG_def on_engine_def p(1))
  have b: "on_mgr begin_txn g = (Ok (active i []), begun g)"
    by (simp add: on_mgr_def begin_txn_def begun_def Let_def i_def)
  obtain rs where rs: "wal_holds (wal (store (eng_mgr g))) rs []"
    using a by blast
  have new: "i \<notin> o_txns x"
    using a next_id_above [OF id] by (fastforce simp: i_def)
  have ft: "file_txns (o_file x) = o_txns x"
    by (simp add: x_def file_txns_holds [OF rs] log_records_holds [OF rs])
  have "o_ended x \<subseteq> o_txns x"
    by (auto simp: x_def ended_def)
  then have sw: "sole_writer i ?y"
    using v(6) a new ft unfolding sole_writer_def wrote_def by auto
  obtain m' rs' where c: "commit (active i es) (eng_mgr v) = (Ok ((active i es)\<lparr>tstate := StateCommitted, locks := []\<rparr>), m')" "db_ok {} (store m')"
    "obs (store m') = ?y\<lparr>o_owner := (\<lambda>_. None), o_file := wfile (wal (store m')), o_ended := insert i (o_ended ?y), o_txns := insert i (o_txns ?y)\<rparr>"
    "wal_holds (wal (store m')) rs' []" "all_writable (wfile (wal (store m')))" "next_txn_id m' = i"
    "\<And>tb. writer (table_locks m' tb) \<longleftrightarrow> writer (L tb) \<and> lock_entry WriteLock tb \<notin> set es"
    "\<And>tb. readers (table_locks m' tb) = readers (L tb) - of_bool (lock_entry ReadLock tb \<in> set es)"
  proof (rule commit_db_ok [of "active i es" "eng_mgr v"])
    show "all_writable (wfile (wal (store (eng_mgr v))))"
      using a v(6) by (simp add: wrote_def)
  qed (use rk sw held(1) v(1,4) in simp_all)
  have L: "table_locks m' = (\<lambda>_. free_mutex)"
    using c(7,8) held(2,3) by (intro ext rwmutex.equality) (auto simp: free_mutex_def)
  let ?g = "v\<lparr>eng_mgr := m'\<rparr>"
  note o = c(3)
  have rv: "repo_view ?g = (repo_view v)\<lparr>bt_store := store m'\<rparr>"
    by (simp add: repo_view_def)
  have pins: "o_pins ?y = (\<lambda>_. 0)"
    using a v(6) by (simp add: wrote_def)
  have "room 1 (obs (store m'))"
    using rk by (simp add: o room_def o_busy_def pins del: obs_fields)
  moreover have "btree_ok e h' t' (obs (store m'))"
    using rk by (simp add: o btree_ok_def del: obs_fields)
  ultimately have ok: "repo_ok e h' t' (eng_schemas g) n m (repo_view ?g)"
    using rk c(2) by (simp add: rv repo_ok_def reader_ready_def st del: obs_fields)
  have "j \<le> i" if "j \<le> next_txn_id (eng_mgr g)" for j
    using that next_id_above [OF id] by (simp add: i_def)
  then have "o_txns (obs (store m')) \<subseteq> {..i}"
    using v(6) a by (auto simp: o wrote_def simp del: obs_fields)
  moreover have sch: "eng_schemas ?g = eng_schemas g"
    using rk by simp
  ultimately have rest': "at_rest e h' t' n m ?g"
    using ok a c(4-6) L v(2) by (auto simp: at_rest_def o pins simp del: obs_fields)
  have ex: "engine_execute k n m (\<lambda>_. False) p g = (Ok res, ?g)" if "N \<le> k" for k
    by (simp only: engine_execute_def p(2) option.case bindG_def [of "on_mgr begin_txn"] b prod.case res.case ex1 [OF that])
      (simp add: bindG_def on_mgr_def c(1))
  have max: "o_max ?y = o_max x"
    using v(6) by (simp add: wrote_def)
  show thesis
    by (rule that [OF ex rest' sch]) (simp_all add: o max c(6) v(3) del: obs_fields)
qed

text \<open>A statement that locks one table for writing and changes the tree.\<close>

lemma write_statement:
  assumes rest: "at_rest e h t n m g" and id: "next_txn_id (eng_mgr g) \<noteq> - 1"
    and p: "lock_for p = lock_table WriteLock tb" "execute_ddl_or_marker p = None"
    and run: "\<And>u k. N \<le> k \<Longrightarrow> repo_view u = repo_view g \<Longrightarrow>
      execute_locked k (engine_repository n m) (\<lambda>_. False) p (next_txn_id (eng_mgr g) + 1) u = (Ok res, put_repo r u)"
    and r: "repo_ok e h' t' (eng_schemas g) n m r"
      "wrote (next_txn_id (eng_mgr g) + 1) (obs (store (eng_mgr g))) (obs (bt_store r))"
  obtains g' where "\<And>k. N \<le> k \<Longrightarrow> engine_execute k n m (\<lambda>_. False) p g = (Ok res, g')" "at_rest e h' t' n m g'"
    "eng_schemas g' = eng_schemas g" "eng_catalog g' = eng_catalog g" "next_txn_id (eng_mgr g') = next_txn_id (eng_mgr g) + 1"
    "o_view (obs (store (eng_mgr g'))) = o_view (obs (bt_store r))" "o_next (obs (store (eng_mgr g'))) = o_next (obs (bt_store r))"
    "o_max (obs (store (eng_mgr g'))) = o_max (obs (store (eng_mgr g)))"
proof -
  let ?i = "next_txn_id (eng_mgr g) + 1" and ?es = "[lock_entry WriteLock tb]"
  let ?L = "(\<lambda>_. free_mutex)(tb := \<lparr>readers = 0, writer = True\<rparr>)"
  have u: "table_locks (eng_mgr g) = (\<lambda>_. free_mutex)" "eng_waiting g = []"
    using rest by (simp_all add: at_rest_def)
  have lk: "lock_for p \<lparr>c_engine = begun g, c_txn = active ?i []\<rparr> = (Ok (), \<lparr>c_engine = locked ?L g, c_txn = active ?i ?es\<rparr>)"
    by (simp add: u p(1) lock_table_def lock_entry_check_def holds_def Let_def lock_free_def can_acquire_def acquire_def free_mutex_def locked_def)
  have "locks_ok ?es"
    by (auto simp: locks_ok_def)
  then have held: "locks_held (active ?i ?es) ?L"
    by (auto simp: locks_held_def)
  have L: "writer (?L a) \<longleftrightarrow> lock_entry WriteLock a \<in> set ?es" "readers (?L a) = of_bool (lock_entry ReadLock a \<in> set ?es)" for a
    by (auto simp: free_mutex_def lock_entry_def)
  let ?v = "put_repo r (locked ?L g)"
  have run': "execute_locked k (engine_repository n m) (\<lambda>_. False) p ?i (locked ?L g) = (Ok res, ?v)" if "N \<le> k" for k
    by (rule run [OF that]) simp
  have v: "table_locks (eng_mgr ?v) = ?L" "eng_waiting ?v = []" "eng_catalog ?v = eng_catalog g" "next_txn_id (eng_mgr ?v) = ?i"
    "repo_ok e h' t' (eng_schemas g) n m (repo_view ?v)" "wrote ?i (obs (store (eng_mgr g))) (obs (store (eng_mgr ?v)))"
    using r u by (simp_all del: fun_upd_apply obs_fields)
  show thesis
  proof (rule statement_commits [OF rest id lk p(2) held L run' v, where N = N])
    fix g' assume g': "\<And>k. N \<le> k \<Longrightarrow> engine_execute k n m (\<lambda>_. False) p g = (Ok res, g')" "at_rest e h' t' n m g'"
      "eng_schemas g' = eng_schemas g" "eng_catalog g' = eng_catalog g" "next_txn_id (eng_mgr g') = ?i"
      "o_view (obs (store (eng_mgr g'))) = o_view (obs (store (eng_mgr ?v)))" "o_next (obs (store (eng_mgr g'))) = o_next (obs (store (eng_mgr ?v)))"
      "o_max (obs (store (eng_mgr g'))) = o_max (obs (store (eng_mgr g)))"
    show thesis
      by (rule that [OF g'(1-5) _ _ g'(8)]) (simp_all only: g'(6,7) put_repo_fields)
  qed
qed

text \<open>A query: it reads under the locks of its tables and changes nothing.\<close>

lemma query_statement:
  assumes rest: "at_rest e h t n m g" and id: "next_txn_id (eng_mgr g) \<noteq> - 1" and q: "query p"
    and rd: "plan_readable (\<lambda>tb. eng_schemas g tb \<noteq> None) (key_fits e (eng_schemas g)) p" and ans: "answer t p g = Ok res"
  obtains N g' where "\<And>k. N \<le> k \<Longrightarrow> engine_execute k n m (\<lambda>_. False) p g = (Ok res, g')" "at_rest e h t n m g'"
    "eng_schemas g' = eng_schemas g" "eng_catalog g' = eng_catalog g" "next_txn_id (eng_mgr g') = next_txn_id (eng_mgr g) + 1"
    "o_view (obs (store (eng_mgr g'))) = o_view (obs (store (eng_mgr g)))" "o_next (obs (store (eng_mgr g'))) = o_next (obs (store (eng_mgr g)))"
    "o_max (obs (store (eng_mgr g'))) = o_max (obs (store (eng_mgr g)))"
proof -
  note found = that
  let ?i = "next_txn_id (eng_mgr g) + 1"
  have u: "table_locks (eng_mgr g) = (\<lambda>_. free_mutex)" "eng_waiting g = []" and ok: "repo_ok e h t (eng_schemas g) n m (repo_view g)"
    using rest by (simp_all add: at_rest_def)
  let ?s0 = "\<lparr>c_engine = begun g, c_txn = active ?i []\<rparr>"
  have rl: "read_locked (begun g) ?i ?s0"
    by (simp add: read_locked_def locks_ok_def)
  have w: "\<forall>tb \<in> set (table_names_of p). lock_free ReadLock tb (begun g)"
    by (simp add: lock_free_def u can_acquire_def free_mutex_def)
  obtain s where s: "read_lock_tables (table_names_of p) ?s0 = (Ok (), s)" "read_locked (begun g) ?i s"
    by (rule read_lock_tables_ok [OF rl w])
  let ?L = "table_locks (eng_mgr (c_engine s))" and ?es = "locks (c_txn s)"
  have sl: "s = \<lparr>c_engine = locked ?L g, c_txn = active ?i ?es\<rparr>"
    using s(2) by (auto simp: read_locked_def locked_def intro!: call.equality txn.equality)
  have lk: "lock_for p ?s0 = (Ok (), \<lparr>c_engine = locked ?L g, c_txn = active ?i ?es\<rparr>)"
    using s(1) sl by (simp add: lock_for_query [OF q])
  have held: "locks_held (active ?i ?es) ?L"
    using read_locked_held [OF s(2)] by (simp add: locks_held_def)
  have L: "writer (?L a) \<longleftrightarrow> lock_entry WriteLock a \<in> set ?es" "readers (?L a) = of_bool (lock_entry ReadLock a \<in> set ?es)" for a
    using s(2) u by (simp_all add: read_locked_def free_mutex_def)
  have rf: "reads_from e h t n m (locked ?L g) (locked ?L g)"
    using ok by (simp add: reads_from_def)
  obtain N v where v: "reads_from e h t n m (locked ?L g) v"
    "\<forall>k \<ge> N. execute_locked k (engine_repository n m) (\<lambda>_. False) p ?i (locked ?L g) = (answer t p g, v)"
    using engine_tables.execute_query [where e = e and h = h and t = t and n = n and m = m and g = "locked ?L g" and p = p and txn = ?i]
      q rd rf unfolding engine_tables.settles_def locked_fields by blast
  have d: "execute_ddl_or_marker p = None"
    using q by (cases p) auto
  show thesis
  proof (rule statement_commits [OF rest id lk d held L])
    show "execute_locked k (engine_repository n m) (\<lambda>_. False) p ?i (locked ?L g) = (Ok res, v)" if "N \<le> k" for k
      using v(2) ans that by simp
    show "table_locks (eng_mgr v) = ?L" "eng_waiting v = []" "eng_catalog v = eng_catalog g" "next_txn_id (eng_mgr v) = ?i"
      "repo_ok e h t (eng_schemas g) n m (repo_view v)" "wrote ?i (obs (store (eng_mgr g))) (obs (store (eng_mgr v)))"
      using v(1) u by (simp_all add: reads_from_def wrote_refl del: obs_fields)
    have "obs (store (eng_mgr v)) = obs (store (eng_mgr g))"
      using v(1) by (simp add: reads_from_def)
    then show thesis if g': "\<And>k. N \<le> k \<Longrightarrow> engine_execute k n m (\<lambda>_. False) p g = (Ok res, g')" "at_rest e h t n m g'"
      "eng_schemas g' = eng_schemas g" "eng_catalog g' = eng_catalog g" "next_txn_id (eng_mgr g') = ?i"
      "o_view (obs (store (eng_mgr g'))) = o_view (obs (store (eng_mgr v)))" "o_next (obs (store (eng_mgr g'))) = o_next (obs (store (eng_mgr v)))"
      "o_max (obs (store (eng_mgr g'))) = o_max (obs (store (eng_mgr g)))" for g'
      by (intro found [OF g'(1-5) _ _ g'(8)]) (simp_all only: g'(6,7))
  qed
qed

text \<open>When a table of an engine at rest takes a row.\<close>

definition takes_row :: "env \<Rightarrow> nat \<Rightarrow> tree \<Rightarrow> nat \<Rightarrow> nat \<Rightarrow> engine \<Rightarrow> bool" where
  "takes_row e h t n m g \<longleftrightarrow> at_rest e h t n m g \<and> fresh_empty (o_view (obs (store (eng_mgr g)))) t \<and>
     int (2 * h + 5) \<le> o_max (obs (store (eng_mgr g))) \<and> unat (o_next (obs (store (eng_mgr g)))) + Suc h < unat no_page_id \<and>
     Suc h < n \<and> 2 ^ 32 < m \<and> next_txn_id (eng_mgr g) \<noteq> - 1"

lemma takes_row_writable:
  assumes "takes_row e h t n m g"
  shows "writable e h t (eng_schemas g) n m (repo_view g)"
proof -
  note w = assms [unfolded takes_row_def at_rest_def]
  have st: "bt_store (repo_view g) = store (eng_mgr g)"
    by (simp add: repo_view_def)
  have "o_busy (obs (store (eng_mgr g))) = {}"
    using w by (simp add: o_busy_def del: obs_fields o_busy_obs)
  then have "room (2 * h + 5) (obs (store (eng_mgr g)))"
    using w by (simp add: room_def del: o_busy_obs obs_fields)
  then show ?thesis
    using w by (simp only: writable_def st obs_fields(1) simp_thms)
qed

lemma insert_runs:
  assumes row: "eval_literals vs = Ok row" and ins: "insert_into n tb row txn (repo_view u) = (Ok (), r)" and k: "2 \<le> k"
  shows "execute_locked k (engine_repository n m) (\<lambda>_. False) (InsertNode tb sch vs) txn u =
    (Ok \<lparr>res_rows = [], res_affected = 0, res_schema = Some sch\<rparr>, put_repo r u)"
proof -
  obtain j where j: "k = Suc (Suc j)"
    using le_Suc_ex [OF k] by auto
  have "repo_insert (engine_repository n m) tb row txn u = (Ok (), put_repo r u)"
    using ins by (simp add: engine_repository_def on_repo_def tree_repository_def Let_def)
  then show ?thesis
    using row by (simp add: j execute_locked_def bindG_def pureG_def insert_next_def ret_def)
qed

lemma insert_statement:
  assumes g: "takes_row e h t n m g" and sch: "eng_schemas g tb = Some sch" and row: "eval_literals vs = Ok row"
    and st: "storable e sch v row" "value_at row (primary_key_index sch) = Ok v" and new: "table_find (eng_schemas g) t tb v = None"
  obtains g' h' t' xs zs where
    "\<And>k. 2 \<le> k \<Longrightarrow> engine_execute k n m (\<lambda>_. False) (InsertNode tb sch' vs) g =
       (Ok \<lparr>res_rows = [], res_affected = 0, res_schema = Some sch'\<rparr>, g')"
    "at_rest e h' t' n m g'" "h' \<le> Suc h" "fresh_empty (o_view (obs (store (eng_mgr g')))) t'"
    "eng_schemas g' = eng_schemas g" "eng_catalog g' = eng_catalog g" "next_txn_id (eng_mgr g') = next_txn_id (eng_mgr g) + 1"
    "o_max (obs (store (eng_mgr g'))) = o_max (obs (store (eng_mgr g)))"
    "unat (o_next (obs (store (eng_mgr g')))) \<le> unat (o_next (obs (store (eng_mgr g)))) + h + 2"
    "\<forall>c \<in> set (tree_cells t'). c \<in> set (tree_cells t) \<or> fst (ckey c) = table_id sch"
    "table_rows (eng_schemas g) t tb = xs @ zs" "table_rows (eng_schemas g) t' = (table_rows (eng_schemas g) t)(tb := xs @ row # zs)"
    "table_find (eng_schemas g) t' = (table_find (eng_schemas g) t)(tb := (table_find (eng_schemas g) t tb)(v := Some row))"
proof -
  let ?i = "next_txn_id (eng_mgr g) + 1"
  note w = takes_row_writable [OF g]
  obtain r where r: "insert_into n tb row ?i (repo_view g) = (Ok (), r)"
    "put_row e (eng_schemas g) h t n m tb v row [] ?i (repo_view g) r"
    using insert_into_ok [OF w sch st new] by blast
  obtain h' t' xs zs where p: "repo_ok e h' t' (eng_schemas g) n m r" "h' \<le> Suc h" "fresh_empty (o_view (obs (bt_store r))) t'"
    "kept (Suc h) ?i t (obs (store (eng_mgr g))) (obs (bt_store r))" "table_rows (eng_schemas g) t tb = xs @ zs"
    "table_rows (eng_schemas g) t' = (table_rows (eng_schemas g) t)(tb := xs @ row # zs)"
    "table_find (eng_schemas g) t' = (table_find (eng_schemas g) t)(tb := (table_find (eng_schemas g) t tb)(v := Some row))"
    "\<forall>c \<in> set (tree_cells t'). c \<in> set (tree_cells t) \<or> fst (ckey c) = table_id sch"
    using r(2) sch by (auto simp: put_row_def repo_view_def)
  have run: "execute_locked k (engine_repository n m) (\<lambda>_. False) (InsertNode tb sch' vs) ?i u =
      (Ok \<lparr>res_rows = [], res_affected = 0, res_schema = Some sch'\<rparr>, put_repo r u)" if "2 \<le> k" "repo_view u = repo_view g" for u k
    using insert_runs [OF row _ that(1)] r(1) that(2) by simp
  have at: "at_rest e h t n m g" "next_txn_id (eng_mgr g) \<noteq> - 1"
    using g by (simp_all add: takes_row_def)
  show thesis
  proof (rule write_statement [OF at _ _ run p(1) kept_wrote [OF p(4)]])
    fix g' assume g': "\<And>k. 2 \<le> k \<Longrightarrow> engine_execute k n m (\<lambda>_. False) (InsertNode tb sch' vs) g =
        (Ok \<lparr>res_rows = [], res_affected = 0, res_schema = Some sch'\<rparr>, g')" "at_rest e h' t' n m g'"
      "eng_schemas g' = eng_schemas g" "eng_catalog g' = eng_catalog g" "next_txn_id (eng_mgr g') = ?i"
      "o_view (obs (store (eng_mgr g'))) = o_view (obs (bt_store r))" "o_next (obs (store (eng_mgr g'))) = o_next (obs (bt_store r))"
      "o_max (obs (store (eng_mgr g'))) = o_max (obs (store (eng_mgr g)))"
    show thesis
      using p(3,4) by (intro that [OF g'(1,2) p(2) _ g'(3,4,5,8) _ p(8,5,6,7)]) (simp_all add: g'(6,7) kept_def del: obs_fields)
  qed simp_all
qed


text \<open>\<open>CREATE TABLE\<close>. Its id is above those of the rows in the tree, so the table is empty.\<close>

lemma create_table_statement:
  assumes r: "repo_ok e h t (eng_schemas g) n m (repo_view g)" and c: "catalog_ok (eng_catalog g)" "next_table_id (eng_catalog g) \<noteq> - 1"
    and ids: "\<forall>c \<in> set (tree_cells t). fst (ckey c) < next_table_id (eng_catalog g)"
    and new: "\<forall>col \<in> set cols. type_ok (col_type col)" "map_of (schemas (eng_catalog g)) name = None" "can_write (eng_catalog g)"
  obtains g' where "\<And>k ctx. engine_execute k n m ctx (CreateTableNode name cols) g = (Ok empty_result, g')"
    "repo_ok e h t (eng_schemas g') n m (repo_view g')" "eng_mgr g' = eng_mgr g" "eng_waiting g' = eng_waiting g"
    "eng_schemas g' = (eng_schemas g)(name \<mapsto> \<lparr>table_name = name, table_id = next_table_id (eng_catalog g), columns = cols\<rparr>)"
    "map_of (schemas (eng_catalog g')) = (map_of (schemas (eng_catalog g)))
       (name \<mapsto> \<lparr>table_name = name, table_id = next_table_id (eng_catalog g), columns = cols\<rparr>)"
    "next_table_id (eng_catalog g') = next_table_id (eng_catalog g) + 1"
    "catalog_ok (eng_catalog g')" "synced (eng_catalog g')" "can_write (eng_catalog g')"
    "\<forall>c \<in> set (tree_cells t). fst (ckey c) < next_table_id (eng_catalog g')"
    "table_rows (eng_schemas g') t = (table_rows (eng_schemas g) t)(name := [])"
proof -
  let ?c = "eng_catalog g" and ?sch = "\<lparr>table_name = name, table_id = 0, columns = cols\<rparr>"
  let ?new = "?sch\<lparr>table_id := next_table_id ?c\<rparr>"
  obtain d where d: "create_table ?sch ?c = (Ok (), d)" "next_table_id d = next_table_id ?c + 1" "get_schema d name = Ok ?new"
    "map_of (schemas d) = (map_of (schemas ?c))(name \<mapsto> ?new)" "synced d" "can_write d"
    using new(2,3) by (auto simp: create_table_def Let_def save_def get_schema_def update_conv update_conv' synced_def catalog_to_json_def)
  have cd: "catalog_ok d"
    using create_table_ok [OF c, of ?sch] new(1) by (simp add: d(1))
  let ?g' = "put_repo ((repo_view g)\<lparr>open_schemas := (eng_schemas g)(name \<mapsto> ?new)\<rparr>) (g\<lparr>eng_catalog := d\<rparr>)"
  have v: "repo_view (g\<lparr>eng_catalog := d\<rparr>) = repo_view g" "open_schemas (repo_view g) = eng_schemas g"
    "bt_store (repo_view g) = store (eng_mgr g)"
    by (simp_all add: repo_view_def)
  have ex: "engine_execute k n m ctx (CreateTableNode name cols) g = (Ok empty_result, ?g')" for k ctx
    by (simp add: engine_execute_def bindG_def on_catalog_def on_repo_def d(1,3) v open_table_def)
  have free: "\<forall>c \<in> set (tree_cells t). fst (ckey c) \<noteq> next_table_id ?c"
    using ids by auto
  have lt: "\<forall>c \<in> set (tree_cells t). fst (ckey c) < next_table_id d"
    using ids next_id_grows(2) [OF c(2)] by (simp add: d(2))
  have ok: "repo_ok e h t (eng_schemas ?g') n m (repo_view ?g')"
    using r free by (auto simp: repo_ok_def v decodable_def)
  have rows: "table_rows (eng_schemas ?g') t = (table_rows (eng_schemas g) t)(name := [])"
    using free by (auto simp: table_rows_def rows_of_def filter_empty_conv fun_eq_iff)
  show thesis
    using d cd lt by (intro that [OF ex ok _ _ _ _ _ _ _ _ _ rows]) (simp_all add: put_repo_def v)
qed

end
