(* ===== verification/Engine_Delete.thy ===== *)
theory Engine_Delete
  imports Engine_Write
begin

text \<open>
  \<open>DELETE\<close> on an engine at rest: the loop of \<open>DeleteExecutor\<close> over the rows it has read, where every row has its own primary key
  (\<open>keyed\<close> of \<open>Relational\<close>, which insertion and deletion keep).
\<close>

section \<open>Deleting rows\<close>

lemma keyed_insert:
  assumes k: "keyed schs t tb" and sch: "schs tb = Some sch" and v: "value_at row (primary_key_index sch) = Ok v" "table_find schs t tb v = None"
    and t': "table_rows schs t tb = xs @ zs" "table_rows schs t' = (table_rows schs t)(tb := xs @ row # zs)"
      "table_find schs t' = (table_find schs t)(tb := (table_find schs t tb)(v := Some row))"
  shows "keyed schs t' tb"
proof -
  have "\<exists>w. value_at r (primary_key_index sch) = Ok w \<and> w \<noteq> v \<and> table_find schs t tb w = Some r" if "r \<in> set (xs @ zs)" for r
    using keyedD [OF k sch, of r] that v(2) t'(1) by (metis option.distinct(1))
  then have o: "\<forall>r \<in> set xs \<union> set zs. \<exists>w. value_at r (primary_key_index sch) = Ok w \<and> w \<noteq> v \<and> table_find schs t tb w = Some r"
    by simp
  moreover have "distinct (map (\<lambda>r. value_at r (primary_key_index sch)) (xs @ zs))"
    using k sch t'(1) by (simp add: keyed_def)
  moreover have "value_at r (primary_key_index sch) \<noteq> Ok v" if "r \<in> set xs \<union> set zs" for r
    using o that by (metis res.inject(1))
  ultimately show ?thesis
    using v(1) unfolding keyed_def t'(2,3) by (auto simp: sch) (metis imageE)+
qed

lemma keyed_other:
  "keyed schs t a \<Longrightarrow> table_rows schs t' a = table_rows schs t a \<Longrightarrow> table_find schs t' a = table_find schs t a \<Longrightarrow> keyed schs t' a"
  by (simp add: keyed_def)

lemma keyed_delete:
  assumes k: "keyed schs t tb" and sch: "schs tb = Some sch" and v: "value_at row (primary_key_index sch) = Ok v"
    and t': "table_rows schs t tb = xs @ row # zs" "table_rows schs t' = (table_rows schs t)(tb := xs @ zs)"
      "table_find schs t' = (table_find schs t)(tb := (table_find schs t tb)(v := None))"
  shows "keyed schs t' tb"
proof -
  have d: "distinct (map (\<lambda>r. value_at r (primary_key_index sch)) (xs @ row # zs))"
    using k sch t'(1) by (simp add: keyed_def)
  have "\<exists>w. value_at r (primary_key_index sch) = Ok w \<and> w \<noteq> v \<and> table_find schs t tb w = Some r" if r: "r \<in> set xs \<union> set zs" for r
  proof -
    obtain w where "value_at r (primary_key_index sch) = Ok w" "table_find schs t tb w = Some r"
      using keyedD [OF k sch, of r] r by (auto simp: t'(1))
    moreover have "value_at r (primary_key_index sch) \<noteq> Ok v"
      using d v r by (auto simp: image_iff)
    ultimately show ?thesis by blast
  qed
  then show ?thesis
    using d unfolding keyed_def t'(2,3) by (auto simp: sch) metis+
qed

lemma found_key_fits:
  assumes "repo_ok e h t schs n m r" "table_find schs t tb v \<noteq> None"
  shows "key_fits e schs tb v"
proof (unfold key_fits_def, intro allI impI)
  fix sch assume sch: "schs tb = Some sch"
  then obtain c where c: "c \<in> set (tree_cells t)" "ckey c = (table_id sch, v)"
    using assms(2) table_find_None by (metis imageE)
  moreover have "leaf_in e None None (tree_cells t)"
    using assms(1) by (auto simp: repo_ok_def btree_ok_def intro: tree_in_cells)
  ultimately show "ckey_ok (key_kinds e) (table_id sch, v)"
    using c by (metis leaf_in_def cell_in_env_def key_in_env_def)
qed

lemma delete_rows_ok:
  assumes "repo_ok e h t schs n m r" and ids: "ids_distinct schs" and m: "2 ^ 32 < m" and sch: "schs tb = Some sch"
    and "keyed schs t tb" "set rs \<subseteq> set (table_rows schs t tb)" "distinct rs" "\<forall>x \<in> set rs. where_holds wh x sch = Ok (P x)"
    and "room (length rs + 1) (obs (bt_store r))"
  shows "\<exists>r' t'. delete_rows (tree_repository n m) tb sch wh txn rs r = (Ok (), r') \<and> repo_ok e h t' schs n m r' \<and>
    wrote txn (obs (bt_store r)) (obs (bt_store r')) \<and> set (tree_cells t') \<subseteq> set (tree_cells t) \<and> keyed schs t' tb \<and>
    table_rows schs t' = (table_rows schs t)(tb := filter (\<lambda>x. x \<in> set rs \<longrightarrow> \<not> P x) (table_rows schs t tb)) \<and>
    (\<forall>a. a \<noteq> tb \<longrightarrow> table_find schs t' a = table_find schs t a)"
  using assms(1,5-9)
proof (induction rs arbitrary: r t)
  case Nil
  then show ?case
    by (intro exI [of _ r] exI [of _ t]) (simp add: ret_def wrote_refl)
next
  case (Cons x rs)
  have sub: "set rs \<subseteq> set (table_rows schs t tb)" "distinct rs" "\<forall>x \<in> set rs. where_holds wh x sch = Ok (P x)"
    and room: "room (length rs + 1) (obs (bt_store r))"
    using Cons.prems room_less [of "length (x # rs) + 1" _ "length rs + 1"] by auto
  have wx: "where_holds wh x sch = Ok (P x)"
    using Cons.prems(5) by simp
  show ?case
  proof (cases "P x")
    case False
    have "filter (\<lambda>y. y \<in> set (x # rs) \<longrightarrow> \<not> P y) (table_rows schs t tb) = filter (\<lambda>y. y \<in> set rs \<longrightarrow> \<not> P y) (table_rows schs t tb)"
      using False by (intro filter_cong) auto
    then show ?thesis
      using Cons.IH [OF Cons.prems(1,2) sub room] by (simp add: bindG_def pureG_def wx False)
  next
    case True
    obtain v where v: "value_at x (primary_key_index sch) = Ok v" "table_find schs t tb v = Some x"
      using keyedD [OF Cons.prems(2) sch] Cons.prems(3) by auto
    have r2: "room 2 (obs (bt_store r))"
      using Cons.prems(6) room_less [of "length (x # rs) + 1" _ 2] by simp
    obtain r1 t1 xs zs where d: "delete_from n tb v txn r = (Ok (), r1)" "repo_ok e h t1 schs n m r1"
      "kept 0 txn t (obs (bt_store r)) (obs (bt_store r1))" "set (tree_cells t1) \<subseteq> set (tree_cells t)"
      "table_rows schs t tb = xs @ x # zs" "table_rows schs t1 = (table_rows schs t)(tb := xs @ zs)"
      "table_find schs t1 = (table_find schs t)(tb := (table_find schs t tb)(v := None))"
      using delete_from_ok [OF Cons.prems(1) ids m r2 sch found_key_fits [OF Cons.prems(1)] v(2), of txn] v(2) by auto
    have k1: "keyed schs t1 tb"
      by (rule keyed_delete [OF Cons.prems(2) sch v(1) d(5-7)])
    have nx: "x \<notin> set (xs @ zs)"
      using keyed_distinct [OF Cons.prems(2) sch] by (simp add: d(5))
    have s1: "set rs \<subseteq> set (table_rows schs t1 tb)"
      using Cons.prems(3,4) by (auto simp: d(5,6))
    have "room (length rs + 1) (obs (bt_store r1))"
      using Cons.prems(6) d(3) by (simp add: room_def kept_def)
    then obtain r' t' where t': "delete_rows (tree_repository n m) tb sch wh txn rs r1 = (Ok (), r')" "repo_ok e h t' schs n m r'"
      "wrote txn (obs (bt_store r1)) (obs (bt_store r'))" "set (tree_cells t') \<subseteq> set (tree_cells t1)" "keyed schs t' tb"
      "table_rows schs t' = (table_rows schs t1)(tb := filter (\<lambda>x. x \<in> set rs \<longrightarrow> \<not> P x) (table_rows schs t1 tb))"
      "\<forall>a. a \<noteq> tb \<longrightarrow> table_find schs t' a = table_find schs t1 a"
      using Cons.IH [OF d(2) k1 s1 sub(2,3)] by blast
    have f: "filter (\<lambda>y. y \<in> set (x # rs) \<longrightarrow> \<not> P y) (table_rows schs t tb) = filter (\<lambda>y. y \<in> set rs \<longrightarrow> \<not> P y) (xs @ zs)"
      using True nx by (simp add: d(5)) (intro arg_cong2 [where f = append] filter_cong; auto)
    have "delete_rows (tree_repository n m) tb sch wh txn (x # rs) r = (Ok (), r')"
      using d(1) t'(1) by (simp add: bindG_def pureG_def wx True v(1)) (simp add: tree_repository_def)
    moreover have "table_rows schs t' = (table_rows schs t)(tb := filter (\<lambda>y. y \<in> set (x # rs) \<longrightarrow> \<not> P y) (table_rows schs t tb))"
      unfolding f by (simp add: t'(6) d(6))
    ultimately show ?thesis
      using t'(2-5,7) d(4,7) wrote_trans [OF kept_wrote [OF d(3)] t'(3)] by (intro exI [of _ r'] exI [of _ t']) auto
  qed
qed


text \<open>The executors reach the tree through the engine.\<close>

lemma put_repo_put [simp]: "put_repo r (put_repo r' g) = put_repo r g"
  by (simp add: put_repo_def)

lemma put_repo_same [simp]: "put_repo (repo_view g) g = g"
  by (simp add: put_repo_def repo_view_def)

lemma on_repo_bind: "bindG (on_repo f) (\<lambda>x. on_repo (k x)) = on_repo (bindG f k)"
  by (auto simp: fun_eq_iff bindG_def on_repo_def split: prod.splits res.splits)

lemma on_repo_pure [simp]: "on_repo (pureG x) = pureG x" "on_repo (ret y) = ret y"
  by (auto simp: on_repo_def pureG_def ret_def fun_eq_iff)

lemma engine_delete_rows:
  "delete_rows (engine_repository n m) tb sch wh txn rs = on_repo (delete_rows (tree_repository n m) tb sch wh txn rs)"
proof (induction rs)
  case (Cons x rs)
  have if': "(if b then on_repo f else on_repo f') = on_repo (if b then f else f')" for b and f f' :: "(btree_repository, unit) go"
    by simp
  have d: "repo_delete (engine_repository n m) tb v txn = on_repo (repo_delete (tree_repository n m) tb v txn)" for v
    by (simp add: engine_repository_def Let_def)
  show ?case
    unfolding delete_rows.simps d Cons.IH on_repo_bind [symmetric] on_repo_pure if' [symmetric] ..
qed (simp only: delete_rows.simps on_repo_pure)

lemma delete_statement:
  assumes g: "at_rest e h t n m g" "next_txn_id (eng_mgr g) \<noteq> - 1" "2 ^ 32 < m" and sch: "eng_schemas g tb = Some sch"
    and k: "keyed (eng_schemas g) t tb" "\<forall>x \<in> set (table_rows (eng_schemas g) t tb). where_holds wh x sch = Ok (P x)"
    and room: "int (length (table_rows (eng_schemas g) t tb) + 1) \<le> o_max (obs (store (eng_mgr g)))"
  obtains g' t' where
    "\<And>k. 2 \<le> k \<Longrightarrow> engine_execute k n m (\<lambda>_. False) (DeleteNode tb sch wh) g =
       (Ok \<lparr>res_rows = [], res_affected = 0, res_schema = Some sch\<rparr>, g')"
    "at_rest e h t' n m g'" "eng_schemas g' = eng_schemas g" "eng_catalog g' = eng_catalog g" "next_txn_id (eng_mgr g') = next_txn_id (eng_mgr g) + 1"
    "o_max (obs (store (eng_mgr g'))) = o_max (obs (store (eng_mgr g)))" "keyed (eng_schemas g) t' tb" "set (tree_cells t') \<subseteq> set (tree_cells t)"
    "table_rows (eng_schemas g) t' = (table_rows (eng_schemas g) t)(tb := filter (\<lambda>x. \<not> P x) (table_rows (eng_schemas g) t tb))"
    "\<forall>a. a \<noteq> tb \<longrightarrow> table_find (eng_schemas g) t' a = table_find (eng_schemas g) t a"
proof -
  let ?i = "next_txn_id (eng_mgr g) + 1" and ?rows = "table_rows (eng_schemas g) t tb"
  note a = g(1) [unfolded at_rest_def]
  have st: "bt_store (repo_view g) = store (eng_mgr g)"
    by (simp add: repo_view_def)
  obtain r0 where r0: "scan_rows n m tb (repo_view g) = (Ok ?rows, r0)" "repo_ok e h t (eng_schemas g) n m r0"
    "obs (bt_store r0) = obs (store (eng_mgr g))"
    using repo_reads(1) [OF conjunct1 [OF a] sch] by (auto simp: st)
  have "o_busy (obs (bt_store r0)) = {}"
    using a by (simp add: o_busy_def r0(3) del: obs_fields o_busy_obs)
  then have rm: "room (length ?rows + 1) (obs (bt_store r0))"
    using room by (simp add: room_def r0(3) del: o_busy_obs obs_fields)
  obtain r t' where r: "delete_rows (tree_repository n m) tb sch wh ?i ?rows r0 = (Ok (), r)" "repo_ok e h t' (eng_schemas g) n m r"
    "wrote ?i (obs (bt_store r0)) (obs (bt_store r))" "set (tree_cells t') \<subseteq> set (tree_cells t)" "keyed (eng_schemas g) t' tb"
    "table_rows (eng_schemas g) t' = (table_rows (eng_schemas g) t)(tb := filter (\<lambda>x. x \<in> set ?rows \<longrightarrow> \<not> P x) ?rows)"
    "\<forall>a. a \<noteq> tb \<longrightarrow> table_find (eng_schemas g) t' a = table_find (eng_schemas g) t a"
    using delete_rows_ok [OF r0(2) conjunct1 [OF conjunct2 [OF a]] g(3) sch k(1) order_refl keyed_distinct [OF k(1) sch] k(2) rm, of ?i] by blast
  have run: "execute_locked k (engine_repository n m) (\<lambda>_. False) (DeleteNode tb sch wh) ?i u =
      (Ok \<lparr>res_rows = [], res_affected = 0, res_schema = Some sch\<rparr>, put_repo r u)" if k: "2 \<le> k" and u: "repo_view u = repo_view g" for u k
  proof -
    obtain j where j: "k = Suc (Suc j)"
      using le_Suc_ex [OF k] by auto
    have "repo_scan (engine_repository n m) tb u = (Ok ?rows, put_repo r0 u)"
      using r0(1) u by (simp add: engine_repository_def on_repo_def tree_repository_def Let_def)
    moreover have "delete_rows (engine_repository n m) tb sch wh ?i ?rows (put_repo r0 u) = (Ok (), put_repo r u)"
      by (simp add: engine_delete_rows on_repo_def r(1))
    ultimately show ?thesis
      by (simp add: j execute_locked_def bindG_def pureG_def delete_next_def ret_def)
  qed
  have f: "filter (\<lambda>x. x \<in> set ?rows \<longrightarrow> \<not> P x) ?rows = filter (\<lambda>x. \<not> P x) ?rows"
    by (intro filter_cong) auto
  show thesis
  proof (rule write_statement [OF g(1,2) _ _ run r(2) r(3) [unfolded r0(3)]])
    fix g' assume g': "\<And>k. 2 \<le> k \<Longrightarrow> engine_execute k n m (\<lambda>_. False) (DeleteNode tb sch wh) g =
        (Ok \<lparr>res_rows = [], res_affected = 0, res_schema = Some sch\<rparr>, g')" "at_rest e h t' n m g'"
      "eng_schemas g' = eng_schemas g" "eng_catalog g' = eng_catalog g" "next_txn_id (eng_mgr g') = ?i"
      "o_max (obs (store (eng_mgr g'))) = o_max (obs (store (eng_mgr g)))"
    show thesis
      by (rule that [OF g'(1-6) r(5,4,6,7) [unfolded f]])
  qed simp_all
qed

end
