(* ===== verification/Lexer.thy ===== *)
theory Lexer
  imports Decimal
begin

text \<open>
  \<open>sql/lexer/lexer.go\<close>: from the bytes of a statement to its tokens, with line and column. The loops of
  the lexer advance while a condition on the current byte holds (\<open>advance_while\<close>). \<open>strings.ToUpper\<close> is
  modelled on ASCII letters, which is all the lexer calls it on.
\<close>

section \<open>Tokens\<close>

datatype token_type =
    SELECT | FROM | WHERE | INSERT | INTO | VALUES | UPDATE | SET | DELETE | CREATE | TABLE | DROP | JOIN | ON
  | AND_TOK | OR_TOK | NOT_TOK | IS | NULL | PRIMARY | KEY | BEGIN | COMMIT | ROLLBACK | ORDER | BY | ASC | DESC
  | LIMIT | INNER | TRUE | FALSE
  | IDENT | INT_LIT | STR_LIT
  | EQ | NEQ | LT | GT | LTE | GTE | ASTERISK | DOT
  | COMMA | SEMICOLON | LPAREN | RPAREN
  | EOF | ILLEGAL

definition keyword_table :: "(string \<times> token_type) list" where
  "keyword_table =
     [(''SELECT'', SELECT), (''FROM'', FROM), (''WHERE'', WHERE), (''INSERT'', INSERT), (''INTO'', INTO),
      (''VALUES'', VALUES), (''UPDATE'', UPDATE), (''SET'', SET), (''DELETE'', DELETE), (''CREATE'', CREATE),
      (''TABLE'', TABLE), (''DROP'', DROP), (''JOIN'', JOIN), (''ON'', ON), (''AND'', AND_TOK), (''OR'', OR_TOK),
      (''NOT'', NOT_TOK), (''IS'', IS), (''NULL'', NULL), (''PRIMARY'', PRIMARY), (''KEY'', KEY), (''BEGIN'', BEGIN),
      (''COMMIT'', COMMIT), (''ROLLBACK'', ROLLBACK), (''ORDER'', ORDER), (''BY'', BY), (''ASC'', ASC),
      (''DESC'', DESC), (''LIMIT'', LIMIT), (''INNER'', INNER), (''TRUE'', TRUE), (''FALSE'', FALSE)]"

record token =
  tok_type :: token_type
  tok_literal :: string
  tok_line :: nat
  tok_col :: nat

record lexer =
  lx_input :: string
  lx_pos :: nat
  lx_line :: nat
  lx_col :: nat

definition new_lexer :: "string \<Rightarrow> lexer" where
  "new_lexer s = \<lparr>lx_input = s, lx_pos = 0, lx_line = 1, lx_col = 1\<rparr>"

section \<open>Characters\<close>

definition is_letter :: "char \<Rightarrow> bool" where
  "is_letter c \<longleftrightarrow> (97 \<le> (of_char c :: nat) \<and> (of_char c :: nat) \<le> 122) \<or> (65 \<le> (of_char c :: nat) \<and> (of_char c :: nat) \<le> 90)"

definition is_space :: "char \<Rightarrow> bool" where
  "is_space c \<longleftrightarrow> c = CHR '' '' \<or> c = CHR 0x09 \<or> c = CHR 0x0D \<or> c = CHR 0x0A"

definition is_ident_char :: "char \<Rightarrow> bool" where
  "is_ident_char c \<longleftrightarrow> is_letter c \<or> is_digit_char c \<or> c = CHR ''_''"

definition upper_char :: "char \<Rightarrow> char" where
  "upper_char c = (if 97 \<le> (of_char c :: nat) \<and> (of_char c :: nat) \<le> 122 then char_of ((of_char c :: nat) - 32) else c)"

definition to_upper :: "string \<Rightarrow> string" where
  "to_upper = map upper_char"

text \<open>\<open>string(ch)\<close> of a byte is the UTF-8 encoding of the code point with that number.\<close>

definition rune_string :: "char \<Rightarrow> string" where
  "rune_string c =
     (let n = of_char c :: nat in
      if n < 128 then [c] else [char_of (192 + n div 64), char_of (128 + n mod 64)])"

section \<open>Moving through the input\<close>

definition lx_advance :: "lexer \<Rightarrow> lexer" where
  "lx_advance l =
     (if lx_pos l < length (lx_input l) \<and> lx_input l ! lx_pos l = CHR 0x0A
      then l\<lparr>lx_line := lx_line l + 1, lx_col := 1, lx_pos := lx_pos l + 1\<rparr>
      else l\<lparr>lx_col := lx_col l + 1, lx_pos := lx_pos l + 1\<rparr>)"

function advance_while :: "(char \<Rightarrow> bool) \<Rightarrow> lexer \<Rightarrow> lexer" where
  "advance_while P l =
     (if lx_pos l < length (lx_input l) \<and> P (lx_input l ! lx_pos l) then advance_while P (lx_advance l) else l)"
  by pat_completeness auto
termination
  by (relation "measure (\<lambda>(P, l). length (lx_input l) - lx_pos l)") (auto simp: lx_advance_def)

declare advance_while.simps [simp del]

text \<open>\<open>l.input[start:l.pos]\<close>.\<close>

definition lexeme :: "nat \<Rightarrow> lexer \<Rightarrow> string" where
  "lexeme start l = take (lx_pos l - start) (drop start (lx_input l))"

definition skip_whitespace :: "lexer \<Rightarrow> lexer" where
  "skip_whitespace l = advance_while is_space l"

section \<open>Reading a token\<close>

definition read_ident :: "lexer \<Rightarrow> token \<times> lexer" where
  "read_ident l =
     (let l' = advance_while is_ident_char l;
          lit = lexeme (lx_pos l) l';
          upper = to_upper lit
      in case map_of keyword_table upper of
           Some tt \<Rightarrow> (\<lparr>tok_type = tt, tok_literal = upper, tok_line = lx_line l, tok_col = lx_col l\<rparr>, l')
         | None \<Rightarrow> (\<lparr>tok_type = IDENT, tok_literal = lit, tok_line = lx_line l, tok_col = lx_col l\<rparr>, l'))"

definition read_int :: "lexer \<Rightarrow> token \<times> lexer" where
  "read_int l =
     (let l' = advance_while is_digit_char l in
      (\<lparr>tok_type = INT_LIT, tok_literal = lexeme (lx_pos l) l', tok_line = lx_line l, tok_col = lx_col l\<rparr>, l'))"

definition read_string :: "lexer \<Rightarrow> token \<times> lexer" where
  "read_string l =
     (let l1 = lx_advance l;
          l2 = advance_while (\<lambda>c. c \<noteq> CHR 0x27) l1;
          l3 = (if lx_pos l2 < length (lx_input l2) then lx_advance l2 else l2)
      in (\<lparr>tok_type = STR_LIT, tok_literal = lexeme (lx_pos l1) l2, tok_line = lx_line l, tok_col = lx_col l\<rparr>, l3))"

text \<open>The \<open>switch\<close> over the operators and the punctuation: \<open>two\<close> says whether the next byte is \<open>=\<close>.\<close>

definition symbol :: "char \<Rightarrow> bool \<Rightarrow> token_type \<times> string \<times> bool" where
  "symbol ch two =
     (if ch = CHR ''='' then (EQ, ''='', False)
      else if ch = CHR ''!'' then (if two then (NEQ, ''!='', True) else (ILLEGAL, ''!'', False))
      else if ch = CHR ''<'' then (if two then (LTE, ''<='', True) else (LT, ''<'', False))
      else if ch = CHR ''>'' then (if two then (GTE, ''>='', True) else (GT, ''>'', False))
      else if ch = CHR ''*'' then (ASTERISK, ''*'', False)
      else if ch = CHR ''.'' then (DOT, ''.'', False)
      else if ch = CHR '','' then (COMMA, '','', False)
      else if ch = CHR '';'' then (SEMICOLON, '';'', False)
      else if ch = CHR ''('' then (LPAREN, ''('', False)
      else if ch = CHR '')'' then (RPAREN, '')'', False)
      else (ILLEGAL, rune_string ch, False))"

definition read_symbol :: "lexer \<Rightarrow> token \<times> lexer" where
  "read_symbol l =
     (let l1 = lx_advance l in
      case symbol (lx_input l ! lx_pos l) (lx_pos l1 < length (lx_input l1) \<and> lx_input l1 ! lx_pos l1 = CHR ''='') of
        (tt, lit, again) \<Rightarrow>
          (\<lparr>tok_type = tt, tok_literal = lit, tok_line = lx_line l, tok_col = lx_col l\<rparr>,
           if again then lx_advance l1 else l1))"

definition next_token :: "lexer \<Rightarrow> token \<times> lexer" where
  "next_token l0 =
     (let l = skip_whitespace l0 in
      if lx_pos l \<ge> length (lx_input l)
      then (\<lparr>tok_type = EOF, tok_literal = [], tok_line = lx_line l, tok_col = lx_col l\<rparr>, l)
      else
        let ch = lx_input l ! lx_pos l in
        if ch = CHR 0x27 then read_string l
        else if is_digit_char ch then read_int l
        else if is_letter ch \<or> ch = CHR ''_'' then read_ident l
        else read_symbol l)"

section \<open>Progress\<close>

text \<open>What is left to read.\<close>

definition remaining :: "lexer \<Rightarrow> string" where
  "remaining l = drop (lx_pos l) (lx_input l)"

lemma remaining_Nil [simp]: "remaining l = [] \<longleftrightarrow> length (lx_input l) \<le> lx_pos l"
  by (simp add: remaining_def)

lemma lx_input_advance [simp]: "lx_input (lx_advance l) = lx_input l" "lx_pos (lx_advance l) = Suc (lx_pos l)"
  by (simp_all add: lx_advance_def)

lemma remaining_Cons: "lx_pos l < length (lx_input l) \<Longrightarrow> remaining l = lx_input l ! lx_pos l # remaining (lx_advance l)"
  by (simp add: remaining_def Cons_nth_drop_Suc)

lemma remaining_advance:
  assumes "remaining l = c # s"
  shows "remaining (lx_advance l) = s"
proof -
  have "lx_pos l < length (lx_input l)"
    using assms by (metis list.distinct(1) not_le remaining_Nil)
  then show ?thesis
    using assms remaining_Cons by auto
qed

lemma stop_at_head: "xs = [] \<or> \<not> P (hd xs) \<Longrightarrow> dropWhile P xs = xs \<and> takeWhile P xs = []"
  by (cases xs) auto

lemma advance_while_ok:
  "remaining (advance_while P l) = dropWhile P (remaining l) \<and> lx_input (advance_while P l) = lx_input l \<and>
   lx_pos l \<le> lx_pos (advance_while P l) \<and> lexeme (lx_pos l) (advance_while P l) = takeWhile P (remaining l)"
proof (induction P l rule: advance_while.induct)
  case (1 P l)
  show ?case
  proof (cases "lx_pos l < length (lx_input l) \<and> P (lx_input l ! lx_pos l)")
    case True
    let ?l' = "advance_while P (lx_advance l)"
    have a: "advance_while P l = ?l'"
      using True by (simp add: advance_while.simps [of P l])
    note IH = 1 [OF True]
    have "lexeme (lx_pos l) ?l' = lx_input l ! lx_pos l # lexeme (Suc (lx_pos l)) ?l'"
    proof -
      have "drop (lx_pos l) (lx_input l) = lx_input l ! lx_pos l # drop (Suc (lx_pos l)) (lx_input l)"
        using True by (simp add: Cons_nth_drop_Suc)
      moreover have "lx_pos ?l' - lx_pos l = Suc (lx_pos ?l' - Suc (lx_pos l))" "lx_input ?l' = lx_input l"
        using IH by auto
      ultimately show ?thesis
        by (simp add: lexeme_def)
    qed
    then show ?thesis
      using IH True by (simp add: a remaining_Cons)
  next
    case False
    have a: "advance_while P l = l"
      by (simp only: advance_while.simps [of P l] False if_False)
    have "remaining l = [] \<or> \<not> P (hd (remaining l))"
      using False by (cases "lx_pos l < length (lx_input l)") (auto simp: remaining_Cons)
    then have "dropWhile P (remaining l) = remaining l" "takeWhile P (remaining l) = []"
      using stop_at_head by blast+
    then show ?thesis
      by (simp add: a lexeme_def)
  qed
qed

lemmas remaining_advance_while = advance_while_ok [THEN conjunct1]
lemmas lexeme_advance_while = advance_while_ok [THEN conjunct2, THEN conjunct2, THEN conjunct2]

lemma lx_input_advance_while [simp]: "lx_input (advance_while P l) = lx_input l"
  using advance_while_ok by blast

lemma remaining_length: "length (remaining l) = length (lx_input l) - lx_pos l"
  by (simp add: remaining_def)

text \<open>One token on the text that is left: its type and literal, and the text after it.\<close>

definition lex_one :: "string \<Rightarrow> token_type \<times> string \<times> string" where
  "lex_one s0 =
     (let s = dropWhile is_space s0 in
      case s of
        [] \<Rightarrow> (EOF, [], [])
      | c # s' \<Rightarrow>
          if c = CHR 0x27
          then (STR_LIT, takeWhile (\<lambda>d. d \<noteq> CHR 0x27) s', drop 1 (dropWhile (\<lambda>d. d \<noteq> CHR 0x27) s'))
          else if is_digit_char c then (INT_LIT, takeWhile is_digit_char s, dropWhile is_digit_char s)
          else if is_letter c \<or> c = CHR ''_''
          then (case map_of keyword_table (to_upper (takeWhile is_ident_char s)) of
                  Some tt \<Rightarrow> (tt, to_upper (takeWhile is_ident_char s), dropWhile is_ident_char s)
                | None \<Rightarrow> (IDENT, takeWhile is_ident_char s, dropWhile is_ident_char s))
          else case symbol c (s' \<noteq> [] \<and> hd s' = CHR ''='') of
                 (tt, lit, again) \<Rightarrow> (tt, lit, if again then drop 1 s' else s'))"

lemma remaining_skip: "remaining (skip_whitespace l) = dropWhile is_space (remaining l)"
  by (simp add: skip_whitespace_def remaining_advance_while)

lemma symbol_again: "symbol c b = (tt, lit, again) \<Longrightarrow> again \<Longrightarrow> b"
  by (auto simp: symbol_def split: if_splits)

lemma next_token_lex_one:
  assumes "next_token l = (t, l')"
  shows "lex_one (remaining l) = (tok_type t, tok_literal t, remaining l')" "lx_input l' = lx_input l"
proof -
  let ?l = "skip_whitespace l"
  have inp: "lx_input ?l = lx_input l"
    by (simp add: skip_whitespace_def)
  have "lex_one (remaining l) = (tok_type t, tok_literal t, remaining l') \<and> lx_input l' = lx_input l"
  proof (cases "remaining ?l")
    case Nil
    have "lex_one (remaining l) = (EOF, [], [])"
      unfolding lex_one_def Let_def remaining_skip [symmetric] Nil by simp
    moreover have "length (lx_input ?l) \<le> lx_pos ?l"
      using Nil by simp
    ultimately have "lex_one (remaining l) = (EOF, [], [])" "length (lx_input ?l) \<le> lx_pos ?l" .
    then show ?thesis
      using assms Nil by (auto simp: next_token_def Let_def inp eq_commute [of "[]"])
  next
    case (Cons c s')
    then have lt: "lx_pos ?l < length (lx_input ?l)"
      by (metis list.distinct(1) not_le remaining_Nil)
    have c: "lx_input ?l ! lx_pos ?l = c" "remaining (lx_advance ?l) = s'"
      using remaining_Cons [OF lt] Cons by auto
    have at: "(lx_pos m < length (lx_input m) \<and> lx_input m ! lx_pos m = x) \<longleftrightarrow> (remaining m \<noteq> [] \<and> hd (remaining m) = x)" for m x
      by (cases "lx_pos m < length (lx_input m)") (auto simp: remaining_Cons)
    note l = next_token_def lex_one_def Let_def remaining_skip [symmetric] Cons inp
    note ls = lexeme_advance_while [where l = "?l"] lexeme_advance_while [where l = "lx_advance ?l"]
    consider "c = CHR 0x27" | "c \<noteq> CHR 0x27" "is_digit_char c" | "c \<noteq> CHR 0x27" "\<not> is_digit_char c" "is_letter c \<or> c = CHR ''_''"
      | "c \<noteq> CHR 0x27" "\<not> is_digit_char c" "\<not> (is_letter c \<or> c = CHR ''_'')"
      by blast
    then show ?thesis
    proof cases
      case 1
      have d: "remaining (if lx_pos m < length (lx_input m) then lx_advance m else m) = drop 1 (remaining m)" for m
        by (cases "lx_pos m < length (lx_input m)") (auto simp: remaining_Cons remaining_def)
      then show ?thesis
        using assms lt 1 c ls(2) d [of "advance_while (\<lambda>c. c \<noteq> CHR 0x27) (lx_advance ?l)"]
        by (auto simp: l read_string_def remaining_advance_while if_distrib [of lx_input] cong: if_cong split del: if_split)
    next
      case 2
      then show ?thesis
        using assms lt c ls(1) by (auto simp: l read_int_def remaining_advance_while)
    next
      case 3
      then show ?thesis
        using assms lt c ls(1) by (auto simp: l read_ident_def remaining_advance_while split: option.splits)
    next
      case 4
      have "drop 1 s' = remaining (lx_advance (lx_advance ?l))" if "s' \<noteq> []"
        using that c(2) remaining_advance [of "lx_advance ?l" "hd s'" "tl s'"] by (cases s') auto
      moreover obtain tt lit again where sy: "symbol c (s' \<noteq> [] \<and> hd s' = CHR ''='') = (tt, lit, again)"
        by (rule prod_cases3)
      moreover have "again \<Longrightarrow> s' \<noteq> []"
        using symbol_again [OF sy] by blast
      moreover have "next_token l =
        (\<lparr>tok_type = tt, tok_literal = lit, tok_line = lx_line ?l, tok_col = lx_col ?l\<rparr>,
         if again then lx_advance (lx_advance ?l) else lx_advance ?l)"
        using lt 4 c sy by (simp only: next_token_def Let_def read_symbol_def at) (simp add: inp)
      moreover have "lex_one (remaining l) = (tt, lit, if again then drop 1 s' else s')"
        using 4 sy by (simp only: l) simp
      ultimately show ?thesis
        using assms c(2) by (auto simp: inp)
    qed
  qed
  then show "lex_one (remaining l) = (tok_type t, tok_literal t, remaining l')" "lx_input l' = lx_input l"
    by blast+
qed

section \<open>Tokenizing\<close>

lemma takeWhile_dropWhile_length: "length (takeWhile P xs) + length (dropWhile P xs) = length xs"
  by (metis length_append takeWhile_dropWhile_id)

lemma lex_one_progress:
  assumes "lex_one s0 = (tt, lit, r)" "tt \<noteq> EOF"
  shows "length r < length s0"
proof -
  let ?s = "dropWhile is_space s0"
  have ws: "length ?s \<le> length s0"
    by (rule length_dropWhile_le)
  obtain c s' where s: "?s = c # s'"
    using assms by (cases ?s) (auto simp: lex_one_def)
  have d: "length (dropWhile P s') \<le> length s'" for P
    by (rule length_dropWhile_le)
  have w: "P c \<Longrightarrow> length (dropWhile P ?s) < length ?s" for P
    using d [of P] by (simp add: s)
  have i: "is_letter c \<or> c = CHR ''_'' \<Longrightarrow> is_ident_char c"
    by (auto simp: is_ident_char_def)
  show ?thesis
  proof (cases "c = CHR 0x27 \<or> is_digit_char c \<or> is_letter c \<or> c = CHR ''_''")
    case True
    have "length r < length ?s"
      using True assms(1) d [of "\<lambda>d. d \<noteq> CHR 0x27"] w [of is_digit_char] w [of is_ident_char] i
      by (auto simp: lex_one_def Let_def s split: if_splits option.splits)
    then show ?thesis
      using ws by simp
  next
    case False
    then obtain again where "r = (if again then drop 1 s' else s')"
      using assms(1) by (auto simp: lex_one_def Let_def s split: prod.splits)
    then show ?thesis
      using ws s by (auto split: if_splits)
  qed
qed

function tokenize :: "lexer \<Rightarrow> token list" where
  "tokenize l =
     (case next_token l of (tok, l') \<Rightarrow> if tok_type tok = EOF then [tok] else tok # tokenize l')"
  by pat_completeness auto
termination
proof (relation "measure (\<lambda>l. length (remaining l))")
  fix l tok l' x y
  assume "(tok, l') = next_token l" "tok_type tok \<noteq> EOF"
  then show "(l', l) \<in> measure (\<lambda>l. length (remaining l))"
    using lex_one_progress [OF next_token_lex_one(1)] by (metis in_measure)
qed simp

declare tokenize.simps [simp del]

text \<open>The types and literals alone are a function of the text.\<close>

function lex_text :: "string \<Rightarrow> (token_type \<times> string) list" where
  "lex_text s =
     (case lex_one s of (tt, lit, r) \<Rightarrow> if tt = EOF then [(tt, lit)] else (tt, lit) # lex_text r)"
  by pat_completeness auto
termination
  by (relation "measure length") (auto dest: lex_one_progress [OF sym])

declare lex_text.simps [simp del]

definition lexed :: "token \<Rightarrow> token_type \<times> string" where
  "lexed t = (tok_type t, tok_literal t)"

lemma tokenize_lex_text: "map lexed (tokenize l) = lex_text (remaining l)"
proof (induction l rule: tokenize.induct)
  case (1 l)
  obtain t l' where n: "next_token l = (t, l')"
    by (cases "next_token l")
  note o = next_token_lex_one(1) [OF n]
  show ?case
    using 1 [OF n [symmetric]] by (simp add: tokenize.simps [of l] lex_text.simps [of "remaining l"] n o lexed_def)
qed

lemma keyword_not_EOF: "map_of keyword_table k = Some tt \<Longrightarrow> tt \<noteq> EOF"
  by (drule map_of_SomeD) (auto simp: keyword_table_def)

lemma lex_one_EOF: "lex_one s = (EOF, lit, r) \<Longrightarrow> lit = [] \<and> dropWhile is_space s = []"
  by (auto simp: lex_one_def Let_def symbol_def split: list.splits if_splits option.splits prod.splits dest: keyword_not_EOF)

text \<open>The token list ends with the only \<open>EOF\<close>.\<close>

lemma lex_text_ends: "\<exists>ts. lex_text s = ts @ [(EOF, [])] \<and> EOF \<notin> fst ` set ts \<and> length ts \<le> length s"
proof (induction s rule: lex_text.induct)
  case (1 s)
  obtain tt lit r where o: "lex_one s = (tt, lit, r)"
    by (rule prod_cases3)
  show ?case
  proof (cases "tt = EOF")
    case True
    then show ?thesis
      using o lex_one_EOF [of s lit r] by (simp add: lex_text.simps [of s])
  next
    case False
    then obtain ts where "lex_text r = ts @ [(EOF, [])]" "EOF \<notin> fst ` set ts" "length ts \<le> length r"
      using 1 [OF o [symmetric] refl] by blast
    then show ?thesis
      using False lex_one_progress [OF o False] by (intro exI [of _ "(tt, lit) # ts"]) (auto simp: lex_text.simps [of s] o)
  qed
qed

section \<open>Lines and columns\<close>

definition line_at :: "string \<Rightarrow> nat \<Rightarrow> nat" where
  "line_at s n = 1 + length (filter (\<lambda>c. c = CHR 0x0A) (take n s))"

definition col_at :: "string \<Rightarrow> nat \<Rightarrow> nat" where
  "col_at s n = 1 + length (takeWhile (\<lambda>c. c \<noteq> CHR 0x0A) (rev (take n s)))"

definition in_place :: "lexer \<Rightarrow> bool" where
  "in_place l \<longleftrightarrow> lx_pos l \<le> length (lx_input l) \<and> lx_line l = line_at (lx_input l) (lx_pos l) \<and>
     lx_col l = col_at (lx_input l) (lx_pos l)"

lemma in_place_advance: "in_place l \<Longrightarrow> lx_pos l < length (lx_input l) \<Longrightarrow> in_place (lx_advance l)"
  by (auto simp: in_place_def lx_advance_def line_at_def col_at_def take_Suc_conv_app_nth)

lemma in_place_while: "in_place l \<Longrightarrow> in_place (advance_while P l)"
proof (induction P l rule: advance_while.induct)
  case (1 P l)
  then show ?case
    by (subst advance_while.simps) (auto intro: in_place_advance)
qed

lemma next_token_place:
  assumes "next_token l = (t, l')" "in_place l"
  shows "in_place l' \<and> (\<exists>n \<le> length (lx_input l). tok_line t = line_at (lx_input l) n \<and> tok_col t = col_at (lx_input l) n \<and>
    drop n (lx_input l) = dropWhile is_space (remaining l))"
proof -
  let ?l = "skip_whitespace l"
  have inp: "lx_input ?l = lx_input l"
    by (simp add: skip_whitespace_def)
  have p: "in_place ?l"
    unfolding skip_whitespace_def by (rule in_place_while [OF assms(2)])
  have r: "drop (lx_pos ?l) (lx_input l) = dropWhile is_space (remaining l)"
    using remaining_skip [of l] by (simp add: remaining_def inp)
  have t: "tok_line t = lx_line ?l \<and> tok_col t = lx_col ?l"
    using assms(1) by (auto simp: next_token_def Let_def read_string_def read_int_def read_ident_def read_symbol_def
      split: if_splits option.splits prod.splits)
  have "in_place l'"
  proof (cases "lx_pos ?l < length (lx_input l)")
    case False
    then show ?thesis
      using assms(1) p by (auto simp: next_token_def Let_def inp)
  next
    case True
    then have a: "in_place (lx_advance ?l)"
      using in_place_advance [OF p] by (simp add: inp)
    have b: "lx_pos m < length (lx_input m) \<Longrightarrow> in_place m \<Longrightarrow> in_place (lx_advance m)" for m
      using in_place_advance by blast
    have str: "in_place (snd (read_string ?l))"
      using b in_place_while [OF a] by (auto simp: read_string_def Let_def)
    have sy: "in_place (snd (read_symbol ?l))"
    proof -
      let ?m = "lx_advance ?l"
      obtain tt lit again where s: "symbol (lx_input ?l ! lx_pos ?l)
          (lx_pos ?m < length (lx_input ?m) \<and> lx_input ?m ! lx_pos ?m = CHR ''='') = (tt, lit, again)"
        by (rule prod_cases3)
      have "again \<Longrightarrow> lx_pos ?m < length (lx_input ?m)"
        using symbol_again [OF s] by blast
      then show ?thesis
        using a b [OF _ a] by (simp only: read_symbol_def Let_def s) (cases again; simp)
    qed
    have other: "in_place (snd (read_int ?l))" "in_place (snd (read_ident ?l))"
      using in_place_while [OF p] by (auto simp: read_int_def read_ident_def Let_def split: option.splits)
    have "next_token l \<in> {read_string ?l, read_int ?l, read_ident ?l, read_symbol ?l}"
      using True by (simp add: next_token_def Let_def inp)
    then have "in_place (snd (next_token l))"
      using str sy other by (elim insertE emptyE) simp_all
    then show ?thesis
      by (simp add: assms(1))
  qed
  then show ?thesis
    using p t r by (intro conjI exI [of _ "lx_pos ?l"]) (simp_all add: in_place_def inp)
qed

lemma tokenize_places:
  assumes "in_place l" "t \<in> set (tokenize l)"
  shows "\<exists>n \<le> length (lx_input l). tok_line t = line_at (lx_input l) n \<and> tok_col t = col_at (lx_input l) n \<and>
    (\<exists>r. lex_one (drop n (lx_input l)) = (tok_type t, tok_literal t, r)) \<and>
    (n < length (lx_input l) \<longrightarrow> \<not> is_space (lx_input l ! n))"
  using assms
proof (induction l rule: tokenize.induct)
  case (1 l)
  obtain u l' where n: "next_token l = (u, l')"
    by (cases "next_token l")
  note o = next_token_lex_one [OF n]
  obtain k where k: "in_place l'" "k \<le> length (lx_input l)" "tok_line u = line_at (lx_input l) k" "tok_col u = col_at (lx_input l) k"
    "drop k (lx_input l) = dropWhile is_space (remaining l)"
    using next_token_place [OF n "1.prems"(1)] by blast
  show ?case
  proof (cases "t = u")
    case True
    have "lex_one (drop k (lx_input l)) = lex_one (remaining l)"
      by (simp add: lex_one_def k(5))
    moreover have "\<not> is_space (lx_input l ! k)" if "k < length (lx_input l)"
      using hd_dropWhile [of is_space "remaining l"] hd_drop_conv_nth [OF that] that unfolding k(5) [symmetric] by simp
    ultimately show ?thesis
      using k True o(1) by (intro exI [of _ k]) simp
  next
    case False
    then have "tok_type u \<noteq> EOF" "t \<in> set (tokenize l')"
      using "1.prems"(2) by (simp_all add: tokenize.simps [of l] n split: if_splits)
    then show ?thesis
      using "1.IH" [OF n [symmetric]] k(1) o(2) by simp
  qed
qed

section \<open>Writing tokens\<close>

text \<open>The text of a token, and which pairs of type and literal are tokens at all.\<close>

definition token_text :: "token_type \<times> string \<Rightarrow> string" where
  "token_text t = (case t of (tt, lit) \<Rightarrow> if tt = STR_LIT then CHR 0x27 # lit @ [CHR 0x27] else lit)"

definition symbol_table :: "(token_type \<times> string) list" where
  "symbol_table =
     [(EQ, ''=''), (NEQ, ''!=''), (LT, ''<''), (GT, ''>''), (LTE, ''<=''), (GTE, ''>=''), (ASTERISK, ''*''),
      (DOT, ''.''), (COMMA, '',''), (SEMICOLON, '';''), (LPAREN, ''(''), (RPAREN, '')'')]"

definition ident_ok :: "string \<Rightarrow> bool" where
  "ident_ok s \<longleftrightarrow> s \<noteq> [] \<and> list_all is_ident_char s \<and> \<not> is_digit_char (hd s) \<and> map_of keyword_table (to_upper s) = None"

definition valid_token :: "token_type \<times> string \<Rightarrow> bool" where
  "valid_token t = (case t of (tt, lit) \<Rightarrow>
     (lit, tt) \<in> set keyword_table \<or> (tt, lit) \<in> set symbol_table \<or> (tt = IDENT \<and> ident_ok lit) \<or>
     (tt = INT_LIT \<and> lit \<noteq> [] \<and> list_all is_digit_char lit) \<or> (tt = STR_LIT \<and> CHR 0x27 \<notin> set lit))"

text \<open>A text of tokens, each with the space that follows it.\<close>

fun layout :: "((token_type \<times> string) \<times> string) list \<Rightarrow> string" where
  "layout [] = []"
| "layout ((t, w) # ts) = token_text t @ w @ layout ts"

definition spacing :: "string \<Rightarrow> bool" where
  "spacing w \<longleftrightarrow> w \<noteq> [] \<and> list_all is_space w"

lemma stops_at: "list_all P xs \<Longrightarrow> \<not> P c \<Longrightarrow> takeWhile P (xs @ c # ys) = xs \<and> dropWhile P (xs @ c # ys) = c # ys"
  by (simp add: takeWhile_append dropWhile_append list_all_iff takeWhile_eq_all_conv)

lemma to_quote: "CHR 0x27 \<notin> set xs \<Longrightarrow> takeWhile (\<lambda>d. d \<noteq> CHR 0x27) (xs @ CHR 0x27 # ys) = xs \<and>
  dropWhile (\<lambda>d. d \<noteq> CHR 0x27) (xs @ CHR 0x27 # ys) = CHR 0x27 # ys"
  by (induction xs) auto

lemma space_not:
  assumes "is_space c"
  shows "\<not> is_digit_char c" "\<not> is_letter c" "\<not> is_ident_char c" "c \<noteq> CHR ''=''" "c \<noteq> CHR 0x27"
  using assms by (auto simp: is_space_def is_digit_char_def is_letter_def is_ident_char_def)

lemma not_space:
  "is_digit_char c \<Longrightarrow> \<not> is_space c" "is_letter c \<Longrightarrow> \<not> is_space c" "is_ident_char c \<Longrightarrow> \<not> is_space c"
  using space_not by blast+

lemma keyword_chars: "(lit, tt) \<in> set keyword_table \<Longrightarrow>
  lit \<noteq> [] \<and> list_all is_ident_char lit \<and> \<not> is_digit_char (hd lit) \<and> is_letter (hd lit) \<and> to_upper lit = lit \<and>
  map_of keyword_table lit = Some tt \<and> tt \<noteq> STR_LIT \<and> tt \<noteq> EOF"
  by (simp only: keyword_table_def list.set insert_iff prod.inject empty_iff, elim disjE conjE FalseE; hypsubst_thin; code_simp)

lemma ident_head: "list_all is_ident_char (c # s) \<Longrightarrow> \<not> is_digit_char c \<Longrightarrow> is_letter c \<or> c = CHR ''_''"
  by (auto simp: is_ident_char_def)

lemma lex_one_valid:
  assumes "valid_token t" "is_space c"
  shows "lex_one (token_text t @ c # s) = (fst t, snd t, c # s)"
proof -
  obtain tt lit where t: "t = (tt, lit)"
    by (cases t)
  note c = space_not [OF assms(2)]
  consider (str) "tt = STR_LIT" "CHR 0x27 \<notin> set lit" | (num) "tt = INT_LIT" "lit \<noteq> []" "list_all is_digit_char lit"
    | (word) "tt \<noteq> STR_LIT" "lit \<noteq> []" "list_all is_ident_char lit" "\<not> is_digit_char (hd lit)"
        "(case map_of keyword_table (to_upper lit) of None \<Rightarrow> tt = IDENT | Some k \<Rightarrow> k = tt \<and> to_upper lit = lit)"
    | (sym) "(tt, lit) \<in> set symbol_table"
    using assms(1) keyword_chars [of lit tt] by (auto simp: t valid_token_def ident_ok_def)
  then show ?thesis
  proof cases
    case str
    have q: "\<not> is_space CHR 0x27"
      by (simp add: is_space_def)
    have "takeWhile (\<lambda>d. d \<noteq> CHR 0x27) (lit @ CHR 0x27 # c # s) = lit"
      "dropWhile (\<lambda>d. d \<noteq> CHR 0x27) (lit @ CHR 0x27 # c # s) = CHR 0x27 # c # s"
      using to_quote [OF str(2)] by simp_all
    then show ?thesis
      using str q by (simp add: t token_text_def lex_one_def Let_def)
  next
    case num
    then obtain d ds where l: "lit = d # ds" "is_digit_char d"
      by (cases lit) auto
    have "takeWhile is_digit_char (lit @ c # s) = lit" "dropWhile is_digit_char (lit @ c # s) = c # s"
      using stops_at [of is_digit_char lit c s] num c by auto
    moreover have "d \<noteq> CHR 0x27"
      using l(2) by (auto simp: is_digit_char_def)
    ultimately show ?thesis
      using num l not_space(1) [OF l(2)] by (simp add: t token_text_def lex_one_def Let_def)
  next
    case word
    then obtain d ds where l: "lit = d # ds"
      by (cases lit) auto
    have d: "is_letter d \<or> d = CHR ''_''" "\<not> is_digit_char d" "is_ident_char d"
      using word(3,4) ident_head by (auto simp: l)
    have q: "d \<noteq> CHR 0x27"
      using d by (auto simp: is_letter_def)
    have w: "takeWhile is_ident_char (lit @ c # s) = lit" "dropWhile is_ident_char (lit @ c # s) = c # s"
      using stops_at [of is_ident_char lit c s] word c by auto
    have dw: "dropWhile is_space (lit @ c # s) = lit @ c # s"
      using not_space(3) [OF d(3)] by (simp add: l)
    have "lex_one (lit @ c # s) = (case map_of keyword_table (to_upper lit) of
        Some tt \<Rightarrow> (tt, to_upper lit, c # s) | None \<Rightarrow> (IDENT, lit, c # s))"
      unfolding lex_one_def Let_def dw w using d q by (simp add: l)
    then show ?thesis
      using word(1,5) by (auto simp: t token_text_def split: option.splits)
  next
    case sym
    have h: "hd (c # s) \<noteq> CHR ''=''"
      using c by simp
    then show ?thesis
      using sym c unfolding symbol_table_def t
      by (auto simp: token_text_def lex_one_def Let_def symbol_def is_space_def is_digit_char_def is_letter_def)
  qed
qed

lemma valid_not_EOF: "valid_token t \<Longrightarrow> fst t \<noteq> EOF"
  by (cases t) (auto simp: valid_token_def symbol_table_def dest: keyword_chars)

lemma lex_one_skip: "list_all is_space w \<Longrightarrow> lex_one (w @ s) = lex_one s"
  by (simp add: lex_one_def dropWhile_append2 list_all_iff)

lemma lex_layout:
  assumes "\<forall>(t, w) \<in> set ts. valid_token t \<and> spacing w"
  shows "list_all is_space w0 \<Longrightarrow> lex_text (w0 @ layout ts) = map fst ts @ [(EOF, [])]"
  using assms
proof (induction ts arbitrary: w0)
  case Nil
  then have "lex_one w0 = (EOF, [], [])"
    using lex_one_skip [of w0 "[]"] by (simp add: lex_one_def)
  then show ?case
    by (simp add: lex_text.simps [of w0])
next
  case (Cons p ts)
  obtain t w where p: "p = (t, w)"
    by (cases p)
  obtain c w' where w: "w = c # w'" "is_space c" "list_all is_space w"
    using Cons.prems(2) by (cases w) (auto simp: p spacing_def)
  have t: "valid_token t"
    using Cons.prems(2) by (simp add: p)
  have "lex_one (w0 @ layout (p # ts)) = (fst t, snd t, w @ layout ts)"
    using lex_one_skip [OF Cons.prems(1)] lex_one_valid [OF t w(2), of "w' @ layout ts"] by (simp add: p w(1))
  moreover have "lex_text (w @ layout ts) = map fst ts @ [(EOF, [])]"
    using Cons w(3) by simp
  ultimately show ?case
    using valid_not_EOF [OF t] by (subst lex_text.simps) (simp add: p)
qed

lemma tokenize_laid_out:
  assumes "\<forall>(t, w) \<in> set ts. valid_token t \<and> spacing w"
  shows "map lexed (tokenize (new_lexer (layout ts))) = map fst ts @ [(EOF, [])]"
  using tokenize_lex_text [of "new_lexer (layout ts)"] lex_layout [OF assms, of "[]"] by (simp add: remaining_def new_lexer_def)

section \<open>Properties\<close>

text \<open>The lexer reads every input to its end: \<open>Tokenize\<close> returns at most one token per byte and then
  \<open>EOF\<close>, which is the last token and the only one of its type.\<close>

theorem tokenize_ends:
  "\<exists>ts e. tokenize (new_lexer s) = ts @ [e] \<and> tok_type e = EOF \<and> EOF \<notin> tok_type ` set ts \<and> length ts \<le> length s"
proof -
  have m: "map lexed (tokenize (new_lexer s)) = lex_text s"
    using tokenize_lex_text [of "new_lexer s"] by (simp add: remaining_def new_lexer_def)
  obtain ts where ts: "lex_text s = ts @ [(EOF, [])]" "EOF \<notin> fst ` set ts" "length ts \<le> length s"
    using lex_text_ends by blast
  let ?X = "tokenize (new_lexer s)"
  have ne: "?X \<noteq> []"
    using m ts(1) by auto
  have u: "map lexed (butlast ?X) = ts" "lexed (last ?X) = (EOF, [])"
    using m ts(1) ne by (simp_all add: map_butlast flip: last_map)
  have "EOF \<notin> tok_type ` set (butlast ?X)"
    using ts(2) unfolding u(1) [symmetric] by (force simp: lexed_def)
  moreover have "length (butlast ?X) \<le> length s"
    using ts(3) u(1) by (metis length_map)
  moreover have "?X = butlast ?X @ [last ?X]"
    using ne by simp
  ultimately show ?thesis
    using u(2) by (intro exI [of _ "butlast ?X"] exI [of _ "last ?X"]) (simp add: lexed_def)
qed

text \<open>Lexing undoes writing: whatever white space follows the tokens of a text, \<open>Tokenize\<close> gives their types and
  literals back, keywords in upper case, strings without their quotes, then \<open>EOF\<close>.\<close>

theorem tokenize_layout:
  assumes "\<forall>(t, w) \<in> set ts. valid_token t \<and> spacing w"
  shows "map lexed (tokenize (new_lexer (layout ts))) = map fst ts @ [(EOF, [])]"
  by (rule tokenize_laid_out [OF assms])

text \<open>C38. Lines and columns: every token carries the line and the column of the byte its text starts at, that is of a
  place in the input, not white space, where reading a token gives its type and literal.\<close>

theorem tokens_in_place:
  assumes "t \<in> set (tokenize (new_lexer s))"
  shows "\<exists>n \<le> length s. tok_line t = line_at s n \<and> tok_col t = col_at s n \<and>
    (\<exists>r. lex_one (drop n s) = (tok_type t, tok_literal t, r)) \<and> (n < length s \<longrightarrow> \<not> is_space (s ! n))"
  using tokenize_places [of "new_lexer s" t] assms
  by (simp add: in_place_def new_lexer_def line_at_def col_at_def)

text \<open>An unterminated string literal is no error: at the end of the input it gives the same tokens as the literal
  with its closing quote.\<close>

theorem unterminated_string_accepted:
  assumes "CHR 0x27 \<notin> set s"
  shows "map lexed (tokenize (new_lexer (CHR 0x27 # s))) = [(STR_LIT, s), (EOF, [])] \<and>
    map lexed (tokenize (new_lexer (CHR 0x27 # s @ [CHR 0x27]))) = [(STR_LIT, s), (EOF, [])]"
proof -
  have r: "remaining (new_lexer x) = x" for x
    by (simp add: remaining_def new_lexer_def)
  have w: "takeWhile (\<lambda>d. d \<noteq> CHR 0x27) s = s" "dropWhile (\<lambda>d. d \<noteq> CHR 0x27) s = []"
    using assms by (auto simp: takeWhile_eq_all_conv)
  have q: "takeWhile (\<lambda>d. d \<noteq> CHR 0x27) (s @ [CHR 0x27]) = s" "dropWhile (\<lambda>d. d \<noteq> CHR 0x27) (s @ [CHR 0x27]) = [CHR 0x27]"
    using to_quote [OF assms] by simp_all
  have "lex_one (CHR 0x27 # s) = (STR_LIT, s, [])" "lex_one (CHR 0x27 # s @ [CHR 0x27]) = (STR_LIT, s, [])"
    by (simp_all add: lex_one_def is_space_def w q)
  moreover have "lex_text [] = [(EOF, [])]"
    by (simp add: lex_text.simps [of "[]"] lex_one_def)
  ultimately show ?thesis
    unfolding tokenize_lex_text r by (simp add: lex_text.simps [of "CHR 0x27 # _"])
qed

subsection \<open>Witnesses\<close>

theorem tokenize_layout_witness:
  "map lexed (tokenize (new_lexer (layout [((SELECT, ''SELECT''), '' ''), ((IDENT, ''id''), '' ''), ((GTE, ''>=''), '' ''), ((STR_LIT, ''x y''), '' '')]))) =
    [(SELECT, ''SELECT''), (IDENT, ''id''), (GTE, ''>=''), (STR_LIT, ''x y''), (EOF, [])]"
proof -
  have "\<forall>(t, w) \<in> set [((SELECT, ''SELECT''), '' ''), ((IDENT, ''id''), '' ''), ((GTE, ''>=''), '' ''), ((STR_LIT, ''x y''), '' '')].
      valid_token t \<and> spacing w"
    by code_simp
  from tokenize_layout [OF this] show ?thesis by simp
qed

theorem tokens_in_place_witness:
  "\<exists>n \<le> 3. tok_line (last (tokenize (new_lexer ''a b''))) = line_at ''a b'' n \<and> tok_col (last (tokenize (new_lexer ''a b''))) = col_at ''a b'' n"
proof -
  have "tokenize (new_lexer ''a b'') \<noteq> []"
    by (subst tokenize.simps) (auto split: prod.split)
  then have "last (tokenize (new_lexer ''a b'')) \<in> set (tokenize (new_lexer ''a b''))"
    by (rule last_in_set)
  from tokens_in_place [OF this] show ?thesis
    by (auto simp: numeral_3_eq_3)
qed

theorem unterminated_string_accepted_witness:
  "map lexed (tokenize (new_lexer (CHR 0x27 # ''Bob''))) = [(STR_LIT, ''Bob''), (EOF, [])]"
  using unterminated_string_accepted [of "''Bob''"] by simp

end
