(* ===== verification/Parser.thy ===== *)
theory Parser
  imports Lexer Ast
begin

text \<open>
  \<open>sql/parser/parser.go\<close>: recursive descent with a Pratt parser for expressions. Errors are collected while
  parsing goes on; the text of their messages is not modelled. Expressions, lists and assignments always
  end (\<open>function\<close> with a termination proof). The loop over the attributes of a column may not end, so
  \<open>CREATE TABLE\<close> is parsed with fuel, \<open>None\<close> when it runs out.
\<close>

section \<open>State\<close>

datatype parse_error_kind =
    UnexpectedToken | UnexpectedEOF | MissingToken | MissingColumnList | MissingFromClause | MissingJoinTable
  | MissingJoinCondition | MissingCondition | MissingTableName | MissingColumnDef | InvalidDataType
  | DuplicatePrimaryKey | InvalidLiteral

record parse_error =
  pe_kind :: parse_error_kind
  pe_line :: nat
  pe_col :: nat

record parser =
  ps_tokens :: "token list"
  ps_pos :: nat
  ps_errors :: "parse_error list"

definition new_parser :: "token list \<Rightarrow> parser" where
  "new_parser ts = \<lparr>ps_tokens = ts, ps_pos = 0, ps_errors = []\<rparr>"

section \<open>Helpers\<close>

definition cur :: "parser \<Rightarrow> token" where
  "cur p = (if ps_pos p \<ge> length (ps_tokens p) then \<lparr>tok_type = EOF, tok_literal = [], tok_line = 0, tok_col = 0\<rparr>
            else ps_tokens p ! ps_pos p)"

abbreviation cur_type :: "parser \<Rightarrow> token_type" where
  "cur_type p \<equiv> tok_type (cur p)"

definition ps_advance :: "parser \<Rightarrow> parser" where
  "ps_advance p = (if ps_pos p < length (ps_tokens p) then p\<lparr>ps_pos := ps_pos p + 1\<rparr> else p)"

definition add_error :: "parse_error_kind \<Rightarrow> token \<Rightarrow> parser \<Rightarrow> parser" where
  "add_error k t p = p\<lparr>ps_errors := ps_errors p @ [\<lparr>pe_kind = k, pe_line = tok_line t, pe_col = tok_col t\<rparr>]\<rparr>"

definition expect_with_error :: "token_type \<Rightarrow> parse_error_kind \<Rightarrow> parser \<Rightarrow> bool \<times> parser" where
  "expect_with_error tt k p = (if cur_type p = tt then (True, ps_advance p) else (False, add_error k (cur p) p))"

definition expect :: "token_type \<Rightarrow> parser \<Rightarrow> bool \<times> parser" where
  "expect tt p = (if cur_type p = tt then (True, ps_advance p) else (False, add_error MissingToken (cur p) p))"

abbreviation skip :: "token_type \<Rightarrow> parser \<Rightarrow> parser" where
  "skip tt p \<equiv> snd (expect tt p)"

definition expect_ident :: "parser \<Rightarrow> string \<times> parser" where
  "expect_ident p =
     (if cur_type p \<noteq> IDENT then ([], add_error UnexpectedToken (cur p) p) else (tok_literal (cur p), ps_advance p))"

text \<open>\<open>strconv.ParseInt\<close> and \<open>Atoi\<close> without their error: an integer literal of the lexer is made of digits, and a
  number that is too large gives the largest one.\<close>

definition parse_int :: "string \<Rightarrow> int" where
  "parse_int s = min (2 ^ 63 - 1) (int (read_nat s))"

section \<open>Expressions\<close>

definition prec_lowest :: nat where "prec_lowest = 0"
definition prec_or :: nat where "prec_or = 1"
definition prec_and :: nat where "prec_and = 2"
definition prec_not :: nat where "prec_not = 3"
definition prec_compare :: nat where "prec_compare = 4"

lemmas precs = prec_lowest_def prec_or_def prec_and_def prec_not_def prec_compare_def

fun token_prec :: "token_type \<Rightarrow> nat" where
  "token_prec OR_TOK = prec_or"
| "token_prec AND_TOK = prec_and"
| "token_prec EQ = prec_compare"
| "token_prec NEQ = prec_compare"
| "token_prec LT = prec_compare"
| "token_prec GT = prec_compare"
| "token_prec LTE = prec_compare"
| "token_prec GTE = prec_compare"
| "token_prec _ = prec_lowest"

fun token_to_op :: "token_type \<Rightarrow> operator_type" where
  "token_to_op NEQ = OpNEQ"
| "token_to_op LT = OpLT"
| "token_to_op GT = OpGT"
| "token_to_op LTE = OpLTE"
| "token_to_op GTE = OpGTE"
| "token_to_op AND_TOK = OpAND"
| "token_to_op OR_TOK = OpOR"
| "token_to_op _ = OpEQ"

text \<open>\<open>binary_loop\<close> is the loop of \<open>parseExpr\<close> over the operators that bind tighter than \<open>min\<close>.\<close>

function parse_expr :: "nat \<Rightarrow> parser \<Rightarrow> expr \<times> parser"
  and parse_primary :: "parser \<Rightarrow> expr \<times> parser"
  and binary_loop :: "nat \<Rightarrow> expr \<Rightarrow> parser \<Rightarrow> expr \<times> parser" where
  "parse_expr min_prec p =
     (case (if cur_type p = NOT_TOK
            then (case parse_expr prec_not (ps_advance p) of (operand, q) \<Rightarrow> (UnaryExpr ''NOT'' operand, q))
            else parse_primary p) of
        (left, q) \<Rightarrow>
          if cur_type q = IS
          then (let q1 = ps_advance q in
                if cur_type q1 = NOT_TOK then (IsNotNullExpr left, skip NULL (ps_advance q1))
                else (IsNullExpr left, skip NULL q1))
          else binary_loop min_prec left q)"
| "parse_primary p =
     (let tok = cur p; q = ps_advance p in
      case tok_type tok of
        INT_LIT \<Rightarrow> (IntLiteral (word_of_int (parse_int (tok_literal tok))), q)
      | STR_LIT \<Rightarrow> (StringLiteral (tok_literal tok), q)
      | TRUE \<Rightarrow> (BoolLiteral True, q)
      | FALSE \<Rightarrow> (BoolLiteral False, q)
      | NULL \<Rightarrow> (NullLiteral, q)
      | ASTERISK \<Rightarrow> (Wildcard, q)
      | IDENT \<Rightarrow>
          if cur_type q = DOT
          then (case expect_ident (ps_advance q) of (col, r) \<Rightarrow> (Identifier (tok_literal tok) col, r))
          else (Identifier [] (tok_literal tok), q)
      | LPAREN \<Rightarrow> (case parse_expr prec_lowest q of (e, r) \<Rightarrow> (e, skip RPAREN r))
      | _ \<Rightarrow> (NullLiteral, ps_advance (add_error UnexpectedToken tok p)))"
| "binary_loop min_prec left p =
     (let prec = token_prec (cur_type p) in
      if prec \<le> min_prec then (left, p)
      else (case parse_expr prec (ps_advance p) of
              (right, q) \<Rightarrow> binary_loop min_prec (BinaryExpr left (token_to_op (cur_type p)) right) q))"
  by pat_completeness auto

text \<open>Parsing never goes back: what is left of the tokens does not grow.\<close>

definition left :: "parser \<Rightarrow> nat" where
  "left p = length (ps_tokens p) - ps_pos p"

lemma left_advance: "left (ps_advance p) = left p - 1"
  by (simp add: left_def ps_advance_def)

lemma left_advance_less: "cur_type p \<noteq> EOF \<Longrightarrow> left (ps_advance p) < left p"
  by (auto simp: left_def ps_advance_def cur_def split: if_splits)

lemma left_simps [simp]:
  "left (add_error k t p) = left p" "left (p\<lparr>ps_errors := es\<rparr>) = left p"
  by (simp_all add: left_def add_error_def)

lemma left_le [intro, simp]:
  "left (ps_advance p) \<le> left p" "left (snd (expect tt p)) \<le> left p" "left (snd (expect_with_error tt k p)) \<le> left p"
  "left (snd (expect_ident p)) \<le> left p"
  by (simp_all add: left_advance expect_def expect_with_error_def expect_ident_def)

lemma prec_not_EOF: "\<not> token_prec (cur_type p) \<le> n \<Longrightarrow> cur_type p \<noteq> EOF"
  by (auto simp: precs)

lemma parse_partial_left:
  "parse_expr_parse_primary_binary_loop_dom (Inl (n, p)) \<Longrightarrow> left (snd (parse_expr n p)) \<le> left p"
  "parse_expr_parse_primary_binary_loop_dom (Inr (Inl p)) \<Longrightarrow> left (snd (parse_primary p)) \<le> left p"
  "parse_expr_parse_primary_binary_loop_dom (Inr (Inr (n, e, p))) \<Longrightarrow> left (snd (binary_loop n e p)) \<le> left p"
proof (induction n p and p and n e p rule: parse_expr_parse_primary_binary_loop.pinduct)
  case (1 n p)
  obtain l q where lq: "(if cur_type p = NOT_TOK
      then (case parse_expr prec_not (ps_advance p) of (operand, q) \<Rightarrow> (UnaryExpr ''NOT'' operand, q))
      else parse_primary p) = (l, q)"
    by fastforce
  have q: "left q \<le> left p"
    using lq 1(2,3) order.trans [OF _ left_le(1) [of p]] by (auto split: if_splits prod.splits)
  have "left (snd (binary_loop n l q)) \<le> left q" if "cur_type q \<noteq> IS"
    using 1(4) lq that by auto
  then show ?case
    using q lq order.trans [OF left_le(2) order.trans [OF left_le(1) order.trans [OF left_le(1) q]]]
      order.trans [OF left_le(2) order.trans [OF left_le(1) q]]
    by (simp only: parse_expr.psimps [OF 1(1)] lq prod.case) (auto simp: Let_def)
next
  case (2 p)
  show ?case
  proof (cases "cur_type p = LPAREN")
    case True
    obtain e r where er: "parse_expr prec_lowest (ps_advance p) = (e, r)"
      by fastforce
    have "left r \<le> left (ps_advance p)"
      using 2(2) [OF refl refl True] er by simp
    then have "left (skip RPAREN r) \<le> left p"
      using order.trans [OF left_le(2) order.trans [OF _ left_le(1)]] by blast
    then show ?thesis
      using True er by (simp add: parse_primary.psimps [OF 2(1)] Let_def)
  next
    case False
    have c: "left (snd (expect_ident (ps_advance (ps_advance p)))) \<le> left p"
      by (rule order.trans [OF left_le(4) order.trans [OF left_le(1) left_le(1)]])
    have d: "left (ps_advance (add_error k t p)) \<le> left p" for k t
      using left_le(1) [of "add_error k t p"] by simp
    show ?thesis
      using False c d by (auto simp: parse_primary.psimps [OF 2(1)] Let_def split: token_type.split prod.splits)
  qed
next
  case (3 n e p)
  show ?case
  proof (cases "token_prec (cur_type p) \<le> n")
    case True
    then show ?thesis
      by (simp add: binary_loop.psimps [OF 3(1)] Let_def)
  next
    case False
    obtain r q where rq: "parse_expr (token_prec (cur_type p)) (ps_advance p) = (r, q)"
      by fastforce
    have "left q \<le> left p"
      using 3(2) [OF refl False] rq order.trans [OF _ left_le(1)] by simp
    moreover have "left (snd (binary_loop n (BinaryExpr e (token_to_op (cur_type p)) r) q)) \<le> left q"
      using 3(3) [OF refl False rq [symmetric]] .
    ultimately show ?thesis
      using False rq by (simp add: binary_loop.psimps [OF 3(1)] Let_def)
  qed
qed

lemma parse_always_ends: "All parse_expr_parse_primary_binary_loop_dom"
proof (rule "parse_expr_parse_primary_binary_loop.termination" [of "measure (\<lambda>x. case x of Inl (n, p) \<Rightarrow> 3 * left p + 2 | Inr (Inl p) \<Rightarrow> 3 * left p + 1 | Inr (Inr (n, e, p)) \<Rightarrow> 3 * left p)"],
    goal_cases)
  case 1
  then show ?case by simp
next
  case (2 n p)
  then show ?case
    using left_advance_less [of p] by simp
next
  case (3 n p)
  then show ?case by simp
next
  case (4 n p l q)
  then have "left q \<le> left p"
    using parse_partial_left(1) [of prec_not "ps_advance p"] parse_partial_left(2) [of p] order.trans [OF _ left_le(1) [of p]]
    by (auto split: if_splits prod.splits dest!: sym [of "(l, q)"])
  then show ?case by simp
next
  case (5 p x xa)
  then show ?case
    using left_advance_less [of p] by simp
next
  case (6 n e p x)
  then have "cur_type p \<noteq> EOF"
    using prec_not_EOF by blast
  then show ?case
    using 6 left_advance_less [of p] by simp
next
  case (7 n e p x r y)
  then have "cur_type p \<noteq> EOF" "left y \<le> left (ps_advance p)"
    using prec_not_EOF parse_partial_left(1) [of x "ps_advance p"] by (blast, metis snd_conv)
  then show ?case
    using left_advance_less [of p] by simp
qed

termination parse_expr
  by (rule parse_always_ends)

declare parse_expr.simps [simp del] parse_primary.simps [simp del] binary_loop.simps [simp del]

lemma parse_left [intro, simp]:
  "left (snd (parse_expr n p)) \<le> left p" "left (snd (parse_primary p)) \<le> left p" "left (snd (binary_loop n e p)) \<le> left p"
  by (rule parse_partial_left, rule parse_always_ends [THEN spec])+

section \<open>Lists of expressions\<close>

function more_exprs :: "parser \<Rightarrow> expr list \<times> parser" where
  "more_exprs p =
     (if cur_type p \<noteq> COMMA then ([], p)
      else case parse_expr prec_lowest (ps_advance p) of
             (e, q) \<Rightarrow> (case more_exprs q of (es, r) \<Rightarrow> (e # es, r)))"
  by pat_completeness auto
termination
proof (relation "measure left")
  fix p e q
  assume "\<not> cur_type p \<noteq> COMMA" "(e, q) = parse_expr prec_lowest (ps_advance p)"
  then show "(q, p) \<in> measure left"
    using left_advance_less [of p] parse_left(1) [of prec_lowest "ps_advance p"]
    by (cases "parse_expr prec_lowest (ps_advance p)") auto
qed simp

declare more_exprs.simps [simp del]

definition parse_expr_list :: "parser \<Rightarrow> expr list \<times> parser" where
  "parse_expr_list p =
     (case parse_expr prec_lowest p of (e, q) \<Rightarrow> (case more_exprs q of (es, r) \<Rightarrow> (e # es, r)))"

section \<open>Statements\<close>

text \<open>The optional \<open>WHERE\<close> of a statement.\<close>

definition parse_where :: "parser \<Rightarrow> expr option \<times> parser" where
  "parse_where p =
     (if cur_type p = WHERE then (case parse_expr prec_lowest (ps_advance p) of (e, q) \<Rightarrow> (Some e, q)) else (None, p))"

definition parse_join :: "parser \<Rightarrow> join_clause option \<times> parser" where
  "parse_join p0 =
     (let p = (if cur_type p0 = INNER then ps_advance p0 else p0);
          p = skip JOIN p
      in if cur_type p \<noteq> IDENT then (None, add_error MissingJoinTable (cur p) p)
         else case expect_ident p of
                (table, p) \<Rightarrow>
                  (case expect_with_error ON MissingJoinCondition p of
                     (ok, p) \<Rightarrow>
                       if \<not> ok then (Some \<lparr>join_table = table, join_condition = None\<rparr>, p)
                       else case parse_expr prec_lowest p of
                              (cond, p) \<Rightarrow> (Some \<lparr>join_table = table, join_condition = Some cond\<rparr>, p)))"

definition parse_order_by :: "parser \<Rightarrow> order_by_clause option \<times> parser" where
  "parse_order_by p =
     (if cur_type p \<noteq> ORDER then (None, p)
      else case expect_ident (skip BY (ps_advance p)) of
             (col, q) \<Rightarrow>
               if cur_type q = DESC then (Some \<lparr>ob_column = col, ob_desc = True\<rparr>, ps_advance q)
               else if cur_type q = ASC then (Some \<lparr>ob_column = col, ob_desc = False\<rparr>, ps_advance q)
               else (Some \<lparr>ob_column = col, ob_desc = False\<rparr>, q))"

definition parse_limit :: "parser \<Rightarrow> int option \<times> parser" where
  "parse_limit p =
     (if cur_type p \<noteq> LIMIT then (None, p)
      else let q = ps_advance p; tok = cur q in
           if tok_type tok \<noteq> INT_LIT then (None, add_error InvalidLiteral tok q)
           else (Some (parse_int (tok_literal tok)), ps_advance q))"

definition empty_select :: select_statement where
  "empty_select = \<lparr>sel_columns = [], sel_table = [], sel_join = None, sel_where = None, sel_order_by = None, sel_limit = None\<rparr>"

definition parse_select :: "parser \<Rightarrow> select_statement \<times> parser" where
  "parse_select p =
     (let p = skip SELECT p in
      if cur_type p = EOF then (empty_select, add_error MissingColumnList (cur p) p)
      else
        case parse_expr_list p of
          (cols, p) \<Rightarrow>
            (case expect_with_error FROM MissingFromClause p of
               (ok, p) \<Rightarrow>
                 if \<not> ok then (empty_select\<lparr>sel_columns := cols\<rparr>, p)
                 else
                   case expect_ident p of
                     (table, p) \<Rightarrow>
                       (case (if cur_type p = INNER \<or> cur_type p = JOIN then parse_join p else (None, p)) of
                          (join, p) \<Rightarrow>
                            (case parse_where p of
                               (wh, p) \<Rightarrow>
                                 (case parse_order_by p of
                                    (ob, p) \<Rightarrow>
                                      (case parse_limit p of
                                         (limit, p) \<Rightarrow>
                                           (\<lparr>sel_columns = cols, sel_table = table, sel_join = join, sel_where = wh,
                                             sel_order_by = ob, sel_limit = limit\<rparr>, p)))))))"

definition parse_insert :: "parser \<Rightarrow> statement \<times> parser" where
  "parse_insert p =
     (case expect_ident (skip INTO (skip INSERT p)) of
        (table, p) \<Rightarrow>
          (case parse_expr_list (skip LPAREN (skip VALUES p)) of
             (vs, p) \<Rightarrow> (InsertStatement table vs, skip RPAREN p)))"

definition parse_assignment :: "parser \<Rightarrow> assignment \<times> parser" where
  "parse_assignment p =
     (case expect_ident p of
        (col, p) \<Rightarrow>
          (case parse_expr prec_lowest (skip EQ p) of (v, p) \<Rightarrow> (\<lparr>as_column = col, as_value = v\<rparr>, p)))"

lemma left_assignment: "left (snd (parse_assignment p)) \<le> left p"
proof -
  obtain c q where c: "expect_ident p = (c, q)"
    by fastforce
  obtain v r where v: "parse_expr prec_lowest (skip EQ q) = (v, r)"
    by fastforce
  have "left (snd (parse_expr prec_lowest (skip EQ q))) \<le> left p"
    using order.trans [OF parse_left(1) order.trans [OF left_le(2) left_le(4) [of p, unfolded c snd_conv]]] .
  then show ?thesis
    by (simp add: parse_assignment_def c v)
qed

function parse_assignments :: "parser \<Rightarrow> assignment list \<times> parser" where
  "parse_assignments p =
     (case parse_assignment p of
        (a, q) \<Rightarrow>
          if cur_type q \<noteq> COMMA then ([a], q)
          else case parse_assignments (ps_advance q) of (as, r) \<Rightarrow> (a # as, r))"
  by pat_completeness auto
termination
proof (relation "measure left")
  fix p a q
  assume "(a, q) = parse_assignment p" "\<not> cur_type q \<noteq> COMMA"
  then show "(ps_advance q, p) \<in> measure left"
    using left_advance_less [of q] left_assignment [of p] by (cases "parse_assignment p") (auto intro: less_le_trans)
qed simp

declare parse_assignments.simps [simp del]

definition parse_update :: "parser \<Rightarrow> statement \<times> parser" where
  "parse_update p =
     (case expect_ident (skip UPDATE p) of
        (table, p) \<Rightarrow>
          (case parse_assignments (skip SET p) of
             (as, p) \<Rightarrow> (case parse_where p of (wh, p) \<Rightarrow> (UpdateStatement table as wh, p))))"

definition parse_delete :: "parser \<Rightarrow> statement \<times> parser" where
  "parse_delete p =
     (case expect_ident (skip FROM (skip DELETE p)) of
        (table, p) \<Rightarrow> (case parse_where p of (wh, p) \<Rightarrow> (DeleteStatement table wh, p)))"

definition parse_drop_table :: "parser \<Rightarrow> statement \<times> parser" where
  "parse_drop_table p =
     (let p = skip TABLE (skip DROP p) in
      if cur_type p \<noteq> IDENT then (DropTableStatement [], add_error MissingTableName (cur p) p)
      else case expect_ident p of (table, p) \<Rightarrow> (DropTableStatement table, p))"

section \<open>CREATE TABLE\<close>

text \<open>\<open>parseDataType\<close>: \<open>None\<close> is its error. A type name is any token with the right literal.\<close>

definition parse_type :: "parser \<Rightarrow> data_type option \<times> parser" where
  "parse_type p =
     (let upper = to_upper (tok_literal (cur p)) in
      if upper = ''INT'' then (Some \<lparr>dt_kind = KindIntType, dt_length = 0\<rparr>, ps_advance p)
      else if upper = ''BOOL'' then (Some \<lparr>dt_kind = KindBoolType, dt_length = 0\<rparr>, ps_advance p)
      else if upper = ''VARCHAR''
      then (let q = skip LPAREN (ps_advance p); tok = cur q in
            if tok_type tok \<noteq> INT_LIT then (None, q)
            else (Some \<lparr>dt_kind = KindVarcharType, dt_length = parse_int (tok_literal tok)\<rparr>, skip RPAREN (ps_advance q)))
      else (None, ps_advance p))"

text \<open>The loop over \<open>PRIMARY KEY\<close> and \<open>NOT NULL\<close>. A lone \<open>NULL\<close> enters the loop and is in no case of its \<open>switch\<close>.\<close>

fun column_attributes :: "nat \<Rightarrow> column \<Rightarrow> bool \<Rightarrow> parser \<Rightarrow> ((column \<times> bool) \<times> parser) option" where
  "column_attributes 0 col pk p = None"
| "column_attributes (Suc n) col pk p =
     (if cur_type p = PRIMARY
      then column_attributes n (col\<lparr>primary_key := True, not_null := True\<rparr>) True (skip KEY (ps_advance p))
      else if cur_type p = NOT_TOK
      then column_attributes n (col\<lparr>not_null := True\<rparr>) pk (skip NULL (ps_advance p))
      else if cur_type p = NULL then column_attributes n col pk p
      else Some ((col, pk), p))"

definition parse_column_def :: "nat \<Rightarrow> parser \<Rightarrow> ((column \<times> bool) \<times> parser) option" where
  "parse_column_def n p =
     (case expect_ident p of
        (name, p) \<Rightarrow>
          (case parse_type p of
             (dt, p) \<Rightarrow>
               let p = (if dt = None then add_error InvalidDataType (cur p) p else p);
                   t = (case dt of Some t \<Rightarrow> t | None \<Rightarrow> \<lparr>dt_kind = KindIntType, dt_length = 0\<rparr>)
               in column_attributes n \<lparr>col_name = name, col_type = t, primary_key = False, not_null = False\<rparr> False p))"

fun parse_columns :: "nat \<Rightarrow> nat \<Rightarrow> column list \<Rightarrow> parser \<Rightarrow> (column list \<times> parser) option" where
  "parse_columns 0 pks cols p = None"
| "parse_columns (Suc n) pks cols p =
     (if cur_type p = RPAREN \<or> cur_type p = EOF then Some (cols, p)
      else
        do { ((col, pk), p) \<leftarrow> parse_column_def n p;
             let pks = (if pk then pks + 1 else pks);
             let p = (if pk \<and> pks > 1 then add_error DuplicatePrimaryKey (cur p) p else p);
             parse_columns n pks (cols @ [col]) (if cur_type p = COMMA then ps_advance p else p) })"

definition parse_create_table :: "nat \<Rightarrow> parser \<Rightarrow> (statement \<times> parser) option" where
  "parse_create_table n p =
     (let p = skip TABLE (skip CREATE p) in
      if cur_type p \<noteq> IDENT then Some (CreateTableStatement [] [], add_error MissingTableName (cur p) p)
      else
        case expect_ident p of
          (table, p) \<Rightarrow>
            do { (cols, p) \<leftarrow> parse_columns n 0 [] (skip LPAREN p);
                 let p = (if cols = [] then add_error MissingColumnDef (cur p) p else p);
                 Some (CreateTableStatement table cols, skip RPAREN p) })"

text \<open>The statement is \<open>None\<close> where the code returns \<open>nil\<close>.\<close>

definition parse_statement :: "nat \<Rightarrow> parser \<Rightarrow> (statement option \<times> parser) option" where
  "parse_statement n p =
     (case cur_type p of
        SELECT \<Rightarrow> (case parse_select p of (s, p) \<Rightarrow> Some (Some (SelectStatement s), p))
      | INSERT \<Rightarrow> (case parse_insert p of (s, p) \<Rightarrow> Some (Some s, p))
      | UPDATE \<Rightarrow> (case parse_update p of (s, p) \<Rightarrow> Some (Some s, p))
      | DELETE \<Rightarrow> (case parse_delete p of (s, p) \<Rightarrow> Some (Some s, p))
      | CREATE \<Rightarrow> map_option (\<lambda>(s, p). (Some s, p)) (parse_create_table n p)
      | DROP \<Rightarrow> (case parse_drop_table p of (s, p) \<Rightarrow> Some (Some s, p))
      | BEGIN \<Rightarrow> Some (Some BeginStatement, ps_advance p)
      | COMMIT \<Rightarrow> Some (Some CommitStatement, ps_advance p)
      | ROLLBACK \<Rightarrow> Some (Some RollbackStatement, ps_advance p)
      | _ \<Rightarrow> Some (None, add_error UnexpectedToken (cur p) p))"

text \<open>\<open>Parse\<close>: the errors, or the statement when there are none; \<open>None\<close> when the fuel runs out.\<close>

definition parse :: "nat \<Rightarrow> string \<Rightarrow> (parse_error list + statement option) option" where
  "parse n input =
     map_option (\<lambda>(s, p). if ps_errors p \<noteq> [] then Inl (ps_errors p) else Inr s)
       (parse_statement n (new_parser (tokenize (new_lexer input))))"

end
