(* ===== verification/Parser_Print.thy ===== *)
theory Parser_Print
  imports Parser
begin

text \<open>
  Statements written as tokens with parentheses where the precedences of the parser ask for them, and the proof
  that the parser reads them back. A text that lexes to these tokens is parsed to the statement. \<open>IS NULL\<close> and
  \<open>IS NOT NULL\<close> bind tighter than every operator and need no parentheses, except on the left of an operator:
  \<open>parseExpr\<close> returns after them, so that whatever operator follows is dropped.
\<close>

section \<open>Reading tokens\<close>

type_synonym ptok = "token_type \<times> string"

definition rest :: "parser \<Rightarrow> ptok list" where
  "rest p = map lexed (drop (ps_pos p) (ps_tokens p))"

definition adv :: "nat \<Rightarrow> parser \<Rightarrow> parser" where
  "adv n p = p\<lparr>ps_pos := ps_pos p + n\<rparr>"

definition head_type :: "ptok list \<Rightarrow> token_type" where
  "head_type ts = (case ts of [] \<Rightarrow> EOF | t # _ \<Rightarrow> fst t)"

lemma head_type_simps [simp]: "head_type [] = EOF" "head_type (t # ts) = fst t"
  by (simp_all add: head_type_def)

lemma rest_adv [simp]: "rest (adv n p) = drop n (rest p)"
  by (simp add: rest_def adv_def drop_map add.commute)

lemma adv_adv [simp]: "adv m (adv n p) = adv (n + m) p" "adv 0 p = p" "ps_errors (adv n p) = ps_errors p"
  by (simp_all add: adv_def)

lemma cur_type_rest: "cur_type p = head_type (rest p)"
proof (cases "ps_pos p < length (ps_tokens p)")
  case True
  then show ?thesis
    by (simp add: cur_def rest_def Cons_nth_drop_Suc [symmetric] lexed_def)
qed (simp add: cur_def rest_def)

lemma rest_Cons:
  assumes "rest p = t # ts"
  shows "cur_type p = fst t" "tok_literal (cur p) = snd t" "ps_advance p = adv (Suc 0) p"
proof -
  have l: "ps_pos p < length (ps_tokens p)"
    using assms by (intro ccontr [of "ps_pos p < length (ps_tokens p)"]) (simp add: rest_def)
  then have "t = lexed (ps_tokens p ! ps_pos p)"
    using assms by (simp add: rest_def Cons_nth_drop_Suc [symmetric])
  then show "cur_type p = fst t" "tok_literal (cur p) = snd t" "ps_advance p = adv (Suc 0) p"
    using l by (simp_all add: cur_def lexed_def ps_advance_def adv_def)
qed

lemma expect_reads: "rest p = t # ts \<Longrightarrow> fst t = tt \<Longrightarrow> expect tt p = (True, adv (Suc 0) p)"
  by (simp add: expect_def rest_Cons)

lemma expect_ident_reads: "rest p = (IDENT, c) # ts \<Longrightarrow> expect_ident p = (c, adv (Suc 0) p)"
  by (simp add: expect_ident_def rest_Cons)

section \<open>Writing expressions\<close>

definition kw :: "token_type \<Rightarrow> ptok" where
  "kw tt = (tt, fst (hd (filter (\<lambda>(k, t). t = tt) keyword_table)))"

definition punct :: "token_type \<Rightarrow> ptok" where
  "punct tt = (tt, snd (hd (filter (\<lambda>(t, k). t = tt) symbol_table)))"

lemma fst_kw_punct [simp]: "fst (kw tt) = tt" "fst (punct tt) = tt"
  by (simp_all add: kw_def punct_def)

fun op_token :: "operator_type \<Rightarrow> ptok" where
  "op_token OpEQ = punct EQ"
| "op_token OpNEQ = punct NEQ"
| "op_token OpLT = punct LT"
| "op_token OpGT = punct GT"
| "op_token OpLTE = punct LTE"
| "op_token OpGTE = punct GTE"
| "op_token OpAND = kw AND_TOK"
| "op_token OpOR = kw OR_TOK"

definition op_prec :: "operator_type \<Rightarrow> nat" where
  "op_prec op = token_prec (fst (op_token op))"

lemma op_prec_pos: "0 < op_prec op" "op_prec op \<le> 4"
  by (cases op; simp add: op_prec_def precs)+

lemma token_to_op [simp]: "token_to_op (fst (op_token op)) = op"
  by (cases op) simp_all

definition in_parens :: "bool \<Rightarrow> ptok list \<Rightarrow> ptok list" where
  "in_parens b ts = (if b then punct LPAREN # ts @ [punct RPAREN] else ts)"

text \<open>The tests \<open>IS NULL\<close> and \<open>IS NOT NULL\<close> follow a primary.\<close>

definition prec_primary :: nat where
  "prec_primary = 5"

fun null_test :: "expr \<Rightarrow> bool" where
  "null_test (IsNullExpr _) = True"
| "null_test (IsNotNullExpr _) = True"
| "null_test _ = False"

text \<open>\<open>expr_tokens m e\<close> writes \<open>e\<close> for a place where operators of precedence up to \<open>m\<close> end it.\<close>

fun expr_tokens :: "nat \<Rightarrow> expr \<Rightarrow> ptok list" where
  "expr_tokens m (Identifier t c) = (if t = [] then [(IDENT, c)] else [(IDENT, t), punct DOT, (IDENT, c)])"
| "expr_tokens m Wildcard = [punct ASTERISK]"
| "expr_tokens m (IntLiteral v) = [(INT_LIT, show_nat (nat (sint v)))]"
| "expr_tokens m (StringLiteral s) = [(STR_LIT, s)]"
| "expr_tokens m (BoolLiteral b) = [kw (if b then TRUE else FALSE)]"
| "expr_tokens m NullLiteral = [kw NULL]"
| "expr_tokens m (BinaryExpr l op r) =
     in_parens (op_prec op \<le> m)
       (expr_tokens (if null_test l then prec_primary else op_prec op - 1) l @ op_token op # expr_tokens (op_prec op) r)"
| "expr_tokens m (UnaryExpr _ e) = in_parens (prec_not \<le> m) (kw NOT_TOK # expr_tokens prec_not e)"
| "expr_tokens m (IsNullExpr e) = in_parens (prec_primary \<le> m) (expr_tokens prec_primary e @ [kw IS, kw NULL])"
| "expr_tokens m (IsNotNullExpr e) = in_parens (prec_primary \<le> m) (expr_tokens prec_primary e @ [kw IS, kw NOT_TOK, kw NULL])"

text \<open>The precedence up to which an operator may follow.\<close>

fun tight :: "nat \<Rightarrow> expr \<Rightarrow> nat" where
  "tight m (BinaryExpr l op r) = (if op_prec op \<le> m then 5 else op_prec op)"
| "tight m (UnaryExpr _ e) = (if prec_not \<le> m then 5 else prec_not)"
| "tight m _ = 5"

text \<open>What the parser can produce at all.\<close>

fun printable :: "expr \<Rightarrow> bool" where
  "printable (IntLiteral v) \<longleftrightarrow> 0 \<le> sint v"
| "printable (BinaryExpr l op r) \<longleftrightarrow> printable l \<and> printable r"
| "printable (UnaryExpr op e) \<longleftrightarrow> op = ''NOT'' \<and> printable e"
| "printable (IsNullExpr e) \<longleftrightarrow> printable e"
| "printable (IsNotNullExpr e) \<longleftrightarrow> printable e"
| "printable _ \<longleftrightarrow> True"

section \<open>The parser on written expressions\<close>

lemma parse_expr_primary:
  "cur_type p \<noteq> NOT_TOK \<Longrightarrow> parse_primary p = (e, q) \<Longrightarrow> cur_type q \<noteq> IS \<Longrightarrow> parse_expr mp p = binary_loop mp e q"
  by (simp add: parse_expr.simps)

lemma parse_expr_not:
  assumes "rest p = kw NOT_TOK # ts" "parse_expr prec_not (adv (Suc 0) p) = (e, q)" "cur_type q \<noteq> IS"
  shows "parse_expr mp p = binary_loop mp (UnaryExpr ''NOT'' e) q"
  using assms rest_Cons [OF assms(1)] by (simp add: parse_expr.simps [of mp p])

lemma binary_loop_stops: "token_prec (cur_type p) \<le> mp \<Longrightarrow> binary_loop mp e p = (e, p)"
  by (simp add: binary_loop.simps)

lemma binary_loop_step:
  assumes "rest p = op_token op # ts" "mp < op_prec op" "parse_expr (op_prec op) (adv (Suc 0) p) = (r, q)"
  shows "binary_loop mp e p = binary_loop mp (BinaryExpr e op r) q"
  using assms rest_Cons [OF assms(1)] by (subst binary_loop.simps) (simp add: Let_def op_prec_def)

lemma parse_parens:
  assumes "rest p = punct LPAREN # ts @ punct RPAREN # ys" "parse_expr prec_lowest (adv (Suc 0) p) = (e, adv (length ts) (adv (Suc 0) p))"
  shows "parse_primary p = (e, adv (length ts + 2) p)"
proof -
  have "rest (adv (Suc (length ts)) p) = punct RPAREN # ys"
    by (simp add: assms(1))
  from expect_reads [OF this, of RPAREN] show ?thesis
    using rest_Cons [OF assms(1)] assms(2) by (simp add: parse_primary.simps Let_def)
qed

lemma parse_int_show:
  assumes "0 \<le> sint (v :: i64)"
  shows "word_of_int (parse_int (show_nat (nat (sint v)))) = v"
proof -
  have "sint v < 2 ^ 63"
    using sint_lt [of v] by simp
  then show ?thesis
    using assms by (simp add: parse_int_def read_show_nat)
qed

lemma parse_is_null:
  assumes "parse_primary p = (e, q)" "cur_type p \<noteq> NOT_TOK"
  shows "rest q = kw IS # kw NULL # ys \<Longrightarrow> parse_expr mp p = (IsNullExpr e, adv 2 q)"
    and "rest q = kw IS # kw NOT_TOK # kw NULL # ys \<Longrightarrow> parse_expr mp p = (IsNotNullExpr e, adv 3 q)"
proof -
  assume r: "rest q = kw IS # kw NULL # ys"
  have r1: "rest (adv (Suc 0) q) = kw NULL # ys"
    by (simp add: r)
  show "parse_expr mp p = (IsNullExpr e, adv 2 q)"
    using assms rest_Cons [OF r] rest_Cons [OF r1] expect_reads [OF r1, of NULL]
    by (simp add: parse_expr.simps [of mp p] Let_def numeral_2_eq_2)
next
  assume r: "rest q = kw IS # kw NOT_TOK # kw NULL # ys"
  have r1: "rest (adv (Suc 0) q) = kw NOT_TOK # kw NULL # ys" and r2: "rest (adv (Suc (Suc 0)) q) = kw NULL # ys"
    by (simp_all add: r)
  show "parse_expr mp p = (IsNotNullExpr e, adv 3 q)"
    using assms rest_Cons [OF r] rest_Cons [OF r1] expect_reads [OF r2, of NULL]
    by (simp add: parse_expr.simps [of mp p] Let_def numeral_3_eq_3)
qed

text \<open>At the tightest place an expression is a primary; elsewhere, unless it is a null test, it is what the loop over the
  operators that follow goes on with. Where nothing follows that binds tighter, it is read as a whole.\<close>

definition parses_primary :: "expr \<Rightarrow> bool" where
  "parses_primary e \<longleftrightarrow> (\<forall>p ys. rest p = expr_tokens prec_primary e @ ys \<longrightarrow> head_type ys \<noteq> DOT \<longrightarrow>
     parse_primary p = (e, adv (length (expr_tokens prec_primary e)) p))"

definition parses_operand :: "expr \<Rightarrow> bool" where
  "parses_operand e \<longleftrightarrow> (\<forall>m mp p ys. mp \<le> m \<longrightarrow> rest p = expr_tokens m e @ ys \<longrightarrow> token_prec (head_type ys) \<le> tight m e \<longrightarrow>
     head_type ys \<noteq> IS \<longrightarrow> head_type ys \<noteq> DOT \<longrightarrow> parse_expr mp p = binary_loop mp e (adv (length (expr_tokens m e)) p))"

definition parses_whole :: "expr \<Rightarrow> bool" where
  "parses_whole e \<longleftrightarrow> (\<forall>m p ys. m < prec_primary \<longrightarrow> rest p = expr_tokens m e @ ys \<longrightarrow> token_prec (head_type ys) \<le> m \<longrightarrow>
     head_type ys \<noteq> IS \<longrightarrow> head_type ys \<noteq> DOT \<longrightarrow> parse_expr m p = (e, adv (length (expr_tokens m e)) p))"

lemma parses_primaryD:
  "parses_primary e \<Longrightarrow> rest p = expr_tokens prec_primary e @ ys \<Longrightarrow> head_type ys \<noteq> DOT \<Longrightarrow>
   parse_primary p = (e, adv (length (expr_tokens prec_primary e)) p)"
  by (simp add: parses_primary_def)

lemma parses_operandD:
  "parses_operand e \<Longrightarrow> mp \<le> m \<Longrightarrow> rest p = expr_tokens m e @ ys \<Longrightarrow> token_prec (head_type ys) \<le> tight m e \<Longrightarrow>
   head_type ys \<noteq> IS \<Longrightarrow> head_type ys \<noteq> DOT \<Longrightarrow> parse_expr mp p = binary_loop mp e (adv (length (expr_tokens m e)) p)"
  by (simp add: parses_operand_def)

lemma parses_wholeD:
  "parses_whole e \<Longrightarrow> rest p = expr_tokens m e @ ys \<Longrightarrow> m < prec_primary \<Longrightarrow> token_prec (head_type ys) \<le> m \<Longrightarrow>
   head_type ys \<noteq> IS \<Longrightarrow> head_type ys \<noteq> DOT \<Longrightarrow> parse_expr m p = (e, adv (length (expr_tokens m e)) p)"
  by (simp add: parses_whole_def)

lemma tight_above: "m < prec_primary \<Longrightarrow> m \<le> tight m e"
  by (cases e) (auto simp: prec_primary_def)

lemma parses_operand_whole:
  assumes "parses_operand e"
  shows "parses_whole e"
  unfolding parses_whole_def
proof (intro allI impI)
  fix m p ys
  assume m: "m < prec_primary" and r: "rest p = expr_tokens m e @ ys" and ys: "token_prec (head_type ys) \<le> m" "head_type ys \<noteq> IS" "head_type ys \<noteq> DOT"
  have "parse_expr m p = binary_loop m e (adv (length (expr_tokens m e)) p)"
    using parses_operandD [OF assms order.refl r] order.trans [OF ys(1) tight_above [OF m]] ys(2,3) by blast
  also have "\<dots> = (e, adv (length (expr_tokens m e)) p)"
    using ys(1) by (intro binary_loop_stops) (simp add: cur_type_rest r)
  finally show "parse_expr m p = (e, adv (length (expr_tokens m e)) p)" .
qed

text \<open>What holds of every written expression.\<close>

definition parses :: "expr \<Rightarrow> bool" where
  "parses e \<longleftrightarrow> parses_primary e \<and> parses_whole e \<and> (\<not> null_test e \<longrightarrow> parses_operand e)"

lemma primary_head: "head_type (expr_tokens prec_primary e @ ys) \<noteq> NOT_TOK"
proof -
  have "op_prec op \<le> 5" for op
    using op_prec_pos(2) [of op] by simp
  then show ?thesis
    by (cases e) (auto simp: in_parens_def precs prec_primary_def)
qed

lemma primary_expr:
  assumes "parses_primary e" "rest p = expr_tokens prec_primary e @ ys" "head_type ys \<noteq> IS" "head_type ys \<noteq> DOT"
  shows "parse_expr mp p = binary_loop mp e (adv (length (expr_tokens prec_primary e)) p)"
  using assms primary_head [of e ys] by (intro parse_expr_primary parses_primaryD) (simp_all add: cur_type_rest)

lemma parses_null_test:
  assumes e: "parses_primary e" and tk: "tk = [kw IS, kw NULL] \<and> e' = IsNullExpr e \<or> tk = [kw IS, kw NOT_TOK, kw NULL] \<and> e' = IsNotNullExpr e"
  shows "parses e'"
proof -
  let ?n = "length (expr_tokens prec_primary e)"
  have t: "expr_tokens m e' = in_parens (prec_primary \<le> m) (expr_tokens prec_primary e @ tk)" and n: "null_test e'" for m
    using tk by auto
  have bare: "parse_expr mp p = (e', adv (length (expr_tokens prec_primary e @ tk)) p)"
    if r: "rest p = (expr_tokens prec_primary e @ tk) @ ys" for mp p ys
  proof -
    have r2: "rest (adv ?n p) = tk @ ys"
      by (simp only: rest_adv [of ?n] r) simp
    have pp: "parse_primary p = (e, adv ?n p)"
      using tk r by (intro parses_primaryD [OF e, of p "tk @ ys"]) auto
    have c: "cur_type p \<noteq> NOT_TOK"
      using primary_head [of e] by (simp add: cur_type_rest r)
    show ?thesis
      using tk parse_is_null [OF pp c] r2 by (auto simp: eval_nat_numeral)
  qed
  have "parses_primary e'"
    unfolding parses_primary_def
  proof (intro allI impI)
    fix p ys assume "rest p = expr_tokens prec_primary e' @ ys"
    then have r: "rest p = punct LPAREN # (expr_tokens prec_primary e @ tk) @ punct RPAREN # ys"
      by (simp add: t in_parens_def)
    have "rest (adv (Suc 0) p) = (expr_tokens prec_primary e @ tk) @ punct RPAREN # ys"
      by (simp add: r)
    from parse_parens [OF r bare [OF this]] show "parse_primary p = (e', adv (length (expr_tokens prec_primary e')) p)"
      by (simp add: t in_parens_def)
  qed
  moreover have "parses_whole e'"
    unfolding parses_whole_def using bare by (auto simp: t in_parens_def)
  ultimately show ?thesis
    using n by (simp add: parses_def)
qed

text \<open>An expression with operators: \<open>bare\<close> are its tokens without parentheses.\<close>

lemma parses_by_bare:
  assumes toks: "\<And>m. expr_tokens m e = in_parens (pr \<le> m) bare" and t: "\<And>m. tight m e = (if pr \<le> m then 5 else pr)" and pr: "0 < pr" "pr \<le> 4"
    and bare: "\<And>mp p ys. mp < pr \<Longrightarrow> rest p = bare @ ys \<Longrightarrow> token_prec (head_type ys) \<le> pr \<Longrightarrow> head_type ys \<noteq> IS \<Longrightarrow>
      head_type ys \<noteq> DOT \<Longrightarrow> parse_expr mp p = binary_loop mp e (adv (length bare) p)"
  shows "parses e"
proof -
  have c: "expr_tokens m e = expr_tokens prec_primary e" if "pr \<le> m" for m
    using that pr by (simp add: toks prec_primary_def)
  have prim: "parses_primary e"
    unfolding parses_primary_def
  proof (intro allI impI)
    fix p ys assume r: "rest p = expr_tokens prec_primary e @ ys"
    then have r': "rest p = punct LPAREN # bare @ punct RPAREN # ys"
      using pr by (simp add: toks in_parens_def prec_primary_def)
    have "parse_expr prec_lowest (adv (Suc 0) p) = binary_loop prec_lowest e (adv (length bare) (adv (Suc 0) p))"
      using pr by (intro bare [of _ _ "punct RPAREN # ys"]) (simp_all add: r' precs)
    also have "\<dots> = (e, adv (length bare) (adv (Suc 0) p))"
      by (intro binary_loop_stops) (simp add: cur_type_rest r' precs)
    finally show "parse_primary p = (e, adv (length (expr_tokens prec_primary e)) p)"
      using parse_parens [OF r'] pr by (simp add: toks in_parens_def prec_primary_def)
  qed
  moreover have "parses_operand e"
    unfolding parses_operand_def
  proof (intro allI impI)
    fix m mp p ys
    assume r: "mp \<le> m" "rest p = expr_tokens m e @ ys" "token_prec (head_type ys) \<le> tight m e" "head_type ys \<noteq> IS"
      "head_type ys \<noteq> DOT"
    show "parse_expr mp p = binary_loop mp e (adv (length (expr_tokens m e)) p)"
    proof (cases "pr \<le> m")
      case True
      then show ?thesis
        using primary_expr [OF prim _ r(4,5)] r(2) c by simp
    next
      case False
      then show ?thesis
        using bare [of mp p ys] r by (simp add: toks t in_parens_def)
    qed
  qed
  ultimately show ?thesis
    using parses_operand_whole by (simp add: parses_def)
qed

lemma parses_by_primary:
  assumes "\<And>m. expr_tokens m e = expr_tokens prec_primary e" "parses_primary e"
  shows "parses e"
proof -
  have "parses_operand e"
    using assms primary_expr [OF assms(2)] unfolding parses_operand_def by metis
  then show ?thesis
    using assms(2) parses_operand_whole by (simp add: parses_def)
qed

lemma parses_tokens: "printable e \<Longrightarrow> parses e"
proof (induction e)
  case (Identifier t c)
  have "parses_primary (Identifier t c)"
    unfolding parses_primary_def
  proof (intro allI impI)
    fix p ys
    assume p: "rest p = expr_tokens prec_primary (Identifier t c) @ ys" "head_type ys \<noteq> DOT"
    show "parse_primary p = (Identifier t c, adv (length (expr_tokens prec_primary (Identifier t c))) p)"
    proof (cases "t = []")
      case True
      then have r: "rest p = (IDENT, c) # ys"
        using p by simp
      then show ?thesis
        using True p rest_Cons [OF r] by (simp add: parse_primary.simps Let_def cur_type_rest)
    next
      case False
      then have r: "rest p = (IDENT, t) # punct DOT # (IDENT, c) # ys"
        using p by simp
      have r1: "rest (adv (Suc 0) p) = punct DOT # (IDENT, c) # ys" and r2: "rest (adv (Suc (Suc 0)) p) = (IDENT, c) # ys"
        by (simp_all add: r)
      show ?thesis
        using False rest_Cons [OF r] rest_Cons [OF r1] expect_ident_reads [OF r2]
        by (simp add: parse_primary.simps Let_def)
    qed
  qed
  then show ?case
    by (intro parses_by_primary) simp_all
next
  case (BinaryExpr l op r)
  let ?pr = "op_prec op"
  let ?tl = "expr_tokens (if null_test l then prec_primary else ?pr - 1) l" and ?tr = "expr_tokens ?pr r"
  have l: "parses_primary l" "\<not> null_test l \<Longrightarrow> parses_operand l" and r: "parses_whole r"
    using BinaryExpr by (simp_all add: parses_def)
  show ?case
  proof (rule parses_by_bare [of _ ?pr "?tl @ op_token op # ?tr"])
    fix mp p ys
    assume mp: "mp < ?pr" and p: "rest p = (?tl @ op_token op # ?tr) @ ys"
      and ys: "token_prec (head_type ys) \<le> ?pr" "head_type ys \<noteq> IS" "head_type ys \<noteq> DOT"
    let ?n = "length ?tl" and ?all = "length (?tl @ op_token op # ?tr)"
    have tl: "?pr \<le> tight (?pr - 1) e" for e
      using op_prec_pos [of op] by (cases e; auto simp: precs)
    have h: "fst (op_token op) \<noteq> IS" "fst (op_token op) \<noteq> DOT"
      by (cases op; simp)+
    have 1: "parse_expr mp p = binary_loop mp l (adv ?n p)"
    proof (cases "null_test l")
      case True
      then show ?thesis
        using p h primary_expr [OF l(1), of p "op_token op # ?tr @ ys"] by simp
    next
      case False
      then show ?thesis
        using mp p h tl [of l] by (simp add: parses_operandD [OF l(2), of mp "?pr - 1" p "op_token op # ?tr @ ys"] op_prec_def)
    qed
    have q: "rest (adv ?n p) = op_token op # ?tr @ ys"
      using p by simp
    have q2: "rest (adv (Suc 0) (adv ?n p)) = ?tr @ ys"
      by (simp only: rest_adv [of "Suc 0"] q) simp
    have "parse_expr ?pr (adv (Suc 0) (adv ?n p)) = (r, adv (length ?tr) (adv (Suc 0) (adv ?n p)))"
      using ys op_prec_pos(2) [of op] by (intro parses_wholeD [OF r q2]) (simp_all add: prec_primary_def)
    also have "\<dots> = (r, adv ?all p)"
      by simp
    finally show "parse_expr mp p = binary_loop mp (BinaryExpr l op r) (adv ?all p)"
      using 1 binary_loop_step [OF q mp] by simp
  qed (use op_prec_pos in simp_all)
next
  case (UnaryExpr u e)
  let ?te = "expr_tokens prec_not e"
  have e: "parses_whole e" and u: "u = ''NOT''"
    using UnaryExpr by (simp_all add: parses_def)
  show ?case
  proof (rule parses_by_bare [of _ prec_not "kw NOT_TOK # ?te"])
    fix mp p ys
    assume p: "rest p = (kw NOT_TOK # ?te) @ ys" and ys: "token_prec (head_type ys) \<le> prec_not" "head_type ys \<noteq> IS" "head_type ys \<noteq> DOT"
    have "rest (adv (Suc 0) p) = ?te @ ys"
      by (simp add: p)
    then have "parse_expr prec_not (adv (Suc 0) p) = (e, adv (length ?te) (adv (Suc 0) p))"
      using ys by (intro parses_wholeD [OF e]) (simp_all add: prec_primary_def precs)
    also have "\<dots> = (e, adv (length (kw NOT_TOK # ?te)) p)"
      by simp
    finally show "parse_expr mp p = binary_loop mp (UnaryExpr u e) (adv (length (kw NOT_TOK # ?te)) p)"
      using parse_expr_not [of p "?te @ ys"] p ys by (simp add: u cur_type_rest)
  qed (simp_all add: precs)
next
  case (IsNullExpr e)
  then show ?case
    by (intro parses_null_test [of e "[kw IS, kw NULL]"]) (simp_all add: parses_def)
next
  case (IsNotNullExpr e)
  then show ?case
    by (intro parses_null_test [of e "[kw IS, kw NOT_TOK, kw NULL]"]) (simp_all add: parses_def)
qed (rule parses_by_primary; auto simp: parses_primary_def rest_Cons parse_primary.simps Let_def parse_int_show)+

section \<open>Parts of statements\<close>

text \<open>A parser at the tokens \<open>ts\<close> with the errors \<open>es\<close>, and a function that reads the tokens \<open>ts\<close> as \<open>a\<close> whenever
  the token after them is one of \<open>stop\<close>.\<close>

definition at_tokens :: "parser \<Rightarrow> ptok list \<Rightarrow> parse_error list \<Rightarrow> bool" where
  "at_tokens p ts es \<longleftrightarrow> rest p = ts \<and> ps_errors p = es"

definition reads :: "token_type set \<Rightarrow> (parser \<Rightarrow> 'a \<times> parser) \<Rightarrow> ptok list \<Rightarrow> 'a \<Rightarrow> bool" where
  "reads stop f ts a \<longleftrightarrow> (\<forall>p ys es. at_tokens p (ts @ ys) es \<longrightarrow> head_type ys \<in> stop \<longrightarrow>
     fst (f p) = a \<and> at_tokens (snd (f p)) ys es)"

lemma readsD: "reads stop f ts a \<Longrightarrow> at_tokens p (ts @ ys) es \<Longrightarrow> head_type ys \<in> stop \<Longrightarrow>
    fst (f p) = a \<and> at_tokens (snd (f p)) ys es"
  by (simp add: reads_def)

lemma at_cur: "at_tokens p ts es \<Longrightarrow> cur_type p = head_type ts"
  by (simp add: at_tokens_def cur_type_rest)

lemma at_literal: "at_tokens p (t # ts) es \<Longrightarrow> tok_literal (cur p) = snd t"
  by (auto simp: at_tokens_def dest: rest_Cons)

lemma at_advance: "at_tokens p (t # ts) es \<Longrightarrow> at_tokens (ps_advance p) ts es"
  by (auto simp: at_tokens_def rest_Cons)

lemma at_skip: "at_tokens p (t # ts) es \<Longrightarrow> fst t = tt \<Longrightarrow> at_tokens (skip tt p) ts es"
  by (auto simp: expect_def at_cur intro: at_advance)

lemma at_expect_with_error:
  "at_tokens p (t # ts) es \<Longrightarrow> fst t = tt \<Longrightarrow>
   fst (expect_with_error tt k p) \<and> at_tokens (snd (expect_with_error tt k p)) ts es"
  by (auto simp: expect_with_error_def at_cur intro: at_advance)

lemma at_ident:
  "at_tokens p ((IDENT, c) # ts) es \<Longrightarrow> fst (expect_ident p) = c \<and> at_tokens (snd (expect_ident p)) ts es"
  by (auto simp: expect_ident_def at_cur at_literal intro: at_advance)

lemmas at_rules = at_cur at_literal at_advance at_skip at_expect_with_error at_ident

text \<open>Tokens after which an expression is over, and the beginnings of the clauses of a statement.\<close>

definition expr_ends :: "token_type set" where
  "expr_ends = {tt. token_prec tt = 0 \<and> tt \<noteq> IS \<and> tt \<noteq> DOT}"

definition stmt_ends :: "token_type set" where
  "stmt_ends = {EOF, SEMICOLON}"

lemma reads_expr:
  assumes "printable e"
  shows "reads expr_ends (parse_expr prec_lowest) (expr_tokens 0 e) e"
  unfolding reads_def
proof (intro allI impI)
  fix p ys es
  assume p: "at_tokens p (expr_tokens 0 e @ ys) es" and ys: "head_type ys \<in> expr_ends"
  have "parses_whole e"
    using parses_tokens [OF assms] by (simp add: parses_def)
  then have "parse_expr 0 p = (e, adv (length (expr_tokens 0 e)) p)"
    using p ys by (intro parses_wholeD [of e p 0 ys]) (auto simp: at_tokens_def expr_ends_def prec_primary_def)
  then show "fst (parse_expr prec_lowest p) = e \<and> at_tokens (snd (parse_expr prec_lowest p)) ys es"
    using p by (simp add: at_tokens_def precs)
qed

fun separated :: "ptok list list \<Rightarrow> ptok list" where
  "separated [] = []"
| "separated (ts # tss) = ts @ concat (map (\<lambda>ts. punct COMMA # ts) tss)"

lemma reads_more_exprs:
  assumes "\<forall>e \<in> set es. printable e"
  shows "reads (expr_ends - {COMMA}) more_exprs (concat (map (\<lambda>ts. punct COMMA # ts) (map (expr_tokens 0) es))) es"
  using assms
proof (induction es)
  case Nil
  show ?case
    unfolding reads_def by (subst (1 2) more_exprs.simps) (auto dest: at_cur)
next
  case (Cons e es)
  show ?case
    unfolding reads_def
  proof (intro allI impI)
    fix p ys errs
    let ?rest = "concat (map (\<lambda>ts. punct COMMA # ts) (map (expr_tokens 0) es)) @ ys"
    assume p: "at_tokens p (concat (map (\<lambda>ts. punct COMMA # ts) (map (expr_tokens 0) (e # es))) @ ys) errs"
      and ys: "head_type ys \<in> expr_ends - {COMMA}"
    then have p': "at_tokens p (punct COMMA # expr_tokens 0 e @ ?rest) errs"
      by simp
    have h: "head_type ?rest \<in> expr_ends"
      using ys by (cases es) (simp_all add: expr_ends_def precs)
    have e: "printable e" "\<forall>e \<in> set es. printable e"
      using Cons.prems by simp_all
    note 1 = readsD [OF reads_expr [OF e(1)] at_advance [OF p'] h]
    note 2 = readsD [OF Cons.IH [OF e(2)] conjunct2 [OF 1] ys]
    show "fst (more_exprs p) = e # es \<and> at_tokens (snd (more_exprs p)) ys errs"
      using at_cur [OF p'] 1 2 by (subst (1 2) more_exprs.simps) (simp add: case_prod_beta)
  qed
qed

lemma reads_expr_list:
  assumes "\<forall>e \<in> set es. printable e" "es \<noteq> []"
  shows "reads (expr_ends - {COMMA}) parse_expr_list (separated (map (expr_tokens 0) es)) es"
proof (cases es)
  case (Cons e es')
  show ?thesis
    unfolding reads_def
  proof (intro allI impI)
    fix p ys errs
    let ?rest = "concat (map (\<lambda>ts. punct COMMA # ts) (map (expr_tokens 0) es')) @ ys"
    assume p: "at_tokens p (separated (map (expr_tokens 0) es) @ ys) errs" and ys: "head_type ys \<in> expr_ends - {COMMA}"
    have p': "at_tokens p (expr_tokens 0 e @ ?rest) errs"
      using p by (simp add: Cons)
    have h: "head_type ?rest \<in> expr_ends"
      using ys by (cases es') (simp_all add: expr_ends_def precs)
    have e: "printable e" "\<forall>e \<in> set es'. printable e"
      using assms by (simp_all add: Cons)
    note 1 = readsD [OF reads_expr [OF e(1)] p' h]
    note 2 = readsD [OF reads_more_exprs [OF e(2)] conjunct2 [OF 1] ys]
    show "fst (parse_expr_list p) = es \<and> at_tokens (snd (parse_expr_list p)) ys errs"
      using 1 2 by (simp add: parse_expr_list_def case_prod_beta Cons)
  qed
qed (use assms in simp)

definition where_tokens :: "expr option \<Rightarrow> ptok list" where
  "where_tokens w = (case w of None \<Rightarrow> [] | Some e \<Rightarrow> kw WHERE # expr_tokens 0 e)"

lemma reads_where:
  assumes "\<forall>e \<in> set_option w. printable e"
  shows "reads (expr_ends - {WHERE}) parse_where (where_tokens w) w"
proof (cases w)
  case None
  then show ?thesis
    by (auto simp: reads_def parse_where_def where_tokens_def at_cur)
next
  case (Some e)
  show ?thesis
    unfolding reads_def
  proof (intro allI impI)
    fix p ys es
    assume p: "at_tokens p (where_tokens w @ ys) es" and ys: "head_type ys \<in> expr_ends - {WHERE}"
    then have p': "at_tokens p (kw WHERE # expr_tokens 0 e @ ys) es"
      by (simp add: Some where_tokens_def)
    have "printable e"
      using assms by (simp add: Some)
    from readsD [OF reads_expr [OF this] at_advance [OF p']] show
      "fst (parse_where p) = w \<and> at_tokens (snd (parse_where p)) ys es"
      using ys at_cur [OF p'] by (simp add: parse_where_def case_prod_beta Some)
  qed
qed

definition join_tokens :: "join_clause option \<Rightarrow> ptok list" where
  "join_tokens j = (case j of None \<Rightarrow> []
     | Some c \<Rightarrow> kw JOIN # (IDENT, join_table c) # kw ON # expr_tokens 0 (the (join_condition c)))"

lemma reads_join:
  assumes "\<forall>c \<in> set_option j. \<exists>e. join_condition c = Some e \<and> printable e"
  shows "reads (expr_ends - {INNER, JOIN}) (\<lambda>p. if cur_type p = INNER \<or> cur_type p = JOIN then parse_join p else (None, p)) (join_tokens j) j"
proof (cases j)
  case None
  then show ?thesis
    by (auto simp: reads_def join_tokens_def at_cur)
next
  case (Some c)
  then obtain e where e: "join_condition c = Some e" "printable e"
    using assms by auto
  show ?thesis
    unfolding reads_def
  proof (intro allI impI)
    fix p ys es
    assume p: "at_tokens p (join_tokens j @ ys) es" and ys: "head_type ys \<in> expr_ends - {INNER, JOIN}"
    have p': "at_tokens p (kw JOIN # (IDENT, join_table c) # kw ON # expr_tokens 0 e @ ys) es"
      using p by (simp add: Some join_tokens_def e)
    note 1 = at_skip [OF p', of JOIN, simplified]
    note 2 = at_ident [OF 1]
    note 3 = at_expect_with_error [OF conjunct2 [OF 2], of ON MissingJoinCondition, simplified]
    have y: "head_type ys \<in> expr_ends"
      using ys by simp
    note 4 = readsD [OF reads_expr [OF e(2)] conjunct2 [OF 3] y]
    have c: "cur_type p = JOIN" "cur_type (skip JOIN p) = IDENT"
      using at_cur [OF p'] at_cur [OF 1] by simp_all
    show "fst (if cur_type p = INNER \<or> cur_type p = JOIN then parse_join p else (None, p)) = j \<and>
        at_tokens (snd (if cur_type p = INNER \<or> cur_type p = JOIN then parse_join p else (None, p))) ys es"
      using 2 3 4 c by (simp add: parse_join_def case_prod_beta Let_def Some e join_clause.equality)
  qed
qed

definition order_tokens :: "order_by_clause option \<Rightarrow> ptok list" where
  "order_tokens ob = (case ob of None \<Rightarrow> []
     | Some c \<Rightarrow> kw ORDER # kw BY # (IDENT, ob_column c) # (if ob_desc c then [kw DESC] else []))"

lemma reads_order: "reads (UNIV - {ORDER, DESC, ASC}) parse_order_by (order_tokens ob) ob"
proof (cases ob)
  case None
  then show ?thesis
    by (auto simp: reads_def parse_order_by_def order_tokens_def at_cur)
next
  case (Some c)
  show ?thesis
    unfolding reads_def
  proof (intro allI impI)
    fix p ys es
    assume p: "at_tokens p (order_tokens ob @ ys) es" and ys: "head_type ys \<in> UNIV - {ORDER, DESC, ASC}"
    have p': "at_tokens p (kw ORDER # kw BY # (IDENT, ob_column c) # (if ob_desc c then [kw DESC] else []) @ ys) es"
      using p by (simp add: Some order_tokens_def)
    note 1 = at_skip [OF at_advance [OF p'], of BY, simplified]
    note 2 = at_ident [OF 1]
    show "fst (parse_order_by p) = ob \<and> at_tokens (snd (parse_order_by p)) ys es"
    proof (cases "ob_desc c")
      case True
      then have q: "at_tokens (snd (expect_ident (skip BY (ps_advance p)))) (kw DESC # ys) es"
        using 2 by simp
      show ?thesis
        using True 2 at_cur [OF p'] at_cur [OF q] at_advance [OF q]
        by (simp add: parse_order_by_def case_prod_beta Some order_by_clause.equality)
    next
      case False
      then have q: "at_tokens (snd (expect_ident (skip BY (ps_advance p)))) ys es"
        using 2 by simp
      show ?thesis
        using False 2 ys at_cur [OF p'] at_cur [OF q]
        by (simp add: parse_order_by_def case_prod_beta Some order_by_clause.equality)
    qed
  qed
qed

definition limit_tokens :: "int option \<Rightarrow> ptok list" where
  "limit_tokens l = (case l of None \<Rightarrow> [] | Some n \<Rightarrow> [kw LIMIT, (INT_LIT, show_nat (nat n))])"

lemma parse_int_nat: "0 \<le> n \<Longrightarrow> n < 2 ^ 63 \<Longrightarrow> parse_int (show_nat (nat n)) = n"
  by (simp add: parse_int_def read_show_nat)

lemma reads_limit:
  assumes "\<forall>n \<in> set_option l. 0 \<le> n \<and> n < 2 ^ 63"
  shows "reads (UNIV - {LIMIT}) parse_limit (limit_tokens l) l"
proof (cases l)
  case None
  then show ?thesis
    by (auto simp: reads_def parse_limit_def limit_tokens_def at_cur)
next
  case (Some n)
  show ?thesis
    unfolding reads_def
  proof (intro allI impI)
    fix p ys es
    assume "at_tokens p (limit_tokens l @ ys) es"
    then have p: "at_tokens p (kw LIMIT # (INT_LIT, show_nat (nat n)) # ys) es"
      by (simp add: Some limit_tokens_def)
    note q = at_advance [OF p]
    show "fst (parse_limit p) = l \<and> at_tokens (snd (parse_limit p)) ys es"
      using assms at_cur [OF p] at_cur [OF q] at_literal [OF q] at_advance [OF q]
      by (simp add: parse_limit_def Let_def Some parse_int_nat)
  qed
qed

lemma separated_Cons: "separated (ts # tss) = ts @ (if tss = [] then [] else punct COMMA # separated tss)"
  by (cases tss) simp_all

definition assignment_tokens :: "assignment \<Rightarrow> ptok list" where
  "assignment_tokens a = (IDENT, as_column a) # punct EQ # expr_tokens 0 (as_value a)"

lemma reads_assignment:
  assumes "printable (as_value a)"
  shows "reads expr_ends parse_assignment (assignment_tokens a) a"
  unfolding reads_def
proof (intro allI impI)
  fix p ys es
  assume "at_tokens p (assignment_tokens a @ ys) es" and ys: "head_type ys \<in> expr_ends"
  then have p: "at_tokens p ((IDENT, as_column a) # punct EQ # expr_tokens 0 (as_value a) @ ys) es"
    by (simp add: assignment_tokens_def)
  note 1 = at_ident [OF p]
  note 2 = at_skip [OF conjunct2 [OF 1], of EQ, simplified]
  show "fst (parse_assignment p) = a \<and> at_tokens (snd (parse_assignment p)) ys es"
    using 1 readsD [OF reads_expr [OF assms] 2 ys] by (simp add: parse_assignment_def case_prod_beta assignment.equality)
qed

lemma reads_assignments:
  assumes "\<forall>a \<in> set as. printable (as_value a)" "as \<noteq> []"
  shows "reads (expr_ends - {COMMA}) parse_assignments (separated (map assignment_tokens as)) as"
  using assms
proof (induction as)
  case (Cons a as)
  show ?case
    unfolding reads_def
  proof (intro allI impI)
    fix p ys es
    assume p: "at_tokens p (separated (map assignment_tokens (a # as)) @ ys) es" and ys: "head_type ys \<in> expr_ends - {COMMA}"
    have a: "printable (as_value a)"
      using Cons.prems by simp
    have s: "parse_assignments p = (case parse_assignment p of (a, q) \<Rightarrow>
        if cur_type q \<noteq> COMMA then ([a], q) else case parse_assignments (ps_advance q) of (as, r) \<Rightarrow> (a # as, r))"
      by (rule parse_assignments.simps)
    show "fst (parse_assignments p) = a # as \<and> at_tokens (snd (parse_assignments p)) ys es"
    proof (cases "as = []")
      case True
      then have p': "at_tokens p (assignment_tokens a @ ys) es"
        using p by simp
      have ys': "head_type ys \<in> expr_ends"
        using ys by simp
      note 1 = readsD [OF reads_assignment [OF a] p' ys']
      then show ?thesis
        using True ys at_cur [OF conjunct2 [OF 1]] by (simp add: s case_prod_beta)
    next
      case False
      then have p': "at_tokens p (assignment_tokens a @ punct COMMA # separated (map assignment_tokens as) @ ys) es"
        using p by (simp add: separated_Cons del: separated.simps)
      have h: "head_type (punct COMMA # separated (map assignment_tokens as) @ ys) \<in> expr_ends"
        by (simp add: expr_ends_def precs)
      note 1 = readsD [OF reads_assignment [OF a] p' h]
      have "reads (expr_ends - {COMMA}) parse_assignments (separated (map assignment_tokens as)) as"
        using Cons False by simp
      from readsD [OF this at_advance [OF conjunct2 [OF 1]] ys] show ?thesis
        using 1 at_cur [OF conjunct2 [OF 1]] by (simp add: s case_prod_beta)
    qed
  qed
qed simp

section \<open>Column definitions\<close>

definition type_tokens :: "data_type \<Rightarrow> ptok list" where
  "type_tokens dt = (case dt_kind dt of
     KindIntType \<Rightarrow> [(IDENT, ''INT'')]
   | KindBoolType \<Rightarrow> [(IDENT, ''BOOL'')]
   | KindVarcharType \<Rightarrow> [(IDENT, ''VARCHAR''), punct LPAREN, (INT_LIT, show_nat (nat (dt_length dt))), punct RPAREN])"

definition column_tokens :: "column \<Rightarrow> ptok list" where
  "column_tokens c = (IDENT, col_name c) # type_tokens (col_type c) @
     (if primary_key c then [kw PRIMARY, kw KEY] else if not_null c then [kw NOT_TOK, kw NULL] else [])"

definition printable_column :: "column \<Rightarrow> bool" where
  "printable_column c \<longleftrightarrow> (primary_key c \<longrightarrow> not_null c) \<and>
     (if dt_kind (col_type c) = KindVarcharType then 0 \<le> dt_length (col_type c) \<and> dt_length (col_type c) < 2 ^ 63
      else dt_length (col_type c) = 0)"

lemma upper_types: "to_upper ''INT'' = ''INT''" "to_upper ''BOOL'' = ''BOOL''" "to_upper ''VARCHAR'' = ''VARCHAR''"
  by code_simp+

lemma reads_type:
  assumes "if dt_kind dt = KindVarcharType then 0 \<le> dt_length dt \<and> dt_length dt < 2 ^ 63 else dt_length dt = 0"
  shows "reads UNIV parse_type (type_tokens dt) (Some dt)"
  unfolding reads_def
proof (intro allI impI)
  fix p ys es
  assume p: "at_tokens p (type_tokens dt @ ys) es"
  show "fst (parse_type p) = Some dt \<and> at_tokens (snd (parse_type p)) ys es"
  proof (cases "dt_kind dt")
    case KindVarcharType
    then have p': "at_tokens p ((IDENT, ''VARCHAR'') # punct LPAREN # (INT_LIT, show_nat (nat (dt_length dt))) # punct RPAREN # ys) es"
      using p by (simp add: type_tokens_def)
    note 1 = at_skip [OF at_advance [OF p'], of LPAREN, simplified]
    note 2 = at_skip [OF at_advance [OF 1], of RPAREN, simplified]
    show ?thesis
      using assms KindVarcharType at_literal [OF p'] at_cur [OF 1] at_literal [OF 1] 2
      by (simp add: parse_type_def Let_def upper_types parse_int_nat data_type.equality)
  next
    case KindIntType
    then have p': "at_tokens p ((IDENT, ''INT'') # ys) es"
      using p by (simp add: type_tokens_def)
    show ?thesis
      using assms KindIntType at_literal [OF p'] at_advance [OF p'] by (simp add: parse_type_def Let_def upper_types data_type.equality)
  next
    case KindBoolType
    then have p': "at_tokens p ((IDENT, ''BOOL'') # ys) es"
      using p by (simp add: type_tokens_def)
    show ?thesis
      using assms KindBoolType at_literal [OF p'] at_advance [OF p'] by (simp add: parse_type_def Let_def upper_types data_type.equality)
  qed
qed

lemma read_column:
  assumes c: "printable_column c" and p: "at_tokens p (column_tokens c @ ys) es" and ys: "head_type ys \<in> {COMMA, RPAREN}"
    and n: "2 \<le> n"
  obtains q where "parse_column_def n p = Some ((c, primary_key c), q)" "at_tokens q ys es"
proof -
  let ?attr = "if primary_key c then [kw PRIMARY, kw KEY] else if not_null c then [kw NOT_TOK, kw NULL] else []"
  let ?col = "\<lparr>col_name = col_name c, col_type = col_type c, primary_key = False, not_null = False\<rparr>"
  have p': "at_tokens p ((IDENT, col_name c) # type_tokens (col_type c) @ ?attr @ ys) es"
    using p by (simp add: column_tokens_def)
  note 1 = at_ident [OF p']
  have dt: "if dt_kind (col_type c) = KindVarcharType then 0 \<le> dt_length (col_type c) \<and> dt_length (col_type c) < 2 ^ 63
      else dt_length (col_type c) = 0"
    using c unfolding printable_column_def by blast
  note 2 = readsD [OF reads_type [OF dt] conjunct2 [OF 1] UNIV_I]
  define q where "q = snd (parse_type (snd (expect_ident p)))"
  have q: "at_tokens q (?attr @ ys) es"
    using 2 unfolding q_def by blast
  have pd: "parse_column_def n p = column_attributes n ?col False q"
    using 1 2 by (simp add: parse_column_def_def case_prod_beta Let_def q_def)
  obtain m where m: "n = Suc (Suc m)"
    using n by (metis add_2_eq_Suc le_Suc_ex)
  have stop: "cur_type r \<in> {COMMA, RPAREN}" if "at_tokens r ys es" for r
    using at_cur [OF that] ys by auto
  note pd = pd [unfolded m]
  consider (pk) "primary_key c" | (nn) "\<not> primary_key c" "not_null c" | (no) "\<not> primary_key c" "\<not> not_null c"
    by blast
  then show thesis
  proof cases
    case pk
    then have q': "at_tokens q (kw PRIMARY # kw KEY # ys) es"
      using q by simp
    note r = at_skip [OF at_advance [OF q'], of KEY, simplified]
    show thesis
      using pk c at_cur [OF q'] stop [OF r] r unfolding m
      by (intro that [of "skip KEY (ps_advance q)"]) (auto simp: m pd printable_column_def column.equality)
  next
    case nn
    then have q': "at_tokens q (kw NOT_TOK # kw NULL # ys) es"
      using q by simp
    note r = at_skip [OF at_advance [OF q'], of NULL, simplified]
    show thesis
      using nn at_cur [OF q'] stop [OF r] r
      by (intro that [of "skip NULL (ps_advance q)"]) (auto simp: m pd column.equality)
  next
    case no
    then have q': "at_tokens q ys es"
      using q by simp
    show thesis
      using no stop [OF q'] q' by (intro that [of q]) (auto simp: m pd column.equality)
  qed
qed

lemma read_columns:
  assumes "\<forall>c \<in> set cols. printable_column c" "cols \<noteq> []" "pks + length (filter primary_key cols) \<le> 1" "length cols + 2 \<le> n"
    and "at_tokens p (separated (map column_tokens cols) @ punct RPAREN # ys) es"
  shows "\<exists>q. parse_columns n pks acc p = Some (acc @ cols, q) \<and> at_tokens q (punct RPAREN # ys) es"
  using assms
proof (induction cols arbitrary: n pks acc p)
  case (Cons c cols)
  obtain m where n: "n = Suc m" "length cols + 2 \<le> m"
    using Cons.prems(4) by (cases n) auto
  let ?next = "(if cols = [] then [] else punct COMMA # separated (map column_tokens cols)) @ punct RPAREN # ys"
  have p: "at_tokens p (column_tokens c @ ?next) es"
    using Cons.prems(5) by (simp add: separated_Cons del: separated.simps)
  have cur: "cur_type p = IDENT"
    using at_cur [OF p] by (simp add: column_tokens_def)
  have c: "printable_column c" and h: "head_type ?next \<in> {COMMA, RPAREN}" and m: "2 \<le> m"
    using Cons.prems(1) n by auto
  obtain q where q: "parse_column_def m p = Some ((c, primary_key c), q)" "at_tokens q ?next es"
    by (rule read_column [OF c p h m])
  have once: "\<not> (primary_key c \<and> Suc pks > 1)"
    using Cons.prems(3) by auto
  have step: "parse_columns n pks acc p =
      parse_columns m (if primary_key c then pks + 1 else pks) (acc @ [c]) (if cur_type q = COMMA then ps_advance q else q)"
    using q(1) cur once by (simp add: n(1) Let_def)
  show ?case
  proof (cases "cols = []")
    case True
    then have q': "at_tokens q (punct RPAREN # ys) es"
      using q(2) by simp
    obtain k where "m = Suc k"
      using n by (cases m) auto
    then show ?thesis
      using True at_cur [OF q'] q' by (simp add: step)
  next
    case False
    then have q': "at_tokens q (punct COMMA # separated (map column_tokens cols) @ punct RPAREN # ys) es"
      using q(2) by simp
    have "\<exists>r. parse_columns m (if primary_key c then pks + 1 else pks) (acc @ [c]) (ps_advance q) = Some ((acc @ [c]) @ cols, r) \<and>
        at_tokens r (punct RPAREN # ys) es"
      using Cons.prems False n by (intro Cons.IH at_advance [OF q']) auto
    then show ?thesis
      using at_cur [OF q'] by (simp add: step)
  qed
qed simp

end
