(* ===== verification/Sql.thy ===== *)
theory Sql
  imports Parser_Print
begin

text \<open>
  SQL as a whole: from the text of a statement to its syntax tree. \<open>statement_tokens\<close> writes a statement;
  \<open>Parse\<close> reads it back from any text that lays these tokens out.
\<close>

section \<open>Writing statements\<close>

definition select_tokens :: "select_statement \<Rightarrow> ptok list" where
  "select_tokens s = kw SELECT # separated (map (expr_tokens 0) (sel_columns s)) @ kw FROM # (IDENT, sel_table s) #
     join_tokens (sel_join s) @ where_tokens (sel_where s) @ order_tokens (sel_order_by s) @ limit_tokens (sel_limit s)"

fun statement_tokens :: "statement \<Rightarrow> ptok list" where
  "statement_tokens (SelectStatement s) = select_tokens s"
| "statement_tokens (InsertStatement t vs) =
     kw INSERT # kw INTO # (IDENT, t) # kw VALUES # punct LPAREN # separated (map (expr_tokens 0) vs) @ [punct RPAREN]"
| "statement_tokens (UpdateStatement t as w) =
     kw UPDATE # (IDENT, t) # kw SET # separated (map assignment_tokens as) @ where_tokens w"
| "statement_tokens (DeleteStatement t w) = kw DELETE # kw FROM # (IDENT, t) # where_tokens w"
| "statement_tokens (CreateTableStatement t cols) =
     kw CREATE # kw TABLE # (IDENT, t) # punct LPAREN # separated (map column_tokens cols) @ [punct RPAREN]"
| "statement_tokens (DropTableStatement t) = [kw DROP, kw TABLE, (IDENT, t)]"
| "statement_tokens BeginStatement = [kw BEGIN]"
| "statement_tokens CommitStatement = [kw COMMIT]"
| "statement_tokens RollbackStatement = [kw ROLLBACK]"

definition printable_select :: "select_statement \<Rightarrow> bool" where
  "printable_select s \<longleftrightarrow> sel_columns s \<noteq> [] \<and> (\<forall>e \<in> set (sel_columns s). printable e) \<and>
     (\<forall>c \<in> set_option (sel_join s). \<exists>e. join_condition c = Some e \<and> printable e) \<and>
     (\<forall>e \<in> set_option (sel_where s). printable e) \<and> (\<forall>n \<in> set_option (sel_limit s). 0 \<le> n \<and> n < 2 ^ 63)"

fun printable_statement :: "statement \<Rightarrow> bool" where
  "printable_statement (SelectStatement s) \<longleftrightarrow> printable_select s"
| "printable_statement (InsertStatement t vs) \<longleftrightarrow> vs \<noteq> [] \<and> (\<forall>e \<in> set vs. printable e)"
| "printable_statement (UpdateStatement t as w) \<longleftrightarrow>
     as \<noteq> [] \<and> (\<forall>a \<in> set as. printable (as_value a)) \<and> (\<forall>e \<in> set_option w. printable e)"
| "printable_statement (DeleteStatement t w) \<longleftrightarrow> (\<forall>e \<in> set_option w. printable e)"
| "printable_statement (CreateTableStatement t cols) \<longleftrightarrow>
     cols \<noteq> [] \<and> (\<forall>c \<in> set cols. printable_column c) \<and> length (filter primary_key cols) \<le> 1"
| "printable_statement _ \<longleftrightarrow> True"

section \<open>Reading statements\<close>

lemma clause_heads:
  assumes "head_type ys \<in> stmt_ends"
  shows "head_type (limit_tokens l @ ys) \<in> {LIMIT, EOF, SEMICOLON}"
    "head_type (order_tokens ob @ limit_tokens l @ ys) \<in> {ORDER, LIMIT, EOF, SEMICOLON}"
    "head_type (where_tokens w @ order_tokens ob @ limit_tokens l @ ys) \<in> {WHERE, ORDER, LIMIT, EOF, SEMICOLON}"
    "head_type (where_tokens w @ ys) \<in> {WHERE, EOF, SEMICOLON}"
  using assms by (auto simp: stmt_ends_def limit_tokens_def order_tokens_def where_tokens_def split: option.split)

lemma ends_expr: "{WHERE, ORDER, LIMIT, EOF, SEMICOLON, FROM, RPAREN, JOIN} \<subseteq> expr_ends"
  by (simp add: expr_ends_def precs)

lemma expr_tokens_head: "expr_tokens m e \<noteq> [] \<and> EOF \<notin> fst ` set (expr_tokens m e)"
proof (induction e arbitrary: m)
  case (BinaryExpr l op r)
  have "fst (op_token op) \<noteq> EOF"
    by (cases op) simp_all
  then show ?case
    using BinaryExpr by (auto simp: in_parens_def image_iff)
qed (auto simp: in_parens_def)

lemma expr_list_head: "es \<noteq> [] \<Longrightarrow> head_type (separated (map (expr_tokens 0) es) @ ys) \<noteq> EOF"
proof (cases es)
  case (Cons e es')
  obtain t ts where "expr_tokens 0 e = t # ts" "fst t \<noteq> EOF"
    using expr_tokens_head [of 0 e] by (cases "expr_tokens 0 e") auto
  then show ?thesis
    by (simp add: Cons)
qed simp

lemma read_select:
  assumes s: "printable_select s" and p: "at_tokens p (select_tokens s @ ys) es" and ys: "head_type ys \<in> stmt_ends"
  shows "fst (parse_select p) = s \<and> at_tokens (snd (parse_select p)) ys es"
proof -
  note s = s [unfolded printable_select_def]
  let ?l = "limit_tokens (sel_limit s) @ ys"
  let ?o = "order_tokens (sel_order_by s) @ ?l"
  let ?w = "where_tokens (sel_where s) @ ?o"
  let ?j = "join_tokens (sel_join s) @ ?w"
  note heads = clause_heads [OF ys]
  have p0: "at_tokens p (kw SELECT # separated (map (expr_tokens 0) (sel_columns s)) @ kw FROM # (IDENT, sel_table s) # ?j) es"
    using p by (simp add: select_tokens_def)
  note 1 = at_skip [OF p0, of SELECT, simplified]
  have ne: "cur_type (skip SELECT p) \<noteq> EOF"
    using at_cur [OF 1] expr_list_head s by simp
  have h2: "head_type (kw FROM # (IDENT, sel_table s) # ?j) \<in> expr_ends - {COMMA}"
    by (simp add: expr_ends_def precs)
  note 2 = readsD [OF reads_expr_list 1 h2]
  have 2: "fst (parse_expr_list (skip SELECT p)) = sel_columns s"
    "at_tokens (snd (parse_expr_list (skip SELECT p))) (kw FROM # (IDENT, sel_table s) # ?j) es"
    using 2 s by simp_all
  note 3 = at_expect_with_error [OF 2(2), of FROM MissingFromClause, simplified]
  note 4 = at_ident [OF conjunct2 [OF 3]]
  have h5: "head_type ?w \<in> expr_ends - {INNER, JOIN}"
    using heads(3) [of "sel_where s" "sel_order_by s" "sel_limit s"] ends_expr by auto
  have js: "\<forall>c \<in> set_option (sel_join s). \<exists>e. join_condition c = Some e \<and> printable e"
    using s by blast
  note 5 = readsD [OF reads_join [OF js] conjunct2 [OF 4] h5]
  have h6: "head_type ?o \<in> expr_ends - {WHERE}"
    using heads(2) [of "sel_order_by s" "sel_limit s"] ends_expr by auto
  have ws: "\<forall>e \<in> set_option (sel_where s). printable e"
    using s by blast
  note 6 = readsD [OF reads_where [OF ws] conjunct2 [OF 5] h6]
  have h7: "head_type ?l \<in> UNIV - {ORDER, DESC, ASC}"
    using heads(1) [of "sel_limit s"] by auto
  note 7 = readsD [OF reads_order conjunct2 [OF 6] h7]
  have h8: "head_type ys \<in> UNIV - {LIMIT}"
    using ys by (auto simp: stmt_ends_def)
  have ls: "\<forall>n \<in> set_option (sel_limit s). 0 \<le> n \<and> n < 2 ^ 63"
    using s by blast
  note 8 = readsD [OF reads_limit [OF ls] conjunct2 [OF 7] h8]
  show ?thesis
    using ne 2(1) 3 4 5 6 7 8 unfolding parse_select_def Let_def case_prod_beta
    by (simp only: if_False fst_conv snd_conv simp_thms) simp
qed

lemma read_statement:
  assumes s: "printable_statement s" and p: "at_tokens p (statement_tokens s @ ys) es" and ys: "head_type ys \<in> stmt_ends"
    and n: "\<forall>t cols. s = CreateTableStatement t cols \<longrightarrow> length cols + 2 \<le> n"
  obtains q where "parse_statement n p = Some (Some s, q)" "at_tokens q ys es"
proof (cases s)
  case (SelectStatement x)
  have "cur_type p = SELECT"
    using at_cur [OF p] by (simp add: SelectStatement select_tokens_def)
  then show thesis
    using read_select [of x p ys es] s p ys
    by (intro that [of "snd (parse_select p)"]) (simp_all add: SelectStatement parse_statement_def case_prod_beta)
next
  case (InsertStatement t vs)
  have p0: "at_tokens p (kw INSERT # kw INTO # (IDENT, t) # kw VALUES # punct LPAREN # separated (map (expr_tokens 0) vs) @ punct RPAREN # ys) es"
    using p by (simp add: InsertStatement)
  note 1 = at_ident [OF at_skip [OF at_skip [OF p0, of INSERT, simplified], of INTO, simplified]]
  note 2 = at_skip [OF at_skip [OF conjunct2 [OF 1], of VALUES, simplified], of LPAREN, simplified]
  have h: "head_type (punct RPAREN # ys) \<in> expr_ends - {COMMA}"
    by (simp add: expr_ends_def precs)
  have vs: "\<forall>e \<in> set vs. printable e" "vs \<noteq> []"
    using s by (simp_all add: InsertStatement)
  note 3 = readsD [OF reads_expr_list [OF vs] 2 h]
  note 4 = at_skip [OF conjunct2 [OF 3], of RPAREN, simplified]
  show thesis
    using 1 3 at_cur [OF p0] by (intro that [OF _ 4]) (simp add: InsertStatement parse_statement_def parse_insert_def case_prod_beta)
next
  case (UpdateStatement t as w)
  have p0: "at_tokens p (kw UPDATE # (IDENT, t) # kw SET # separated (map assignment_tokens as) @ where_tokens w @ ys) es"
    using p by (simp add: UpdateStatement)
  note 1 = at_ident [OF at_skip [OF p0, of UPDATE, simplified]]
  note 2 = at_skip [OF conjunct2 [OF 1], of SET, simplified]
  have h: "head_type (where_tokens w @ ys) \<in> expr_ends - {COMMA}" and h': "head_type ys \<in> expr_ends - {WHERE}"
    using clause_heads(4) [OF ys, of w] ys ends_expr by (auto simp: stmt_ends_def)
  have as: "\<forall>a \<in> set as. printable (as_value a)" "as \<noteq> []" and w: "\<forall>e \<in> set_option w. printable e"
    using s by (simp_all add: UpdateStatement)
  note 3 = readsD [OF reads_assignments [OF as] 2 h]
  note 4 = readsD [OF reads_where [OF w] conjunct2 [OF 3] h']
  show thesis
    using 1 3 4 at_cur [OF p0] by (intro that [OF _ conjunct2 [OF 4]]) (simp add: UpdateStatement parse_statement_def parse_update_def case_prod_beta)
next
  case (DeleteStatement t w)
  have p0: "at_tokens p (kw DELETE # kw FROM # (IDENT, t) # where_tokens w @ ys) es"
    using p by (simp add: DeleteStatement)
  note 1 = at_ident [OF at_skip [OF at_skip [OF p0, of DELETE, simplified], of FROM, simplified]]
  have h: "head_type ys \<in> expr_ends - {WHERE}"
    using ys ends_expr by (auto simp: stmt_ends_def)
  have w: "\<forall>e \<in> set_option w. printable e"
    using s by (simp add: DeleteStatement)
  note 2 = readsD [OF reads_where [OF w] conjunct2 [OF 1] h]
  show thesis
    using 1 2 at_cur [OF p0] by (intro that [OF _ conjunct2 [OF 2]]) (simp add: DeleteStatement parse_statement_def parse_delete_def case_prod_beta)
next
  case (CreateTableStatement t cols)
  have p0: "at_tokens p (kw CREATE # kw TABLE # (IDENT, t) # punct LPAREN # separated (map column_tokens cols) @ punct RPAREN # ys) es"
    using p by (simp add: CreateTableStatement)
  note 0 = at_skip [OF at_skip [OF p0, of CREATE, simplified], of TABLE, simplified]
  note 1 = at_ident [OF 0]
  note 2 = at_skip [OF conjunct2 [OF 1], of LPAREN, simplified]
  have c: "\<forall>c \<in> set cols. printable_column c" "cols \<noteq> []" "0 + length (filter primary_key cols) \<le> 1" "length cols + 2 \<le> n"
    using s n by (simp_all add: CreateTableStatement)
  obtain q where q: "parse_columns n 0 [] (skip LPAREN (snd (expect_ident (skip TABLE (skip CREATE p))))) = Some (cols, q)"
    "at_tokens q (punct RPAREN # ys) es"
    using read_columns [OF c 2, of "[]"] by auto
  note 3 = at_skip [OF q(2), of RPAREN, simplified]
  show thesis
    using 1 q(1) c(2) at_cur [OF p0] at_cur [OF 0]
    by (intro that [OF _ 3]) (simp add: CreateTableStatement parse_statement_def parse_create_table_def case_prod_beta Let_def)
next
  case (DropTableStatement t)
  have p0: "at_tokens p (kw DROP # kw TABLE # (IDENT, t) # ys) es"
    using p by (simp add: DropTableStatement)
  note 0 = at_skip [OF at_skip [OF p0, of DROP, simplified], of TABLE, simplified]
  note 1 = at_ident [OF 0]
  show thesis
    using 1 at_cur [OF p0] at_cur [OF 0]
    by (intro that [OF _ conjunct2 [OF 1]]) (simp add: DropTableStatement parse_statement_def parse_drop_table_def case_prod_beta Let_def)
qed (use p at_cur [OF p] at_advance in \<open>auto simp: parse_statement_def intro!: that\<close>)

text \<open>The parser on the text of some tokens.\<close>

lemma at_text:
  assumes "\<forall>(t, w) \<in> set ts. valid_token t \<and> spacing w"
  shows "at_tokens (new_parser (tokenize (new_lexer (layout ts)))) (map fst ts @ [(EOF, [])]) []"
  using tokenize_laid_out [OF assms] by (simp add: at_tokens_def new_parser_def rest_def)

lemma parse_at:
  assumes "parse_statement n (new_parser (tokenize (new_lexer s))) = Some (st, q)" "at_tokens q ys []"
  shows "parse n s = Some (Inr st)"
  using assms by (simp add: parse_def at_tokens_def)

section \<open>Termination\<close>

text \<open>Where the fuel of \<open>CREATE TABLE\<close> cannot run out: no token is \<open>NULL\<close>.\<close>

definition no_null :: "parser \<Rightarrow> bool" where
  "no_null p \<longleftrightarrow> (\<forall>t \<in> set (ps_tokens p). tok_type t \<noteq> NULL)"

lemma no_null_cur: "no_null p \<Longrightarrow> cur_type p \<noteq> NULL"
  by (auto simp: no_null_def cur_def)

lemma no_null_cong [simp]:
  "no_null (ps_advance p) = no_null p" "no_null (add_error k t p) = no_null p" "no_null (snd (expect tt p)) = no_null p"
  "no_null (snd (expect_ident p)) = no_null p" "no_null (snd (parse_type p)) = no_null p"
  by (simp_all add: no_null_def ps_advance_def add_error_def expect_def expect_ident_def parse_type_def Let_def)

lemma cur_add_error [simp]: "cur (add_error k t p) = cur p"
  by (simp add: cur_def add_error_def cong: if_cong)

lemma left_type: "left (snd (parse_type p)) \<le> left p" "cur_type p \<noteq> EOF \<Longrightarrow> left (snd (parse_type p)) < left p"
proof -
  have q: "left (snd (parse_type p)) \<le> left (ps_advance p)"
    using order.trans [OF left_le(2) [of RPAREN] order.trans [OF left_le(1) left_le(2) [of LPAREN]]]
    by (simp add: parse_type_def Let_def)
  show "left (snd (parse_type p)) \<le> left p"
    by (rule order.trans [OF q left_le(1)])
  show "left (snd (parse_type p)) < left p" if "cur_type p \<noteq> EOF"
    using q left_advance_less [OF that] by simp
qed

lemma attributes_end:
  assumes "no_null p"
  obtains r where "\<And>n. left p < n \<Longrightarrow> column_attributes n col pk p = Some r" "left (snd r) \<le> left p" "no_null (snd r)"
  using assms
proof (induction "left p" arbitrary: p col pk thesis rule: less_induct)
  case less
  have again: thesis
    if lt: "left q < left p" and nn: "no_null q" and step: "\<And>n. column_attributes (Suc n) col pk p = column_attributes n col' pk' q"
    for q col' pk'
  proof -
    obtain r where r: "\<And>n. left q < n \<Longrightarrow> column_attributes n col' pk' q = Some r" "left (snd r) \<le> left q" "no_null (snd r)"
      using less.hyps [OF lt _ nn] by metis
    show thesis
    proof (rule less.prems(1) [of r])
      fix n assume "left p < n"
      then obtain m where "n = Suc m" "left q < m"
        using lt by (cases n) auto
      then show "column_attributes n col pk p = Some r"
        using step r(1) by simp
    qed (use r lt in auto)
  qed
  consider "cur_type p = PRIMARY" | "cur_type p = NOT_TOK" | "cur_type p \<notin> {PRIMARY, NOT_TOK, NULL}"
    using no_null_cur [OF less.prems(2)] by auto
  then show ?case
  proof cases
    case 1
    then show ?thesis
      using less.prems(2) le_less_trans [OF left_le(2) left_advance_less, of p KEY]
      by (intro again [of "skip KEY (ps_advance p)"]) simp_all
  next
    case 2
    then show ?thesis
      using less.prems(2) le_less_trans [OF left_le(2) left_advance_less, of p NULL]
      by (intro again [of "skip NULL (ps_advance p)"]) simp_all
  next
    case 3
    then have "column_attributes n col pk p = Some ((col, pk), p)" if "left p < n" for n
      using that by (cases n) auto
    then show ?thesis
      using less.prems by auto
  qed
qed

lemma column_def_ends:
  assumes "no_null p" "cur_type p \<noteq> EOF"
  obtains r where "\<And>n. left p \<le> n \<Longrightarrow> parse_column_def n p = Some r" "left (snd r) < left p" "no_null (snd r)"
proof -
  let ?p1 = "snd (expect_ident p)"
  let ?p2 = "snd (parse_type ?p1)"
  let ?p3 = "if fst (parse_type ?p1) = None then add_error InvalidDataType (cur ?p2) ?p2 else ?p2"
  let ?t = "case fst (parse_type ?p1) of Some t \<Rightarrow> t | None \<Rightarrow> \<lparr>dt_kind = KindIntType, dt_length = 0\<rparr>"
  have "left ?p2 < left p"
  proof (cases "cur_type p = IDENT")
    case True
    then have "left ?p1 < left p"
      using left_advance_less [OF assms(2)] by (simp add: expect_ident_def)
    then show ?thesis
      using left_type(1) [of ?p1] by simp
  next
    case False
    then have "?p1 = add_error UnexpectedToken (cur p) p"
      by (simp add: expect_ident_def)
    then have "cur_type ?p1 \<noteq> EOF" "left ?p1 = left p"
      using assms(2) by simp_all
    then show ?thesis
      using left_type(2) [of ?p1] by simp
  qed
  then have lt: "left ?p3 < left p"
    by simp
  have nn: "no_null ?p3"
    using assms(1) by simp
  obtain r where r: "\<And>n. left ?p3 < n \<Longrightarrow>
      column_attributes n \<lparr>col_name = fst (expect_ident p), col_type = ?t, primary_key = False, not_null = False\<rparr> False ?p3 = Some r"
    "left (snd r) \<le> left ?p3" "no_null (snd r)"
    by (rule attributes_end [OF nn]) blast
  show thesis
  proof (rule that [of r])
    fix n assume "left p \<le> n"
    then have "left ?p3 < n"
      using lt by simp
    from r(1) [OF this] show "parse_column_def n p = Some r"
      unfolding parse_column_def_def case_prod_beta Let_def .
  qed (use r lt in auto)
qed

lemma columns_end:
  assumes "no_null p"
  shows "\<exists>r. \<forall>n > left p. parse_columns n pks cols p = Some r"
  using assms
proof (induction "left p" arbitrary: p pks cols rule: less_induct)
  case less
  show ?case
  proof (cases "cur_type p = RPAREN \<or> cur_type p = EOF")
    case True
    then have "parse_columns n pks cols p = Some (cols, p)" if "left p < n" for n
      using that by (cases n) auto
    then show ?thesis by blast
  next
    case False
    then have e: "cur_type p \<noteq> EOF" by simp
    obtain r where r: "\<And>n. left p \<le> n \<Longrightarrow> parse_column_def n p = Some r" "left (snd r) < left p" "no_null (snd r)"
      by (rule column_def_ends [OF less.prems e]) blast
    obtain col pk q where rq: "r = ((col, pk), q)"
      by (metis prod.exhaust)
    let ?pks = "if pk then pks + 1 else pks"
    let ?q = "if pk \<and> ?pks > 1 then add_error DuplicatePrimaryKey (cur q) q else q"
    let ?q' = "if cur_type ?q = COMMA then ps_advance ?q else ?q"
    have q: "left ?q' < left p" "no_null ?q'"
      using r(2,3) le_less_trans [OF left_le(1) [of ?q]] by (simp_all add: rq)
    obtain x where x: "\<forall>n > left ?q'. parse_columns n ?pks (cols @ [col]) ?q' = Some x"
      using less.hyps [OF q] by blast
    have "parse_columns n pks cols p = Some x" if "left p < n" for n
    proof -
      obtain m where m: "n = Suc m" "left p \<le> m"
        using \<open>left p < n\<close> by (metis Suc_le_D Suc_le_mono Suc_leI)
      show ?thesis
        using False r(1) [OF m(2)] x q(1) m unfolding rq by (simp add: Let_def del: split_paired_All split: if_split_asm)
    qed
    then show ?thesis by blast
  qed
qed

lemma parse_written_ok:
  assumes "printable_statement s" "map fst ts = statement_tokens s @ ys" "head_type ys \<in> stmt_ends"
    and "\<forall>(t, w) \<in> set ts. valid_token t \<and> spacing w" "length ts \<le> n"
  shows "parse n (layout ts) = Some (Inr (Some s))"
proof -
  let ?p = "new_parser (tokenize (new_lexer (layout ts)))"
  have p: "at_tokens ?p (statement_tokens s @ ys @ [(EOF, [])]) []"
    using at_text [OF assms(4)] assms(2) by simp
  have ys: "head_type (ys @ [(EOF, [])]) \<in> stmt_ends"
    using assms(3) by (cases ys) (simp_all add: stmt_ends_def)
  have l: "length ts = length (statement_tokens s) + length ys"
    using arg_cong [OF assms(2), of length] by simp
  have sep: "length tss \<le> length (separated (map column_tokens tss))" for tss
  proof (induction tss)
    case (Cons c tss)
    have "1 \<le> length (column_tokens c)"
      by (simp add: column_tokens_def)
    with Cons show ?case
      by (cases tss) (simp_all add: separated_Cons del: separated.simps)
  qed simp
  have n: "\<forall>t cols. s = CreateTableStatement t cols \<longrightarrow> length cols + 2 \<le> n"
  proof (intro allI impI)
    fix t cols assume "s = CreateTableStatement t cols"
    then show "length cols + 2 \<le> n"
      using assms(5) l sep [of cols] by simp
  qed
  obtain q where "parse_statement n ?p = Some (Some s, q)" "at_tokens q (ys @ [(EOF, [])]) []"
    by (rule read_statement [OF assms(1) p ys n])
  then show ?thesis
    by (rule parse_at)
qed

section \<open>Properties\<close>

text \<open>C37. Parsing undoes writing: a statement written with parentheses only where the precedences of \<open>parseExpr\<close> ask for
  them, laid out in any way, with a semicolon and any tokens after it or with nothing, is parsed to that statement. So the
  operators of \<open>WHERE\<close> bind as their precedences say and associate to the left. \<open>IS NULL\<close> and \<open>IS NOT NULL\<close> follow a primary, so
  they bind tighter than the comparisons, which the documentation of the parser lists on the same level; they are written without
  parentheses unless an operator follows on their level of nesting (\<open>( a IS NULL ) AND b\<close>), because \<open>parseExpr\<close> drops such an
  operator with all that follows (\<open>is_null_drops_rest\<close>).\<close>

theorem parse_written:
  assumes "printable_statement s" "map fst ts = statement_tokens s @ ys" "head_type ys \<in> stmt_ends"
    and "\<forall>(t, w) \<in> set ts. valid_token t \<and> spacing w" "length ts \<le> n"
  shows "parse n (layout ts) = Some (Inr (Some s))"
  by (rule parse_written_ok [OF assms])

text \<open>C39. Parsing ends: unless the input is a \<open>CREATE TABLE\<close> with a token \<open>NULL\<close>, \<open>Parse\<close> returns a statement or errors.\<close>

theorem parse_ends:
  assumes "cur_type (new_parser (tokenize (new_lexer s))) \<noteq> CREATE \<or> (\<forall>t \<in> set (tokenize (new_lexer s)). tok_type t \<noteq> NULL)"
  shows "\<exists>r. \<forall>n > length (tokenize (new_lexer s)). parse n s = Some r"
proof -
  let ?p = "new_parser (tokenize (new_lexer s))"
  have "\<exists>r. \<forall>n > length (tokenize (new_lexer s)). parse_statement n ?p = Some r"
  proof (cases "cur_type ?p = CREATE")
    case False
    have "\<exists>r. \<forall>n. parse_statement n ?p = Some r"
      using False by (cases "cur_type ?p") (simp_all add: parse_statement_def case_prod_beta)
    then show ?thesis by blast
  next
    case True
    let ?q = "skip TABLE (skip CREATE ?p)"
    let ?q2 = "skip LPAREN (snd (expect_ident ?q))"
    have "no_null ?p"
      using assms True by (simp add: no_null_def new_parser_def)
    then have "no_null ?q2" by simp
    then obtain r where r: "\<forall>n > left ?q2. parse_columns n 0 [] ?q2 = Some r"
      using columns_end by blast
    have "left ?q2 \<le> left ?p"
      using order.trans [OF left_le(2) order.trans [OF left_le(4) order.trans [OF left_le(2) left_le(2)]]] .
    then have l: "left ?q2 \<le> length (tokenize (new_lexer s))"
      by (simp add: left_def new_parser_def)
    have "\<exists>x. \<forall>n > left ?q2. parse_create_table n ?p = Some x"
    proof (cases "cur_type ?q = IDENT")
      case True
      then show ?thesis
        using r by (auto simp: parse_create_table_def Let_def case_prod_beta)
    qed (simp add: parse_create_table_def Let_def)
    then show ?thesis
      using True l by (auto simp: parse_statement_def)
  qed
  then obtain r where "\<forall>n > length (tokenize (new_lexer s)). parse_statement n ?p = Some r" by blast
  then have "\<forall>n > length (tokenize (new_lexer s)).
      parse n s = Some ((\<lambda>(st, q). if ps_errors q \<noteq> [] then Inl (ps_errors q) else Inr st) r)"
    by (simp add: parse_def)
  then show ?thesis by blast
qed

text \<open>C40. A lone \<open>NULL\<close> after the type of a column is never consumed: whatever comes after it, \<open>Parse\<close> does not
  return on \<open>CREATE TABLE t (c INT NULL ...\<close>.\<close>

theorem null_attribute_never_returns:
  assumes "map fst ts = kw CREATE # kw TABLE # (IDENT, t) # punct LPAREN # (IDENT, c) # type_tokens dt @ kw NULL # ys"
    and "dt_kind dt = KindVarcharType \<longrightarrow> 0 \<le> dt_length dt \<and> dt_length dt < 2 ^ 63" "dt_kind dt \<noteq> KindVarcharType \<longrightarrow> dt_length dt = 0"
    and "\<forall>(t, w) \<in> set ts. valid_token t \<and> spacing w"
  shows "parse n (layout ts) = None"
proof -
  let ?p = "new_parser (tokenize (new_lexer (layout ts)))"
  let ?ys = "ys @ [(EOF, [])]"
  have p: "at_tokens ?p (kw CREATE # kw TABLE # (IDENT, t) # punct LPAREN # (IDENT, c) # type_tokens dt @ kw NULL # ?ys) []"
    using at_text [OF assms(4)] assms(1) by simp
  note 0 = at_skip [OF at_skip [OF p, of CREATE, simplified], of TABLE, simplified]
  note 1 = at_ident [OF 0]
  note 2 = at_skip [OF conjunct2 [OF 1], of LPAREN, simplified]
  note 3 = at_ident [OF 2]
  have dt: "if dt_kind dt = KindVarcharType then 0 \<le> dt_length dt \<and> dt_length dt < 2 ^ 63 else dt_length dt = 0"
    using assms(2,3) by simp
  note 4 = readsD [OF reads_type [OF dt] conjunct2 [OF 3] UNIV_I]
  let ?q = "skip LPAREN (snd (expect_ident (skip TABLE (skip CREATE ?p))))"
  let ?r = "snd (parse_type (snd (expect_ident ?q)))"
  have r: "cur_type ?r = NULL"
    using at_cur [OF conjunct2 [OF 4]] by simp
  have stuck: "column_attributes k col pk ?r = None" for k col pk
    using r by (induction k) simp_all
  have "parse_column_def k ?q = None" for k
    using 4 stuck unfolding parse_column_def_def case_prod_beta Let_def by simp
  then have "parse_columns k 0 [] ?q = None" for k
    using at_cur [OF 2] by (cases k) simp_all
  then show ?thesis
    using at_cur [OF p] at_cur [OF 0] 1 by (simp add: parse_def parse_statement_def parse_create_table_def Let_def case_prod_beta)
qed

text \<open>A condition ends at \<open>IS NULL\<close>: in \<open>DELETE FROM t WHERE e IS NULL AND ...\<close> everything after \<open>NULL\<close> is dropped
  without an error, so the statement deletes all rows for which \<open>e\<close> is \<open>NULL\<close>.\<close>

theorem is_null_drops_rest:
  assumes "map fst ts = kw DELETE # kw FROM # (IDENT, t) # kw WHERE # expr_tokens prec_primary e @ kw IS # kw NULL # ys"
    and "printable e" "\<forall>(t, w) \<in> set ts. valid_token t \<and> spacing w"
  shows "parse n (layout ts) = Some (Inr (Some (DeleteStatement t (Some (IsNullExpr e)))))"
proof -
  let ?p = "new_parser (tokenize (new_lexer (layout ts)))" and ?ys = "ys @ [(EOF, [])]"
  have p: "at_tokens ?p (kw DELETE # kw FROM # (IDENT, t) # kw WHERE # expr_tokens prec_primary e @ kw IS # kw NULL # ?ys) []"
    using at_text [OF assms(3)] assms(1) by simp
  note 1 = at_ident [OF at_skip [OF at_skip [OF p, of DELETE, simplified], of FROM, simplified]]
  let ?q = "snd (expect_ident (skip FROM (skip DELETE ?p)))"
  note 2 = at_advance [OF conjunct2 [OF 1]]
  have r: "rest (ps_advance ?q) = expr_tokens prec_primary e @ kw IS # kw NULL # ?ys"
    using 2 by (simp add: at_tokens_def)
  let ?n = "length (expr_tokens prec_primary e)"
  have pp: "parse_primary (ps_advance ?q) = (e, adv ?n (ps_advance ?q))"
    using parses_tokens [OF assms(2)] by (intro parses_primaryD [OF _ r]) (simp_all add: parses_def)
  have c: "cur_type (ps_advance ?q) \<noteq> NOT_TOK"
    using primary_head by (simp add: cur_type_rest r)
  have "parse_expr prec_lowest (ps_advance ?q) = (IsNullExpr e, adv 2 (adv ?n (ps_advance ?q)))"
    by (rule parse_is_null(1) [OF pp c, of ?ys]) (simp add: r)
  then have "parse_statement n ?p = Some (Some (DeleteStatement t (Some (IsNullExpr e))), adv 2 (adv ?n (ps_advance ?q)))"
    using at_cur [OF p] 1 at_cur [OF conjunct2 [OF 1]]
    by (simp add: parse_statement_def parse_delete_def parse_where_def case_prod_beta)
  moreover have "at_tokens (adv 2 (adv ?n (ps_advance ?q))) ?ys []"
    using 2 by (simp add: at_tokens_def)
  ultimately show ?thesis
    by (rule parse_at)
qed

text \<open>Tokens after a statement are not looked at: \<open>DELETE FROM t\<close> followed by anything but \<open>WHERE\<close>, say a misspelt
  \<open>WHERE\<close> with its condition, is the statement that deletes every row of the table.\<close>

theorem misspelt_where_deletes_all:
  assumes "map fst ts = kw DELETE # kw FROM # (IDENT, t) # ys" "head_type ys \<noteq> WHERE" "\<forall>(t, w) \<in> set ts. valid_token t \<and> spacing w"
  shows "parse n (layout ts) = Some (Inr (Some (DeleteStatement t None)))"
proof -
  let ?p = "new_parser (tokenize (new_lexer (layout ts)))"
  have p: "at_tokens ?p (kw DELETE # kw FROM # (IDENT, t) # ys @ [(EOF, [])]) []"
    using at_text [OF assms(3)] assms(1) by simp
  note 1 = at_ident [OF at_skip [OF at_skip [OF p, of DELETE, simplified], of FROM, simplified]]
  have "head_type (ys @ [(EOF, [])]) \<noteq> WHERE"
    using assms(2) by (cases ys) simp_all
  then have "parse_statement n ?p = Some (Some (DeleteStatement t None), snd (expect_ident (skip FROM (skip DELETE ?p))))"
    using at_cur [OF p] 1 at_cur [OF conjunct2 [OF 1]]
    by (simp add: parse_statement_def parse_delete_def parse_where_def case_prod_beta)
  then show ?thesis
    using conjunct2 [OF 1] by (rule parse_at)
qed

subsection \<open>Witnesses\<close>

text \<open>\<open>SELECT a FROM t WHERE (a = 1 OR b IS NULL) AND NOT c IS NOT NULL ORDER BY a DESC LIMIT 3\<close>.\<close>

definition sample_select :: statement where
  "sample_select = SelectStatement
     \<lparr>sel_columns = [Identifier [] ''a''], sel_table = ''t'', sel_join = None,
       sel_where = Some (BinaryExpr (BinaryExpr (BinaryExpr (Identifier [] ''a'') OpEQ (IntLiteral 1)) OpOR
         (IsNullExpr (Identifier [] ''b''))) OpAND (UnaryExpr ''NOT'' (IsNotNullExpr (Identifier [] ''c'')))),
       sel_order_by = Some \<lparr>ob_column = ''a'', ob_desc = True\<rparr>, sel_limit = Some 3\<rparr>"

abbreviation spaced :: "(token_type \<times> string) list \<Rightarrow> ((token_type \<times> string) \<times> string) list" where
  "spaced \<equiv> map (\<lambda>t. (t, '' ''))"

theorem parse_written_witness:
  "parse 99 ''SELECT a FROM t WHERE ( a = 1 OR b IS NULL ) AND NOT c IS NOT NULL ORDER BY a DESC LIMIT 3 ; '' = Some (Inr (Some sample_select))"
proof -
  let ?ts = "spaced (statement_tokens sample_select @ [punct SEMICOLON])"
  have 1: "printable_statement sample_select" "head_type [punct SEMICOLON] \<in> stmt_ends"
    by (simp_all add: sample_select_def printable_select_def punct_def stmt_ends_def)
  have 2: "map fst ?ts = statement_tokens sample_select @ [punct SEMICOLON]" by (simp add: o_def)
  have 3: "\<forall>(t, w) \<in> set ?ts. valid_token t \<and> spacing w" by code_simp
  have 4: "length ?ts \<le> 99" by code_simp
  have 5: "layout ?ts = ''SELECT a FROM t WHERE ( a = 1 OR b IS NULL ) AND NOT c IS NOT NULL ORDER BY a DESC LIMIT 3 ; ''" by code_simp
  show ?thesis
    using parse_written [OF 1(1) 2 1(2) 3 4] unfolding 5 .
qed

theorem parse_ends_witness:
  "\<exists>r. \<forall>n > length (tokenize (new_lexer ''SELEC '')). parse n ''SELEC '' = Some r"
proof (rule parse_ends, rule disjI1)
  have "layout [((IDENT, ''SELEC''), '' '')] = ''SELEC ''" "valid_token (IDENT, ''SELEC'') \<and> spacing '' ''" by code_simp+
  then have t: "map lexed (tokenize (new_lexer ''SELEC '')) = [(IDENT, ''SELEC''), (EOF, [])]"
    using tokenize_laid_out [of "[((IDENT, ''SELEC''), '' '')]"] by simp
  then show "cur_type (new_parser (tokenize (new_lexer ''SELEC ''))) \<noteq> CREATE"
    by (auto simp: cur_def new_parser_def map_eq_Cons_conv lexed_def)
qed

theorem null_attribute_never_returns_witness:
  "parse 99 ''CREATE TABLE t ( c INT NULL ) '' = None"
proof -
  let ?xs = "[kw CREATE, kw TABLE, (IDENT, ''t''), punct LPAREN, (IDENT, ''c''), (IDENT, ''INT''), kw NULL, punct RPAREN]"
  let ?dt = "\<lparr>dt_kind = KindIntType, dt_length = 0\<rparr>"
  have 1: "map fst (spaced ?xs) =
      kw CREATE # kw TABLE # (IDENT, ''t'') # punct LPAREN # (IDENT, ''c'') # type_tokens ?dt @ kw NULL # [punct RPAREN]"
    by code_simp
  have 2: "\<forall>(t, w) \<in> set (spaced ?xs). valid_token t \<and> spacing w" by code_simp
  have 3: "layout (spaced ?xs) = ''CREATE TABLE t ( c INT NULL ) ''" by code_simp
  show ?thesis
    using null_attribute_never_returns [OF 1 _ _ 2] unfolding 3 by simp
qed

theorem is_null_drops_rest_witness:
  "parse 99 ''DELETE FROM t WHERE a IS NULL AND b '' = Some (Inr (Some (DeleteStatement ''t'' (Some (IsNullExpr (Identifier [] ''a''))))))"
proof -
  let ?xs = "[kw DELETE, kw FROM, (IDENT, ''t''), kw WHERE, (IDENT, ''a''), kw IS, kw NULL, kw AND_TOK, (IDENT, ''b'')]"
  have 1: "map fst (spaced ?xs) =
      kw DELETE # kw FROM # (IDENT, ''t'') # kw WHERE # expr_tokens prec_primary (Identifier [] ''a'') @ kw IS # kw NULL # [kw AND_TOK, (IDENT, ''b'')]"
    by code_simp
  have 2: "printable (Identifier [] ''a'')" by code_simp
  have 3: "\<forall>(t, w) \<in> set (spaced ?xs). valid_token t \<and> spacing w" by code_simp
  have 4: "layout (spaced ?xs) = ''DELETE FROM t WHERE a IS NULL AND b ''" by code_simp
  show ?thesis
    using is_null_drops_rest [OF 1 2 3] unfolding 4 .
qed

theorem misspelt_where_deletes_all_witness:
  "parse 99 ''DELETE FROM users WHRE id = 1 '' = Some (Inr (Some (DeleteStatement ''users'' None)))"
proof -
  let ?xs = "[kw DELETE, kw FROM, (IDENT, ''users''), (IDENT, ''WHRE''), (IDENT, ''id''), punct EQ, (INT_LIT, ''1'')]"
  have 1: "map fst (spaced ?xs) = kw DELETE # kw FROM # (IDENT, ''users'') # [(IDENT, ''WHRE''), (IDENT, ''id''), punct EQ, (INT_LIT, ''1'')]"
    by code_simp
  have 2: "head_type [(IDENT, ''WHRE''), (IDENT, ''id''), punct EQ, (INT_LIT, ''1'')] \<noteq> WHERE" by simp
  have 3: "\<forall>(t, w) \<in> set (spaced ?xs). valid_token t \<and> spacing w" by code_simp
  have 4: "layout (spaced ?xs) = ''DELETE FROM users WHRE id = 1 ''" by code_simp
  show ?thesis
    using misspelt_where_deletes_all [OF 1 2 3] unfolding 4 .
qed

end
