(* ===== verification/Client.thy ===== *)
theory Client
  imports Engine_Delete Sql Recovery
begin

text \<open>
  \<open>client/client.go\<close>: the public interface. \<open>Open\<close> recovers a directory and wires the components together, \<open>Exec\<close>
  parses, plans and executes one statement, \<open>Tx\<close> is a transaction the caller commits or rolls back. A \<open>DB\<close> is an
  engine: its disk, log, catalog and manager are the ones the engine refers to.
\<close>

section \<open>Opening\<close>

text \<open>What \<open>Open\<close> finds in a directory: the page file and the log, empty when they are new, and the catalog file.\<close>

record directory =
  dir_created :: bool
  dir_db :: os_file
  dir_wal :: os_file
  dir_catalog :: "catalog_json option"
  dir_writable :: bool

definition default_buffer_pool_size :: int where
  "default_buffer_pool_size = 1000"

fun final_state :: "'a res \<times> 's \<Rightarrow> 's res" where
  "final_state (Ok _, s) = Ok s"
| "final_state (Err e, s) = Err e"
| "final_state (Panic, s) = Panic"
| "final_state (Stuck, s) = Stuck"

fun open_tables :: "catalog \<Rightarrow> string list \<Rightarrow> (btree_repository, unit) go" where
  "open_tables c [] = ret ()"
| "open_tables c (t # ts) = bindG (pureG (get_schema c t)) (\<lambda>sch. bindG (open_table t sch) (\<lambda>_. open_tables c ts))"

definition open_db :: "directory \<Rightarrow> engine res" where
  "open_db d =
     (if \<not> dir_created d then Err EIO
      else
        bindR (new_disk_manager (dir_db d)) (\<lambda>dm.
        bindR (new_wal_manager (dir_wal d)) (\<lambda>wm.
        bindR (final_state (recover wm dm)) (\<lambda>dm.
        bindR (new_catalog (dir_catalog d) (dir_writable d)) (\<lambda>cat.
        bindR (new_btree_repository \<lparr>disk = dm, wal = wm, bpool = new_buffer_pool default_buffer_pool_size\<rparr>) (\<lambda>repo.
        bindR (final_state (open_tables cat (table_names cat) repo)) (\<lambda>repo.
        Ok \<lparr>eng_mgr = new_manager (bt_store repo), eng_schemas = open_schemas repo, eng_catalog = cat, eng_waiting = []\<rparr>)))))))"

section \<open>Scans of a plan\<close>

datatype scan_kind = ScanNone | ScanIndex | ScanSequential

text \<open>The closure \<open>walk\<close> with the variables \<open>hasIndex\<close> and \<open>hasSeq\<close>.\<close>

fun walk_scans :: "plan \<Rightarrow> bool \<times> bool \<Rightarrow> bool \<times> bool" where
  "walk_scans (IndexScanNode _ _ _) (i, q) = (True, q)"
| "walk_scans (SequentialScanNode _ _) (i, q) = (i, True)"
| "walk_scans (FilterNode p _) f = walk_scans p f"
| "walk_scans (ProjectionNode p _) f = walk_scans p f"
| "walk_scans (SortNode p _ _) f = walk_scans p f"
| "walk_scans (LimitNode p _) f = walk_scans p f"
| "walk_scans (NestedLoopJoinNode l r _) f = walk_scans r (walk_scans l f)"
| "walk_scans _ f = f"

definition scan_kind_of :: "plan \<Rightarrow> scan_kind" where
  "scan_kind_of p =
     (case walk_scans p (False, False) of
        (_, True) \<Rightarrow> ScanSequential
      | (True, False) \<Rightarrow> ScanIndex
      | (False, False) \<Rightarrow> ScanNone)"

section \<open>Statements\<close>

record client_result =
  cl_result :: result
  cl_scan :: scan_kind

text \<open>\<open>f\<close> is the fuel of the parser, \<open>k\<close> that of the executors, \<open>n\<close> and \<open>m\<close> that of the tree. A statement \<open>nil\<close> without an
  error would reach the \<open>default\<close> case of \<open>Plan\<close>.\<close>

definition plan_text :: "nat \<Rightarrow> string \<Rightarrow> engine \<Rightarrow> plan res" where
  "plan_text f sql g =
     (case parse f sql of
        None \<Rightarrow> Stuck
      | Some (Inl es) \<Rightarrow> Err (ESyntax (map (\<lambda>e. (pe_line e, pe_col e)) es))
      | Some (Inr None) \<Rightarrow> Err (EUnsupported ''statement'')
      | Some (Inr (Some s)) \<Rightarrow> plan_statement (reader_of (eng_catalog g)) s)"

definition client_exec :: "nat \<Rightarrow> nat \<Rightarrow> nat \<Rightarrow> nat \<Rightarrow> string \<Rightarrow> (engine, client_result) go" where
  "client_exec f k n m sql =
     bindG (\<lambda>g. (plan_text f sql g, g)) (\<lambda>p.
     bindG (engine_execute k n m (\<lambda>_. False) p) (\<lambda>res.
     ret \<lparr>cl_result = res, cl_scan = scan_kind_of p\<rparr>))"

text \<open>A \<open>Tx\<close> holds its database and its transaction object: both are in the state of a call.\<close>

definition client_begin :: "engine \<Rightarrow> call res" where
  "client_begin g = (case on_mgr begin_txn g of
      (Ok t, g) \<Rightarrow> Ok \<lparr>c_engine = g, c_txn = t\<rparr>
    | (Err e, _) \<Rightarrow> Err e | (Panic, _) \<Rightarrow> Panic | (Stuck, _) \<Rightarrow> Stuck)"

definition tx_exec :: "nat \<Rightarrow> nat \<Rightarrow> nat \<Rightarrow> nat \<Rightarrow> string \<Rightarrow> (call, client_result) go" where
  "tx_exec f k n m sql =
     bindG (\<lambda>s. (plan_text f sql (c_engine s), s)) (\<lambda>p.
     bindG (execute_in_txn k n m (\<lambda>_. False) p) (\<lambda>res.
     ret \<lparr>cl_result = res, cl_scan = scan_kind_of p\<rparr>))"

definition tx_end :: "(txn \<Rightarrow> (manager, txn) go) \<Rightarrow> (call, unit) go" where
  "tx_end f s =
     (case f (c_txn s) (eng_mgr (c_engine s)) of (r, m) \<Rightarrow>
        let s' = s\<lparr>c_engine := (c_engine s)\<lparr>eng_mgr := m\<rparr>\<rparr> in
        case r of Ok t \<Rightarrow> (Ok (), s'\<lparr>c_txn := t\<rparr>) | Err e \<Rightarrow> (Err e, s') | Panic \<Rightarrow> (Panic, s') | Stuck \<Rightarrow> (Stuck, s'))"

definition tx_commit :: "(call, unit) go" where
  "tx_commit = tx_end commit"

definition tx_rollback :: "(call, unit) go" where
  "tx_rollback = tx_end rollback"


section \<open>Opening again\<close>

text \<open>The files an engine has written: what a process finds when the one before it has ended at this point.\<close>

definition directory_of :: "engine \<Rightarrow> directory" where
  "directory_of g = \<lparr>dir_created = True, dir_db = dfile (disk (store (eng_mgr g))), dir_wal = wfile (wal (store (eng_mgr g))),
     dir_catalog = cat_file (eng_catalog g), dir_writable = can_write (eng_catalog g)\<rparr>"

text \<open>The engine works with the schemas of the catalog, and the catalog file has them.\<close>

definition catalog_agrees :: "engine \<Rightarrow> bool" where
  "catalog_agrees g \<longleftrightarrow> catalog_ok (eng_catalog g) \<and> eng_schemas g = map_of (schemas (eng_catalog g)) \<and>
     new_catalog (cat_file (eng_catalog g)) (can_write (eng_catalog g)) = Ok (eng_catalog g)"

lemma catalog_agrees_synced: "catalog_ok (eng_catalog g) \<Longrightarrow> synced (eng_catalog g) \<Longrightarrow> eng_schemas g = map_of (schemas (eng_catalog g)) \<Longrightarrow> catalog_agrees g"
  using load_saved by (simp add: catalog_agrees_def)

lemma open_tables_ok:
  "set ts \<subseteq> dom (map_of (schemas c)) \<Longrightarrow> open_tables c ts r =
     (Ok (), r\<lparr>open_schemas := (\<lambda>t. if t \<in> set ts then map_of (schemas c) t else open_schemas r t)\<rparr>)"
proof (induction ts arbitrary: r)
  case Nil
  then show ?case by (simp add: ret_def)
next
  case (Cons t ts)
  then obtain sch where t: "map_of (schemas c) t = Some sch"
    by auto
  have "open_tables c (t # ts) r = open_tables c ts (r\<lparr>open_schemas := (open_schemas r)(t \<mapsto> sch)\<rparr>)"
    by (simp add: bindG_def pureG_def get_schema_def t open_table_def)
  also have "\<dots> = (Ok (), r\<lparr>open_schemas := (\<lambda>u. if u \<in> set ts then map_of (schemas c) u else ((open_schemas r)(t \<mapsto> sch)) u)\<rparr>)"
    using Cons by (simp cong: if_cong)
  also have "(\<lambda>u. if u \<in> set ts then map_of (schemas c) u else ((open_schemas r)(t \<mapsto> sch)) u) =
      (\<lambda>u. if u \<in> set (t # ts) then map_of (schemas c) u else open_schemas r u)"
    using t by (auto simp: fun_eq_iff)
  finally show ?case .
qed

lemma open_all_tables: "open_tables c (table_names c) r = (Ok (), r\<lparr>open_schemas := (\<lambda>t. if map_of (schemas c) t = None then open_schemas r t else map_of (schemas c) t)\<rparr>)"
proof -
  have "set (table_names c) = dom (map_of (schemas c))"
    by (simp add: table_names_def dom_map_of_conv_image_fst)
  moreover from this have "(\<lambda>t. if t \<in> set (table_names c) then map_of (schemas c) t else open_schemas r t) =
      (\<lambda>t. if map_of (schemas c) t = None then open_schemas r t else map_of (schemas c) t)"
    by (auto simp: fun_eq_iff)
  ultimately show ?thesis
    using open_tables_ok [of "table_names c" c r] by simp
qed

lemma root_allocated:
  assumes "btree_ok e h t (obs s)"
  shows "root_page_id (disk s) \<noteq> no_page_id"
proof -
  have "o_view (obs s) (root_of t) \<noteq> None" "root_of t = root_page_id (disk s)"
    using assms by (cases t; auto simp: btree_ok_def)+
  then have "root_page_id (disk s) < next_page_id (disk s)"
    by (metis obs_fields(6))
  moreover have "no_page_id = - 1"
    by (simp add: no_page_id_def)
  ultimately show ?thesis
    by (metis word_order.extremum_strict)
qed

lemma reopen_engine:
  assumes rest: "at_rest e h t n m g" and cat: "catalog_agrees g" and len: "length (fbytes (wfile (wal (store (eng_mgr g))))) < 2 ^ 64"
  obtains g' where "open_db (directory_of g) = Ok g'" "repo_ok e h t (eng_schemas g) n m (repo_view g')"
    "eng_schemas g' = eng_schemas g" "eng_catalog g' = eng_catalog g" "table_locks (eng_mgr g') = (\<lambda>_. free_mutex)" "eng_waiting g' = []"
    "obs (store (eng_mgr g')) = (obs (store (eng_mgr g)))\<lparr>o_max := default_buffer_pool_size, o_view := o_view (obs (store (eng_mgr g')))\<rparr>"
proof -
  let ?s = "store (eng_mgr g)"
  note a = rest [unfolded at_rest_def]
  note rk = conjunct1 [OF a, unfolded repo_ok_def reader_ready_def]
  obtain rs where rs: "wal_holds (wal ?s) rs []"
    using a by blast
  have own: "owner ?s i = None" for i
    using a by (simp add: fun_eq_iff)
  have st: "bt_store (repo_view g) = ?s"
    by (simp add: repo_view_def)
  have "length rs \<le> length (encode_log rs)"
    by (induction rs) (auto simp: encode_record_def be_put_def)
  then have l: "length rs < 2 ^ 64"
    using len rs by (simp add: wal_holds_def)
  have db: "db_ok {} ?s"
    using rk by (simp add: st)
  let ?k = default_buffer_pool_size
  obtain dm where dm: "new_disk_manager (dfile (disk ?s)) = Ok (disk ?s)" "new_wal_manager (wfile (wal ?s)) = Ok (wal ?s)"
    "recover (wal ?s) (disk ?s) = (Ok (), dm)" "db_ok {} (reopened dm (wal ?s) ?k)"
    "next_page_id dm = next_page_id (disk ?s)" "root_page_id dm = root_page_id (disk ?s)"
    "but_lsn (o_view (obs ?s)) (o_view (obs (reopened dm (wal ?s) ?k)))"
    by (rule reopen_committed [OF db own rs l])
  let ?r = "reopened dm (wal ?s) ?k"
  have bt: "btree_ok e h t (obs ?r)"
    using but_lsn_btree [OF dm(7)] rk dm(6) by (simp add: st)
  have nb: "new_btree_repository ?r = Ok \<lparr>bt_store = ?r, open_schemas = (\<lambda>_. None)\<rparr>"
    using root_allocated [OF bt] by (simp add: new_btree_repository_def new_btree_def)
  have ct: "new_catalog (cat_file (eng_catalog g)) (can_write (eng_catalog g)) = Ok (eng_catalog g)"
    using cat by (simp add: catalog_agrees_def)
  let ?g = "\<lparr>eng_mgr = new_manager ?r, eng_schemas = map_of (schemas (eng_catalog g)), eng_catalog = eng_catalog g, eng_waiting = []\<rparr>"
  have o: "open_db (directory_of g) = Ok ?g"
    using dm(1-3) nb ct by (simp add: open_db_def directory_of_def open_all_tables flip: reopened_def cong: if_cong)
  have sch: "eng_schemas g = map_of (schemas (eng_catalog g))"
    using cat by (simp add: catalog_agrees_def)
  have "room 1 (obs ?r)"
    by (simp add: room_def busy_def default_buffer_pool_size_def)
  then have "repo_ok e h t (eng_schemas g) n m (repo_view ?g)"
    using rk bt dm(4) by (simp add: repo_ok_def reader_ready_def repo_view_def new_manager_def sch)
  moreover have "obs ?r = (obs ?s)\<lparr>o_max := ?k, o_view := o_view (obs ?r)\<rparr>"
    using a dm(5,6) by (intro observed.equality) (auto simp: fun_eq_iff)
  ultimately show thesis
    using o sch by (intro that [of ?g]) (simp_all add: new_manager_def)
qed


section \<open>An empty directory\<close>

definition empty_tree :: tree where
  "empty_tree = Leaf 0 [] no_page_id"

lemma open_empty:
  assumes d: "dir_created d" "fbytes (dir_db d) = []" "fbytes (dir_wal d) = []" "dir_catalog d = None"
    and dev: "\<forall>off. rd_ok (dir_db d) off \<and> wr_ok (dir_db d) off" "readable (dir_wal d)" "all_writable (dir_wal d)"
    and e: "env_ok e" and fuel: "0 < n" "1 < m"
  obtains g where "open_db d = Ok g" "at_rest e 0 empty_tree n m g" "catalog_agrees g" "schemas (eng_catalog g) = []"
    "next_table_id (eng_catalog g) = 0" "next_txn_id (eng_mgr g) = 0" "can_write (eng_catalog g) = dir_writable d"
    "fresh_empty (o_view (obs (store (eng_mgr g)))) empty_tree" "o_next (obs (store (eng_mgr g))) = 1"
    "o_max (obs (store (eng_mgr g))) = default_buffer_pool_size"
proof -
  obtain dm where dm: "new_disk_manager (dir_db d) = Ok dm" "disk_ok dm" "root_page_id dm = no_page_id" "next_page_id dm = 0"
    by (rule new_disk_manager_empty [OF d(2) dev(1)])
  let ?w = "\<lparr>wfile = dir_wal d, next_lsn = 0, wbuf = []\<rparr>"
  have w: "new_wal_manager (dir_wal d) = Ok ?w" "wal_holds ?w [] []"
    using d(3) dev(2) by (simp_all add: new_wal_manager_def Let_def wal_holds_def)
  have rc: "recover ?w dm = (Ok (), dm)"
    using wal_holds_read [OF w(2)] by (simp add: recover_def recover_in_def latest_images_def)
  let ?p = "new_page type_leaf 0" and ?q = "init_leaf_links (new_page type_leaf 0)"
  have q: "leaf_page ?q 0 [] no_page_id" "free_space ?q = 4072" "length ?q = 4096" "page_id ?q = 0"
    by (simp_all add: leaf_page_def init_leaf_links_def)
  obtain d1 where d1: "allocate_page type_leaf dm = (Ok ?p, d1)" "disk_ok d1" "next_page_id d1 = 1"
    using allocate_page_ok [OF dm(2), of type_leaf] dm(4) by (auto simp: no_page_id_def)
  obtain d2 where d2: "write_page ?q d1 = (Ok (), d2)" "disk_ok d2" "disk_view d2 = (disk_view d1)(0 \<mapsto> ?q)" "next_page_id d2 = 1"
    using write_page_ok [OF d1(2) q(3)] d1(3) q(4) by auto
  obtain d3 where d3: "set_root_page_id 0 d2 = (Ok (), d3)" "disk_ok d3" "disk_view d3 = disk_view d2" "root_page_id d3 = 0"
    "next_page_id d3 = 1"
    using set_root_page_id_ok [OF d2(2), of 0] d2(4) by auto
  let ?k = default_buffer_pool_size
  let ?r = "reopened d3 ?w ?k"
  have nb: "new_btree_repository (reopened dm ?w ?k) = Ok \<lparr>bt_store = ?r, open_schemas = (\<lambda>_. None)\<rparr>"
    using dm(3) d1(1) d2(1) d3(1) q(4)
    by (simp add: new_btree_repository_def new_btree_def reopened_def bindG_def on_disk_def)
  let ?c = "\<lparr>schemas = [], next_table_id = 0, cat_file = None, can_write = dir_writable d\<rparr>"
  let ?g = "\<lparr>eng_mgr = new_manager ?r, eng_schemas = Map.empty, eng_catalog = ?c, eng_waiting = []\<rparr>"
  have o: "open_db d = Ok ?g"
    using d dm(1) w(1) rc nb by (simp add: open_db_def new_catalog_def table_names_def ret_def flip: reopened_def)
  have db: "db_ok {} ?r"
  proof -
    have "pool_ok {} ?r"
      using d2 d3 q(4) by (auto simp: pool_ok_def word_less_nat_alt unat_eq_0)
    then show ?thesis
      using w(2) unfolding db_ok_def
      by (intro conjI exI [of _ "[]"]) (simp_all add: images_ok_def logged_def safe_def images_def committed_images_def)
  qed
  have bt: "btree_ok e 0 empty_tree (obs ?r)"
    using e q(1) d2(3) d3 by (simp add: btree_ok_def empty_tree_def leaf_in_def obs_fields(6))
  show thesis
  proof (rule that [OF o])
    have "room 1 (obs ?r)"
      by (simp add: room_def busy_def default_buffer_pool_size_def)
    then have "repo_ok e 0 empty_tree (\<lambda>_. None) n m (repo_view ?g)"
      using db bt fuel by (simp add: repo_ok_def reader_ready_def repo_view_def new_manager_def empty_tree_def)
    then show "at_rest e 0 empty_tree n m ?g"
      using w(2) dev(3) log_records_holds [OF w(2)] by (auto simp: at_rest_def new_manager_def ids_distinct_def fun_eq_iff)
    show "fresh_empty (o_view (obs (store (eng_mgr ?g)))) empty_tree"
      using q(2) d2(3) d3 by (simp add: fresh_empty_def new_manager_def empty_tree_def obs_fields(6))
  qed (simp_all add: catalog_agrees_def catalog_ok_def new_catalog_def new_manager_def d3)
qed

end
