(* ===== verification/Client_Runs.thy ===== *)
theory Client_Runs
  imports Client
begin

text \<open>
  Statements through \<open>client/client.go\<close> on a sound engine: what they answer, what they do to the tables, and that the tables
  survive the end of the process. The witnesses run one database from an empty directory on.
\<close>

section \<open>Committed changes survive\<close>

text \<open>Between two statements: the engine is at rest and works with the schemas of the catalog file, no row carries
  the id of a table to come, and every row has its own primary key.\<close>

definition sound :: "env \<Rightarrow> nat \<Rightarrow> tree \<Rightarrow> nat \<Rightarrow> nat \<Rightarrow> engine \<Rightarrow> bool" where
  "sound e h t n m g \<longleftrightarrow> at_rest e h t n m g \<and> catalog_agrees g \<and>
     (\<forall>c \<in> set (tree_cells t). fst (ckey c) < next_table_id (eng_catalog g)) \<and> (\<forall>tb. keyed (eng_schemas g) t tb)"

text \<open>If the process ends now, and the log file is shorter than 2^64 bytes, the next \<open>Open\<close> succeeds and finds the tables
  \<open>R\<close>.\<close>

definition survives :: "nat \<Rightarrow> nat \<Rightarrow> engine \<Rightarrow> (string \<Rightarrow> row list) \<Rightarrow> bool" where
  "survives n m g R \<longleftrightarrow> (length (fbytes (wfile (wal (store (eng_mgr g))))) < 2 ^ 64 \<longrightarrow>
     (\<exists>g'. open_db (directory_of g) = Ok g' \<and> eng_catalog g' = eng_catalog g \<and>
        (\<forall>tb. eng_schemas g tb \<noteq> None \<longrightarrow> fst (scan_rows n m tb (repo_view g')) = Ok (R tb))))"

lemma sound_survives:
  assumes "sound e h t n m g"
  shows "survives n m g (table_rows (eng_schemas g) t)"
proof (unfold survives_def, intro impI)
  assume l: "length (fbytes (wfile (wal (store (eng_mgr g))))) < 2 ^ 64"
  have a: "at_rest e h t n m g" "catalog_agrees g"
    using assms by (simp_all add: sound_def)
  obtain g' where g': "open_db (directory_of g) = Ok g'" "repo_ok e h t (eng_schemas g) n m (repo_view g')" "eng_catalog g' = eng_catalog g"
    by (rule reopen_engine [OF a l])
  have "fst (scan_rows n m tb (repo_view g')) = Ok (table_rows (eng_schemas g) t tb)" if "eng_schemas g tb \<noteq> None" for tb
    using repo_reads(1) [OF g'(2)] that by fastforce
  then show "\<exists>g'. open_db (directory_of g) = Ok g' \<and> eng_catalog g' = eng_catalog g \<and>
      (\<forall>tb. eng_schemas g tb \<noteq> None \<longrightarrow> fst (scan_rows n m tb (repo_view g')) = Ok (table_rows (eng_schemas g) t tb))"
    using g' by blast
qed

lemma keyed_change:
  assumes "\<forall>a. keyed schs t a" "table_rows schs t' = (table_rows schs t)(tb := rs)" "\<forall>a. a \<noteq> tb \<longrightarrow> table_find schs t' a = table_find schs t a"
    and "keyed schs t' tb"
  shows "keyed schs t' a"
  using assms keyed_other [of schs t a t'] by (cases "a = tb") auto

lemma sound_schema: "sound e h t n m g \<Longrightarrow> eng_schemas g tb = Some sch \<Longrightarrow> get_schema (eng_catalog g) tb = Ok sch"
  by (simp add: sound_def catalog_agrees_def get_schema_def)

lemma sound_table_id: "sound e h t n m g \<Longrightarrow> eng_schemas g tb = Some sch \<Longrightarrow> table_id sch < next_table_id (eng_catalog g)"
  by (auto simp: sound_def catalog_agrees_def catalog_ok_def dest!: map_of_SomeD)

lemma client_runs:
  assumes "parse f sql = Some (Inr (Some s))" "plan_statement (reader_of (eng_catalog g)) s = Ok p"
    and "engine_execute k n m (\<lambda>_. False) p g = (Ok res, g')"
  shows "client_exec f k n m sql g = (Ok \<lparr>cl_result = res, cl_scan = scan_kind_of p\<rparr>, g')"
  using assms by (simp add: client_exec_def plan_text_def bindG_def ret_def)

text \<open>The result of a statement without rows.\<close>

abbreviation no_rows :: "schema option \<Rightarrow> client_result" where
  "no_rows sch \<equiv> \<lparr>cl_result = \<lparr>res_rows = [], res_affected = 0, res_schema = sch\<rparr>, cl_scan = ScanNone\<rparr>"

lemma planned_insert:
  assumes s: "sound e h t n m g" and g: "takes_row e h t n m g" and sch: "eng_schemas g tb = Some sch" "length vs = length (columns sch)"
    and row: "eval_literals vs = Ok row" "storable e sch v row"
    and pk: "value_at row (primary_key_index sch) = Ok v" "table_find (eng_schemas g) t tb v = None"
  obtains g' h' t' xs zs where "plan_statement (reader_of (eng_catalog g)) (InsertStatement tb vs) = Ok (InsertNode tb sch vs)"
    "\<And>k. 2 \<le> k \<Longrightarrow> engine_execute k n m (\<lambda>_. False) (InsertNode tb sch vs) g = (Ok \<lparr>res_rows = [], res_affected = 0, res_schema = Some sch\<rparr>, g')"
    "sound e h' t' n m g'" "eng_schemas g' = eng_schemas g"
    "table_rows (eng_schemas g) t tb = xs @ zs" "table_rows (eng_schemas g) t' = (table_rows (eng_schemas g) t)(tb := xs @ row # zs)"
    "next_txn_id (eng_mgr g') = next_txn_id (eng_mgr g) + 1" "h' \<le> Suc h"
    "fresh_empty (o_view (obs (store (eng_mgr g')))) t'" "o_max (obs (store (eng_mgr g'))) = o_max (obs (store (eng_mgr g)))"
    "unat (o_next (obs (store (eng_mgr g')))) \<le> unat (o_next (obs (store (eng_mgr g)))) + h + 2"
    "table_find (eng_schemas g) t' = (table_find (eng_schemas g) t)(tb := (table_find (eng_schemas g) t tb)(v := Some row))"
proof (rule insert_statement [OF g sch(1) row pk, of sch])
  fix g' h' t' xs zs
  assume a: "\<And>k. 2 \<le> k \<Longrightarrow> engine_execute k n m (\<lambda>_. False) (InsertNode tb sch vs) g =
       (Ok \<lparr>res_rows = [], res_affected = 0, res_schema = Some sch\<rparr>, g')"
    "at_rest e h' t' n m g'" "h' \<le> Suc h" "fresh_empty (o_view (obs (store (eng_mgr g')))) t'"
    "eng_schemas g' = eng_schemas g" "eng_catalog g' = eng_catalog g" "next_txn_id (eng_mgr g') = next_txn_id (eng_mgr g) + 1"
    "o_max (obs (store (eng_mgr g'))) = o_max (obs (store (eng_mgr g)))"
    "unat (o_next (obs (store (eng_mgr g')))) \<le> unat (o_next (obs (store (eng_mgr g)))) + h + 2"
    "\<forall>c \<in> set (tree_cells t'). c \<in> set (tree_cells t) \<or> fst (ckey c) = table_id sch"
    "table_rows (eng_schemas g) t tb = xs @ zs" "table_rows (eng_schemas g) t' = (table_rows (eng_schemas g) t)(tb := xs @ row # zs)"
    "table_find (eng_schemas g) t' = (table_find (eng_schemas g) t)(tb := (table_find (eng_schemas g) t tb)(v := Some row))"
  have pl: "plan_statement (reader_of (eng_catalog g)) (InsertStatement tb vs) = Ok (InsertNode tb sch vs)"
    using sound_schema [OF s sch(1)] sch(2) by (simp add: plan_insert_def plan_schema_def reader_of_def)
  have k: "\<forall>a. keyed (eng_schemas g) t a"
    using s by (simp add: sound_def)
  have "keyed (eng_schemas g) t' a" for a
    by (rule keyed_change [OF k a(12) _ keyed_insert [OF k [rule_format] sch(1) pk a(11-13)]]) (simp add: a(13))
  moreover have "\<forall>c \<in> set (tree_cells t'). fst (ckey c) < next_table_id (eng_catalog g)"
    using a(10) s sound_table_id [OF s sch(1)] by (auto simp: sound_def)
  ultimately have so: "sound e h' t' n m g'"
    using a(2) s by (simp add: sound_def catalog_agrees_def a(5,6))
  show thesis
    by (rule that [OF pl a(1) so a(5,11,12,7,3,4,8,9,13)])
qed

lemma client_insert:
  assumes s: "sound e h t n m g" and g: "takes_row e h t n m g" and sql: "parse f sql = Some (Inr (Some (InsertStatement tb vs)))"
    and sch: "eng_schemas g tb = Some sch" "length vs = length (columns sch)" and row: "eval_literals vs = Ok row" "storable e sch v row"
    and pk: "value_at row (primary_key_index sch) = Ok v" "table_find (eng_schemas g) t tb v = None"
  obtains g' h' t' xs zs where "\<And>k. 2 \<le> k \<Longrightarrow> client_exec f k n m sql g = (Ok (no_rows (Some sch)), g')" "sound e h' t' n m g'"
    "eng_schemas g' = eng_schemas g" "next_txn_id (eng_mgr g') = next_txn_id (eng_mgr g) + 1" "h' \<le> Suc h"
    "fresh_empty (o_view (obs (store (eng_mgr g')))) t'" "o_max (obs (store (eng_mgr g'))) = o_max (obs (store (eng_mgr g)))"
    "unat (o_next (obs (store (eng_mgr g')))) \<le> unat (o_next (obs (store (eng_mgr g)))) + h + 2"
    "table_rows (eng_schemas g) t tb = xs @ zs" "table_rows (eng_schemas g) t' = (table_rows (eng_schemas g) t)(tb := xs @ row # zs)"
    "table_find (eng_schemas g) t' = (table_find (eng_schemas g) t)(tb := (table_find (eng_schemas g) t tb)(v := Some row))"
proof (rule planned_insert [OF s g sch row pk])
  fix g' h' t' xs zs
  assume a: "plan_statement (reader_of (eng_catalog g)) (InsertStatement tb vs) = Ok (InsertNode tb sch vs)"
    "\<And>k. 2 \<le> k \<Longrightarrow> engine_execute k n m (\<lambda>_. False) (InsertNode tb sch vs) g = (Ok \<lparr>res_rows = [], res_affected = 0, res_schema = Some sch\<rparr>, g')"
    "sound e h' t' n m g'" "eng_schemas g' = eng_schemas g"
    "table_rows (eng_schemas g) t tb = xs @ zs" "table_rows (eng_schemas g) t' = (table_rows (eng_schemas g) t)(tb := xs @ row # zs)"
    "next_txn_id (eng_mgr g') = next_txn_id (eng_mgr g) + 1" "h' \<le> Suc h"
    "fresh_empty (o_view (obs (store (eng_mgr g')))) t'" "o_max (obs (store (eng_mgr g'))) = o_max (obs (store (eng_mgr g)))"
    "unat (o_next (obs (store (eng_mgr g')))) \<le> unat (o_next (obs (store (eng_mgr g)))) + h + 2"
    "table_find (eng_schemas g) t' = (table_find (eng_schemas g) t)(tb := (table_find (eng_schemas g) t tb)(v := Some row))"
  have ex: "client_exec f k n m sql g = (Ok (no_rows (Some sch)), g')" if "2 \<le> k" for k
    using client_runs [OF sql a(1) a(2) [OF that]] by (simp add: scan_kind_of_def)
  show thesis
    by (rule that [OF ex a(3,4,7-11,5,6,12)])
qed


lemma client_delete:
  assumes s: "sound e h t n m g" and g: "next_txn_id (eng_mgr g) \<noteq> - 1" "2 ^ 32 < m"
    and sql: "parse f sql = Some (Inr (Some (DeleteStatement tb wh)))" and sch: "eng_schemas g tb = Some sch"
    and P: "\<forall>x \<in> set (table_rows (eng_schemas g) t tb). where_holds wh x sch = Ok (P x)"
    and room: "int (length (table_rows (eng_schemas g) t tb) + 1) \<le> o_max (obs (store (eng_mgr g)))"
  obtains g' t' where "\<And>k. 2 \<le> k \<Longrightarrow> client_exec f k n m sql g = (Ok (no_rows (Some sch)), g')" "sound e h t' n m g'"
    "eng_schemas g' = eng_schemas g"
    "table_rows (eng_schemas g) t' = (table_rows (eng_schemas g) t)(tb := filter (\<lambda>x. \<not> P x) (table_rows (eng_schemas g) t tb))"
proof -
  have r: "at_rest e h t n m g" and k: "\<forall>a. keyed (eng_schemas g) t a"
    using s by (simp_all add: sound_def)
  show thesis
  proof (rule delete_statement [OF r g sch k [rule_format] P room])
    fix g' t'
    assume a: "\<And>k. 2 \<le> k \<Longrightarrow> engine_execute k n m (\<lambda>_. False) (DeleteNode tb sch wh) g =
         (Ok \<lparr>res_rows = [], res_affected = 0, res_schema = Some sch\<rparr>, g')"
      "at_rest e h t' n m g'" "eng_schemas g' = eng_schemas g" "eng_catalog g' = eng_catalog g" "next_txn_id (eng_mgr g') = next_txn_id (eng_mgr g) + 1"
      "o_max (obs (store (eng_mgr g'))) = o_max (obs (store (eng_mgr g)))" "keyed (eng_schemas g) t' tb" "set (tree_cells t') \<subseteq> set (tree_cells t)"
      "table_rows (eng_schemas g) t' = (table_rows (eng_schemas g) t)(tb := filter (\<lambda>x. \<not> P x) (table_rows (eng_schemas g) t tb))"
      "\<forall>a. a \<noteq> tb \<longrightarrow> table_find (eng_schemas g) t' a = table_find (eng_schemas g) t a"
    have pl: "plan_statement (reader_of (eng_catalog g)) (DeleteStatement tb wh) = Ok (DeleteNode tb sch wh)"
      using sound_schema [OF s sch] by (simp add: plan_delete_def plan_schema_def reader_of_def)
    have "keyed (eng_schemas g) t' b" for b
      by (rule keyed_change [OF k a(9,10,7)])
    then have so: "sound e h t' n m g'"
      using a(2,8) s by (auto simp: sound_def catalog_agrees_def a(3,4))
    have ex: "client_exec f k n m sql g = (Ok (no_rows (Some sch)), g')" if "2 \<le> k" for k
      using client_runs [OF sql pl a(1) [OF that]] by (simp add: scan_kind_of_def)
    show thesis
      by (rule that [OF ex so a(3,9)])
  qed
qed

lemma ids_distinct_new:
  assumes "catalog_ok c" "map_of (schemas c) = schs"
  shows "ids_distinct schs"
  unfolding ids_distinct_def
proof (intro allI impI)
  fix a b x y assume "schs a = Some x" "schs b = Some y" "table_id x = table_id y"
  then have "(a, x) \<in> set (schemas c)" "(b, y) \<in> set (schemas c)" "table_id x = table_id y"
    using assms(2) by (auto dest: map_of_SomeD)
  moreover have "inj_on (table_id \<circ> snd) (set (schemas c))"
    using assms(1) by (simp add: catalog_ok_def distinct_map)
  ultimately show "a = b"
    using inj_onD [of "table_id \<circ> snd" "set (schemas c)" "(a, x)" "(b, y)"] by simp
qed

lemma client_create:
  assumes s: "sound e h t n m g" and sql: "parse f sql = Some (Inr (Some (CreateTableStatement tb cols)))"
    and c: "next_table_id (eng_catalog g) \<noteq> - 1" "\<forall>col \<in> set cols. type_ok (col_type col)" "eng_schemas g tb = None" "can_write (eng_catalog g)"
  obtains g' where "\<And>k. client_exec f k n m sql g = (Ok (no_rows None), g')" "sound e h t n m g'" "eng_mgr g' = eng_mgr g"
    "eng_schemas g' = (eng_schemas g)(tb \<mapsto> \<lparr>table_name = tb, table_id = next_table_id (eng_catalog g), columns = cols\<rparr>)"
    "table_rows (eng_schemas g') t = (table_rows (eng_schemas g) t)(tb := [])" "can_write (eng_catalog g')"
proof -
  have r: "repo_ok e h t (eng_schemas g) n m (repo_view g)" "catalog_ok (eng_catalog g)"
    "\<forall>c \<in> set (tree_cells t). fst (ckey c) < next_table_id (eng_catalog g)" and k: "\<forall>a. keyed (eng_schemas g) t a"
    and sch: "eng_schemas g = map_of (schemas (eng_catalog g))"
    using s unfolding sound_def at_rest_def catalog_agrees_def by blast+
  let ?new = "\<lparr>table_name = tb, table_id = next_table_id (eng_catalog g), columns = cols\<rparr>"
  obtain g' where g': "\<And>k ctx. engine_execute k n m ctx (CreateTableNode tb cols) g = (Ok empty_result, g')"
    "repo_ok e h t (eng_schemas g') n m (repo_view g')" "eng_mgr g' = eng_mgr g" "eng_waiting g' = eng_waiting g"
    "eng_schemas g' = (eng_schemas g)(tb \<mapsto> ?new)" "map_of (schemas (eng_catalog g')) = (map_of (schemas (eng_catalog g)))(tb \<mapsto> ?new)"
    "next_table_id (eng_catalog g') = next_table_id (eng_catalog g) + 1" "catalog_ok (eng_catalog g')" "synced (eng_catalog g')"
    "can_write (eng_catalog g')" "\<forall>c \<in> set (tree_cells t). fst (ckey c) < next_table_id (eng_catalog g')"
    "table_rows (eng_schemas g') t = (table_rows (eng_schemas g) t)(tb := [])"
    by (rule create_table_statement [OF r(1,2) c(1) r(3) c(2) c(3) [unfolded sch] c(4)]) blast
  have ag: "catalog_agrees g'"
    using g'(8,9) by (intro catalog_agrees_synced) (simp_all add: g'(5,6) sch)
  have at: "at_rest e h t n m g'"
    using s g'(2) ids_distinct_new [OF g'(8) refl] by (simp add: sound_def at_rest_def g'(3,4) g'(5,6) sch)
  have "keyed (eng_schemas g') t a" for a
  proof (cases "a = tb")
    case True
    then show ?thesis by (simp add: keyed_def g'(12))
  next
    case False
    then have "table_find (eng_schemas g') t a = table_find (eng_schemas g) t a"
      by (simp add: table_find_def g'(5) fun_eq_iff)
    moreover have "table_rows (eng_schemas g') t a = table_rows (eng_schemas g) t a"
      using False by (simp add: g'(12))
    moreover have "eng_schemas g' a = eng_schemas g a"
      using False by (simp add: g'(5))
    ultimately show ?thesis
      using k unfolding keyed_def by presburger
  qed
  then have so: "sound e h t n m g'"
    using at ag g'(11) by (simp add: sound_def)
  have "plan_statement (reader_of (eng_catalog g)) (CreateTableStatement tb cols) = Ok (CreateTableNode tb cols)"
    by simp
  note ex = client_runs [OF sql this g'(1)]
  show thesis
    by (rule that [OF _ so g'(3,5,12,10)]) (simp add: ex empty_result_def scan_kind_of_def)
qed


section \<open>Properties\<close>

text \<open>C1. A committed \<open>INSERT\<close> is durable: the statement returns without rows, its row is in its table at the place of its key
  and nothing else has changed, and if the process ends at any later time before the next statement, \<open>Open\<close> succeeds on the files and finds the
  same tables. The engine can go on with the next statement.\<close>

theorem insert_survives_crash:
  assumes "sound e h t n m g" "takes_row e h t n m g" "parse f sql = Some (Inr (Some (InsertStatement tb vs)))"
    and "eng_schemas g tb = Some sch" "length vs = length (columns sch)" "eval_literals vs = Ok row" "storable e sch v row"
    and "value_at row (primary_key_index sch) = Ok v" "table_find (eng_schemas g) t tb v = None"
  shows "\<exists>g' h' t' xs zs. (\<forall>k \<ge> 2. client_exec f k n m sql g = (Ok (no_rows (Some sch)), g')) \<and> sound e h' t' n m g' \<and>
    eng_schemas g' = eng_schemas g \<and> table_rows (eng_schemas g) t tb = xs @ zs \<and>
    table_rows (eng_schemas g) t' = (table_rows (eng_schemas g) t)(tb := xs @ row # zs) \<and>
    survives n m g' ((table_rows (eng_schemas g) t)(tb := xs @ row # zs))"
proof (rule client_insert [OF assms])
  fix g' h' t' xs zs
  assume a: "\<And>k. 2 \<le> k \<Longrightarrow> client_exec f k n m sql g = (Ok (no_rows (Some sch)), g')" "sound e h' t' n m g'"
    "eng_schemas g' = eng_schemas g" and r: "table_rows (eng_schemas g) t tb = xs @ zs"
    "table_rows (eng_schemas g) t' = (table_rows (eng_schemas g) t)(tb := xs @ row # zs)"
  show ?thesis
    using sound_survives [OF a(2)] a r
    by (intro exI [of _ g'] exI [of _ h'] exI [of _ t'] exI [of _ xs] exI [of _ zs]) simp
qed

text \<open>C2. A committed \<open>DELETE\<close> takes out of its table the rows its condition holds for, in one transaction, and that is durable too.\<close>

theorem delete_survives_crash:
  assumes "sound e h t n m g" "next_txn_id (eng_mgr g) \<noteq> - 1" "2 ^ 32 < m"
    and "parse f sql = Some (Inr (Some (DeleteStatement tb wh)))" "eng_schemas g tb = Some sch"
    and "\<forall>x \<in> set (table_rows (eng_schemas g) t tb). where_holds wh x sch = Ok (P x)"
    and "int (length (table_rows (eng_schemas g) t tb) + 1) \<le> o_max (obs (store (eng_mgr g)))"
  shows "\<exists>g' t'. (\<forall>k \<ge> 2. client_exec f k n m sql g = (Ok (no_rows (Some sch)), g')) \<and> sound e h t' n m g' \<and>
    eng_schemas g' = eng_schemas g \<and>
    table_rows (eng_schemas g) t' = (table_rows (eng_schemas g) t)(tb := filter (\<lambda>x. \<not> P x) (table_rows (eng_schemas g) t tb)) \<and>
    survives n m g' ((table_rows (eng_schemas g) t)(tb := filter (\<lambda>x. \<not> P x) (table_rows (eng_schemas g) t tb)))"
proof (rule client_delete [OF assms])
  fix g' t'
  assume a: "\<And>k. 2 \<le> k \<Longrightarrow> client_exec f k n m sql g = (Ok (no_rows (Some sch)), g')" "sound e h t' n m g'"
    "eng_schemas g' = eng_schemas g"
    "table_rows (eng_schemas g) t' = (table_rows (eng_schemas g) t)(tb := filter (\<lambda>x. \<not> P x) (table_rows (eng_schemas g) t tb))"
  show ?thesis
    using sound_survives [OF a(2)] a by (intro exI [of _ g'] exI [of _ t']) simp
qed

lemma open_sound:
  assumes "dir_created d" "fbytes (dir_db d) = []" "fbytes (dir_wal d) = []" "dir_catalog d = None"
    and "\<forall>off. rd_ok (dir_db d) off \<and> wr_ok (dir_db d) off" "readable (dir_wal d)" "all_writable (dir_wal d)"
    and "env_ok e" "1 < n" "2 ^ 32 < m"
  shows "\<exists>g. open_db d = Ok g \<and> sound e 0 empty_tree n m g \<and> takes_row e 0 empty_tree n m g \<and>
    eng_schemas g = (\<lambda>_. None) \<and> next_table_id (eng_catalog g) = 0 \<and> can_write (eng_catalog g) = dir_writable d \<and>
    next_txn_id (eng_mgr g) = 0 \<and> o_max (obs (store (eng_mgr g))) = default_buffer_pool_size"
proof -
  have n: "0 < n" "1 < m"
    using assms(9,10) by auto
  obtain g where g: "open_db d = Ok g" "at_rest e 0 empty_tree n m g" "catalog_agrees g" "schemas (eng_catalog g) = []"
    "next_table_id (eng_catalog g) = 0" "next_txn_id (eng_mgr g) = 0" "can_write (eng_catalog g) = dir_writable d"
    "fresh_empty (o_view (obs (store (eng_mgr g)))) empty_tree" "o_next (obs (store (eng_mgr g))) = 1"
    "o_max (obs (store (eng_mgr g))) = default_buffer_pool_size"
    by (rule open_empty [OF assms(1-8) n])
  have s: "eng_schemas g = (\<lambda>_. None)"
    using g(3,4) by (simp add: catalog_agrees_def)
  have "sound e 0 empty_tree n m g"
    using g(2,3) by (simp add: sound_def keyed_def s empty_tree_def)
  moreover have "takes_row e 0 empty_tree n m g"
    using g(2,6,8-10) assms(9,10) by (simp add: takes_row_def default_buffer_pool_size_def no_page_id_def del: obs_fields)
  ultimately show ?thesis
    using g(1,5-7,10) s by blast
qed

text \<open>C17. Opening an empty directory gives an engine without tables, at rest and ready for its first statement.\<close>

theorem open_empty_directory:
  assumes "dir_created d" "fbytes (dir_db d) = []" "fbytes (dir_wal d) = []" "dir_catalog d = None"
    and "\<forall>off. rd_ok (dir_db d) off \<and> wr_ok (dir_db d) off" "readable (dir_wal d)" "all_writable (dir_wal d)"
    and "env_ok e" "1 < n" "2 ^ 32 < m"
  shows "\<exists>g. open_db d = Ok g \<and> sound e 0 empty_tree n m g \<and> takes_row e 0 empty_tree n m g \<and>
    eng_schemas g = (\<lambda>_. None) \<and> next_table_id (eng_catalog g) = 0 \<and> can_write (eng_catalog g) = dir_writable d \<and>
    next_txn_id (eng_mgr g) = 0 \<and> o_max (obs (store (eng_mgr g))) = default_buffer_pool_size"
  by (rule open_sound [OF assms])

text \<open>C16. A created table is durable: the statement returns, the table is empty and nothing else has changed, and after the process has
  ended \<open>Open\<close> finds it with the others.\<close>

theorem created_table_survives_crash:
  assumes "sound e h t n m g" "parse f sql = Some (Inr (Some (CreateTableStatement tb cols)))"
    and "next_table_id (eng_catalog g) \<noteq> - 1" "\<forall>col \<in> set cols. type_ok (col_type col)" "eng_schemas g tb = None" "can_write (eng_catalog g)"
  shows "\<exists>g'. (\<forall>k. client_exec f k n m sql g = (Ok (no_rows None), g')) \<and> sound e h t n m g' \<and>
    eng_schemas g' = (eng_schemas g)(tb \<mapsto> \<lparr>table_name = tb, table_id = next_table_id (eng_catalog g), columns = cols\<rparr>) \<and>
    table_rows (eng_schemas g') t = (table_rows (eng_schemas g) t)(tb := []) \<and>
    survives n m g' ((table_rows (eng_schemas g) t)(tb := []))"
proof (rule client_create [OF assms])
  fix g'
  assume a: "\<And>k. client_exec f k n m sql g = (Ok (no_rows None), g')" "sound e h t n m g'"
    "eng_schemas g' = (eng_schemas g)(tb \<mapsto> \<lparr>table_name = tb, table_id = next_table_id (eng_catalog g), columns = cols\<rparr>)"
    "table_rows (eng_schemas g') t = (table_rows (eng_schemas g) t)(tb := [])"
  show ?thesis
    using sound_survives [OF a(2)] a by (intro exI [of _ g']) simp
qed

text \<open>What \<open>Scan\<close> of a result says: a \<open>SELECT\<close> is reported as an index scan exactly when it has no join and its condition compares the
  primary key; every other statement as no scan, also \<open>UPDATE\<close> and \<open>DELETE\<close>, which read the whole table.\<close>

lemma walk_steps [simp]:
  "walk_scans (add_filter w p) f = walk_scans p f" "walk_scans (add_order ob p) f = walk_scans p f" "walk_scans (add_limit l p) f = walk_scans p f"
  by (cases f; simp add: add_filter_def add_order_def add_limit_def split: option.split)+

lemma pk_comparison_scan: "pk_comparison sch w \<Longrightarrow> choose_scan t sch (Some w) = IndexScanNode t sch w"
  by (auto simp: pk_comparison_def choose_scan_def Let_def)

lemma scan_kind_choose: "scan_kind_of (choose_scan t sch wh) = (if \<exists>w. wh = Some w \<and> pk_comparison sch w then ScanIndex else ScanSequential)"
proof (cases "\<exists>w. wh = Some w \<and> pk_comparison sch w")
  case True
  then show ?thesis
    using pk_comparison_scan by (auto simp: scan_kind_of_def)
next
  case False
  then have "choose_scan t sch wh = SequentialScanNode t sch"
    by (intro choose_scan_seq) auto
  then show ?thesis
    using False by (auto simp: scan_kind_of_def)
qed

lemma reported_scan_select:
  assumes "plan_select c s = Ok p"
  shows "\<exists>sch. cat_get_schema c (sel_table s) = Ok sch \<and>
    scan_kind_of p = (if sel_join s = None \<and> (\<exists>w. sel_where s = Some w \<and> pk_comparison sch w) then ScanIndex else ScanSequential)"
proof -
  obtain sch scan where s: "cat_get_schema c (sel_table s) = Ok sch" "plan_scan c s sch = Ok scan"
    "p = add_limit (sel_limit s) (add_order (sel_order_by s) (ProjectionNode (add_filter (sel_where s) scan) (sel_columns s)))"
    using assms by (auto simp: plan_select_def plan_schema_def bindR_eq_Ok split: res.splits)
  have k: "scan_kind_of p = scan_kind_of scan"
    by (simp add: scan_kind_of_def s(3))
  show ?thesis
  proof (cases "sel_join s")
    case None
    then have "scan_kind_of p = scan_kind_of (choose_scan (sel_table s) sch (sel_where s))"
      using s(2) k by (simp add: plan_scan_def)
    then show ?thesis
      using None s(1) by (simp add: scan_kind_choose)
  next
    case (Some j)
    then show ?thesis
      using s k by (auto simp: plan_scan_def bindR_eq_Ok scan_kind_of_def)
  qed
qed

text \<open>The scan a result reports: for a \<open>SELECT\<close> an index scan exactly when it has no join and its condition is a comparison of
  the primary key, for every other statement none. So \<open>UPDATE\<close> and \<open>DELETE\<close>, which read the whole table, report no scan.\<close>

theorem reported_scan:
  assumes "plan_statement c st = Ok p"
  shows "(case st of
      SelectStatement s \<Rightarrow> \<exists>sch. cat_get_schema c (sel_table s) = Ok sch \<and>
        scan_kind_of p = (if sel_join s = None \<and> (\<exists>w. sel_where s = Some w \<and> pk_comparison sch w) then ScanIndex else ScanSequential)
    | _ \<Rightarrow> scan_kind_of p = ScanNone)"
proof (cases st)
  case (SelectStatement s)
  then show ?thesis
    using reported_scan_select [of c s p] assms by simp
qed (use assms in \<open>auto simp: plan_insert_def plan_update_def plan_delete_def bindR_eq_Ok scan_kind_of_def split: if_splits\<close>)

lemma client_select:
  assumes s: "sound e h t n m g" and id: "next_txn_id (eng_mgr g) \<noteq> - 1" and sql: "parse f sql = Some (Inr (Some (SelectStatement q)))"
    and sch: "eng_schemas g (sel_table q) = Some sch"
    and q: "select_posed (key_fits e (eng_schemas g) (sel_table q)) sch q (table_rows (eng_schemas g) t (sel_table q))"
  obtains N g' where "\<And>k. N \<le> k \<Longrightarrow> client_exec f k n m sql g =
      (Ok \<lparr>cl_result = \<lparr>res_rows = select_rows (map col_name (columns sch)) q (table_rows (eng_schemas g) t (sel_table q)),
         res_affected = 0, res_schema = Some sch\<rparr>,
        cl_scan = (if \<exists>w. sel_where q = Some w \<and> pk_comparison sch w then ScanIndex else ScanSequential)\<rparr>, g')"
    "sound e h t n m g'" "eng_schemas g' = eng_schemas g"
proof -
  let ?c = "reader_of (eng_catalog g)"
  have cs: "cat_get_schema ?c (sel_table q) = Ok sch"
    using sound_schema [OF s sch] by (simp add: reader_of_def)
  obtain p where p: "plan_select ?c q = Ok p"
    using cs q by (auto simp: plan_select_def plan_schema_def plan_scan_def select_posed_def)
  note m = select_plan [of ?c q p sch "eng_schemas g" "key_fits e (eng_schemas g)" "table_rows (eng_schemas g) t", OF p cs sch q]
  have at: "at_rest e h t n m g" and k: "keyed (eng_schemas g) t tb" for tb
    using s by (simp_all add: sound_def)
  have rp: "repo_ok e h t (eng_schemas g) n m (repo_view g)"
    using at by (simp add: at_rest_def)
  let ?res = "\<lparr>res_rows = select_rows (map col_name (columns sch)) q (table_rows (eng_schemas g) t (sel_table q)), res_affected = 0,
      res_schema = Some sch\<rparr>"
  have ans: "answer t p g = Ok ?res"
    using well_posed_meaning [OF rp, of p] m k by simp
  show thesis
  proof (rule query_statement [OF at id _ _ ans])
    fix N g'
    assume g': "\<And>k. N \<le> k \<Longrightarrow> engine_execute k n m (\<lambda>_. False) p g = (Ok ?res, g')" "at_rest e h t n m g'"
      "eng_schemas g' = eng_schemas g" "eng_catalog g' = eng_catalog g"
    have so: "sound e h t n m g'"
      using g'(2) s unfolding sound_def catalog_agrees_def g'(3,4) by blast
    have st: "plan_statement ?c (SelectStatement q) = Ok p"
      using p by simp
    have sc: "scan_kind_of p = (if \<exists>w. sel_where q = Some w \<and> pk_comparison sch w then ScanIndex else ScanSequential)"
      using reported_scan_select [OF p] cs q by (simp add: select_posed_def)
    show thesis
      by (rule that [OF client_runs [OF sql st g'(1), unfolded sc] so g'(3)])
  qed (use m in auto)
qed

text \<open>C18. A \<open>SELECT\<close> through the whole stack, from the text to the rows: on a sound engine \<open>SELECT cols FROM t WHERE w LIMIT k\<close> returns the rows
  of the table that satisfy the condition, projected, up to the limit, in the order of the primary key; it reports an index scan when the
  condition is a comparison of the primary key, and a sequential scan otherwise; and it leaves every table as it was. The condition is read as SQL reads
  it (\<open>sat\<close>). It compares integers with integers and strings with strings; when it is a comparison of the primary key as a whole, that is
  an equality with a value of the type of the key (for the other comparisons the code returns the wrong rows). There is no join and no order.\<close>

theorem select_through_stack:
  assumes "sound e h t n m g" "next_txn_id (eng_mgr g) \<noteq> - 1" "parse f sql = Some (Inr (Some (SelectStatement q)))"
    and "eng_schemas g (sel_table q) = Some sch"
    and "select_posed (key_fits e (eng_schemas g) (sel_table q)) sch q (table_rows (eng_schemas g) t (sel_table q))"
  shows "\<exists>N g'. (\<forall>k \<ge> N. client_exec f k n m sql g =
      (Ok \<lparr>cl_result = \<lparr>res_rows = limited (sel_limit q) (map (project (map col_name (columns sch)) (sel_columns q))
           (filter (\<lambda>x. case sel_where q of None \<Rightarrow> True | Some w \<Rightarrow> sat (map col_name (columns sch)) w x)
             (table_rows (eng_schemas g) t (sel_table q)))),
         res_affected = 0, res_schema = Some sch\<rparr>,
        cl_scan = (if \<exists>w. sel_where q = Some w \<and> pk_comparison sch w then ScanIndex else ScanSequential)\<rparr>, g')) \<and>
    sound e h t n m g' \<and> eng_schemas g' = eng_schemas g"
  unfolding select_rows_def [symmetric] by (rule client_select [OF assms]) blast

text \<open>\<open>BEGIN\<close>, \<open>COMMIT\<close> and \<open>ROLLBACK\<close> as SQL do nothing: they succeed without a change, outside a transaction and in one. So
  the statements after a \<open>BEGIN\<close> are committed one by one, and a \<open>ROLLBACK\<close> undoes nothing.\<close>

theorem transaction_markers_ignored:
  assumes "parse f sql = Some (Inr (Some st))" "st \<in> {BeginStatement, CommitStatement, RollbackStatement}"
  shows "client_exec f k n m sql g = (Ok (no_rows None), g) \<and> tx_exec f k n m sql s = (Ok (no_rows None), s)"
  using assms by (auto simp: client_exec_def tx_exec_def plan_text_def bindG_def engine_execute_def execute_in_txn_def on_engine_def ret_def
    scan_kind_of_def empty_result_def)

text \<open>A table that is created in an explicit transaction stays when the transaction is rolled back: in the catalog, in its file and in the
  repository.\<close>

theorem created_table_survives_rollback:
  assumes "parse f sql = Some (Inr (Some (CreateTableStatement tb cols)))" "map_of (schemas (eng_catalog (c_engine s))) tb = None"
    and "can_write (eng_catalog (c_engine s))"
  shows "\<exists>s1 r s2. tx_exec f k n m sql s = (Ok (no_rows None), s1) \<and> tx_rollback s1 = (r, s2) \<and>
    get_schema (eng_catalog (c_engine s2)) tb = Ok \<lparr>table_name = tb, table_id = next_table_id (eng_catalog (c_engine s)), columns = cols\<rparr> \<and>
    synced (eng_catalog (c_engine s2)) \<and> eng_schemas (c_engine s2) tb \<noteq> None"
proof -
  let ?c = "eng_catalog (c_engine s)" and ?sch = "\<lparr>table_name = tb, table_id = 0, columns = cols\<rparr>"
  let ?new = "?sch\<lparr>table_id := next_table_id ?c\<rparr>"
  obtain d where d: "create_table ?sch ?c = (Ok (), d)" "get_schema d tb = Ok ?new" "synced d"
    using assms(2,3) by (auto simp: create_table_def Let_def save_def get_schema_def update_conv synced_def catalog_to_json_def)
  obtain s1 where s1: "tx_exec f k n m sql s = (Ok (no_rows None), s1)" "eng_catalog (c_engine s1) = d" "eng_schemas (c_engine s1) tb = Some ?new"
    using assms(1) d(1,2) by (simp add: tx_exec_def plan_text_def bindG_def execute_in_txn_def on_engine_def on_catalog_def on_repo_def open_table_def
      ret_def scan_kind_of_def empty_result_def)
  obtain r s2 where s2: "tx_rollback s1 = (r, s2)" by fastforce
  have "eng_catalog (c_engine s2) = eng_catalog (c_engine s1)" "eng_schemas (c_engine s2) = eng_schemas (c_engine s1)"
    using s2 by (auto simp: tx_rollback_def tx_end_def Let_def split: prod.splits res.splits)
  then show ?thesis
    using s1 s2 d by auto
qed

subsection \<open>Witnesses\<close>

definition new_directory :: directory where
  "new_directory = \<lparr>dir_created = True, dir_db = sample_file, dir_wal = sample_file, dir_catalog = None, dir_writable = True\<rparr>"

definition users_insert :: "expr list" where
  "users_insert = [IntLiteral 9, StringLiteral ''Eve'']"

lemma parse_spaced:
  assumes "printable_statement s" "\<forall>(t, w) \<in> set (spaced (statement_tokens s)). valid_token t \<and> spacing w"
    "length (statement_tokens s) \<le> n"
  shows "parse n (layout (spaced (statement_tokens s))) = Some (Inr (Some s))"
proof (rule parse_written_ok [OF assms(1) _ _ assms(2)])
  show "map fst (spaced (statement_tokens s)) = statement_tokens s @ []"
    by (simp add: o_def)
qed (use assms(3) in \<open>simp_all add: stmt_ends_def\<close>)

lemma texts:
  "parse 99 ''CREATE TABLE users ( id INT PRIMARY KEY , name VARCHAR ( 20 ) ) '' =
     Some (Inr (Some (CreateTableStatement ''users'' (columns users_schema))))"
  "parse 99 (''INSERT INTO users VALUES ( 9 , '' @ [CHR 0x27] @ ''Eve'' @ [CHR 0x27] @ '' ) '') =
     Some (Inr (Some (InsertStatement ''users'' users_insert)))"
  "parse 99 ''DELETE FROM users WHERE id = 9 '' =
     Some (Inr (Some (DeleteStatement ''users'' (Some (BinaryExpr (Identifier [] ''id'') OpEQ (IntLiteral 9))))))"
proof -
  let ?c = "CreateTableStatement ''users'' (columns users_schema)" and ?i = "InsertStatement ''users'' users_insert"
    and ?d = "DeleteStatement ''users'' (Some (BinaryExpr (Identifier [] ''id'') OpEQ (IntLiteral 9)))"
  have p: "printable_statement ?c" "printable_statement ?i" "printable_statement ?d"
    by (auto simp: users_schema_def sample_column_def name_column_def printable_column_def users_insert_def)
  have c: "\<forall>(t, w) \<in> set (spaced (statement_tokens ?c)). valid_token t \<and> spacing w"
    "length (statement_tokens ?c) \<le> 99"
    "layout (spaced (statement_tokens ?c)) = ''CREATE TABLE users ( id INT PRIMARY KEY , name VARCHAR ( 20 ) ) ''"
    by code_simp+
  have i: "\<forall>(t, w) \<in> set (spaced (statement_tokens ?i)). valid_token t \<and> spacing w"
    "length (statement_tokens ?i) \<le> 99"
    "layout (spaced (statement_tokens ?i)) = ''INSERT INTO users VALUES ( 9 , '' @ [CHR 0x27] @ ''Eve'' @ [CHR 0x27] @ '' ) ''"
    by code_simp+
  have d: "\<forall>(t, w) \<in> set (spaced (statement_tokens ?d)). valid_token t \<and> spacing w"
    "length (statement_tokens ?d) \<le> 99" "layout (spaced (statement_tokens ?d)) = ''DELETE FROM users WHERE id = 9 ''"
    by code_simp+
  show "parse 99 ''CREATE TABLE users ( id INT PRIMARY KEY , name VARCHAR ( 20 ) ) '' = Some (Inr (Some ?c))"
    by (rule parse_spaced [OF p(1) c(1,2), unfolded c(3)])
  show "parse 99 (''INSERT INTO users VALUES ( 9 , '' @ [CHR 0x27] @ ''Eve'' @ [CHR 0x27] @ '' ) '') = Some (Inr (Some ?i))"
    by (rule parse_spaced [OF p(2) i(1,2), unfolded i(3)])
  show "parse 99 ''DELETE FROM users WHERE id = 9 '' = Some (Inr (Some ?d))"
    by (rule parse_spaced [OF p(3) d(1,2), unfolded d(3)])
qed


lemma new_directory_opens:
  obtains g where "open_db new_directory = Ok g" "sound users_env 0 empty_tree 2 (2 ^ 32 + 1) g" "takes_row users_env 0 empty_tree 2 (2 ^ 32 + 1) g"
    "eng_schemas g = (\<lambda>_. None)" "next_table_id (eng_catalog g) = 0" "can_write (eng_catalog g)"
    "next_txn_id (eng_mgr g) = 0" "o_max (obs (store (eng_mgr g))) = 1000"
proof -
  have "env_ok users_env"
    using users_tree_ok by (simp add: btree_ok_def)
  then have "\<exists>g. open_db new_directory = Ok g \<and> sound users_env 0 empty_tree 2 (2 ^ 32 + 1) g \<and>
      takes_row users_env 0 empty_tree 2 (2 ^ 32 + 1) g \<and> eng_schemas g = (\<lambda>_. None) \<and> next_table_id (eng_catalog g) = 0 \<and>
      can_write (eng_catalog g) = dir_writable new_directory \<and>
      next_txn_id (eng_mgr g) = 0 \<and> o_max (obs (store (eng_mgr g))) = default_buffer_pool_size"
    by (intro open_sound) (simp_all add: new_directory_def sample_file_def readable_def all_writable_def)
  then show thesis
    using that by (auto simp: new_directory_def default_buffer_pool_size_def simp del: obs_fields)
qed

lemma users_created:
  obtains g where "sound users_env 0 empty_tree 2 (2 ^ 32 + 1) g" "takes_row users_env 0 empty_tree 2 (2 ^ 32 + 1) g" "eng_schemas g = users_schemas"
    "next_txn_id (eng_mgr g) = 0" "o_max (obs (store (eng_mgr g))) = 1000"
proof -
  obtain g where g: "sound users_env 0 empty_tree 2 (2 ^ 32 + 1) g" "takes_row users_env 0 empty_tree 2 (2 ^ 32 + 1) g"
    "eng_schemas g = (\<lambda>_. None)" "next_table_id (eng_catalog g) = 0" "can_write (eng_catalog g)"
    "next_txn_id (eng_mgr g) = 0" "o_max (obs (store (eng_mgr g))) = 1000"
    by (rule new_directory_opens)
  have id: "next_table_id (eng_catalog g) \<noteq> - 1" "eng_schemas g ''users'' = None"
    by (simp_all add: g(3,4))
  show thesis
  proof (rule client_create [OF g(1) texts(1) id(1) users_types_ok id(2) g(5)])
    fix g' assume a: "sound users_env 0 empty_tree 2 (2 ^ 32 + 1) g'" "eng_mgr g' = eng_mgr g"
      "eng_schemas g' = (eng_schemas g)(''users'' \<mapsto> \<lparr>table_name = ''users'', table_id = next_table_id (eng_catalog g), columns = columns users_schema\<rparr>)"
    have "takes_row users_env 0 empty_tree 2 (2 ^ 32 + 1) g'"
      using g(2) a(1) by (simp add: takes_row_def a(2) sound_def del: obs_fields)
    moreover have "eng_schemas g' = users_schemas"
      by (simp add: a(3) g(3,4) users_schemas_def users_schema_def)
    ultimately show thesis
      using that [OF a(1)] g(6,7) by (simp add: a(2) del: obs_fields)
  qed
qed

lemma users_insert_facts:
  "length users_insert = length (columns users_schema)" "eval_literals users_insert = Ok eve_row"
  "storable users_env users_schema (IntValue 9) eve_row" "value_at eve_row (primary_key_index users_schema) = Ok (IntValue 9)"
  "table_find users_schemas empty_tree ''users'' (IntValue 9) = None" "table_rows users_schemas empty_tree = (\<lambda>_. [])"
  using users_storable [of "''Eve''" 9] users_key
  by (simp_all add: users_insert_def users_schema_def eve_row_def table_find_def table_rows_def empty_tree_def rows_of_def fun_eq_iff
      split: option.splits)

theorem open_empty_directory_witness:
  "\<exists>g. open_db new_directory = Ok g \<and> eng_schemas g = (\<lambda>_. None)"
proof -
  have "env_ok users_env"
    using users_tree_ok by (simp add: btree_ok_def)
  then show ?thesis
    using open_empty_directory [of new_directory users_env 2 "2 ^ 32 + 1"]
    by (auto simp: new_directory_def sample_file_def readable_def all_writable_def)
qed

theorem created_table_survives_crash_witness:
  "\<exists>g g'. open_db new_directory = Ok g \<and>
    client_exec 99 0 2 (2 ^ 32 + 1) ''CREATE TABLE users ( id INT PRIMARY KEY , name VARCHAR ( 20 ) ) '' g = (Ok (no_rows None), g') \<and>
    survives 2 (2 ^ 32 + 1) g' (\<lambda>_. [])"
proof -
  obtain g where g: "open_db new_directory = Ok g" "sound users_env 0 empty_tree 2 (2 ^ 32 + 1) g"
    "eng_schemas g = (\<lambda>_. None)" "next_table_id (eng_catalog g) = 0" "can_write (eng_catalog g)"
    by (rule new_directory_opens)
  have id: "next_table_id (eng_catalog g) \<noteq> - 1" "eng_schemas g ''users'' = None"
    by (simp_all add: g(3,4))
  have "(table_rows (eng_schemas g) empty_tree)(''users'' := []) = (\<lambda>_. [])"
    by (simp add: g(3) table_rows_def fun_eq_iff)
  then show ?thesis
    using created_table_survives_crash [OF g(2) texts(1) id(1) users_types_ok id(2) g(5)] g(1) by metis
qed

theorem insert_survives_crash_witness:
  "\<exists>g g'. client_exec 99 2 2 (2 ^ 32 + 1) (''INSERT INTO users VALUES ( 9 , '' @ [CHR 0x27] @ ''Eve'' @ [CHR 0x27] @ '' ) '') g =
      (Ok (no_rows (Some users_schema)), g') \<and> survives 2 (2 ^ 32 + 1) g' ((\<lambda>_. [])(''users'' := [eve_row]))"
proof -
  obtain g where g: "sound users_env 0 empty_tree 2 (2 ^ 32 + 1) g" "takes_row users_env 0 empty_tree 2 (2 ^ 32 + 1) g" "eng_schemas g = users_schemas"
    by (rule users_created)
  note u = users_reads(1) users_insert_facts
  obtain g' xs zs where "client_exec 99 2 2 (2 ^ 32 + 1) (''INSERT INTO users VALUES ( 9 , '' @ [CHR 0x27] @ ''Eve'' @ [CHR 0x27] @ '' ) '') g =
      (Ok (no_rows (Some users_schema)), g')" "table_rows users_schemas empty_tree ''users'' = xs @ zs"
    "survives 2 (2 ^ 32 + 1) g' ((table_rows users_schemas empty_tree)(''users'' := xs @ eve_row # zs))"
    using insert_survives_crash [OF g(1,2) texts(2) u(1) [folded g(3)] u(2-5) u(6) [folded g(3)]] unfolding g(3) by fastforce
  then show ?thesis
    unfolding users_insert_facts(6) by auto
qed

lemma users_inserted:
  obtains h t g where "sound users_env h t 2 (2 ^ 32 + 1) g" "eng_schemas g = users_schemas" "next_txn_id (eng_mgr g) = 1"
    "o_max (obs (store (eng_mgr g))) = 1000" "table_rows users_schemas t = (\<lambda>_. [])(''users'' := [eve_row])"
proof -
  obtain g0 where g0: "sound users_env 0 empty_tree 2 (2 ^ 32 + 1) g0" "takes_row users_env 0 empty_tree 2 (2 ^ 32 + 1) g0" "eng_schemas g0 = users_schemas"
    "next_txn_id (eng_mgr g0) = 0" "o_max (obs (store (eng_mgr g0))) = 1000"
    by (rule users_created)
  note u = users_reads(1) users_insert_facts
  obtain g h t xs zs where g: "sound users_env h t 2 (2 ^ 32 + 1) g" "eng_schemas g = users_schemas" "next_txn_id (eng_mgr g) = next_txn_id (eng_mgr g0) + 1"
    "o_max (obs (store (eng_mgr g))) = o_max (obs (store (eng_mgr g0)))" "table_rows users_schemas empty_tree ''users'' = xs @ zs"
    "table_rows users_schemas t = (table_rows users_schemas empty_tree)(''users'' := xs @ eve_row # zs)"
    by (rule client_insert [OF g0(1,2) texts(2) u(1) [folded g0(3)] u(2-5) u(6) [folded g0(3)]]) (auto simp: g0(3))
  have r: "table_rows users_schemas t = (\<lambda>_. [])(''users'' := [eve_row])"
    using g(5,6) unfolding users_insert_facts(6) by simp
  show thesis
    by (rule that [OF g(1,2) _ _ r]) (simp_all add: g(3,4) g0(4,5) del: obs_fields)
qed

theorem delete_survives_crash_witness:
  "\<exists>g g'. client_exec 99 2 2 (2 ^ 32 + 1) ''DELETE FROM users WHERE id = 9 '' g = (Ok (no_rows (Some users_schema)), g') \<and>
    survives 2 (2 ^ 32 + 1) g' (\<lambda>_. [])"
proof -
  let ?wh = "Some (BinaryExpr (Identifier [] ''id'') OpEQ (IntLiteral 9))"
  obtain h t g where g: "sound users_env h t 2 (2 ^ 32 + 1) g" "eng_schemas g = users_schemas" "next_txn_id (eng_mgr g) = 1"
    "o_max (obs (store (eng_mgr g))) = 1000" and r: "table_rows users_schemas t = (\<lambda>_. [])(''users'' := [eve_row])"
    by (rule users_inserted)
  have P: "\<forall>x \<in> set (table_rows users_schemas t ''users''). where_holds ?wh x users_schema = Ok True"
  proof -
    have "where_holds ?wh eve_row users_schema = Ok True" by code_simp
    then show ?thesis by (simp add: r)
  qed
  have i: "next_txn_id (eng_mgr g) \<noteq> - 1" "(2 :: nat) ^ 32 < 2 ^ 32 + 1"
    by (simp_all add: g(3))
  have room: "int (length (table_rows (eng_schemas g) t ''users'') + 1) \<le> o_max (obs (store (eng_mgr g)))"
    unfolding g(2,4) r by simp
  have "(table_rows users_schemas t)(''users'' := filter (\<lambda>x. \<not> True) (table_rows users_schemas t ''users'')) = (\<lambda>_. [])"
    by (simp add: r fun_eq_iff)
  then show ?thesis
    using delete_survives_crash [OF g(1) i texts(3) users_reads(1) [folded g(2)] P [folded g(2)] room] unfolding g(2) by (metis order_refl)
qed

theorem reported_scan_witness:
  "scan_kind_of (DeleteNode ''users'' users_schema None) = ScanNone"
proof -
  have "plan_statement (reader_of users_catalog) (DeleteStatement ''users'' None) = Ok (DeleteNode ''users'' users_schema None)"
    using users_get_schema by (simp add: plan_delete_def plan_schema_def)
  from reported_scan [OF this] show ?thesis by simp
qed

text \<open>\<open>SELECT name FROM users WHERE name >= 'Al' AND NOT id < 3 LIMIT 5\<close>.\<close>

definition late_names :: select_statement where
  "late_names = \<lparr>sel_columns = [Identifier [] ''name''], sel_table = ''users'', sel_join = None,
     sel_where = Some (BinaryExpr (BinaryExpr (Identifier [] ''name'') OpGTE (StringLiteral ''Al'')) OpAND
       (UnaryExpr ''NOT'' (BinaryExpr (Identifier [] ''id'') OpLT (IntLiteral 3)))),
     sel_order_by = None, sel_limit = Some 5\<rparr>"

definition late_names_text :: string where
  "late_names_text = ''SELECT name FROM users WHERE name >= '' @ [CHR 0x27] @ ''Al'' @ [CHR 0x27] @ '' AND NOT id < 3 LIMIT 5 ''"

lemma late_names_parsed: "parse 99 late_names_text = Some (Inr (Some (SelectStatement late_names)))"
proof -
  let ?s = "SelectStatement late_names"
  have p: "printable_statement ?s"
    by (simp add: late_names_def printable_select_def)
  have s: "\<forall>(t, w) \<in> set (spaced (statement_tokens ?s)). valid_token t \<and> spacing w"
    "length (statement_tokens ?s) \<le> 99" "layout (spaced (statement_tokens ?s)) = late_names_text"
    by code_simp+
  show ?thesis
    by (rule parse_spaced [OF p s(1,2), unfolded s(3)])
qed

text \<open>The statement and \<open>SELECT * FROM users WHERE id = 9\<close> on the row \<open>(9, 'Eve')\<close>.\<close>

lemma users_names: "map col_name (columns users_schema) = [''id'', ''name'']"
  by (simp add: users_schema_def sample_column_def name_column_def)

lemma late_names_posed:
  "select_posed fits users_schema late_names [eve_row]"
  "select_rows [''id'', ''name''] late_names [eve_row] = [[StringValue ''Eve'']]"
  "\<not> (\<exists>w. sel_where late_names = Some w \<and> pk_comparison users_schema w)"
proof -
  have l: "StringValue ''Al'' \<le> StringValue ''Eve''"
    by code_simp
  have k: "\<not> pk_comparison users_schema (BinaryExpr (BinaryExpr a b c) d r)" for a b c d r
    by (simp add: pk_comparison_def)
  show "select_posed fits users_schema late_names [eve_row]"
    using k by (simp add: select_posed_def late_names_def users_names eve_row_def field_def)
  show "select_rows [''id'', ''name''] late_names [eve_row] = [[StringValue ''Eve'']]"
    using l by (simp add: select_rows_def late_names_def eve_row_def field_def project_def limited_def)
  show "\<not> (\<exists>w. sel_where late_names = Some w \<and> pk_comparison users_schema w)"
    using k by (simp add: late_names_def)
qed

theorem select_through_stack_witness:
  "\<exists>g N g'. client_exec 99 N 2 (2 ^ 32 + 1) late_names_text g =
     (Ok \<lparr>cl_result = \<lparr>res_rows = [[StringValue ''Eve'']], res_affected = 0, res_schema = Some users_schema\<rparr>, cl_scan = ScanSequential\<rparr>, g')"
proof -
  obtain h t g where g: "sound users_env h t 2 (2 ^ 32 + 1) g" "eng_schemas g = users_schemas" "next_txn_id (eng_mgr g) = 1"
    and r: "table_rows users_schemas t = (\<lambda>_. [])(''users'' := [eve_row])"
    by (rule users_inserted)
  have i: "next_txn_id (eng_mgr g) \<noteq> - 1" "sel_table late_names = ''users''"
    by (simp_all add: g(3) late_names_def)
  have rows: "table_rows (eng_schemas g) t (sel_table late_names) = [eve_row]" "eng_schemas g (sel_table late_names) = Some users_schema"
    using users_reads(1) by (simp_all add: g(2) r i(2))
  from select_through_stack [OF g(1) i(1) late_names_parsed rows(2), unfolded rows(1) select_rows_def [symmetric], OF late_names_posed(1)]
  show ?thesis
    unfolding users_names late_names_posed(2) if_not_P [OF late_names_posed(3)] by (metis order_refl)
qed


theorem transaction_markers_ignored_witness:
  "client_exec 99 1 1 2 ''ROLLBACK '' users_engine = (Ok (no_rows None), users_engine)"
proof -
  have s: "\<forall>(t, w) \<in> set (spaced (statement_tokens RollbackStatement)). valid_token t \<and> spacing w"
    "length (statement_tokens RollbackStatement) \<le> 99" "layout (spaced (statement_tokens RollbackStatement)) = ''ROLLBACK ''"
    by code_simp+
  have "parse 99 ''ROLLBACK '' = Some (Inr (Some RollbackStatement))"
    by (rule parse_spaced [OF _ s(1,2), unfolded s(3)]) simp
  then show ?thesis
    using transaction_markers_ignored [of 99 "''ROLLBACK ''"] by blast
qed

theorem created_table_survives_rollback_witness:
  "\<exists>g s1 r s2. client_begin g = Ok s1 \<and> bindG (tx_exec 99 0 2 3 ''CREATE TABLE users ( id INT PRIMARY KEY , name VARCHAR ( 20 ) ) '') (\<lambda>_. tx_rollback) s1 = (r, s2) \<and>
    get_schema (eng_catalog (c_engine s2)) ''users'' = Ok users_schema"
proof -
  obtain g where g: "sound users_env 0 empty_tree 2 (2 ^ 32 + 1) g" "eng_schemas g = (\<lambda>_. None)" "next_table_id (eng_catalog g) = 0" "can_write (eng_catalog g)"
    by (rule new_directory_opens)
  obtain s where s: "client_begin g = Ok s" "eng_catalog (c_engine s) = eng_catalog g"
    by (simp add: client_begin_def on_mgr_def begin_txn_def Let_def)
  have m: "map_of (schemas (eng_catalog (c_engine s))) ''users'' = None" "can_write (eng_catalog (c_engine s))"
    using g by (simp_all add: s(2) sound_def catalog_agrees_def)
  have u: "\<lparr>table_name = ''users'', table_id = next_table_id (eng_catalog (c_engine s)), columns = columns users_schema\<rparr> = users_schema"
    by (simp add: s(2) g(3) users_schema_def)
  show ?thesis
    using created_table_survives_rollback [OF texts(1) m, of 0 2 3] s(1) unfolding u bindG_def by fastforce
qed

end
