(* ===== verification/Dump.thy ===== *)
theory Dump
  imports Repository Tree_Grow
begin

text \<open>
  \<open>storage/btree/dump.go\<close>: the snapshot of the whole tree for the visualizer. The map \<open>visited\<close> is a set, the pages of the
  snapshot are a map; both are passed along the walk. A page stays pinned while the pages below it are dumped
  (\<open>defer bt.releasePage(p)\<close>).
\<close>

section \<open>The walk\<close>

record page_snapshot =
  ps_page_id :: u32
  ps_is_leaf :: bool
  ps_keys :: "string list"
  ps_children :: "u32 list"
  ps_rightmost :: u32
  ps_rows :: "row list"
  ps_row_tables :: "string list"
  ps_next_leaf :: u32

record tree_snapshot =
  snap_root :: u32
  snap_pages :: "u32 \<Rightarrow> page_snapshot option"

type_synonym schema_map = "u32 \<Rightarrow> schema option"
type_synonym dump = "u32 set \<times> (u32 \<Rightarrow> page_snapshot option)"

fun format_value :: "gvalue \<Rightarrow> string" where
  "format_value (Some (IntValue i)) = show_int (sint i)"
| "format_value (Some (StringValue s)) = s"
| "format_value (Some (BoolValue b)) = (if b then ''true'' else ''false'')"
| "format_value _ = ''''"

text \<open>The rows of a leaf with the names of their tables; cells of unknown tables are skipped.\<close>

fun leaf_rows_loop :: "page \<Rightarrow> schema_map \<Rightarrow> nat list \<Rightarrow> (row list \<times> string list) option" where
  "leaf_rows_loop p schs [] = Some ([], [])"
| "leaf_rows_loop p schs (i # is) =
     do { c \<leftarrow> cell_at i p;
          tid \<leftarrow> cell_table_id c;
          case schs tid of
            None \<Rightarrow> leaf_rows_loop p schs is
          | Some sch \<Rightarrow>
              do { (_, _, r) \<leftarrow> decode_leaf_cell c sch;
                   (rs, ts) \<leftarrow> leaf_rows_loop p schs is;
                   Some (r # rs, table_name sch # ts) } }"

definition decode_leaf_rows :: "page \<Rightarrow> schema_map \<Rightarrow> (row list \<times> string list) option" where
  "decode_leaf_rows p schs = leaf_rows_loop p schs [0..<unat (cell_count p)]"

text \<open>\<open>FromBytes\<close> copies the bytes; a slice that is not a page makes it panic.\<close>

definition decode_page_bytes :: "byte list \<Rightarrow> schema_map \<Rightarrow> (row list \<times> string list) option" where
  "decode_page_bytes data schs =
     do { p \<leftarrow> from_bytes data;
          if page_type p \<noteq> type_leaf then Some ([], []) else decode_leaf_rows p schs }"

fun node_entries :: "page \<Rightarrow> nat list \<Rightarrow> (string \<times> u32) list option" where
  "node_entries p [] = Some []"
| "node_entries p (i # is) =
     do { c \<leftarrow> cell_at i p;
          (_, key, child) \<leftarrow> decode_internal_cell c;
          es \<leftarrow> node_entries p is;
          Some ((format_value key, child) # es) }"

definition leaf_snapshot :: "u32 \<Rightarrow> row list \<Rightarrow> string list \<Rightarrow> u32 \<Rightarrow> page_snapshot" where
  "leaf_snapshot i rs ts nx =
     \<lparr>ps_page_id = i, ps_is_leaf = True, ps_keys = [], ps_children = [], ps_rightmost = 0,
      ps_rows = rs, ps_row_tables = ts, ps_next_leaf = nx\<rparr>"

definition node_snapshot :: "u32 \<Rightarrow> string list \<Rightarrow> u32 list \<Rightarrow> u32 \<Rightarrow> page_snapshot" where
  "node_snapshot i ks cs r =
     \<lparr>ps_page_id = i, ps_is_leaf = False, ps_keys = ks, ps_children = cs, ps_rightmost = r,
      ps_rows = [], ps_row_tables = [], ps_next_leaf = 0\<rparr>"

definition deferring :: "u32 \<Rightarrow> (storage, 'a) go \<Rightarrow> (storage, 'a) go" where
  "deferring i f s = (case f s of (r, s') \<Rightarrow> (r, release_page i s'))"

fun dump_page :: "nat \<Rightarrow> schema_map \<Rightarrow> u32 \<Rightarrow> dump \<Rightarrow> (storage, dump) go"
  and dump_children :: "nat \<Rightarrow> schema_map \<Rightarrow> u32 list \<Rightarrow> dump \<Rightarrow> (storage, dump) go" where
  "dump_page 0 schs i acc = stuck"
| "dump_page (Suc n) schs i acc =
     (let (visited, pages) = acc in
      if i \<in> visited then ret acc
      else
        bindG (fetch_page i) (\<lambda>p. deferring i (
          if page_type p = type_leaf
          then bindG (of_option (decode_leaf_rows p schs)) (\<lambda>(rs, ts).
               ret (insert i visited, pages(i \<mapsto> leaf_snapshot i rs ts (next_leaf_id p))))
          else
            bindG (of_option (node_entries p [0..<unat (cell_count p)])) (\<lambda>es.
            let r = rightmost_child p;
                ps = node_snapshot i (map fst es) (map snd es) r in
            bindG (dump_children n schs (map snd es) (insert i visited, pages(i \<mapsto> ps))) (\<lambda>acc.
            if r \<noteq> no_page_id then dump_page n schs r acc else ret acc)))))"
| "dump_children n schs [] acc = ret acc"
| "dump_children n schs (c # cs) acc = bindG (dump_page n schs c acc) (dump_children n schs cs)"

definition dump_tree :: "nat \<Rightarrow> schema_map \<Rightarrow> (storage, tree_snapshot) go" where
  "dump_tree n schs =
     bindG (getsG (\<lambda>s. root_page_id (disk s))) (\<lambda>root.
     if root = no_page_id then ret \<lparr>snap_root = root, snap_pages = Map.empty\<rparr>
     else bindG (dump_page n schs root ({}, Map.empty)) (\<lambda>(_, pages).
          ret \<lparr>snap_root = root, snap_pages = pages\<rparr>))"

section \<open>What it shows\<close>

text \<open>The rows of some cells, with their tables.\<close>

definition shown :: "schema_map \<Rightarrow> byte list list \<Rightarrow> (row \<times> string) list" where
  "shown schs cs = concat (map (\<lambda>c. case schs (fst (ckey c)) of
     None \<Rightarrow> [] | Some sch \<Rightarrow> [(snd (snd (the (decode_leaf_cell c sch))), table_name sch)]) cs)"

fun pages_of :: "schema_map \<Rightarrow> tree \<Rightarrow> (u32 \<Rightarrow> page_snapshot option)" where
  "pages_of schs (Leaf i cs nx) = [i \<mapsto> leaf_snapshot i (map fst (shown schs cs)) (map snd (shown schs cs)) nx]"
| "pages_of schs (Node i ks ts) =
     foldl (++) [i \<mapsto> node_snapshot i (map (format_value \<circ> Some \<circ> snd) ks) (map root_of (butlast ts)) (root_of (last ts))]
       (map (pages_of schs) ts)"

lemma foldl_map_add: "foldl (++) (p ++ q) ms = p ++ foldl (++) q ms"
  by (induction ms arbitrary: q) (simp_all flip: map_add_assoc)

lemma dom_foldl_map_add: "dom (foldl (++) p ms) = dom p \<union> (\<Union>m \<in> set ms. dom m)"
  by (induction ms arbitrary: p) auto

lemma dom_pages_of: "dom (pages_of schs t) = set (page_ids t)"
  by (induction schs t rule: pages_of.induct) (auto simp: dom_foldl_map_add split: if_splits)

definition known_decode :: "schema_map \<Rightarrow> byte list list \<Rightarrow> bool" where
  "known_decode schs cs \<longleftrightarrow> (\<forall>tid sch. schs tid = Some sch \<longrightarrow> decodable sch tid cs)"

lemma leaf_rows_ok:
  assumes "page_wf p" "\<forall>i \<in> set is. i < length (page_cells p)" "\<forall>i \<in> set is. cell_ok kinds (page_cells p ! i)"
    and "known_decode schs (map ((!) (page_cells p)) is)"
  shows "leaf_rows_loop p schs is = Some (map fst (shown schs (map ((!) (page_cells p)) is)), map snd (shown schs (map ((!) (page_cells p)) is)))"
  using assms(2-4)
proof (induction "is")
  case (Cons i "is")
  let ?c = "page_cells p ! i"
  have c: "cell_at i p = Some ?c" "cell_table_id ?c = Some (fst (ckey ?c))"
    using Cons.prems cell_at_ok [OF assms(1)] cell_ok_table_id by auto
  have IH: "leaf_rows_loop p schs is = Some (map fst (shown schs (map ((!) (page_cells p)) is)), map snd (shown schs (map ((!) (page_cells p)) is)))"
    using Cons.prems by (intro Cons.IH) (auto simp: known_decode_def decodable_def)
  have "\<exists>x. decode_leaf_cell ?c sch = Some x" if "schs (fst (ckey ?c)) = Some sch" for sch
    using Cons.prems(3) that by (auto simp: known_decode_def decodable_def)
  then show ?case
    using c IH by (auto simp: shown_def split: option.splits)
qed (simp add: shown_def)

lemma node_entries_ok:
  assumes "page_wf p" "page_cells p = map2 icell ks cs" "length ks = length cs" "\<forall>k \<in> set ks. ckey_ok kinds k"
    "\<forall>i \<in> set is. i < length ks"
  shows "node_entries p is = Some (map (\<lambda>i. (format_value (Some (snd (ks ! i))), cs ! i)) is)"
  using assms(5)
proof (induction "is")
  case (Cons i "is")
  then have "cell_at i p = Some (icell (ks ! i) (cs ! i))"
    using assms(2,3) cell_at_ok [OF assms(1), of i] by simp
  moreover have "decode_internal_cell (icell (ks ! i) (cs ! i)) = Some (fst (ks ! i), Some (snd (ks ! i)), cs ! i)"
    using Cons.prems assms(4) by (intro icell_decode(1) [of kinds]) simp
  ultimately show ?case
    using Cons by simp
qed simp


lemma room_pinned:
  assumes "room (Suc n) x" "0 \<le> o_pins x i" "finite (o_busy x)"
  shows "room n (pinned i x)"
proof -
  have "o_busy (pinned i x) \<subseteq> insert i (o_busy x)"
    by (auto simp: o_busy_def split: if_splits)
  then have "card (o_busy (pinned i x)) \<le> card (insert i (o_busy x))"
    using assms(3) by (intro card_mono) auto
  also have "\<dots> \<le> Suc (card (o_busy x))"
    by (rule card_insert_le_m1) simp_all
  finally show ?thesis
    using assms(1) by (simp add: room_def)
qed

text \<open>The walk over the pages of a subtree of which none was visited.\<close>

definition dumps :: "(storage, dump) go \<Rightarrow> observed \<Rightarrow> u32 set \<Rightarrow> (u32 \<Rightarrow> page_snapshot option) \<Rightarrow> bool" where
  "dumps f x V P \<longleftrightarrow> (\<forall>s. db_ok {} s \<longrightarrow> obs s = x \<longrightarrow> (\<exists>s'. f s = (Ok (V, P), s') \<and> db_ok {} s' \<and> obs s' = x))"

lemma dumps_bind:
  assumes "dumps f x V P" "dumps (g (V, P)) x W Q"
  shows "dumps (bindG f g) x W Q"
  using assms unfolding dumps_def bindG_def by fastforce

lemma dumps_ret: "dumps (ret (V, P)) x V P"
  by (simp add: dumps_def ret_def)

lemma dumps_Pair: "dumps (Pair (Ok (V, P))) x V P"
  using dumps_ret [of V P x] by (simp add: ret_def [abs_def])

lemma bind_of_option: "bindG (of_option (Some a)) f = f a"
  by (simp add: bindG_def fun_eq_iff)

lemma dumps_pinned:
  assumes p: "o_view x i = Some p" and room: "room 1 x" and d: "dumps (f p) (pinned i x) V P"
  shows "dumps (bindG (fetch_page i) (\<lambda>p. deferring i (f p))) x V P"
proof (unfold dumps_def, intro allI impI)
  fix s assume s: "db_ok {} s" "obs s = x"
  obtain s1 where s1: "fetch_page i s = (Ok p, s1)" "db_ok {} s1" "obs s1 = pinned i x"
    using fetch_rule [OF s(1), of i p] p room s(2) by (metis pinned_def)
  obtain s2 where s2: "f p s1 = (Ok (V, P), s2)" "db_ok {} s2" "obs s2 = pinned i x"
    using d s1(2,3) by (auto simp: dumps_def)
  have "0 \<le> o_pins x i"
    using pins_nonneg [OF db_ok_pool [OF s(1)], of i] s(2) by (metis obs_fields(4))
  then have "0 < o_pins (obs s2) i"
    by (simp only: s2(3) pinned_fields) simp
  note r = release_rule [OF s2(2) this]
  have "obs (release_page i s2) = x"
    using r(2) by (simp add: s2(3) pinned_def)
  then show "\<exists>s'. bindG (fetch_page i) (\<lambda>p. deferring i (f p)) s = (Ok (V, P), s') \<and> db_ok {} s' \<and> obs s' = x"
    using r(1) by (simp add: bindG_def s1(1) deferring_def s2(1))
qed

lemma dump_children_ok:
  assumes "\<And>t V P. t \<in> set ts \<Longrightarrow> set (page_ids t) \<inter> V = {} \<Longrightarrow>
      dumps (dump_page n schs (root_of t) (V, P)) x (V \<union> set (page_ids t)) (P ++ pages_of schs t)"
    and "distinct (concat (map page_ids ts))" "(\<Union>t \<in> set ts. set (page_ids t)) \<inter> V = {}"
  shows "dumps (dump_children n schs (map root_of ts) (V, P)) x (V \<union> (\<Union>t \<in> set ts. set (page_ids t))) (foldl (++) P (map (pages_of schs) ts))"
  using assms
proof (induction ts arbitrary: V P)
  case Nil
  then show ?case by (simp add: dumps_Pair)
next
  case (Cons t ts)
  have "dumps (dump_page n schs (root_of t) (V, P)) x (V \<union> set (page_ids t)) (P ++ pages_of schs t)"
    using Cons.prems(3) by (intro Cons.prems(1)) auto
  moreover have "dumps (dump_children n schs (map root_of ts) (V \<union> set (page_ids t), P ++ pages_of schs t)) x
      (V \<union> set (page_ids t) \<union> (\<Union>t \<in> set ts. set (page_ids t))) (foldl (++) (P ++ pages_of schs t) (map (pages_of schs) ts))"
    using Cons.prems by (intro Cons.IH) auto
  ultimately show ?case
    using dumps_bind by (simp add: Un_assoc)
qed


lemma kids_in_each:
  assumes "kids_in Q lo hi ks ts" "t \<in> set ts"
  shows "\<exists>l u. Q l u t"
proof -
  obtain as bs where ts: "ts = as @ t # bs"
    using assms(2) by (meson split_list)
  then have "length as \<le> length ks"
    using kids_in_length [OF assms(1)] by simp
  then show ?thesis
    using kids_in_member [of Q lo hi "take (length as) ks" "drop (length as) ks" as t bs] assms(1) ts by auto
qed

lemma set_tree_cells_Node: "set (tree_cells (Node i ks ts)) = (\<Union>t \<in> set ts. set (tree_cells t))"
  by (auto simp: tree_cells_def leaves_cells_def)

lemma node_entries_all:
  assumes "node_page p i ks cs" "\<forall>k \<in> set ks. ckey_ok kinds k"
  obtains es where "node_entries p [0..<unat (cell_count p)] = Some es" "map fst es = map (format_value \<circ> Some \<circ> snd) ks"
    "map snd es = butlast cs"
proof -
  have p: "page_wf p" "page_cells p = map2 icell ks cs" "length cs = Suc (length ks)"
    using assms(1) by (simp_all add: node_page_def)
  have l: "length (butlast cs) = length ks"
    using p(3) by simp
  then have z: "map2 icell ks cs = map2 icell ks (butlast cs)"
    using p(3) by (intro nth_equalityI) (auto simp: nth_butlast)
  have n: "unat (cell_count p) = length ks"
    using length_page_cells [of p] p(2,3) by simp
  have "node_entries p [0..<unat (cell_count p)] = Some (map (\<lambda>i. (format_value (Some (snd (ks ! i))), butlast cs ! i)) [0..<length ks])"
    using node_entries_ok [OF p(1) p(2) [unfolded z] _ assms(2), of "[0..<length ks]"] l by (simp add: n)
  then show thesis
    using l by (intro that) (auto intro!: nth_equalityI)
qed

text \<open>What happens to a page while it is pinned.\<close>

definition dump_inside :: "nat \<Rightarrow> schema_map \<Rightarrow> u32 \<Rightarrow> u32 set \<Rightarrow> (u32 \<Rightarrow> page_snapshot option) \<Rightarrow> page \<Rightarrow> (storage, dump) go" where
  "dump_inside n schs i V P p =
     (if page_type p = type_leaf
      then bindG (of_option (decode_leaf_rows p schs)) (\<lambda>(rs, ts). ret (insert i V, P(i \<mapsto> leaf_snapshot i rs ts (next_leaf_id p))))
      else
        bindG (of_option (node_entries p [0..<unat (cell_count p)])) (\<lambda>es.
        let r = rightmost_child p; ps = node_snapshot i (map fst es) (map snd es) r in
        bindG (dump_children n schs (map snd es) (insert i V, P(i \<mapsto> ps))) (\<lambda>acc.
        if r \<noteq> no_page_id then dump_page n schs r acc else ret acc)))"

lemma dump_page_inside:
  assumes "dumps (dump_inside n schs i V P p) (pinned i x) W Q" "o_view x i = Some p" "room 1 x" "i \<notin> V"
  shows "dumps (dump_page (Suc n) schs i (V, P)) x W Q"
proof -
  have "dump_page (Suc n) schs i (V, P) = bindG (fetch_page i) (\<lambda>p. deferring i (dump_inside n schs i V P p))"
    using assms(4) by (simp add: dump_inside_def [abs_def])
  then show ?thesis
    using dumps_pinned [of x i p "dump_inside n schs i V P"] assms(1-3) by simp
qed

lemma dump_leaf_ok:
  assumes p: "o_view x i = Some p" "leaf_page p i cs nx" and cells: "\<forall>c \<in> set cs. cell_ok kinds c" "known_decode schs cs" and room: "room 1 x" "i \<notin> V"
  shows "dumps (dump_page (Suc m) schs i (V, P)) x (insert i V) (P ++ pages_of schs (Leaf i cs nx))"
proof -
  note lp = leaf_page_cells [OF p(2)]
  have idx: "map ((!) (page_cells p)) [0..<unat (cell_count p)] = cs"
    using map_nth [of cs] by (simp add: lp(2,6))
  have rows: "decode_leaf_rows p schs = Some (map fst (shown schs cs), map snd (shown schs cs))"
    using leaf_rows_ok [OF lp(1), of "[0..<unat (cell_count p)]" kinds schs] cells unfolding idx decode_leaf_rows_def by (simp add: lp)
  have "dumps (dump_inside m schs i V P p) (pinned i x) (insert i V) (P ++ pages_of schs (Leaf i cs nx))"
    by (simp add: dump_inside_def dumps_Pair lp(3) rows bind_of_option next_leaf_id_def lp(4))
  from dump_page_inside [OF this p(1) room] show ?thesis .
qed

lemma dump_node_ok:
  assumes p: "o_view x i = Some p" "node_page p i ks (map root_of ts)" and ks: "\<forall>k \<in> set ks. ckey_ok kinds k" and ne: "ts \<noteq> []"
    and kid: "\<And>u W Q. u \<in> set ts \<Longrightarrow> set (page_ids u) \<inter> W = {} \<Longrightarrow>
      dumps (dump_page m schs (root_of u) (W, Q)) (pinned i x) (W \<union> set (page_ids u)) (Q ++ pages_of schs u)"
    and ids: "distinct (page_ids (Node i ks ts))" "set (page_ids (Node i ks ts)) \<inter> V = {}"
    and nn: "root_of (last ts) \<noteq> no_page_id" and room: "room 1 x"
  shows "dumps (dump_page (Suc m) schs i (V, P)) x (V \<union> set (page_ids (Node i ks ts))) (P ++ pages_of schs (Node i ks ts))"
proof -
  let ?t = "Node i ks ts" and ?x = "pinned i x" and ?V = "insert i V" and ?bs = "butlast ts"
    and ?node = "node_snapshot i (map (format_value \<circ> Some \<circ> snd) ks) (map root_of (butlast ts)) (root_of (last ts))"
  let ?W = "?V \<union> (\<Union>u \<in> set ?bs. set (page_ids u))" and ?Q = "foldl (++) (P(i \<mapsto> ?node)) (map (pages_of schs) ?bs)"
  obtain es where es: "node_entries p [0..<unat (cell_count p)] = Some es" "map fst es = map (format_value \<circ> Some \<circ> snd) ks"
    "map snd es = butlast (map root_of ts)"
    by (rule node_entries_all [OF p(2) ks])
  have ty: "page_type p \<noteq> type_leaf" and rc: "rightmost_child p = root_of (last ts)"
    using p(2) ne by (auto simp: node_page_def type_leaf_def type_internal_def last_map)
  have split: "ts = ?bs @ [last ts]"
    using ne by simp
  have "distinct (concat (map page_ids ts))"
    using ids(1) by simp
  then have d: "distinct (concat (map page_ids ?bs))" "set (page_ids (last ts)) \<inter> (\<Union>u \<in> set ?bs. set (page_ids u)) = {}"
    by (subst (asm) split; auto)+
  have disj: "(\<Union>u \<in> set ts. set (page_ids u)) \<inter> ?V = {}" and iV: "i \<notin> V"
    using ids by auto
  have sub: "u \<in> set ts" if "u \<in> set ?bs" for u
    using that by (rule in_set_butlastD)
  have db: "(\<Union>u \<in> set ?bs. set (page_ids u)) \<inter> ?V = {}" and dl: "set (page_ids (last ts)) \<inter> ?W = {}"
    using disj sub last_in_set [OF ne] d(2) by fast+
  have c: "dumps (dump_children m schs (map root_of ?bs) (?V, P(i \<mapsto> ?node))) ?x ?W ?Q"
    by (rule dump_children_ok [OF _ d(1) db]) (rule kid [OF sub])
  have l: "dumps (dump_page m schs (root_of (last ts)) (?W, ?Q)) ?x (?W \<union> set (page_ids (last ts))) (?Q ++ pages_of schs (last ts))"
    by (rule kid [OF last_in_set [OF ne] dl])
  have "set ts = insert (last ts) (set ?bs)"
    using arg_cong [OF split, of set] by simp
  then have V: "?W \<union> set (page_ids (last ts)) = V \<union> set (page_ids ?t)"
    by auto
  have "?Q ++ pages_of schs (last ts) = foldl (++) (P ++ [i \<mapsto> ?node]) (map (pages_of schs) (?bs @ [last ts]))"
    by simp
  also have "\<dots> = P ++ pages_of schs ?t"
    using foldl_map_add [of P "[i \<mapsto> ?node]"] ne by (simp del: map_append)
  finally have Q: "?Q ++ pages_of schs (last ts) = P ++ pages_of schs ?t" .
  have "dumps (dump_inside m schs i V P p) ?x (V \<union> set (page_ids ?t)) (P ++ pages_of schs ?t)"
    using dumps_bind [OF c, of "\<lambda>acc. if root_of (last ts) \<noteq> no_page_id then dump_page m schs (root_of (last ts)) acc else ret acc"] l nn ty
    unfolding V Q by (simp add: dump_inside_def Let_def es rc bind_of_option map_butlast del: dump_page.simps pages_of.simps)
  from dump_page_inside [OF this p(1) room iV] show ?thesis .
qed

lemma dump_page_ok:
  assumes "holds_tree (o_view x) t" "balanced h t" "h < n" "tree_in e lo hi t" "distinct (page_ids t)" "set (page_ids t) \<inter> V = {}"
    and "room (Suc h) x" "\<And>i. 0 \<le> o_pins x i" "finite (o_busy x)" "o_view x no_page_id = None" "known_decode schs (tree_cells t)"
  shows "dumps (dump_page n schs (root_of t) (V, P)) x (V \<union> set (page_ids t)) (P ++ pages_of schs t)"
  using assms
proof (induction h arbitrary: t n x V P lo hi)
  case 0
  then obtain i cs nx m where t: "t = Leaf i cs nx" and m: "n = Suc m"
    by (cases t; cases n) auto
  obtain p where p: "o_view x i = Some p" "leaf_page p i cs nx"
    using "0.prems"(1) by (auto simp: t)
  have "\<forall>c \<in> set cs. cell_ok (key_kinds e) c" "known_decode schs cs" "room 1 x" "i \<notin> V"
    using "0.prems"(4,6,7,11) by (simp_all add: t leaf_in_def cell_in_env_def tree_cells_def leaves_cells_def)
  from dump_leaf_ok [OF p this] show ?case
    by (simp add: m t del: dump_page.simps pages_of.simps)
next
  case (Suc h)
  then obtain i ks ts m where t: "t = Node i ks ts" and m: "n = Suc m" "h < m"
    by (cases t; cases n) auto
  obtain p where p: "o_view x i = Some p" "node_page p i ks (map root_of ts)" and kids: "\<forall>u \<in> set ts. holds_tree (o_view x) u"
    using Suc.prems(1) by (auto simp: t)
  have ks: "\<forall>k \<in> set ks. ckey_ok (key_kinds e) k" and ki: "kids_in (tree_in e) lo hi ks ts"
    using Suc.prems(4) by (auto simp: t key_in_env_def)
  have ne: "ts \<noteq> []"
    using kids_in_length [OF ki] by auto
  let ?x = "pinned i x"
  have "o_busy ?x \<subseteq> insert i (o_busy x)"
    by (auto simp: o_busy_def split: if_splits)
  then have pp: "0 \<le> o_pins ?x j" "finite (o_busy ?x)" for j
    using Suc.prems(8) [of j] Suc.prems(8) [of i] Suc.prems(9) finite_subset by auto
  have rm: "room (Suc h) ?x"
    by (rule room_pinned [OF Suc.prems(7,8,9)])
  have kid: "dumps (dump_page m schs (root_of u) (W, Q)) ?x (W \<union> set (page_ids u)) (Q ++ pages_of schs u)"
    if u: "u \<in> set ts" "set (page_ids u) \<inter> W = {}" for u W Q
  proof -
    obtain l r where "tree_in e l r u"
      using kids_in_each [OF ki u(1)] by blast
    moreover have "distinct (page_ids u)" "known_decode schs (tree_cells u)"
      using Suc.prems(5,11) u(1) by (auto simp: t distinct_concat_iff known_decode_def decodable_def set_tree_cells_Node)
    ultimately show ?thesis
      using u(2) kids u(1) Suc.prems(2,10) rm pp m(2) by (intro Suc.IH) (auto simp: t)
  qed
  have nn: "root_of (last ts) \<noteq> no_page_id"
    using kids ne Suc.prems(10) by (cases "last ts") (auto dest!: bspec [OF _ last_in_set])
  have "room 1 x"
    using Suc.prems(7) by (simp add: room_def)
  from dump_node_ok [OF p ks ne kid Suc.prems(5,6) [unfolded t] nn this] show ?case
    by (simp add: m t del: dump_page.simps pages_of.simps)
qed

lemma dump_tree_ok:
  assumes "btree_ok e h t (obs s)" "db_ok {} s" "room (Suc h) (obs s)" "h < n" "known_decode schs (tree_cells t)"
  shows "\<exists>s'. dump_tree n schs s = (Ok \<lparr>snap_root = root_of t, snap_pages = pages_of schs t\<rparr>, s') \<and> db_ok {} s' \<and> obs s' = obs s"
proof -
  let ?x = "obs s"
  note b = assms(1) [unfolded btree_ok_def]
  have "dumps (dump_page n schs (root_of t) ({}, Map.empty)) ?x ({} \<union> set (page_ids t)) (Map.empty ++ pages_of schs t)"
    using b assms(3-5) pins_nonneg [OF db_ok_pool [OF assms(2)]] finite_busy no_page_not_stored [OF assms(2)]
    by (intro dump_page_ok [where h = h and e = e and lo = None and hi = None]) auto
  then obtain s' where s': "dump_page n schs (root_of t) ({}, Map.empty) s = (Ok (set (page_ids t), pages_of schs t), s')"
    "db_ok {} s'" "obs s' = ?x"
    using assms(2) by (auto simp: dumps_def)
  have r: "root_page_id (disk s) = root_of t"
    using b by simp
  have "o_view ?x (root_of t) \<noteq> None"
    using b by (cases t) auto
  then have "root_of t \<noteq> no_page_id"
    using no_page_not_stored [OF assms(2)] by metis
  then show ?thesis
    using s' by (simp add: dump_tree_def bindG_def getsG_def r)
qed

text \<open>The snapshot of the visualizer shows the tree: on a well-formed tree, with a free frame for every level, \<open>DumpTree\<close> returns exactly
  the pages of the tree, each leaf with the rows of the known tables in key order and each node with its separators and children,
  and changes nothing observable.\<close>

theorem dump_shows_tree:
  assumes "btree_ok e h t (obs s)" "db_ok {} s" "room (Suc h) (obs s)" "h < n" "known_decode schs (tree_cells t)"
  shows "\<exists>s'. dump_tree n schs s = (Ok \<lparr>snap_root = root_of t, snap_pages = pages_of schs t\<rparr>, s') \<and>
    dom (pages_of schs t) = set (page_ids t) \<and> obs s' = obs s"
  using dump_tree_ok [OF assms] dom_pages_of [of schs t] by blast

lemma dump_shows_tree_witness:
  "let schs = [0 \<mapsto> users_schema] in
   \<exists>s'. dump_tree 1 schs users_storage = (Ok \<lparr>snap_root = root_of users_tree, snap_pages = pages_of schs users_tree\<rparr>, s') \<and>
    dom (pages_of schs users_tree) = set (page_ids users_tree) \<and> obs s' = obs users_storage"
proof -
  have "known_decode [0 \<mapsto> users_schema] (tree_cells users_tree)"
    using user_cell_facts(2) by (simp add: known_decode_def decodable_def users_tree_def)
  then have "\<exists>s'. dump_tree 1 [0 \<mapsto> users_schema] users_storage =
       (Ok \<lparr>snap_root = root_of users_tree, snap_pages = pages_of [0 \<mapsto> users_schema] users_tree\<rparr>, s') \<and>
    dom (pages_of [0 \<mapsto> users_schema] users_tree) = set (page_ids users_tree) \<and> obs s' = obs users_storage"
    using users_ready by (intro dump_shows_tree [OF users_tree_ok]) (simp_all add: reader_ready_def)
  then show ?thesis
    unfolding Let_def .
qed

end
