(* ===== verification/Padding.thy ===== *)
theory Padding
  imports Executor Decimal
begin

text \<open>
  \<open>db-internal-app/internal/dbsession/padding.go\<close>: literals for a primary key of type VARCHAR are filled up to the length of the column
  before planning. The code overwrites the \<open>Value\<close> of the literals of a freshly parsed statement; here the statement is rebuilt.
\<close>

section \<open>Padding\<close>

definition id_numeric_digits :: nat where
  "id_numeric_digits = 3"

definition is_all_digits :: "string \<Rightarrow> bool" where
  "is_all_digits s \<longleftrightarrow> s \<noteq> [] \<and> list_all is_digit_char s"

definition pad_id :: "string \<Rightarrow> int \<Rightarrow> string" where
  "pad_id raw n =
     (if n \<le> 0 \<or> int (length raw) \<ge> n then raw
      else
        let numeric = (if is_all_digits raw \<and> length raw < id_numeric_digits
                       then replicate (id_numeric_digits - length raw) CHR ''0'' @ raw else raw)
        in if int (length numeric) \<ge> n then take (nat n) numeric
           else numeric @ replicate (nat (n - int (length numeric))) CHR ''x'')"

fun pad_literal :: "int \<Rightarrow> expr \<Rightarrow> expr" where
  "pad_literal n (StringLiteral s) = StringLiteral (pad_id s n)"
| "pad_literal n e = e"

fun is_column :: "string \<Rightarrow> expr \<Rightarrow> bool" where
  "is_column pk (Identifier _ c) \<longleftrightarrow> c = pk"
| "is_column pk _ \<longleftrightarrow> False"

fun pad_where_literals :: "string \<Rightarrow> int \<Rightarrow> expr \<Rightarrow> expr" where
  "pad_where_literals pk n (BinaryExpr l op r) =
     (if op = OpAND \<or> op = OpOR then BinaryExpr (pad_where_literals pk n l) op (pad_where_literals pk n r)
      else if is_column pk l then BinaryExpr l op (pad_literal n r)
      else if is_column pk r then BinaryExpr (pad_literal n l) op r
      else BinaryExpr l op r)"
| "pad_where_literals pk n e = e"

definition pad_assignment :: "string \<Rightarrow> int \<Rightarrow> assignment \<Rightarrow> assignment" where
  "pad_assignment pk n a = (if as_column a \<noteq> pk then a else a\<lparr>as_value := pad_literal n (as_value a)\<rparr>)"

fun pad_pk_literals :: "schema \<Rightarrow> statement \<Rightarrow> statement" where
  "pad_pk_literals sch st =
     (let i = primary_key_index sch; col = columns sch ! nat i; pk = col_name col; n = dt_length (col_type col) in
      if i < 0 \<or> dt_kind (col_type col) \<noteq> KindVarcharType then st
      else case st of
        SelectStatement s \<Rightarrow> SelectStatement (s\<lparr>sel_where := map_option (pad_where_literals pk n) (sel_where s)\<rparr>)
      | InsertStatement t vs \<Rightarrow> InsertStatement t (if i < int (length vs) then vs[nat i := pad_literal n (vs ! nat i)] else vs)
      | UpdateStatement t as wh \<Rightarrow> UpdateStatement t (map (pad_assignment pk n) as) (map_option (pad_where_literals pk n) wh)
      | DeleteStatement t wh \<Rightarrow> DeleteStatement t (map_option (pad_where_literals pk n) wh)
      | _ \<Rightarrow> st)"

section \<open>Padded numbers\<close>

definition three_digits :: "nat \<Rightarrow> string" where
  "three_digits a = [digit_char (a div 100), digit_char (a div 10 mod 10), digit_char (a mod 10)]"

lemma show_nat_digit: "n < 10 \<Longrightarrow> show_nat n = [digit_char n]"
  by (subst show_nat.simps) simp

lemma show_nat_tens: "\<not> n < 10 \<Longrightarrow> show_nat n = show_nat (n div 10) @ [digit_char (n mod 10)]"
  by (subst show_nat.simps) simp

lemma all_digits_number: "is_all_digits (show_nat n)"
  by (simp add: is_all_digits_def show_nat_ne show_nat_digits)

lemma zero_char: "digit_char 0 = CHR ''0''"
  by code_simp

lemma three_digits_padded:
  assumes "a < 1000"
  shows "length (show_nat a) \<le> 3 \<and> replicate (3 - length (show_nat a)) CHR ''0'' @ show_nat a = three_digits a"
proof -
  consider "a < 10" | "10 \<le> a" "a < 100" | "100 \<le> a" by linarith
  then show ?thesis
  proof cases
    case 1
    then show ?thesis
      by (simp add: show_nat_digit three_digits_def zero_char numeral_3_eq_3)
  next
    case 2
    then have "show_nat a = [digit_char (a div 10), digit_char (a mod 10)]" "a div 10 mod 10 = a div 10"
      by (simp_all add: show_nat_tens show_nat_digit)
    then show ?thesis
      using 2 by (simp add: three_digits_def zero_char)
  next
    case 3
    have "a div 10 div 10 = a div 100"
      by (simp flip: div_mult2_eq)
    moreover from this have "show_nat (a div 10) = [digit_char (a div 100), digit_char (a div 10 mod 10)]"
      using 3 assms by (simp add: show_nat_tens [of "a div 10"] show_nat_digit)
    ultimately show ?thesis
      using 3 by (simp add: show_nat_tens [of a] three_digits_def)
  qed
qed

lemma pad_number:
  assumes "a < 1000" "3 \<le> n"
  shows "pad_id (show_nat a) n = three_digits a @ replicate (nat (n - 3)) CHR ''x''"
proof -
  note t = three_digits_padded [OF assms(1)]
  have l: "length (three_digits a) = 3"
    by (simp add: three_digits_def)
  show ?thesis
  proof (cases "length (show_nat a) < 3")
    case True
    then have "pad_id (show_nat a) n = (if 3 \<ge> n then take (nat n) (three_digits a)
        else three_digits a @ replicate (nat (n - 3)) CHR ''x'')"
      using t assms(2) l by (simp add: pad_id_def id_numeric_digits_def all_digits_number Let_def)
    then show ?thesis
      using assms(2) l by auto
  next
    case False
    then have "show_nat a = three_digits a"
      using t by simp
    then show ?thesis
      using assms(2) l by (auto simp: pad_id_def id_numeric_digits_def Let_def)
  qed
qed

lemma less_digit: "d < 10 \<Longrightarrow> e < 10 \<Longrightarrow> digit_char d < digit_char e \<longleftrightarrow> d < e"
  by (simp add: digit_char_def less_char_def of_char_of)

lemma eq_digit: "d < 10 \<Longrightarrow> e < 10 \<Longrightarrow> digit_char d = digit_char e \<longleftrightarrow> d = e"
  by (metis digit_char_digit(2))

lemma digits_of: "(a::nat) = 100 * (a div 100) + 10 * (a div 10 mod 10) + a mod 10"
proof -
  have "a div 10 div 10 = a div 100"
    by (simp flip: div_mult2_eq)
  then have "a div 10 = 10 * (a div 100) + a div 10 mod 10"
    using mult_div_mod_eq [of 10 "a div 10"] by simp
  moreover have "a = 10 * (a div 10) + a mod 10"
    by simp
  ultimately show ?thesis
    by linarith
qed

lemma digitwise_less:
  fixes x y z u v w :: nat
  assumes "y < 10" "z < 10" "v < 10" "w < 10"
  shows "100 * x + 10 * y + z < 100 * u + 10 * v + w \<longleftrightarrow> x < u \<or> x = u \<and> (y < v \<or> y = v \<and> z < w)"
  using assms by (cases x u rule: linorder_cases; cases y v rule: linorder_cases) auto

lemma pad_number_less:
  assumes "a < 1000" "b < 1000" "3 \<le> n"
  shows "pad_id (show_nat a) n < pad_id (show_nat b) n \<longleftrightarrow> a < b"
proof -
  have d: "a div 100 < 10" "b div 100 < 10" "x mod 10 < 10" for x :: nat
    using assms by auto
  have "pad_id (show_nat a) n < pad_id (show_nat b) n \<longleftrightarrow> a div 100 < b div 100 \<or>
      a div 100 = b div 100 \<and> (a div 10 mod 10 < b div 10 mod 10 \<or> a div 10 mod 10 = b div 10 mod 10 \<and> a mod 10 < b mod 10)"
    using assms d by (simp add: pad_number three_digits_def less_digit eq_digit)
  also have "\<dots> \<longleftrightarrow> a < b"
    using digitwise_less [OF d(3) d(3) d(3) d(3), of "a div 100" "a div 10" a "b div 100" "b div 10" b]
    by (simp flip: digits_of)
  finally show ?thesis .
qed

section \<open>Conditions on padded ids\<close>

text \<open>A condition on ids written as numerals, and the same condition on numbers.\<close>

fun is_id :: "expr \<Rightarrow> bool" where
  "is_id (StringLiteral s) \<longleftrightarrow> s = show_nat (read_nat s) \<and> read_nat s < 1000"
| "is_id e \<longleftrightarrow> False"

fun mentions :: "string \<Rightarrow> expr \<Rightarrow> bool" where
  "mentions pk (Identifier _ c) \<longleftrightarrow> c = pk"
| "mentions pk (BinaryExpr l _ r) \<longleftrightarrow> mentions pk l \<or> mentions pk r"
| "mentions pk (UnaryExpr _ e) \<longleftrightarrow> mentions pk e"
| "mentions pk (IsNullExpr e) \<longleftrightarrow> mentions pk e"
| "mentions pk (IsNotNullExpr e) \<longleftrightarrow> mentions pk e"
| "mentions pk _ \<longleftrightarrow> False"

fun id_condition :: "string \<Rightarrow> expr \<Rightarrow> bool" where
  "id_condition pk (BinaryExpr l op r) \<longleftrightarrow>
     (if op = OpAND \<or> op = OpOR then id_condition pk l \<and> id_condition pk r
      else is_column pk l \<and> is_id r \<or> is_id l \<and> is_column pk r \<or> \<not> mentions pk l \<and> \<not> mentions pk r)"
| "id_condition pk e \<longleftrightarrow> \<not> mentions pk e"

fun id_number :: "expr \<Rightarrow> expr" where
  "id_number (StringLiteral s) = IntLiteral (word_of_nat (read_nat s))"
| "id_number e = e"

fun on_numbers :: "string \<Rightarrow> expr \<Rightarrow> expr" where
  "on_numbers pk (BinaryExpr l op r) =
     (if op = OpAND \<or> op = OpOR then BinaryExpr (on_numbers pk l) op (on_numbers pk r)
      else if is_column pk l then BinaryExpr l op (id_number r)
      else if is_column pk r then BinaryExpr (id_number l) op r
      else BinaryExpr l op r)"
| "on_numbers pk e = e"

lemma col_index_from_name: "col_index_from i cs c = j \<Longrightarrow> 0 \<le> i \<Longrightarrow> 0 \<le> j \<Longrightarrow> i \<le> j \<and> nat (j - i) < length cs \<and> col_name (cs ! nat (j - i)) = c"
proof (induction cs arbitrary: i)
  case (Cons x xs)
  show ?case
  proof (cases "col_name x = c")
    case False
    then have "i + 1 \<le> j \<and> nat (j - (i + 1)) < length xs \<and> col_name (xs ! nat (j - (i + 1))) = c"
      using Cons by simp
    moreover from this have "nat (j - i) = Suc (nat (j - (i + 1)))"
      by linarith
    ultimately show ?thesis by simp
  qed (use Cons.prems in simp)
qed simp

lemma col_index_inj: "col_index sch c = col_index sch d \<Longrightarrow> 0 \<le> col_index sch d \<Longrightarrow> c = d"
  using col_index_from_name [of 0 "columns sch" c "col_index sch d"] col_index_from_name [of 0 "columns sch" d "col_index sch d"]
  by (simp add: col_index_def)

lemma unmentioned_value:
  assumes "0 \<le> col_index sch pk" "\<not> mentions pk e"
  shows "eval_value e (r[nat (col_index sch pk) := v]) sch = eval_value e (r[nat (col_index sch pk) := w]) sch"
proof (cases e)
  case (Identifier t c)
  then have "col_index sch c \<noteq> col_index sch pk"
    using assms col_index_inj [of sch c pk] by auto
  then show ?thesis
    using Identifier assms(1) by (auto simp: Let_def value_at_def nth_list_update)
qed auto

lemma unmentioned_cond:
  assumes "0 \<le> col_index sch pk" "\<not> mentions pk e"
  shows "eval_cond e (r[nat (col_index sch pk) := v]) sch = eval_cond e (r[nat (col_index sch pk) := w]) sch"
  using assms(2) by (induction e) (simp_all add: unmentioned_value [OF assms(1), of _ r v w] cong: if_cong)

lemma value_cmp_numbers:
  assumes "a < 1000" "b < 1000" "3 \<le> n"
  shows "value_cmp (StringValue (pad_id (show_nat a) n)) (StringValue (pad_id (show_nat b) n)) =
    value_cmp (IntValue (word_of_nat a)) (IntValue (word_of_nat b))"
proof -
  have "sint (word_of_nat x :: i64) = int x" if "x < 1000" for x
    using that by (simp add: sint_uint unsigned_of_nat take_bit_nat_eq_self signed_take_bit_int_eq_self flip: of_nat_take_bit)
  then show ?thesis
    using assms by (simp add: pad_number_less)
qed

lemma is_columnE: "is_column pk e \<Longrightarrow> (\<And>t. e = Identifier t pk \<Longrightarrow> P) \<Longrightarrow> P"
  by (cases e) auto

lemma is_idE: "is_id e \<Longrightarrow> (\<And>a. e = StringLiteral (show_nat a) \<Longrightarrow> a < 1000 \<Longrightarrow> P) \<Longrightarrow> P"
  by (cases e) auto

lemma padded_ids_ok:
  assumes i: "0 \<le> col_index sch pk" "nat (col_index sch pk) < length r" and a: "a < 1000" "3 \<le> n" and c: "id_condition pk c"
  shows "eval_cond (pad_where_literals pk n c) (r[nat (col_index sch pk) := StringValue (pad_id (show_nat a) n)]) sch =
    eval_cond (on_numbers pk c) (r[nat (col_index sch pk) := IntValue (word_of_nat a)]) sch"
  using c
proof (induction c)
  case (BinaryExpr l op r')
  let ?i = "nat (col_index sch pk)"
  have pk: "eval_value (Identifier t pk) (r[?i := v]) sch = Ok v" for t v
    using i by (simp add: value_at_def Let_def)
  consider "op = OpAND \<or> op = OpOR" | "op \<noteq> OpAND" "op \<noteq> OpOR" "is_column pk l" "is_id r'" | "op \<noteq> OpAND" "op \<noteq> OpOR" "is_id l" "is_column pk r'"
    | "op \<noteq> OpAND" "op \<noteq> OpOR" "\<not> mentions pk l" "\<not> mentions pk r'"
    using BinaryExpr.prems unfolding id_condition.simps by presburger
  then show ?case
  proof cases
    case 1
    then show ?thesis
      using BinaryExpr by (auto cong: if_cong)
  next
    case 2
    then obtain t b where "l = Identifier t pk" "r' = StringLiteral (show_nat b)" "b < 1000"
      by (metis is_columnE is_idE)
    then show ?thesis
      using 2 by (simp add: pk read_show_nat value_cmp_numbers [OF a(1) _ a(2)] del: eval_value.simps(1) value_cmp.simps)
  next
    case 3
    then obtain t b where "r' = Identifier t pk" "l = StringLiteral (show_nat b)" "b < 1000"
      by (metis is_columnE is_idE)
    then show ?thesis
      using 3 by (simp add: pk read_show_nat value_cmp_numbers [OF _ a(1,2)] del: eval_value.simps(1) value_cmp.simps)
  next
    case 4
    then have "\<not> is_column pk l" "\<not> is_column pk r'"
      by (auto elim: is_columnE)
    then show ?thesis
      using 4 unmentioned_value [OF i(1) 4(3), of r "StringValue (pad_id (show_nat a) n)" "IntValue (word_of_nat a)"]
        unmentioned_value [OF i(1) 4(4), of r "StringValue (pad_id (show_nat a) n)" "IntValue (word_of_nat a)"] by simp
  qed
next
  case (UnaryExpr op e)
  then show ?case
    using unmentioned_cond [OF i(1), of "UnaryExpr op e"] by simp
next
  case (IsNullExpr e)
  then show ?case
    using unmentioned_cond [OF i(1), of "IsNullExpr e"] by simp
next
  case (IsNotNullExpr e)
  then show ?case
    using unmentioned_cond [OF i(1), of "IsNotNullExpr e"] by simp
qed auto

section \<open>Properties\<close>

text \<open>C21. Padded ids behave like numbers, in a key column of at least three characters, for the ids 0 to 999 written without leading
  zeros: a condition made by \<open>AND\<close> and \<open>OR\<close> of comparisons of the key with such ids and of conditions that do not speak of the key,
  once padded, holds for the stored string of an id exactly when the same condition on numbers holds for the number. A \<open>NOT\<close> over the key is
  left out, since the code does not pad below it (\<open>negated_id_matches_itself\<close>), and so are shorter columns, which cut the
  padded id (\<open>short_ids_collide\<close>).\<close>

theorem padded_ids_are_numbers:
  assumes "col_index sch pk = int i" "i < length r" "a < 1000" "3 \<le> n" "id_condition pk c"
  shows "eval_cond (pad_where_literals pk n c) (r[i := StringValue (pad_id (show_nat a) n)]) sch =
    eval_cond (on_numbers pk c) (r[i := IntValue (word_of_nat a)]) sch"
  using padded_ids_ok [of sch pk r a n c] assms by simp

definition id_column :: column where
  "id_column = \<lparr>col_name = ''id'', col_type = \<lparr>dt_kind = KindVarcharType, dt_length = 4\<rparr>, primary_key = True, not_null = False\<rparr>"

definition notes_schema :: schema where
  "notes_schema = \<lparr>table_name = ''notes'', table_id = 0, columns = [id_column]\<rparr>"

lemma padded_ids_are_numbers_witness:
  "eval_cond (pad_where_literals ''id'' 4 (BinaryExpr (Identifier [] ''id'') OpLT (StringLiteral ''76''))) [StringValue (pad_id (show_nat 5) 4)] notes_schema
    = Ok True"
proof -
  let ?c = "BinaryExpr (Identifier [] ''id'') OpLT (StringLiteral ''76'')"
  have h: "col_index notes_schema ''id'' = int 0" "id_condition ''id'' ?c"
    "eval_cond (on_numbers ''id'' ?c) [IntValue (word_of_nat 5)] notes_schema = Ok True"
    by code_simp+
  show ?thesis
    using padded_ids_are_numbers [OF h(1) _ _ _ h(2), of "[NullValue]" 5 4] h(3) by simp
qed

text \<open>Padding stops at \<open>NOT\<close>: in \<open>WHERE NOT id = '5'\<close> the literal stays short, so the row with the id 5 passes, while
  \<open>WHERE id <> '5'\<close> keeps it out.\<close>

theorem negated_id_matches_itself:
  assumes "col_index sch pk = int i" "i < length r" "a < 1000" "3 < n"
  shows "eval_cond (pad_where_literals pk n (UnaryExpr ''NOT'' (BinaryExpr (Identifier t pk) OpEQ (StringLiteral (show_nat a)))))
      (r[i := StringValue (pad_id (show_nat a) n)]) sch = Ok True \<and>
    eval_cond (pad_where_literals pk n (BinaryExpr (Identifier t pk) OpNEQ (StringLiteral (show_nat a))))
      (r[i := StringValue (pad_id (show_nat a) n)]) sch = Ok False"
proof -
  have "length (pad_id (show_nat a) n) = nat n"
    using assms(3,4) by (simp add: pad_number three_digits_def)
  then have "pad_id (show_nat a) n \<noteq> show_nat a"
    using three_digits_padded [OF assms(3)] assms(4) by (metis nat_le_iff not_le of_nat_numeral)
  then show ?thesis
    using assms(1,2) by (auto simp: value_at_def Let_def op_holds_def)
qed

lemma negated_id_matches_itself_witness:
  "eval_cond (pad_where_literals ''id'' 4 (UnaryExpr ''NOT'' (BinaryExpr (Identifier [] ''id'') OpEQ (StringLiteral (show_nat 5)))))
    [StringValue (pad_id (show_nat 5) 4)] notes_schema = Ok True"
proof -
  have h: "col_index notes_schema ''id'' = int 0"
    by code_simp
  show ?thesis
    using negated_id_matches_itself [OF h, of "[NullValue]" 5 4 "[]"] by simp
qed

text \<open>In a key column \<open>VARCHAR(2)\<close> the ids 0 to 9 are all stored as \<open>00\<close>: the padding to three digits is cut off at the end that counts.\<close>

theorem short_ids_collide:
  assumes "a < 10"
  shows "pad_id (show_nat a) 2 = ''00''"
  using assms all_digits_number [of a] by (simp add: pad_id_def id_numeric_digits_def show_nat_digit numeral_3_eq_3 numeral_2_eq_2)

lemma short_ids_collide_witness: "pad_id (show_nat 7) 2 = pad_id (show_nat 4) 2"
  using short_ids_collide [of 7] short_ids_collide [of 4] by simp

end
