(* ===== verification/Session.thy ===== *)
theory Session
  imports Client_Runs Dump Padding
begin

text \<open>
  \<open>db-internal-app/internal/dbsession/session.go\<close> and \<open>wal.go\<close>: one database of the visualizer. \<open>Open\<close> wires the components like
  \<open>client.Open\<close>, so a session is an engine too; it can also show its tree, its tables and its log. Without the handle of the
  repository and the manager twice: the fields of \<open>Session\<close> are parts of the engine.
\<close>

section \<open>Opening and executing\<close>

definition session_open :: "directory \<Rightarrow> engine res" where
  "session_open d =
     (if \<not> dir_created d then Err EIO
      else
        bindR (new_disk_manager (dir_db d)) (\<lambda>dm.
        bindR (new_wal_manager (dir_wal d)) (\<lambda>wm.
        bindR (final_state (recover wm dm)) (\<lambda>dm.
        bindR (new_catalog (dir_catalog d) (dir_writable d)) (\<lambda>cat.
        bindR (new_btree_repository \<lparr>disk = dm, wal = wm, bpool = new_buffer_pool default_buffer_pool_size\<rparr>) (\<lambda>repo.
        bindR (final_state (open_tables cat (table_names cat) repo)) (\<lambda>repo.
        Ok \<lparr>eng_mgr = new_manager (bt_store repo), eng_schemas = open_schemas repo, eng_catalog = cat, eng_waiting = []\<rparr>)))))))"

lemma session_open_client: "session_open = open_db"
  by (simp add: session_open_def open_db_def fun_eq_iff)

definition max_pages_per_session :: u32 where
  "max_pages_per_session = 1000"

fun target_table_name :: "statement \<Rightarrow> string" where
  "target_table_name (SelectStatement s) = sel_table s"
| "target_table_name (InsertStatement t _) = t"
| "target_table_name (UpdateStatement t _ _) = t"
| "target_table_name (DeleteStatement t _) = t"
| "target_table_name _ = ''''"

fun is_insert :: "statement \<Rightarrow> bool" where
  "is_insert (InsertStatement _ _) \<longleftrightarrow> True"
| "is_insert _ \<longleftrightarrow> False"

definition padded_statement :: "catalog \<Rightarrow> statement \<Rightarrow> statement" where
  "padded_statement c st =
     (if target_table_name st \<noteq> '''' then
        (case get_schema c (target_table_name st) of Ok sch \<Rightarrow> pad_pk_literals sch st | _ \<Rightarrow> st)
      else st)"

text \<open>\<open>limit\<close> is the variable \<open>maxPagesPerSession\<close>, \<open>ctx\<close> the context at each step of the executors.\<close>

definition session_exec :: "nat \<Rightarrow> nat \<Rightarrow> nat \<Rightarrow> nat \<Rightarrow> u32 \<Rightarrow> (nat \<Rightarrow> bool) \<Rightarrow> string \<Rightarrow> (engine, result) go" where
  "session_exec f k n m limit ctx sql g =
     (case parse f sql of
        None \<Rightarrow> (Stuck, g)
      | Some (Inl es) \<Rightarrow> (Err (ESyntax (map (\<lambda>e. (pe_line e, pe_col e)) es)), g)
      | Some (Inr None) \<Rightarrow> (Err (EUnsupported ''statement''), g)
      | Some (Inr (Some st)) \<Rightarrow>
          let st = padded_statement (eng_catalog g) st in
          if is_insert st \<and> limit \<le> num_pages (disk (store (eng_mgr g))) then (Err (EPageLimit limit), g)
          else bindG (\<lambda>g. (plan_statement (reader_of (eng_catalog g)) st, g)) (engine_execute k n m ctx) g)"

section \<open>Showing tables and tree\<close>

record table_info =
  ti_name :: string
  ti_columns :: "string list"

fun table_infos :: "catalog \<Rightarrow> string list \<Rightarrow> table_info list res" where
  "table_infos c [] = Ok []"
| "table_infos c (t # ts) =
     bindR (get_schema c t) (\<lambda>sch.
     bindR (table_infos c ts) (\<lambda>is.
     Ok (\<lparr>ti_name = t, ti_columns = map col_name (columns sch)\<rparr> # is)))"

definition session_tables :: "engine \<Rightarrow> table_info list res" where
  "session_tables g = table_infos (eng_catalog g) (sort (table_names (eng_catalog g)))"

text \<open>The maps \<open>schemasByID\<close> and \<open>schemasByName\<close>, filled by a loop over the names.\<close>

fun collect_schemas :: "catalog \<Rightarrow> string list \<Rightarrow> schema_map \<times> (string \<Rightarrow> schema option) \<Rightarrow> (schema_map \<times> (string \<Rightarrow> schema option)) res" where
  "collect_schemas c [] acc = Ok acc"
| "collect_schemas c (t # ts) (by_id, by_name) =
     bindR (get_schema c t) (\<lambda>sch. collect_schemas c ts (by_id(table_id sch \<mapsto> sch), by_name(t \<mapsto> sch)))"

definition session_schemas :: "engine \<Rightarrow> (schema_map \<times> (string \<Rightarrow> schema option)) res" where
  "session_schemas g = collect_schemas (eng_catalog g) (table_names (eng_catalog g)) (Map.empty, Map.empty)"

definition session_dump_tree :: "nat \<Rightarrow> string \<Rightarrow> (engine, tree_snapshot) go" where
  "session_dump_tree n tb =
     bindG (on_repo (schema_of tb)) (\<lambda>_.
     bindG (\<lambda>g. (session_schemas g, g)) (\<lambda>(by_id, _).
     on_repo (on_tree (dump_tree n by_id))))"

section \<open>Showing the log\<close>

record wal_entry =
  we_lsn :: u64
  we_txn :: u64
  we_page :: u32
  we_op :: string
  we_table :: string
  we_kind :: string
  we_changed :: "row option"

type_synonym page_rows = "(string \<times> row) list"

definition op_name :: "u8 \<Rightarrow> string" where
  "op_name opn =
     (if opn = op_insert then ''INSERT'' else if opn = op_update then ''UPDATE'' else if opn = op_delete then ''DELETE''
      else if opn = op_commit then ''COMMIT'' else if opn = op_abort then ''ABORT'' else ''UNKNOWN'')"

text \<open>The verb \<open>%v\<close> of \<open>fmt\<close> and \<open>fmt.Sprint\<close> on a struct of one field, or of none.\<close>

fun show_value :: "value_t \<Rightarrow> string" where
  "show_value (IntValue i) = ''{'' @ show_int (sint i) @ ''}''"
| "show_value (StringValue s) = ''{'' @ s @ ''}''"
| "show_value (BoolValue b) = ''{'' @ (if b then ''true'' else ''false'') @ ''}''"
| "show_value NullValue = ''{}''"

definition row_key :: "schema \<Rightarrow> row \<Rightarrow> string option" where
  "row_key sch r = (case value_at r (primary_key_index sch) of Ok v \<Rightarrow> Some (table_name sch @ '':'' @ show_value v) | _ \<Rightarrow> None)"

text \<open>The map \<open>cur\<close>; a table without a schema is a \<open>nil\<close> pointer and panics.\<close>

fun rows_by_key :: "(string \<Rightarrow> schema option) \<Rightarrow> row list \<Rightarrow> string list \<Rightarrow> page_rows \<Rightarrow> page_rows option" where
  "rows_by_key by_name (r # rs) (t # ts) found =
     do { sch \<leftarrow> by_name t; k \<leftarrow> row_key sch r; rows_by_key by_name rs ts (AList.update k r found) }"
| "rows_by_key by_name [] ts found = Some found"
| "rows_by_key by_name (r # rs) [] found = None"

definition table_name_from_key :: "string \<Rightarrow> string" where
  "table_name_from_key k = takeWhile (\<lambda>c. c \<noteq> CHR '':'') k"

definition rows_equal :: "row \<Rightarrow> row \<Rightarrow> bool" where
  "rows_equal a b \<longleftrightarrow> length a = length b \<and> list_all2 (\<lambda>v w. show_value v = show_value w) a b"

definition unidentified :: "string \<times> string \<times> row option" where
  "unidentified = ('''', '''', None)"

text \<open>The loops over the maps count the candidates; their order does not matter, because one only is accepted.\<close>

definition pick_single :: "page_rows \<Rightarrow> page_rows \<Rightarrow> string \<Rightarrow> string \<times> string \<times> row option" where
  "pick_single base target kind =
     (case filter (\<lambda>(k, _). map_of base k = None) target of
        [(k, r)] \<Rightarrow> (table_name_from_key k, kind, Some r)
      | _ \<Rightarrow> unidentified)"

definition diff_one_row :: "u8 \<Rightarrow> page_rows \<Rightarrow> page_rows \<Rightarrow> string \<times> string \<times> row option" where
  "diff_one_row opn prev found =
     (if opn = op_insert then pick_single prev found ''added''
      else if opn = op_delete then pick_single found prev ''removed''
      else if opn = op_update then
        (case filter (\<lambda>(k, r). case map_of prev k of Some r' \<Rightarrow> \<not> rows_equal r' r | None \<Rightarrow> False) found of
           [(k, r)] \<Rightarrow> (table_name_from_key k, ''changed'', Some r)
         | _ \<Rightarrow> unidentified)
      else unidentified)"

definition page_rows_of :: "schema_map \<Rightarrow> (string \<Rightarrow> schema option) \<Rightarrow> log_record \<Rightarrow> page_rows option" where
  "page_rows_of by_id by_name r =
     do { (rs, ts) \<leftarrow> decode_page_bytes (redo_data r) by_id; rows_by_key by_name rs ts [] }"

definition wal_entry_of :: "log_record \<Rightarrow> string \<times> string \<times> row option \<Rightarrow> wal_entry" where
  "wal_entry_of r d = (case d of (tb, kind, changed) \<Rightarrow>
     \<lparr>we_lsn = r_lsn r, we_txn = r_txn r, we_page = r_page r, we_op = op_name (r_op r), we_table = tb, we_kind = kind, we_changed = changed\<rparr>)"

fun wal_entries :: "schema_map \<Rightarrow> (string \<Rightarrow> schema option) \<Rightarrow> (u32 \<Rightarrow> page_rows) \<Rightarrow> log_record list \<Rightarrow> wal_entry list option" where
  "wal_entries by_id by_name prev [] = Some []"
| "wal_entries by_id by_name prev (r # rs) =
     (if r_op r \<in> {op_insert, op_update, op_delete} then
        do { found \<leftarrow> page_rows_of by_id by_name r;
             es \<leftarrow> wal_entries by_id by_name (prev(r_page r := found)) rs;
             Some (wal_entry_of r (diff_one_row (r_op r) (prev (r_page r)) found) # es) }
      else do { es \<leftarrow> wal_entries by_id by_name prev rs; Some (wal_entry_of r unidentified # es) })"

definition wal_records :: "(engine, wal_entry list) go" where
  "wal_records =
     bindG (on_mgr (on_store (on_wal flush_wal))) (\<lambda>_.
     bindG (\<lambda>g. (wal_read_all (wal (store (eng_mgr g))), g)) (\<lambda>raw.
     bindG (\<lambda>g. (session_schemas g, g)) (\<lambda>(by_id, by_name).
     of_option (wal_entries by_id by_name (\<lambda>_. []) raw))))"

section \<open>Statements\<close>

lemma is_insert_padded [simp]: "is_insert (padded_statement c st) = is_insert st"
  by (cases st) (auto simp: padded_statement_def Let_def split: res.splits)

lemma session_exec_ok:
  assumes "parse f sql = Some (Inr (Some st))" "\<not> (is_insert st \<and> limit \<le> num_pages (disk (store (eng_mgr g))))"
  shows "session_exec f k n m limit ctx sql g =
    bindG (\<lambda>g. (plan_statement (reader_of (eng_catalog g)) (padded_statement (eng_catalog g) st), g)) (engine_execute k n m ctx) g"
  using assms by (auto simp: session_exec_def Let_def bindG_def)

lemma session_client:
  assumes "parse f sql = Some (Inr (Some st))" "\<not> (is_insert st \<and> limit \<le> num_pages (disk (store (eng_mgr g))))"
    and "parse f sql' = Some (Inr (Some (padded_statement (eng_catalog g) st)))"
  shows "session_exec f k n m limit (\<lambda>_. False) sql g = (case client_exec f k n m sql' g of (r, g') \<Rightarrow> (map_res cl_result r, g'))"
  using assms(3) unfolding session_exec_ok [OF assms(1,2)]
  by (simp add: client_exec_def plan_text_def bindG_def split: prod.split res.split)

section \<open>The schemas of a session\<close>

lemma collect_schemas_ok:
  assumes "set ts \<subseteq> dom (map_of (schemas c))" "ids_distinct (map_of (schemas c))"
  shows "\<exists>J. collect_schemas c ts (I, N) = Ok (J, \<lambda>t. if t \<in> set ts then map_of (schemas c) t else N t) \<and>
    (\<forall>i s. J i = Some s \<longleftrightarrow> (\<exists>t \<in> set ts. map_of (schemas c) t = Some s \<and> table_id s = i) \<or>
       I i = Some s \<and> \<not> (\<exists>t \<in> set ts. \<exists>s. map_of (schemas c) t = Some s \<and> table_id s = i))"
  using assms(1)
proof (induction ts arbitrary: I N)
  case (Cons t ts)
  let ?M = "map_of (schemas c)"
  let ?I = "I(table_id (the (?M t)) \<mapsto> the (?M t))" and ?N = "N(t \<mapsto> the (?M t))"
  obtain sch where t: "?M t = Some sch"
    using Cons.prems by auto
  have "set ts \<subseteq> dom ?M"
    using Cons.prems by simp
  from Cons.IH [OF this, of ?I ?N] obtain J where J: "collect_schemas c ts (?I, ?N) = Ok (J, \<lambda>u. if u \<in> set ts then ?M u else ?N u)"
    and i: "\<forall>i s. J i = Some s \<longleftrightarrow> (\<exists>u \<in> set ts. ?M u = Some s \<and> table_id s = i) \<or>
       ?I i = Some s \<and> \<not> (\<exists>u \<in> set ts. \<exists>s. ?M u = Some s \<and> table_id s = i)"
    by blast
  have n: "(\<lambda>u. if u \<in> set ts then ?M u else ?N u) = (\<lambda>u. if u \<in> set (t # ts) then ?M u else N u)"
    using t by (auto simp: fun_eq_iff)
  have same: "s = sch" if "?M u = Some s" "table_id s = table_id sch" for u s
    using that t assms(2) unfolding ids_distinct_def by (metis option.inject)
  have "J i = Some s \<longleftrightarrow> (\<exists>u \<in> set (t # ts). ?M u = Some s \<and> table_id s = i) \<or>
       I i = Some s \<and> \<not> (\<exists>u \<in> set (t # ts). \<exists>s. ?M u = Some s \<and> table_id s = i)" for i s
    using i [rule_format, of i s] t same by (cases "i = table_id sch") auto
  then show ?case
    using J t unfolding n by (auto simp: get_schema_def)
qed simp

lemma session_schemas_ok:
  assumes "catalog_ok (eng_catalog g)"
  obtains by_id where "session_schemas g = Ok (by_id, map_of (schemas (eng_catalog g)))"
    "\<And>i sch. by_id i = Some sch \<longleftrightarrow> (\<exists>t. map_of (schemas (eng_catalog g)) t = Some sch \<and> table_id sch = i)"
proof -
  let ?c = "eng_catalog g" and ?M = "map_of (schemas (eng_catalog g))"
  have names: "set (table_names ?c) = dom ?M"
    by (simp add: table_names_def dom_map_of_conv_image_fst)
  have d: "ids_distinct ?M"
    using assms by (intro ids_distinct_new) simp_all
  obtain J where J: "session_schemas g = Ok (J, \<lambda>t. if t \<in> dom ?M then ?M t else None)"
    "\<forall>i s. J i = Some s \<longleftrightarrow> (\<exists>t \<in> dom ?M. ?M t = Some s \<and> table_id s = i)"
    using collect_schemas_ok [OF _ d, of "table_names ?c" Map.empty Map.empty] unfolding session_schemas_def names by fastforce
  have "(\<lambda>t. if t \<in> dom ?M then ?M t else None) = ?M"
    by (simp add: fun_eq_iff domIff)
  then show thesis
    using J that [of J] by (auto simp: dom_def)
qed

lemma session_tables_ok:
  assumes "set ts \<subseteq> dom (map_of (schemas c))"
  shows "table_infos c ts = Ok (map (\<lambda>t. \<lparr>ti_name = t, ti_columns = map col_name (columns (the (map_of (schemas c) t)))\<rparr>) ts)"
  using assms by (induction ts) (auto simp: get_schema_def)

section \<open>Differences of pages\<close>

lemma filter_single:
  assumes "distinct (map fst xs)" "\<And>k' r'. map_of xs k' = Some r' \<and> P (k', r') \<longleftrightarrow> k' = k \<and> r' = r"
  shows "filter P xs = [(k, r)]"
proof -
  have "x \<in> set (filter P xs) \<longleftrightarrow> x = (k, r)" for x
    using assms map_of_eq_Some_iff [OF assms(1)] by (cases x) auto
  then have "set (filter P xs) = {(k, r)}"
    by blast
  moreover have "distinct (filter P xs)"
    using assms(1) by (simp add: distinct_map)
  ultimately show ?thesis
    by (cases "filter P xs"; cases "tl (filter P xs)") auto
qed

text \<open>The content of a page before and after the change of one row, and the name the visualizer has for it.\<close>

definition one_row_change :: "u8 \<Rightarrow> string \<Rightarrow> page_rows \<Rightarrow> page_rows \<Rightarrow> string \<Rightarrow> row \<Rightarrow> bool" where
  "one_row_change opn kind prev found k r \<longleftrightarrow>
     opn = op_insert \<and> kind = ''added'' \<and> map_of prev k = None \<and> map_of found = (map_of prev)(k \<mapsto> r) \<or>
     opn = op_delete \<and> kind = ''removed'' \<and> map_of prev k = Some r \<and> map_of found = (map_of prev)(k := None) \<or>
     opn = op_update \<and> kind = ''changed'' \<and> (\<exists>r'. map_of prev k = Some r' \<and> \<not> rows_equal r' r) \<and> map_of found = (map_of prev)(k \<mapsto> r)"

lemma rows_equal_refl [simp]: "rows_equal r r"
  by (simp add: rows_equal_def list.rel_refl)

lemma diff_one_row_ok:
  assumes "distinct (map fst prev)" "distinct (map fst found)" "one_row_change opn kind prev found k r"
  shows "diff_one_row opn prev found = (table_name_from_key k, kind, Some r)"
proof -
  consider "opn = op_insert" "kind = ''added''" "map_of prev k = None" "map_of found = (map_of prev)(k \<mapsto> r)"
    | "opn = op_delete" "kind = ''removed''" "map_of prev k = Some r" "map_of found = (map_of prev)(k := None)"
    | r' where "opn = op_update" "kind = ''changed''" "map_of prev k = Some r'" "\<not> rows_equal r' r" "map_of found = (map_of prev)(k \<mapsto> r)"
    using assms(3) by (auto simp: one_row_change_def)
  then show ?thesis
  proof cases
    case 1
    then have "filter (\<lambda>(k, _). map_of prev k = None) found = [(k, r)]"
      using assms(2) by (intro filter_single) (auto split: if_splits)
    then show ?thesis
      using 1 by (simp add: diff_one_row_def pick_single_def)
  next
    case 2
    then have "filter (\<lambda>(k, _). map_of found k = None) prev = [(k, r)]"
      using assms(1) by (intro filter_single) (auto simp del: map_of_eq_Some_iff split: if_splits)
    then show ?thesis
      using 2 by (simp add: diff_one_row_def pick_single_def op_insert_def op_delete_def)
  next
    case 3
    then have "filter (\<lambda>(k, r). case map_of prev k of Some r' \<Rightarrow> \<not> rows_equal r' r | None \<Rightarrow> False) found = [(k, r)]"
      using assms(2) by (intro filter_single) (auto split: if_splits)
    then show ?thesis
      using 3 by (simp add: diff_one_row_def op_insert_def op_delete_def op_update_def)
  qed
qed

text \<open>What identifies a row on a page: the name of its table and its primary key. The text the visualizer uses for it tells rows
  apart when no name of a table has a colon.\<close>

lemma show_int_inject [simp]: "show_int i = show_int j \<longleftrightarrow> i = j"
proof
  have d: "c \<noteq> CHR ''-''" if "c \<in> set (show_nat n)" for c n
    using show_nat_digits [of n] that by (auto simp: list_all_iff is_digit_char_def)
  have n: "show_nat a = show_nat b \<longleftrightarrow> a = b" for a b
    using read_show_nat by metis
  have "hd (show_nat n) \<noteq> CHR ''-''" for n
    by (rule d [OF hd_in_set [OF show_nat_ne]])
  then have m: "show_nat a \<noteq> CHR ''-'' # cs" for a cs
    by (metis list.sel(1))
  assume "show_int i = show_int j"
  then show "i = j"
    using m by (auto simp: show_int_def n split: if_splits) metis
qed simp

lemma show_value_inject:
  "kind_of v = kind_of w \<Longrightarrow> show_value v = show_value w \<Longrightarrow> v = w"
  by (cases v; cases w) (auto dest: signed_word_eqI split: if_splits)

text \<open>Of two values of one column only a \<open>NULL\<close> and the empty string have the same text.\<close>

lemma show_value_typed:
  assumes "value_of_kind k v \<or> v = NullValue" "value_of_kind k w \<or> w = NullValue" "show_value v = show_value w"
  shows "v = w \<or> {v, w} = {NullValue, StringValue []}"
proof (cases "kind_of v = kind_of w")
  case True
  then show ?thesis
    using show_value_inject assms(3) by blast
next
  case False
  have "show_int i \<noteq> []" for i
    by (simp add: show_int_def show_nat_ne)
  with False assms show ?thesis
    by (cases v; cases w) (auto simp: value_of_kind_def split: data_type_kind.splits if_splits)
qed

lemma colon_split: "CHR '':'' \<notin> set a \<Longrightarrow> CHR '':'' \<notin> set b \<Longrightarrow> a @ CHR '':'' # u = b @ CHR '':'' # v \<longleftrightarrow> a = b \<and> u = v"
proof (induction a arbitrary: b)
  case Nil
  then show ?case
    by (cases b) auto
next
  case (Cons x a)
  then show ?case
    by (cases b) auto
qed

abbreviation key_value :: "(string \<Rightarrow> schema option) \<Rightarrow> string \<times> row \<Rightarrow> value_t" where
  "key_value schs \<equiv> \<lambda>(tb, x). x ! nat (primary_key_index (the (schs tb)))"

definition rows_distinct :: "(string \<Rightarrow> schema option) \<Rightarrow> (string \<times> row) list \<Rightarrow> bool" where
  "rows_distinct schs cs \<longleftrightarrow>
     (\<forall>(tb, x) \<in> set cs. CHR '':'' \<notin> set tb \<and> (\<exists>sch. schs tb = Some sch \<and> 0 \<le> primary_key_index sch \<and> row_typed sch x) \<and>
        key_value schs (tb, x) \<noteq> NullValue) \<and>
     distinct (map (\<lambda>c. (fst c, key_value schs c)) cs)"

text \<open>The rows under the texts of their keys.\<close>

definition text_key :: "(string \<Rightarrow> schema option) \<Rightarrow> string \<times> row \<Rightarrow> string" where
  "text_key schs c = fst c @ '':'' @ show_value (key_value schs c)"

abbreviation by_text :: "(string \<Rightarrow> schema option) \<Rightarrow> (string \<times> row) list \<Rightarrow> page_rows" where
  "by_text schs \<equiv> map (\<lambda>c. (text_key schs c, snd c))"

lemma rows_distinctD:
  assumes "rows_distinct schs cs" "(tb, x) \<in> set cs"
  obtains sch where "CHR '':'' \<notin> set tb" "schs tb = Some sch" "0 \<le> primary_key_index sch" "row_typed sch x"
    "nat (primary_key_index sch) < length x" "key_value schs (tb, x) \<noteq> NullValue"
    "value_of_kind (dt_kind (col_type (columns sch ! nat (primary_key_index sch)))) (key_value schs (tb, x))"
proof -
  obtain sch where s: "CHR '':'' \<notin> set tb" "schs tb = Some sch" "0 \<le> primary_key_index sch" "row_typed sch x" "key_value schs (tb, x) \<noteq> NullValue"
    using assms by (fastforce simp: rows_distinct_def)
  have "nat (primary_key_index sch) < length x"
    using primary_key_index_cases [of sch] s(3,4) by (auto simp: row_typed_def)
  moreover from this have "value_of_kind (dt_kind (col_type (columns sch ! nat (primary_key_index sch)))) (key_value schs (tb, x))"
    using s by (auto simp: row_typed_def)
  ultimately show thesis
    using s by (intro that) auto
qed

lemma value_of_kind_eq: "value_of_kind k v \<Longrightarrow> value_of_kind k w \<Longrightarrow> kind_of v = kind_of w"
  by (cases k) (simp_all add: value_of_kind_def)

lemma text_key_inject:
  assumes "rows_distinct schs cs" "rows_distinct schs ds" "c \<in> set cs" "d \<in> set ds" "text_key schs c = text_key schs d"
  shows "fst c = fst d \<and> key_value schs c = key_value schs d"
proof -
  obtain a x b y where cd: "c = (a, x)" "d = (b, y)"
    by (cases c; cases d)
  obtain s where s: "CHR '':'' \<notin> set a" "schs a = Some s"
    "value_of_kind (dt_kind (col_type (columns s ! nat (primary_key_index s)))) (key_value schs (a, x))"
    using rows_distinctD [OF assms(1)] assms(3) unfolding cd by metis
  obtain r where r: "CHR '':'' \<notin> set b" "schs b = Some r"
    "value_of_kind (dt_kind (col_type (columns r ! nat (primary_key_index r)))) (key_value schs (b, y))"
    using rows_distinctD [OF assms(2)] assms(4) unfolding cd by metis
  have e: "a = b" "show_value (key_value schs (a, x)) = show_value (key_value schs (b, y))"
    using assms(5) colon_split [OF s(1) r(1)] by (auto simp: cd text_key_def)
  then have "s = r"
    using s(2) r(2) by simp
  then show ?thesis
    using e show_value_inject [OF value_of_kind_eq [OF s(3)] e(2)] r(3) by (simp add: cd)
qed

lemma by_text_distinct:
  assumes "rows_distinct schs cs"
  shows "distinct (map fst (by_text schs cs))"
proof -
  have d: "distinct cs" "inj_on (\<lambda>c. (fst c, key_value schs c)) (set cs)"
    using assms by (simp_all add: rows_distinct_def distinct_map)
  have "inj_on (text_key schs) (set cs)"
    using text_key_inject [OF assms assms] d(2) unfolding inj_on_def by (metis (no_types, lifting))
  then show ?thesis
    using d(1) by (simp add: distinct_map comp_def)
qed

lemma rows_by_key_text:
  assumes "rows_by_key schs rs ts found = Some res" "rows_distinct schs (zip ts rs)"
    "\<forall>sch tb. schs tb = Some sch \<longrightarrow> table_name sch = tb"
  shows "map_of res = map_of found ++ map_of (by_text schs (zip ts rs)) \<and> (distinct (map fst found) \<longrightarrow> distinct (map fst res))"
  using assms
proof (induction schs rs ts found rule: rows_by_key.induct)
  case (1 schs r rs t ts found)
  let ?k = "text_key schs (t, r)"
  obtain sch k where k: "schs t = Some sch" "row_key sch r = Some k" "rows_by_key schs rs ts (AList.update k r found) = Some res"
    using 1(2) by (auto simp: Option.bind_eq_Some_conv)
  obtain v where v: "value_at r (primary_key_index sch) = Ok v" "k = table_name sch @ '':'' @ show_value v"
    using k(2) by (auto simp: row_key_def split: res.splits)
  have "table_name sch = t" "v = r ! nat (primary_key_index sch)"
    using 1(4) k(1) v(1) by (auto simp: value_at_def split: if_splits)
  then have kk: "k = ?k"
    by (simp add: text_key_def k(1) v(2))
  have rd: "rows_distinct schs (zip ts rs)"
    using 1(3) by (simp add: rows_distinct_def)
  have new: "map_of (by_text schs (zip ts rs)) ?k = None"
    using by_text_distinct [OF 1(3)] by (auto simp: map_of_eq_None_iff)
  note IH = 1(1) [OF k(1,2,3) rd 1(4)]
  have m: "map_of res = map_of found ++ (map_of (by_text schs (zip ts rs)))(?k \<mapsto> r)"
    using conjunct1 [OF IH] new by (auto simp: kk update_conv' map_add_def fun_eq_iff split: option.splits)
  have b: "by_text schs (zip (t # ts) (r # rs)) = (?k, r) # by_text schs (zip ts rs)"
    by simp
  show ?case
  proof (intro conjI impI)
    show "map_of res = map_of found ++ map_of (by_text schs (zip (t # ts) (r # rs)))"
      unfolding b map_of.simps fst_conv snd_conv by (rule m)
    show "distinct (map fst res)" if "distinct (map fst found)"
      using conjunct2 [OF IH] distinct_update [OF that] by blast
  qed
qed simp_all

text \<open>The change of a page by one row: what the record says was done, and what the view should call it. Of an update, some column changes
  other than from \<open>NULL\<close> to the empty string or back.\<close>

definition one_row_changed ::
  "(string \<Rightarrow> schema option) \<Rightarrow> u8 \<Rightarrow> (string \<times> row) list \<Rightarrow> (string \<times> row) list \<Rightarrow> string \<Rightarrow> row \<Rightarrow> string \<Rightarrow> string \<Rightarrow> bool" where
  "one_row_changed schs opn old new tb row opname kind \<longleftrightarrow>
     (\<exists>us vs. opn = op_insert \<and> opname = ''INSERT'' \<and> kind = ''added'' \<and> old = us @ vs \<and> new = us @ (tb, row) # vs) \<or>
     (\<exists>us vs. opn = op_delete \<and> opname = ''DELETE'' \<and> kind = ''removed'' \<and> old = us @ (tb, row) # vs \<and> new = us @ vs) \<or>
     (\<exists>us vs row' i. opn = op_update \<and> opname = ''UPDATE'' \<and> kind = ''changed'' \<and> old = us @ (tb, row') # vs \<and> new = us @ (tb, row) # vs \<and>
        key_value schs (tb, row') = key_value schs (tb, row) \<and>
        i < length row \<and> row' ! i \<noteq> row ! i \<and> {row' ! i, row ! i} \<noteq> {NullValue, StringValue []})"

lemma map_of_middle:
  assumes "distinct (map fst (us @ (k, x) # vs))"
  shows "map_of (us @ (k, x) # vs) = (map_of (us @ vs))(k \<mapsto> x)" "map_of (us @ vs) = (map_of (us @ (k, x) # vs))(k := None)"
    "map_of (us @ vs) k = None"
proof -
  have n: "map_of us k = None" "map_of vs k = None"
    using assms by (auto simp: map_of_eq_None_iff)
  then show "map_of (us @ (k, x) # vs) = (map_of (us @ vs))(k \<mapsto> x)" "map_of (us @ vs) = (map_of (us @ (k, x) # vs))(k := None)"
    "map_of (us @ vs) k = None"
    by (auto simp: fun_eq_iff map_add_def split: option.split)
qed

lemma typed_rows_differ:
  assumes "row_typed sch x" "row_typed sch y" "i < length y" "x ! i \<noteq> y ! i" "{x ! i, y ! i} \<noteq> {NullValue, StringValue []}"
  shows "\<not> rows_equal x y"
proof
  assume e: "rows_equal x y"
  have l: "i < length x" "length x = length (columns sch)" "length y = length (columns sch)"
    using assms(1-3) by (simp_all add: row_typed_def)
  have "show_value (x ! i) = show_value (y ! i)"
    using e assms(3) l(1) by (auto simp: rows_equal_def list_all2_conv_all_nth)
  moreover have "value_of_kind (dt_kind (col_type (columns sch ! i))) (x ! i) \<or> x ! i = NullValue"
    "value_of_kind (dt_kind (col_type (columns sch ! i))) (y ! i) \<or> y ! i = NullValue"
    using assms(1-3) l(1) by (auto simp: row_typed_def)
  ultimately show False
    using show_value_typed assms(4,5) by blast
qed

lemma one_row_changed_diff:
  assumes "one_row_changed schs opn old new tb row opname kind" "rows_distinct schs old" "rows_distinct schs new"
    and "distinct (map fst P)" "distinct (map fst F)" "map_of P = map_of (by_text schs old)" "map_of F = map_of (by_text schs new)"
  shows "diff_one_row opn P F = (tb, kind, Some row) \<and> op_name opn = opname"
proof -
  have "(tb, row) \<in> set old \<union> set new"
    using assms(1) by (auto simp: one_row_changed_def)
  then have n: "CHR '':'' \<notin> set tb"
    using rows_distinctD [OF assms(2)] rows_distinctD [OF assms(3)] by (metis UnE)
  let ?k = "text_key schs (tb, row)"
  note do = by_text_distinct [OF assms(2)] and dn = by_text_distinct [OF assms(3)]
  consider us vs where "opn = op_insert" "opname = ''INSERT''" "kind = ''added''" "old = us @ vs" "new = us @ (tb, row) # vs"
    | us vs where "opn = op_delete" "opname = ''DELETE''" "kind = ''removed''" "old = us @ (tb, row) # vs" "new = us @ vs"
    | us vs row' i where "opn = op_update" "opname = ''UPDATE''" "kind = ''changed''" "old = us @ (tb, row') # vs" "new = us @ (tb, row) # vs"
      "key_value schs (tb, row') = key_value schs (tb, row)" "i < length row" "row' ! i \<noteq> row ! i" "{row' ! i, row ! i} \<noteq> {NullValue, StringValue []}"
    using assms(1) unfolding one_row_changed_def by blast
  then have "one_row_change opn kind P F ?k row \<and> op_name opn = opname"
  proof cases
    case 1
    then show ?thesis
      using map_of_middle [of "by_text schs us" ?k row "by_text schs vs"] dn
      by (simp add: one_row_change_def assms(6,7) op_name_def op_insert_def)
  next
    case 2
    then show ?thesis
      using map_of_middle [of "by_text schs us" ?k row "by_text schs vs"] do
      by (simp add: one_row_change_def assms(6,7) op_name_def op_insert_def op_delete_def op_update_def)
  next
    case 3
    have k: "text_key schs (tb, row') = ?k"
      using 3(6) by (simp add: text_key_def)
    obtain sch where "schs tb = Some sch" "row_typed sch row'"
      using rows_distinctD [OF assms(2), of tb row'] by (auto simp: 3(4))
    moreover have "row_typed sch row" if "schs tb = Some sch" for sch
      using rows_distinctD [OF assms(3), of tb row] that by (auto simp: 3(5))
    ultimately have "\<not> rows_equal row' row"
      using typed_rows_differ 3(7-9) by blast
    then show ?thesis
      using 3(1-5) map_of_middle [of "by_text schs us" ?k row "by_text schs vs"] map_of_middle [of "by_text schs us" ?k row' "by_text schs vs"] do dn k
      by (auto simp: one_row_change_def assms(6,7) op_name_def op_insert_def op_delete_def op_update_def)
  qed
  moreover have "table_name_from_key ?k = tb"
    using n by (auto simp: table_name_from_key_def text_key_def takeWhile_append takeWhile_eq_all_conv)
  ultimately show ?thesis
    using diff_one_row_ok [OF assms(4,5)] by auto
qed

section \<open>Reading the log\<close>

definition decodes :: "schema_map \<Rightarrow> (string \<Rightarrow> schema option) \<Rightarrow> log_record \<Rightarrow> bool" where
  "decodes by_id by_name r \<longleftrightarrow> (r_op r \<in> {op_insert, op_update, op_delete} \<longrightarrow> page_rows_of by_id by_name r \<noteq> None)"

lemma wal_entries_ok:
  assumes "list_all (decodes by_id by_name) rs"
  shows "\<exists>es. wal_entries by_id by_name prev rs = Some es \<and>
    map (\<lambda>e. (we_lsn e, we_txn e, we_page e, we_op e)) es = map (\<lambda>r. (r_lsn r, r_txn r, r_page r, op_name (r_op r))) rs"
  using assms
proof (induction rs arbitrary: prev)
  case (Cons r rs)
  show ?case
  proof (cases "r_op r \<in> {op_insert, op_update, op_delete}")
    case True
    then obtain found where "page_rows_of by_id by_name r = Some found"
      using Cons.prems by (auto simp: decodes_def)
    moreover obtain es where "wal_entries by_id by_name (prev(r_page r := found)) rs = Some es"
      "map (\<lambda>e. (we_lsn e, we_txn e, we_page e, we_op e)) es = map (\<lambda>r. (r_lsn r, r_txn r, r_page r, op_name (r_op r))) rs"
      using Cons by fastforce
    ultimately show ?thesis
      using True by (auto simp: wal_entry_of_def split: prod.split)
  next
    case False
    moreover obtain es where "wal_entries by_id by_name prev rs = Some es"
      "map (\<lambda>e. (we_lsn e, we_txn e, we_page e, we_op e)) es = map (\<lambda>r. (r_lsn r, r_txn r, r_page r, op_name (r_op r))) rs"
      using Cons by fastforce
    ultimately show ?thesis
      by (simp add: wal_entry_of_def unidentified_def)
  qed
qed simp

lemma wal_records_ok:
  assumes w: "wal_holds (wal (store (eng_mgr g))) rs us" and d: "all_writable (wfile (wal (store (eng_mgr g))))"
    and c: "catalog_ok (eng_catalog g)" and s: "session_schemas g = Ok (by_id, by_name)" "list_all (decodes by_id by_name) (rs @ us)"
  shows "\<exists>es g'. wal_records g = (Ok es, g') \<and> wal_holds (wal (store (eng_mgr g'))) (rs @ us) [] \<and>
    map (\<lambda>e. (we_lsn e, we_txn e, we_page e, we_op e)) es = map (\<lambda>r. (r_lsn r, r_txn r, r_page r, op_name (r_op r))) (rs @ us)"
proof -
  let ?w = "wal (store (eng_mgr g))"
  have ok: "wr_ok (wfile ?w) (length (fbytes (wfile ?w)))" "fsync_ok (wfile ?w)"
    using d by (simp_all add: all_writable_def)
  obtain w' where w': "flush_wal ?w = (Ok (), w')" "wal_holds w' (rs @ us) []"
    by (rule flush_wal_holds [OF w ok])
  let ?g = "g\<lparr>eng_mgr := (eng_mgr g)\<lparr>store := (store (eng_mgr g))\<lparr>wal := w'\<rparr>\<rparr>\<rparr>"
  have f: "on_mgr (on_store (on_wal flush_wal)) g = (Ok (), ?g)"
    by (simp add: on_mgr_def on_store_def on_wal_def w'(1))
  have "session_schemas ?g = Ok (by_id, by_name)"
    using s(1) by (simp add: session_schemas_def)
  moreover obtain es where "wal_entries by_id by_name (\<lambda>_. []) (rs @ us) = Some es"
    "map (\<lambda>e. (we_lsn e, we_txn e, we_page e, we_op e)) es = map (\<lambda>r. (r_lsn r, r_txn r, r_page r, op_name (r_op r))) (rs @ us)"
    using wal_entries_ok [OF s(2)] by blast
  ultimately show ?thesis
    using w'(2) wal_holds_read [OF w'(2)] by (simp add: wal_records_def bindG_def f)
qed

text \<open>What a page holds after a record, and before the records that follow \<open>xs\<close>.\<close>

definition changes_page :: "log_record \<Rightarrow> bool" where
  "changes_page r \<longleftrightarrow> r_op r \<in> {op_insert, op_update, op_delete}"

definition page_content :: "schema_map \<Rightarrow> log_record \<Rightarrow> (string \<times> row) list option" where
  "page_content by_id r = map_option (\<lambda>(rs, ts). zip ts rs) (decode_page_bytes (redo_data r) by_id)"

definition content_before :: "schema_map \<Rightarrow> log_record list \<Rightarrow> u32 \<Rightarrow> (string \<times> row) list option" where
  "content_before by_id xs i =
     (case find (\<lambda>q. changes_page q \<and> r_page q = i) (rev xs) of None \<Rightarrow> Some [] | Some q \<Rightarrow> page_content by_id q)"

lemma page_rows_text:
  assumes "page_rows_of by_id schs r = Some F" "page_content by_id r = Some cs" "rows_distinct schs cs"
    "\<forall>sch tb. schs tb = Some sch \<longrightarrow> table_name sch = tb"
  shows "map_of F = map_of (by_text schs cs) \<and> distinct (map fst F)"
proof -
  obtain rs ts where d: "decode_page_bytes (redo_data r) by_id = Some (rs, ts)" "rows_by_key schs rs ts [] = Some F"
    using assms(1) by (auto simp: page_rows_of_def Option.bind_eq_Some_conv)
  have "cs = zip ts rs"
    using assms(2) by (simp add: page_content_def d(1))
  with rows_by_key_text [OF d(2) _ assms(4)] assms(3) show ?thesis
    by simp
qed

lemma wal_entries_length: "wal_entries by_id by_name prev rs = Some es \<Longrightarrow> length es = length rs"
  by (induction rs arbitrary: prev es) (auto simp: Option.bind_eq_Some_conv split: if_splits)

lemma wal_entry_at:
  assumes "wal_entries by_id by_name prev (xs @ r # zs) = Some es" "changes_page r"
  obtains F P where "page_rows_of by_id by_name r = Some F" "es ! length xs = wal_entry_of r (diff_one_row (r_op r) P F)"
    "case find (\<lambda>q. changes_page q \<and> r_page q = r_page r) (rev xs) of None \<Rightarrow> P = prev (r_page r) | Some q \<Rightarrow> page_rows_of by_id by_name q = Some P"
  using assms
proof (induction xs arbitrary: prev es thesis)
  case Nil
  then show ?case
    by (auto simp: changes_page_def Option.bind_eq_Some_conv)
next
  case (Cons x xs)
  have f: "find p (rev (x # xs)) = (case find p (rev xs) of None \<Rightarrow> if p x then Some x else None | Some q \<Rightarrow> Some q)" for p
    by (induction xs rule: rev_induct) (auto simp: find_append)
  show ?case
  proof (cases "changes_page x")
    case True
    obtain X es' where X: "page_rows_of by_id by_name x = Some X" "wal_entries by_id by_name (prev(r_page x := X)) (xs @ r # zs) = Some es'"
      "es = wal_entry_of x (diff_one_row (r_op x) (prev (r_page x)) X) # es'"
      using Cons.prems(2) True by (auto simp: changes_page_def Option.bind_eq_Some_conv)
    show ?thesis
      by (rule Cons.IH [OF _ X(2) assms(2)]) (use Cons.prems(1) X True f in \<open>auto split: option.splits if_splits\<close>)
  next
    case False
    obtain es' where X: "wal_entries by_id by_name prev (xs @ r # zs) = Some es'" "es = wal_entry_of x unidentified # es'"
      using Cons.prems(2) False by (auto simp: changes_page_def Option.bind_eq_Some_conv)
    show ?thesis
      by (rule Cons.IH [OF _ X(1) assms(2)]) (use Cons.prems(1) X False f in \<open>auto split: option.splits if_splits\<close>)
  qed
qed

lemma wal_records_entries:
  assumes "wal_records g = (Ok es, g')" "session_schemas g = Ok (by_id, by_name)" "wal_read_all (wal (store (eng_mgr g'))) = Ok rs"
  shows "wal_entries by_id by_name (\<lambda>_. []) rs = Some es"
proof -
  obtain x u where u: "on_mgr (on_store (on_wal flush_wal)) g = (x, u)"
    by (cases "on_mgr (on_store (on_wal flush_wal)) g")
  have "eng_catalog u = eng_catalog g"
    using u by (auto simp: on_mgr_def split: prod.splits)
  then have s: "session_schemas u = Ok (by_id, by_name)"
    using assms(2) by (simp add: session_schemas_def)
  show ?thesis
    using assms(1,3) u s
    by (cases x; cases "wal_read_all (wal (store (eng_mgr u)))"; cases "wal_entries by_id by_name (\<lambda>_. []) (case wal_read_all (wal (store (eng_mgr u))) of Ok raw \<Rightarrow> raw)")
      (auto simp: wal_records_def bindG_def of_option_def)
qed

section \<open>Properties\<close>

text \<open>A session executes a statement like the client executes its padded form: when the text of the padded statement is parsed to it, \<open>Exec\<close> of
  the session returns what \<open>Exec\<close> of the client returns for that text and leaves the same database, unless the statement is an \<open>INSERT\<close> at the
  limit of the pages.\<close>

theorem session_executes_padded:
  assumes "parse f sql = Some (Inr (Some st))" "parse f sql' = Some (Inr (Some (padded_statement (eng_catalog g) st)))"
    and "is_insert st \<Longrightarrow> num_pages (disk (store (eng_mgr g))) < limit"
  shows "session_exec f k n m limit (\<lambda>_. False) sql g = (case client_exec f k n m sql' g of (r, g') \<Rightarrow> (map_res cl_result r, g'))"
  using assms by (intro session_client) auto

text \<open>At the limit of the pages a session refuses every \<open>INSERT\<close> and changes nothing; every other statement is executed.\<close>

theorem page_limit_refuses_insert:
  assumes "parse f sql = Some (Inr (Some st))" "limit \<le> num_pages (disk (store (eng_mgr g)))"
  shows "session_exec f k n m limit ctx sql g =
    (if is_insert st then (Err (EPageLimit limit), g)
     else bindG (\<lambda>g. (plan_statement (reader_of (eng_catalog g)) (padded_statement (eng_catalog g) st), g)) (engine_execute k n m ctx) g)"
proof (cases "is_insert st")
  case True
  then show ?thesis
    using assms by (simp add: session_exec_def Let_def)
qed (use session_exec_ok [OF assms(1)] in simp)

text \<open>C20. The view of the tree in a session: for an open table of a sound database with room for a path, \<open>DumpTree\<close> returns every page of the tree with the
  rows of all tables of the catalog, whichever table was asked for, and changes nothing observable.\<close>

theorem session_shows_tree:
  assumes s: "sound e h t n' m g" and tb: "eng_schemas g tb \<noteq> None" and room: "int (Suc h) \<le> o_max (obs (store (eng_mgr g)))" and n: "h < n"
  shows "\<exists>by_id g'. session_dump_tree n tb g = (Ok \<lparr>snap_root = root_of t, snap_pages = pages_of by_id t\<rparr>, g') \<and>
    (\<forall>i sch. by_id i = Some sch \<longleftrightarrow> (\<exists>tb. eng_schemas g tb = Some sch \<and> table_id sch = i)) \<and>
    obs (store (eng_mgr g')) = obs (store (eng_mgr g)) \<and> eng_schemas g' = eng_schemas g \<and> eng_catalog g' = eng_catalog g"
proof -
  let ?s = "store (eng_mgr g)"
  have c: "catalog_ok (eng_catalog g)" "eng_schemas g = map_of (schemas (eng_catalog g))"
    using s by (simp_all add: sound_def catalog_agrees_def)
  have st: "bt_store (repo_view g) = ?s"
    by (simp add: repo_view_def)
  have r: "btree_ok e h t (obs ?s)" "db_ok {} ?s" "o_pins (obs ?s) = (\<lambda>_. 0)" "o_owner (obs ?s) = (\<lambda>_. None)"
    and dec: "\<forall>tb sch. eng_schemas g tb = Some sch \<longrightarrow> decodable sch (table_id sch) (tree_cells t)"
    using s unfolding sound_def at_rest_def repo_ok_def reader_ready_def st by blast+
  obtain by_id where b: "session_schemas g = Ok (by_id, map_of (schemas (eng_catalog g)))"
    "\<And>i sch. by_id i = Some sch \<longleftrightarrow> (\<exists>t. eng_schemas g t = Some sch \<and> table_id sch = i)"
    using session_schemas_ok [OF c(1)] c(2) by metis
  have "known_decode by_id (tree_cells t)"
    using dec b(2) by (auto simp: known_decode_def)
  moreover have "room (Suc h) (obs ?s)"
    using room r(3,4) by (simp add: room_def o_busy_def del: obs_fields)
  ultimately obtain s' where s': "dump_tree n by_id ?s = (Ok \<lparr>snap_root = root_of t, snap_pages = pages_of by_id t\<rparr>, s')" "obs s' = obs ?s"
    using dump_tree_ok [OF r(1,2) _ n] by blast
  obtain sch where sch: "eng_schemas g tb = Some sch"
    using tb by blast
  have "on_repo (schema_of tb) g = (Ok sch, g)"
    by (simp add: on_repo_def schema_of_def repo_view_def sch put_repo_def)
  then show ?thesis
    using s' b by (intro exI [of _ by_id] exI [of _ "snd (on_repo (on_tree (dump_tree n by_id)) g)"])
      (simp add: session_dump_tree_def bindG_def on_repo_def on_tree_def repo_view_def put_repo_def)
qed

text \<open>C26. The entry of the view of the log for a record that changed one row of a page: it shows that row, its table, the kind of the change and
  the numbers of the record. The content of the page before is that of the last record of the page before it, or nothing when there is none.
  Rows are told apart by table and primary key, no name of a table has a colon, and an update changes more than a \<open>NULL\<close> to the
  empty string or back.\<close>

theorem diff_shows_change:
  assumes "wal_records g = (Ok es, g')" "catalog_ok (eng_catalog g)"
    and "\<forall>i sch. by_id i = Some sch \<longleftrightarrow> (\<exists>t. map_of (schemas (eng_catalog g)) t = Some sch \<and> table_id sch = i)"
    and "wal_read_all (wal (store (eng_mgr g'))) = Ok (xs @ r # zs)"
    and "content_before by_id xs (r_page r) = Some old" "page_content by_id r = Some new"
    and "rows_distinct (map_of (schemas (eng_catalog g))) old" "rows_distinct (map_of (schemas (eng_catalog g))) new"
    and "one_row_changed (map_of (schemas (eng_catalog g))) (r_op r) old new tb row opname kind"
  shows "length es = length (xs @ r # zs) \<and> es ! length xs = \<lparr>we_lsn = r_lsn r, we_txn = r_txn r, we_page = r_page r, we_op = opname,
    we_table = tb, we_kind = kind, we_changed = Some row\<rparr>"
proof -
  let ?N = "map_of (schemas (eng_catalog g))"
  obtain J where J: "session_schemas g = Ok (J, ?N)" "\<And>i sch. J i = Some sch \<longleftrightarrow> (\<exists>t. ?N t = Some sch \<and> table_id sch = i)"
    by (rule session_schemas_ok [OF assms(2)]) blast
  have JI: "J = by_id"
    using J(2) assms(3) by (metis ext not_Some_eq)
  have es: "wal_entries by_id ?N (\<lambda>_. []) (xs @ r # zs) = Some es"
    using wal_records_entries [OF assms(1) J(1) assms(4)] by (simp add: JI)
  have op: "changes_page r"
    using assms(9) by (auto simp: one_row_changed_def changes_page_def)
  obtain F P where F: "page_rows_of by_id ?N r = Some F" "es ! length xs = wal_entry_of r (diff_one_row (r_op r) P F)"
    and P: "case find (\<lambda>q. changes_page q \<and> r_page q = r_page r) (rev xs) of None \<Rightarrow> P = [] | Some q \<Rightarrow> page_rows_of by_id ?N q = Some P"
    by (rule wal_entry_at [OF es op])
  have nm: "\<forall>sch tb. ?N tb = Some sch \<longrightarrow> table_name sch = tb"
    using assms(2) by (auto simp: catalog_ok_def dest!: map_of_SomeD)
  have f: "map_of F = map_of (by_text ?N new)" "distinct (map fst F)"
    using page_rows_text [OF F(1) assms(6,8) nm] by simp_all
  have p: "map_of P = map_of (by_text ?N old) \<and> distinct (map fst P)"
  proof (cases "find (\<lambda>q. changes_page q \<and> r_page q = r_page r) (rev xs)")
    case None
    then show ?thesis
      using P assms(5) by (simp add: content_before_def)
  next
    case (Some q)
    have "page_rows_of by_id ?N q = Some P" "page_content by_id q = Some old"
      using P assms(5) by (simp_all add: content_before_def Some)
    from page_rows_text [OF this assms(7) nm] show ?thesis
      by simp
  qed
  have "diff_one_row (r_op r) P F = (tb, kind, Some row) \<and> op_name (r_op r) = opname"
    by (rule one_row_changed_diff [OF assms(9,7,8) conjunct2 [OF p] f(2) conjunct1 [OF p] f(1)])
  then show ?thesis
    using F(2) wal_entries_length [OF es] by (simp add: wal_entry_of_def)
qed

text \<open>An update of a \<open>NULL\<close> to the empty string is not shown: the rows are compared by their text, which is the same.\<close>

theorem null_change_invisible:
  "diff_one_row op_update [(k, xs @ NullValue # ys)] [(k, xs @ StringValue [] # ys)] = unidentified"
  by (simp add: diff_one_row_def op_insert_def op_delete_def op_update_def rows_equal_def list_all2_append list.rel_refl unidentified_def)

text \<open>The view of the log writes out the buffered records first and then has one entry for every record of the log, in order, with the record's
  numbers and operation, whenever the pages of the log can be decoded.\<close>

theorem log_shown_in_order:
  assumes "wal_holds (wal (store (eng_mgr g))) rs us" "all_writable (wfile (wal (store (eng_mgr g))))" "catalog_ok (eng_catalog g)"
    and "session_schemas g = Ok (by_id, by_name)" "list_all (decodes by_id by_name) (rs @ us)"
  shows "\<exists>es g'. wal_records g = (Ok es, g') \<and> wal_holds (wal (store (eng_mgr g'))) (rs @ us) [] \<and>
    map (\<lambda>e. (we_lsn e, we_txn e, we_page e, we_op e)) es = map (\<lambda>r. (r_lsn r, r_txn r, r_page r, op_name (r_op r))) (rs @ us)"
  by (rule wal_records_ok [OF assms])

subsection \<open>Witnesses\<close>

definition notes_engine :: engine where
  "notes_engine = users_engine\<lparr>eng_catalog := users_catalog\<lparr>schemas := [(''notes'', notes_schema)]\<rparr>\<rparr>"

lemma notes_texts:
  "parse 99 (''DELETE FROM notes WHERE id = '' @ [CHR 0x27] @ ''5'' @ [CHR 0x27] @ '' '') =
     Some (Inr (Some (DeleteStatement ''notes'' (Some (BinaryExpr (Identifier [] ''id'') OpEQ (StringLiteral ''5''))))))"
  "parse 99 (''DELETE FROM notes WHERE id = '' @ [CHR 0x27] @ ''005x'' @ [CHR 0x27] @ '' '') =
     Some (Inr (Some (DeleteStatement ''notes'' (Some (BinaryExpr (Identifier [] ''id'') OpEQ (StringLiteral ''005x''))))))"
proof -
  let ?d = "\<lambda>s. DeleteStatement ''notes'' (Some (BinaryExpr (Identifier [] ''id'') OpEQ (StringLiteral s)))"
  have p: "printable_statement (?d ''5'')" "printable_statement (?d ''005x'')"
    by simp_all
  have a: "\<forall>(t, w) \<in> set (spaced (statement_tokens (?d ''5''))). valid_token t \<and> spacing w"
    "length (statement_tokens (?d ''5'')) \<le> 99"
    "layout (spaced (statement_tokens (?d ''5''))) = ''DELETE FROM notes WHERE id = '' @ [CHR 0x27] @ ''5'' @ [CHR 0x27] @ '' ''"
    by code_simp+
  have b: "\<forall>(t, w) \<in> set (spaced (statement_tokens (?d ''005x''))). valid_token t \<and> spacing w"
    "length (statement_tokens (?d ''005x'')) \<le> 99"
    "layout (spaced (statement_tokens (?d ''005x''))) =
       ''DELETE FROM notes WHERE id = '' @ [CHR 0x27] @ ''005x'' @ [CHR 0x27] @ '' ''"
    by code_simp+
  show "parse 99 (''DELETE FROM notes WHERE id = '' @ [CHR 0x27] @ ''5'' @ [CHR 0x27] @ '' '') = Some (Inr (Some (?d ''5'')))"
    by (rule parse_spaced [OF p(1) a(1,2), unfolded a(3)])
  show "parse 99 (''DELETE FROM notes WHERE id = '' @ [CHR 0x27] @ ''005x'' @ [CHR 0x27] @ '' '') =
      Some (Inr (Some (?d ''005x'')))"
    by (rule parse_spaced [OF p(2) b(1,2), unfolded b(3)])
qed

lemma session_executes_padded_witness:
  "session_exec 99 2 2 3 1000 (\<lambda>_. False) (''DELETE FROM notes WHERE id = '' @ [CHR 0x27] @ ''5'' @ [CHR 0x27] @ '' '') notes_engine =
    (case client_exec 99 2 2 3 (''DELETE FROM notes WHERE id = '' @ [CHR 0x27] @ ''005x'' @ [CHR 0x27] @ '' '') notes_engine of
      (r, g') \<Rightarrow> (map_res cl_result r, g'))"
proof -
  let ?d = "\<lambda>s. DeleteStatement ''notes'' (Some (BinaryExpr (Identifier [] ''id'') OpEQ (StringLiteral s)))"
  have "pad_pk_literals notes_schema (?d ''5'') = ?d ''005x''"
    by code_simp
  then have "padded_statement (eng_catalog notes_engine) (?d ''5'') = ?d ''005x''"
    by (simp add: notes_engine_def padded_statement_def get_schema_def)
  then show ?thesis
    by (intro session_executes_padded [OF notes_texts(1)]) (simp_all only: notes_texts(2) is_insert.simps)
qed

lemma page_limit_refuses_insert_witness:
  "session_exec 99 2 2 3 1 (\<lambda>_. False) (''INSERT INTO users VALUES ( 9 , '' @ [CHR 0x27] @ ''Eve'' @ [CHR 0x27] @ '' ) '') users_engine =
    (Err (EPageLimit 1), users_engine)"
  using page_limit_refuses_insert [OF texts(2), of 1 users_engine] by (simp add: num_pages_def users_disk)

lemma session_shows_tree_witness:
  "\<exists>g by_id g'. session_dump_tree 1 ''users'' g = (Ok \<lparr>snap_root = root_of empty_tree, snap_pages = pages_of by_id empty_tree\<rparr>, g')"
proof -
  obtain g where g: "sound users_env 0 empty_tree 2 (2 ^ 32 + 1) g" "eng_schemas g = users_schemas" "o_max (obs (store (eng_mgr g))) = 1000"
    using users_created by metis
  have "eng_schemas g ''users'' \<noteq> None"
    by (simp add: g(2) users_schemas_def)
  from session_shows_tree [OF g(1) this, of 1] show ?thesis
    by (auto simp: g(3) simp del: obs_fields)
qed

definition logged_records :: "log_record list" where
  "logged_records =
     [\<lparr>r_lsn = 0, r_txn = 1, r_page = 0, r_op = op_insert, r_prev = 0, redo_data = new_page type_leaf 0\<rparr>,
      \<lparr>r_lsn = 1, r_txn = 1, r_page = 0, r_op = op_abort, r_prev = 0, redo_data = []\<rparr>]"

definition logged_engine :: engine where
  "logged_engine = users_engine\<lparr>eng_mgr := new_manager (users_storage
     \<lparr>wal := \<lparr>wfile = sample_file, next_lsn = 2, wbuf = encode_log logged_records\<rparr>\<rparr>)\<rparr>"

lemma users_catalog_ok: "catalog_ok users_catalog"
proof -
  have "table_id users_schema = 0" "table_name users_schema = ''users''"
    by (simp_all add: users_schema_def)
  then show ?thesis
    using users_types_ok by (simp add: users_catalog_def empty_catalog_def catalog_ok_def)
qed

text \<open>A log of two records: page 0 as an empty leaf, and page 0 with the row \<open>(7, 'Bob')\<close>.\<close>

definition grown_records :: "log_record list" where
  "grown_records =
     [\<lparr>r_lsn = 0, r_txn = 1, r_page = 0, r_op = op_insert, r_prev = 0, redo_data = new_page type_leaf 0\<rparr>,
      \<lparr>r_lsn = 1, r_txn = 2, r_page = 0, r_op = op_insert, r_prev = 0, redo_data = users_page\<rparr>]"

definition grown_engine :: engine where
  "grown_engine = users_engine\<lparr>eng_mgr := new_manager (users_storage
     \<lparr>wal := \<lparr>wfile = sample_file, next_lsn = 2, wbuf = encode_log grown_records\<rparr>\<rparr>)\<rparr>"

lemma diff_shows_change_witness:
  "\<exists>es g'. wal_records grown_engine = (Ok es, g') \<and> es ! 1 = \<lparr>we_lsn = 1, we_txn = 2, we_page = 0, we_op = ''INSERT'',
    we_table = ''users'', we_kind = ''added'', we_changed = Some user_row\<rparr>"
proof -
  let ?g = grown_engine and ?N = "map_of (schemas (eng_catalog grown_engine))"
  let ?r0 = "hd grown_records" and ?r1 = "last grown_records"
  have lp: "length (new_page type_leaf 0) = 4096" "length users_page = 4096"
    using users_page_facts(2) by simp_all
  have h: "wal_holds (wal (store (eng_mgr ?g))) [] grown_records" and f: "all_writable (wfile (wal (store (eng_mgr ?g))))"
    using lp by (simp_all add: grown_engine_def new_manager_def wal_holds_def sample_file_def readable_def redo_fits_def grown_records_def all_writable_def)
  have c: "catalog_ok (eng_catalog ?g)"
    by (simp add: grown_engine_def users_catalog_ok)
  have N: "?N = [''users'' \<mapsto> users_schema]"
    by (simp add: grown_engine_def users_catalog_def)
  obtain by_id where s: "session_schemas ?g = Ok (by_id, ?N)"
    and i: "\<And>i sch. by_id i = Some sch \<longleftrightarrow> (\<exists>t. ?N t = Some sch \<and> table_id sch = i)"
    by (rule session_schemas_ok [OF c]) blast
  have b: "by_id 0 = Some users_schema"
    using i [of 0 users_schema] by (auto simp: N users_schema_def)
  have d0: "decode_page_bytes (new_page type_leaf 0) by_id = Some ([], [])"
    by (simp add: decode_page_bytes_def from_bytes_def decode_leaf_rows_def)
  have d1: "decode_page_bytes users_page by_id = Some ([user_row], [''users''])"
  proof -
    have p: "page_wf users_page" "page_type users_page = type_leaf" "page_cells users_page = [user_cell]"
      using users_page_facts(1) by (simp_all add: leaf_page_def)
    have n: "unat (cell_count users_page) = 1"
      using arg_cong [OF p(3), of length] by simp
    have cell: "cell_at 0 users_page = Some user_cell" "cell_table_id user_cell = Some 0"
      using cell_at_ok [OF p(1), of 0] p(3) cell_ok_table_id [OF user_cell_facts(4)] user_cell_facts(3) by simp_all
    have nm: "table_name users_schema = ''users''"
      by (simp add: users_schema_def)
    have bytes: "from_bytes users_page = Some users_page"
      using lp(2) by (simp add: from_bytes_def)
    show ?thesis
      by (simp add: decode_page_bytes_def bytes p(2) decode_leaf_rows_def n cell b user_cell_facts(2) nm)
  qed
  have pk: "primary_key_index users_schema = 0" "table_name users_schema = ''users''"
    by (simp_all add: primary_key_index_def users_schema_def sample_column_def)
  have g: "grown_records = [?r0] @ [?r1]" "r_page ?r0 = 0" "r_page ?r1 = 0" "r_op ?r0 = op_insert" "r_op ?r1 = op_insert"
    "redo_data ?r0 = new_page type_leaf 0" "redo_data ?r1 = users_page" "r_lsn ?r1 = 1" "r_txn ?r1 = 2"
    by (simp_all add: grown_records_def)
  have "list_all (decodes by_id ?N) [?r0, ?r1]"
    by (simp add: decodes_def page_rows_of_def g(2-) d0 d1 N row_key_def value_at_def pk user_row_def)
  then have "list_all (decodes by_id ?N) ([] @ grown_records)"
    by (subst g(1)) simp
  from wal_records_ok [OF h f c s this] obtain es g' where w: "wal_records ?g = (Ok es, g')" "wal_holds (wal (store (eng_mgr g'))) grown_records []"
    by auto
  have ra: "wal_read_all (wal (store (eng_mgr g'))) = Ok ([?r0] @ ?r1 # [])"
    using wal_holds_read [OF w(2)] by (simp add: grown_records_def)
  have before: "content_before by_id [?r0] (r_page ?r1) = Some []" and after: "page_content by_id ?r1 = Some [(''users'', user_row)]"
    by (simp_all add: content_before_def page_content_def changes_page_def g(2-) d0 d1)
  have "row_typed users_schema user_row"
    by (simp add: row_typed_def user_row_def users_schema_def sample_column_def name_column_def value_of_kind_def less_Suc_eq)
  then have rd: "rows_distinct ?N []" "rows_distinct ?N [(''users'', user_row)]"
    by (simp_all add: rows_distinct_def N pk user_row_def)
  have "one_row_changed ?N (r_op ?r1) [] [(''users'', user_row)] ''users'' user_row ''INSERT'' ''added''"
    by (simp add: one_row_changed_def g(2-))
  from diff_shows_change [OF w(1) c _ ra before after rd this] i have "es ! 1 = \<lparr>we_lsn = 1, we_txn = 2, we_page = 0, we_op = ''INSERT'',
      we_table = ''users'', we_kind = ''added'', we_changed = Some user_row\<rparr>"
    by (simp add: g(2-))
  with w(1) show ?thesis
    by blast
qed

lemma log_shown_in_order_witness:
  "\<exists>es g'. wal_records logged_engine = (Ok es, g') \<and>
     map (\<lambda>e. (we_lsn e, we_txn e, we_page e, we_op e)) es = [(0, 1, 0, ''INSERT''), (1, 1, 0, ''ABORT'')]"
proof -
  let ?g = logged_engine
  have h: "wal_holds (wal (store (eng_mgr ?g))) [] logged_records" and f: "all_writable (wfile (wal (store (eng_mgr ?g))))"
    by (simp_all add: logged_engine_def new_manager_def wal_holds_def sample_file_def readable_def redo_fits_def logged_records_def all_writable_def)
  have c: "catalog_ok (eng_catalog ?g)"
    by (simp add: logged_engine_def users_catalog_ok)
  obtain by_id where s: "session_schemas ?g = Ok (by_id, map_of (schemas (eng_catalog ?g)))"
    by (rule session_schemas_ok [OF c])
  have "decode_page_bytes (new_page type_leaf 0) by_id = Some ([], [])"
    by (simp add: decode_page_bytes_def from_bytes_def decode_leaf_rows_def)
  then have "list_all (decodes by_id (map_of (schemas (eng_catalog ?g)))) ([] @ logged_records)"
    by (simp add: logged_records_def decodes_def page_rows_of_def op_insert_def op_update_def op_delete_def op_abort_def)
  from log_shown_in_order [OF h f c s this] obtain es g' where e: "wal_records ?g = (Ok es, g')"
    "map (\<lambda>e. (we_lsn e, we_txn e, we_page e, we_op e)) es = map (\<lambda>r. (r_lsn r, r_txn r, r_page r, op_name (r_op r))) ([] @ logged_records)"
    by blast
  have "map (\<lambda>r. (r_lsn r, r_txn r, r_page r, op_name (r_op r))) ([] @ logged_records) = [(0, 1, 0, ''INSERT''), (1, 1, 0, ''ABORT'')]"
    by (simp add: logged_records_def op_name_def op_insert_def op_update_def op_delete_def op_commit_def op_abort_def)
  then show ?thesis
    using e by (intro exI [of _ es] exI [of _ g']) simp
qed

end
