(* ===== verification/Session_Store.thy ===== *)
theory Session_Store
  imports Session
begin

text \<open>
  \<open>db-internal-app/internal/api/sessions.go\<close>: the sessions of the visualizer by the id in their cookie, each with a directory of its own under
  the data directory. The loop of \<open>cleanupLoop\<close> calls \<open>evictIdle\<close> at every tick. The mutex makes every operation atomic; the
  order of a range over the map is the order of the association list, about which nothing is assumed.
\<close>

section \<open>Paths\<close>

text \<open>\<open>filepath.Join\<close> and \<open>filepath.Clean\<close> on Unix: a cleaned path is whether it starts at the root and its components.\<close>

type_synonym path = "bool \<times> string list"

fun split_path :: "string \<Rightarrow> string list" where
  "split_path [] = [[]]"
| "split_path (c # cs) =
     (if c = CHR ''/'' then [] # split_path cs
      else case split_path cs of [] \<Rightarrow> [[c]] | p # ps \<Rightarrow> (c # p) # ps)"

fun clean_parts :: "bool \<Rightarrow> string list \<Rightarrow> string list \<Rightarrow> string list" where
  "clean_parts rooted acc [] = rev acc"
| "clean_parts rooted acc (p # ps) =
     (if p = '''' \<or> p = ''.'' then clean_parts rooted acc ps
      else if p = ''..'' then
        (case acc of
           [] \<Rightarrow> clean_parts rooted (if rooted then [] else [p]) ps
         | q # qs \<Rightarrow> if q = ''..'' then clean_parts rooted (p # acc) ps else clean_parts rooted qs ps)
      else clean_parts rooted (p # acc) ps)"

definition clean :: "string \<Rightarrow> path" where
  "clean s = (let rooted = (take 1 s = ''/'') in (rooted, clean_parts rooted [] (split_path s)))"

definition path_join :: "string \<Rightarrow> string \<Rightarrow> path" where
  "path_join dir s = clean (if dir = '''' then s else dir @ ''/'' @ s)"

fun inside :: "path \<Rightarrow> path \<Rightarrow> bool" where
  "inside (r, ps) (r', qs) \<longleftrightarrow> r = r' \<and> take (length ps) qs = ps"

section \<open>The store\<close>

record session_entry =
  se_sess :: engine
  se_last :: int

text \<open>\<open>st_dirs\<close> are the directories of sessions on the disk: that of an open session as the session found it, that of a closed one as it was left.
  A \<open>RemoveAll\<close> that fails has removed nothing.\<close>

record session_store =
  st_data_dir :: string
  st_sessions :: "(string \<times> session_entry) list"
  st_dirs :: "path \<Rightarrow> directory option"

text \<open>The variables of the package and the operating system: what \<open>MkdirAll\<close> gives where nothing is, and whether closing and removing succeed.\<close>

record store_env =
  max_sessions :: int
  idle_timeout :: int
  made_dir :: "path \<Rightarrow> directory"
  close_ok :: "engine \<Rightarrow> bool"
  remove_ok :: "path \<Rightarrow> bool"

definition new_session_store :: "string \<Rightarrow> (path \<Rightarrow> directory option) \<Rightarrow> session_store" where
  "new_session_store d ds = \<lparr>st_data_dir = d, st_sessions = [], st_dirs = ds\<rparr>"

definition remove_all :: "store_env \<Rightarrow> path \<Rightarrow> (session_store, unit) go" where
  "remove_all env p st =
     (if remove_ok env p then (Ok (), st\<lparr>st_dirs := (\<lambda>q. if inside p q then None else st_dirs st q)\<rparr>) else (Err EIO, st))"

definition evict_session :: "store_env \<Rightarrow> string \<Rightarrow> (session_store, unit) go" where
  "evict_session env sid st =
     (case map_of (st_sessions st) sid of
        Some e \<Rightarrow>
          if close_ok env (se_sess e)
          then remove_all env (path_join (st_data_dir st) sid)
            (st\<lparr>st_sessions := AList.delete sid (st_sessions st),
              st_dirs := (st_dirs st)(path_join (st_data_dir st) sid \<mapsto> directory_of (se_sess e))\<rparr>)
          else (Err EIO, st)
      | None \<Rightarrow> remove_all env (path_join (st_data_dir st) sid) st)"

definition reset :: "store_env \<Rightarrow> string \<Rightarrow> (session_store, unit) go" where
  "reset env sid = evict_session env sid"

fun oldest_loop :: "string \<Rightarrow> int \<Rightarrow> (string \<times> session_entry) list \<Rightarrow> string" where
  "oldest_loop sid t [] = sid"
| "oldest_loop sid t ((k, e) # es) =
     (if sid = '''' \<or> se_last e < t then oldest_loop k (se_last e) es else oldest_loop sid t es)"

definition evict_lru :: "store_env \<Rightarrow> (session_store, unit) go" where
  "evict_lru env st =
     (let sid = oldest_loop '''' 0 (st_sessions st) in if sid = '''' then (Ok (), st) else evict_session env sid st)"

definition open_session :: "store_env \<Rightarrow> int \<Rightarrow> string \<Rightarrow> (session_store, engine) go" where
  "open_session env now sid st =
     (let p = path_join (st_data_dir st) sid;
          d = (case st_dirs st p of Some d \<Rightarrow> d | None \<Rightarrow> made_dir env p) in
      case session_open d of
        Ok g \<Rightarrow> (Ok g, st\<lparr>st_sessions := AList.update sid \<lparr>se_sess = g, se_last = now\<rparr> (st_sessions st), st_dirs := (st_dirs st)(p \<mapsto> d)\<rparr>)
      | Err e \<Rightarrow> (Err e, st)
      | Panic \<Rightarrow> (Panic, st)
      | Stuck \<Rightarrow> (Stuck, st))"

definition get_or_create :: "store_env \<Rightarrow> int \<Rightarrow> string \<Rightarrow> (session_store, engine) go" where
  "get_or_create env now sid st =
     (case map_of (st_sessions st) sid of
        Some e \<Rightarrow> (Ok (se_sess e), st\<lparr>st_sessions := AList.update sid (e\<lparr>se_last := now\<rparr>) (st_sessions st)\<rparr>)
      | None \<Rightarrow>
          bindG (if int (length (st_sessions st)) \<ge> max_sessions env then evict_lru env else ret ())
            (\<lambda>_. open_session env now sid) st)"

fun idle_loop :: "store_env \<Rightarrow> int \<Rightarrow> (string \<times> session_entry) list \<Rightarrow> session_store \<Rightarrow> session_store" where
  "idle_loop env now [] st = st"
| "idle_loop env now ((k, e) # es) st =
     idle_loop env now es (if now - se_last e > idle_timeout env then snd (evict_session env k st) else st)"

definition evict_idle :: "store_env \<Rightarrow> int \<Rightarrow> session_store \<Rightarrow> session_store" where
  "evict_idle env now st = idle_loop env now (st_sessions st) st"

text \<open>\<open>newSessionID\<close> with the bytes \<open>rand.Read\<close> delivers, if it does.\<close>

definition hex_digit :: "nat \<Rightarrow> char" where
  "hex_digit d = (if d < 10 then digit_char d else char_of (87 + d))"

definition new_session_id :: "byte list option \<Rightarrow> string res" where
  "new_session_id rnd =
     (case rnd of
        None \<Rightarrow> Err EIO
      | Some bs \<Rightarrow> Ok (concat (map (\<lambda>b. [hex_digit (unat b div 16), hex_digit (unat b mod 16)]) bs)))"

section \<open>Cleaned paths\<close>

definition proper_name :: "string \<Rightarrow> bool" where
  "proper_name s \<longleftrightarrow> s \<noteq> '''' \<and> s \<noteq> ''.'' \<and> s \<noteq> ''..'' \<and> CHR ''/'' \<notin> set s"

lemma split_path_not_Nil [simp]: "split_path s \<noteq> []"
  by (cases s) (auto split: list.splits)

lemma split_path_append: "split_path (a @ CHR ''/'' # b) = split_path a @ split_path b"
  by (induction a) (auto split: list.splits)

lemma split_path_name: "CHR ''/'' \<notin> set s \<Longrightarrow> split_path s = [s]"
  by (induction s) auto

lemma clean_parts_append: "clean_parts r acc (ps @ qs) = clean_parts r (rev (clean_parts r acc ps)) qs"
  by (induction r acc ps rule: clean_parts.induct) (auto split: list.splits)

lemma path_join_parts:
  assumes "dir \<noteq> ''''"
  shows "path_join dir s = (fst (clean dir), clean_parts (fst (clean dir)) (rev (snd (clean dir))) (split_path s))"
proof -
  have "take 1 (dir @ ''/'' @ s) = take 1 dir"
    using assms by (cases dir) simp_all
  moreover have "split_path (dir @ ''/'' @ s) = split_path dir @ split_path s"
    using split_path_append [of dir s] by simp
  ultimately show ?thesis
    using assms by (simp add: path_join_def clean_def Let_def clean_parts_append del: split_path.simps)
qed

lemma path_join_proper:
  assumes "dir \<noteq> ''''" "proper_name s"
  shows "path_join dir s = (fst (clean dir), snd (clean dir) @ [s])"
  using assms by (simp add: path_join_parts split_path_name proper_name_def)

lemma path_join_up:
  assumes "dir \<noteq> ''''" "snd (clean dir) = ps @ [x]" "x \<noteq> ''..''" "proper_name s"
  shows "path_join dir (''../'' @ s) = (fst (clean dir), ps @ [s])"
  using assms split_path_append [of "''..''" s] by (simp add: path_join_parts split_path_name proper_name_def)

section \<open>Evictions\<close>

lemma inside_refl [simp]: "inside p p"
  by (cases p) simp

lemma remove_all_ok:
  assumes "remove_ok env p" "\<And>q. q \<noteq> p \<Longrightarrow> ds q = st_dirs st q"
  shows "remove_all env p (st\<lparr>st_sessions := xs, st_dirs := ds\<rparr>) =
    (Ok (), st\<lparr>st_sessions := xs, st_dirs := (\<lambda>q. if inside p q then None else st_dirs st q)\<rparr>)"
proof -
  have "(\<lambda>q. if inside p q then None else ds q) = (\<lambda>q. if inside p q then None else st_dirs st q)"
    using assms(2) by (metis inside_refl)
  with assms(1) show ?thesis
    by (simp add: remove_all_def cong: if_cong)
qed

lemma evict_succeeds:
  assumes "map_of (st_sessions st) sid = Some e" "close_ok env (se_sess e)" "remove_ok env (path_join (st_data_dir st) sid)"
  shows "evict_session env sid st = (Ok (), st\<lparr>st_sessions := AList.delete sid (st_sessions st),
    st_dirs := (\<lambda>q. if inside (path_join (st_data_dir st) sid) q then None else st_dirs st q)\<rparr>)"
  using assms by (simp add: evict_session_def remove_all_ok)

lemma evict_cases:
  obtains "evict_session env sid st = (Err EIO, st)"
    | ds where "evict_session env sid st = (Err EIO, st\<lparr>st_sessions := AList.delete sid (st_sessions st), st_dirs := ds\<rparr>)"
        "\<And>q. q \<noteq> path_join (st_data_dir st) sid \<Longrightarrow> ds q = st_dirs st q"
    | "evict_session env sid st = (Ok (), st\<lparr>st_sessions := AList.delete sid (st_sessions st),
         st_dirs := (\<lambda>q. if inside (path_join (st_data_dir st) sid) q then None else st_dirs st q)\<rparr>)"
proof -
  let ?p = "path_join (st_data_dir st) sid"
  consider (kept) "evict_session env sid st = (Err EIO, st)"
    | (removed) ds where "evict_session env sid st = remove_all env ?p (st\<lparr>st_sessions := AList.delete sid (st_sessions st), st_dirs := ds\<rparr>)"
        "\<And>q. q \<noteq> ?p \<Longrightarrow> ds q = st_dirs st q"
  proof (cases "map_of (st_sessions st) sid")
    case None
    then have "st\<lparr>st_sessions := AList.delete sid (st_sessions st), st_dirs := st_dirs st\<rparr> = st"
      by (simp add: AList.delete_id map_of_eq_None_iff)
    then show thesis
      using None that(2) [of "st_dirs st"] by (simp add: evict_session_def)
  next
    case (Some e)
    then show thesis
      using that(1) that(2) [of "(st_dirs st)(?p \<mapsto> directory_of (se_sess e))"]
      by (cases "close_ok env (se_sess e)") (simp_all add: evict_session_def)
  qed
  then show thesis
  proof cases
    case (removed ds)
    then show thesis
      using that(2) [OF _ removed(2)] that(3) by (cases "remove_ok env ?p") (simp_all add: removed(1) remove_all_ok [OF _ removed(2)], simp add: remove_all_def)
  qed (rule that(1))
qed

lemma length_delete_le: "length (AList.delete k xs) \<le> length xs"
  by (induction xs) auto

lemma length_delete: "k \<in> fst ` set xs \<Longrightarrow> length (AList.delete k xs) < length xs"
proof (induction xs)
  case (Cons x xs)
  then show ?case
    using length_delete_le [of k xs] by (cases "fst x = k") auto
qed simp

lemma oldest_loop_ok:
  assumes "sid \<noteq> ''''" "'''' \<notin> fst ` set es"
  shows "oldest_loop sid t es = sid \<and> (\<forall>(k, e) \<in> set es. t \<le> se_last e) \<or>
    (\<exists>e. (oldest_loop sid t es, e) \<in> set es \<and> se_last e < t \<and> (\<forall>(k, e') \<in> set es. se_last e \<le> se_last e'))"
  using assms
proof (induction es arbitrary: sid t)
  case (Cons x es)
  obtain k e where x: "x = (k, e)" by fastforce
  have ne: "k \<noteq> ''''" "'''' \<notin> fst ` set es"
    using Cons.prems x by auto
  show ?case
  proof (cases "se_last e < t")
    case True
    then have l: "oldest_loop sid t (x # es) = oldest_loop k (se_last e) es"
      by (simp add: x)
    from Cons.IH [OF ne, of "se_last e"] show ?thesis
    proof (elim disjE exE conjE)
      assume "oldest_loop k (se_last e) es = k" "\<forall>(k, e') \<in> set es. se_last e \<le> se_last e'"
      then show ?thesis
        using True by (intro disjI2 exI [of _ e]) (auto simp: l x)
    next
      fix y assume "(oldest_loop k (se_last e) es, y) \<in> set es" "se_last y < se_last e" "\<forall>(k, e') \<in> set es. se_last y \<le> se_last e'"
      then show ?thesis
        using True by (intro disjI2 exI [of _ y]) (auto simp: l x)
    qed
  next
    case False
    then have l: "oldest_loop sid t (x # es) = oldest_loop sid t es"
      using Cons.prems by (simp add: x)
    from Cons.IH [OF Cons.prems(1) ne(2), of t] show ?thesis
    proof (elim disjE exE conjE)
      assume "oldest_loop sid t es = sid" "\<forall>(k, e') \<in> set es. t \<le> se_last e'"
      then show ?thesis
        using False Cons.prems(1) by (intro disjI1) (auto simp: l x)
    next
      fix y assume "(oldest_loop sid t es, y) \<in> set es" "se_last y < t" "\<forall>(k, e') \<in> set es. se_last y \<le> se_last e'"
      then show ?thesis
        using False Cons.prems(1) by (intro disjI2 exI [of _ y]) (auto simp: l x)
    qed
  qed
qed simp

lemma oldest_ok:
  assumes "es \<noteq> []" "'''' \<notin> fst ` set es"
  obtains e where "(oldest_loop '''' 0 es, e) \<in> set es" "\<forall>(k, e') \<in> set es. se_last e \<le> se_last e'"
proof -
  obtain k e xs where es: "es = (k, e) # xs"
    using assms(1) by (metis neq_Nil_conv prod.exhaust)
  then have "k \<noteq> ''''" "'''' \<notin> fst ` set xs"
    using assms(2) by auto
  from oldest_loop_ok [OF this, of "se_last e"] show thesis
  proof (elim disjE exE conjE)
    assume "oldest_loop k (se_last e) xs = k" "\<forall>(k, e') \<in> set xs. se_last e \<le> se_last e'"
    then show thesis
      using that [of e] by (simp add: es)
  next
    fix x assume "(oldest_loop k (se_last e) xs, x) \<in> set xs" "se_last x < se_last e" "\<forall>(k, e') \<in> set xs. se_last x \<le> se_last e'"
    then show thesis
      using that [of x] by (auto simp: es)
  qed
qed

section \<open>Reachable stores\<close>

text \<open>What happens to a store: a request gets its session, a statement changes the database of a session, a session is reset, the cleanup ticks.\<close>

inductive store_step :: "store_env \<Rightarrow> session_store \<Rightarrow> session_store \<Rightarrow> bool" for env where
  request: "sid \<noteq> '''' \<Longrightarrow> store_step env st (snd (get_or_create env now sid st))"
| statement: "map_of (st_sessions st) sid = Some e \<Longrightarrow>
    store_step env st (st\<lparr>st_sessions := AList.update sid (e\<lparr>se_sess := g\<rparr>) (st_sessions st)\<rparr>)"
| reset: "store_step env st (snd (reset env sid st))"
| tick: "store_step env st (evict_idle env now st)"

definition store_ok :: "store_env \<Rightarrow> session_store \<Rightarrow> bool" where
  "store_ok env st \<longleftrightarrow> distinct (map fst (st_sessions st)) \<and> '''' \<notin> fst ` set (st_sessions st) \<and>
     int (length (st_sessions st)) \<le> max_sessions env"

lemma length_update: "length (AList.update k v xs) = (if k \<in> fst ` set xs then length xs else Suc (length xs))"
  by (induction xs) auto

lemma fst_update: "fst ` set (AList.update k v xs) = insert k (fst ` set xs)"
  using dom_update [of k v xs] by simp

lemma set_delete_subset: "set (AList.delete k xs) \<subseteq> set xs"
  by (induction xs) auto

lemma store_ok_less:
  assumes "store_ok env st" "st_sessions st' = AList.delete sid (st_sessions st) \<or> st_sessions st' = st_sessions st"
  shows "store_ok env st'"
proof -
  have "length (AList.delete sid (st_sessions st)) \<le> length (st_sessions st)"
    by (rule length_delete_le)
  moreover have "set (AList.delete sid (st_sessions st)) \<subseteq> set (st_sessions st)"
    by (rule set_delete_subset)
  ultimately show ?thesis
    using assms by (auto simp: store_ok_def distinct_delete)
qed

lemma store_ok_evict: "store_ok env st \<Longrightarrow> store_ok env (snd (evict_session env sid st))"
  by (rule evict_cases [of env sid st]) (auto elim: store_ok_less)

lemma store_ok_update:
  assumes "store_ok env st" "map_of (st_sessions st) sid \<noteq> None \<or> int (length (st_sessions st)) < max_sessions env" "sid \<noteq> ''''"
    and "st_sessions st' = AList.update sid e (st_sessions st)"
  shows "store_ok env st'"
  using assms by (auto simp: store_ok_def length_update fst_update distinct_update map_of_eq_None_iff)

lemma evict_lru_ok:
  assumes "store_ok env st" "st_sessions st \<noteq> []"
  obtains sid e where "map_of (st_sessions st) sid = Some e" "\<forall>k e'. map_of (st_sessions st) k = Some e' \<longrightarrow> se_last e \<le> se_last e'"
    "evict_lru env st = evict_session env sid st"
proof -
  note o = assms(1) [unfolded store_ok_def]
  let ?sid = "oldest_loop '''' 0 (st_sessions st)"
  obtain e where e: "(?sid, e) \<in> set (st_sessions st)" "\<forall>(k, e') \<in> set (st_sessions st). se_last e \<le> se_last e'"
    using oldest_ok [OF assms(2)] o by blast
  have "?sid \<noteq> ''''"
    using e(1) o by (auto simp: image_iff)
  moreover have "map_of (st_sessions st) ?sid = Some e"
    using e(1) o by simp
  ultimately show thesis
    using e(2) by (intro that) (auto simp: evict_lru_def Let_def dest: map_of_SomeD)
qed

lemma open_session_ok: "snd (open_session env now sid st) = st \<or>
    (\<exists>e. st_sessions (snd (open_session env now sid st)) = AList.update sid e (st_sessions st))"
  by (auto simp: open_session_def Let_def split: res.splits)

lemma opened_session:
  assumes "session_open (case st_dirs st (path_join (st_data_dir st) sid) of Some d \<Rightarrow> d | None \<Rightarrow> made_dir env (path_join (st_data_dir st) sid)) = Ok g"
  shows "\<exists>st'. open_session env now sid st = (Ok g, st') \<and> st_sessions st' = AList.update sid \<lparr>se_sess = g, se_last = now\<rparr> (st_sessions st)"
  using assms by (simp add: open_session_def Let_def)

lemma store_ok_request:
  assumes "store_ok env st" "1 \<le> max_sessions env" "sid \<noteq> ''''"
  shows "store_ok env (snd (get_or_create env now sid st))"
proof (cases "map_of (st_sessions st) sid")
  case (Some e)
  then show ?thesis
    using assms by (auto simp: get_or_create_def elim!: store_ok_update)
next
  case None
  have opened: "store_ok env (snd (open_session env now sid st'))"
    if "store_ok env st'" "int (length (st_sessions st')) < max_sessions env" for st'
    using open_session_ok [of env now sid st'] that assms(3) by (auto elim: store_ok_update)
  show ?thesis
  proof (cases "int (length (st_sessions st)) \<ge> max_sessions env")
    case False
    then show ?thesis
      using None opened [OF assms(1)] by (simp add: get_or_create_def bindG_def ret_def)
  next
    case True
    then have "st_sessions st \<noteq> []"
      using assms(2) by auto
    then obtain v e where v: "map_of (st_sessions st) v = Some e" "evict_lru env st = evict_session env v st"
      by (rule evict_lru_ok [OF assms(1)])
    have r: "snd (get_or_create env now sid st) = snd (bindG (evict_session env v) (\<lambda>_. open_session env now sid) st)"
      using None True by (simp add: get_or_create_def bindG_def v(2))
    have lt: "int (length (AList.delete v (st_sessions st))) < max_sessions env"
      using assms(1) length_delete [OF image_eqI [OF _ map_of_SomeD [OF v(1)], of v fst]] by (simp add: store_ok_def)
    show ?thesis
      unfolding r
      by (rule evict_cases [of env v st])
        (use lt store_ok_evict [OF assms(1), of v] in \<open>auto simp: bindG_def intro!: opened\<close>)
  qed
qed

lemma store_ok_idle: "store_ok env st \<Longrightarrow> store_ok env (idle_loop env now es st)"
  by (induction env now es st rule: idle_loop.induct) (simp_all add: store_ok_evict)

lemma store_ok_step:
  assumes "store_step env st st'" "1 \<le> max_sessions env" "store_ok env st"
  shows "store_ok env st'"
  using assms(1)
proof cases
  case (statement sid e g)
  then have "sid \<noteq> ''''"
    using assms(3) by (auto simp: store_ok_def image_iff dest!: map_of_SomeD)
  then show ?thesis
    using statement assms(3) by (auto elim!: store_ok_update)
qed (use assms in \<open>auto intro: store_ok_request store_ok_evict store_ok_idle simp: reset_def evict_idle_def\<close>)

lemma idle_loop_ok:
  assumes "\<forall>g. close_ok env g" "distinct (map fst es)"
  shows "map_of (st_sessions (idle_loop env now es st)) =
    (\<lambda>k. case map_of es k of None \<Rightarrow> map_of (st_sessions st) k
       | Some e \<Rightarrow> if now - se_last e > idle_timeout env then None else map_of (st_sessions st) k)"
  using assms(2)
proof (induction es arbitrary: st)
  case (Cons x es)
  obtain k e where x: "x = (k, e)" by fastforce
  have d: "map_of (st_sessions (snd (evict_session env k st))) = (map_of (st_sessions st))(k := None)"
    using assms(1) by (auto simp: evict_session_def remove_all_def AList.delete_conv' fun_eq_iff split: option.splits)
  have "map_of es k = None"
    using Cons.prems by (simp add: x map_of_eq_None_iff)
  then show ?case
    using Cons by (auto simp: x d fun_eq_iff split: option.splits)
qed simp

section \<open>Properties\<close>

text \<open>C22. At no time are there more than \<open>maxSessions\<close> sessions: whatever requests, statements, resets and ticks of the cleanup happen, and whatever of closing,
  removing and opening fails.\<close>

theorem sessions_bounded:
  assumes "1 \<le> max_sessions env" "(store_step env)\<^sup>*\<^sup>* (new_session_store d ds) st"
  shows "int (length (st_sessions st)) \<le> max_sessions env \<and> distinct (map fst (st_sessions st))"
proof -
  have "store_ok env st"
    using assms(2)
  proof induction
    case base
    then show ?case
      using assms(1) by (simp add: store_ok_def new_session_store_def)
  qed (use store_ok_step assms(1) in blast)
  then show ?thesis
    by (simp add: store_ok_def)
qed

text \<open>C23. A request for a new session at the limit takes the place of the session that was idle the longest; every other session stays, and the new
  one has the database that opening gives and the time of the request.\<close>

theorem new_session_replaces_oldest:
  assumes "store_ok env st" "1 \<le> max_sessions env" "max_sessions env \<le> int (length (st_sessions st))" "map_of (st_sessions st) sid = None"
    and "\<forall>g. close_ok env g" "\<forall>p. remove_ok env p" "\<forall>p d. d = made_dir env p \<or> st_dirs st p = Some d \<longrightarrow> (\<exists>g. session_open d = Ok g)"
  shows "\<exists>old e g st'. map_of (st_sessions st) old = Some e \<and> (\<forall>k e'. map_of (st_sessions st) k = Some e' \<longrightarrow> se_last e \<le> se_last e') \<and>
    get_or_create env now sid st = (Ok g, st') \<and>
    map_of (st_sessions st') = (map_of (st_sessions st))(old := None, sid \<mapsto> \<lparr>se_sess = g, se_last = now\<rparr>)"
proof -
  have "st_sessions st \<noteq> []"
    using assms(2,3) by auto
  then obtain old e where old: "map_of (st_sessions st) old = Some e" "\<forall>k e'. map_of (st_sessions st) k = Some e' \<longrightarrow> se_last e \<le> se_last e'"
    "evict_lru env st = evict_session env old st"
    by (rule evict_lru_ok [OF assms(1)])
  let ?p = "path_join (st_data_dir st) old"
  let ?st = "st\<lparr>st_sessions := AList.delete old (st_sessions st), st_dirs := (\<lambda>q. if inside ?p q then None else st_dirs st q)\<rparr>"
  have ev: "evict_session env old st = (Ok (), ?st)"
    using assms(5,6) by (intro evict_succeeds [OF old(1)]) blast+
  have any: "\<exists>g. session_open (made_dir env p) = Ok g" "st_dirs st p = Some d \<Longrightarrow> \<exists>g. session_open d = Ok g" for p d
    using assms(7) by blast+
  have "\<exists>g. session_open (case st_dirs ?st (path_join (st_data_dir ?st) sid) of Some d \<Rightarrow> d | None \<Rightarrow> made_dir env (path_join (st_data_dir ?st) sid)) = Ok g"
    using any by (simp split: option.split)
  then obtain g where "session_open (case st_dirs ?st (path_join (st_data_dir ?st) sid) of Some d \<Rightarrow> d | None \<Rightarrow> made_dir env (path_join (st_data_dir ?st) sid)) = Ok g"
    by (rule exE)
  from opened_session [OF this, of now] obtain st' where st': "open_session env now sid ?st = (Ok g, st')"
    "st_sessions st' = AList.update sid \<lparr>se_sess = g, se_last = now\<rparr> (AList.delete old (st_sessions st))"
    by auto
  have "get_or_create env now sid st = open_session env now sid ?st"
    using assms(3,4) ev by (simp add: get_or_create_def bindG_def old(3))
  then show ?thesis
    using old(1,2) st' by (intro exI [of _ old] exI [of _ e] exI [of _ g] exI [of _ st']) (simp add: update_conv' AList.delete_conv')
qed

text \<open>The cleanup ends exactly the sessions that were idle longer than the timeout.\<close>

theorem cleanup_ends_idle_sessions:
  assumes "distinct (map fst (st_sessions st))" "\<forall>g. close_ok env g"
  shows "map_of (st_sessions (evict_idle env now st)) k = Some e \<longleftrightarrow>
    map_of (st_sessions st) k = Some e \<and> now - se_last e \<le> idle_timeout env"
  using idle_loop_ok [OF assms(2,1), of now st] by (auto simp: evict_idle_def split: option.splits)

text \<open>C24. A reset deletes one session only: with ids that are plain names, the other sessions keep their database and their directory.\<close>

theorem reset_keeps_others:
  assumes "st_data_dir st \<noteq> ''''" "proper_name sid" "proper_name sid'" "sid \<noteq> sid'"
  shows "map_of (st_sessions (snd (reset env sid st))) sid' = map_of (st_sessions st) sid' \<and>
    st_dirs (snd (reset env sid st)) (path_join (st_data_dir st) sid') = st_dirs st (path_join (st_data_dir st) sid')"
proof -
  have ni: "\<not> inside (path_join (st_data_dir st) sid) (path_join (st_data_dir st) sid')"
    using assms by (simp add: path_join_proper)
  then have ne: "path_join (st_data_dir st) sid' \<noteq> path_join (st_data_dir st) sid"
    by auto
  show ?thesis
    unfolding reset_def
  proof (rule evict_cases [of env sid st], goal_cases)
    case (2 ds)
    show ?case
      using assms(4) by (simp add: 2(1) 2(2) [OF ne] AList.delete_conv')
  qed (use assms(4) ni in \<open>simp_all add: AList.delete_conv'\<close>)
qed

text \<open>C25. The id is not checked: a cookie with the value \<open>../y\<close> resets the directory \<open>y\<close> beside the data directory, with everything in it.\<close>

theorem reset_leaves_data_directory:
  assumes "clean (st_data_dir st) = (r, ps @ [x])" "x \<noteq> ''..''" "st_data_dir st \<noteq> ''''" "proper_name y" "y \<noteq> x"
    and "map_of (st_sessions st) (''../'' @ y) = None" "remove_ok env (r, ps @ [y])"
  shows "\<exists>st'. reset env (''../'' @ y) st = (Ok (), st') \<and> (\<forall>qs. st_dirs st' (r, ps @ [y] @ qs) = None) \<and>
    \<not> inside (clean (st_data_dir st)) (r, ps @ [y])"
proof -
  have "path_join (st_data_dir st) (''../'' @ y) = (r, ps @ [y])"
    using path_join_up [of "st_data_dir st" ps x y] assms(1-4) by simp
  then show ?thesis
    using assms by (simp add: reset_def evict_session_def remove_all_def)
qed

subsection \<open>Witnesses\<close>

definition demo_env :: store_env where
  "demo_env = \<lparr>max_sessions = 2, idle_timeout = 10, made_dir = (\<lambda>_. new_directory), close_ok = (\<lambda>_. True), remove_ok = (\<lambda>_. True)\<rparr>"

definition demo_store :: session_store where
  "demo_store = \<lparr>st_data_dir = ''/data/sessions'',
     st_sessions = [(''a'', \<lparr>se_sess = users_engine, se_last = 5\<rparr>), (''b'', \<lparr>se_sess = users_engine, se_last = 3\<rparr>)],
     st_dirs = (\<lambda>_. None)\<rparr>"

lemma sessions_bounded_witness:
  "\<exists>st. store_step demo_env (new_session_store ''d'' (\<lambda>_. None)) st \<and> int (length (st_sessions st)) \<le> 2"
proof -
  have s: "store_step demo_env (new_session_store ''d'' (\<lambda>_. None)) (snd (get_or_create demo_env 1 ''a'' (new_session_store ''d'' (\<lambda>_. None))))"
    by (intro store_step.request) simp
  have "1 \<le> max_sessions demo_env"
    by (simp add: demo_env_def)
  from sessions_bounded [OF this r_into_rtranclp [of "store_step demo_env", OF s]] s show ?thesis
    by (auto simp: demo_env_def)
qed

lemma new_session_replaces_oldest_witness:
  "\<exists>g st'. get_or_create demo_env 7 ''c'' demo_store = (Ok g, st') \<and> fst ` set (st_sessions st') = {''a'', ''c''}"
proof -
  obtain g0 where g0: "open_db new_directory = Ok g0"
    by (rule new_directory_opens)
  have o: "\<forall>p d. d = made_dir demo_env p \<or> st_dirs demo_store p = Some d \<longrightarrow> (\<exists>g. session_open d = Ok g)"
    by (auto simp: demo_env_def demo_store_def session_open_client g0)
  have "store_ok demo_env demo_store"
    by (simp add: store_ok_def demo_env_def demo_store_def)
  from new_session_replaces_oldest [OF this _ _ _ _ _ o, of "''c''" 7]
  obtain old e g st' where r: "map_of (st_sessions demo_store) old = Some e"
    "\<forall>k e'. map_of (st_sessions demo_store) k = Some e' \<longrightarrow> se_last e \<le> se_last e'"
    "get_or_create demo_env 7 ''c'' demo_store = (Ok g, st')"
    "map_of (st_sessions st') = (map_of (st_sessions demo_store))(old := None, ''c'' \<mapsto> \<lparr>se_sess = g, se_last = 7\<rparr>)"
    by (auto simp: demo_env_def demo_store_def)
  have "map_of (st_sessions demo_store) ''b'' = Some \<lparr>se_sess = users_engine, se_last = 3\<rparr>"
    by (simp add: demo_store_def)
  then have "old = ''b''"
    using r(1,2) by (auto simp: demo_store_def split: if_splits)
  then have "dom (map_of (st_sessions st')) = {''a'', ''c''}"
    unfolding r(4) by (auto simp: demo_store_def split: if_splits)
  then show ?thesis
    using r(3) by (auto simp: dom_map_of_conv_image_fst)
qed

lemma cleanup_ends_idle_sessions_witness:
  "map_of (st_sessions (evict_idle demo_env 14 demo_store)) ''b'' \<noteq> Some \<lparr>se_sess = users_engine, se_last = 3\<rparr> \<and>
   map_of (st_sessions (evict_idle demo_env 14 demo_store)) ''a'' = Some \<lparr>se_sess = users_engine, se_last = 5\<rparr>"
proof -
  have "distinct (map fst (st_sessions demo_store))" "\<forall>g. close_ok demo_env g"
    by (simp_all add: demo_store_def demo_env_def)
  note c = cleanup_ends_idle_sessions [OF this, of 14]
  show ?thesis
    unfolding c by (simp add: demo_store_def demo_env_def)
qed

lemma reset_keeps_others_witness:
  "map_of (st_sessions (snd (reset demo_env ''a'' demo_store))) ''b'' = Some \<lparr>se_sess = users_engine, se_last = 3\<rparr>"
  using reset_keeps_others [of demo_store "''a''" "''b''" demo_env] by (simp add: demo_store_def proper_name_def)

lemma reset_leaves_data_directory_witness:
  "\<exists>st st'. st_dirs st (True, [''data'', ''other'', ''mydb'']) \<noteq> None \<and> reset demo_env ''../other'' st = (Ok (), st') \<and>
    st_dirs st' (True, [''data'', ''other'', ''mydb'']) = None"
proof -
  let ?st = "demo_store\<lparr>st_dirs := [(True, [''data'', ''other'', ''mydb'']) \<mapsto> new_directory]\<rparr>"
  have c: "clean (st_data_dir ?st) = (True, [''data''] @ [''sessions''])"
    by (simp add: demo_store_def clean_def Let_def)
  have "map_of (st_sessions ?st) (''../'' @ ''other'') = None" "remove_ok demo_env (True, [''data''] @ [''other''])"
    by (simp_all add: demo_store_def demo_env_def)
  from reset_leaves_data_directory [OF c _ _ _ _ this]
  obtain st' where r: "reset demo_env ''../other'' ?st = (Ok (), st')" "\<forall>qs. st_dirs st' (True, [''data''] @ [''other''] @ qs) = None"
    by (auto simp: demo_store_def proper_name_def)
  then have "st_dirs st' (True, [''data'', ''other'', ''mydb'']) = None"
    using spec [OF r(2), of "[''mydb'']"] by simp
  with r(1) show ?thesis
    by (intro exI [of _ ?st] exI [of _ st']) simp
qed

end
