(* ===== verification/Api.thy ===== *)
theory Api
  imports Session_Store
begin

text \<open>
  The two HTTP servers: \<open>db-internal-app/internal/api/server.go\<close> of the visualizer over its sessions, and \<open>api/handler.go\<close> of the database
  over one engine. A request is what the handlers read of it: the cookie, the decoded JSON body (\<open>None\<close> when decoding fails), the origin
  and the method. A response is its status, the cookie it sets and the value that is encoded as JSON. A panic ends the request
  without a response. The texts of errors are the errors themselves.
\<close>

section \<open>Values as JSON\<close>

datatype json_value = JInt i64 | JString string | JBool bool | JNull

fun marshal_value :: "value_t \<Rightarrow> json_value" where
  "marshal_value (IntValue i) = JInt i"
| "marshal_value (StringValue s) = JString s"
| "marshal_value (BoolValue b) = JBool b"
| "marshal_value NullValue = JNull"

definition marshal_rows :: "row list \<Rightarrow> json_value list list" where
  "marshal_rows rs = map (map marshal_value) rs"

record page_json =
  pj_page_id :: u32
  pj_is_leaf :: bool
  pj_keys :: "string list"
  pj_children :: "u32 list"
  pj_rightmost :: u32
  pj_rows :: "json_value list list"
  pj_row_tables :: "string list"
  pj_next_leaf :: u32

record tree_json =
  tr_root :: u32
  tr_pages :: "u32 \<Rightarrow> page_json option"

record wal_json =
  wj_lsn :: u64
  wj_txn :: u64
  wj_page :: u32
  wj_op :: string
  wj_table :: string
  wj_kind :: string
  wj_row :: "json_value list"

definition marshal_page :: "page_snapshot \<Rightarrow> page_json" where
  "marshal_page p =
     \<lparr>pj_page_id = ps_page_id p, pj_is_leaf = ps_is_leaf p, pj_keys = ps_keys p, pj_children = ps_children p, pj_rightmost = ps_rightmost p,
      pj_rows = marshal_rows (ps_rows p), pj_row_tables = ps_row_tables p, pj_next_leaf = ps_next_leaf p\<rparr>"

definition marshal_tree_snapshot :: "tree_snapshot \<Rightarrow> tree_json" where
  "marshal_tree_snapshot s = \<lparr>tr_root = snap_root s, tr_pages = map_option marshal_page \<circ> snap_pages s\<rparr>"

definition marshal_wal_record :: "wal_entry \<Rightarrow> wal_json" where
  "marshal_wal_record r =
     \<lparr>wj_lsn = we_lsn r, wj_txn = we_txn r, wj_page = we_page r, wj_op = we_op r, wj_table = we_table r, wj_kind = we_kind r,
      wj_row = (case we_changed r of None \<Rightarrow> [] | Some row \<Rightarrow> hd (marshal_rows [row]))\<rparr>"

definition marshal_wal_records :: "wal_entry list \<Rightarrow> wal_json list" where
  "marshal_wal_records rs = map marshal_wal_record rs"

section \<open>Requests and responses\<close>

record exec_request =
  rq_sql :: string
  rq_table :: string
  rq_wal :: bool

datatype error_text =
    NoError
  | ErrorText err
  | InvalidJson
  | MissingSql
  | TimedOut
  | DumpTreeFailed err
  | WalRecordsFailed err

record exec_response =
  rs_columns :: "string list"
  rs_rows :: "json_value list list"
  rs_affected :: int
  rs_tree :: "tree_json option"
  rs_wal :: "wal_json list"
  rs_error :: error_text

record query_response =
  qr_columns :: "string list"
  qr_rows :: "json_value list list"
  qr_affected :: int
  qr_error :: error_text

datatype body =
    ErrorBody error_text
  | StatusBody string
  | TablesBody "table_info list"
  | ExecBody exec_response
  | QueryBody query_response
  | EmptyBody

datatype same_site = SameSiteLax | SameSiteNone

record http_cookie =
  ck_value :: string
  ck_http_only :: bool
  ck_same_site :: same_site
  ck_secure :: bool

record response =
  rp_status :: nat
  rp_cookie :: "http_cookie option"
  rp_body :: body

definition respond :: "nat \<Rightarrow> http_cookie option \<Rightarrow> body \<Rightarrow> ('s, response) go" where
  "respond status ck b = ret \<lparr>rp_status = status, rp_cookie = ck, rp_body = b\<rparr>"

text \<open>An error of a call as a value, for the handler to answer it.\<close>

definition attempt :: "('s, 'a) go \<Rightarrow> ('s, err + 'a) go" where
  "attempt f s = (case f s of (Ok a, s) \<Rightarrow> (Ok (Inr a), s) | (Err e, s) \<Rightarrow> (Ok (Inl e), s) | (Panic, s) \<Rightarrow> (Panic, s) | (Stuck, s) \<Rightarrow> (Stuck, s))"

section \<open>The server of the visualizer\<close>

text \<open>The variables of the packages, and the fuel of parser, executors and tree.\<close>

record server =
  sv_secure_cookies :: bool
  sv_store :: store_env
  sv_limit :: u32
  sv_fuel :: "nat \<times> nat \<times> nat \<times> nat"

text \<open>\<open>rnd\<close> is what \<open>rand.Read\<close> delivers.\<close>

definition new_session_cookie :: "server \<Rightarrow> string \<Rightarrow> http_cookie" where
  "new_session_cookie sv sid =
     \<lparr>ck_value = sid, ck_http_only = True, ck_same_site = (if sv_secure_cookies sv then SameSiteNone else SameSiteLax),
      ck_secure = sv_secure_cookies sv\<rparr>"

definition session_id :: "server \<Rightarrow> byte list option \<Rightarrow> string option \<Rightarrow> (string \<times> http_cookie option) res" where
  "session_id sv rnd ck =
     (let v = (case ck of Some v \<Rightarrow> v | None \<Rightarrow> '''') in
      if v \<noteq> '''' then Ok (v, None)
      else bindR (new_session_id rnd) (\<lambda>sid. Ok (sid, Some (new_session_cookie sv sid))))"

text \<open>A call on the session of an id: the session is shared with the store.\<close>

definition on_session :: "string \<Rightarrow> (engine, 'a) go \<Rightarrow> (session_store, 'a) go" where
  "on_session sid f st =
     (case map_of (st_sessions st) sid of
        None \<Rightarrow> (Panic, st)
      | Some e \<Rightarrow> (case f (se_sess e) of (x, g) \<Rightarrow> (x, st\<lparr>st_sessions := AList.update sid (e\<lparr>se_sess := g\<rparr>) (st_sessions st)\<rparr>)))"

definition failed_response :: "error_text \<Rightarrow> exec_response" where
  "failed_response e = \<lparr>rs_columns = [], rs_rows = [], rs_affected = 0, rs_tree = None, rs_wal = [], rs_error = e\<rparr>"

definition result_response :: "result \<Rightarrow> exec_response" where
  "result_response res =
     (case res_schema res of
        None \<Rightarrow> (failed_response NoError)\<lparr>rs_affected := res_affected res\<rparr>
      | Some sch \<Rightarrow> (failed_response NoError)\<lparr>rs_affected := res_affected res, rs_columns := map col_name (columns sch),
          rs_rows := marshal_rows (res_rows res)\<rparr>)"

definition add_tree :: "server \<Rightarrow> string \<Rightarrow> exec_request \<Rightarrow> exec_response \<Rightarrow> (session_store, bool \<times> exec_response) go" where
  "add_tree sv sid req resp =
     (case sv_fuel sv of (f, k, n, m) \<Rightarrow>
      if rq_table req = '''' then ret (True, resp)
      else bindG (attempt (on_session sid (session_dump_tree n (rq_table req)))) (\<lambda>r. case r of
             Inl e \<Rightarrow> ret (False, resp\<lparr>rs_error := DumpTreeFailed e\<rparr>)
           | Inr snap \<Rightarrow> ret (True, resp\<lparr>rs_tree := Some (marshal_tree_snapshot snap)\<rparr>)))"

definition add_wal :: "string \<Rightarrow> exec_request \<Rightarrow> exec_response \<Rightarrow> (session_store, exec_response) go" where
  "add_wal sid req resp =
     (if \<not> rq_wal req then ret resp
      else bindG (attempt (on_session sid wal_records)) (\<lambda>r. case r of
             Inl e \<Rightarrow> ret (resp\<lparr>rs_error := WalRecordsFailed e\<rparr>)
           | Inr es \<Rightarrow> ret (resp\<lparr>rs_wal := marshal_wal_records es\<rparr>)))"

text \<open>\<open>handleExec\<close>. \<open>ctx\<close> says when the context is done and \<open>deadline\<close> whether that is the timeout of the query rather than the end of the
  request.\<close>

definition handle_exec :: "server \<Rightarrow> int \<Rightarrow> byte list option \<Rightarrow> (nat \<Rightarrow> bool) \<Rightarrow> bool \<Rightarrow> string option \<Rightarrow> exec_request option \<Rightarrow> (session_store, response) go" where
  "handle_exec sv now rnd ctx deadline ck body =
     (case session_id sv rnd ck of
        Err e \<Rightarrow> respond 500 None (ErrorBody (ErrorText e))
      | Panic \<Rightarrow> of_option None
      | Stuck \<Rightarrow> stuck
      | Ok (sid, set_ck) \<Rightarrow>
          bindG (attempt (get_or_create (sv_store sv) now sid)) (\<lambda>r. case r of
            Inl e \<Rightarrow> respond 500 set_ck (ErrorBody (ErrorText e))
          | Inr _ \<Rightarrow>
              (case body of
                 None \<Rightarrow> respond 400 set_ck (ErrorBody InvalidJson)
               | Some req \<Rightarrow>
                   (case sv_fuel sv of (f, k, n, m) \<Rightarrow>
                    bindG (attempt (on_session sid (session_exec f k n m (sv_limit sv) ctx (rq_sql req)))) (\<lambda>r. case r of
                      Inl e \<Rightarrow> respond 200 set_ck (ExecBody (failed_response (if e = ECancelled \<and> deadline then TimedOut else ErrorText e)))
                    | Inr res \<Rightarrow>
                        bindG (add_tree sv sid req (result_response res)) (\<lambda>(ok, resp).
                        if \<not> ok then respond 200 set_ck (ExecBody resp)
                        else bindG (add_wal sid req resp) (\<lambda>resp. respond 200 set_ck (ExecBody resp))))))))"

definition handle_tables :: "server \<Rightarrow> int \<Rightarrow> byte list option \<Rightarrow> string option \<Rightarrow> (session_store, response) go" where
  "handle_tables sv now rnd ck =
     (case session_id sv rnd ck of
        Err e \<Rightarrow> respond 500 None (ErrorBody (ErrorText e))
      | Panic \<Rightarrow> of_option None
      | Stuck \<Rightarrow> stuck
      | Ok (sid, set_ck) \<Rightarrow>
          bindG (attempt (get_or_create (sv_store sv) now sid)) (\<lambda>r. case r of
            Inl e \<Rightarrow> respond 500 set_ck (ErrorBody (ErrorText e))
          | Inr _ \<Rightarrow>
              bindG (attempt (on_session sid (\<lambda>g. (session_tables g, g)))) (\<lambda>r. case r of
                Inl e \<Rightarrow> respond 500 set_ck (ErrorBody (ErrorText e))
              | Inr infos \<Rightarrow> respond 200 set_ck (TablesBody infos))))"

definition handle_reset :: "server \<Rightarrow> byte list option \<Rightarrow> string option \<Rightarrow> (session_store, response) go" where
  "handle_reset sv rnd ck =
     (case session_id sv rnd ck of
        Err e \<Rightarrow> respond 500 None (ErrorBody (ErrorText e))
      | Panic \<Rightarrow> of_option None
      | Stuck \<Rightarrow> stuck
      | Ok (sid, set_ck) \<Rightarrow>
          bindG (attempt (reset (sv_store sv) sid)) (\<lambda>r. case r of
            Inl e \<Rightarrow> respond 500 set_ck (ErrorBody (ErrorText e))
          | Inr _ \<Rightarrow> respond 200 set_ck (StatusBody ''reset'')))"

definition handle_health :: "('s, response) go" where
  "handle_health = respond 200 None (StatusBody ''ok'')"

subsection \<open>CORS\<close>

record cors_headers =
  allow_origin :: "string option"
  allow_credentials :: bool
  vary_origin :: bool
  allow_methods :: string
  allow_headers :: string

definition cors_for :: "string list \<Rightarrow> string \<Rightarrow> cors_headers" where
  "cors_for allowed origin =
     \<lparr>allow_origin = (if origin \<in> set allowed then Some origin else None), allow_credentials = (origin \<in> set allowed),
      vary_origin = (origin \<in> set allowed), allow_methods = ''GET, POST, OPTIONS'', allow_headers = ''Content-Type''\<rparr>"

definition with_cors :: "string list \<Rightarrow> ('s, response) go \<Rightarrow> string \<Rightarrow> string \<Rightarrow> ('s, cors_headers \<times> response) go" where
  "with_cors allowed next origin method =
     (if method = ''OPTIONS'' then bindG (respond 204 None EmptyBody) (\<lambda>r. ret (cors_for allowed origin, r))
      else bindG next (\<lambda>r. ret (cors_for allowed origin, r)))"

section \<open>The server of the database\<close>

definition failed_query :: "error_text \<Rightarrow> query_response" where
  "failed_query e = \<lparr>qr_columns = [], qr_rows = [], qr_affected = 0, qr_error = e\<rparr>"

definition query_result :: "result \<Rightarrow> query_response" where
  "query_result res =
     (case res_schema res of
        Some sch \<Rightarrow>
          if length (res_rows res) > 0
          then (failed_query NoError)\<lparr>qr_affected := res_affected res, qr_columns := map col_name (columns sch),
                 qr_rows := map (map marshal_value) (res_rows res)\<rparr>
          else (failed_query NoError)\<lparr>qr_affected := res_affected res\<rparr>
      | None \<Rightarrow> (failed_query NoError)\<lparr>qr_affected := res_affected res\<rparr>)"

definition handle_query :: "nat \<Rightarrow> nat \<Rightarrow> nat \<Rightarrow> nat \<Rightarrow> (nat \<Rightarrow> bool) \<Rightarrow> string option \<Rightarrow> (engine, response) go" where
  "handle_query f k n m ctx body =
     (case body of
        None \<Rightarrow> respond 400 None (QueryBody (failed_query InvalidJson))
      | Some sql \<Rightarrow>
          if sql = '''' then respond 400 None (QueryBody (failed_query MissingSql))
          else bindG (attempt (\<lambda>g. (plan_text f sql g, g))) (\<lambda>r. case r of
                 Inl e \<Rightarrow> respond 400 None (QueryBody (failed_query (ErrorText e)))
               | Inr p \<Rightarrow>
                   bindG (attempt (engine_execute k n m ctx p)) (\<lambda>r. case r of
                     Inl e \<Rightarrow> respond 500 None (QueryBody (failed_query (ErrorText e)))
                   | Inr res \<Rightarrow> respond 200 None (QueryBody (query_result res)))))"

section \<open>Requests of a live session\<close>

lemma on_session_ok:
  assumes "map_of (st_sessions st) sid = Some e" "f (se_sess e) = (x, g)"
  shows "\<exists>st'. on_session sid f st = (x, st') \<and> map_of (st_sessions st') = (map_of (st_sessions st))(sid \<mapsto> e\<lparr>se_sess := g\<rparr>) \<and>
    st_dirs st' = st_dirs st \<and> st_data_dir st' = st_data_dir st"
  using assms by (simp add: on_session_def update_conv')

lemma live_session:
  assumes "map_of (st_sessions st) sid = Some e"
  shows "\<exists>st'. get_or_create env now sid st = (Ok (se_sess e), st') \<and>
    map_of (st_sessions st') = (map_of (st_sessions st))(sid \<mapsto> e\<lparr>se_last := now\<rparr>) \<and>
    st_dirs st' = st_dirs st \<and> st_data_dir st' = st_data_dir st"
  using assms by (simp add: get_or_create_def update_conv')

lemma session_id_cookie: "sid \<noteq> '''' \<Longrightarrow> session_id sv rnd (Some sid) = Ok (sid, None)"
  by (simp add: session_id_def)

text \<open>A request that asks for neither the tree nor the log.\<close>

lemma handle_exec_plain:
  assumes sid: "sid \<noteq> ''''" "map_of (st_sessions st) sid = Some e" and fuel: "sv_fuel sv = (f, k, n, m)"
    and req: "rq_table req = ''''" "\<not> rq_wal req"
    and run: "session_exec f k n m (sv_limit sv) ctx (rq_sql req) (se_sess e) = (r, g)" "r = Ok res \<or> r = Err er"
  shows "\<exists>st'. handle_exec sv now rnd ctx deadline (Some sid) (Some req) st =
      (Ok \<lparr>rp_status = 200, rp_cookie = None, rp_body = ExecBody (case r of Ok res \<Rightarrow> result_response res
          | Err x \<Rightarrow> failed_response (if x = ECancelled \<and> deadline then TimedOut else ErrorText x))\<rparr>, st') \<and>
    map_of (st_sessions st') = (map_of (st_sessions st))(sid \<mapsto> \<lparr>se_sess = g, se_last = now\<rparr>) \<and> st_dirs st' = st_dirs st"
proof -
  obtain s1 where s1: "get_or_create (sv_store sv) now sid st = (Ok (se_sess e), s1)"
    "map_of (st_sessions s1) = (map_of (st_sessions st))(sid \<mapsto> e\<lparr>se_last := now\<rparr>)" "st_dirs s1 = st_dirs st"
    using live_session [OF sid(2)] by blast
  have l: "map_of (st_sessions s1) sid = Some (e\<lparr>se_last := now\<rparr>)"
    by (simp add: s1(2))
  obtain s2 where s2: "on_session sid (session_exec f k n m (sv_limit sv) ctx (rq_sql req)) s1 = (r, s2)"
    "map_of (st_sessions s2) = (map_of (st_sessions s1))(sid \<mapsto> e\<lparr>se_last := now, se_sess := g\<rparr>)" "st_dirs s2 = st_dirs s1"
    using on_session_ok [OF l, of "session_exec f k n m (sv_limit sv) ctx (rq_sql req)" r g] run(1) by auto
  have "map_of (st_sessions s2) = (map_of (st_sessions st))(sid \<mapsto> \<lparr>se_sess = g, se_last = now\<rparr>)"
    by (cases e) (simp add: s2(2) s1(2))
  then show ?thesis
    using run(2) req s1(1,3) s2(1,3)
    by (auto simp: handle_exec_def session_id_cookie [OF sid(1)] fuel bindG_def attempt_def respond_def ret_def add_tree_def add_wal_def)
qed


section \<open>Properties\<close>

text \<open>C19. An \<open>INSERT\<close> through the visualizer: for a live session with a sound database below the limit of the pages, the request is answered with status 200, the
  padded row is in its table, no other session is touched, and if the process ends afterwards, opening the session's files again finds the
  same tables.\<close>

theorem insert_request_survives_crash:
  assumes s: "sid \<noteq> ''''" "map_of (st_sessions st) sid = Some ent" "sv_fuel sv = (f, k, n, m)" "2 \<le> k" "rq_table req = ''''" "\<not> rq_wal req"
    and g: "sound e h t n m (se_sess ent)" "takes_row e h t n m (se_sess ent)" "num_pages (disk (store (eng_mgr (se_sess ent)))) < sv_limit sv"
    and sql: "parse f (rq_sql req) = Some (Inr (Some (InsertStatement tb vs)))" "tb \<noteq> ''''" "eng_schemas (se_sess ent) tb = Some sch"
      "pad_pk_literals sch (InsertStatement tb vs) = InsertStatement tb vs'" "length vs' = length (columns sch)"
    and row: "eval_literals vs' = Ok row" "storable e sch v row" "value_at row (primary_key_index sch) = Ok v"
      "table_find (eng_schemas (se_sess ent)) t tb v = None"
  shows "\<exists>st' g' xs zs. handle_exec sv now rnd (\<lambda>_. False) deadline (Some sid) (Some req) st =
      (Ok \<lparr>rp_status = 200, rp_cookie = None, rp_body = ExecBody \<lparr>rs_columns = map col_name (columns sch), rs_rows = [], rs_affected = 0, rs_tree = None,
        rs_wal = [], rs_error = NoError\<rparr>\<rparr>, st') \<and>
    map_of (st_sessions st') = (map_of (st_sessions st))(sid \<mapsto> \<lparr>se_sess = g', se_last = now\<rparr>) \<and>
    table_rows (eng_schemas (se_sess ent)) t tb = xs @ zs \<and>
    survives n m g' ((table_rows (eng_schemas (se_sess ent)) t)(tb := xs @ row # zs))"
proof (rule planned_insert [OF g(1,2) sql(3,5) row])
  let ?g = "se_sess ent"
  fix g' h' t' xs zs
  assume a: "plan_statement (reader_of (eng_catalog ?g)) (InsertStatement tb vs') = Ok (InsertNode tb sch vs')"
    "\<And>k. 2 \<le> k \<Longrightarrow> engine_execute k n m (\<lambda>_. False) (InsertNode tb sch vs') ?g = (Ok \<lparr>res_rows = [], res_affected = 0, res_schema = Some sch\<rparr>, g')"
    "sound e h' t' n m g'" "eng_schemas g' = eng_schemas ?g"
    "table_rows (eng_schemas ?g) t tb = xs @ zs" "table_rows (eng_schemas ?g) t' = (table_rows (eng_schemas ?g) t)(tb := xs @ row # zs)"
  have "padded_statement (eng_catalog ?g) (InsertStatement tb vs) = InsertStatement tb vs'"
    using sql(2,4) sound_schema [OF g(1) sql(3)] by (simp add: padded_statement_def del: pad_pk_literals.simps)
  then have "session_exec f k n m (sv_limit sv) (\<lambda>_. False) (rq_sql req) ?g = (Ok \<lparr>res_rows = [], res_affected = 0, res_schema = Some sch\<rparr>, g')"
    using session_exec_ok [OF sql(1), of "sv_limit sv" ?g] g(3) a(1) a(2) [OF s(4)] by (simp add: bindG_def)
  from handle_exec_plain [OF s(1-3,5,6) this disjI1 [OF refl], of now rnd deadline] obtain st' where
    "handle_exec sv now rnd (\<lambda>_. False) deadline (Some sid) (Some req) st =
      (Ok \<lparr>rp_status = 200, rp_cookie = None, rp_body = ExecBody (result_response \<lparr>res_rows = [], res_affected = 0, res_schema = Some sch\<rparr>)\<rparr>, st')"
    "map_of (st_sessions st') = (map_of (st_sessions st))(sid \<mapsto> \<lparr>se_sess = g', se_last = now\<rparr>)"
    by auto
  moreover have "result_response \<lparr>res_rows = [], res_affected = 0, res_schema = Some sch\<rparr> =
      \<lparr>rs_columns = map col_name (columns sch), rs_rows = [], rs_affected = 0, rs_tree = None, rs_wal = [], rs_error = NoError\<rparr>"
    by (simp add: result_response_def marshal_rows_def failed_response_def)
  moreover have "survives n m g' ((table_rows (eng_schemas ?g) t)(tb := xs @ row # zs))"
    using sound_survives [OF a(3)] by (simp only: a(4,6))
  ultimately show ?thesis
    using a(5) by (intro exI [of _ st'] exI [of _ g'] exI [of _ xs] exI [of _ zs]) simp
qed

text \<open>A request whose statement fails asks for the tree and the log in vain.\<close>

lemma handle_exec_failed:
  assumes "sid \<noteq> ''''" "map_of (st_sessions st) sid = Some ent" "sv_fuel sv = (f, k, n, m)"
    and "session_exec f k n m (sv_limit sv) ctx (rq_sql req) (se_sess ent) = (Err x, g)"
  shows "handle_exec sv now rnd ctx deadline (Some sid) (Some req) st =
    handle_exec sv now rnd ctx deadline (Some sid) (Some (req\<lparr>rq_table := '''', rq_wal := False\<rparr>)) st"
proof -
  obtain s1 where s1: "get_or_create (sv_store sv) now sid st = (Ok (se_sess ent), s1)"
    "map_of (st_sessions s1) = (map_of (st_sessions st))(sid \<mapsto> ent\<lparr>se_last := now\<rparr>)"
    using live_session [OF assms(2)] by blast
  then have "map_of (st_sessions s1) sid = Some (ent\<lparr>se_last := now\<rparr>)"
    by simp
  then obtain s2 where "on_session sid (session_exec f k n m (sv_limit sv) ctx (rq_sql req)) s1 = (Err x, s2)"
    using on_session_ok [of s1 sid "ent\<lparr>se_last := now\<rparr>" "session_exec f k n m (sv_limit sv) ctx (rq_sql req)" "Err x" g] assms(4) by auto
  then show ?thesis
    by (simp add: handle_exec_def session_id_cookie [OF assms(1)] assms(3) bindG_def attempt_def s1(1))
qed

text \<open>The statements that fail before a transaction begins.\<close>

definition refused :: "nat \<Rightarrow> u32 \<Rightarrow> string \<Rightarrow> engine \<Rightarrow> bool" where
  "refused f limit sql g \<longleftrightarrow> (\<exists>es. parse f sql = Some (Inl es)) \<or>
     (\<exists>s. parse f sql = Some (Inr (Some s)) \<and> (is_insert s \<and> limit \<le> num_pages (disk (store (eng_mgr g))) \<or>
        (\<exists>y. plan_statement (reader_of (eng_catalog g)) (padded_statement (eng_catalog g) s) = Err y)))"

lemma refused_changes_nothing: "refused f limit sql g \<Longrightarrow> \<exists>y. session_exec f k n m limit ctx sql g = (Err y, g)"
  by (auto simp: refused_def session_exec_def Let_def bindG_def)

text \<open>C27. A statement that fails is answered with status 200 and its error, or the note that it timed out when the deadline of the query has
  passed, without columns, rows, tree or log, even when the request asked for them. No other session and no directory is touched; a text that
  does not parse, a statement that cannot be planned and an \<open>INSERT\<close> at the limit of the pages do fail and change nothing in the
  database either.\<close>

theorem failed_statement_reported:
  assumes "sid \<noteq> ''''" "map_of (st_sessions st) sid = Some ent" "sv_fuel sv = (f, k, n, m)"
    and "(\<exists>x g. session_exec f k n m (sv_limit sv) ctx (rq_sql req) (se_sess ent) = (Err x, g)) \<or>
      refused f (sv_limit sv) (rq_sql req) (se_sess ent)"
  shows "\<exists>st' x g. session_exec f k n m (sv_limit sv) ctx (rq_sql req) (se_sess ent) = (Err x, g) \<and>
    handle_exec sv now rnd ctx deadline (Some sid) (Some req) st =
      (Ok \<lparr>rp_status = 200, rp_cookie = None,
        rp_body = ExecBody \<lparr>rs_columns = [], rs_rows = [], rs_affected = 0, rs_tree = None, rs_wal = [],
          rs_error = (if x = ECancelled \<and> deadline then TimedOut else ErrorText x)\<rparr>\<rparr>, st') \<and>
    map_of (st_sessions st') = (map_of (st_sessions st))(sid \<mapsto> \<lparr>se_sess = g, se_last = now\<rparr>) \<and> st_dirs st' = st_dirs st \<and>
    (refused f (sv_limit sv) (rq_sql req) (se_sess ent) \<longrightarrow> g = se_sess ent)"
proof -
  obtain y g where r: "session_exec f k n m (sv_limit sv) ctx (rq_sql req) (se_sess ent) = (Err y, g)"
    using assms(4) refused_changes_nothing by blast
  moreover have "g = se_sess ent" if "refused f (sv_limit sv) (rq_sql req) (se_sess ent)"
    using refused_changes_nothing [OF that, of k n m ctx] r by simp
  ultimately show ?thesis
    using handle_exec_plain [OF assms(1-3), of "req\<lparr>rq_table := '''', rq_wal := False\<rparr>" ctx "Err y" g undefined y now rnd deadline]
    unfolding handle_exec_failed [OF assms(1-3) r] by (auto simp: failed_response_def)
qed

text \<open>The list of the tables has every table of the catalog with its columns, sorted by name.\<close>

theorem tables_listed_sorted:
  assumes "sid \<noteq> ''''" "map_of (st_sessions st) sid = Some ent"
  shows "\<exists>st'. handle_tables sv now rnd (Some sid) st =
      (Ok \<lparr>rp_status = 200, rp_cookie = None, rp_body = TablesBody (map (\<lambda>tb. \<lparr>ti_name = tb,
         ti_columns = map col_name (columns (the (map_of (schemas (eng_catalog (se_sess ent))) tb)))\<rparr>)
         (sort (map fst (schemas (eng_catalog (se_sess ent))))))\<rparr>, st') \<and>
    map_of (st_sessions st') = (map_of (st_sessions st))(sid \<mapsto> ent\<lparr>se_last := now\<rparr>)"
proof -
  obtain s1 where s1: "get_or_create (sv_store sv) now sid st = (Ok (se_sess ent), s1)"
    "map_of (st_sessions s1) = (map_of (st_sessions st))(sid \<mapsto> ent\<lparr>se_last := now\<rparr>)"
    using live_session [OF assms(2)] by blast
  let ?infos = "map (\<lambda>tb. \<lparr>ti_name = tb, ti_columns = map col_name (columns (the (map_of (schemas (eng_catalog (se_sess ent))) tb)))\<rparr>)
         (sort (map fst (schemas (eng_catalog (se_sess ent)))))"
  have "session_tables (se_sess ent) = Ok ?infos"
    unfolding session_tables_def table_names_def
    by (rule session_tables_ok) (simp add: dom_map_of_conv_image_fst)
  moreover have "map_of (st_sessions s1) sid = Some (ent\<lparr>se_last := now\<rparr>)"
    by (simp add: s1(2))
  ultimately obtain s2 where "on_session sid (\<lambda>g. (session_tables g, g)) s1 = (Ok ?infos, s2)"
    "map_of (st_sessions s2) = (map_of (st_sessions s1))(sid \<mapsto> ent\<lparr>se_last := now\<rparr>)"
    using on_session_ok [of s1 sid "ent\<lparr>se_last := now\<rparr>" "\<lambda>g. (session_tables g, g)" "Ok ?infos" "se_sess ent"] by auto
  then show ?thesis
    using s1 by (simp add: handle_tables_def session_id_cookie [OF assms(1)] bindG_def attempt_def respond_def ret_def)
qed

text \<open>A reset starts over: the request after it opens a new database on an empty directory.\<close>

theorem reset_starts_over:
  assumes "sid \<noteq> ''''" "store_ok (sv_store sv) st" "map_of (st_sessions st) sid = Some ent" "close_ok (sv_store sv) (se_sess ent)"
    and "remove_ok (sv_store sv) (path_join (st_data_dir st) sid)" "session_open (made_dir (sv_store sv) (path_join (st_data_dir st) sid)) = Ok g"
  shows "\<exists>st1 st2. handle_reset sv rnd (Some sid) st = (Ok \<lparr>rp_status = 200, rp_cookie = None, rp_body = StatusBody ''reset''\<rparr>, st1) \<and>
    get_or_create (sv_store sv) now sid st1 = (Ok g, st2) \<and> map_of (st_sessions st2) = (map_of (st_sessions st))(sid \<mapsto> \<lparr>se_sess = g, se_last = now\<rparr>)"
proof -
  let ?p = "path_join (st_data_dir st) sid"
  let ?st = "st\<lparr>st_sessions := AList.delete sid (st_sessions st), st_dirs := (\<lambda>q. if inside ?p q then None else st_dirs st q)\<rparr>"
  have r: "handle_reset sv rnd (Some sid) st = (Ok \<lparr>rp_status = 200, rp_cookie = None, rp_body = StatusBody ''reset''\<rparr>, ?st)"
    using evict_succeeds [OF assms(3-5)] by (simp add: handle_reset_def session_id_cookie [OF assms(1)] bindG_def attempt_def respond_def ret_def reset_def)
  have "inside ?p ?p"
    by (cases ?p) simp
  then have "session_open (case st_dirs ?st (path_join (st_data_dir ?st) sid) of Some d \<Rightarrow> d | None \<Rightarrow> made_dir (sv_store sv) (path_join (st_data_dir ?st) sid)) = Ok g"
    using assms(6) by simp
  from opened_session [OF this, of now] obtain st2 where st2: "open_session (sv_store sv) now sid ?st = (Ok g, st2)"
    "st_sessions st2 = AList.update sid \<lparr>se_sess = g, se_last = now\<rparr> (AList.delete sid (st_sessions st))"
    by auto
  have "int (length (AList.delete sid (st_sessions st))) < max_sessions (sv_store sv)"
    using assms(2) length_delete [OF image_eqI [OF _ map_of_SomeD [OF assms(3)], of sid fst]] by (simp add: store_ok_def)
  then have "get_or_create (sv_store sv) now sid ?st = open_session (sv_store sv) now sid ?st"
    by (simp add: get_or_create_def AList.delete_conv' bindG_def ret_def)
  then show ?thesis
    using r st2 by (intro exI [of _ ?st] exI [of _ st2]) (simp add: update_conv' AList.delete_conv')
qed

text \<open>Only allowed origins get the header that lets a browser read the answer, each its own and never a wildcard, and a preflight request reaches no
  handler.\<close>

theorem cors_only_for_allowed:
  assumes "with_cors allowed next origin method st = (Ok (h, r), st')"
  shows "(allow_origin h = Some x \<longleftrightarrow> x = origin \<and> origin \<in> set allowed) \<and> (allow_credentials h \<longleftrightarrow> origin \<in> set allowed) \<and>
    (method = ''OPTIONS'' \<longrightarrow> rp_status r = 204 \<and> st' = st)"
  using assms by (auto simp: with_cors_def cors_for_def bindG_def respond_def ret_def split: if_splits prod.splits res.splits)

text \<open>The query interface of the database answers like the client: status 200 with the result of \<open>Exec\<close>, 400 and no change when the text cannot be parsed
  or planned, 500 when the execution fails.\<close>

theorem rest_agrees_with_client:
  assumes "sql \<noteq> ''''" "client_exec f k n m sql g = (r, g')" "r = Ok c \<or> r = Err x"
  shows "\<exists>resp. handle_query f k n m (\<lambda>_. False) (Some sql) g = (Ok resp, g') \<and>
    (case r of
       Ok c \<Rightarrow> resp = \<lparr>rp_status = 200, rp_cookie = None, rp_body = QueryBody (query_result (cl_result c))\<rparr>
     | Err x \<Rightarrow> rp_body resp = QueryBody (failed_query (ErrorText x)) \<and>
         (if \<exists>p. plan_text f sql g = Ok p then rp_status resp = 500 else rp_status resp = 400 \<and> g' = g))"
proof (cases "plan_text f sql g")
  case (Ok p)
  then show ?thesis
    using assms by (auto simp: client_exec_def handle_query_def bindG_def attempt_def respond_def ret_def split: prod.splits res.splits)
next
  case (Err y)
  then show ?thesis
    using assms by (auto simp: client_exec_def handle_query_def bindG_def attempt_def respond_def ret_def)
qed (use assms in \<open>auto simp: client_exec_def bindG_def\<close>)


subsection \<open>Witnesses\<close>

definition demo_server :: server where
  "demo_server = \<lparr>sv_secure_cookies = True, sv_store = demo_env, sv_limit = - 1, sv_fuel = (99, 2, 2, 2 ^ 32 + 1)\<rparr>"

definition eve_request :: exec_request where
  "eve_request = \<lparr>rq_sql = ''INSERT INTO users VALUES ( 9 , '' @ [CHR 0x27] @ ''Eve'' @ [CHR 0x27] @ '' ) '', rq_table = [], rq_wal = False\<rparr>"

lemma insert_request_survives_crash_witness:
  "\<exists>st st' g'. handle_exec demo_server 7 None (\<lambda>_. False) True (Some ''a'') (Some eve_request) st =
      (Ok \<lparr>rp_status = 200, rp_cookie = None, rp_body = ExecBody \<lparr>rs_columns = [''id'', ''name''], rs_rows = [], rs_affected = 0, rs_tree = None, rs_wal = [], rs_error = NoError\<rparr>\<rparr>, st') \<and>
    map_of (st_sessions st') ''a'' = Some \<lparr>se_sess = g', se_last = 7\<rparr> \<and> survives 2 (2 ^ 32 + 1) g' ((\<lambda>_. [])(''users'' := [eve_row]))"
proof -
  obtain g where g: "sound users_env 0 empty_tree 2 (2 ^ 32 + 1) g" "takes_row users_env 0 empty_tree 2 (2 ^ 32 + 1) g" "eng_schemas g = users_schemas"
    using users_created by metis
  let ?ent = "\<lparr>se_sess = g, se_last = 5\<rparr>"
  let ?st = "demo_store\<lparr>st_sessions := [(''a'', ?ent)]\<rparr>"
  note u = users_reads(1) users_insert_facts
  have f: "sv_fuel demo_server = (99, 2, 2, 2 ^ 32 + 1)" "(2 :: nat) \<le> 2"
    by (simp_all add: demo_server_def)
  have r: "rq_table eve_request = []" "\<not> rq_wal eve_request" and a: "''a'' \<noteq> []" "map_of (st_sessions ?st) ''a'' = Some ?ent"
    by (simp_all add: eve_request_def)
  have lim: "num_pages (disk (store (eng_mgr g))) < sv_limit demo_server"
  proof -
    have "unat (num_pages (disk (store (eng_mgr g)))) < unat no_page_id"
      using g(2) by (simp add: takes_row_def num_pages_def)
    moreover have "no_page_id = - 1"
      by (simp add: no_page_id_def)
    ultimately show ?thesis
      by (simp only: demo_server_def server.simps word_less_nat_alt)
  qed
  have sql: "parse 99 (rq_sql eve_request) = Some (Inr (Some (InsertStatement ''users'' users_insert)))" "''users'' \<noteq> []"
    by (simp_all add: eve_request_def texts(2) [simplified])
  have pad: "pad_pk_literals users_schema (InsertStatement ''users'' users_insert) = InsertStatement ''users'' users_insert"
    by code_simp
  have cols: "map col_name (columns users_schema) = [''id'', ''name'']"
    by code_simp
  have s: "se_sess ?ent = g"
    by simp
  note i = insert_request_survives_crash [OF a f r, unfolded s, OF g(1,2) lim sql u(1) [folded g(3)] pad u(2-5) u(6) [folded g(3)], of 7 None True]
  have e: "table_rows users_schemas empty_tree ''users'' = []" "(table_rows users_schemas empty_tree)(''users'' := [eve_row]) = (\<lambda>_. [])(''users'' := [eve_row])"
    unfolding users_insert_facts(6) by simp_all
  from i obtain st' g' xs zs where i: "handle_exec demo_server 7 None (\<lambda>_. False) True (Some ''a'') (Some eve_request) ?st =
      (Ok \<lparr>rp_status = 200, rp_cookie = None, rp_body = ExecBody \<lparr>rs_columns = map col_name (columns users_schema), rs_rows = [], rs_affected = 0,
        rs_tree = None, rs_wal = [], rs_error = NoError\<rparr>\<rparr>, st')"
    "map_of (st_sessions st') = (map_of (st_sessions ?st))(''a'' \<mapsto> \<lparr>se_sess = g', se_last = 7\<rparr>)"
    "table_rows users_schemas empty_tree ''users'' = xs @ zs" "survives 2 (2 ^ 32 + 1) g' ((table_rows users_schemas empty_tree)(''users'' := xs @ eve_row # zs))"
    unfolding g(3) by blast
  have x: "xs = []" "zs = []"
    using i(3) e(1) by simp_all
  have "survives 2 (2 ^ 32 + 1) g' ((\<lambda>_. [])(''users'' := [eve_row]))"
    using i(4) unfolding x append_Nil e(2) .
  then show ?thesis
    using i(1,2) unfolding cols by (intro exI [of _ ?st] exI [of _ st'] exI [of _ g']) simp
qed

lemma failed_statement_reported_witness:
  "\<exists>st'. handle_exec (demo_server\<lparr>sv_limit := 0\<rparr>) 7 None (\<lambda>_. False) True (Some ''a'') (Some (eve_request\<lparr>rq_wal := True\<rparr>)) demo_store =
    (Ok \<lparr>rp_status = 200, rp_cookie = None, rp_body = ExecBody \<lparr>rs_columns = [], rs_rows = [], rs_affected = 0, rs_tree = None, rs_wal = [],
       rs_error = ErrorText (EPageLimit 0)\<rparr>\<rparr>, st') \<and> map_of (st_sessions st') ''a'' = Some \<lparr>se_sess = users_engine, se_last = 7\<rparr>"
proof -
  let ?sv = "demo_server\<lparr>sv_limit := 0\<rparr>" and ?ent = "\<lparr>se_sess = users_engine, se_last = 5\<rparr>" and ?req = "eve_request\<lparr>rq_wal := True\<rparr>"
  have a: "''a'' \<noteq> []" "map_of (st_sessions demo_store) ''a'' = Some ?ent" and f: "sv_fuel ?sv = (99, 2, 2, 2 ^ 32 + 1)"
    by (simp_all add: demo_store_def demo_server_def)
  have p: "parse 99 (rq_sql ?req) = Some (Inr (Some (InsertStatement ''users'' users_insert)))"
    by (simp add: eve_request_def texts(2) [simplified])
  then have r: "refused 99 (sv_limit ?sv) (rq_sql ?req) (se_sess ?ent)"
    by (simp add: refused_def)
  have x: "session_exec 99 2 2 (2 ^ 32 + 1) (sv_limit ?sv) (\<lambda>_. False) (rq_sql ?req) (se_sess ?ent) = (Err (EPageLimit 0), users_engine)"
    using p by (simp add: session_exec_def Let_def)
  from failed_statement_reported [OF a f disjI2 [OF r], of "\<lambda>_. False" 7 None True] x show ?thesis
    by auto
qed

lemma tables_listed_sorted_witness:
  "\<exists>st'. handle_tables demo_server 7 None (Some ''a'') demo_store =
    (Ok \<lparr>rp_status = 200, rp_cookie = None, rp_body = TablesBody [\<lparr>ti_name = ''users'', ti_columns = [''id'', ''name'']\<rparr>]\<rparr>, st')"
proof -
  have a: "''a'' \<noteq> []" "map_of (st_sessions demo_store) ''a'' = Some \<lparr>se_sess = users_engine, se_last = 5\<rparr>"
    by (simp_all add: demo_store_def)
  have cols: "map col_name (columns users_schema) = [''id'', ''name'']"
    by code_simp
  from tables_listed_sorted [OF a, of demo_server 7 None] show ?thesis
    by (auto simp: users_catalog_def cols)
qed

lemma reset_starts_over_witness:
  "\<exists>g st1 st2. handle_reset demo_server None (Some ''a'') demo_store = (Ok \<lparr>rp_status = 200, rp_cookie = None, rp_body = StatusBody ''reset''\<rparr>, st1) \<and>
    get_or_create demo_env 8 ''a'' st1 = (Ok g, st2) \<and> eng_schemas g = (\<lambda>_. None)"
proof -
  obtain g where g: "open_db new_directory = Ok g" "eng_schemas g = (\<lambda>_. None)"
    using new_directory_opens by metis
  have a: "''a'' \<noteq> []" "store_ok (sv_store demo_server) demo_store" "map_of (st_sessions demo_store) ''a'' = Some \<lparr>se_sess = users_engine, se_last = 5\<rparr>"
    by (simp_all add: demo_store_def demo_server_def demo_env_def store_ok_def)
  have b: "close_ok (sv_store demo_server) (se_sess \<lparr>se_sess = users_engine, se_last = 5\<rparr>)"
    "remove_ok (sv_store demo_server) (path_join (st_data_dir demo_store) ''a'')"
    "session_open (made_dir (sv_store demo_server) (path_join (st_data_dir demo_store) ''a'')) = Ok g"
    by (simp_all add: demo_server_def demo_env_def session_open_client g(1))
  from reset_starts_over [OF a b, of None 8] show ?thesis
    using g(2) by (auto simp: demo_server_def)
qed

lemma cors_only_for_allowed_witness:
  "allow_origin (cors_for [''http://localhost:5173''] ''http://other'') \<noteq> Some ''http://other''"
proof -
  have "with_cors [''http://localhost:5173''] handle_health ''http://other'' ''GET'' users_engine =
      (Ok (cors_for [''http://localhost:5173''] ''http://other'', \<lparr>rp_status = 200, rp_cookie = None, rp_body = StatusBody ''ok''\<rparr>), users_engine)"
    by (simp add: with_cors_def handle_health_def respond_def bindG_def ret_def)
  from cors_only_for_allowed [OF this, of "''http://other''"] show ?thesis
    by simp
qed

lemma rest_agrees_with_client_witness:
  "\<exists>g g' resp. handle_query 99 2 2 (2 ^ 32 + 1) (\<lambda>_. False) (Some (''INSERT INTO users VALUES ( 9 , '' @ [CHR 0x27] @ ''Eve'' @ [CHR 0x27] @ '' ) '')) g = (Ok resp, g') \<and>
    rp_status resp = 200"
proof -
  obtain g where g: "sound users_env 0 empty_tree 2 (2 ^ 32 + 1) g" "takes_row users_env 0 empty_tree 2 (2 ^ 32 + 1) g" "eng_schemas g = users_schemas"
    using users_created by metis
  note u = users_reads(1) users_insert_facts
  obtain g' where "client_exec 99 2 2 (2 ^ 32 + 1) (''INSERT INTO users VALUES ( 9 , '' @ [CHR 0x27] @ ''Eve'' @ [CHR 0x27] @ '' ) '') g =
      (Ok (no_rows (Some users_schema)), g')"
    by (rule client_insert [OF g(1,2) texts(2) u(1) [folded g(3)] u(2-5) u(6) [folded g(3)]]) blast
  from rest_agrees_with_client [OF _ this disjI1 [OF refl]] obtain resp where
    "handle_query 99 2 2 (2 ^ 32 + 1) (\<lambda>_. False) (Some (''INSERT INTO users VALUES ( 9 , '' @ [CHR 0x27] @ ''Eve'' @ [CHR 0x27] @ '' ) '')) g = (Ok resp, g')"
    "resp = \<lparr>rp_status = 200, rp_cookie = None, rp_body = QueryBody (query_result (cl_result (no_rows (Some users_schema))))\<rparr>"
    unfolding res.case by blast
  then show ?thesis
    by (intro exI [of _ g] exI [of _ g'] exI [of _ resp] conjI) simp_all
qed


end
