(* ===== verification/Engine_Locks.thy ===== *)
theory Engine_Locks
  imports Engine_Write
begin

text \<open>
  The table locks over many statements. Executing a plan leaves the mutexes alone, taking the locks adds to them, and a
  transaction that ends releases what it has taken and nothing else; so a statement never releases a lock that was held before
  it. After a commit that fails the locks of its transaction are held by nobody who could release them.
\<close>

section \<open>Computations that leave a part of the state alone\<close>

definition steady :: "('s \<Rightarrow> 'v) \<Rightarrow> ('s, 'a) go \<Rightarrow> bool" where
  "steady v f \<longleftrightarrow> (\<forall>s. v (snd (f s)) = v s)"

lemma steadyI: "(\<And>s. v (snd (f s)) = v s) \<Longrightarrow> steady v f"
  by (simp add: steady_def)

lemma steadyD: "steady v f \<Longrightarrow> f s = (x, s') \<Longrightarrow> v s' = v s"
  unfolding steady_def by (metis snd_conv)

lemma steady_simps [simp]:
  "steady v (ret a)" "steady v (fail x)" "steady v stuck" "steady v (pureG r)" "steady v (Pair y)"
  by (simp_all add: steady_def ret_def fail_def stuck_def pureG_def)

lemma steady_bind [intro!]:
  assumes "steady v f" "\<And>a. steady v (h a)"
  shows "steady v (bindG f h)"
proof (rule steadyI)
  fix s
  obtain x s' where f: "f s = (x, s')"
    by (cases "f s")
  have "v s' = v s"
    by (rule steadyD [OF assms(1) f])
  with assms(2) show "v (snd (bindG f h s)) = v s"
    by (cases x) (simp_all add: bindG_def f steady_def)
qed

lemma steady_option: "steady v f \<Longrightarrow> (\<And>a. steady v (h a)) \<Longrightarrow> steady v (case x of None \<Rightarrow> f | Some a \<Rightarrow> h a)"
  by (cases x) auto

text \<open>The executors change the state only through the operations of the repository.\<close>

locale steady_repository =
  fixes R :: "'s repository" and v :: "'s \<Rightarrow> 'v"
  assumes find: "steady v (repo_find_by_pk R t pk)"
    and scan: "steady v (repo_scan R t)"
    and insert: "steady v (repo_insert R t r txn)"
    and update: "steady v (repo_update R t pk r txn)"
    and delete: "steady v (repo_delete R t pk txn)"
begin

lemma update_rows_steady: "steady v (update_rows R t sch as wh txn rs)"
  by (induction rs) (auto intro!: update)

lemma delete_rows_steady: "steady v (delete_rows R t sch wh txn rs)"
  by (induction rs) (auto intro!: delete)

lemma next_steady: "steady v (exec_next n R e) \<and> steady v (drain n R e)"
proof (induction n arbitrary: e)
  case (Suc n)
  have "steady v (exec_next (Suc n) R e)"
  proof (cases e)
    case (IndexScanExecutor t sch pe fin)
    then show ?thesis
      by (cases pe) (auto simp: index_scan_next_def intro!: find)
  qed (use Suc in \<open>auto simp: seq_scan_next_def filter_next_def projection_next_def join_next_def sort_next_def limit_next_def
    insert_next_def update_next_def delete_next_def case_prod_beta intro!: steady_option scan insert update_rows_steady delete_rows_steady\<close>)
  moreover have "steady v (drain (Suc n) R e)"
    using Suc by (auto simp: case_prod_beta intro!: steady_option)
  ultimately show ?case ..
qed simp

lemma result_loop_steady: "steady v (result_loop n R ctx i e)"
  by (induction n arbitrary: i e) (auto simp: case_prod_beta next_steady intro!: steady_option)

lemma execute_steady: "steady v (execute_locked n R ctx p txn)"
  by (auto simp: execute_locked_def intro!: result_loop_steady)

end

abbreviation mutexes_of :: "engine \<Rightarrow> string \<Rightarrow> rwmutex" where
  "mutexes_of g \<equiv> table_locks (eng_mgr g)"

lemma on_repo_steady: "steady mutexes_of (on_repo f)"
  by (rule steadyI) (simp add: on_repo_def split: prod.split)

interpretation engine_steady: steady_repository "engine_repository n m" mutexes_of for n m
  by unfold_locales (simp_all add: engine_repository_def Let_def on_repo_steady)

section \<open>The locks of one statement\<close>

text \<open>The mutexes are those of \<open>L\<close> and what the transaction has taken itself.\<close>

definition call_locks :: "(string \<Rightarrow> rwmutex) \<Rightarrow> call \<Rightarrow> bool" where
  "call_locks L s \<longleftrightarrow> tstate (c_txn s) = StateActive \<and> locks_ok (locks (c_txn s)) \<and>
     (\<forall>tb. readers (mutexes_of (c_engine s) tb) = readers (L tb) + of_bool (lock_entry ReadLock tb \<in> set (locks (c_txn s)))) \<and>
     (\<forall>tb. writer (mutexes_of (c_engine s) tb) \<longleftrightarrow> writer (L tb) \<or> lock_entry WriteLock tb \<in> set (locks (c_txn s))) \<and>
     (\<forall>tb. lock_entry WriteLock tb \<in> set (locks (c_txn s)) \<longrightarrow> \<not> writer (L tb))"

definition more_locked :: "(string \<Rightarrow> rwmutex) \<Rightarrow> (string \<Rightarrow> rwmutex) \<Rightarrow> bool" where
  "more_locked L L' \<longleftrightarrow> (\<forall>tb. readers (L tb) \<le> readers (L' tb) \<and> (writer (L tb) \<longrightarrow> writer (L' tb)))"

lemma more_locked_refl [simp]: "more_locked L L"
  by (simp add: more_locked_def)

lemma more_locked_trans: "more_locked L L' \<Longrightarrow> more_locked L' L'' \<Longrightarrow> more_locked L L''"
  unfolding more_locked_def by (meson order.trans)

lemma call_locks_more: "call_locks L s \<Longrightarrow> more_locked L (mutexes_of (c_engine s))"
  by (simp add: call_locks_def more_locked_def)

lemma lock_table_keeps:
  assumes "call_locks L s" "lock_table md tb s = (x, s')"
  shows "call_locks L s'"
proof -
  let ?t = "c_txn s"
  consider "s' = s" | "\<exists>ws. s' = s\<lparr>c_engine := (c_engine s)\<lparr>eng_waiting := ws\<rparr>\<rparr>"
    | "lock_entry_check md ?t tb = None" "lock_free md tb (c_engine s)"
      "s' = s\<lparr>c_txn := ?t\<lparr>locks := locks ?t @ [lock_entry md tb]\<rparr>, c_engine := (c_engine s)\<lparr>eng_mgr := (eng_mgr (c_engine s))
         \<lparr>table_locks := (mutexes_of (c_engine s))(tb := acquire md (mutexes_of (c_engine s) tb))\<rparr>\<rparr>\<rparr>"
    using assms(2) by (cases "lock_entry_check md ?t tb") (auto simp: lock_table_def Let_def split: if_splits res.splits)
  then show ?thesis
  proof cases
    case 3
    have new: "lock_entry md tb \<notin> set (locks ?t)"
      using 3(1) by (auto simp: lock_entry_check_def holds_def split: if_splits lock_mode.splits)
    have "can_acquire md (mutexes_of (c_engine s) tb)"
      using 3(2) by (simp add: lock_free_def)
    with assms(1) new show ?thesis
      by (cases md) (auto simp: call_locks_def 3(3) locks_ok_def acquire_def can_acquire_def)
  qed (use assms(1) in \<open>auto simp: call_locks_def\<close>)
qed

lemma read_lock_tables_keeps: "call_locks L s \<Longrightarrow> read_lock_tables ts s = (x, s') \<Longrightarrow> call_locks L s'"
proof (induction ts arbitrary: s)
  case (Cons t ts)
  obtain y u where u: "lock_table ReadLock t s = (y, u)"
    by (cases "lock_table ReadLock t s")
  with lock_table_keeps [OF Cons.prems(1) u] Cons show ?case
    by (cases y) (auto simp: bindG_def)
qed (simp add: ret_def)

lemma lock_for_keeps: "call_locks L s \<Longrightarrow> lock_for p s = (x, s') \<Longrightarrow> call_locks L s'"
  by (cases p) (auto dest: lock_table_keeps read_lock_tables_keeps simp del: read_lock_tables.simps)

lemma exec_locked_keeps:
  assumes "call_locks L s" "exec_locked_in_txn k n m ctx p s = (x, s')"
  shows "call_locks L s'"
proof -
  obtain y u where u: "lock_for p s = (y, u)"
    by (cases "lock_for p s")
  have l: "call_locks L u"
    by (rule lock_for_keeps [OF assms(1) u])
  have "c_txn s' = c_txn u \<and> mutexes_of (c_engine s') = mutexes_of (c_engine u)"
    using assms(2) u steadyD [OF engine_steady.execute_steady]
    by (cases y) (auto simp: exec_locked_in_txn_def bindG_def on_engine_def split: prod.splits)
  with l show ?thesis
    by (simp add: call_locks_def)
qed

text \<open>The end of a transaction: its locks stay, or all of them are released.\<close>

definition ends_locks :: "txn \<Rightarrow> (manager, txn) go \<Rightarrow> bool" where
  "ends_locks t f \<longleftrightarrow>
     (\<forall>m. table_locks (snd (f m)) = table_locks m \<or> unlock_all (locks t) (table_locks m) = Some (table_locks (snd (f m))))"

lemma ends_locks_steady: "steady table_locks f \<Longrightarrow> ends_locks t f"
  by (simp add: ends_locks_def steady_def)

lemma ends_locks_bind:
  assumes "steady table_locks f" "\<And>a. ends_locks t (h a)"
  shows "ends_locks t (bindG f h)"
  unfolding ends_locks_def
proof
  fix m
  obtain x m' where f: "f m = (x, m')"
    by (cases "f m")
  have m: "table_locks m' = table_locks m"
    by (rule steadyD [OF assms(1) f])
  have "table_locks (snd (h a m')) = table_locks m \<or> unlock_all (locks t) (table_locks m) = Some (table_locks (snd (h a m')))" for a
    using assms(2) [of a] m unfolding ends_locks_def by metis
  with m show "table_locks (snd (bindG f h m)) = table_locks m \<or>
      unlock_all (locks t) (table_locks m) = Some (table_locks (snd (bindG f h m)))"
    by (cases x) (simp_all add: bindG_def f)
qed

lemma on_store_steady: "steady table_locks (on_store f)"
  by (rule steadyI) (simp add: on_store_def split: prod.split)

lemma unlock_ends: "ends_locks t (unlock (t\<lparr>tstate := st\<rparr>))"
  by (auto simp: ends_locks_def unlock_def split: option.split)

lemma commit_ends: "ends_locks t (commit t)" and rollback_ends: "ends_locks t (rollback t)"
  by (simp_all add: commit_def rollback_def ends_locks_steady) (intro impI ends_locks_bind on_store_steady unlock_ends)+

lemma end_keeps:
  assumes s: "call_locks L s" and f: "ends_locks (c_txn s) f" "on_mgr f (c_engine s) = (x, g)"
  shows "more_locked L (mutexes_of g)"
proof -
  let ?es = "set (locks (c_txn s))"
  have "mutexes_of g = mutexes_of (c_engine s) \<or> unlock_all (locks (c_txn s)) (mutexes_of (c_engine s)) = Some (mutexes_of g)"
    using f by (auto simp: on_mgr_def ends_locks_def split: prod.splits) (metis snd_conv)+
  then show ?thesis
  proof
    assume u: "unlock_all (locks (c_txn s)) (mutexes_of (c_engine s)) = Some (mutexes_of g)"
    have held: "locks_held (c_txn s) (mutexes_of (c_engine s))"
      using s by (auto simp: locks_held_def call_locks_def)
    obtain L' where L': "unlock (c_txn s) (eng_mgr (c_engine s)) = (Ok ((c_txn s)\<lparr>locks := []\<rparr>), (eng_mgr (c_engine s))\<lparr>table_locks := L'\<rparr>)"
      "\<And>tb. readers (L' tb) = readers (mutexes_of (c_engine s) tb) - of_bool (lock_entry ReadLock tb \<in> ?es)"
      "\<And>tb. writer (L' tb) \<longleftrightarrow> writer (mutexes_of (c_engine s) tb) \<and> lock_entry WriteLock tb \<notin> ?es"
      using unlock_ok [OF held] by metis
    have "(eng_mgr (c_engine s))\<lparr>table_locks := mutexes_of g\<rparr> = (eng_mgr (c_engine s))\<lparr>table_locks := L'\<rparr>"
      using L'(1) u by (simp add: unlock_def)
    then have "mutexes_of g = L'"
      by (metis manager.select_convs(3) manager.surjective manager.update_convs(3))
    with L'(2,3) s show ?thesis
      by (auto simp: more_locked_def call_locks_def)
  qed (use call_locks_more [OF s] in simp)
qed

text \<open>A statement of a transaction of its own releases no lock that was held before it.\<close>

lemma begun_locks: "on_mgr begin_txn g = (Ok \<lparr>txn_id = next_txn_id (eng_mgr g) + 1, tstate = StateActive, locks = []\<rparr>, begun g)"
  by (simp add: on_mgr_def begin_txn_def begun_def Let_def)

definition fresh_call :: "engine \<Rightarrow> call" where
  "fresh_call g = \<lparr>c_engine = begun g, c_txn = \<lparr>txn_id = next_txn_id (eng_mgr g) + 1, tstate = StateActive, locks = []\<rparr>\<rparr>"

lemma fresh_call_locks: "call_locks (mutexes_of g) (fresh_call g)"
  by (simp add: call_locks_def fresh_call_def locks_ok_def)

lemma engine_execute_run:
  "execute_ddl_or_marker p = None \<Longrightarrow> engine_execute k n m ctx p g =
     (case exec_locked_in_txn k n m ctx p (fresh_call g) of
        (Ok res, s) \<Rightarrow> bindG (on_mgr (commit (c_txn s))) (\<lambda>_. ret res) (c_engine s)
      | (Err e, s) \<Rightarrow> (Err e, snd (on_mgr (rollback (c_txn s)) (c_engine s)))
      | (Panic, s) \<Rightarrow> (Panic, c_engine s)
      | (Stuck, s) \<Rightarrow> (Stuck, c_engine s))"
  by (simp add: engine_execute_def bindG_def [of "on_mgr begin_txn"] begun_locks fresh_call_def)

lemma on_catalog_steady: "steady mutexes_of (on_catalog f)"
  by (rule steadyI) (simp add: on_catalog_def split: prod.split)

lemma ddl_steady: "execute_ddl_or_marker p = Some f \<Longrightarrow> steady mutexes_of f"
  by (cases p) (auto intro!: on_repo_steady on_catalog_steady)

lemma bind_ret_state: "snd (bindG f (\<lambda>_. ret res) s) = snd (f s)"
  by (cases "f s"; cases "fst (f s)") (auto simp: bindG_def ret_def)

lemma engine_execute_more: "more_locked (mutexes_of g) (mutexes_of (snd (engine_execute k n m ctx p g)))"
proof (cases "execute_ddl_or_marker p")
  case None
  obtain x s where x: "exec_locked_in_txn k n m ctx p (fresh_call g) = (x, s)"
    by (cases "exec_locked_in_txn k n m ctx p (fresh_call g)")
  have s: "call_locks (mutexes_of g) s"
    by (rule exec_locked_keeps [OF fresh_call_locks x])
  have ends: "more_locked (mutexes_of g) (mutexes_of (snd (on_mgr f (c_engine s))))" if "ends_locks (c_txn s) f" for f
    by (rule end_keeps [OF s that, of "fst (on_mgr f (c_engine s))"]) simp
  show ?thesis
    using ends [OF commit_ends] ends [OF rollback_ends] call_locks_more [OF s]
    by (cases x) (simp_all add: engine_execute_run [OF None] x bind_ret_state)
next
  case (Some f)
  then show ?thesis
    using ddl_steady [OF Some] by (simp add: engine_execute_def steady_def)
qed

text \<open>A list of statements, each with its fuel and its context, whatever becomes of each.\<close>

type_synonym request_args = "nat \<times> nat \<times> nat \<times> (nat \<Rightarrow> bool) \<times> plan"

fun run_later :: "request_args list \<Rightarrow> engine \<Rightarrow> engine" where
  "run_later [] g = g"
| "run_later ((k, n, m, ctx, p) # ps) g = run_later ps (snd (engine_execute k n m ctx p g))"

lemma run_later_more: "more_locked (mutexes_of g) (mutexes_of (run_later ps g))"
proof (induction ps g rule: run_later.induct)
  case (2 k n m ctx p ps g)
  then show ?case
    using more_locked_trans [OF engine_execute_more] by simp
qed simp

section \<open>A failed commit\<close>

fun changes_table :: "plan \<Rightarrow> string option" where
  "changes_table (InsertNode t sch vs) = Some t"
| "changes_table (UpdateNode t sch as wh) = Some t"
| "changes_table (DeleteNode t sch wh) = Some t"
| "changes_table _ = None"

lemma changes_table_facts:
  assumes "changes_table p = Some tb"
  shows "lock_for p = lock_table WriteLock tb" "execute_ddl_or_marker p = None" "\<not> query p" "locked_tables p = [tb]"
  using assms by (cases p; simp)+

lemma query_facts:
  assumes "query p"
  shows "execute_ddl_or_marker p = None" "locked_tables p = table_names_of p"
  using assms by (cases p; simp)+

lemma lock_table_times_out:
  assumes "lock_entry ReadLock tb \<notin> set (locks (c_txn s))" "lock_entry WriteLock tb \<notin> set (locks (c_txn s))"
    and "\<not> can_acquire md (mutexes_of (c_engine s) tb)"
  shows "\<exists>s'. lock_table md tb s = (Err (ELockTimeout (txn_id (c_txn s)) tb), s')"
  using assms by (cases md) (auto simp: lock_table_def Let_def lock_entry_check_def holds_def lock_free_def)

lemma change_times_out:
  assumes "changes_table q = Some tb" "\<not> can_acquire WriteLock (mutexes_of g tb)"
  shows "fst (engine_execute k n m ctx q g) = Err (ELockTimeout (next_txn_id (eng_mgr g) + 1) tb)"
proof -
  obtain s where "lock_table WriteLock tb (fresh_call g) = (Err (ELockTimeout (next_txn_id (eng_mgr g) + 1) tb), s)"
    using lock_table_times_out [of tb "fresh_call g" WriteLock] assms(2) by (auto simp: fresh_call_def)
  then show ?thesis
    by (simp add: engine_execute_run changes_table_facts [OF assms(1)] exec_locked_in_txn_def bindG_def)
qed

lemma read_lock_tables_time_out:
  assumes "tb \<in> set ts" "writer (mutexes_of (c_engine s) tb)"
    "lock_entry ReadLock tb \<notin> set (locks (c_txn s))" "lock_entry WriteLock tb \<notin> set (locks (c_txn s))"
  shows "\<exists>a s'. read_lock_tables ts s = (Err (ELockTimeout (txn_id (c_txn s)) a), s')"
  using assms
proof (induction ts arbitrary: s)
  case (Cons t ts)
  show ?case
  proof (cases "t = tb")
    case True
    then show ?thesis
      using lock_table_times_out [of tb s ReadLock] Cons.prems by (auto simp: bindG_def can_acquire_def)
  next
    case False
    then have "tb \<in> set ts"
      using Cons.prems(1) by simp
    note IH = Cons.IH [OF this]
    have "(\<exists>s'. lock_table ReadLock t s = (Ok (), s') \<and> writer (mutexes_of (c_engine s') tb) \<and> txn_id (c_txn s') = txn_id (c_txn s) \<and>
        lock_entry ReadLock tb \<notin> set (locks (c_txn s')) \<and> lock_entry WriteLock tb \<notin> set (locks (c_txn s'))) \<or>
        (\<exists>s'. lock_table ReadLock t s = (Err (ELockTimeout (txn_id (c_txn s)) t), s'))"
      using False Cons.prems(2-4) by (auto simp: lock_table_def Let_def lock_entry_check_def holds_def)
    then show ?thesis
      using IH by (fastforce simp: bindG_def)
  qed
qed simp

lemma query_times_out:
  assumes "query q" "tb \<in> set (table_names_of q)" "writer (mutexes_of g tb)"
  shows "\<exists>a. fst (engine_execute k n m ctx q g) = Err (ELockTimeout (next_txn_id (eng_mgr g) + 1) a)"
proof -
  obtain a s where "read_lock_tables (table_names_of q) (fresh_call g) = (Err (ELockTimeout (next_txn_id (eng_mgr g) + 1) a), s)"
    using read_lock_tables_time_out [of tb "table_names_of q" "fresh_call g"] assms(2,3) by (auto simp: fresh_call_def)
  then show ?thesis
    by (simp add: engine_execute_run query_facts(1) [OF assms(1)] exec_locked_in_txn_def bindG_def lock_for_query [OF assms(1)])
qed

text \<open>What a statement has locked just before its commit.\<close>

lemma ran_locked:
  assumes "exec_locked_in_txn k n m ctx p (fresh_call g) = (Ok res, s)" "query p \<or> changes_table p \<noteq> None" "tb \<in> set (locked_tables p)"
  shows "tstate (c_txn s) = StateActive" "\<not> can_acquire WriteLock (mutexes_of (c_engine s) tb)"
    "\<not> query p \<longrightarrow> writer (mutexes_of (c_engine s) tb)"
proof -
  have s: "call_locks (mutexes_of g) s"
    by (rule exec_locked_keeps [OF fresh_call_locks assms(1)])
  then show "tstate (c_txn s) = StateActive"
    by (simp add: call_locks_def)
  obtain u where u: "lock_for p (fresh_call g) = (Ok (), u)" "c_txn s = c_txn u"
    using assms(1) by (cases "lock_for p (fresh_call g)"; cases "fst (lock_for p (fresh_call g))")
      (auto simp: exec_locked_in_txn_def bindG_def on_engine_def split: prod.splits)
  have "lock_entry WriteLock tb \<in> set (locks (c_txn u)) \<or> query p \<and> lock_entry ReadLock tb \<in> set (locks (c_txn u))"
  proof (cases "query p")
    case True
    then show ?thesis
      using read_lock_tables_held [of "table_names_of p" "fresh_call g" u] u(1) assms(3) by (auto simp: lock_for_query query_facts)
  next
    case False
    then obtain t where "changes_table p = Some t"
      using assms(2) by blast
    then show ?thesis
      using lock_table_held(1) [of WriteLock t "fresh_call g" u] u(1) assms(3) by (auto simp: changes_table_facts)
  qed
  then show "\<not> can_acquire WriteLock (mutexes_of (c_engine s) tb)" "\<not> query p \<longrightarrow> writer (mutexes_of (c_engine s) tb)"
    using s by (auto simp: u(2) call_locks_def can_acquire_def)
qed

text \<open>C36. A failed commit: when the log cannot be written, the engine reports the error of \<open>Commit\<close> without rolling back,
  for a query as for a change, and the locks of the statement are never released. Whatever statements follow, with whatever
  outcome, none of its tables can be locked for writing, so that every later change of one of them times out; after a change
  that failed in this way the tables cannot be locked for reading either, and every later query of them times out.\<close>

theorem failed_commit_keeps_locks:
  assumes "query p \<or> changes_table p \<noteq> None" "exec_locked_in_txn k n m ctx p (fresh_call g) = (Ok res, s)"
    and "\<forall>off. \<not> wr_ok (wfile (wal (store (eng_mgr (c_engine s))))) off"
  shows "\<exists>g'. engine_execute k n m ctx p g = (Err EIO, g') \<and>
    (\<forall>later. \<forall>tb \<in> set (locked_tables p). \<forall>k' n' m' ctx' q. let g'' = run_later later g' in
      \<not> can_acquire WriteLock (table_locks (eng_mgr g'') tb) \<and>
      (changes_table q = Some tb \<longrightarrow>
        fst (engine_execute k' n' m' ctx' q g'') = Err (ELockTimeout (next_txn_id (eng_mgr g'') + 1) tb)) \<and>
      (\<not> query p \<longrightarrow> \<not> can_acquire ReadLock (table_locks (eng_mgr g'') tb) \<and>
        (query q \<and> tb \<in> set (table_names_of q) \<longrightarrow>
          (\<exists>a. fst (engine_execute k' n' m' ctx' q g'') = Err (ELockTimeout (next_txn_id (eng_mgr g'') + 1) a)))))"
proof -
  have d: "execute_ddl_or_marker p = None"
    using assms(1) query_facts(1) changes_table_facts(2) by auto
  have s: "call_locks (mutexes_of g) s"
    by (rule exec_locked_keeps [OF fresh_call_locks assms(2)])
  have "tstate (c_txn s) = StateActive"
    using s by (simp add: call_locks_def)
  then obtain m' where c: "commit (c_txn s) (eng_mgr (c_engine s)) = (Err EIO, m')" "table_locks m' = mutexes_of (c_engine s)"
    by (rule commit_write_fails [OF _ assms(3)])
  let ?g' = "(c_engine s)\<lparr>eng_mgr := m'\<rparr>"
  have ex: "engine_execute k n m ctx p g = (Err EIO, ?g')"
    by (simp add: engine_execute_run [OF d] assms(2) bindG_def on_mgr_def c(1))
  have more: "more_locked (mutexes_of (c_engine s)) (mutexes_of (run_later later ?g'))" for later
    using run_later_more [of ?g' later] by (simp add: c(2))
  have stays: "\<not> can_acquire WriteLock (mutexes_of (run_later later ?g') tb) \<and> (\<not> query p \<longrightarrow> writer (mutexes_of (run_later later ?g') tb))"
    if tb: "tb \<in> set (locked_tables p)" for tb later
  proof -
    have "readers (mutexes_of (c_engine s) tb) \<le> readers (mutexes_of (run_later later ?g') tb)"
      "writer (mutexes_of (c_engine s) tb) \<longrightarrow> writer (mutexes_of (run_later later ?g') tb)"
      using more [of later] unfolding more_locked_def by blast+
    with ran_locked(2,3) [OF assms(2,1) tb] show ?thesis
      by (auto simp: can_acquire_def)
  qed
  have "let g'' = run_later later ?g' in
      \<not> can_acquire WriteLock (table_locks (eng_mgr g'') tb) \<and>
      (changes_table q = Some tb \<longrightarrow>
        fst (engine_execute k' n' m' ctx' q g'') = Err (ELockTimeout (next_txn_id (eng_mgr g'') + 1) tb)) \<and>
      (\<not> query p \<longrightarrow> \<not> can_acquire ReadLock (table_locks (eng_mgr g'') tb) \<and>
        (query q \<and> tb \<in> set (table_names_of q) \<longrightarrow>
          (\<exists>a. fst (engine_execute k' n' m' ctx' q g'') = Err (ELockTimeout (next_txn_id (eng_mgr g'') + 1) a))))"
    if tb: "tb \<in> set (locked_tables p)" for tb later q k' n' m' ctx'
    using stays [OF tb, of later] change_times_out [of q tb] query_times_out [of q tb] unfolding Let_def can_acquire_def by blast
  with ex show ?thesis
    by blast
qed

text \<open>A database whose log file cannot be written: an \<open>INSERT\<close> runs up to its commit.\<close>

definition read_only_wal :: wal_mgr where
  "read_only_wal = sample_wal\<lparr>wfile := sample_file\<lparr>wr_ok := \<lambda>_. False\<rparr>\<rparr>"

definition broken_engine :: engine where
  "broken_engine = users_engine\<lparr>eng_mgr := new_manager (users_storage\<lparr>wal := read_only_wal\<rparr>)\<rparr>"

lemma broken_writable: "writable users_env 0 users_tree users_schemas 2 (2 ^ 32 + 1) (repo_view broken_engine)"
proof -
  let ?s = "users_storage\<lparr>wal := read_only_wal\<rparr>"
  have w: "wal_holds read_only_wal [] []"
    by (simp add: wal_holds_def read_only_wal_def sample_wal_def readable_def sample_file_def)
  have v: "view ?s = view users_storage" "owner ?s = owner users_storage" "pins ?s = pins users_storage"
    by (simp_all add: view_def owner_def pins_def frame_at_def fun_eq_iff)
  have o: "obs ?s = (obs users_storage)\<lparr>o_file := wfile read_only_wal\<rparr>"
    using log_records_holds [OF w] log_records_holds [OF sample_wal(1)] by (simp add: obs_def v users_storage_facts cong: if_cong)
  have "pool_ok {} ?s"
    using users_ready by (simp add: reader_ready_def db_ok_def)
  then have "db_ok {} ?s"
    using w unfolding db_ok_def by (auto simp: images_ok_def logged_def safe_def images_def committed_images_def v users_storage_facts intro!: exI [of _ "[]"])
  then have "reader_ready ?s"
    using users_ready by (simp add: reader_ready_def o room_def o_busy_def)
  moreover have "btree_ok users_env 0 users_tree (obs ?s)"
    using users_tree_ok by (simp add: btree_ok_def o)
  moreover have "bt_store (repo_view broken_engine) = ?s" "open_schemas (repo_view broken_engine) = users_schemas"
    by (simp_all add: repo_view_def broken_engine_def new_manager_def users_schemas_def)
  ultimately show ?thesis
    using users_writable by (simp add: writable_def repo_ok_def o room_def o_busy_def users_repository_def)
qed

theorem failed_commit_keeps_locks_witness:
  "\<exists>g'. engine_execute 2 2 (2 ^ 32 + 1) (\<lambda>_. False) (InsertNode ''users'' users_schema [IntLiteral 9, StringLiteral ''Eve'']) broken_engine =
      (Err EIO, g') \<and>
    (\<forall>later k n m ctx. \<exists>i a. fst (engine_execute k n m ctx (SequentialScanNode ''users'' users_schema) (run_later later g')) =
      Err (ELockTimeout i a))"
proof -
  let ?p = "InsertNode ''users'' users_schema [IntLiteral 9, StringLiteral ''Eve'']" and ?g = broken_engine and ?m = "2 ^ 32 + 1"
  let ?L = "(\<lambda>_. free_mutex)(''users'' := \<lparr>readers = 0, writer = True\<rparr>)"
  have u: "table_locks (eng_mgr ?g) = (\<lambda>_. free_mutex)" "eng_waiting ?g = []" "next_txn_id (eng_mgr ?g) = 0"
    "store (eng_mgr ?g) = users_storage\<lparr>wal := read_only_wal\<rparr>"
    by (simp_all add: broken_engine_def new_manager_def users_engine_def)
  have new: "table_find users_schemas users_tree ''users'' (IntValue 9) = None"
    using users_rows(2) by (simp add: users_schemas_def)
  have len: "length ''Eve'' < 20"
    by simp
  obtain r where r: "insert_into 2 ''users'' eve_row 1 (repo_view ?g) = (Ok (), r)"
    "put_row users_env users_schemas 0 users_tree 2 ?m ''users'' (IntValue 9) eve_row [] 1 (repo_view ?g) r"
    using insert_into_ok [OF broken_writable _ users_storable [OF len] users_key new] unfolding eve_row_def
    by (auto simp: users_schemas_def)
  have f: "\<forall>off. \<not> wr_ok (wfile (wal (bt_store r))) off"
  proof -
    have "o_file (obs (bt_store r)) = o_file (obs (bt_store (repo_view ?g)))"
      using r(2) by (auto simp: put_row_def kept_def users_schemas_def simp del: obs_fields)
    then show ?thesis
      by (simp add: repo_view_def u(4) read_only_wal_def)
  qed
  have lk: "lock_for ?p (fresh_call ?g) = (Ok (), \<lparr>c_engine = locked ?L ?g, c_txn = active 1 [lock_entry WriteLock ''users'']\<rparr>)"
    by (simp add: fresh_call_def u lock_table_def lock_entry_check_def holds_def Let_def lock_free_def can_acquire_def acquire_def
      free_mutex_def locked_def)
  have "execute_locked 2 (engine_repository 2 ?m) (\<lambda>_. False) ?p 1 (locked ?L ?g) =
      (Ok \<lparr>res_rows = [], res_affected = 0, res_schema = Some users_schema\<rparr>, put_repo r (locked ?L ?g))"
    using r(1) by (intro insert_runs [of _ eve_row]) (simp_all add: eve_row_def)
  then have "exec_locked_in_txn 2 2 ?m (\<lambda>_. False) ?p (fresh_call ?g) =
      (Ok \<lparr>res_rows = [], res_affected = 0, res_schema = Some users_schema\<rparr>,
       \<lparr>c_engine = put_repo r (locked ?L ?g), c_txn = active 1 [lock_entry WriteLock ''users'']\<rparr>)"
    by (simp only: exec_locked_in_txn_def bindG_def lk) (simp add: on_engine_def)
  from failed_commit_keeps_locks [OF _ this] f obtain g' where g': "engine_execute 2 2 ?m (\<lambda>_. False) ?p ?g = (Err EIO, g')"
    "\<forall>later k n m ctx. \<exists>a. fst (engine_execute k n m ctx (SequentialScanNode ''users'' users_schema) (run_later later g')) =
      Err (ELockTimeout (next_txn_id (eng_mgr (run_later later g')) + 1) a)"
    by (auto simp: Let_def)
  then show ?thesis
    by blast
qed

end
