(* ===== verification/Spec2Isabelle.thy ===== *)
theory Spec2Isabelle
  imports Api Engine_Locks
begin

text \<open>
  MokuDB, a relational database in Go: SQL text goes through lexer, parser, planner and executor to one B+-tree
  over a buffer pool, a page file and a write-ahead log, under transactions with table locks. A client library, a query server and
  a visualizer with one database per browser session sit on top.

  \<^bold>\<open>Theories and code\<close> (paths under \<open>src/\<close>)

  \<^item> \<open>Prelude\<close>: results of Go code (\<open>Ok\<close>, \<open>Err\<close>, \<open>Panic\<close>, and \<open>Stuck\<close> when fuel runs out), the state monad
    \<open>bindG\<close> they are threaded through, byte slices and big-endian numbers.
  \<^item> \<open>Page\<close>: \<open>storage/page/page.go\<close>, slotted pages byte by byte. \<open>Disk\<close>: \<open>storage/page/disk.go\<close>, the database file.
    \<open>Wal\<close>: \<open>storage/wal/wal.go\<close>, the log file and its buffer. \<open>Buffer_Pool\<close>: \<open>storage/buffer/buffer.go\<close>, frames, pins,
    the LRU list, flushing and discarding per transaction.
  \<^item> \<open>Db_Types\<close>: \<open>types/\<close>. \<open>Cell\<close>: \<open>storage/btree/cell.go\<close>, keys and rows as bytes. \<open>BTree\<close>: \<open>storage/btree/btree.go\<close>,
    every operation of the tree. \<open>Recovery\<close>: \<open>storage/btree/recovery.go\<close>. \<open>Txn\<close>: \<open>txn/txn.go\<close>.
  \<^item> \<open>Page_Store\<close>, \<open>BTree_Page\<close>, \<open>Tree\<close>: the proofs about reading the tree, from the pool as a map from pages to contents, over
    the cells of a page, to the shape of the whole tree. \<open>Tree_Insert\<close>, \<open>Tree_Split\<close>, \<open>Tree_Grow\<close>, \<open>Tree_Patch\<close>, \<open>Tree_Change\<close>: insertion
    with the splits of leaves, nodes and the root, update and deletion. \<open>Repository_Change\<close>: the same for the rows of tables.
  \<^item> \<open>Dump\<close>: \<open>storage/btree/dump.go\<close>, the snapshot of the tree for the visualizer.
  \<^item> \<open>Lexer\<close>: \<open>sql/lexer/lexer.go\<close>. \<open>Ast\<close>: \<open>sql/ast/ast.go\<close>. \<open>Parser\<close>: \<open>sql/parser/parser.go\<close>. \<open>Parser_Print\<close> and \<open>Sql\<close>: a
    printer for statements and the proofs that parsing undoes it. \<open>Planner\<close>: \<open>sql/planner/planner.go\<close>. \<open>Decimal\<close>: decimal
    numbers. \<open>Catalog\<close>: \<open>catalog/catalog.go\<close>.
  \<^item> \<open>Executor\<close>: the executors and the evaluation of expressions of \<open>executor/executor.go\<close>. \<open>Query\<close>, \<open>Select\<close>: the outcome of the
    executors on lists of rows, faults included, and the proofs that they compute it. \<open>Relational\<close>: what SQL means by a query, defined
    from the operators alone (\<open>sql_rows\<close>), the plans for which the executors give just that (\<open>well_posed\<close>), and the proof. \<open>Repository\<close>:
    \<open>infrastructure/btree_repository.go\<close>. \<open>Engine\<close>: the \<open>Engine\<close> of \<open>executor/executor.go\<close>. \<open>Durable\<close>: what commit and recovery
    together keep of the file. \<open>Engine_Write\<close>, \<open>Engine_Delete\<close>: the proofs about statements that change a table. \<open>Engine_Locks\<close>:
    the locks a failed commit leaves behind, over all later statements.
  \<^item> \<open>Client\<close>: \<open>client/client.go\<close>, opening a directory, statements and explicit transactions. \<open>Client_Runs\<close>: statements from
    their text to the files, and the witnesses, which run one database from an empty directory on.
  \<^item> \<open>Padding\<close>, \<open>Session\<close>: \<open>padding.go\<close>, \<open>session.go\<close> and \<open>wal.go\<close> of \<open>db-internal-app/internal/dbsession\<close>, a database of the visualizer with
    its views of tree and log. \<open>Session_Store\<close>: \<open>db-internal-app/internal/api/sessions.go\<close>, the sessions and their directories, with a step
    relation of what happens to them. \<open>Api\<close>: \<open>db-internal-app/internal/api/server.go\<close> and \<open>api/handler.go\<close>, the HTTP handlers.

  \<^bold>\<open>State\<close>. A struct is a record with the fields of the code, a pointer receiver is a state that is passed and
  returned. A \<open>*page.Page\<close> of the pool is the number of the page, so that writes through it are seen by every
  holder; a map with few keys is an association list. Machine integers are words of their width. An \<open>error\<close> is a
  constructor of \<open>err\<close> (\<open>Prelude\<close>) with the values its message shows. A runtime panic, an index out of range or a
  failed type assertion, is \<open>Panic\<close>, in pure code \<open>None\<close>.

  \<^bold>\<open>What is proved\<close>

  \<^item> Storage: pages are lists of cells under insertion and deletion (\<open>Page\<close>), the file keeps every other page, the log
    gives back what was appended and flushed (\<open>Wal\<close>), the pool shows current contents and never evicts a dirty or
    pinned page (\<open>Buffer_Pool\<close>).
  \<^item> Transactions: commit makes exactly the pages of the transaction durable, rollback restores them, a write lock
    excludes (\<open>Txn\<close>, a step relation over lock requests, the goroutines that wait for a mutex, timeouts and
    cancellation), recovery redoes exactly the images of the transactions that the log ends with a \<open>COMMIT\<close>
    and can be interrupted and restarted, in whatever order Go ranges over the pages (\<open>Recovery\<close>).
  \<^item> Tree: keys are totally ordered, search and scan return exactly the rows of the tree (\<open>Repository\<close>); insertion, update and
    deletion change exactly the row of the key and keep the tree well-formed (\<open>Repository_Change\<close>). An update needs room for the
    new row when the key is a separator and its row alone in the leaf (\<open>update_fits\<close>): without it the code builds a tree with a leaf
    too much (\<open>update_alone_splits\<close> in \<open>Tree_Change\<close>).
  \<^item> SQL: tokens and statements are read back from their text, with the parentheses the precedences ask for (\<open>IS NULL\<close> binds
    tighter than the comparisons), positions are right, tokenizing always ends and parsing ends but for one case (\<open>Lexer\<close>, \<open>Sql\<close>).
  \<^item> Queries: plans are well-formed, executing a well-posed plan gives the rows SQL means by it (\<open>Relational\<close>), the index scan
    equals the filter (\<open>Select\<close>); the catalog survives its file (\<open>Catalog\<close>); the engine takes the locks a plan needs, and a query on
    its own commits or rolls back and releases them (\<open>Engine\<close>); after a failed commit they are never released (\<open>Engine_Locks\<close>). Well-posed
    are the plans whose comparisons compare integers with integers and strings with strings, whose index scan is an equality, in whose joins
    only the first left row has partners, whose columns exist, in joins with distinct names, and whose sorts have values of one kind.
  \<^item> The whole stack: a committed \<open>INSERT\<close>, \<open>DELETE\<close> or \<open>CREATE TABLE\<close> is there after the process ends and the files are opened again, a
    \<open>SELECT\<close> with condition, projection and limit returns from its text the rows SQL means by it (\<open>Client_Runs\<close>); the same \<open>INSERT\<close> through the handlers of the visualizer
    (\<open>Api\<close>). These are statements about an engine that has not yet reused a transaction id: ids start at 1 again after every start.
  \<^item> The visualizer: padded ids order like numbers (\<open>Padding\<close>), the shown tree is the tree, the entry of a logged change of one row shows that row,
    the shown log the log (\<open>Session\<close>); the number of sessions is bounded, the oldest goes first, a reset of a plain name touches no other
    (\<open>Session_Store\<close>); errors, the list of tables and CORS of the handlers (\<open>Api\<close>).
  \<^item> Faults of the code, each a theorem about the definitions: a lock that is never released after a timeout, a
    failed commit that keeps its locks, range conditions on the key that look up one key, joins that return the
    rows of the first left row only, \<open>NULL\<close> that equals everything, conditions cut at \<open>IS NULL\<close>, ignored tokens,
    \<open>INT NULL\<close> that hangs the parser, a reused transaction id that makes recovery redo an aborted change, \<open>BEGIN\<close> and \<open>ROLLBACK\<close> that do nothing, tables that survive a rollback, short ids that collide
    when padded, \<open>NOT\<close> that is not padded, a cookie that resets a directory outside the data directory, answers that name columns a
    projection has dropped.

  \<^bold>\<open>Interfaces\<close>. The locales state what one part needs of another, and are interpreted on the model of the code:
  the pool as a page store, the repository as tables of rows, a repository whose operations leave a part of the state alone, as
  that of the engine leaves the locks (\<open>steady_repository\<close>), the planner's reader of the catalog.

  \<^bold>\<open>Fuel\<close>. Loops over the pages of a tree take fuel: \<open>n\<close> bounds the height, \<open>m\<close> the number of leaves of a chain, \<open>k\<close> the
  calls of \<open>Next\<close> of a query. Theorems give fuel for which the result is not \<open>Stuck\<close> and does not change with more.
  The parser takes fuel for \<open>CREATE TABLE\<close> only, where the length of the input is enough.

  \<^bold>\<open>Not modelled\<close>. Mutexes inside the components (each operation is atomic) and concurrent execution of statements
  beyond their locks; I/O errors other than those of the log and catalog files where they matter; the capacity of
  slices beyond their length; texts of error messages; the JSON syntax of the catalog file (its value is kept);
  the pattern-defeating part of \<open>sort.SliceStable\<close>: it is insertion sort, which is what the library does up to 20 rows and
  agrees with on any comparison that is an order. Of the servers: the JSON text of requests and responses, the routing table, the ticker
  of the cleanup (each tick is a step) and requests that run at the same time; closing file handles; symbolic links in paths; the
  content of a directory whose opening or removal failed half-way. The two \<open>main\<close> packages read the environment, wire the components
  like \<open>client.Open\<close> and listen: they have no model.
\<close>

end
